(* ===== verification/Prelude.thy ===== *)
theory Prelude
  imports Main "HOL-Library.Word"
begin

text \<open>
  What every component of the model shares.

  \<^item> Go's sized integers are words of the same width (\<open>byte\<close>, \<open>uint16\<close>, \<open>uint32\<close>,
    \<open>uint64\<close>); \<open>uint\<close> is 64 bits wide, as on every platform the client is built for. Go's
    \<open>int\<close> is the HOL type \<open>int\<close> wherever the code keeps it far inside 64 bits.
  \<^item> A Go \<open>string\<close> is a HOL \<open>string\<close>: a list of 8-bit characters. A \<open>[]byte\<close> is a
    \<open>u8 list\<close>.
  \<^item> A result \<open>(T, error)\<close> is a value of \<open>go_err + 'a\<close>. A run-time panic is one of the
    errors, so that code which cannot panic can be told from code which can.
  \<^item> Byte-order conversions of \<open>encoding/binary\<close> and their round trips.
\<close>

unbundle bit_operations_syntax

section \<open>Types\<close>

type_synonym u8 = "8 word"
type_synonym u16 = "16 word"
type_synonym u32 = "32 word"
type_synonym u64 = "64 word"
type_synonym bytes = "8 word list"

text \<open>
  \<open>Failure\<close> carries the constant part of the message the code builds; interpolated values
  are left out. \<open>Panic\<close> names the run-time panic.
\<close>

datatype go_err =
    EOF
  | UnexpectedEOF
  | Failure string
  | Canceled
  | Panic string

definition is_panic :: "go_err \<Rightarrow> bool" where
  "is_panic e = (case e of Panic _ \<Rightarrow> True | _ \<Rightarrow> False)"

lemma is_panic_simps [simp]:
  "is_panic (Panic m)" "\<not> is_panic EOF" "\<not> is_panic UnexpectedEOF"
  "\<not> is_panic (Failure m)" "\<not> is_panic Canceled"
  by (simp_all add: is_panic_def)

section \<open>Sequencing of fallible code\<close>

text \<open>\<open>bindR m f\<close> is \<open>x, err := m; if err != nil { return err }; f(x)\<close>.\<close>

fun bindR :: "'e + 'a \<Rightarrow> ('a \<Rightarrow> 'e + 'b) \<Rightarrow> 'e + 'b" where
  "bindR (Inl e) f = Inl e"
| "bindR (Inr x) f = f x"

named_theorems go_elims \<open>inversions of fallible code that returned a value\<close>

lemma bindR_Inr_iff: "bindR m f = Inr y \<longleftrightarrow> (\<exists>x. m = Inr x \<and> f x = Inr y)"
  by (cases m) auto

lemma bindR_Inl_iff:
  "bindR m f = Inl e \<longleftrightarrow> m = Inl e \<or> (\<exists>x. m = Inr x \<and> f x = Inl e)"
  by (cases m) auto

lemma bindR_InrE [go_elims]:
  assumes "bindR m f = Inr y"
  obtains x where "m = Inr x" and "f x = Inr y"
  using assms by (auto simp: bindR_Inr_iff)

lemma bindR_cong [fundef_cong]:
  "m = m' \<Longrightarrow> (\<And>x. m' = Inr x \<Longrightarrow> f x = g x) \<Longrightarrow> bindR m f = bindR m' g"
  by (cases m') auto

text \<open>\<open>guardR b e\<close> is \<open>if !b { return e }\<close>.\<close>

definition guardR :: "bool \<Rightarrow> 'e \<Rightarrow> 'e + unit" where
  "guardR b e = (if b then Inr () else Inl e)"

lemma guardR_iff [simp]:
  "guardR b e = Inr u \<longleftrightarrow> b" "guardR b e = Inl e' \<longleftrightarrow> \<not> b \<and> e' = e"
  by (auto simp: guardR_def)

section \<open>Bounded reads of a slice\<close>

text \<open>\<open>xs[i]\<close>, with the panic Go raises outside the slice.\<close>

definition index_get :: "'a list \<Rightarrow> int \<Rightarrow> go_err + 'a" where
  "index_get xs i =
     (if 0 \<le> i \<and> i < int (length xs) then Inr (xs ! nat i)
      else Inl (Panic ''index out of range''))"

lemma index_get_Inr_iff:
  "index_get xs i = Inr x \<longleftrightarrow> 0 \<le> i \<and> i < int (length xs) \<and> x = xs ! nat i"
  by (auto simp: index_get_def)

text \<open>\<open>xs[i] = v\<close> and \<open>xs[i]\<close> for an index that is not negative.\<close>

definition arr_put :: "nat \<Rightarrow> 'a \<Rightarrow> 'a list \<Rightarrow> go_err + 'a list" where
  "arr_put i v xs = (if i < length xs then Inr (xs[i := v]) else Inl (Panic ''index out of range''))"

definition arr_get :: "'a list \<Rightarrow> nat \<Rightarrow> go_err + 'a" where
  "arr_get xs i = (if i < length xs then Inr (xs ! i) else Inl (Panic ''index out of range''))"

text \<open>The next store into a slice that is filled from the front.\<close>

lemma arr_put_next: "i = length xs \<Longrightarrow> arr_put i v (xs @ z # zs) = Inr (xs @ v # zs)"
  by (simp add: arr_put_def list_update_append)

section \<open>Byte order\<close>

text \<open>\<open>binary.BigEndian.UintN\<close> and \<open>binary.LittleEndian.UintN\<close> of a buffer.\<close>

definition be_word :: "bytes \<Rightarrow> 'a::len word" where
  "be_word bs = foldl (\<lambda>v b. push_bit 8 v OR ucast b) 0 bs"

definition le_word :: "bytes \<Rightarrow> 'a::len word" where
  "le_word bs = be_word (rev bs)"

text \<open>\<open>binary.BigEndian.PutUintN\<close> and \<open>binary.LittleEndian.PutUintN\<close> into \<open>n\<close> bytes.\<close>

fun be_bytes :: "nat \<Rightarrow> 'a::len word \<Rightarrow> bytes" where
  "be_bytes 0 w = []"
| "be_bytes (Suc n) w = be_bytes n (drop_bit 8 w) @ [ucast w]"

definition le_bytes :: "nat \<Rightarrow> 'a::len word \<Rightarrow> bytes" where
  "le_bytes n w = rev (be_bytes n w)"

lemma length_be_bytes [simp]: "length (be_bytes n w) = n"
  by (induction n arbitrary: w) auto

lemma length_le_bytes [simp]: "length (le_bytes n w) = n"
  by (simp add: le_bytes_def)

lemma be_word_Nil [simp]: "be_word [] = 0"
  by (simp add: be_word_def)

lemma be_word_snoc [simp]: "be_word (bs @ [b]) = push_bit 8 (be_word bs) OR ucast b"
  by (simp add: be_word_def)

lemma push_drop_or_low: "push_bit 8 (drop_bit 8 w) OR ucast (ucast w :: u8) = (w :: 'a::len word)"
  by (rule bit_word_eqI) (auto simp: bit_simps)

text \<open>Writing and reading back, when the width fits into the bytes.\<close>

lemma be_word_be_bytes:
  assumes "LENGTH('a) \<le> 8 * n"
  shows "be_word (be_bytes n w) = (w :: 'a::len word)"
proof -
  have "be_word (be_bytes n w) = take_bit (8 * n) w" for w :: "'a word"
  proof (induction n arbitrary: w)
    case 0
    then show ?case by simp
  next
    case (Suc n)
    show ?case
      by (rule bit_word_eqI) (auto simp: Suc bit_simps)
  qed
  then show ?thesis
    using assms by (simp add: take_bit_word_eq_self)
qed

lemma le_word_le_bytes:
  assumes "LENGTH('a) \<le> 8 * n"
  shows "le_word (le_bytes n w) = (w :: 'a::len word)"
  using be_word_be_bytes [OF assms] by (simp add: le_word_def le_bytes_def)

text \<open>Reading and writing back, when the bytes fit into the width.\<close>

lemma bit_be_word_less:
  "bit (be_word bs :: 'a::len word) i \<Longrightarrow> i < 8 * length bs"
proof (induction bs arbitrary: i rule: rev_induct)
  case Nil
  then show ?case by simp
next
  case (snoc b bs)
  then consider "8 \<le> i" "bit (be_word bs :: 'a word) (i - 8)" | "bit b i"
    by (auto simp: bit_simps)
  then show ?case
  proof cases
    case 1
    with snoc.IH [of "i - 8"] show ?thesis by simp
  next
    case 2
    then show ?thesis by (auto dest: bit_imp_le_length)
  qed
qed

lemma be_bytes_be_word:
  assumes "8 * length bs \<le> LENGTH('a)"
  shows "be_bytes (length bs) (be_word bs :: 'a::len word) = bs"
  using assms
proof (induction bs rule: rev_induct)
  case Nil
  then show ?case by simp
next
  case (snoc b bs)
  have "drop_bit 8 (push_bit 8 (be_word bs) OR ucast b :: 'a word) = be_word bs"
    using snoc.prems
    by (intro bit_word_eqI)
      (auto simp: bit_simps dest: bit_imp_le_length bit_be_word_less)
  moreover have "ucast (push_bit 8 (be_word bs) OR ucast b :: 'a word) = b"
    using snoc.prems by (intro bit_word_eqI) (auto simp: bit_simps)
  ultimately show ?case
    using snoc by simp
qed

lemma word_xor_cancel:
  "x XOR z = y XOR z \<longleftrightarrow> x = y" "z XOR x = z XOR y \<longleftrightarrow> x = (y :: 'a::len word)"
proof -
  have "x XOR z = y XOR z \<Longrightarrow> x = y" for x y z :: "'a word"
    by (metis xor.assoc xor_self_eq xor.right_neutral)
  then show "x XOR z = y XOR z \<longleftrightarrow> x = y" "z XOR x = z XOR y \<longleftrightarrow> x = y"
    by (metis xor.commute)+
qed

end
