(* ===== verification/GoIO.thy ===== *)
theory GoIO
  imports Prelude
begin

text \<open>
  The part of Go's \<open>io\<close> and \<open>bytes\<close> packages that the codecs read their input through.

  \<^item> \<open>read_seeker\<close> is the interface \<open>io.ReadSeeker\<close> as a record of its two methods, over
    a state type. \<open>rs_left\<close> is not a method: it is the number of bytes a reader can still
    give, and it is only looked at to see that a loop over \<open>Read\<close> makes progress.
  \<^item> \<open>byte_reader\<close> is \<open>bytes.Reader\<close> (and an \<open>os.File\<close> of a regular file): contents and a
    position, which may lie behind the end.
  \<^item> A method returns \<open>(value, err)\<close>. Code that tests \<open>err\<close> runs it under \<open>checkErr\<close>, code
    that writes \<open>v, _ :=\<close> runs it under \<open>dropErr\<close>; a panic is never dropped.
  \<^item> The locale \<open>seekable_reader\<close> is the contract of the interface: a reader behaves as a
    \<open>byte_reader\<close> seen through an abstraction function. Code written against the interface
    is shown once, inside the locale, to simulate the same code on a \<open>byte_reader\<close>.
\<close>

section \<open>The interface\<close>

datatype whence = SeekStart | SeekCurrent | SeekEnd

record 's read_seeker =
  rs_read :: "'s \<Rightarrow> nat \<Rightarrow> (bytes \<times> go_err option) \<times> 's"
  rs_seek :: "'s \<Rightarrow> int \<Rightarrow> whence \<Rightarrow> (int \<times> go_err option) \<times> 's"
  rs_left :: "'s \<Rightarrow> nat"

text \<open>A method with receiver state \<open>'s\<close>, and code that may stop with an error.\<close>

type_synonym ('s, 'a) gop = "'s \<Rightarrow> ('a \<times> go_err option) \<times> 's"
type_synonym ('s, 'a) io = "'s \<Rightarrow> (go_err + 'a) \<times> 's"

definition returnS :: "'a \<Rightarrow> ('s, 'a) io" where
  "returnS x s = (Inr x, s)"

definition throwS :: "go_err \<Rightarrow> ('s, 'a) io" where
  "throwS e s = (Inl e, s)"

definition bindS :: "('s, 'a) io \<Rightarrow> ('a \<Rightarrow> ('s, 'b) io) \<Rightarrow> ('s, 'b) io" where
  "bindS m f s = (case m s of (Inl e, s') \<Rightarrow> (Inl e, s') | (Inr x, s') \<Rightarrow> f x s')"

definition checkErr :: "('s, 'a) gop \<Rightarrow> ('s, 'a) io" where
  "checkErr m s = (case m s of ((v, None), s') \<Rightarrow> (Inr v, s') | ((v, Some e), s') \<Rightarrow> (Inl e, s'))"

definition dropErr :: "('s, 'a) gop \<Rightarrow> ('s, 'a) io" where
  "dropErr m s =
     (case m s of
        ((v, None), s') \<Rightarrow> (Inr v, s')
      | ((v, Some e), s') \<Rightarrow> (if is_panic e then Inl e else Inr v, s'))"

lemma bindS_returnS [simp]: "bindS (returnS x) f = f x"
  by (simp add: bindS_def returnS_def fun_eq_iff)

lemma bindS_Inr: "m s = (Inr x, t) \<Longrightarrow> bindS m f s = f x t"
  by (simp add: bindS_def)

lemma bindS_assoc: "bindS (bindS m f) g = bindS m (\<lambda>x. bindS (f x) g)"
  by (auto simp: bindS_def fun_eq_iff split: prod.splits sum.splits)

lemma bindS_InrE [go_elims]:
  assumes "bindS m f s = (Inr y, t)"
  obtains x u where "m s = (Inr x, u)" and "f x u = (Inr y, t)"
  using assms by (auto simp: bindS_def split: prod.splits sum.splits)

lemma returnS_iff [simp]: "returnS x s = (r, t) \<longleftrightarrow> r = Inr x \<and> t = s"
  by (auto simp: returnS_def)

lemma throwS_iff [simp]: "throwS e s = (r, t) \<longleftrightarrow> r = Inl e \<and> t = s"
  by (auto simp: throwS_def)

text \<open>A step that leaves the state alone.\<close>

definition resultS :: "go_err + 'a \<Rightarrow> ('s, 'a) io" where
  "resultS r s = (r, s)"

lemma resultS_Inr [simp]: "resultS (Inr x) = returnS x"
  by (simp add: resultS_def returnS_def fun_eq_iff)

lemma resultS_Inl [simp]: "resultS (Inl e) = throwS e"
  by (simp add: resultS_def throwS_def fun_eq_iff)

definition mapS :: "('a \<Rightarrow> 'b) \<Rightarrow> ('s, 'a) io \<Rightarrow> ('s, 'b) io" where
  "mapS f m = bindS m (\<lambda>x. returnS (f x))"

text \<open>\<open>if err != nil { return fmt.Errorf(msg, err) }\<close>; a panic passes through.\<close>

definition wrapErr :: "string \<Rightarrow> ('s, 'a) io \<Rightarrow> ('s, 'a) io" where
  "wrapErr msg m s =
     (case m s of
        (Inl e, s') \<Rightarrow> (Inl (if is_panic e then e else Failure msg), s')
      | (Inr x, s') \<Rightarrow> (Inr x, s'))"

lemma mapS_InrE [go_elims]:
  assumes "mapS f m s = (Inr y, t)"
  obtains x where "m s = (Inr x, t)" and "y = f x"
  using assms by (auto simp: mapS_def elim!: bindS_InrE)

lemma wrapErr_Inr_iff [simp]: "wrapErr msg m s = (Inr y, t) \<longleftrightarrow> m s = (Inr y, t)"
  by (auto simp: wrapErr_def split: prod.splits sum.splits)

lemma checkErr_Inr_iff: "checkErr m s = (Inr v, t) \<longleftrightarrow> m s = ((v, None), t)"
  by (auto simp: checkErr_def split: prod.splits option.splits)

lemma throwS_Inr [simp]: "throwS e s \<noteq> (Inr y, t)"
  by (simp add: throwS_def)

text \<open>\<open>for i := 0; i < n; i++\<close> collecting one value per round.\<close>

fun repeatS :: "nat \<Rightarrow> nat \<Rightarrow> (nat \<Rightarrow> ('s, 'a) io) \<Rightarrow> ('s, 'a list) io" where
  "repeatS 0 i m = returnS []"
| "repeatS (Suc n) i m =
     bindS (m i) (\<lambda>x. bindS (repeatS n (Suc i) m) (\<lambda>xs. returnS (x # xs)))"

lemma length_repeatS:
  "repeatS n i m s = (Inr xs, t) \<Longrightarrow> length xs = n"
  by (induction n arbitrary: i s xs t) (auto elim!: go_elims)

section \<open>Reading a whole buffer: \<open>io.ReadFull\<close>\<close>

text \<open>
  The loop of \<open>io.ReadAtLeast\<close>. The second test stops a reader that gives nothing and
  reports nothing; no reader that satisfies the contract below does.
\<close>

function read_loop :: "'s read_seeker \<Rightarrow> nat \<Rightarrow> ('s, bytes) gop" where
  "read_loop R n s =
     (if n = 0 then (([], None), s)
      else case rs_read R s n of
        ((got, Some e), s') \<Rightarrow> ((got, Some e), s')
      | ((got, None), s') \<Rightarrow>
          (if got = [] then (([], Some (Failure ''no progress'')), s')
           else case read_loop R (n - length got) s' of
             ((rest, e), s'') \<Rightarrow> ((got @ rest, e), s'')))"
  by pat_completeness auto
termination
  by (relation "measure (\<lambda>(R, n, s). n)") (auto simp: length_greater_0_conv [symmetric] simp del: length_greater_0_conv)

declare read_loop.simps [simp del]

text \<open>The error \<open>io.ReadFull\<close> reports after reading \<open>got\<close> of \<open>n\<close> bytes.\<close>

definition read_full_err :: "nat \<Rightarrow> bytes \<Rightarrow> go_err option \<Rightarrow> go_err option" where
  "read_full_err n got e =
     (if n \<le> length got then None
      else if e = Some EOF \<and> got \<noteq> [] then Some UnexpectedEOF else e)"

text \<open>
  \<open>buf := make([]byte, n); k, err := io.ReadFull(r, buf)\<close>: the buffer is zero where
  nothing was read.
\<close>

definition read_full :: "'s read_seeker \<Rightarrow> nat \<Rightarrow> ('s, bytes) gop" where
  "read_full R n s =
     (case read_loop R n s of
        ((got, e), s') \<Rightarrow>
          ((take n got @ replicate (n - length got) 0, read_full_err n got e), s'))"

section \<open>\<open>bytes.Reader\<close>\<close>

record byte_reader =
  br_data :: bytes
  br_pos :: nat

definition bytes_Read :: "byte_reader \<Rightarrow> nat \<Rightarrow> (bytes \<times> go_err option) \<times> byte_reader" where
  "bytes_Read r n =
     (if length (br_data r) \<le> br_pos r then (([], Some EOF), r)
      else let got = take n (drop (br_pos r) (br_data r))
           in ((got, None), r\<lparr>br_pos := br_pos r + length got\<rparr>))"

definition bytes_Seek :: "byte_reader \<Rightarrow> int \<Rightarrow> whence \<Rightarrow> (int \<times> go_err option) \<times> byte_reader" where
  "bytes_Seek r off wh =
     (let p = (case wh of SeekStart \<Rightarrow> off
                        | SeekCurrent \<Rightarrow> int (br_pos r) + off
                        | SeekEnd \<Rightarrow> int (length (br_data r)) + off)
      in if p < 0 then ((0, Some (Failure ''negative position'')), r)
         else ((p, None), r\<lparr>br_pos := nat p\<rparr>))"

definition bytes_ops :: "byte_reader read_seeker" where
  "bytes_ops = \<lparr>rs_read = bytes_Read, rs_seek = bytes_Seek,
                rs_left = (\<lambda>r. length (br_data r) - br_pos r)\<rparr>"

definition new_reader :: "bytes \<Rightarrow> byte_reader" where
  "new_reader bs = \<lparr>br_data = bs, br_pos = 0\<rparr>"

lemma bytes_ops_simps [simp]:
  "rs_read bytes_ops = bytes_Read" "rs_seek bytes_ops = bytes_Seek"
  "rs_left bytes_ops r = length (br_data r) - br_pos r"
  by (simp_all add: bytes_ops_def)

lemma new_reader_simps [simp]: "br_data (new_reader bs) = bs" "br_pos (new_reader bs) = 0"
  by (simp_all add: new_reader_def)

text \<open>The bytes from the position on, and what a read of \<open>n\<close> of them does.\<close>

definition br_rest :: "byte_reader \<Rightarrow> bytes" where
  "br_rest r = drop (br_pos r) (br_data r)"

lemma read_loop_0 [simp]: "read_loop R 0 s = (([], None), s)"
  by (simp add: read_loop.simps)

lemma read_loop_eof:
  "0 < n \<Longrightarrow> length (br_data r) \<le> br_pos r \<Longrightarrow>
   read_loop bytes_ops n r = (([], Some EOF), r)"
  by (simp add: read_loop.simps bytes_Read_def)

lemma read_loop_bytes:
  "read_loop bytes_ops n r =
     ((take n (br_rest r),
       if length (br_rest r) < n then Some EOF else None),
      r\<lparr>br_pos := br_pos r + min n (length (br_rest r))\<rparr>)"
proof (cases "n = 0 \<or> length (br_data r) \<le> br_pos r")
  case True
  then show ?thesis by (auto simp: read_loop_eof br_rest_def)
next
  case False
  then have "bytes_Read r n = ((take n (br_rest r), None),
      r\<lparr>br_pos := br_pos r + min n (length (br_rest r))\<rparr>)"
    by (auto simp: bytes_Read_def br_rest_def min.commute Let_def)
  then show ?thesis
    using False
    by (cases "length (br_rest r) < n")
      (auto simp: read_loop.simps [of _ n] read_loop_eof br_rest_def)
qed

lemma read_full_bytes:
  "read_full bytes_ops n r =
     ((take n (br_rest r) @ replicate (n - length (br_rest r)) 0,
       if n \<le> length (br_rest r) then None
       else if br_rest r = [] then Some EOF else Some UnexpectedEOF),
      r\<lparr>br_pos := br_pos r + min n (length (br_rest r))\<rparr>)"
  by (auto simp: read_full_def read_full_err_def read_loop_bytes)

section \<open>The contract\<close>

text \<open>
  \<open>simS ok view m m'\<close>: from a state that is \<open>ok\<close>, \<open>m\<close> gives the result \<open>m'\<close> gives from
  the viewed state, and their end states correspond again.
\<close>

definition simS :: "('s \<Rightarrow> bool) \<Rightarrow> ('s \<Rightarrow> 't) \<Rightarrow> ('s \<Rightarrow> 'r \<times> 's) \<Rightarrow> ('t \<Rightarrow> 'r \<times> 't) \<Rightarrow> bool" where
  "simS ok view m m' \<longleftrightarrow>
     (\<forall>s. ok s \<longrightarrow> m' (view s) = apsnd view (m s) \<and> ok (snd (m s)))"

named_theorems sim_intros \<open>code against the interface simulates code on a byte reader\<close>

lemma simSI:
  assumes "\<And>s r s'. ok s \<Longrightarrow> m s = (r, s') \<Longrightarrow> m' (view s) = (r, view s') \<and> ok s'"
  shows "simS ok view m m'"
  unfolding simS_def
proof (intro allI impI)
  fix s assume "ok s"
  with assms [of s "fst (m s)" "snd (m s)"]
  show "m' (view s) = apsnd view (m s) \<and> ok (snd (m s))"
    by (cases "m s") simp
qed

lemma simSD:
  assumes "simS ok view m m'" and "ok s" and "m s = (r, s')"
  shows "m' (view s) = (r, view s')" and "ok s'"
  using assms by (auto simp: simS_def)

lemma simS_returnS [sim_intros]: "simS ok view (returnS x) (returnS x)"
  by (rule simSI) auto

lemma simS_throwS [sim_intros]: "simS ok view (throwS e) (throwS e)"
  by (rule simSI) auto

lemma simS_bindS [sim_intros]:
  assumes "simS ok view m m'" and "\<And>x. simS ok view (f x) (f' x)"
  shows "simS ok view (bindS m f) (bindS m' f')"
proof (rule simSI)
  fix s r s'
  assume ok: "ok s" and run: "bindS m f s = (r, s')"
  obtain q u where q: "m s = (q, u)" by fastforce
  note m' = simSD [OF assms(1) ok q]
  show "bindS m' f' (view s) = (r, view s') \<and> ok s'"
  proof (cases q)
    case (Inl e)
    with run q m' show ?thesis by (simp add: bindS_def)
  next
    case (Inr x)
    with run q have "f x u = (r, s')" by (simp add: bindS_def)
    from simSD [OF assms(2) m'(2) this] Inr m'(1) show ?thesis by (simp add: bindS_def)
  qed
qed

lemma simS_checkErr [sim_intros]:
  assumes "simS ok view m m'"
  shows "simS ok view (checkErr m) (checkErr m')"
proof (rule simSI)
  fix s r s'
  assume ok: "ok s" and run: "checkErr m s = (r, s')"
  obtain v e u where q: "m s = ((v, e), u)" by (metis surj_pair)
  from simSD [OF assms ok q] run q show "checkErr m' (view s) = (r, view s') \<and> ok s'"
    by (auto simp: checkErr_def split: option.splits)
qed

lemma simS_dropErr [sim_intros]:
  assumes "simS ok view m m'"
  shows "simS ok view (dropErr m) (dropErr m')"
proof (rule simSI)
  fix s r s'
  assume ok: "ok s" and run: "dropErr m s = (r, s')"
  obtain v e u where q: "m s = ((v, e), u)" by (metis surj_pair)
  from simSD [OF assms ok q] run q show "dropErr m' (view s) = (r, view s') \<and> ok s'"
    by (auto simp: dropErr_def split: option.splits if_splits)
qed

lemma simS_mapS [sim_intros]: "simS ok view m m' \<Longrightarrow> simS ok view (mapS f m) (mapS f m')"
  by (auto simp: mapS_def intro!: sim_intros)

lemma simS_wrapErr [sim_intros]:
  assumes "simS ok view m m'"
  shows "simS ok view (wrapErr msg m) (wrapErr msg m')"
proof (rule simSI)
  fix s r s'
  assume ok: "ok s" and run: "wrapErr msg m s = (r, s')"
  obtain q u where q: "m s = (q, u)" by fastforce
  from simSD [OF assms ok q] run q show "wrapErr msg m' (view s) = (r, view s') \<and> ok s'"
    by (auto simp: wrapErr_def split: sum.splits)
qed

lemma simS_If [sim_intros]:
  assumes "b \<Longrightarrow> simS ok view m m'" and "\<not> b \<Longrightarrow> simS ok view n n'"
  shows "simS ok view (if b then m else n) (if b then m' else n')"
  using assms by simp

lemma simS_repeatS [sim_intros]:
  assumes "\<And>j. simS ok view (m j) (m' j)"
  shows "simS ok view (repeatS n i m) (repeatS n i m')"
  by (induction n arbitrary: i) (auto intro!: sim_intros assms)

locale seekable_reader =
  fixes R :: "'s read_seeker"
    and view :: "'s \<Rightarrow> byte_reader"
    and ok :: "'s \<Rightarrow> bool"
  assumes read_sim: "simS ok view (\<lambda>s. rs_read R s n) (\<lambda>r. bytes_Read r n)"
    and seek_sim: "0 \<le> off \<Longrightarrow> simS ok view (\<lambda>s. rs_seek R s off SeekStart) (\<lambda>r. bytes_Seek r off SeekStart)"
    and tell_sim: "simS ok view (\<lambda>s. rs_seek R s 0 SeekCurrent) (\<lambda>r. bytes_Seek r 0 SeekCurrent)"
    and left_eq: "ok s \<Longrightarrow> rs_left R s = length (br_data (view s)) - br_pos (view s)"
begin

lemma read_loop_sim: "simS ok view (read_loop R n) (read_loop bytes_ops n)"
proof (induction n rule: less_induct)
  case (less n)
  show ?case
  proof (rule simSI)
    fix s r s'
    assume ok: "ok s" and run: "read_loop R n s = (r, s')"
    show "read_loop bytes_ops n (view s) = (r, view s') \<and> ok s'"
    proof (cases "n = 0")
      case True
      with ok run show ?thesis by (simp add: read_loop.simps [of _ 0])
    next
      case False
      obtain got e u where q: "rs_read R s n = ((got, e), u)" by (metis surj_pair)
      note q' = simSD [OF read_sim ok q]
      show ?thesis
      proof (cases "e = None \<and> got \<noteq> []")
        case True
        then have "n - length got < n" using False by (simp add: length_greater_0_conv [symmetric] del: length_greater_0_conv)
        obtain p e' w where l: "read_loop R (n - length got) u = ((p, e'), w)" by (metis surj_pair)
        from simSD [OF less [OF \<open>n - length got < n\<close>] q'(2) l] True False run q q'(1) l
        show ?thesis by (auto simp: read_loop.simps [of _ n])
      next
        case no: False
        with False run q q' show ?thesis
          by (cases e) (auto simp: read_loop.simps [of _ n])
      qed
    qed
  qed
qed

lemma read_full_sim [sim_intros]: "simS ok view (read_full R n) (read_full bytes_ops n)"
proof (rule simSI)
  fix s r s'
  assume ok: "ok s" and run: "read_full R n s = (r, s')"
  obtain p e w where l: "read_loop R n s = ((p, e), w)" by (metis surj_pair)
  from simSD [OF read_loop_sim ok l] run l
  show "read_full bytes_ops n (view s) = (r, view s') \<and> ok s'"
    by (auto simp: read_full_def)
qed

end

text \<open>\<open>_, _ = r.Seek(off, io.SeekStart)\<close>.\<close>

definition seekS :: "'s read_seeker \<Rightarrow> int \<Rightarrow> ('s, int) io" where
  "seekS R off = dropErr (\<lambda>s. rs_seek R s off SeekStart)"

context seekable_reader begin

lemma seekS_sim [sim_intros]:
  "0 \<le> off \<Longrightarrow> simS ok view (seekS R off) (seekS bytes_ops off)"
  using seek_sim by (auto simp: seekS_def intro!: sim_intros)

end

lemma seekS_bytes [simp]: "0 \<le> off \<Longrightarrow> seekS bytes_ops off r = (Inr off, r\<lparr>br_pos := nat off\<rparr>)"
  by (simp add: seekS_def dropErr_def bytes_Seek_def)

text \<open>A byte reader satisfies its own contract.\<close>

interpretation bytes_reader: seekable_reader bytes_ops "\<lambda>r. r" "\<lambda>_. True"
  by unfold_locales (auto simp: simS_def apsnd_def map_prod_def)

section \<open>Writing\<close>

text \<open>An \<open>io.Writer\<close>: what it holds, and how many bytes fit into it, if there is a limit.\<close>

record writer =
  wr_out :: bytes
  wr_limit :: "nat option"

definition wr_write :: "writer \<Rightarrow> bytes \<Rightarrow> go_err option \<times> writer" where
  "wr_write w p =
     (case wr_limit w of
        None \<Rightarrow> (None, w\<lparr>wr_out := wr_out w @ p\<rparr>)
      | Some k \<Rightarrow>
          (if length (wr_out w) + length p \<le> k then (None, w\<lparr>wr_out := wr_out w @ p\<rparr>)
           else (Some (Failure ''no space left''),
                 w\<lparr>wr_out := wr_out w @ take (k - length (wr_out w)) p\<rparr>)))"

end
