(* ===== verification/XorMask.thy ===== *)
theory XorMask
  imports Prelude
begin

text \<open>
  Loops of the form \<open>for i := 0; i < n; i++ { d[base+i] ^= k(i) }\<close>. Three routines of the
  client are such a loop: the header of an obfuscated bundle (\<open>unpack/obfuscator.go\<close>, twice)
  and the audio mask of a USM file (\<open>cricodecs/usm/usm.go\<close>).

  The locale \<open>xor_mask\<close> is the contract of such a routine. From it follow, once for all, that
  it keeps the length, is its own inverse and is injective.
\<close>

unbundle bit_operations_syntax

definition xor_loop :: "(nat \<Rightarrow> u8) \<Rightarrow> nat \<Rightarrow> nat \<Rightarrow> bytes \<Rightarrow> bytes" where
  "xor_loop k base n d = fold (\<lambda>i d. d[base + i := d ! (base + i) XOR k i]) [0..<n] d"

lemma xor_loop_0 [simp]: "xor_loop k base 0 d = d"
  by (simp add: xor_loop_def)

lemma xor_loop_Suc:
  "xor_loop k base (Suc n) d =
     (xor_loop k base n d)[base + n := xor_loop k base n d ! (base + n) XOR k n]"
  by (simp add: xor_loop_def)

lemma length_xor_loop [simp]: "length (xor_loop k base n d) = length d"
  by (induction n) (simp_all add: xor_loop_Suc)

lemma nth_xor_loop:
  "i < length d \<Longrightarrow>
   xor_loop k base n d ! i =
     (if base \<le> i \<and> i < base + n then d ! i XOR k (i - base) else d ! i)"
proof (induction n arbitrary: i)
  case 0
  then show ?case by auto
next
  case (Suc n)
  then show ?case
    by (cases "i = base + n") (auto simp: xor_loop_Suc)
qed

lemma xor_loop_append:
  "n \<le> length a \<Longrightarrow> xor_loop k 0 n (a @ b) = xor_loop k 0 n a @ b"
  by (rule nth_equalityI) (auto simp: nth_append nth_xor_loop)

locale xor_mask =
  fixes mask :: "bytes \<Rightarrow> bytes"
    and key :: "nat \<Rightarrow> nat \<Rightarrow> u8" \<comment> \<open>the byte applied at an index of a slice of a given length\<close>
  assumes mask_length: "length (mask d) = length d"
    and mask_nth: "i < length d \<Longrightarrow> mask d ! i = d ! i XOR key (length d) i"
begin

lemma mask_mask: "mask (mask d) = d"
  by (rule nth_equalityI) (simp_all add: mask_length mask_nth xor.assoc)

lemma mask_inj: "mask d = mask d' \<longleftrightarrow> d = d'"
  by (metis mask_mask)

lemma mask_fixes: "i < length d \<Longrightarrow> key (length d) i = 0 \<Longrightarrow> mask d ! i = d ! i"
  by (simp add: mask_nth)

lemma mask_xor:
  "length d = length d' \<Longrightarrow> i < length d \<Longrightarrow> mask d ! i XOR mask d' ! i = d ! i XOR d' ! i"
  by (simp add: mask_nth ac_simps)

end

end
