(* ===== verification/Deobfuscation.thy ===== *)
theory Deobfuscation
  imports GoIO XorMask
begin

text \<open>
  \<open>internal/unpack/obfuscator.go\<close>: the two implementations of the bundle deobfuscation, on
  a slice (\<open>Deobfuscate\<close>) and on a stream (\<open>DeobfuscateToWriter\<close>), and the streams the
  second one runs between. An HTTP body gives its bytes in chunks of any size and ends with
  \<open>io.EOF\<close> or with an error; a writer may run out of space.
\<close>

unbundle bit_operations_syntax

section \<open>The streams\<close>

record body =
  bd_chunks :: "bytes list"
  bd_end :: go_err

definition body_Read :: "body \<Rightarrow> nat \<Rightarrow> (bytes \<times> go_err option) \<times> body" where
  "body_Read b n =
     (case bd_chunks b of
        [] \<Rightarrow> (([], Some (bd_end b)), b)
      | c # cs \<Rightarrow> ((take n c, None),
                   b\<lparr>bd_chunks := (if length c \<le> n then cs else drop n c # cs)\<rparr>))"

definition body_ops :: "body read_seeker" where
  "body_ops = \<lparr>rs_read = body_Read,
               rs_seek = (\<lambda>s off wh. ((0, Some (Failure ''not seekable'')), s)),
               rs_left = (\<lambda>s. length (concat (bd_chunks s)))\<rparr>"

definition body_ok :: "body \<Rightarrow> bool" where
  "body_ok b \<longleftrightarrow> [] \<notin> set (bd_chunks b)"

lemma body_ops_simps [simp]: "rs_read body_ops = body_Read"
  by (simp add: body_ops_def)

text \<open>
  \<open>io.Copy\<close>: read up to 32 KiB, write it, stop at the first error; an end of file is not one.
\<close>

function io_copy :: "writer \<Rightarrow> body \<Rightarrow> go_err option \<times> writer" where
  "io_copy w b =
     (case body_Read b 32768 of
        ((got, e), b') \<Rightarrow>
          (case (if got = [] then (None, w) else wr_write w got) of
             (Some we, w') \<Rightarrow> (Some we, w')
           | (None, w') \<Rightarrow>
               (case e of
                  Some EOF \<Rightarrow> (None, w')
                | Some x \<Rightarrow> (Some x, w')
                | None \<Rightarrow> io_copy w' b')))"
  by pat_completeness auto
termination
  by (relation "measures [\<lambda>(w, b). length (concat (bd_chunks b)), \<lambda>(w, b). length (bd_chunks b)]")
    (auto simp: body_Read_def split: list.splits if_splits prod.splits)

declare io_copy.simps [simp del]

section \<open>The two implementations\<close>

definition deobfuscateHeaderPattern :: bytes where
  "deobfuscateHeaderPattern = [0xff, 0xff, 0xff, 0xff, 0xff, 0x00, 0x00, 0x00]"

definition pattern_at :: "nat \<Rightarrow> u8" where
  "pattern_at i = deobfuscateHeaderPattern ! (i mod length deobfuscateHeaderPattern)"

definition Deobfuscate :: "bytes \<Rightarrow> bytes" where
  "Deobfuscate data =
     (if 4 \<le> length data \<and> take 4 data = [0x20, 0x00, 0x00, 0x00] then drop 4 data
      else if 4 \<le> length data \<and> take 4 data = [0x10, 0x00, 0x00, 0x00] then
        (let data = drop 4 data
         in if 128 \<le> length data then xor_loop pattern_at 0 128 data else data)
      else data)"

text \<open>
  \<open>takes a short read for the end of the input\<close>: the test \<open>err == io.EOF || err ==
  io.ErrUnexpectedEOF\<close>, after which the bytes read so far are written out.
\<close>

definition is_short :: "go_err \<Rightarrow> bool" where
  "is_short e \<longleftrightarrow> e = EOF \<or> e = UnexpectedEOF"

definition DeobfuscateToWriter :: "writer \<Rightarrow> body \<Rightarrow> go_err option \<times> writer" where
  "DeobfuscateToWriter dst src =
     (case read_loop body_ops 4 src of
        ((got, e), src) \<Rightarrow>
     (case read_full_err 4 got e of
        Some err \<Rightarrow> (if is_short err then wr_write dst got else (Some err, dst))
      | None \<Rightarrow>
     (if got = [0x20, 0x00, 0x00, 0x00] then io_copy dst src
      else if got = [0x10, 0x00, 0x00, 0x00] then
        (case read_loop body_ops 128 src of
           ((header, e), src) \<Rightarrow>
        (case read_full_err 128 header e of
           Some err \<Rightarrow> (if is_short err then wr_write dst header else (Some err, dst))
         | None \<Rightarrow>
        (case wr_write dst (xor_loop pattern_at 0 128 header) of
           (Some we, dst) \<Rightarrow> (Some we, dst)
         | (None, dst) \<Rightarrow> io_copy dst src)))
      else
        (case wr_write dst got of
           (Some we, dst) \<Rightarrow> (Some we, dst)
         | (None, dst) \<Rightarrow> io_copy dst src))))"

section \<open>Reading a body\<close>

definition body_bytes :: "body \<Rightarrow> bytes" where
  "body_bytes b = concat (bd_chunks b)"

lemma body_Read_empty:
  "body_ok b \<Longrightarrow> body_bytes b = [] \<Longrightarrow> body_Read b n = (([], Some (bd_end b)), b)"
  by (cases "bd_chunks b") (auto simp: body_Read_def body_ok_def body_bytes_def)

lemma body_Read_some:
  assumes "body_ok b" and "body_bytes b \<noteq> []" and "0 < n"
  shows "\<exists>got b'. body_Read b n = ((got, None), b') \<and> got \<noteq> [] \<and> length got \<le> n \<and>
    body_bytes b = got @ body_bytes b' \<and> body_ok b' \<and> bd_end b' = bd_end b"
proof -
  obtain c cs where c: "bd_chunks b = c # cs" "c \<noteq> []"
    using assms by (cases "bd_chunks b") (auto simp: body_bytes_def body_ok_def)
  then show ?thesis
    using assms by (auto simp: body_Read_def body_bytes_def body_ok_def)
qed

lemma read_loop_body:
  assumes "body_ok b"
  shows "\<exists>b'. read_loop body_ops n b =
       ((take n (body_bytes b), if length (body_bytes b) < n then Some (bd_end b) else None), b')
    \<and> body_bytes b' = drop n (body_bytes b) \<and> body_ok b' \<and> bd_end b' = bd_end b"
  using assms
proof (induction n arbitrary: b rule: less_induct)
    case (less n)
    show ?case
    proof (cases "n = 0 \<or> body_bytes b = []")
      case True
      with less.prems show ?thesis
        by (auto simp: read_loop.simps [of _ n] body_Read_empty)
    next
      case False
      with less.prems obtain got u where r: "body_Read b n = ((got, None), u)" "got \<noteq> []"
          "length got \<le> n" "body_bytes b = got @ body_bytes u" "body_ok u" "bd_end u = bd_end b"
        using body_Read_some [of b n] by blast
      then have "n - length got < n" using False by (cases got) auto
      from less.IH [OF this \<open>body_ok u\<close>] r False show ?thesis
        by (auto simp: read_loop.simps [of _ n])
    qed
  qed

section \<open>Copying\<close>

lemma wr_write_unlimited [simp]:
  "wr_limit w = None \<Longrightarrow> wr_write w p = (None, w\<lparr>wr_out := wr_out w @ p\<rparr>)"
  by (simp add: wr_write_def)

lemma wr_write_None:
  "wr_write w p = (None, w') \<Longrightarrow> w' = w\<lparr>wr_out := wr_out w @ p\<rparr>"
  by (auto simp: wr_write_def split: option.splits if_splits)

lemma io_copy_unlimited:
  assumes "body_ok b" and "wr_limit w = None"
  shows "io_copy w b =
    (if bd_end b = EOF then None else Some (bd_end b), w\<lparr>wr_out := wr_out w @ body_bytes b\<rparr>)"
  using assms
proof (induction "length (body_bytes b)" arbitrary: w b rule: less_induct)
  case less
  show ?case
  proof (cases "body_bytes b = []")
    case True
    with less.prems show ?thesis
      by (simp add: io_copy.simps [of w b] body_Read_empty split: go_err.splits)
  next
    case False
    with less.prems obtain got u where r: "body_Read b 32768 = ((got, None), u)" "got \<noteq> []"
        "body_bytes b = got @ body_bytes u" "body_ok u" "bd_end u = bd_end b"
      using body_Read_some [of b 32768] by auto
    with less.hyps [of u "w\<lparr>wr_out := wr_out w @ got\<rparr>"] less.prems show ?thesis
      by (simp add: io_copy.simps [of w b])
  qed
qed

lemma io_copy_None:
  assumes "io_copy w b = (None, w')" and "body_ok b"
  shows "bd_end b = EOF \<and> wr_out w' = wr_out w @ body_bytes b"
  using assms
proof (induction "length (body_bytes b)" arbitrary: w b rule: less_induct)
  case less
  show ?case
  proof (cases "body_bytes b = []")
    case True
    with less.prems show ?thesis
      by (auto simp: io_copy.simps [of w b] body_Read_empty split: go_err.splits)
  next
    case False
    with less.prems obtain got u where r: "body_Read b 32768 = ((got, None), u)" "got \<noteq> []"
        "body_bytes b = got @ body_bytes u" "body_ok u" "bd_end u = bd_end b"
      using body_Read_some [of b 32768] by auto
    with less.prems obtain v where w: "wr_write w got = (None, v)" "io_copy v u = (None, w')"
      by (auto simp: io_copy.simps [of w b] split: prod.splits option.splits)
    from less.hyps [OF _ w(2) \<open>body_ok u\<close>] wr_write_None [OF w(1)] r show ?thesis
      by simp
  qed
qed

section \<open>What the deobfuscation does\<close>

text \<open>
  The header mask, as both implementations apply it, satisfies the contract of an XOR mask.
\<close>

definition mask_header :: "bytes \<Rightarrow> bytes" where
  "mask_header d = (if 128 \<le> length d then xor_loop pattern_at 0 128 d else d)"

interpretation bundle_header: xor_mask mask_header
  "\<lambda>n i. if 128 \<le> n \<and> i < 128 then pattern_at i else 0"
  by unfold_locales (auto simp: mask_header_def nth_xor_loop)

lemma Deobfuscate_eq:
  "Deobfuscate d =
     (if take 4 d = [0x20, 0, 0, 0] then drop 4 d
      else if take 4 d = [0x10, 0, 0, 0] then mask_header (drop 4 d) else d)"
  by (cases "4 \<le> length d") (auto simp: Deobfuscate_def mask_header_def Let_def dest: arg_cong [of _ _ length])

text \<open>Where a body that ends early is taken for a complete one.\<close>

definition ends_in_header :: "bytes \<Rightarrow> bool" where
  "ends_in_header d \<longleftrightarrow> length d < 4 \<or> (take 4 d = [0x10, 0, 0, 0] \<and> length d < 132)"

lemma to_writer_short:
  assumes "body_ok src" and "ends_in_header (body_bytes src)"
  shows "DeobfuscateToWriter dst src =
    (if is_short (bd_end src) then wr_write dst (Deobfuscate (body_bytes src))
     else (Some (bd_end src), dst))"
proof -
  let ?d = "body_bytes src"
  obtain b where b: "read_loop body_ops 4 src =
      ((take 4 ?d, if length ?d < 4 then Some (bd_end src) else None), b)"
      "body_bytes b = drop 4 ?d" "body_ok b" "bd_end b = bd_end src"
    using read_loop_body [OF assms(1), of 4] by blast
  show ?thesis
  proof (cases "length ?d < 4")
    case True
    with b show ?thesis
      by (auto simp: DeobfuscateToWriter_def read_full_err_def is_short_def Deobfuscate_def)
  next
    case False
    with assms have t: "take 4 ?d = [0x10, 0, 0, 0]" and l: "length ?d < 132"
      by (auto simp: ends_in_header_def)
    obtain c where c: "read_loop body_ops 128 b =
        ((drop 4 ?d, Some (bd_end src)), c)"
      using read_loop_body [OF b(3), of 128] b(2,4) l by auto
    from False b(1) c t l show ?thesis
      by (auto simp: DeobfuscateToWriter_def read_full_err_def is_short_def Deobfuscate_eq mask_header_def)
  qed
qed

text \<open>Otherwise some bytes (none, the prefix, the unmasked header) are written, then the rest is copied.\<close>

definition write_then_copy :: "bytes \<Rightarrow> writer \<Rightarrow> body \<Rightarrow> go_err option \<times> writer" where
  "write_then_copy m w b =
     (if m = [] then io_copy w b
      else case wr_write w m of (Some e, w) \<Rightarrow> (Some e, w) | (None, w) \<Rightarrow> io_copy w b)"

lemma to_writer_long:
  assumes "body_ok src" and "\<not> ends_in_header (body_bytes src)"
  shows "\<exists>m b. body_ok b \<and> bd_end b = bd_end src \<and>
    Deobfuscate (body_bytes src) = m @ body_bytes b \<and>
    (\<forall>dst. DeobfuscateToWriter dst src = write_then_copy m dst b)"
proof -
  let ?d = "body_bytes src"
  from assms(2) have l: "4 \<le> length ?d" by (auto simp: ends_in_header_def)
  then obtain b where b: "read_loop body_ops 4 src = ((take 4 ?d, None), b)"
      "body_bytes b = drop 4 ?d" "body_ok b" "bd_end b = bd_end src"
    using read_loop_body [OF assms(1), of 4] by auto
  show ?thesis
  proof (cases "take 4 ?d = [0x10, 0, 0, 0]")
    case True
    let ?e = "drop 4 ?d"
    from True assms(2) have l': "128 \<le> length ?e" by (auto simp: ends_in_header_def)
    then obtain c where c: "read_loop body_ops 128 b = ((take 128 ?e, None), c)"
        "body_bytes c = drop 128 ?e" "body_ok c" "bd_end c = bd_end src"
      using read_loop_body [OF b(3), of 128] b(2,4) by auto
    define m where "m = xor_loop pattern_at 0 128 (take 128 ?e)"
    from l' have "m \<noteq> []" by (auto simp: m_def dest: arg_cong [of _ _ length])
    moreover have "Deobfuscate ?d = m @ body_bytes c"
      using l' True xor_loop_append [of 128 "take 128 ?e" pattern_at "drop 128 ?e"]
      by (simp only: append_take_drop_id Deobfuscate_eq mask_header_def m_def c(2)) auto
    moreover have "DeobfuscateToWriter dst src = write_then_copy m dst c" for dst
      using True b(1) c(1) l' \<open>m \<noteq> []\<close>
      by (simp add: DeobfuscateToWriter_def read_full_err_def write_then_copy_def m_def)
    ultimately show ?thesis using c(3,4) by blast
  next
    case False
    define m where "m = (if take 4 ?d = [0x20, 0, 0, 0] then [] else take 4 ?d)"
    have "Deobfuscate ?d = m @ body_bytes b"
      using False by (simp add: Deobfuscate_eq m_def b(2))
    moreover have "DeobfuscateToWriter dst src = write_then_copy m dst b" for dst
      using False l b(1)
      by (auto simp: DeobfuscateToWriter_def read_full_err_def write_then_copy_def m_def)
    ultimately show ?thesis using b(3,4) by blast
  qed
qed

lemma write_then_copy_unlimited:
  assumes "body_ok b" and "wr_limit w = None"
  shows "write_then_copy m w b =
    (if bd_end b = EOF then None else Some (bd_end b), w\<lparr>wr_out := wr_out w @ m @ body_bytes b\<rparr>)"
  using assms by (simp add: write_then_copy_def io_copy_unlimited)

lemma write_then_copy_None:
  assumes "write_then_copy m w b = (None, w')" and "body_ok b"
  shows "bd_end b = EOF \<and> wr_out w' = wr_out w @ m @ body_bytes b"
proof (cases "m = []")
  case True
  with assms io_copy_None show ?thesis by (force simp: write_then_copy_def)
next
  case False
  with assms(1) obtain v where "wr_write w m = (None, v)" "io_copy v b = (None, w')"
    by (auto simp: write_then_copy_def split: prod.splits option.splits)
  with io_copy_None [OF _ assms(2)] wr_write_None show ?thesis by fastforce
qed

lemma to_writer_unlimited:
  assumes "body_ok src" and "bd_end src = EOF" and "wr_limit dst = None"
  shows "DeobfuscateToWriter dst src =
    (None, dst\<lparr>wr_out := wr_out dst @ Deobfuscate (body_bytes src)\<rparr>)"
proof (cases "ends_in_header (body_bytes src)")
  case True
  with assms show ?thesis by (simp add: to_writer_short is_short_def)
next
  case False
  then obtain m b where "body_ok b" "bd_end b = EOF" "Deobfuscate (body_bytes src) = m @ body_bytes b"
      "DeobfuscateToWriter dst src = write_then_copy m dst b"
    using to_writer_long [OF assms(1)] assms(2) by metis
  with write_then_copy_unlimited [OF _ assms(3)] show ?thesis by simp
qed

section \<open>Properties\<close>

text \<open>
  C1: the stream implementation writes exactly what the slice implementation returns for the
  bytes of the body, however the body is cut into chunks, and it reports no error.
\<close>

theorem deobfuscate_stream_refines_slice:
  assumes "body_ok src" and "bd_end src = EOF" and "wr_limit dst = None"
  shows "DeobfuscateToWriter dst src =
    (None, dst\<lparr>wr_out := wr_out dst @ Deobfuscate (body_bytes src)\<rparr>)"
  using assms by (rule to_writer_unlimited)

definition sample_body :: body where
  "sample_body = \<lparr>bd_chunks = [[0x20], [0x00, 0x00], [0x00, 7, 8], [9]], bd_end = EOF\<rparr>"

lemma deobfuscate_stream_refines_slice_witness:
  "DeobfuscateToWriter \<lparr>wr_out = [], wr_limit = None\<rparr> sample_body = (None, \<lparr>wr_out = [7, 8, 9], wr_limit = None\<rparr>)"
proof -
  have "body_ok sample_body" "bd_end sample_body = EOF"
    by (simp_all add: body_ok_def sample_body_def)
  from deobfuscate_stream_refines_slice [OF this, of "\<lparr>wr_out = [], wr_limit = None\<rparr>"]
  show ?thesis by (simp add: sample_body_def body_bytes_def Deobfuscate_def)
qed

text \<open>
  Whatever the writer's capacity and the end of the body, a run that reports success has
  written the deobfuscation of every byte it was sent; and the body ended with an end of file,
  or it was cut off inside the 4-byte prefix or the 128-byte masked header.
\<close>

theorem deobfuscate_success_is_complete:
  assumes "body_ok src" and "DeobfuscateToWriter dst src = (None, dst')"
  shows "wr_out dst' = wr_out dst @ Deobfuscate (body_bytes src) \<and>
    (bd_end src = EOF \<or> (bd_end src = UnexpectedEOF \<and> ends_in_header (body_bytes src)))"
proof (cases "ends_in_header (body_bytes src)")
  case True
  with assms show ?thesis
    by (auto simp: to_writer_short is_short_def split: if_splits dest: wr_write_None)
next
  case False
  then obtain m b where "body_ok b" "bd_end b = bd_end src"
      "Deobfuscate (body_bytes src) = m @ body_bytes b"
      "DeobfuscateToWriter dst src = write_then_copy m dst b"
    using to_writer_long [OF assms(1)] by metis
  with write_then_copy_None assms(2) show ?thesis by fastforce
qed

lemma deobfuscate_success_is_complete_witness:
  "DeobfuscateToWriter \<lparr>wr_out = [], wr_limit = Some 3\<rparr> (sample_body\<lparr>bd_chunks := [[0x10]], bd_end := UnexpectedEOF\<rparr>)
     = (None, \<lparr>wr_out = [0x10], wr_limit = Some 3\<rparr>) \<and>
   ends_in_header (body_bytes (sample_body\<lparr>bd_chunks := [[0x10]], bd_end := UnexpectedEOF\<rparr>))"
proof -
  let ?b = "sample_body\<lparr>bd_chunks := [[0x10]], bd_end := UnexpectedEOF\<rparr>"
  have ok: "body_ok ?b" by (simp add: body_ok_def)
  have run: "DeobfuscateToWriter \<lparr>wr_out = [], wr_limit = Some 3\<rparr> ?b
      = (None, \<lparr>wr_out = [0x10], wr_limit = Some 3\<rparr>)"
    by (simp add: to_writer_short [OF ok] ends_in_header_def body_bytes_def is_short_def
        Deobfuscate_def wr_write_def)
  from deobfuscate_success_is_complete [OF ok run] run show ?thesis by simp
qed

text \<open>
  A bundle whose download breaks off inside the first 132 bytes of an obfuscated file (or
  the first 4 of any) with \<open>io.ErrUnexpectedEOF\<close> is accepted as complete.
\<close>

theorem truncated_header_is_accepted:
  assumes "body_ok src" and "bd_end src = UnexpectedEOF" and "wr_limit dst = None"
  shows "fst (DeobfuscateToWriter dst src) = None \<longleftrightarrow> ends_in_header (body_bytes src)"
proof (cases "ends_in_header (body_bytes src)")
  case True
  with assms show ?thesis by (simp add: to_writer_short is_short_def)
next
  case False
  then obtain m b where "body_ok b" "bd_end b = bd_end src"
      "DeobfuscateToWriter dst src = write_then_copy m dst b"
    using to_writer_long [OF assms(1)] by metis
  with write_then_copy_unlimited [OF _ assms(3)] assms(2) False show ?thesis by simp
qed

lemma truncated_header_is_accepted_witness:
  "fst (DeobfuscateToWriter \<lparr>wr_out = [], wr_limit = None\<rparr>
      \<lparr>bd_chunks = [[0x10, 0, 0], [0, 1, 2]], bd_end = UnexpectedEOF\<rparr>) = None"
  using truncated_header_is_accepted
    [of "\<lparr>bd_chunks = [[0x10, 0, 0], [0, 1, 2]], bd_end = UnexpectedEOF\<rparr>"
        "\<lparr>wr_out = [], wr_limit = None\<rparr>"]
  by (simp add: body_ok_def body_bytes_def ends_in_header_def)

text \<open>
  The deobfuscation undoes the obfuscation: a payload behind the prefix \<open>20 00 00 00\<close>
  comes back as it is, a payload masked by the header mask behind \<open>10 00 00 00\<close> comes back
  unmasked, and anything else is left alone.
\<close>

theorem deobfuscate_inverts_obfuscation:
  "Deobfuscate ([0x20, 0, 0, 0] @ payload) = payload \<and>
   Deobfuscate ([0x10, 0, 0, 0] @ mask_header payload) = payload \<and>
   (take 4 d \<noteq> [0x20, 0, 0, 0] \<longrightarrow> take 4 d \<noteq> [0x10, 0, 0, 0] \<longrightarrow> Deobfuscate d = d)"
  by (simp add: Deobfuscate_eq bundle_header.mask_mask)

lemma deobfuscate_inverts_obfuscation_witness:
  "Deobfuscate ([0x10, 0, 0, 0] @ mask_header (replicate 200 0x55)) = replicate 200 0x55 \<and>
   Deobfuscate [1, 2, 3, 4, 5] = [1, 2, 3, 4, 5]"
  using deobfuscate_inverts_obfuscation [of "replicate 200 0x55" "[1, 2, 3, 4, 5]"] by simp

end
