(* ===== verification/AcbReader.thy ===== *)
theory AcbReader
  imports GoIO
begin

text \<open>
  \<open>internal/cricodecs/acb/reader.go\<close>: the typed reads the ACB parsers are built from, against
  the \<open>io.ReadSeeker\<close> interface. For each of them the locale \<open>seekable_reader\<close> is extended by
  the fact that it simulates the same read of a byte reader, and for byte readers the result
  is given in closed form.

  \<open>gval\<close> is the \<open>interface{}\<close> a table cell holds, with the dynamic types the parser makes; a
  \<open>float32\<close> is its bit pattern and signed integers are the words they are stored in.
\<close>

unbundle bit_operations_syntax

section \<open>Values\<close>

datatype gval =
    VInt int
  | VInt8 u8 | VInt16 u16 | VInt32 u32 | VInt64 u64
  | VUint8 u8 | VUint16 u16 | VUint32 u32 | VUint64 u64
  | VFloat32 u32
  | VString string
  | VBytes bytes
  | VDataPromise u32 u32
  | VStringPromise u32

definition string_of :: "bytes \<Rightarrow> string" where
  "string_of bs = map (\<lambda>b. char_of (unat b)) bs"

definition bytes_of :: "string \<Rightarrow> bytes" where
  "bytes_of s = map of_char s"

lemma bytes_of_string_of [simp]: "bytes_of (string_of bs) = bs"
proof -
  have "of_char (char_of (unat b)) = b" for b :: u8
  proof -
    have "of_char (char_of (unat b)) = (of_nat (of_char (char_of (unat b))) :: u8)"
      by (simp only: of_nat_of_char)
    also have "\<dots> = of_nat (unat b mod 256)" by simp
    also have "\<dots> = b" using unsigned_less [of b, where ?'a = nat] by simp
    finally show ?thesis .
  qed
  then show ?thesis by (simp add: bytes_of_def string_of_def o_def)
qed

lemma length_string_of [simp]: "length (string_of bs) = length bs"
  by (simp add: string_of_def)

section \<open>Typed reads\<close>

text \<open>\<open>binary.Read\<close> into a fixed-size value, which stays zero on an error.\<close>

definition binary_read :: "'s read_seeker \<Rightarrow> nat \<Rightarrow> (bytes \<Rightarrow> 'a::len word) \<Rightarrow> ('s, 'a word) gop" where
  "binary_read R n conv s =
     (case read_full R n s of
        ((buf, None), s') \<Rightarrow> ((conv buf, None), s')
      | ((buf, Some e), s') \<Rightarrow> ((0, Some e), s'))"

definition ReadUint8 :: "'s read_seeker \<Rightarrow> ('s, u8) gop" where
  "ReadUint8 R = binary_read R 1 be_word"

definition ReadUint16 :: "'s read_seeker \<Rightarrow> ('s, u16) gop" where
  "ReadUint16 R = binary_read R 2 be_word"

definition ReadUint32 :: "'s read_seeker \<Rightarrow> ('s, u32) gop" where
  "ReadUint32 R = binary_read R 4 be_word"

definition ReadUint64 :: "'s read_seeker \<Rightarrow> ('s, u64) gop" where
  "ReadUint64 R = binary_read R 8 be_word"

definition ReadInt8 :: "'s read_seeker \<Rightarrow> ('s, u8) gop" where
  "ReadInt8 R = binary_read R 1 be_word"

definition ReadInt16 :: "'s read_seeker \<Rightarrow> ('s, u16) gop" where
  "ReadInt16 R = binary_read R 2 be_word"

definition ReadInt32 :: "'s read_seeker \<Rightarrow> ('s, u32) gop" where
  "ReadInt32 R = binary_read R 4 be_word"

definition ReadFloat32 :: "'s read_seeker \<Rightarrow> ('s, u32) gop" where
  "ReadFloat32 R = binary_read R 4 be_word"

definition ReadLeUint16 :: "'s read_seeker \<Rightarrow> ('s, u16) gop" where
  "ReadLeUint16 R = binary_read R 2 le_word"

definition ReadLeUint32 :: "'s read_seeker \<Rightarrow> ('s, u32) gop" where
  "ReadLeUint32 R = binary_read R 4 le_word"

lemmas typed_read_defs =
  ReadUint8_def ReadUint16_def ReadUint32_def ReadUint64_def ReadInt8_def ReadInt16_def
  ReadInt32_def ReadFloat32_def ReadLeUint16_def ReadLeUint32_def

text \<open>\<open>ReadBytes\<close>: a negative length panics in \<open>make\<close>.\<close>

definition ReadBytes :: "'s read_seeker \<Rightarrow> int \<Rightarrow> ('s, bytes) gop" where
  "ReadBytes R n s =
     (if n < 0 then (([], Some (Panic ''makeslice: len out of range'')), s)
      else read_full R (nat n) s)"

text \<open>
  Run code at another position and go back: what \<open>ReadBytesAt\<close> and \<open>ReadString0At\<close> do
  around their read. The errors of the three seeks are dropped.
\<close>

definition at_offset :: "'s read_seeker \<Rightarrow> int \<Rightarrow> ('s, 'a) gop \<Rightarrow> ('s, 'a) gop" where
  "at_offset R off m s =
     (case rs_seek R s 0 SeekCurrent of ((back, _), s) \<Rightarrow>
      case rs_seek R s off SeekStart of ((_, _), s) \<Rightarrow>
      case m s of (r, s) \<Rightarrow>
      case rs_seek R s back SeekStart of ((_, _), s) \<Rightarrow> (r, s))"

definition ReadBytesAt :: "'s read_seeker \<Rightarrow> int \<Rightarrow> int \<Rightarrow> ('s, bytes) gop" where
  "ReadBytesAt R n off = at_offset R off (ReadBytes R n)"

text \<open>
  \<open>ReadString0\<close>: read 16 bytes at a time up to a zero byte. The progress test stands for
  nothing in the code; no reader that satisfies the contract fails it.
\<close>

function read_string0_loop :: "'s read_seeker \<Rightarrow> bytes \<Rightarrow> ('s, string) gop" where
  "read_string0_loop R buf s =
     (case rs_read R s 16 of
        ((got, Some e), s') \<Rightarrow> (([], Some e), s')
      | ((got, None), s') \<Rightarrow>
          (if 0 \<in> set got then ((string_of (buf @ takeWhile (\<lambda>b. b \<noteq> 0) got), None), s')
           else if rs_left R s' < rs_left R s then read_string0_loop R (buf @ got) s'
           else (([], Some (Failure ''no progress'')), s')))"
  by pat_completeness auto
termination
  by (relation "measure (\<lambda>(R, buf, s). rs_left R s)") auto

declare read_string0_loop.simps [simp del]

definition ReadString0 :: "'s read_seeker \<Rightarrow> ('s, string) gop" where
  "ReadString0 R = read_string0_loop R []"

definition ReadString0At :: "'s read_seeker \<Rightarrow> int \<Rightarrow> ('s, string) gop" where
  "ReadString0At R off = at_offset R off (ReadString0 R)"

section \<open>Every reader that satisfies the contract\<close>

context seekable_reader begin

lemma binary_read_sim: "simS ok view (binary_read R n conv) (binary_read bytes_ops n conv)"
proof (rule simSI)
  fix s r s'
  assume ok: "ok s" and run: "binary_read R n conv s = (r, s')"
  obtain p e w where l: "read_full R n s = ((p, e), w)" by (metis surj_pair)
  from simSD [OF read_full_sim ok l] run l
  show "binary_read bytes_ops n conv (view s) = (r, view s') \<and> ok s'"
    by (auto simp: binary_read_def split: option.splits)
qed

lemma typed_read_sims [sim_intros]:
  "simS ok view (ReadUint8 R) (ReadUint8 bytes_ops)"
  "simS ok view (ReadUint16 R) (ReadUint16 bytes_ops)"
  "simS ok view (ReadUint32 R) (ReadUint32 bytes_ops)"
  "simS ok view (ReadUint64 R) (ReadUint64 bytes_ops)"
  "simS ok view (ReadInt8 R) (ReadInt8 bytes_ops)"
  "simS ok view (ReadInt16 R) (ReadInt16 bytes_ops)"
  "simS ok view (ReadInt32 R) (ReadInt32 bytes_ops)"
  "simS ok view (ReadFloat32 R) (ReadFloat32 bytes_ops)"
  "simS ok view (ReadLeUint16 R) (ReadLeUint16 bytes_ops)"
  "simS ok view (ReadLeUint32 R) (ReadLeUint32 bytes_ops)"
  by (simp_all add: typed_read_defs binary_read_sim)

lemma ReadBytes_sim [sim_intros]: "simS ok view (ReadBytes R n) (ReadBytes bytes_ops n)"
proof (rule simSI)
  fix s r s'
  assume ok: "ok s" and run: "ReadBytes R n s = (r, s')"
  with simSD [OF read_full_sim ok, of "nat n"]
  show "ReadBytes bytes_ops n (view s) = (r, view s') \<and> ok s'"
    by (auto simp: ReadBytes_def split: if_splits)
qed

lemma at_offset_sim [sim_intros]:
  assumes "0 \<le> off" and "simS ok view m m'"
  shows "simS ok view (at_offset R off m) (at_offset bytes_ops off m')"
proof (rule simSI)
  fix s r s'
  assume ok: "ok s" and run: "at_offset R off m s = (r, s')"
  obtain b e s1 where a1: "rs_seek R s 0 SeekCurrent = ((b, e), s1)" by (metis surj_pair)
  obtain x s2 where a2: "rs_seek R s1 off SeekStart = (x, s2)" by (metis surj_pair)
  obtain q s3 where a3: "m s2 = (q, s3)" by (metis surj_pair)
  obtain y s4 where a4: "rs_seek R s3 b SeekStart = (y, s4)" by (metis surj_pair)
  note b1 = simSD [OF tell_sim ok a1]
  note b2 = simSD [OF seek_sim [OF assms(1)] b1(2) a2]
  note b3 = simSD [OF assms(2) b2(2) a3]
  from b1(1) have "0 \<le> b" by (auto simp: bytes_Seek_def)
  note b4 = simSD [OF seek_sim [OF this] b3(2) a4]
  from a1 a2 a3 a4 b1 b2 b3 b4 run
  show "at_offset bytes_ops off m' (view s) = (r, view s') \<and> ok s'"
    by (auto simp: at_offset_def split: prod.splits)
qed

lemma ReadBytesAt_sim [sim_intros]:
  "0 \<le> off \<Longrightarrow> simS ok view (ReadBytesAt R n off) (ReadBytesAt bytes_ops n off)"
  by (auto simp: ReadBytesAt_def intro!: sim_intros)

lemma read_string0_loop_sim:
  "simS ok view (read_string0_loop R buf) (read_string0_loop bytes_ops buf)"
proof -
  have "\<forall>buf s r s'. rs_left R s = n \<longrightarrow> ok s \<longrightarrow> read_string0_loop R buf s = (r, s') \<longrightarrow>
      read_string0_loop bytes_ops buf (view s) = (r, view s') \<and> ok s'" for n
  proof (induction n rule: less_induct)
    case (less n)
    show ?case
    proof (intro allI impI)
      fix buf s r s'
      assume n: "rs_left R s = n" and ok: "ok s" and run: "read_string0_loop R buf s = (r, s')"
      obtain got e u where q: "rs_read R s 16 = ((got, e), u)" by (metis surj_pair)
      note q' = simSD [OF read_sim ok q]
      show "read_string0_loop bytes_ops buf (view s) = (r, view s') \<and> ok s'"
        using run q q' less [rule_format, of "rs_left R u" u "buf @ got" r s'] n
          left_eq [OF ok] left_eq [OF q'(2)]
        by (auto simp: read_string0_loop.simps [of R buf s] read_string0_loop.simps [of bytes_ops buf]
            split: option.splits if_splits)
    qed
  qed
  then show ?thesis by (blast intro: simSI)
qed

lemma ReadString0_sim [sim_intros]: "simS ok view (ReadString0 R) (ReadString0 bytes_ops)"
  by (simp add: ReadString0_def read_string0_loop_sim)

lemma ReadString0At_sim [sim_intros]:
  "0 \<le> off \<Longrightarrow> simS ok view (ReadString0At R off) (ReadString0At bytes_ops off)"
  by (auto simp: ReadString0At_def intro!: sim_intros)

end

section \<open>Byte readers\<close>

lemma binary_read_bytes:
  "binary_read bytes_ops n conv r =
     ((if n \<le> length (br_rest r) then conv (take n (br_rest r)) else 0,
       if n \<le> length (br_rest r) then None
       else if br_rest r = [] then Some EOF else Some UnexpectedEOF),
      r\<lparr>br_pos := br_pos r + min n (length (br_rest r))\<rparr>)"
  by (simp add: binary_read_def read_full_bytes)

lemma ReadBytes_bytes:
  "0 \<le> n \<Longrightarrow> nat n \<le> length (br_rest r) \<Longrightarrow>
   ReadBytes bytes_ops n r = ((take (nat n) (br_rest r), None), r\<lparr>br_pos := br_pos r + nat n\<rparr>)"
  by (simp add: ReadBytes_def read_full_bytes)

text \<open>An excursion to another offset leaves the reader as it was, if the code there keeps its bytes.\<close>

lemma at_offset_bytes:
  assumes "0 \<le> off" and "m (r\<lparr>br_pos := nat off\<rparr>) = (q, r\<lparr>br_pos := p\<rparr>)"
  shows "at_offset bytes_ops off m r = (q, r)"
  using assms by (simp add: at_offset_def bytes_Seek_def)

lemma ReadBytesAt_bytes:
  assumes "0 \<le> off" and "0 \<le> n"
  shows "ReadBytesAt bytes_ops n off r =
    ((let d = drop (nat off) (br_data r) in take (nat n) d @ replicate (nat n - length d) 0,
      if nat n \<le> length (br_data r) - nat off then None
      else if length (br_data r) \<le> nat off then Some EOF else Some UnexpectedEOF), r)"
proof -
  define p where "p = nat off + min (nat n) (length (br_data r) - nat off)"
  show ?thesis
    unfolding ReadBytesAt_def
    by (rule at_offset_bytes [OF assms(1), where p = p])
      (use assms in \<open>auto simp: ReadBytes_def read_full_bytes br_rest_def p_def\<close>)
qed

text \<open>The string up to the first zero byte, if there is one.\<close>

lemma takeWhile_neq_split:
  "xs = a @ b \<Longrightarrow> z \<notin> set a \<Longrightarrow> takeWhile (\<lambda>x. x \<noteq> z) xs = a @ takeWhile (\<lambda>x. x \<noteq> z) b"
  by (induction a arbitrary: xs) auto

lemma read_string0_loop_bytes:
  "\<exists>p. read_string0_loop bytes_ops buf r =
     ((if 0 \<in> set (br_rest r) then (string_of (buf @ takeWhile (\<lambda>b. b \<noteq> 0) (br_rest r)), None)
       else ([], Some EOF)), r\<lparr>br_pos := p\<rparr>)"
proof (induction "length (br_rest r)" arbitrary: buf r rule: less_induct)
  case less
  show ?case
  proof (cases "length (br_data r) \<le> br_pos r")
    case True
    then show ?thesis
      by (intro exI [of _ "br_pos r"])
        (simp add: read_string0_loop.simps [of bytes_ops buf r] bytes_Read_def br_rest_def)
  next
    case False
    let ?got = "take 16 (br_rest r)"
    let ?u = "r\<lparr>br_pos := br_pos r + length ?got\<rparr>"
    have read: "bytes_Read r 16 = ((?got, None), ?u)"
      using False by (simp add: bytes_Read_def br_rest_def Let_def)
    have rest: "br_rest ?u = drop 16 (br_rest r)"
      by (simp add: br_rest_def min_def add.commute)
    then have split: "br_rest r = ?got @ br_rest ?u" by simp
    show ?thesis
    proof (cases "0 \<in> set ?got")
      case True
      then have "0 \<in> set (br_rest r)" by (meson in_set_takeD)
      moreover have "takeWhile (\<lambda>b. b \<noteq> 0) (br_rest r) = takeWhile (\<lambda>b. b \<noteq> 0) ?got"
        using takeWhile_append1 [OF True, of "\<lambda>b. b \<noteq> 0" "br_rest ?u"] split by simp
      ultimately show ?thesis
        using True by (simp add: read_string0_loop.simps [of bytes_ops buf r] read) blast
    next
      case no: False
      have "length (br_rest ?u) < length (br_rest r)"
        using False by (simp add: rest) (simp add: br_rest_def)
      from less [OF this, of "buf @ ?got"] obtain p where
        p: "read_string0_loop bytes_ops (buf @ ?got) ?u =
          ((if 0 \<in> set (br_rest ?u)
            then (string_of ((buf @ ?got) @ takeWhile (\<lambda>b. b \<noteq> 0) (br_rest ?u)), None)
            else ([], Some EOF)), ?u\<lparr>br_pos := p\<rparr>)" by blast
      have tw: "takeWhile (\<lambda>b. b \<noteq> 0) (br_rest r) = ?got @ takeWhile (\<lambda>b. b \<noteq> 0) (br_rest ?u)"
        by (rule takeWhile_neq_split [OF split no])
      have mem: "0 \<in> set (br_rest r) \<longleftrightarrow> 0 \<in> set (br_rest ?u)"
        using no arg_cong [OF split, of set] by auto
      have less': "rs_left bytes_ops ?u < rs_left bytes_ops r"
        using False by (simp add: br_rest_def)
      show ?thesis
        using p no read less' by (simp add: read_string0_loop.simps [of bytes_ops buf r] tw mem) blast
    qed
  qed
qed

lemma ReadString0At_bytes:
  assumes "0 \<le> off"
  shows "ReadString0At bytes_ops off r =
    (let d = drop (nat off) (br_data r)
     in if 0 \<in> set d then (string_of (takeWhile (\<lambda>b. b \<noteq> 0) d), None) else ([], Some EOF), r)"
proof -
  obtain p where "read_string0_loop bytes_ops [] (r\<lparr>br_pos := nat off\<rparr>) =
     ((let d = drop (nat off) (br_data r)
       in if 0 \<in> set d then (string_of (takeWhile (\<lambda>b. b \<noteq> 0) d), None) else ([], Some EOF)),
      r\<lparr>br_pos := p\<rparr>)"
    using read_string0_loop_bytes [of "[]" "r\<lparr>br_pos := nat off\<rparr>"] by (auto simp: br_rest_def)
  then show ?thesis
    unfolding ReadString0At_def ReadString0_def
    by (rule at_offset_bytes [OF assms])
qed

end
