(* ===== verification/AcbUtf.thy ===== *)
theory AcbUtf
  imports AcbReader "HOL-Library.AList"
begin

text \<open>
  \<open>internal/cricodecs/acb/utf.go\<close> and the column constants of \<open>const.go\<close>: the parser of
  CRI's \<open>@UTF\<close> tables, the container of all ACB metadata, against the \<open>io.ReadSeeker\<close>
  interface. \<open>t.Constants\<close> is an association list, since the code iterates over it; a row is a
  HOL map. The header fields keep their widths, so the offset arithmetic wraps as in the code.
\<close>

unbundle bit_operations_syntax

section \<open>Constants and data\<close>

definition columnFlagMask :: u8 where "columnFlagMask = 0xF0"
definition columnFlagName :: u8 where "columnFlagName = 0x10"
definition columnFlagDefault :: u8 where "columnFlagDefault = 0x20"
definition columnFlagRow :: u8 where "columnFlagRow = 0x40"
definition columnFlagUndefined :: u8 where "columnFlagUndefined = 0x80"
definition columnTypeMask :: u8 where "columnTypeMask = 0x0F"

definition columnType1Byte :: u8 where "columnType1Byte = 0x00"
definition columnType1Byte2 :: u8 where "columnType1Byte2 = 0x01"
definition columnType2Byte :: u8 where "columnType2Byte = 0x02"
definition columnType2Byte2 :: u8 where "columnType2Byte2 = 0x03"
definition columnType4Byte :: u8 where "columnType4Byte = 0x04"
definition columnType4Byte2 :: u8 where "columnType4Byte2 = 0x05"
definition columnType8Byte :: u8 where "columnType8Byte = 0x06"
definition columnTypeFloat :: u8 where "columnTypeFloat = 0x08"
definition columnTypeString :: u8 where "columnTypeString = 0x0A"
definition columnTypeData :: u8 where "columnTypeData = 0x0B"

lemmas column_consts =
  columnFlagMask_def columnFlagName_def columnFlagDefault_def columnFlagRow_def
  columnFlagUndefined_def columnTypeMask_def columnType1Byte_def columnType1Byte2_def
  columnType2Byte_def columnType2Byte2_def columnType4Byte_def columnType4Byte2_def
  columnType8Byte_def columnTypeFloat_def columnTypeString_def columnTypeData_def

record UTFHeader =
  TableSize :: u32
  Version :: u16
  RowOffset :: u16
  StringTableOffset :: u32
  DataOffset :: u32
  TableNameOffset :: u32
  NumberOfFields :: u16
  RowSize :: u16
  NumberOfRows :: u32

record columnSchema =
  col_flag :: u8
  col_typ :: u8
  col_name :: string
  col_offset :: u32

type_synonym row = "string \<rightharpoonup> gval"

record UTFTable =
  Header :: UTFHeader
  table_Name :: string
  DynamicKeys :: "string list"
  Constants :: "(string \<times> gval) list"
  Rows :: "row list"
  schema :: "columnSchema list"

definition utfMaxSchemaSize :: u32 where "utfMaxSchemaSize = 0x8000"

section \<open>The parser\<close>

text \<open>\<open>columnValueSize\<close>: \<open>None\<close> is the error \<open>unknown column type\<close>.\<close>

definition columnValueSize :: "u8 \<Rightarrow> u32 option" where
  "columnValueSize t =
     (if t = columnType1Byte \<or> t = columnType1Byte2 then Some 1
      else if t = columnType2Byte \<or> t = columnType2Byte2 then Some 2
      else if t = columnType4Byte \<or> t = columnType4Byte2 \<or> t = columnTypeFloat \<or> t = columnTypeString
        then Some 4
      else if t = columnType8Byte \<or> t = columnTypeData then Some 8
      else None)"

definition readColumnValue ::
    "'s read_seeker \<Rightarrow> UTFHeader \<Rightarrow> u8 \<Rightarrow> bool \<Rightarrow> ('s, gval) io" where
  "readColumnValue R h t isConstant =
     (if t = columnTypeData then
        bindS (checkErr (ReadUint32 R)) (\<lambda>offset.
        bindS (checkErr (ReadUint32 R)) (\<lambda>size.
          if isConstant then returnS (VDataPromise offset size)
          else mapS VBytes (checkErr (ReadBytesAt R (uint size) (uint (DataOffset h + 8 + offset))))))
      else if t = columnTypeString then
        bindS (checkErr (ReadUint32 R)) (\<lambda>offset.
          if isConstant then returnS (VStringPromise offset)
          else mapS VString (checkErr (ReadString0At R (uint (StringTableOffset h + 8 + offset)))))
      else if t = columnTypeFloat then mapS VFloat32 (checkErr (ReadFloat32 R))
      else if t = columnType8Byte then mapS VUint64 (checkErr (ReadUint64 R))
      else if t = columnType4Byte2 then mapS VInt32 (checkErr (ReadInt32 R))
      else if t = columnType4Byte then mapS VUint32 (checkErr (ReadUint32 R))
      else if t = columnType2Byte2 then mapS VInt16 (checkErr (ReadInt16 R))
      else if t = columnType2Byte then mapS VUint16 (checkErr (ReadUint16 R))
      else if t = columnType1Byte2 then mapS VInt8 (checkErr (ReadInt8 R))
      else if t = columnType1Byte then mapS VUint8 (checkErr (ReadUint8 R))
      else throwS (Failure ''unknown column type''))"

definition resolvePromise :: "'s read_seeker \<Rightarrow> UTFHeader \<Rightarrow> gval \<Rightarrow> ('s, gval) io" where
  "resolvePromise R h v =
     (case v of
        VDataPromise offset len \<Rightarrow>
          mapS VBytes (checkErr (ReadBytesAt R (uint len) (uint (DataOffset h + 8 + offset))))
      | VStringPromise offset \<Rightarrow>
          mapS VString (checkErr (ReadString0At R (uint (StringTableOffset h + 8 + offset))))
      | _ \<Rightarrow> returnS v)"

text \<open>The loop state of \<open>parseSchema\<close>.\<close>

record schema_state =
  ss_schema :: "columnSchema list"
  ss_keys :: "string list"
  ss_consts :: "(string \<times> gval) list"
  ss_rowOff :: u32

text \<open>One round of the loop, up to the store \<open>schema[i] = col\<close>.\<close>

definition readField ::
    "'s read_seeker \<Rightarrow> UTFHeader \<Rightarrow> schema_state \<Rightarrow> ('s, columnSchema \<times> schema_state) io" where
  "readField R h a =
     bindS (wrapErr ''failed to read field info'' (checkErr (ReadUint8 R))) (\<lambda>info.
     bindS (wrapErr ''failed to read name offset'' (checkErr (ReadUint32 R))) (\<lambda>nameOffset.
     let flag = info AND columnFlagMask; t = info AND columnTypeMask in
     if flag = 0 \<or> flag AND columnFlagName = 0 \<or> flag AND columnFlagUndefined \<noteq> 0
     then throwS (Failure ''unknown column flag combo'')
     else
     bindS (wrapErr ''failed to read field name''
             (checkErr (ReadString0At R (uint (StringTableOffset h + 8 + nameOffset))))) (\<lambda>name.
     let col = \<lparr>col_flag = flag, col_typ = t, col_name = name, col_offset = 0\<rparr> in
     case columnValueSize t of
       None \<Rightarrow> throwS (Failure ''unknown column type'')
     | Some valSize \<Rightarrow>
         if flag AND columnFlagDefault \<noteq> 0 then
           bindS (wrapErr ''failed to read constant data'' (readColumnValue R h t True)) (\<lambda>val.
             returnS (col, a\<lparr>ss_consts := AList.update name val (ss_consts a)\<rparr>))
         else if flag AND columnFlagRow \<noteq> 0 then
           returnS (col\<lparr>col_offset := ss_rowOff a\<rparr>,
             a\<lparr>ss_keys := ss_keys a @ [name], ss_rowOff := ss_rowOff a + valSize\<rparr>)
         else returnS (col, a))))"

definition parseField :: "'s read_seeker \<Rightarrow> UTFHeader \<Rightarrow> nat \<Rightarrow> schema_state \<Rightarrow> ('s, schema_state) io" where
  "parseField R h i a =
     bindS (readField R h a) (\<lambda>(col, a).
     bindS (resultS (arr_put i col (ss_schema a))) (\<lambda>cols.
     returnS (a\<lparr>ss_schema := cols\<rparr>)))"

text \<open>The rounds from \<open>i\<close> on, of which \<open>n\<close> are left.\<close>

fun parseFields :: "'s read_seeker \<Rightarrow> UTFHeader \<Rightarrow> nat \<Rightarrow> nat \<Rightarrow> schema_state \<Rightarrow> ('s, schema_state) io" where
  "parseFields R h i 0 a = returnS a"
| "parseFields R h i (Suc n) a = bindS (parseField R h i a) (parseFields R h (Suc i) n)"

definition zero_column :: columnSchema where
  "zero_column = \<lparr>col_flag = 0, col_typ = 0, col_name = [], col_offset = 0\<rparr>"

definition parseSchema :: "'s read_seeker \<Rightarrow> UTFHeader \<Rightarrow> ('s, schema_state) io" where
  "parseSchema R h =
     bindS (seekS R 0x20) (\<lambda>_.
       parseFields R h 0 (unat (NumberOfFields h))
         \<lparr>ss_schema = replicate (unat (NumberOfFields h)) zero_column, ss_keys = [], ss_consts = [], ss_rowOff = 0\<rparr>)"

fun resolveConstants ::
    "'s read_seeker \<Rightarrow> UTFHeader \<Rightarrow> (string \<times> gval) list \<Rightarrow> ('s, (string \<times> gval) list) io" where
  "resolveConstants R h [] = returnS []"
| "resolveConstants R h ((k, v) # cs) =
     bindS (wrapErr ''failed to resolve constant'' (resolvePromise R h v)) (\<lambda>value.
     bindS (resolveConstants R h cs) (\<lambda>rest. returnS ((k, value) # rest)))"

text \<open>The test that skips a column which is not stored per row.\<close>

definition is_row_column :: "columnSchema \<Rightarrow> bool" where
  "is_row_column col \<longleftrightarrow>
     \<not> (col_flag col AND columnFlagRow = 0 \<or> col_flag col AND columnFlagDefault \<noteq> 0)"

definition field_pos :: "UTFHeader \<Rightarrow> nat \<Rightarrow> columnSchema \<Rightarrow> int" where
  "field_pos h rowIdx col =
     uint ((ucast (RowOffset h) :: u32) + 8 + of_nat rowIdx * ucast (RowSize h)) + uint (col_offset col)"

fun readRowFields ::
    "'s read_seeker \<Rightarrow> UTFHeader \<Rightarrow> nat \<Rightarrow> columnSchema list \<Rightarrow> row \<Rightarrow> ('s, row) io" where
  "readRowFields R h rowIdx [] row = returnS row"
| "readRowFields R h rowIdx (col # cols) row =
     (if \<not> is_row_column col then readRowFields R h rowIdx cols row
      else
        bindS (wrapErr ''failed to seek to field''
                (checkErr (\<lambda>s. rs_seek R s (field_pos h rowIdx col) SeekStart))) (\<lambda>_.
        bindS (wrapErr ''failed to read field data'' (readColumnValue R h (col_typ col) False)) (\<lambda>val.
        bindS (wrapErr ''failed to resolve field data'' (resolvePromise R h val)) (\<lambda>resolved.
        readRowFields R h rowIdx cols (row(col_name col \<mapsto> resolved))))))"

text \<open>The rows from \<open>rowIdx\<close> on, of which \<open>n\<close> are left, each stored with \<open>rows[rowIdx] = row\<close>.\<close>

fun fillRows ::
    "'s read_seeker \<Rightarrow> UTFHeader \<Rightarrow> columnSchema list \<Rightarrow> row \<Rightarrow> nat \<Rightarrow> nat \<Rightarrow> row list \<Rightarrow> ('s, row list) io" where
  "fillRows R h cols consts rowIdx 0 rows = returnS rows"
| "fillRows R h cols consts rowIdx (Suc n) rows =
     bindS (readRowFields R h rowIdx cols consts) (\<lambda>row.
     bindS (resultS (arr_put rowIdx row rows)) (\<lambda>rows.
     fillRows R h cols consts (Suc rowIdx) n rows))"

definition readRows ::
    "'s read_seeker \<Rightarrow> UTFHeader \<Rightarrow> columnSchema list \<Rightarrow> (string \<times> gval) list \<Rightarrow> ('s, row list) io" where
  "readRows R h cols consts =
     bindS (resolveConstants R h consts) (\<lambda>resolved.
       fillRows R h cols (map_of resolved) 0 (unat (NumberOfRows h)) (replicate (unat (NumberOfRows h)) Map.empty))"

definition readHeader :: "'s read_seeker \<Rightarrow> ('s, UTFHeader) io" where
  "readHeader R =
     bindS (wrapErr ''failed to read table size'' (checkErr (ReadUint32 R))) (\<lambda>tableSize.
     bindS (wrapErr ''failed to read version'' (checkErr (ReadUint16 R))) (\<lambda>version.
     bindS (wrapErr ''failed to read row offset'' (checkErr (ReadUint16 R))) (\<lambda>rowOffset.
     bindS (wrapErr ''failed to read string table offset'' (checkErr (ReadUint32 R))) (\<lambda>stringOffset.
     bindS (wrapErr ''failed to read data offset'' (checkErr (ReadUint32 R))) (\<lambda>dataOffset.
     bindS (wrapErr ''failed to read table name offset'' (checkErr (ReadUint32 R))) (\<lambda>nameOffset.
     bindS (wrapErr ''failed to read number of fields'' (checkErr (ReadUint16 R))) (\<lambda>fields.
     bindS (wrapErr ''failed to read row size'' (checkErr (ReadUint16 R))) (\<lambda>rowSize.
     bindS (wrapErr ''failed to read number of rows'' (checkErr (ReadUint32 R))) (\<lambda>rows.
       returnS \<lparr>TableSize = tableSize, Version = version, RowOffset = rowOffset,
         StringTableOffset = stringOffset, DataOffset = dataOffset, TableNameOffset = nameOffset,
         NumberOfFields = fields, RowSize = rowSize, NumberOfRows = rows\<rparr>)))))))))"

text \<open>The validation between the header and the schema: \<open>None\<close> when it passes.\<close>

definition header_error :: "UTFHeader \<Rightarrow> go_err option" where
  "header_error h =
     (let absRowOffset = (ucast (RowOffset h) :: u32) + 8;
          absStringOffset = StringTableOffset h + 8;
          absDataOffset = DataOffset h + 8;
          schemaSize = absRowOffset - 0x20
      in if NumberOfFields h = 0 then Some (Failure ''UTF table has no columns'')
         else if utfMaxSchemaSize \<le> schemaSize then Some (Failure ''UTF schema too large'')
         else if TableSize h + 8 < absRowOffset \<or> TableSize h + 8 < absStringOffset
              \<or> TableSize h + 8 < absDataOffset
           then Some (Failure ''UTF offset out of bounds'')
         else None)"

definition NewUTFTable :: "'s read_seeker \<Rightarrow> ('s, UTFTable) io" where
  "NewUTFTable R =
     bindS (wrapErr ''failed to read UTF magic'' (checkErr (ReadUint32 R))) (\<lambda>magic.
     if magic \<noteq> 0x40555446 then throwS (Failure ''bad UTF magic'')
     else
     bindS (readHeader R) (\<lambda>h.
     case header_error h of
       Some e \<Rightarrow> throwS e
     | None \<Rightarrow>
         bindS (wrapErr ''failed to read table name''
                 (checkErr (ReadString0At R (uint (StringTableOffset h + 8 + TableNameOffset h))))) (\<lambda>name.
         bindS (parseSchema R h) (\<lambda>a.
         bindS (readRows R h (ss_schema a) (ss_consts a)) (\<lambda>rows.
           returnS \<lparr>Header = h, table_Name = name, DynamicKeys = ss_keys a,
             Constants = ss_consts a, Rows = rows, schema = ss_schema a\<rparr>)))))"

section \<open>The slices are filled from the front\<close>

text \<open>
  Both loops store into slices of the length that is counted to, so no store is out of range; the slice up
  to the index is what has been read so far. What follows is shown of the loops over these lists.
\<close>

definition appendField :: "'s read_seeker \<Rightarrow> UTFHeader \<Rightarrow> schema_state \<Rightarrow> ('s, schema_state) io" where
  "appendField R h a = mapS (\<lambda>(col, b). b\<lparr>ss_schema := ss_schema b @ [col]\<rparr>) (readField R h a)"

fun appendFields :: "'s read_seeker \<Rightarrow> UTFHeader \<Rightarrow> nat \<Rightarrow> schema_state \<Rightarrow> ('s, schema_state) io" where
  "appendFields R h 0 a = returnS a"
| "appendFields R h (Suc n) a = bindS (appendField R h a) (appendFields R h n)"

lemma readField_schema:
  "readField R h (a\<lparr>ss_schema := x\<rparr>) = mapS (\<lambda>(col, b). (col, b\<lparr>ss_schema := x\<rparr>)) (readField R h a)"
  by (auto simp: readField_def Let_def mapS_def bindS_def throwS_def returnS_def fun_eq_iff
      split: prod.splits sum.splits option.splits)

lemma readField_keeps: "readField R h a s = (Inr (col, b), s') \<Longrightarrow> ss_schema b = ss_schema a"
  by (auto simp: readField_def Let_def elim!: go_elims split: if_splits option.splits)

definition with_room :: "nat \<Rightarrow> schema_state \<Rightarrow> schema_state" where
  "with_room n a = a\<lparr>ss_schema := ss_schema a @ replicate n zero_column\<rparr>"

lemma parseField_with_room:
  assumes "i = length (ss_schema a)"
  shows "parseField R h i (with_room (Suc n) a) s = mapS (with_room n) (appendField R h a) s"
proof (cases "readField R h a s")
  case (Pair r s')
  show ?thesis
  proof (cases r)
    case (Inl e)
    with Pair show ?thesis
      by (simp add: parseField_def with_room_def readField_schema appendField_def mapS_def bindS_def)
  next
    case (Inr x)
    obtain col b where x: "x = (col, b)" by fastforce
    have "ss_schema b = ss_schema a" using readField_keeps [of R h a s col b s'] Pair Inr x by simp
    then show ?thesis
      using Pair Inr x assms
      by (simp add: parseField_def with_room_def readField_schema appendField_def mapS_def bindS_def
          arr_put_next)
        (simp add: returnS_def bindS_def arr_put_next)
  qed
qed

lemma appendField_length:
  "appendField R h a s = (Inr b, s') \<Longrightarrow> length (ss_schema b) = Suc (length (ss_schema a))"
  by (auto simp: appendField_def elim!: go_elims dest: readField_keeps)

lemma parseFields_with_room:
  "i = length (ss_schema a) \<Longrightarrow> parseFields R h i n (with_room n a) s = appendFields R h n a s"
proof (induction n arbitrary: i a s)
  case 0
  show ?case by (simp add: with_room_def)
next
  case (Suc n)
  obtain r u where r: "appendField R h a s = (r, u)" by fastforce
  have step: "parseField R h i (with_room (Suc n) a) s = mapS (with_room n) (appendField R h a) s"
    by (rule parseField_with_room [OF Suc.prems])
  show ?case
  proof (cases r)
    case (Inl e)
    with r step show ?thesis by (simp add: bindS_def mapS_def)
  next
    case (Inr b)
    with r have "Suc i = length (ss_schema b)" using appendField_length Suc.prems by fastforce
    from Suc.IH [OF this] r Inr step show ?thesis by (simp add: bindS_def mapS_def returnS_def)
  qed
qed

lemma parseSchema_append:
  "parseSchema R h =
     bindS (seekS R 0x20) (\<lambda>_. appendFields R h (unat (NumberOfFields h))
       \<lparr>ss_schema = [], ss_keys = [], ss_consts = [], ss_rowOff = 0\<rparr>)"
proof -
  let ?a = "\<lparr>ss_schema = [], ss_keys = [], ss_consts = [], ss_rowOff = 0 :: u32\<rparr>"
  have "parseFields R h 0 n (with_room n ?a) = appendFields R h n ?a" for n
    by (rule ext) (simp add: parseFields_with_room)
  then show ?thesis by (simp add: parseSchema_def with_room_def)
qed

lemma fillRows_append:
  "length xs = i \<Longrightarrow> fillRows R h cols consts i n (xs @ replicate n z) s =
     mapS ((@) xs) (repeatS n i (\<lambda>i. readRowFields R h i cols consts)) s"
proof (induction n arbitrary: i xs s)
  case 0
  show ?case by (simp add: mapS_def)
next
  case (Suc n)
  obtain r u where r: "readRowFields R h i cols consts s = (r, u)" by fastforce
  show ?case
  proof (cases r)
    case (Inl e)
    with r show ?thesis by (simp add: bindS_def mapS_def)
  next
    case (Inr row)
    have "fillRows R h cols consts i (Suc n) (xs @ replicate (Suc n) z) s
        = fillRows R h cols consts (Suc i) n ((xs @ [row]) @ replicate n z) u"
      using r Inr arr_put_next [of i xs row z "replicate n z"] Suc.prems by (simp add: bindS_def [where m = "readRowFields R h i cols consts"])
    also have "\<dots> = mapS ((@) (xs @ [row])) (repeatS n (Suc i) (\<lambda>i. readRowFields R h i cols consts)) u"
      by (rule Suc.IH) (simp add: Suc.prems)
    finally show ?thesis
      using r Inr by (auto simp: bindS_def mapS_def returnS_def split: prod.splits sum.splits)
  qed
qed

lemma readRows_repeat:
  "readRows R h cols consts =
     bindS (resolveConstants R h consts) (\<lambda>resolved.
       repeatS (unat (NumberOfRows h)) 0 (\<lambda>rowIdx. readRowFields R h rowIdx cols (map_of resolved)))"
  using fillRows_append [of "[]" 0 R h cols]
  by (simp add: readRows_def mapS_def bindS_def returnS_def fun_eq_iff split: prod.splits sum.splits)

section \<open>Any reader gives the table a byte reader gives\<close>

context seekable_reader begin

lemma readColumnValue_sim [sim_intros]:
  "simS ok view (readColumnValue R h t c) (readColumnValue bytes_ops h t c)"
  by (auto simp: readColumnValue_def intro!: sim_intros)

lemma resolvePromise_sim [sim_intros]:
  "simS ok view (resolvePromise R h v) (resolvePromise bytes_ops h v)"
  by (cases v) (auto simp: resolvePromise_def intro!: sim_intros)

lemma readField_sim [sim_intros]:
  "simS ok view (readField R h a) (readField bytes_ops h a)"
  by (auto simp: readField_def Let_def intro!: sim_intros split: option.split)

lemma appendField_sim [sim_intros]:
  "simS ok view (appendField R h a) (appendField bytes_ops h a)"
  unfolding appendField_def by (intro sim_intros)

lemma appendFields_sim [sim_intros]:
  "simS ok view (appendFields R h n a) (appendFields bytes_ops h n a)"
  by (induction n arbitrary: a) (auto intro!: sim_intros)

lemma resolveConstants_sim [sim_intros]:
  "simS ok view (resolveConstants R h cs) (resolveConstants bytes_ops h cs)"
  by (induction cs) (auto intro!: sim_intros)

lemma readRowFields_sim [sim_intros]:
  "simS ok view (readRowFields R h i cols row) (readRowFields bytes_ops h i cols row)"
proof (induction cols arbitrary: row)
  case Nil
  show ?case by (simp add: sim_intros)
next
  case (Cons col cols)
  have "0 \<le> field_pos h i col" by (simp add: field_pos_def)
  with Cons seek_sim show ?case by (auto intro!: sim_intros)
qed

lemma readRows_sim [sim_intros]:
  "simS ok view (readRows R h cols cs) (readRows bytes_ops h cols cs)"
  by (auto simp: readRows_repeat intro!: sim_intros)

lemma NewUTFTable_sim: "simS ok view (NewUTFTable R) (NewUTFTable bytes_ops)"
  by (auto simp: NewUTFTable_def readHeader_def parseSchema_append intro!: sim_intros split: option.split)

end

section \<open>What the parser reads, on a byte reader\<close>

text \<open>
  The contents of a cell as a function of the bytes alone: the value of a column of type \<open>t\<close>
  stored at offset \<open>p\<close>.
\<close>

definition bytes_at :: "bytes \<Rightarrow> nat \<Rightarrow> nat \<Rightarrow> bytes option" where
  "bytes_at d p n = (if n \<le> length d - p then Some (take n (drop p d)) else None)"

definition string_at :: "bytes \<Rightarrow> nat \<Rightarrow> string option" where
  "string_at d p =
     (if 0 \<in> set (drop p d) then Some (string_of (takeWhile (\<lambda>b. b \<noteq> 0) (drop p d))) else None)"

definition word_at :: "bytes \<Rightarrow> nat \<Rightarrow> nat \<Rightarrow> 'a::len word option" where
  "word_at d p n = map_option be_word (bytes_at d p n)"

definition data_at :: "bytes \<Rightarrow> UTFHeader \<Rightarrow> u32 \<Rightarrow> u32 \<Rightarrow> gval option" where
  "data_at d h offset len =
     map_option VBytes (bytes_at d (unat (DataOffset h + 8 + offset)) (unat len))"

definition text_at :: "bytes \<Rightarrow> UTFHeader \<Rightarrow> u32 \<Rightarrow> gval option" where
  "text_at d h offset = map_option VString (string_at d (unat (StringTableOffset h + 8 + offset)))"

definition cell_at :: "bytes \<Rightarrow> UTFHeader \<Rightarrow> u8 \<Rightarrow> nat \<Rightarrow> gval option" where
  "cell_at d h t p =
     (if t = columnTypeData then
        (case (word_at d p 4, word_at d (p + 4) 4) of
           (Some offset, Some len) \<Rightarrow> data_at d h offset len | _ \<Rightarrow> None)
      else if t = columnTypeString then Option.bind (word_at d p 4) (text_at d h)
      else if t = columnTypeFloat then map_option VFloat32 (word_at d p 4)
      else if t = columnType8Byte then map_option VUint64 (word_at d p 8)
      else if t = columnType4Byte2 then map_option VInt32 (word_at d p 4)
      else if t = columnType4Byte then map_option VUint32 (word_at d p 4)
      else if t = columnType2Byte2 then map_option VInt16 (word_at d p 2)
      else if t = columnType2Byte then map_option VUint16 (word_at d p 2)
      else if t = columnType1Byte2 then map_option VInt8 (word_at d p 1)
      else if t = columnType1Byte then map_option VUint8 (word_at d p 1)
      else None)"

text \<open>
  \<open>reads_as n m f\<close>: at position \<open>p\<close> of bytes \<open>d\<close>, \<open>m\<close> returns the value \<open>f d p\<close> if there
  is one, and stops \<open>n\<close> bytes further; otherwise it fails with an error that is no panic. The
  bytes stay as they are.
\<close>

definition reads_as :: "nat \<Rightarrow> (byte_reader, 'a) io \<Rightarrow> (bytes \<Rightarrow> nat \<Rightarrow> 'a option) \<Rightarrow> bool" where
  "reads_as n m f \<longleftrightarrow>
     (\<forall>r x r'. m r = (x, r') \<longrightarrow> br_data r' = br_data r \<and>
        (case f (br_data r) (br_pos r) of
           Some v \<Rightarrow> x = Inr v \<and> br_pos r' = br_pos r + n
         | None \<Rightarrow> (\<exists>e. x = Inl e \<and> \<not> is_panic e)))"

lemma reads_asD:
  "reads_as n m f \<Longrightarrow> m r = (x, r') \<Longrightarrow> br_data r' = br_data r \<and>
     (case f (br_data r) (br_pos r) of
        Some v \<Rightarrow> x = Inr v \<and> br_pos r' = br_pos r + n
      | None \<Rightarrow> (\<exists>e. x = Inl e \<and> \<not> is_panic e))"
  by (simp add: reads_as_def)

named_theorems reads_intros \<open>what the parser's steps read\<close>

lemma reads_as_word [reads_intros]:
  "reads_as n (checkErr (binary_read bytes_ops n be_word)) (\<lambda>d p. word_at d p n)"
  by (auto simp: reads_as_def checkErr_def binary_read_bytes word_at_def bytes_at_def br_rest_def
      split: if_splits)

lemma reads_as_typed [reads_intros]:
  "reads_as 1 (checkErr (ReadUint8 bytes_ops)) (\<lambda>d p. word_at d p 1)"
  "reads_as 1 (checkErr (ReadInt8 bytes_ops)) (\<lambda>d p. word_at d p 1)"
  "reads_as 2 (checkErr (ReadUint16 bytes_ops)) (\<lambda>d p. word_at d p 2)"
  "reads_as 2 (checkErr (ReadInt16 bytes_ops)) (\<lambda>d p. word_at d p 2)"
  "reads_as 4 (checkErr (ReadUint32 bytes_ops)) (\<lambda>d p. word_at d p 4)"
  "reads_as 4 (checkErr (ReadInt32 bytes_ops)) (\<lambda>d p. word_at d p 4)"
  "reads_as 4 (checkErr (ReadFloat32 bytes_ops)) (\<lambda>d p. word_at d p 4)"
  "reads_as 8 (checkErr (ReadUint64 bytes_ops)) (\<lambda>d p. word_at d p 8)"
  by (simp_all only: typed_read_defs reads_as_word)

lemma reads_as_return: "reads_as 0 (returnS v) (\<lambda>d p. Some v)"
  by (simp add: reads_as_def)

lemma reads_as_throw: "\<not> is_panic e \<Longrightarrow> reads_as n (throwS e) (\<lambda>d p. None)"
  by (simp add: reads_as_def)

lemma reads_as_bind:
  assumes "reads_as n m f" and "\<And>v. reads_as k (g v) (h v)"
  shows "reads_as (n + k) (bindS m g) (\<lambda>d p. Option.bind (f d p) (\<lambda>v. h v d (p + n)))"
  unfolding reads_as_def
proof (intro allI impI)
  fix r x r'
  assume run: "bindS m g r = (x, r')"
  obtain y u where y: "m r = (y, u)" by fastforce
  note m = reads_asD [OF assms(1) y]
  show "br_data r' = br_data r \<and>
      (case Option.bind (f (br_data r) (br_pos r)) (\<lambda>v. h v (br_data r) (br_pos r + n)) of
         Some v \<Rightarrow> x = Inr v \<and> br_pos r' = br_pos r + (n + k)
       | None \<Rightarrow> (\<exists>e. x = Inl e \<and> \<not> is_panic e))"
  proof (cases "f (br_data r) (br_pos r)")
    case None
    with m run y show ?thesis by (auto simp: bindS_def)
  next
    case (Some v)
    with m run y have "g v u = (x, r')" by (simp add: bindS_def)
    from reads_asD [OF assms(2) this] m Some show ?thesis
      by (auto simp: add.assoc split: option.splits)
  qed
qed

lemma reads_as_map:
  assumes "reads_as n m f"
  shows "reads_as n (mapS F m) (\<lambda>d p. map_option F (f d p))"
  unfolding reads_as_def
proof (intro allI impI)
  fix r x r'
  assume run: "mapS F m r = (x, r')"
  obtain y u where y: "m r = (y, u)" by fastforce
  from reads_asD [OF assms y] run y
  show "br_data r' = br_data r \<and>
      (case map_option F (f (br_data r) (br_pos r)) of
         Some v \<Rightarrow> x = Inr v \<and> br_pos r' = br_pos r + n
       | None \<Rightarrow> (\<exists>e. x = Inl e \<and> \<not> is_panic e))"
    by (auto simp: mapS_def bindS_def returnS_def split: option.splits)
qed

lemma reads_as_wrap:
  "reads_as n m f \<Longrightarrow> reads_as n (wrapErr msg m) f"
  by (auto simp: reads_as_def wrapErr_def split: prod.splits sum.splits option.splits)

lemma reads_as_cong: "reads_as n m f \<Longrightarrow> n = n' \<Longrightarrow> (\<And>d p. f d p = g d p) \<Longrightarrow> reads_as n' m g"
  by (simp add: reads_as_def)

lemma reads_as_bytes_at:
  "reads_as 0 (checkErr (ReadBytesAt bytes_ops (uint len) (uint off)))
     (\<lambda>d p. bytes_at d (unat off) (unat len))"
  by (auto simp: reads_as_def checkErr_def ReadBytesAt_bytes bytes_at_def Let_def split: if_splits)

lemma reads_as_string_at:
  "reads_as 0 (checkErr (ReadString0At bytes_ops (uint off))) (\<lambda>d p. string_at d (unat off))"
  by (auto simp: reads_as_def checkErr_def ReadString0At_bytes string_at_def Let_def split: if_splits)

text \<open>How far \<open>readColumnValue\<close> moves: the size of the column.\<close>

definition cell_size :: "u8 \<Rightarrow> nat" where
  "cell_size t = (case columnValueSize t of Some n \<Rightarrow> unat n | None \<Rightarrow> 0)"

lemma readColumnValue_reads:
  "reads_as (cell_size t) (readColumnValue bytes_ops h t False) (\<lambda>d p. cell_at d h t p)"
proof -
  have data: "reads_as 8
      (bindS (checkErr (ReadUint32 bytes_ops)) (\<lambda>offset.
       bindS (checkErr (ReadUint32 bytes_ops)) (\<lambda>len.
         mapS VBytes (checkErr (ReadBytesAt bytes_ops (uint len) (uint (DataOffset h + 8 + offset)))))))
      (\<lambda>d p. case (word_at d p 4, word_at d (p + 4) 4) of
           (Some offset, Some len) \<Rightarrow> data_at d h offset len | _ \<Rightarrow> None)"
    by (rule reads_as_cong, rule reads_as_bind, rule reads_as_typed, rule reads_as_bind,
        rule reads_as_typed, rule reads_as_map, rule reads_as_bytes_at)
      (auto simp: data_at_def Option.bind_def split: option.splits)
  have str: "reads_as 4
      (bindS (checkErr (ReadUint32 bytes_ops)) (\<lambda>offset.
         mapS VString (checkErr (ReadString0At bytes_ops (uint (StringTableOffset h + 8 + offset))))))
      (\<lambda>d p. Option.bind (word_at d p 4) (text_at d h))"
    by (rule reads_as_cong, rule reads_as_bind, rule reads_as_typed, rule reads_as_map,
        rule reads_as_string_at)
      (auto simp: text_at_def [abs_def])
  show ?thesis
    unfolding readColumnValue_def cell_at_def
    using data str
    by (auto simp: cell_size_def columnValueSize_def column_consts simp del: One_nat_def
        intro!: reads_as_map reads_as_typed reads_as_throw)
qed

text \<open>
  \<open>yields m g\<close>: whatever the position, \<open>m\<close> returns \<open>g d\<close> for the bytes \<open>d\<close>, or fails without a
  panic where \<open>g d\<close> is \<open>None\<close>. \<open>calm m\<close> only says that the bytes stay and that there is no panic.
\<close>

definition yields :: "(byte_reader, 'a) io \<Rightarrow> (bytes \<Rightarrow> 'a option) \<Rightarrow> bool" where
  "yields m g \<longleftrightarrow>
     (\<forall>r x r'. m r = (x, r') \<longrightarrow> br_data r' = br_data r \<and>
        (case g (br_data r) of Some v \<Rightarrow> x = Inr v | None \<Rightarrow> (\<exists>e. x = Inl e \<and> \<not> is_panic e)))"

definition calm :: "(byte_reader, 'a) io \<Rightarrow> bool" where
  "calm m \<longleftrightarrow>
     (\<forall>r x r'. m r = (x, r') \<longrightarrow> br_data r' = br_data r \<and> (\<forall>e. x = Inl e \<longrightarrow> \<not> is_panic e))"

lemma yieldsD:
  "yields m g \<Longrightarrow> m r = (x, r') \<Longrightarrow> br_data r' = br_data r \<and>
     (case g (br_data r) of Some v \<Rightarrow> x = Inr v | None \<Rightarrow> (\<exists>e. x = Inl e \<and> \<not> is_panic e))"
  by (simp add: yields_def)

lemma calmD: "calm m \<Longrightarrow> m r = (x, r') \<Longrightarrow> br_data r' = br_data r \<and> (\<forall>e. x = Inl e \<longrightarrow> \<not> is_panic e)"
  by (simp add: calm_def)

named_theorems calm_intros \<open>code that keeps the bytes and does not panic\<close>

lemma calm_reads_as:
  assumes "reads_as n m f"
  shows "calm m"
  unfolding calm_def
proof (intro allI impI)
  fix r x r'
  assume "m r = (x, r')"
  from reads_asD [OF assms this]
  show "br_data r' = br_data r \<and> (\<forall>e. x = Inl e \<longrightarrow> \<not> is_panic e)"
    by (auto split: option.splits)
qed

lemma calm_yields:
  assumes "yields m g"
  shows "calm m"
  unfolding calm_def
proof (intro allI impI)
  fix r x r'
  assume "m r = (x, r')"
  from yieldsD [OF assms this]
  show "br_data r' = br_data r \<and> (\<forall>e. x = Inl e \<longrightarrow> \<not> is_panic e)"
    by (auto split: option.splits)
qed

lemma calm_return [calm_intros]: "calm (returnS x)"
  by (simp add: calm_def)

lemma calm_throw [calm_intros]: "\<not> is_panic e \<Longrightarrow> calm (throwS e)"
  by (simp add: calm_def)

lemma calm_bind [calm_intros]:
  assumes "calm m" and "\<And>x. calm (f x)"
  shows "calm (bindS m f)"
  unfolding calm_def
proof (intro allI impI)
  fix r x r'
  assume run: "bindS m f r = (x, r')"
  obtain y u where y: "m r = (y, u)" by fastforce
  show "br_data r' = br_data r \<and> (\<forall>e. x = Inl e \<longrightarrow> \<not> is_panic e)"
  proof (cases y)
    case (Inl e)
    with calmD [OF assms(1) y] run y show ?thesis by (auto simp: bindS_def)
  next
    case (Inr v)
    with run y have "f v u = (x, r')" by (simp add: bindS_def)
    from calmD [OF assms(2) this] calmD [OF assms(1) y] show ?thesis by simp
  qed
qed

lemma calm_wrap [calm_intros]: "calm m \<Longrightarrow> calm (wrapErr msg m)"
  by (auto simp: calm_def wrapErr_def split: prod.splits sum.splits)

lemma calm_map [calm_intros]: "calm m \<Longrightarrow> calm (mapS f m)"
  by (simp add: mapS_def calm_intros)

lemma calm_If [calm_intros]: "(b \<Longrightarrow> calm m) \<Longrightarrow> (\<not> b \<Longrightarrow> calm n) \<Longrightarrow> calm (if b then m else n)"
  by simp

lemmas calm_reads [calm_intros] =
  reads_as_typed [THEN calm_reads_as] reads_as_bytes_at [THEN calm_reads_as]
  reads_as_string_at [THEN calm_reads_as]

lemma calm_seekS [calm_intros]: "0 \<le> off \<Longrightarrow> calm (seekS bytes_ops off)"
  by (auto simp: calm_def)

lemma calm_readColumnValue [calm_intros]: "calm (readColumnValue bytes_ops h t c)"
  by (auto simp: readColumnValue_def intro!: calm_intros)

lemma yields_return: "yields (returnS x) (\<lambda>d. Some x)"
  by (simp add: yields_def)

lemma yields_bind:
  assumes "yields m g" and "\<And>v. yields (f v) (h v)"
  shows "yields (bindS m f) (\<lambda>d. Option.bind (g d) (\<lambda>v. h v d))"
  unfolding yields_def
proof (intro allI impI)
  fix r x r'
  assume run: "bindS m f r = (x, r')"
  obtain y u where y: "m r = (y, u)" by fastforce
  note m = yieldsD [OF assms(1) y]
  show "br_data r' = br_data r \<and>
      (case Option.bind (g (br_data r)) (\<lambda>v. h v (br_data r)) of
         Some v \<Rightarrow> x = Inr v | None \<Rightarrow> (\<exists>e. x = Inl e \<and> \<not> is_panic e))"
  proof (cases "g (br_data r)")
    case None
    with m run y show ?thesis by (auto simp: bindS_def)
  next
    case (Some v)
    with m run y have "f v u = (x, r')" by (simp add: bindS_def)
    from yieldsD [OF assms(2) this] m Some show ?thesis by (auto split: option.splits)
  qed
qed

lemma yields_wrap:
  assumes "yields m g"
  shows "yields (wrapErr msg m) g"
  unfolding yields_def
proof (intro allI impI)
  fix r x r'
  assume run: "wrapErr msg m r = (x, r')"
  obtain y u where y: "m r = (y, u)" by fastforce
  from yieldsD [OF assms y] run y
  show "br_data r' = br_data r \<and> (case g (br_data r) of
      Some v \<Rightarrow> x = Inr v | None \<Rightarrow> (\<exists>e. x = Inl e \<and> \<not> is_panic e))"
    by (auto simp: wrapErr_def split: option.splits)
qed

lemma yields_cong: "yields m g \<Longrightarrow> (\<And>d. g d = g' d) \<Longrightarrow> yields m g'"
  by (simp add: yields_def)

text \<open>Code that first seeks to an offset reads what is there.\<close>

lemma yields_seek:
  assumes "0 \<le> off" and "reads_as n m f"
  shows "yields (bindS (wrapErr msg (checkErr (\<lambda>s. rs_seek bytes_ops s off SeekStart))) (\<lambda>_. m))
    (\<lambda>d. f d (nat off))"
  unfolding yields_def
proof (intro allI impI)
  fix r x r'
  assume "bindS (wrapErr msg (checkErr (\<lambda>s. rs_seek bytes_ops s off SeekStart))) (\<lambda>_. m) r = (x, r')"
  with assms(1) have "m (r\<lparr>br_pos := nat off\<rparr>) = (x, r')"
    by (simp add: bindS_def wrapErr_def checkErr_def bytes_Seek_def)
  from reads_asD [OF assms(2) this]
  show "br_data r' = br_data r \<and> (case f (br_data r) (nat off) of
      Some v \<Rightarrow> x = Inr v | None \<Rightarrow> (\<exists>e. x = Inl e \<and> \<not> is_panic e))"
    by (auto split: option.splits)
qed

lemma yields_reads0:
  assumes "reads_as 0 m (\<lambda>d p. g d)"
  shows "yields m g"
  unfolding yields_def
proof (intro allI impI)
  fix r x r'
  assume "m r = (x, r')"
  from reads_asD [OF assms this]
  show "br_data r' = br_data r \<and> (case g (br_data r) of
      Some v \<Rightarrow> x = Inr v | None \<Rightarrow> (\<exists>e. x = Inl e \<and> \<not> is_panic e))"
    by (auto split: option.splits)
qed

section \<open>The rows\<close>

definition promise_at :: "bytes \<Rightarrow> UTFHeader \<Rightarrow> gval \<Rightarrow> gval option" where
  "promise_at d h v =
     (case v of
        VDataPromise offset len \<Rightarrow> data_at d h offset len
      | VStringPromise offset \<Rightarrow> text_at d h offset
      | _ \<Rightarrow> Some v)"

definition consts_at :: "bytes \<Rightarrow> UTFHeader \<Rightarrow> (string \<times> gval) list \<Rightarrow> (string \<times> gval) list option" where
  "consts_at d h cs = those (map (\<lambda>(k, v). map_option (Pair k) (promise_at d h v)) cs)"

fun row_at :: "bytes \<Rightarrow> UTFHeader \<Rightarrow> nat \<Rightarrow> columnSchema list \<Rightarrow> row \<Rightarrow> row option" where
  "row_at d h i [] row = Some row"
| "row_at d h i (col # cols) row =
     (if \<not> is_row_column col then row_at d h i cols row
      else Option.bind (cell_at d h (col_typ col) (nat (field_pos h i col)))
             (\<lambda>v. row_at d h i cols (row(col_name col \<mapsto> v))))"

definition rows_at ::
    "bytes \<Rightarrow> UTFHeader \<Rightarrow> columnSchema list \<Rightarrow> (string \<times> gval) list \<Rightarrow> row list option" where
  "rows_at d h cols cs =
     Option.bind (consts_at d h cs) (\<lambda>res.
       those (map (\<lambda>i. row_at d h i cols (map_of res)) [0..<unat (NumberOfRows h)]))"

lemma those_Some_iff: "those xs = Some ys \<longleftrightarrow> xs = map Some ys"
proof (induction xs arbitrary: ys)
  case Nil
  then show ?case by auto
next
  case (Cons x xs)
  show ?case by (cases x; cases ys) (auto simp: Cons)
qed

lemma resolvePromise_yields: "yields (resolvePromise bytes_ops h v) (\<lambda>d. promise_at d h v)"
  unfolding resolvePromise_def promise_at_def data_at_def text_at_def
  by (cases v) (auto intro!: yields_return yields_reads0 reads_as_map reads_as_bytes_at reads_as_string_at)

lemma resolveConstants_yields: "yields (resolveConstants bytes_ops h cs) (\<lambda>d. consts_at d h cs)"
proof (induction cs)
  case Nil
  show ?case by (simp add: consts_at_def yields_return)
next
  case (Cons c cs)
  obtain k v where c: "c = (k, v)" by fastforce
  show ?case
    unfolding c resolveConstants.simps
    by (rule yields_cong, rule yields_bind, rule yields_wrap, rule resolvePromise_yields,
        rule yields_bind, rule Cons, rule yields_return)
      (auto simp: consts_at_def map_conv_bind_option o_def split: option.splits Option.bind_splits)
qed

text \<open>A cell read from a row is no promise, so resolving it changes nothing.\<close>

lemma promise_at_cell: "cell_at d h t p = Some v \<Longrightarrow> promise_at d h v = Some v"
  by (auto simp: cell_at_def promise_at_def data_at_def text_at_def
      split: if_splits option.splits Option.bind_splits)

lemma readRowFields_yields:
  "yields (readRowFields bytes_ops h i cols row) (\<lambda>d. row_at d h i cols row)"
proof (induction cols arbitrary: row)
  case Nil
  show ?case by (simp add: yields_return)
next
  case (Cons col cols)
  have pos: "0 \<le> field_pos h i col" by (simp add: field_pos_def)
  have read: "yields
      (bindS (wrapErr ''failed to seek to field''
                (checkErr (\<lambda>s. rs_seek bytes_ops s (field_pos h i col) SeekStart))) (\<lambda>_.
        wrapErr ''failed to read field data'' (readColumnValue bytes_ops h (col_typ col) False)))
      (\<lambda>d. cell_at d h (col_typ col) (nat (field_pos h i col)))"
    by (rule yields_seek [OF pos reads_as_wrap [OF readColumnValue_reads]])
  have rest: "yields
      (bindS (wrapErr ''failed to resolve field data'' (resolvePromise bytes_ops h val))
        (\<lambda>resolved. readRowFields bytes_ops h i cols (row(col_name col \<mapsto> resolved))))
      (\<lambda>d. Option.bind (promise_at d h val) (\<lambda>v. row_at d h i cols (row(col_name col \<mapsto> v))))" for val
    by (rule yields_bind, rule yields_wrap, rule resolvePromise_yields, rule Cons)
  have "yields (readRowFields bytes_ops h i (col # cols) row)
      (\<lambda>d. Option.bind (cell_at d h (col_typ col) (nat (field_pos h i col)))
        (\<lambda>val. Option.bind (promise_at d h val) (\<lambda>v. row_at d h i cols (row(col_name col \<mapsto> v)))))"
    if "is_row_column col"
    using yields_bind [OF read rest] that by (simp add: bindS_assoc)
  moreover have "yields (readRowFields bytes_ops h i (col # cols) row)
      (\<lambda>d. row_at d h i (col # cols) row)" if "\<not> is_row_column col"
    using that Cons by simp
  ultimately show ?case
    by (cases "is_row_column col")
      (auto simp: promise_at_cell split: Option.bind_splits elim!: yields_cong)
qed

lemma repeatS_yields:
  assumes "\<And>j. yields (m j) (g j)"
  shows "yields (repeatS n i m) (\<lambda>d. those (map (\<lambda>j. g j d) [i..<i + n]))"
proof (induction n arbitrary: i)
  case 0
  show ?case by (simp add: yields_return)
next
  case (Suc n)
  show ?case
    unfolding repeatS.simps
    by (rule yields_cong, rule yields_bind, rule assms, rule yields_bind, rule Suc, rule yields_return)
      (auto simp: upt_conv_Cons simp del: upt_Suc split: option.splits Option.bind_splits)
qed

lemma readRows_yields: "yields (readRows bytes_ops h cols cs) (\<lambda>d. rows_at d h cols cs)"
  unfolding readRows_repeat rows_at_def
  by (rule yields_bind, rule resolveConstants_yields)
    (use repeatS_yields [of "\<lambda>i. readRowFields bytes_ops h i cols (map_of _)", OF readRowFields_yields, of _ 0] in simp)

text \<open>A row, column by column.\<close>

lemma row_at_other:
  assumes "row_at d h i cols row = Some row'" and "\<forall>col\<in>set cols. is_row_column col \<longrightarrow> col_name col \<noteq> k"
  shows "row' k = row k"
  using assms
  by (induction cols arbitrary: row) (auto split: if_splits Option.bind_splits)

lemma row_at_cell:
  assumes "row_at d h i cols row = Some row'"
    and "distinct (map col_name (filter is_row_column cols))"
    and "col \<in> set cols" and "is_row_column col"
  shows "row' (col_name col) = cell_at d h (col_typ col) (nat (field_pos h i col))"
  using assms
proof (induction cols arbitrary: row)
  case Nil
  then show ?case by simp
next
  case (Cons c cols)
  show ?case
  proof (cases "c = col")
    case True
    with Cons.prems obtain v where
      v: "cell_at d h (col_typ col) (nat (field_pos h i col)) = Some v"
        "row_at d h i cols (row(col_name col \<mapsto> v)) = Some row'"
      by (auto split: Option.bind_splits)
    have "\<forall>c\<in>set cols. is_row_column c \<longrightarrow> col_name c \<noteq> col_name col"
      using Cons.prems True by (auto simp: image_iff)
    from row_at_other [OF v(2) this] v(1) show ?thesis by simp
  next
    case False
    with Cons show ?thesis
      by (auto split: if_splits Option.bind_splits)
  qed
qed

lemma row_at_cell_defined:
  assumes "row_at d h i cols row = Some row'" and "col \<in> set cols" and "is_row_column col"
  shows "row' (col_name col) \<noteq> None"
proof -
  have "row' k \<noteq> None" if "row_at d h i cols row = Some row'" "row k \<noteq> None" for cols row k
    using that by (induction cols arbitrary: row) (auto split: if_splits Option.bind_splits)
  note keep = this
  show ?thesis
    using assms by (induction cols arbitrary: row)
      (auto split: if_splits Option.bind_splits dest: keep)
qed

section \<open>The schema\<close>

definition default_column :: "columnSchema \<Rightarrow> bool" where
  "default_column col \<longleftrightarrow> col_flag col AND columnFlagDefault \<noteq> 0"

definition row_width :: "columnSchema list \<Rightarrow> nat" where
  "row_width cols = sum_list (map (\<lambda>c. cell_size (col_typ c)) (filter is_row_column cols))"

text \<open>What the validation of a field leaves through.\<close>

definition column_ok :: "columnSchema \<Rightarrow> bool" where
  "column_ok col \<longleftrightarrow>
     col_flag col AND columnFlagName \<noteq> 0 \<and> col_flag col AND columnFlagUndefined = 0 \<and>
     columnValueSize (col_typ col) \<noteq> None"

definition schema_ok :: "schema_state \<Rightarrow> bool" where
  "schema_ok a \<longleftrightarrow>
     (\<forall>col\<in>set (ss_schema a). column_ok col) \<and>
     ss_keys a = map col_name (filter is_row_column (ss_schema a)) \<and>
     distinct (map fst (ss_consts a)) \<and>
     fst ` set (ss_consts a) = col_name ` {col \<in> set (ss_schema a). default_column col} \<and>
     ss_rowOff a = of_nat (row_width (ss_schema a)) \<and>
     (\<forall>j < length (ss_schema a). is_row_column (ss_schema a ! j) \<longrightarrow>
        col_offset (ss_schema a ! j) = of_nat (row_width (take j (ss_schema a))))"

lemma row_width_simps [simp]:
  "row_width [] = 0"
  "row_width (cols @ [c]) = row_width cols + (if is_row_column c then cell_size (col_typ c) else 0)"
  by (simp_all add: row_width_def)

lemma cell_size_le: "cell_size t \<le> 8"
  by (simp add: cell_size_def columnValueSize_def)

lemma row_width_le: "row_width cols \<le> 8 * length cols"
proof (induction cols rule: rev_induct)
  case Nil
  then show ?case by simp
next
  case (snoc c cols)
  with cell_size_le [of "col_typ c"] show ?case by simp
qed

text \<open>One round of the loop, by the kind of the column.\<close>

lemma appendField_step:
  assumes "appendField R h a s = (Inr a', s')"
  shows "\<exists>col. column_ok col \<and> ss_schema a' = ss_schema a @ [col] \<and>
    (if default_column col
     then \<exists>v. ss_consts a' = AList.update (col_name col) v (ss_consts a) \<and>
            ss_keys a' = ss_keys a \<and> ss_rowOff a' = ss_rowOff a
     else ss_consts a' = ss_consts a \<and>
       (if is_row_column col
        then col_offset col = ss_rowOff a \<and> ss_keys a' = ss_keys a @ [col_name col] \<and>
             ss_rowOff a' = ss_rowOff a + of_nat (cell_size (col_typ col))
        else ss_keys a' = ss_keys a \<and> ss_rowOff a' = ss_rowOff a))"
proof -
  obtain info :: u8 and name sz s1 c b where
    flags: "\<not> (info AND columnFlagMask = 0 \<or> (info AND columnFlagMask) AND columnFlagName = 0 \<or>
        (info AND columnFlagMask) AND columnFlagUndefined \<noteq> 0)"
    and sz: "columnValueSize (info AND columnTypeMask) = Some sz"
    and run: "(let flag = info AND columnFlagMask; t = info AND columnTypeMask;
         col = \<lparr>col_flag = flag, col_typ = t, col_name = name, col_offset = 0\<rparr>
       in if flag AND columnFlagDefault \<noteq> 0 then
           bindS (wrapErr ''failed to read constant data'' (readColumnValue R h t True)) (\<lambda>val.
             returnS (col, a\<lparr>ss_consts := AList.update name val (ss_consts a)\<rparr>))
         else if flag AND columnFlagRow \<noteq> 0 then
           returnS (col\<lparr>col_offset := ss_rowOff a\<rparr>,
             a\<lparr>ss_keys := ss_keys a @ [name], ss_rowOff := ss_rowOff a + sz\<rparr>)
         else returnS (col, a)) s1 = (Inr (c, b), s')"
    and a': "a' = b\<lparr>ss_schema := ss_schema b @ [c]\<rparr>"
    using assms unfolding appendField_def readField_def Let_def
    by (auto elim!: go_elims split: if_splits option.splits)
  let ?flag = "info AND columnFlagMask" and ?t = "info AND columnTypeMask"
  have size: "of_nat (cell_size ?t) = sz"
    by (simp add: cell_size_def sz)
  consider "?flag AND columnFlagDefault \<noteq> 0"
    | "?flag AND columnFlagDefault = 0" "?flag AND columnFlagRow \<noteq> 0"
    | "?flag AND columnFlagDefault = 0" "?flag AND columnFlagRow = 0" by blast
  then show ?thesis
  proof cases
    case 1
    then show ?thesis using run flags sz a'
      by (intro exI [of _ "\<lparr>col_flag = ?flag, col_typ = ?t, col_name = name, col_offset = 0\<rparr>"])
        (auto simp: Let_def column_ok_def default_column_def elim!: go_elims)
  next
    case 2
    then show ?thesis using run flags sz size a'
      by (intro exI [of _ "\<lparr>col_flag = ?flag, col_typ = ?t, col_name = name, col_offset = ss_rowOff a\<rparr>"])
        (auto simp: Let_def column_ok_def default_column_def is_row_column_def)
  next
    case 3
    then show ?thesis using run flags sz a'
      by (intro exI [of _ "\<lparr>col_flag = ?flag, col_typ = ?t, col_name = name, col_offset = 0\<rparr>"])
        (auto simp: Let_def column_ok_def default_column_def is_row_column_def)
  qed
qed

lemma not_row_if_default: "default_column col \<Longrightarrow> \<not> is_row_column col"
  by (simp add: default_column_def is_row_column_def)

lemma appendField_ok:
  assumes "appendField R h a s = (Inr a', s')" and "schema_ok a"
  shows "schema_ok a' \<and> length (ss_schema a') = Suc (length (ss_schema a))"
proof -
  from appendField_step [OF assms(1)] obtain col where
    col: "column_ok col" "ss_schema a' = ss_schema a @ [col]"
    and step: "if default_column col
     then \<exists>v. ss_consts a' = AList.update (col_name col) v (ss_consts a) \<and>
            ss_keys a' = ss_keys a \<and> ss_rowOff a' = ss_rowOff a
     else ss_consts a' = ss_consts a \<and>
       (if is_row_column col
        then col_offset col = ss_rowOff a \<and> ss_keys a' = ss_keys a @ [col_name col] \<and>
             ss_rowOff a' = ss_rowOff a + of_nat (cell_size (col_typ col))
        else ss_keys a' = ss_keys a \<and> ss_rowOff a' = ss_rowOff a)" by blast
  have layout: "\<forall>j < length (ss_schema a'). is_row_column (ss_schema a' ! j) \<longrightarrow>
        col_offset (ss_schema a' ! j) = of_nat (row_width (take j (ss_schema a')))"
    using assms(2) col step not_row_if_default [of col]
    by (auto simp: schema_ok_def nth_append less_Suc_eq split: if_splits)
  show ?thesis
  proof (cases "default_column col")
    case True
    with step obtain v where v: "ss_consts a' = AList.update (col_name col) v (ss_consts a)"
      "ss_keys a' = ss_keys a" "ss_rowOff a' = ss_rowOff a" by auto
    have "fst ` set (ss_consts a') = insert (col_name col) (fst ` set (ss_consts a))"
      using v(1) dom_map_of_conv_image_fst [of "AList.update (col_name col) v (ss_consts a)"]
        dom_map_of_conv_image_fst [of "ss_consts a"] by (simp add: dom_update update_conv')
    with assms(2) col v True layout not_row_if_default [OF True] show ?thesis
      unfolding schema_ok_def by (auto simp: distinct_update)
  next
    case False
    with step assms(2) col layout show ?thesis
      unfolding schema_ok_def by (auto split: if_splits)
  qed
qed

lemma appendFields_ok:
  "appendFields R h n a s = (Inr a', s') \<Longrightarrow> schema_ok a \<Longrightarrow>
   schema_ok a' \<and> length (ss_schema a') = length (ss_schema a) + n"
proof (induction n arbitrary: a s)
  case 0
  then show ?case by simp
next
  case (Suc n)
  from Suc.prems(1) obtain b u where
    "appendField R h a s = (Inr b, u)" "appendFields R h n b u = (Inr a', s')"
    by (auto elim!: go_elims)
  with appendField_ok [OF this(1) Suc.prems(2)] Suc.IH [OF this(2)] show ?case by simp
qed

lemma parseSchema_ok:
  assumes "parseSchema R h s = (Inr a, s')"
  shows "schema_ok a \<and> length (ss_schema a) = unat (NumberOfFields h)"
proof -
  have "schema_ok \<lparr>ss_schema = [], ss_keys = [], ss_consts = [], ss_rowOff = 0\<rparr>"
    by (simp add: schema_ok_def)
  with assms show ?thesis
    unfolding parseSchema_append by (auto elim!: go_elims dest!: appendFields_ok)
qed

section \<open>The header\<close>

text \<open>The 32 bytes in front of the schema, as the fields that are read from them.\<close>

definition utf_header_bytes :: "UTFHeader \<Rightarrow> bytes" where
  "utf_header_bytes h =
     be_bytes 4 (0x40555446 :: u32) @ be_bytes 4 (TableSize h) @ be_bytes 2 (Version h) @
     be_bytes 2 (RowOffset h) @ be_bytes 4 (StringTableOffset h) @ be_bytes 4 (DataOffset h) @
     be_bytes 4 (TableNameOffset h) @ be_bytes 2 (NumberOfFields h) @ be_bytes 2 (RowSize h) @
     be_bytes 4 (NumberOfRows h)"

lemma length_utf_header_bytes [simp]: "length (utf_header_bytes h) = 32"
  by (simp add: utf_header_bytes_def)

text \<open>A successful big-endian read has read the bytes that write its value.\<close>

lemma read_word_bytes:
  assumes "checkErr (binary_read bytes_ops n be_word) r = (Inr (w :: 'a::len word), r')"
    and "8 * n \<le> LENGTH('a)"
  shows "r' = r\<lparr>br_pos := br_pos r + n\<rparr> \<and> br_rest r = be_bytes n w @ br_rest r'"
proof -
  from assms(1) have w: "w = be_word (take n (br_rest r))" and n: "n \<le> length (br_rest r)"
    and r': "r' = r\<lparr>br_pos := br_pos r + n\<rparr>"
    by (auto simp: checkErr_Inr_iff binary_read_bytes split: if_splits)
  then have "be_bytes n w = take n (br_rest r)"
    using be_bytes_be_word [of "take n (br_rest r)", where ?'a = 'a] assms(2) by simp
  then show ?thesis
    using r' append_take_drop_id [of n "br_rest r"] by (simp add: br_rest_def add.commute)
qed

lemma read_u32_bytes:
  "checkErr (ReadUint32 bytes_ops) r = (Inr w, r') \<Longrightarrow>
   r' = r\<lparr>br_pos := br_pos r + 4\<rparr> \<and> br_rest r = be_bytes 4 w @ br_rest r'"
  unfolding ReadUint32_def by (rule read_word_bytes) simp_all

lemma read_u16_bytes:
  "checkErr (ReadUint16 bytes_ops) r = (Inr w, r') \<Longrightarrow>
   r' = r\<lparr>br_pos := br_pos r + 2\<rparr> \<and> br_rest r = be_bytes 2 w @ br_rest r'"
  unfolding ReadUint16_def by (rule read_word_bytes) simp_all

lemma readHeader_bytes:
  "readHeader bytes_ops r = (Inr h, r') \<Longrightarrow>
   br_data r' = br_data r \<and> be_bytes 4 (0x40555446 :: u32) @ br_rest r = utf_header_bytes h @ br_rest r'"
  unfolding readHeader_def utf_header_bytes_def
  by (auto elim!: go_elims dest!: read_u32_bytes read_u16_bytes)

lemma calm_readHeader [calm_intros]: "calm (readHeader bytes_ops)"
  by (auto simp: readHeader_def intro!: calm_intros)

lemma calm_readField [calm_intros]: "calm (readField bytes_ops h a)"
  by (auto simp: readField_def Let_def intro!: calm_intros split: option.split)

lemma calm_appendField [calm_intros]: "calm (appendField bytes_ops h a)"
  unfolding appendField_def by (intro calm_intros)

lemma calm_appendFields [calm_intros]: "calm (appendFields bytes_ops h n a)"
  by (induction n arbitrary: a) (auto intro!: calm_intros)

lemma calm_parseSchema [calm_intros]: "calm (parseSchema bytes_ops h)"
  by (auto simp: parseSchema_append intro!: calm_intros)

lemma header_error_calm: "header_error h = Some e \<Longrightarrow> \<not> is_panic e"
  by (auto simp: header_error_def Let_def split: if_splits)

lemma calm_NewUTFTable: "calm (NewUTFTable bytes_ops)"
  unfolding NewUTFTable_def
  by (auto intro!: calm_intros calm_yields [OF readRows_yields] split: option.split
      dest: header_error_calm)

text \<open>A successful parse, taken apart.\<close>

lemma NewUTFTable_parts:
  assumes "NewUTFTable bytes_ops r = (Inr t, r')"
  shows "br_rest r = utf_header_bytes (Header t) @ drop 32 (br_rest r) \<and>
    header_error (Header t) = None \<and>
    schema_ok \<lparr>ss_schema = schema t, ss_keys = DynamicKeys t, ss_consts = Constants t,
      ss_rowOff = of_nat (row_width (schema t))\<rparr> \<and>
    length (schema t) = unat (NumberOfFields (Header t)) \<and>
    rows_at (br_data r) (Header t) (schema t) (Constants t) = Some (Rows t)"
proof -
  obtain r1 r2 r3 r4 a where
    m: "checkErr (ReadUint32 bytes_ops) r = (Inr 0x40555446, r1)"
    and h: "readHeader bytes_ops r1 = (Inr (Header t), r2)"
    and ok: "header_error (Header t) = None"
    and nm: "checkErr (ReadString0At bytes_ops
        (uint (StringTableOffset (Header t) + 8 + TableNameOffset (Header t)))) r2 = (Inr (table_Name t), r3)"
    and sch: "parseSchema bytes_ops (Header t) r3 = (Inr a, r4)"
    and rows: "readRows bytes_ops (Header t) (ss_schema a) (ss_consts a) r4 = (Inr (Rows t), r')"
    and t: "schema t = ss_schema a" "Constants t = ss_consts a" "DynamicKeys t = ss_keys a"
    using assms unfolding NewUTFTable_def
    by (auto elim!: go_elims split: if_splits option.splits)
  from read_u32_bytes [OF m] readHeader_bytes [OF h]
  have d2: "br_data r2 = br_data r" and hb: "br_rest r = utf_header_bytes (Header t) @ br_rest r2"
    by auto
  from calmD [OF reads_as_string_at [THEN calm_reads_as] nm] have "br_data r3 = br_data r2" by simp
  moreover from calmD [OF calm_parseSchema sch] have "br_data r4 = br_data r3" by simp
  moreover from parseSchema_ok [OF sch] have a: "schema_ok a"
      "length (ss_schema a) = unat (NumberOfFields (Header t))" by auto
  ultimately show ?thesis
    using yieldsD [OF readRows_yields rows] d2 hb ok t
    by (auto simp: schema_ok_def split: option.splits)
qed

section \<open>Properties\<close>

definition utf_sample :: bytes where
  "utf_sample = utf_header_bytes \<lparr>TableSize = 0x25, Version = 1, RowOffset = 0x1D,
     StringTableOffset = 0x21, DataOffset = 0x25, TableNameOffset = 0, NumberOfFields = 1,
     RowSize = 4, NumberOfRows = 1\<rparr> @ [0x54, 0, 0, 0, 2, 1, 2, 3, 4, 0x54, 0, 0x41, 0]"

lemma utf_sample_parses:
  "\<exists>t r'. NewUTFTable bytes_ops (new_reader utf_sample) = (Inr t, r') \<and>
     length (Rows t) = 1 \<and> schema t = [\<lparr>col_flag = 0x50, col_typ = 4, col_name = ''A'', col_offset = 0\<rparr>] \<and>
     NumberOfRows (Header t) = 1"
proof -
  have "case fst (NewUTFTable bytes_ops (new_reader utf_sample)) of Inl _ \<Rightarrow> False
    | Inr t \<Rightarrow> length (Rows t) = 1 \<and>
        schema t = [\<lparr>col_flag = 0x50, col_typ = 4, col_name = ''A'', col_offset = 0\<rparr>] \<and>
        NumberOfRows (Header t) = 1"
    by code_simp
  then show ?thesis
    by (cases "NewUTFTable bytes_ops (new_reader utf_sample)") (auto split: sum.splits)
qed

text \<open>
  C7: a table that parses is well formed. Its header is the one whose big-endian encoding
  starts the input and passed the bounds check; it has as many columns and rows as the header
  says; the dynamic keys are the names of the row columns and the constants those of the
  default columns, each once; every column has a name, no undefined flag and a known type; and
  the offset of a row column is the total size of the row columns before it, without wrap-around.
\<close>

theorem utf_table_well_formed:
  assumes "NewUTFTable bytes_ops r = (Inr t, r')"
  shows "take 32 (br_rest r) = utf_header_bytes (Header t) \<and>
    header_error (Header t) = None \<and>
    length (schema t) = unat (NumberOfFields (Header t)) \<and>
    length (Rows t) = unat (NumberOfRows (Header t)) \<and>
    (\<forall>col\<in>set (schema t). column_ok col) \<and>
    DynamicKeys t = map col_name (filter is_row_column (schema t)) \<and>
    distinct (map fst (Constants t)) \<and>
    fst ` set (Constants t) = col_name ` {col \<in> set (schema t). default_column col} \<and>
    (\<forall>j < length (schema t). is_row_column (schema t ! j) \<longrightarrow>
       unat (col_offset (schema t ! j)) = row_width (take j (schema t)))"
proof -
  note p = NewUTFTable_parts [OF assms]
  from p obtain x where x: "br_rest r = utf_header_bytes (Header t) @ x" by blast
  have off: "unat (col_offset (schema t ! j)) = row_width (take j (schema t))"
    if "j < length (schema t)" "is_row_column (schema t ! j)" for j
  proof -
    have "row_width (take j (schema t)) \<le> 8 * j"
      using row_width_le [of "take j (schema t)"] that by simp
    also have "\<dots> < 2 ^ 32"
      using that p unsigned_less [of "NumberOfFields (Header t)", where ?'a = nat] by simp
    finally show ?thesis
      using p that by (simp add: schema_ok_def unat_of_nat take_bit_nat_eq_self unsigned_of_nat)
  qed
  have "length (Rows t) = unat (NumberOfRows (Header t))"
    using p by (auto simp: rows_at_def those_Some_iff dest!: arg_cong [of _ _ length] split: Option.bind_splits)
  then show ?thesis
    using p x off by (simp add: schema_ok_def)
qed

lemma utf_table_well_formed_witness:
  "\<exists>t r'. NewUTFTable bytes_ops (new_reader utf_sample) = (Inr t, r') \<and>
     DynamicKeys t = [''A''] \<and> take 32 utf_sample = utf_header_bytes (Header t)"
proof -
  from utf_sample_parses obtain t r' where
    t: "NewUTFTable bytes_ops (new_reader utf_sample) = (Inr t, r')"
      "schema t = [\<lparr>col_flag = 0x50, col_typ = 4, col_name = ''A'', col_offset = 0\<rparr>]" by blast
  from utf_table_well_formed [OF t(1)] t show ?thesis
    by (auto simp: is_row_column_def column_consts br_rest_def)
qed

text \<open>
  C6: the contents of a parsed table are the bytes of the input. In every row, a row column
  holds the value of its type stored at row offset + row number * row size + column offset; if
  the names of the row columns differ, that is what the row maps the name to. A name that is no
  row column maps to its resolved constant, the same in every row.
\<close>

theorem utf_row_contents:
  assumes "NewUTFTable bytes_ops r = (Inr t, r')" and "i < length (Rows t)"
    and "distinct (map col_name (filter is_row_column (schema t)))"
  shows "(\<forall>col\<in>set (schema t). is_row_column col \<longrightarrow>
      (Rows t ! i) (col_name col) =
        cell_at (br_data r) (Header t) (col_typ col) (nat (field_pos (Header t) i col)) \<and>
      (Rows t ! i) (col_name col) \<noteq> None) \<and>
    (\<forall>k. k \<notin> set (DynamicKeys t) \<longrightarrow>
      (Rows t ! i) k = Option.bind (map_of (Constants t) k) (promise_at (br_data r) (Header t)))"
proof -
  note p = NewUTFTable_parts [OF assms(1)]
  then obtain res where res: "consts_at (br_data r) (Header t) (Constants t) = Some res"
    and rows: "map (\<lambda>i. row_at (br_data r) (Header t) i (schema t) (map_of res))
        [0..<unat (NumberOfRows (Header t))] = map Some (Rows t)"
    by (auto simp: rows_at_def those_Some_iff split: Option.bind_splits)
  from arg_cong [OF rows, of length] have "length (Rows t) = unat (NumberOfRows (Header t))" by simp
  with arg_cong [OF rows, of "\<lambda>xs. xs ! i"] assms(2)
  have row: "row_at (br_data r) (Header t) i (schema t) (map_of res) = Some (Rows t ! i)" by simp
  have cs: "map_of res k = Option.bind (map_of cs k) (promise_at (br_data r) (Header t))"
    if "consts_at (br_data r) (Header t) cs = Some res" for cs res k
    using that
  proof (induction cs arbitrary: res)
    case Nil
    then show ?case by (simp add: consts_at_def)
  next
    case (Cons c cs)
    obtain k' v where c: "c = (k', v)" by fastforce
    with Cons.prems obtain w ws where
      "promise_at (br_data r) (Header t) v = Some w"
      "consts_at (br_data r) (Header t) cs = Some ws" "res = (k', w) # ws"
      by (auto simp: consts_at_def split: option.splits)
    with Cons.IH [of ws] c show ?case by simp
  qed
  show ?thesis
  proof (intro conjI ballI impI allI)
    fix col assume col: "col \<in> set (schema t)" "is_row_column col"
    show "(Rows t ! i) (col_name col) =
        cell_at (br_data r) (Header t) (col_typ col) (nat (field_pos (Header t) i col))"
      by (rule row_at_cell [OF row assms(3) col])
    show "(Rows t ! i) (col_name col) \<noteq> None"
      using row_at_cell_defined [OF row col] .
  next
    fix k assume "k \<notin> set (DynamicKeys t)"
    then have "\<forall>col\<in>set (schema t). is_row_column col \<longrightarrow> col_name col \<noteq> k"
      using p by (auto simp: schema_ok_def)
    from row_at_other [OF row this] cs [OF res]
    show "(Rows t ! i) k = Option.bind (map_of (Constants t) k) (promise_at (br_data r) (Header t))"
      by simp
  qed
qed

lemma utf_row_contents_witness:
  "\<exists>t r'. NewUTFTable bytes_ops (new_reader utf_sample) = (Inr t, r') \<and>
     (Rows t ! 0) ''A'' \<noteq> None \<and> (Rows t ! 0) ''B'' = None"
proof -
  from utf_sample_parses obtain t r' where
    t: "NewUTFTable bytes_ops (new_reader utf_sample) = (Inr t, r')" "length (Rows t) = 1"
      "schema t = [\<lparr>col_flag = 0x50, col_typ = 4, col_name = ''A'', col_offset = 0\<rparr>]" by blast
  have d: "is_row_column (schema t ! 0)" by (simp add: t is_row_column_def column_consts)
  have "schema_ok \<lparr>ss_schema = schema t, ss_keys = DynamicKeys t, ss_consts = Constants t,
      ss_rowOff = of_nat (row_width (schema t))\<rparr>"
    using NewUTFTable_parts [OF t(1)] by blast
  then have "DynamicKeys t = [''A'']" "fst ` set (Constants t) = {}"
    using t(3) d by (auto simp: schema_ok_def default_column_def column_consts)
  moreover have "distinct (map col_name (filter is_row_column (schema t)))" "0 < length (Rows t)"
    using t by simp_all
  note c = utf_row_contents [OF t(1) this(2) this(1)]
  ultimately have "(Rows t ! 0) ''B'' = None" by simp
  moreover have "(Rows t ! 0) ''A'' \<noteq> None"
    using c [THEN conjunct1, rule_format, of "schema t ! 0", THEN conjunct2] d t(3) by simp
  ultimately show ?thesis using t(1) by blast
qed

text \<open>
  C31: no input makes the parser panic: on any bytes, from any position, it returns a table or
  an error value. The panics that the model of this code has are a \<open>make\<close> of negative length and the stores \<open>schema[i] = col\<close> and
  \<open>rows[rowIdx] = row\<close> outside of slices that were made with the numbers of the header: whatever the header says, both
  loops stay within them.
\<close>

theorem utf_parser_never_panics:
  "fst (NewUTFTable bytes_ops r) \<noteq> Inl (Panic msg)"
  using calmD [OF calm_NewUTFTable, of r] by (cases "NewUTFTable bytes_ops r") auto

end
