(* ===== verification/AcbAfs.thy ===== *)
theory AcbAfs
  imports Complex_Main AcbReader
begin

text \<open>
  \<open>internal/cricodecs/acb/afs.go\<close> and \<open>helpers.go\<close>: the \<open>AFS2\<close> archives (AWB files) that hold
  the wave data of an ACB, and the accessors of table rows.

  \<open>align\<close> computes in \<open>float64\<close>; the model computes in the integers, and
  \<open>align_float_exact\<close> shows that for 32-bit operands any correctly rounded quotient gives the
  same result.
\<close>

unbundle bit_operations_syntax

section \<open>Row accessors\<close>

definition getBytesField :: "(string \<rightharpoonup> gval) \<Rightarrow> string \<Rightarrow> go_err + bytes" where
  "getBytesField row key =
     (case row key of
        None \<Rightarrow> Inl (Failure ''field not found'')
      | Some (VBytes b) \<Rightarrow> Inr b
      | Some _ \<Rightarrow> Inl (Failure ''field is not bytes''))"

definition getStringField :: "(string \<rightharpoonup> gval) \<Rightarrow> string \<Rightarrow> string" where
  "getStringField row key = (case row key of Some (VString s) \<Rightarrow> s | _ \<Rightarrow> '''')"

text \<open>\<open>int(v)\<close> of a \<open>uint64\<close> keeps the bits, so a value of \<open>2^63\<close> or more turns negative.\<close>

definition getIntField :: "(string \<rightharpoonup> gval) \<Rightarrow> string \<Rightarrow> int" where
  "getIntField row key =
     (case row key of
        Some (VInt i) \<Rightarrow> i
      | Some (VInt8 w) \<Rightarrow> sint w
      | Some (VInt16 w) \<Rightarrow> sint w
      | Some (VInt32 w) \<Rightarrow> sint w
      | Some (VInt64 w) \<Rightarrow> sint w
      | Some (VUint8 w) \<Rightarrow> uint w
      | Some (VUint16 w) \<Rightarrow> uint w
      | Some (VUint32 w) \<Rightarrow> uint w
      | Some (VUint64 w) \<Rightarrow> sint w
      | _ \<Rightarrow> 0)"

section \<open>Alignment\<close>

definition ceil_div :: "nat \<Rightarrow> nat \<Rightarrow> nat" where
  "ceil_div n a = (n + a - 1) div a"

text \<open>
  \<open>uint32(math.Ceil(float64(offset)/float64(alignment))) * alignment\<close>. An alignment of zero
  divides by zero, which is infinite or not a number; times zero it is zero.
\<close>

definition align :: "u32 \<Rightarrow> u32 \<Rightarrow> u32" where
  "align alignment offset =
     (if alignment = 0 then 0 else of_nat (ceil_div (unat offset) (unat alignment)) * alignment)"

lemma ceil_div_eq_ceiling:
  assumes "0 < a"
  shows "int (ceil_div n a) = \<lceil>rat_of_nat n / rat_of_nat a\<rceil>"
proof -
  let ?c = "(n + a - 1) div a"
  have lo: "n \<le> ?c * a"
  proof -
    have "n + a - 1 < (?c + 1) * a"
      using dividend_less_div_times [OF assms, of "n + a - 1"] by (simp add: algebra_simps)
    then show ?thesis using assms by (simp add: algebra_simps)
  qed
  have hi: "?c * a < n + a"
    using div_times_less_eq_dividend [of "n + a - 1" a] assms by linarith
  have "\<lceil>rat_of_nat n / rat_of_nat a\<rceil> = int ?c"
  proof (rule ceiling_unique)
    have "rat_of_nat (?c * a) < rat_of_nat (n + a)" using hi by (simp only: of_nat_less_iff)
    then show "rat_of_int (int ?c) - 1 < rat_of_nat n / rat_of_nat a"
      using assms by (simp add: field_simps)
    have "rat_of_nat n \<le> rat_of_nat (?c * a)" using lo by (simp only: of_nat_le_iff)
    then show "rat_of_nat n / rat_of_nat a \<le> rat_of_int (int ?c)"
      using assms by (simp add: field_simps)
  qed
  then show ?thesis by (simp add: ceil_div_def)
qed

text \<open>
  Computing \<open>align\<close> in the integers is computing it in \<open>float64\<close>.
  The quotient \<open>q\<close> in \<open>float64\<close> is within a relative error of \<open>2^-53\<close> of the exact one, and is
  exact where that is an integer. Rounding cannot cross an integer: a quotient that is none is
  at least \<open>1/alignment\<close> away from the nearest one, far more than the error.
\<close>

theorem align_float_exact:
  fixes offset alignment :: u32 and q :: rat
  defines "x \<equiv> rat_of_nat (unat offset) / rat_of_nat (unat alignment)"
  assumes "alignment \<noteq> 0" and "\<bar>q - x\<bar> \<le> x / 2 ^ 53" and "x \<in> \<int> \<Longrightarrow> q = x"
  shows "align alignment offset = of_int \<lceil>q\<rceil> * alignment"
proof -
  define a where "a = unat alignment"
  define n where "n = unat offset"
  have a0: "0 < a" using assms(2) by (simp add: a_def unat_gt_0)
  have n32: "n < 2 ^ 32" using unsigned_less [of offset, where ?'a = nat] by (simp add: n_def)
  have "\<lceil>q\<rceil> = \<lceil>x\<rceil>"
  proof (cases "x \<in> \<int>")
    case True
    with assms(4) show ?thesis by simp
  next
    case False
    define c where "c = \<lceil>x\<rceil>"
    have ax: "rat_of_nat a * x = rat_of_nat n"
      unfolding x_def a_def [symmetric] n_def [symmetric] using a0 by simp
    have err: "rat_of_nat a * \<bar>q - x\<bar> < 1"
    proof -
      have "rat_of_nat a * \<bar>q - x\<bar> \<le> rat_of_nat a * (x / 2 ^ 53)"
        using assms(3) a0 by (intro mult_left_mono) auto
      also have "\<dots> = rat_of_nat n / 2 ^ 53" using ax by simp
      also have "\<dots> < 1" using n32 by (simp add: field_simps)
      finally show ?thesis .
    qed
    have up: "rat_of_nat a * x + 1 \<le> rat_of_nat a * rat_of_int c"
    proof -
      have "x < rat_of_int c" using False le_of_int_ceiling [of x] by (metis Ints_of_int c_def order_le_less)
      then have "rat_of_nat a * x < rat_of_nat a * rat_of_int c" using a0 by simp
      then have "rat_of_int (int n) < rat_of_int (int a * c)" by (simp add: ax)
      then have "int n + 1 \<le> int a * c" by (simp only: of_int_less_iff)
      then have "rat_of_int (int n + 1) \<le> rat_of_int (int a * c)" by (simp only: of_int_le_iff)
      then show ?thesis by (simp add: ax)
    qed
    have dn: "rat_of_nat a * (rat_of_int c - 1) + 1 \<le> rat_of_nat a * x"
    proof -
      have "rat_of_int c - 1 < x" using ceiling_correct [of x] by (simp add: c_def)
      then have "rat_of_nat a * (rat_of_int c - 1) < rat_of_nat a * x" using a0 by simp
      then have "rat_of_int (int a * (c - 1)) < rat_of_int (int n)" by (simp add: ax)
      then have "int a * (c - 1) + 1 \<le> int n" by (simp only: of_int_less_iff)
      then have "rat_of_int (int a * (c - 1) + 1) \<le> rat_of_int (int n)" by (simp only: of_int_le_iff)
      then show ?thesis by (simp add: ax)
    qed
    have q: "\<bar>rat_of_nat a * q - rat_of_nat a * x\<bar> < 1"
    proof -
      have "\<bar>rat_of_nat a * q - rat_of_nat a * x\<bar> = rat_of_nat a * \<bar>q - x\<bar>"
        by (simp add: right_diff_distrib [symmetric] abs_mult)
      with err show ?thesis by simp
    qed
    then have "rat_of_nat a * (rat_of_int c - 1) < rat_of_nat a * q"
      "rat_of_nat a * q < rat_of_nat a * rat_of_int c"
      using up dn by linarith+
    then have "rat_of_int c - 1 < q" "q < rat_of_int c" using a0 by simp_all
    then have "\<lceil>q\<rceil> = c" by (intro ceiling_unique) simp_all
    then show ?thesis by (simp add: c_def)
  qed
  also have "\<dots> = int (ceil_div n a)"
    using ceil_div_eq_ceiling [OF a0, of n] by (simp add: x_def n_def a_def)
  finally show ?thesis
    using assms(2) by (simp add: align_def n_def a_def)
qed

lemma align_float_exact_witness: "align 4 5 = of_int \<lceil>5 / 4 :: rat\<rceil> * 4"
  by (rule align_float_exact) simp_all

text \<open>When nothing wraps, the result is the least multiple of the alignment at or above the offset.\<close>

definition align_nat :: "nat \<Rightarrow> nat \<Rightarrow> nat" where
  "align_nat a n = ceil_div n a * a"

lemma align_nat_ge: "0 < a \<Longrightarrow> n \<le> align_nat a n"
  using dividend_less_div_times [of a "n + a - 1"]
  by (simp add: align_nat_def ceil_div_def algebra_simps)

lemma align_nat_less: "0 < a \<Longrightarrow> align_nat a n < n + a"
  using div_times_less_eq_dividend [of "n + a - 1" a]
  unfolding align_nat_def ceil_div_def by linarith

lemma align_unat:
  assumes "align_nat (unat alignment) (unat offset) < 2 ^ 32" and "alignment \<noteq> 0"
  shows "unat (align alignment offset) = align_nat (unat alignment) (unat offset)"
  using assms by (simp add: align_def align_nat_def unat_word_ariths unat_of_nat mod_mult_left_eq)

section \<open>Archives\<close>

record AFS2FileEntry =
  CueID :: int
  Offset :: u32
  Size :: u32

text \<open>The archive's reader is the state its operations run on.\<close>

record AFSArchive =
  Alignment :: u32
  Files :: "AFS2FileEntry list"

definition read_cue_id :: "'s read_seeker \<Rightarrow> nat \<Rightarrow> ('s, int) io" where
  "read_cue_id R cueIDSize =
     (if cueIDSize = 2 then mapS uint (dropErr (ReadLeUint16 R))
      else if cueIDSize = 4 then mapS uint (dropErr (ReadLeUint32 R))
      else returnS 0)"

definition read_offset :: "'s read_seeker \<Rightarrow> nat \<Rightarrow> ('s, u32) io" where
  "read_offset R offsetSize =
     (let offsetMask = push_bit (offsetSize * 8) 1 - 1 :: u32
      in if offsetSize = 2 then mapS (\<lambda>v. ucast v AND offsetMask) (dropErr (ReadLeUint16 R))
         else if offsetSize = 4 then mapS (\<lambda>v. v AND offsetMask) (dropErr (ReadLeUint32 R))
         else returnS 0)"

text \<open>
  \<open>NewAFSArchive\<close>. With \<open>fileCount = 0xFFFFFFFF\<close> the length \<open>fileCount+1\<close> of the offset table
  wraps to zero and the first index into it panics.
\<close>

definition NewAFSArchive :: "'s read_seeker \<Rightarrow> ('s, AFSArchive) io" where
  "NewAFSArchive R =
     bindS (checkErr (ReadUint32 R)) (\<lambda>magic.
     if magic \<noteq> 0x41465332 then throwS (Failure ''bad AFS2 magic'')
     else
     bindS (dropErr (ReadBytes R 4)) (\<lambda>version.
     bindS (dropErr (ReadLeUint32 R)) (\<lambda>fileCount.
     bindS (dropErr (ReadLeUint32 R)) (\<lambda>alignment.
     bindS (seekS R 0x10) (\<lambda>_.
     bindS (repeatS (unat fileCount) 0 (\<lambda>_. read_cue_id R (unat (version ! 2)))) (\<lambda>cueIDs.
     if fileCount + 1 = 0 then throwS (Panic ''index out of range'')
     else
     bindS (repeatS (unat fileCount + 1) 0 (\<lambda>_. read_offset R (unat (version ! 1)))) (\<lambda>offsets.
       returnS \<lparr>Alignment = alignment,
         Files = map (\<lambda>i. let alignedOffset = align alignment (offsets ! i)
                          in \<lparr>CueID = cueIDs ! i, Offset = alignedOffset,
                              Size = offsets ! Suc i - alignedOffset\<rparr>)
                  [0..<unat fileCount]\<rparr>)))))))"

definition FileData :: "'s read_seeker \<Rightarrow> AFS2FileEntry \<Rightarrow> ('s, bytes) gop" where
  "FileData R entry = ReadBytesAt R (uint (Size entry)) (uint (Offset entry))"

definition FileDataForCueID :: "'s read_seeker \<Rightarrow> AFSArchive \<Rightarrow> int \<Rightarrow> ('s, bytes) gop" where
  "FileDataForCueID R a cueID =
     (case find (\<lambda>f. CueID f = cueID) (Files a) of
        Some f \<Rightarrow> FileData R f
      | None \<Rightarrow>
          (if Files a \<noteq> [] \<and> CueID (hd (Files a)) = 0 then FileData R (hd (Files a))
           else (\<lambda>s. (([], Some (Failure ''cue ID not found in archive'')), s))))"

context seekable_reader begin

lemma NewAFSArchive_sim: "simS ok view (NewAFSArchive R) (NewAFSArchive bytes_ops)"
  unfolding NewAFSArchive_def read_cue_id_def read_offset_def Let_def
  by (intro sim_intros) simp

lemma FileDataForCueID_sim:
  "simS ok view (FileDataForCueID R a cueID) (FileDataForCueID bytes_ops a cueID)"
proof -
  have "simS ok view (\<lambda>s. (x, s)) (\<lambda>s. (x, s))" for x :: "bytes \<times> go_err option"
    by (simp add: simS_def)
  then show ?thesis
    by (auto simp: FileDataForCueID_def FileData_def intro!: sim_intros split: option.split)
qed

end

text \<open>Reading data never moves an archive's reader.\<close>

lemma FileDataForCueID_state: "snd (FileDataForCueID bytes_ops a cueID r) = r"
  by (auto simp: FileDataForCueID_def FileData_def ReadBytesAt_bytes split: option.split)

section \<open>The archive format\<close>

text \<open>
  What an archive looks like when it is written: each file starts at the next multiple of the
  alignment, and the offset table holds the ends of the files before.
\<close>

fun afs_layout :: "nat \<Rightarrow> nat \<Rightarrow> bytes list \<Rightarrow> nat list \<times> bytes" where
  "afs_layout al off [] = ([off], [])"
| "afs_layout al off (f # fs) =
     (let start = align_nat al off; (offs, body) = afs_layout al (start + length f) fs
      in (off # offs, replicate (start - off) 0 @ f @ body))"

definition afs_header_size :: "nat \<Rightarrow> nat" where
  "afs_header_size n = 16 + 2 * n + 4 * (n + 1)"

definition afs_encode :: "nat \<Rightarrow> (u16 \<times> bytes) list \<Rightarrow> bytes" where
  "afs_encode al files =
     (let (offs, body) = afs_layout al (afs_header_size (length files)) (map snd files)
      in be_bytes 4 (0x41465332 :: u32) @ [1, 4, 2, 0] @ le_bytes 4 (of_nat (length files) :: u32) @
         le_bytes 4 (of_nat al :: u32) @ concat (map (le_bytes 2) (map fst files)) @
         concat (map (le_bytes 4) (map (of_nat :: nat \<Rightarrow> u32) offs)) @ body)"

lemma afs_layout_spec:
  assumes "afs_layout al off fs = (offs, body)" and "0 < al"
  shows "length offs = Suc (length fs) \<and> offs ! 0 = off \<and>
    (\<forall>i < length fs. off \<le> align_nat al (offs ! i) \<and>
      offs ! Suc i = align_nat al (offs ! i) + length (fs ! i) \<and>
      offs ! Suc i \<le> off + length body \<and>
      take (length (fs ! i)) (drop (align_nat al (offs ! i) - off) body) = fs ! i)"
  using assms(1)
proof (induction fs arbitrary: off offs body)
  case Nil
  then show ?case by auto
next
  case (Cons f fs)
  let ?s = "align_nat al off"
  obtain os b where r: "afs_layout al (?s + length f) fs = (os, b)" by fastforce
  with Cons.prems have o: "offs = off # os" "body = replicate (?s - off) 0 @ f @ b"
    by (auto simp: Let_def)
  note ih = Cons.IH [OF r]
  have s: "off \<le> ?s" by (rule align_nat_ge [OF assms(2)])
  have "off \<le> align_nat al (offs ! i) \<and> offs ! Suc i = align_nat al (offs ! i) + length ((f # fs) ! i) \<and>
      offs ! Suc i \<le> off + length body \<and>
      take (length ((f # fs) ! i)) (drop (align_nat al (offs ! i) - off) body) = (f # fs) ! i"
    if i: "i < length (f # fs)" for i
  proof (cases i)
    case 0
    then show ?thesis using s o ih by simp
  next
    case (Suc j)
    with i ih have j: "j < length fs" by simp
    with ih have "?s + length f \<le> align_nat al (os ! j)" by blast
    then have "drop (align_nat al (os ! j) - off) body = drop (align_nat al (os ! j) - (?s + length f)) b"
      using s by (simp add: o)
    with ih j Suc s o show ?thesis by (auto intro: order_trans)
  qed
  moreover have "length offs = Suc (length (f # fs))" "offs ! 0 = off"
    using o ih by simp_all
  ultimately show ?case by blast
qed

text \<open>Reading back a list of encoded values, one per round of a loop.\<close>

lemma repeatS_encoded:
  assumes "\<And>r x w. w \<in> set ws \<Longrightarrow> br_rest r = enc w @ x \<Longrightarrow>
      m r = (Inr (val w), r\<lparr>br_pos := br_pos r + length (enc w)\<rparr>)"
    and "br_rest r = concat (map enc ws) @ x"
  shows "repeatS (length ws) i (\<lambda>_. m) r =
    (Inr (map val ws), r\<lparr>br_pos := br_pos r + length (concat (map enc ws))\<rparr>)"
  using assms
proof (induction ws arbitrary: r i)
  case Nil
  then show ?case by simp
next
  case (Cons w ws)
  let ?r = "r\<lparr>br_pos := br_pos r + length (enc w)\<rparr>"
  have "br_rest ?r = drop (length (enc w)) (br_rest r)"
    by (simp add: br_rest_def add.commute)
  then have "br_rest ?r = concat (map enc ws) @ x" using Cons.prems(2) by simp
  moreover have "m r = (Inr (val w), ?r)"
    using Cons.prems(1) [of w r "concat (map enc ws) @ x"] Cons.prems(2) by simp
  ultimately show ?case
    using Cons.IH [of ?r "Suc i"] Cons.prems(1) by (simp add: bindS_def add.assoc)
qed

lemma read_le16:
  "br_rest r = le_bytes 2 w @ x \<Longrightarrow>
   dropErr (ReadLeUint16 bytes_ops) r = (Inr w, r\<lparr>br_pos := br_pos r + 2\<rparr>)"
  by (simp add: ReadLeUint16_def dropErr_def binary_read_bytes le_word_le_bytes)

lemma read_le32:
  "br_rest r = le_bytes 4 w @ x \<Longrightarrow>
   dropErr (ReadLeUint32 bytes_ops) r = (Inr w, r\<lparr>br_pos := br_pos r + 4\<rparr>)"
  by (simp add: ReadLeUint32_def dropErr_def binary_read_bytes le_word_le_bytes)

lemma br_rest_advance:
  "br_rest r = a @ x \<Longrightarrow> n = length a \<Longrightarrow> br_rest (r\<lparr>br_pos := br_pos r + n\<rparr>) = x"
proof -
  assume a: "br_rest r = a @ x" "n = length a"
  have "br_rest (r\<lparr>br_pos := br_pos r + n\<rparr>) = drop n (br_rest r)"
    by (simp add: br_rest_def add.commute)
  with a show ?thesis by simp
qed

lemma drop_prefix: "xs = a @ b \<Longrightarrow> n = length a \<Longrightarrow> drop n xs = b"
  by simp

lemma length_concat_bytes:
  "length (concat (map (le_bytes k) ws)) = k * length ws"
  by (induction ws) auto

text \<open>The fields of a well-formed archive, wherever its body comes from.\<close>

lemma NewAFSArchive_fields:
  fixes cues :: "u16 list" and offs :: "u32 list" and al :: u32 and body :: bytes
  assumes "length offs = Suc (length cues)" and "length cues < 2 ^ 32 - 1"
  defines "d \<equiv> be_bytes 4 (0x41465332 :: u32) @ [1, 4, 2, 0] @ le_bytes 4 (of_nat (length cues) :: u32) @
     le_bytes 4 al @ concat (map (le_bytes 2) cues) @ concat (map (le_bytes 4) offs) @ body"
  shows "\<exists>r'. NewAFSArchive bytes_ops (new_reader d) =
    (Inr \<lparr>Alignment = al,
       Files = map (\<lambda>i. \<lparr>CueID = uint (cues ! i), Offset = align al (offs ! i),
                       Size = offs ! Suc i - align al (offs ! i)\<rparr>) [0..<length cues]\<rparr>, r')
    \<and> br_data r' = d"
proof -
  let ?n = "of_nat (length cues) :: u32"
  have n: "unat ?n = length cues" using assms(2) by (simp add: unat_of_nat take_bit_nat_eq_self unsigned_of_nat)
  have n1: "?n + 1 \<noteq> 0"
  proof
    assume "?n + 1 = 0"
    then have "unat (?n + 1) = 0" by simp
    then show False using n assms(2) by (simp add: unat_word_ariths)
  qed
  define r1 where "r1 = (new_reader d)\<lparr>br_pos := 4\<rparr>"
  define r2 where "r2 = (new_reader d)\<lparr>br_pos := 8\<rparr>"
  define r3 where "r3 = (new_reader d)\<lparr>br_pos := 12\<rparr>"
  define r4 where "r4 = (new_reader d)\<lparr>br_pos := 16\<rparr>"
  define r5 where "r5 = (new_reader d)\<lparr>br_pos := 16 + 2 * length cues\<rparr>"
  define r6 where "r6 = (new_reader d)\<lparr>br_pos := 16 + 2 * length cues + 4 * length offs\<rparr>"
  have m: "checkErr (ReadUint32 bytes_ops) (new_reader d) = (Inr 0x41465332, r1)"
    using be_word_be_bytes [of 4 "0x41465332 :: u32"]
    by (simp add: ReadUint32_def checkErr_def binary_read_bytes br_rest_def r1_def d_def)
  have v: "dropErr (ReadBytes bytes_ops 4) r1 = (Inr [1, 4, 2, 0], r2)"
    by (simp add: dropErr_def ReadBytes_bytes br_rest_def r1_def r2_def d_def)
  have c: "dropErr (ReadLeUint32 bytes_ops) r2 = (Inr ?n, r3)"
    by (subst read_le32 [where w = ?n]) (simp_all add: br_rest_def r2_def r3_def d_def)
  have a: "dropErr (ReadLeUint32 bytes_ops) r3 = (Inr al, r4)"
    by (subst read_le32 [where w = al]) (simp_all add: br_rest_def r3_def r4_def d_def)
  have s: "seekS bytes_ops 0x10 r4 = (Inr 0x10, r4)"
    by (simp add: r4_def)
  have cue: "repeatS (length cues) 0 (\<lambda>_. read_cue_id bytes_ops 2) r4 = (Inr (map uint cues), r5)"
  proof -
    have "read_cue_id bytes_ops 2 r = (Inr (uint w), r\<lparr>br_pos := br_pos r + length (le_bytes 2 w)\<rparr>)"
      if "br_rest r = le_bytes 2 w @ x" for r x and w :: u16
      using read_le16 [OF that] by (simp add: read_cue_id_def mapS_def bindS_def returnS_def)
    from repeatS_encoded [where m = "read_cue_id bytes_ops 2" and val = uint and enc = "le_bytes 2"
        and ws = cues and r = r4 and x = "concat (map (le_bytes 4) offs) @ body", OF this]
    show ?thesis by (simp add: r4_def r5_def br_rest_def d_def length_concat_bytes)
  qed
  have off: "repeatS (length offs) 0 (\<lambda>_. read_offset bytes_ops 4) r5 = (Inr offs, r6)"
  proof -
    have "w AND push_bit 32 1 - 1 = w" for w :: u32
    proof -
      have "push_bit 32 1 - 1 = (- 1 :: u32)" by simp
      then show ?thesis by (simp only: and.right_neutral)
    qed
    then have "read_offset bytes_ops 4 r = (Inr w, r\<lparr>br_pos := br_pos r + length (le_bytes 4 w)\<rparr>)"
      if "br_rest r = le_bytes 4 w @ x" for r x and w :: u32
      using read_le32 [OF that] by (simp add: read_offset_def mapS_def bindS_def returnS_def Let_def)
    note step = this
    have "br_rest r5 = concat (map (le_bytes 4) offs) @ body"
      unfolding br_rest_def
      by (rule drop_prefix [where a = "be_bytes 4 (0x41465332 :: u32) @ [1, 4, 2, 0] @ le_bytes 4 ?n @
          le_bytes 4 al @ concat (map (le_bytes 2) cues)"])
        (simp_all add: r5_def d_def length_concat_bytes)
    from repeatS_encoded [where m = "read_offset bytes_ops 4" and val = "\<lambda>w. w" and enc = "le_bytes 4"
        and ws = offs and i = 0, OF step this]
    show ?thesis by (simp add: r5_def r6_def length_concat_bytes)
  qed
  have "NewAFSArchive bytes_ops (new_reader d) =
    (Inr \<lparr>Alignment = al,
       Files = map (\<lambda>i. \<lparr>CueID = map uint cues ! i, Offset = align al (offs ! i),
                       Size = offs ! Suc i - align al (offs ! i)\<rparr>) [0..<length cues]\<rparr>, r6)"
    unfolding NewAFSArchive_def
    using m v c a s cue off n n1 assms(1) by (simp add: bindS_def returnS_def Let_def)
  moreover have "map (\<lambda>i. \<lparr>CueID = map uint cues ! i, Offset = align al (offs ! i),
        Size = offs ! Suc i - align al (offs ! i)\<rparr>) [0..<length cues] =
      map (\<lambda>i. \<lparr>CueID = uint (cues ! i), Offset = align al (offs ! i),
        Size = offs ! Suc i - align al (offs ! i)\<rparr>) [0..<length cues]"
    by simp
  ultimately show ?thesis by (auto simp: r6_def)
qed

section \<open>Properties\<close>

lemma find_map_upt:
  assumes "i < n" and "P (f i)" and "\<And>j. j < n \<Longrightarrow> P (f j) \<Longrightarrow> j = i"
  shows "find P (map f [0..<n]) = Some (f i)"
proof -
  have "find P (map f [0..<n]) \<noteq> None" using assms(1,2) by (auto simp: find_None_iff)
  then obtain y where "find P (map f [0..<n]) = Some y" by blast
  then show ?thesis using assms(3) by (auto simp: find_Some_iff)
qed

lemma afs_archive:
  assumes "0 < al" and "length (afs_encode al files) < 2 ^ 32" and "al < 2 ^ 32"
    and "distinct (map fst files)" and "(c, content) \<in> set files"
  shows "\<exists>a r'. NewAFSArchive bytes_ops (new_reader (afs_encode al files)) = (Inr a, r') \<and>
    (\<forall>p. FileDataForCueID bytes_ops a (uint c) (r'\<lparr>br_pos := p\<rparr>) = ((content, None), r'\<lparr>br_pos := p\<rparr>))"
proof -
  let ?n = "length files" and ?d = "afs_encode al files"
  let ?h = "afs_header_size ?n"
  obtain offs body where lay: "afs_layout al ?h (map snd files) = (offs, body)" by fastforce
  note L = afs_layout_spec [OF lay assms(1)]
  let ?cues = "map fst files" and ?offs = "map of_nat offs :: u32 list" and ?al = "of_nat al :: u32"
  have d: "?d = be_bytes 4 (0x41465332 :: u32) @ [1, 4, 2, 0] @ le_bytes 4 (of_nat (length ?cues) :: u32) @
     le_bytes 4 ?al @ concat (map (le_bytes 2) ?cues) @ concat (map (le_bytes 4) ?offs) @ body"
    by (simp add: afs_encode_def lay)
  have lens: "length (concat (map (le_bytes 2) ?cues)) = 2 * ?n"
    "length (concat (map (le_bytes 4) ?offs)) = 4 * (?n + 1)"
    using L by (simp_all only: length_concat_bytes length_map) simp
  have h: "length ?d = ?h + length body"
    unfolding d length_append lens by (simp add: afs_header_size_def)
  have dr: "drop ?h ?d = body"
    by (rule drop_prefix [where a = "be_bytes 4 (0x41465332 :: u32) @ [1, 4, 2, 0] @
        le_bytes 4 (of_nat (length ?cues) :: u32) @ le_bytes 4 ?al @
        concat (map (le_bytes 2) ?cues) @ concat (map (le_bytes 4) ?offs)"])
      (simp_all only: d length_append lens append_assoc, simp add: afs_header_size_def)
  from assms(2) h have n32: "?n < 2 ^ 32 - 1" by (simp add: afs_header_size_def)
  obtain r' where parse: "NewAFSArchive bytes_ops (new_reader ?d) =
    (Inr \<lparr>Alignment = ?al,
       Files = map (\<lambda>i. \<lparr>CueID = uint (?cues ! i), Offset = align ?al (?offs ! i),
                       Size = ?offs ! Suc i - align ?al (?offs ! i)\<rparr>) [0..<length ?cues]\<rparr>, r')"
      and r': "br_data r' = ?d"
    using NewAFSArchive_fields [of ?offs ?cues ?al body] L n32 unfolding d by auto
  obtain i where i: "i < ?n" "files ! i = (c, content)"
    using assms(5) by (auto simp: in_set_conv_nth)
  let ?s = "align_nat al (offs ! i)"
  have Li: "?h \<le> ?s" "offs ! Suc i = ?s + length content" "offs ! Suc i \<le> ?h + length body"
      "take (length content) (drop (?s - ?h) body) = content"
    using L i by auto
  have s: "offs ! i \<le> ?s" by (rule align_nat_ge [OF assms(1)])
  then have lt: "?s < 2 ^ 32" "offs ! i < 2 ^ 32" "offs ! Suc i < 2 ^ 32"
    using Li h assms(2) by linarith+
  have al: "unat ?al = al" "?al \<noteq> 0"
    using assms(1,3) by (auto simp: unat_of_nat take_bit_nat_eq_self unsigned_of_nat word_of_nat_eq_0_iff dest: nat_dvd_not_less)
  have o: "unat (of_nat (offs ! i) :: u32) = offs ! i"
    using lt by (simp add: unat_of_nat take_bit_nat_eq_self unsigned_of_nat)
  have start: "unat (align ?al (of_nat (offs ! i))) = ?s"
    using align_unat [of ?al "of_nat (offs ! i)"] al o lt by simp
  then have start': "align ?al (of_nat (offs ! i)) = of_nat ?s"
    by (simp flip: start)
  let ?f = "\<lambda>i. \<lparr>CueID = uint (?cues ! i), Offset = align ?al (?offs ! i),
                Size = ?offs ! Suc i - align ?al (?offs ! i)\<rparr>"
  have "?offs ! Suc i - align ?al (?offs ! i) = of_nat (length content)"
    using L i start' Li(2) by simp
  moreover have "unat (of_nat (length content) :: u32) = length content"
    using lt Li(2) by (simp add: unat_of_nat take_bit_nat_eq_self unsigned_of_nat)
  ultimately have size: "unat (Size (?f i)) = length content" by simp
  have find: "find (\<lambda>f. CueID f = uint c) (map ?f [0..<length ?cues]) = Some (?f i)"
  proof -
    have uniq: "j = i" if "j < ?n" "fst (files ! j) = c" for j
      using assms(4) i that nth_eq_iff_index_eq [of ?cues j i] by simp
    show ?thesis
      by (rule find_map_upt) (simp_all add: i uniq flip: word_eq_iff_unsigned)
  qed
  have data: "take (length content) (drop ?s ?d) = content"
  proof -
    have "drop ?s ?d = drop (?s - ?h) body" using Li(1) by (simp flip: dr)
    with Li(4) show ?thesis by simp
  qed
  have room: "length content \<le> length ?d - ?s" using Li h by simp
  have "FileData bytes_ops (?f i) (r'\<lparr>br_pos := p\<rparr>) = ((content, None), r'\<lparr>br_pos := p\<rparr>)" for p
    using size start data room r' L i
    by (simp add: FileData_def ReadBytesAt_bytes Let_def nat_uint_eq)
  with parse find show ?thesis
    by (auto simp: FileDataForCueID_def)
qed

text \<open>
  C8: an archive that is written file by file, each at the next multiple of the alignment,
  with cue IDs of 2 bytes and offsets of 4, is read back: if no two files have the same cue ID
  and the archive is smaller than 4 GiB, \<open>FileDataForCueID\<close> returns the contents of each file,
  whatever the position of the reader.
\<close>

theorem afs_round_trip:
  assumes "0 < al" and "length (afs_encode al files) < 2 ^ 32" and "al < 2 ^ 32"
    and "distinct (map fst files)" and "(c, content) \<in> set files"
  shows "\<exists>a r'. NewAFSArchive bytes_ops (new_reader (afs_encode al files)) = (Inr a, r') \<and>
    (\<forall>p. FileDataForCueID bytes_ops a (uint c) (r'\<lparr>br_pos := p\<rparr>) = ((content, None), r'\<lparr>br_pos := p\<rparr>))"
  by (rule afs_archive [OF assms])

lemma afs_round_trip_witness:
  "\<exists>a r'. NewAFSArchive bytes_ops (new_reader (afs_encode 32 [(7, [1, 2, 3]), (9, [4])])) = (Inr a, r') \<and>
    (\<forall>p. FileDataForCueID bytes_ops a 9 (r'\<lparr>br_pos := p\<rparr>) = (([4], None), r'\<lparr>br_pos := p\<rparr>))"
proof -
  have "length (afs_encode 32 [(7, [1, 2, 3]), (9, [4])]) < 2 ^ 32"
    by (simp add: afs_encode_def afs_header_size_def align_nat_def ceil_div_def)
  from afs_round_trip [OF _ this, of 9 "[4]"] show ?thesis by simp
qed

end
