(* ===== verification/GoStrings.thy ===== *)
theory GoStrings
  imports Prelude
begin

text \<open>
  What the client uses of Go's \<open>strings\<close>, \<open>strconv\<close>, \<open>unicode/utf8\<close> and \<open>path\<close> packages (on a
  system whose path separator is \<open>/\<close>, where \<open>path\<close> and \<open>path/filepath\<close> agree and \<open>ToSlash\<close>
  changes nothing).

  A Go string is any sequence of bytes; ranging over it decodes UTF-8, and a byte that starts
  no valid encoding is decoded to U+FFFD. \<open>strings.ToLower\<close> is modelled on ASCII only. The code
  compares its result with extensions spelled without \<open>k\<close> and \<open>i\<close>, the only ASCII letters that a
  non-ASCII letter maps to, so the comparisons come out as in the code.
\<close>

section \<open>\<open>strings\<close> and \<open>strconv\<close>\<close>

definition hasPrefix :: "string \<Rightarrow> string \<Rightarrow> bool" where
  "hasPrefix s p \<longleftrightarrow> take (length p) s = p"

definition hasSuffix :: "string \<Rightarrow> string \<Rightarrow> bool" where
  "hasSuffix s p \<longleftrightarrow> length p \<le> length s \<and> drop (length s - length p) s = p"

definition trimPrefix :: "string \<Rightarrow> string \<Rightarrow> string" where
  "trimPrefix s p = (if hasPrefix s p then drop (length p) s else s)"

definition trimSuffix :: "string \<Rightarrow> string \<Rightarrow> string" where
  "trimSuffix s p = (if hasSuffix s p then take (length s - length p) s else s)"

lemma hasPrefix_iff: "hasPrefix s p \<longleftrightarrow> (\<exists>r. s = p @ r)"
  unfolding hasPrefix_def by (metis append_eq_conv_conj append_take_drop_id)

lemma hasSuffix_iff: "hasSuffix s p \<longleftrightarrow> (\<exists>r. s = r @ p)"
proof
  assume "hasSuffix s p"
  then have "s = take (length s - length p) s @ p"
    unfolding hasSuffix_def by (metis append_take_drop_id)
  then show "\<exists>r. s = r @ p" by blast
qed (auto simp: hasSuffix_def)

lemma trimSuffix_append [simp]: "trimSuffix (s @ p) p = s"
  by (simp add: trimSuffix_def hasSuffix_def)

definition lower_char :: "char \<Rightarrow> char" where
  "lower_char c = (let n = of_char c :: nat in if 65 \<le> n \<and> n \<le> 90 then char_of (n + 32) else c)"

definition toLower :: "string \<Rightarrow> string" where
  "toLower s = map lower_char s"

text \<open>\<open>strconv.Itoa\<close> and the verb \<open>%d\<close>.\<close>

definition digit_char :: "nat \<Rightarrow> char" where
  "digit_char n = char_of (48 + n)"

fun show_nat :: "nat \<Rightarrow> string" where
  "show_nat n = (if n < 10 then [digit_char n] else show_nat (n div 10) @ [digit_char (n mod 10)])"

declare show_nat.simps [simp del]

definition show_int :: "int \<Rightarrow> string" where
  "show_int i = (if i < 0 then CHR ''-'' # show_nat (nat (- i)) else show_nat (nat i))"

lemma of_char_digit [simp]: "n < 10 \<Longrightarrow> of_char (digit_char n) = 48 + n"
  by (simp add: digit_char_def)

lemma digit_char_inj: "m < 10 \<Longrightarrow> n < 10 \<Longrightarrow> digit_char m = digit_char n \<longleftrightarrow> m = n"
  by (metis of_char_digit add_left_cancel)

lemma show_nat_inj: "show_nat m = show_nat n \<Longrightarrow> m = n"
proof (induction m arbitrary: n rule: show_nat.induct)
  case (1 m)
  have ne: "show_nat k \<noteq> []" for k by (subst show_nat.simps) simp
  show ?case
  proof (cases "m < 10 \<or> n < 10")
    case True
    with 1(2) ne [of "m div 10"] ne [of "n div 10"] show ?thesis
      by (auto simp: show_nat.simps [of m] show_nat.simps [of n] digit_char_inj append_eq_Cons_conv Cons_eq_append_conv split: if_splits)
  next
    case False
    with 1(2) have "show_nat (m div 10) = show_nat (n div 10)" "m mod 10 = n mod 10"
      by (auto simp: show_nat.simps [of m] show_nat.simps [of n] digit_char_inj)
    with 1(1) False show ?thesis by (metis div_mult_mod_eq)
  qed
qed

lemma show_nat_digits: "c \<in> set (show_nat n) \<Longrightarrow> \<exists>k<10. c = digit_char k"
proof (induction n rule: show_nat.induct)
  case (1 n)
  then show ?case
    by (cases "n < 10") (auto simp: show_nat.simps [of n] intro: exI [of _ "n mod 10"])
qed

lemma show_int_inj: "show_int i = show_int j \<longleftrightarrow> i = j"
proof
  have no_minus: "show_nat n \<noteq> CHR ''-'' # s" for n s
  proof
    assume "show_nat n = CHR ''-'' # s"
    then have "CHR ''-'' \<in> set (show_nat n)" by simp
    from show_nat_digits [OF this] obtain k where k: "k < 10" "CHR ''-'' = digit_char k" by blast
    then have "(of_char CHR ''-'' :: nat) = 48 + k" by simp
    then show False by simp
  qed
  assume "show_int i = show_int j"
  then show "i = j"
    using no_minus no_minus [symmetric]
    by (auto simp: show_int_def split: if_splits dest!: show_nat_inj)
qed simp

text \<open>\<open>strings.Split(s, "/")\<close> and \<open>strings.Join(xs, sep)\<close>.\<close>

fun splitSlash :: "string \<Rightarrow> string list" where
  "splitSlash [] = [[]]"
| "splitSlash (c # cs) =
     (if c = CHR ''/'' then [] # splitSlash cs
      else case splitSlash cs of p # ps \<Rightarrow> (c # p) # ps | [] \<Rightarrow> [[c]])"

fun joinWith :: "string \<Rightarrow> string list \<Rightarrow> string" where
  "joinWith sep [] = []"
| "joinWith sep [x] = x"
| "joinWith sep (x # y # xs) = x @ sep @ joinWith sep (y # xs)"

lemma splitSlash_nonempty [simp]: "splitSlash s \<noteq> []"
  by (induction s) (auto split: list.splits)

lemma splitSlash_no_slash: "p \<in> set (splitSlash s) \<Longrightarrow> CHR ''/'' \<notin> set p"
  by (induction s arbitrary: p) (auto split: list.splits if_splits)

lemma joinWith_splitSlash [simp]: "joinWith ''/'' (splitSlash s) = s"
proof (induction s)
  case Nil
  then show ?case by simp
next
  case (Cons c s)
  obtain p ps where "splitSlash s = p # ps" by (meson splitSlash_nonempty neq_Nil_conv)
  with Cons show ?case by (cases ps) auto
qed

lemma splitSlash_append: "CHR ''/'' \<notin> set p \<Longrightarrow> splitSlash (p @ CHR ''/'' # s) = p # splitSlash s"
  by (induction p) (auto split: list.splits)

lemma splitSlash_single: "CHR ''/'' \<notin> set p \<Longrightarrow> splitSlash p = [p]"
  by (induction p) (auto split: list.splits)

lemma splitSlash_joinWith:
  "ps \<noteq> [] \<Longrightarrow> \<forall>p\<in>set ps. CHR ''/'' \<notin> set p \<Longrightarrow> splitSlash (joinWith ''/'' ps) = ps"
  by (induction "''/''" ps rule: joinWith.induct) (auto simp: splitSlash_append splitSlash_single)

section \<open>UTF-8\<close>

definition is_cont :: "nat \<Rightarrow> bool" where
  "is_cont b \<longleftrightarrow> 0x80 \<le> b \<and> b \<le> 0xBF"

text \<open>\<open>utf8.DecodeRune\<close> of a non-empty sequence of bytes: the rune and its width.\<close>

definition next_rune :: "nat list \<Rightarrow> nat \<times> nat" where
  "next_rune bs =
     (let b0 = bs ! 0; b1 = bs ! 1; b2 = bs ! 2; b3 = bs ! 3 in
      if b0 < 0x80 then (b0, 1)
      else if 0xC2 \<le> b0 \<and> b0 \<le> 0xDF \<and> 2 \<le> length bs \<and> is_cont b1 then
        ((b0 - 0xC0) * 0x40 + (b1 - 0x80), 2)
      else if 0xE0 \<le> b0 \<and> b0 \<le> 0xEF \<and> 3 \<le> length bs \<and> is_cont b1 \<and> is_cont b2 \<and>
              (b0 = 0xE0 \<longrightarrow> 0xA0 \<le> b1) \<and> (b0 = 0xED \<longrightarrow> b1 \<le> 0x9F) then
        ((b0 - 0xE0) * 0x1000 + (b1 - 0x80) * 0x40 + (b2 - 0x80), 3)
      else if 0xF0 \<le> b0 \<and> b0 \<le> 0xF4 \<and> 4 \<le> length bs \<and> is_cont b1 \<and> is_cont b2 \<and> is_cont b3 \<and>
              (b0 = 0xF0 \<longrightarrow> 0x90 \<le> b1) \<and> (b0 = 0xF4 \<longrightarrow> b1 \<le> 0x8F) then
        ((b0 - 0xF0) * 0x40000 + (b1 - 0x80) * 0x1000 + (b2 - 0x80) * 0x40 + (b3 - 0x80), 4)
      else (0xFFFD, 1))"

text \<open>\<open>for _, r := range s\<close>.\<close>

function runes :: "nat list \<Rightarrow> nat list" where
  "runes bs = (if bs = [] then [] else case next_rune bs of (r, w) \<Rightarrow> r # runes (drop w bs))"
  by pat_completeness auto
termination
  by (relation "measure length") (auto simp: next_rune_def Let_def length_greater_0_conv [symmetric] split: if_splits simp del: length_greater_0_conv)

declare runes.simps [simp del]

text \<open>\<open>utf8.AppendRune\<close>, for a valid rune.\<close>

definition utf8 :: "nat \<Rightarrow> nat list" where
  "utf8 r =
     (if r < 0x80 then [r]
      else if r < 0x800 then [0xC0 + r div 0x40, 0x80 + r mod 0x40]
      else if r < 0x10000 then [0xE0 + r div 0x1000, 0x80 + r div 0x40 mod 0x40, 0x80 + r mod 0x40]
      else [0xF0 + r div 0x40000, 0x80 + r div 0x1000 mod 0x40, 0x80 + r div 0x40 mod 0x40, 0x80 + r mod 0x40])"

definition valid_rune :: "nat \<Rightarrow> bool" where
  "valid_rune r \<longleftrightarrow> r < 0xD800 \<or> (0xDFFF < r \<and> r \<le> 0x10FFFF)"

lemma valid_rune2: "x \<le> 31 \<Longrightarrow> y \<le> 63 \<Longrightarrow> valid_rune (x * 0x40 + y)"
  by (simp add: valid_rune_def)

lemma valid_rune3:
  assumes "x \<le> 15" "y \<le> 63" "z \<le> 63" "x = 13 \<longrightarrow> y \<le> 31"
  shows "valid_rune (x * 0x1000 + y * 0x40 + z)"
proof (cases "x \<le> 13")
  case True
  then have "x \<le> 12 \<or> x = 13" by linarith
  with assms show ?thesis unfolding valid_rune_def by linarith
next
  case False
  with assms show ?thesis unfolding valid_rune_def by linarith
qed

lemma valid_rune4:
  assumes "x \<le> 4" "y \<le> 63" "z \<le> 63" "w \<le> 63" "x = 0 \<longrightarrow> 16 \<le> y" "x = 4 \<longrightarrow> y \<le> 15"
  shows "valid_rune (x * 0x40000 + y * 0x1000 + z * 0x40 + w)"
proof -
  from assms have "x = 0 \<or> (1 \<le> x \<and> x \<le> 3) \<or> x = 4" by linarith
  with assms show ?thesis unfolding valid_rune_def by (elim disjE) linarith+
qed

lemma next_rune_valid: "valid_rune (fst (next_rune bs))"
  unfolding next_rune_def Let_def is_cont_def
  by (simp only: fst_conv split: if_split)
    (intro conjI impI; (rule valid_rune2 | rule valid_rune3 | rule valid_rune4 | simp add: valid_rune_def);
      auto simp: le_diff_conv le_diff_conv2)

lemma next_rune_utf8:
  assumes "valid_rune r"
  shows "next_rune (utf8 r @ bs) = (r, length (utf8 r))"
proof -
  consider "r < 0x80" | "0x80 \<le> r" "r < 0x800" | "0x800 \<le> r" "r < 0x10000" | "0x10000 \<le> r" by linarith
  then show ?thesis
  proof cases
    case 1
    then show ?thesis by (simp add: utf8_def next_rune_def)
  next
    case 2
    then have "2 \<le> r div 0x40" "r div 0x40 < 32" by (simp_all add: less_eq_div_iff_mult_less_eq div_less_iff_less_mult)
    with 2 show ?thesis by (simp add: utf8_def next_rune_def is_cont_def Let_def)
  next
    case 3
    define a b c where "a = r div 0x1000" and "b = r div 0x40 mod 0x40" and "c = r mod 0x40"
    have "a = r div 0x40 div 0x40" by (simp add: a_def flip: div_mult2_eq)
    then have r: "r = a * 0x1000 + b * 0x40 + c"
      using div_mult_mod_eq [of r "0x40"] div_mult_mod_eq [of "r div 0x40" "0x40"] b_def c_def by linarith
    have b: "b < 0x40" and c: "c < 0x40" by (simp_all add: b_def c_def)
    have a: "a < 16" using 3 r by linarith
    have lo: "a = 0 \<longrightarrow> 0x20 \<le> b" using 3 r b c by linarith
    have hi: "a = 13 \<longrightarrow> b \<le> 0x1F" using 3 r b c assms by (auto simp: valid_rune_def)
    have u: "utf8 r = [0xE0 + a, 0x80 + b, 0x80 + c]" using 3 by (simp add: utf8_def a_def b_def c_def)
    have "a \<le> 15" "b \<le> 63" "c \<le> 63" using a b c by simp_all
    with lo hi show ?thesis unfolding u
      by (simp add: next_rune_def is_cont_def r Let_def)
  next
    case 4
    define a b c d where "a = r div 0x40000" and "b = r div 0x1000 mod 0x40" and "c = r div 0x40 mod 0x40" and "d = r mod 0x40"
    have s: "r div 0x1000 = r div 0x40 div 0x40" "a = r div 0x1000 div 0x40"
      by (simp_all add: a_def flip: div_mult2_eq)
    have r: "r = a * 0x40000 + b * 0x1000 + c * 0x40 + d"
      using div_mult_mod_eq [of r "0x40"] div_mult_mod_eq [of "r div 0x40" "0x40"]
        div_mult_mod_eq [of "r div 0x1000" "0x40"] s b_def c_def d_def by linarith
    have b: "b < 0x40" and c: "c < 0x40" and d: "d < 0x40" by (simp_all add: b_def c_def d_def)
    have r': "r \<le> 0x10FFFF" using assms 4 by (auto simp: valid_rune_def)
    have a: "a < 5" using r' r by linarith
    have lo: "a = 0 \<longrightarrow> 0x10 \<le> b" using 4 r b c d by linarith
    have hi: "a = 4 \<longrightarrow> b \<le> 0xF" using r' r b c d by linarith
    have u: "utf8 r = [0xF0 + a, 0x80 + b, 0x80 + c, 0x80 + d]" using 4 by (simp add: utf8_def a_def b_def c_def d_def)
    have "a \<le> 4" "b \<le> 63" "c \<le> 63" "d \<le> 63" using a b c d by simp_all
    with lo hi show ?thesis unfolding u
      by (simp add: next_rune_def is_cont_def r Let_def)
  qed
qed

lemma runes_Nil [simp]: "runes [] = []"
  by (simp add: runes.simps)

lemma runes_utf8:
  assumes "valid_rune r"
  shows "runes (utf8 r @ bs) = r # runes bs"
proof -
  have "utf8 r \<noteq> []" by (simp add: utf8_def)
  then show ?thesis
    using next_rune_utf8 [OF assms, of bs] by (simp add: runes.simps [of "utf8 r @ bs"])
qed

lemma runes_encoded: "\<forall>r\<in>set rs. valid_rune r \<Longrightarrow> runes (concat (map utf8 rs)) = rs"
  by (induction rs) (simp_all add: runes_utf8)

lemma runes_valid: "r \<in> set (runes bs) \<Longrightarrow> valid_rune r"
proof (induction bs rule: runes.induct)
  case (1 bs)
  show ?case
  proof (cases "bs = []")
    case True
    with 1(2) show ?thesis by simp
  next
    case False
    with 1 show ?thesis
      using next_rune_valid [of bs]
      by (cases "next_rune bs") (auto simp: runes.simps [of bs])
  qed
qed

lemma rune_ge2: "2 \<le> x \<Longrightarrow> 0x80 \<le> x * 0x40 + (y :: nat)"
  by simp

lemma rune_ge3: "x = 0 \<longrightarrow> 2 \<le> y \<Longrightarrow> 0x80 \<le> x * 0x1000 + y * 0x40 + (z :: nat)"
  by (cases x) simp_all

lemma rune_ge4: "x = 0 \<longrightarrow> 1 \<le> y \<Longrightarrow> 0x80 \<le> x * 0x40000 + y * 0x1000 + z * 0x40 + (w :: nat)"
  by (cases x) simp_all

text \<open>An ASCII rune comes from the byte itself.\<close>

lemma next_rune_ascii: "bs \<noteq> [] \<Longrightarrow> fst (next_rune bs) < 0x80 \<Longrightarrow> fst (next_rune bs) \<in> set bs"
proof -
  assume ne: "bs \<noteq> []" and lt: "fst (next_rune bs) < 0x80"
  have "bs ! 0 < 0x80"
  proof (rule ccontr)
    assume "\<not> bs ! 0 < 0x80"
    then have "0x80 \<le> fst (next_rune bs)"
      unfolding next_rune_def Let_def is_cont_def
      by (simp only: fst_conv if_False split: if_split)
        (intro conjI impI; (rule rune_ge2 | rule rune_ge3 | rule rune_ge4 | simp); auto simp: le_diff_conv2)
    with lt show False by simp
  qed
  then have "next_rune bs = (bs ! 0, 1)" by (simp add: next_rune_def)
  with ne show ?thesis by simp
qed

lemma runes_ascii: "r \<in> set (runes bs) \<Longrightarrow> r < 0x80 \<Longrightarrow> r \<in> set bs"
proof (induction bs rule: runes.induct)
  case (1 bs)
  show ?case
  proof (cases "bs = []")
    case True
    with 1(2) show ?thesis by simp
  next
    case False
    then obtain r' w where n: "next_rune bs = (r', w)" by fastforce
    with 1(2) False have "r = r' \<or> r \<in> set (runes (drop w bs))" by (simp add: runes.simps [of bs])
    then show ?thesis
    proof
      assume "r = r'"
      with next_rune_ascii [OF False] n 1(3) show ?thesis by simp
    next
      assume "r \<in> set (runes (drop w bs))"
      with 1(1) [OF False n [symmetric] _ 1(3)] have "r \<in> set (drop w bs)" by blast
      then show ?thesis by (rule in_set_dropD)
    qed
  qed
qed

lemma utf8_ascii: "b \<in> set (utf8 r) \<Longrightarrow> b < 0x80 \<Longrightarrow> b = r"
  by (auto simp: utf8_def split: if_splits)

lemma utf8_byte: "valid_rune r \<Longrightarrow> b \<in> set (utf8 r) \<Longrightarrow> b < 256"
  by (auto simp: utf8_def valid_rune_def split: if_splits)

text \<open>Strings and their runes. \<open>stringsMap f\<close> is \<open>strings.Map\<close> with an \<open>f\<close> that drops nothing.\<close>

definition string_codes :: "string \<Rightarrow> nat list" where
  "string_codes s = map of_char s"

definition string_runes :: "string \<Rightarrow> nat list" where
  "string_runes s = runes (string_codes s)"

definition runes_string :: "nat list \<Rightarrow> string" where
  "runes_string rs = map char_of (concat (map utf8 rs))"

definition stringsMap :: "(nat \<Rightarrow> nat) \<Rightarrow> string \<Rightarrow> string" where
  "stringsMap f s = runes_string (map f (string_runes s))"

lemma string_codes_runes_string:
  "\<forall>r\<in>set rs. valid_rune r \<Longrightarrow> string_codes (runes_string rs) = concat (map utf8 rs)"
  unfolding string_codes_def runes_string_def map_map o_def
  by (rule map_idI) (use utf8_byte in \<open>fastforce simp: of_char_of\<close>)

lemma string_runes_string:
  "\<forall>r\<in>set rs. valid_rune r \<Longrightarrow> string_runes (runes_string rs) = rs"
  by (simp add: string_runes_def string_codes_runes_string runes_encoded)

lemma string_runes_valid: "r \<in> set (string_runes s) \<Longrightarrow> valid_rune r"
  by (simp add: string_runes_def runes_valid)

lemma string_runes_ascii: "r \<in> set (string_runes s) \<Longrightarrow> r < 0x80 \<Longrightarrow> char_of r \<in> set s"
  by (auto simp: string_runes_def string_codes_def dest!: runes_ascii)

lemma string_runes_map:
  assumes "\<And>r. valid_rune r \<Longrightarrow> valid_rune (f r)"
  shows "string_runes (stringsMap f s) = map f (string_runes s)"
  unfolding stringsMap_def
  by (rule string_runes_string) (auto intro!: assms dest: string_runes_valid)

text \<open>The ASCII characters of a mapped string are images of its runes.\<close>

lemma stringsMap_ascii:
  assumes "c \<in> set (stringsMap f s)" and "of_char c < (0x80 :: nat)"
    and "\<And>r. valid_rune r \<Longrightarrow> valid_rune (f r)"
  shows "\<exists>r\<in>set (string_runes s). of_char c = f r"
proof -
  have v: "\<forall>r\<in>set (map f (string_runes s)). valid_rune r"
    by (auto intro!: assms(3) dest: string_runes_valid)
  have "of_char c \<in> set (string_codes (stringsMap f s))"
    using assms(1) by (auto simp: string_codes_def)
  then obtain r where "r \<in> set (string_runes s)" "of_char c \<in> set (utf8 (f r))"
    unfolding stringsMap_def string_codes_runes_string [OF v] by auto
  with utf8_ascii [OF _ assms(2)] show ?thesis by metis
qed

lemma runes_string_Nil_iff: "runes_string rs = [] \<longleftrightarrow> rs = []"
  by (cases rs) (auto simp: runes_string_def utf8_def)

lemma string_runes_Nil_iff: "string_runes s = [] \<longleftrightarrow> s = []"
  by (cases s) (auto simp: string_runes_def string_codes_def runes.simps [of "_ # _"] split: prod.split)

text \<open>A string that is valid UTF-8 is the encoding of its runes.\<close>

definition valid_utf8 :: "string \<Rightarrow> bool" where
  "valid_utf8 s \<longleftrightarrow> runes_string (string_runes s) = s"

lemma valid_utf8_map:
  assumes "\<And>r. valid_rune r \<Longrightarrow> valid_rune (f r)"
  shows "valid_utf8 (stringsMap f s)"
proof -
  have "\<forall>r\<in>set (map f (string_runes s)). valid_rune r"
    by (auto intro!: assms dest: string_runes_valid)
  then show ?thesis by (simp add: valid_utf8_def stringsMap_def string_runes_string)
qed

lemma stringsMap_id:
  assumes "valid_utf8 s" and "\<And>r. r \<in> set (string_runes s) \<Longrightarrow> f r = r"
  shows "stringsMap f s = s"
proof -
  have "map f (string_runes s) = string_runes s" using assms(2) by (rule map_idI)
  with assms(1) show ?thesis by (simp add: stringsMap_def valid_utf8_def)
qed

section \<open>Trimming, searching and environment variables\<close>

text \<open>\<open>unicode.IsSpace\<close>, and \<open>strings.TrimSpace\<close> of a valid UTF-8 string.\<close>

definition isSpace :: "nat \<Rightarrow> bool" where
  "isSpace r \<longleftrightarrow> r \<in> {9, 10, 11, 12, 13, 32, 0x85, 0xA0, 0x1680, 0x2028, 0x2029, 0x202F, 0x205F, 0x3000} \<or>
     (0x2000 \<le> r \<and> r \<le> 0x200A)"

definition trimRunes :: "nat list \<Rightarrow> nat list" where
  "trimRunes rs = rev (dropWhile isSpace (rev (dropWhile isSpace rs)))"

definition trimSpace :: "string \<Rightarrow> string" where
  "trimSpace s = runes_string (trimRunes (string_runes s))"

lemma dropWhile_rev_Nil: "dropWhile P (rev (dropWhile P xs)) = [] \<longleftrightarrow> dropWhile P xs = []"
proof -
  have "dropWhile P xs = []" if "\<forall>y\<in>set (dropWhile P xs). P y"
  proof (rule ccontr)
    assume ne: "dropWhile P xs \<noteq> []"
    from hd_dropWhile [OF this] that hd_in_set [OF ne] show False by blast
  qed
  moreover have "dropWhile P (rev (dropWhile P xs)) = [] \<longleftrightarrow> (\<forall>y\<in>set (dropWhile P xs). P y)"
    by (simp only: dropWhile_eq_Nil_conv set_rev)
  ultimately show ?thesis by (cases "dropWhile P xs = []") (simp_all only: list.set, blast+)
qed

lemma trimRunes_cases:
  "trimRunes rs = [] \<or> (\<not> isSpace (hd (trimRunes rs)) \<and> \<not> isSpace (last (trimRunes rs)))"
proof (cases "trimRunes rs = []")
  case False
  let ?u = "dropWhile isSpace rs"
  let ?v = "dropWhile isSpace (rev ?u)"
  have v: "?v \<noteq> []" using False by (simp add: trimRunes_def)
  have u: "?u \<noteq> []" using v dropWhile_rev_Nil by metis
  have "last (trimRunes rs) = hd ?v" using v by (simp add: trimRunes_def last_rev)
  then have l: "\<not> isSpace (last (trimRunes rs))" using hd_dropWhile [OF v] by simp
  have "rev (rev ?u) = rev (takeWhile isSpace (rev ?u) @ ?v)" by (simp only: takeWhile_dropWhile_id)
  then have "rev (rev ?u) = trimRunes rs @ rev (takeWhile isSpace (rev ?u))"
    unfolding trimRunes_def by (simp only: rev_append)
  then have "?u = trimRunes rs @ rev (takeWhile isSpace (rev ?u))" by simp
  then have "hd (trimRunes rs) = hd ?u" using False by (metis hd_append2)
  then show ?thesis using l hd_dropWhile [OF u] by simp
qed simp

lemma trimRunes_id:
  assumes "rs = [] \<or> (\<not> isSpace (hd rs) \<and> \<not> isSpace (last rs))"
  shows "trimRunes rs = rs"
proof (cases rs)
  case (Cons r rs')
  then have "dropWhile isSpace rs = rs" using assms by simp
  moreover have "dropWhile isSpace (rev rs) = rev rs"
  proof (cases "rev rs")
    case (Cons x ys)
    then have "last rs = x" by (metis last_rev list.sel(1) rev_rev_ident list.distinct(1))
    then show ?thesis using assms Cons by auto
  qed simp
  ultimately show ?thesis by (simp add: trimRunes_def)
qed (simp add: trimRunes_def)

lemma trimRunes_subset: "r \<in> set (trimRunes rs) \<Longrightarrow> r \<in> set rs"
  unfolding trimRunes_def by (metis set_dropWhileD set_rev)

lemma string_runes_trimSpace: "string_runes (trimSpace s) = trimRunes (string_runes s)"
  unfolding trimSpace_def
  by (rule string_runes_string) (auto dest!: trimRunes_subset string_runes_valid)

lemma trimSpace_trimSpace [simp]: "trimSpace (trimSpace s) = trimSpace s"
  using trimRunes_id [OF trimRunes_cases] by (simp add: trimSpace_def [of "trimSpace s"] string_runes_trimSpace) (simp add: trimSpace_def)

text \<open>Text before a trimmed string that starts with no space.\<close>

lemma trimSpace_prefix:
  assumes "\<forall>r\<in>set rs. valid_rune r" and "rs \<noteq> []" and "\<not> isSpace (hd rs)" and "trimSpace s \<noteq> []"
  shows "trimSpace (runes_string rs @ trimSpace s) = runes_string rs @ trimSpace s"
proof -
  let ?t = "trimRunes (string_runes s)"
  have t: "?t \<noteq> []" using assms(4) by (simp add: trimSpace_def runes_string_Nil_iff)
  have app: "runes_string rs @ trimSpace s = runes_string (rs @ ?t)"
    by (simp add: trimSpace_def runes_string_def)
  have "\<forall>r\<in>set (rs @ ?t). valid_rune r"
    using assms(1) by (auto dest!: trimRunes_subset string_runes_valid)
  then have runes: "string_runes (runes_string (rs @ ?t)) = rs @ ?t" by (rule string_runes_string)
  have "trimRunes (rs @ ?t) = rs @ ?t"
    using t assms(2,3) trimRunes_cases [of "string_runes s"] by (intro trimRunes_id) simp
  then show ?thesis by (simp add: app trimSpace_def [of "runes_string _"] runes)
qed

definition containsStr :: "string \<Rightarrow> string \<Rightarrow> bool" where
  "containsStr s t = list_ex (\<lambda>i. hasPrefix (drop i s) t) [0..<Suc (length s)]"

lemma containsStr_iff: "containsStr s t \<longleftrightarrow> (\<exists>a b. s = a @ t @ b)"
proof
  assume "containsStr s t"
  then obtain i r where "drop i s = t @ r" unfolding containsStr_def list_ex_iff hasPrefix_iff by blast
  then have "s = take i s @ t @ r" by (metis append_take_drop_id)
  then show "\<exists>a b. s = a @ t @ b" by blast
next
  assume "\<exists>a b. s = a @ t @ b"
  then obtain a b where "s = a @ t @ b" by blast
  then have "length a \<in> set [0..<Suc (length s)] \<and> hasPrefix (drop (length a) s) t" by (auto simp: hasPrefix_iff)
  then show "containsStr s t" unfolding containsStr_def list_ex_iff by blast
qed

definition upper_char :: "char \<Rightarrow> char" where
  "upper_char c = (let n = of_char c :: nat in if 97 \<le> n \<and> n \<le> 122 then char_of (n - 32) else c)"

definition toUpper :: "string \<Rightarrow> string" where
  "toUpper s = map upper_char s"

text \<open>\<open>os.Expand\<close>: \<open>getShellName\<close> gives the name behind a dollar sign and how many bytes to skip.\<close>

definition isShellSpecialVar :: "char \<Rightarrow> bool" where
  "isShellSpecialVar c \<longleftrightarrow> c \<in> set ''*#$@!?-0123456789''"

definition isAlphaNum :: "char \<Rightarrow> bool" where
  "isAlphaNum c \<longleftrightarrow> (let n = of_char c :: nat in
     c = CHR ''_'' \<or> (48 \<le> n \<and> n \<le> 57) \<or> (97 \<le> n \<and> n \<le> 122) \<or> (65 \<le> n \<and> n \<le> 90))"

definition getShellName :: "string \<Rightarrow> string \<times> nat" where
  "getShellName s =
     (case s of
        [] \<Rightarrow> ([], 0)
      | c # cs \<Rightarrow>
          if c = CHR ''{'' then
            (if 2 < length s \<and> isShellSpecialVar (cs ! 0) \<and> cs ! 1 = CHR ''}'' then ([cs ! 0], 3)
             else if CHR ''}'' \<in> set cs then
               (let name = takeWhile (\<lambda>x. x \<noteq> CHR ''}'') cs
                in if name = [] then ([], 2) else (name, length name + 2))
             else ([], 1))
          else if isShellSpecialVar c then ([c], 1)
          else (let name = takeWhile isAlphaNum s in (name, length name)))"

lemma getShellName_skip: "snd (getShellName s) \<le> length s"
proof -
  have "length (takeWhile (\<lambda>x. x \<noteq> CHR ''}'') cs) + 2 \<le> Suc (length cs)" if "CHR ''}'' \<in> set cs" for cs
    using that by (induction cs) auto
  moreover have "2 \<le> Suc (length cs)" if "CHR ''}'' \<in> set cs" for cs using that by (cases cs) auto
  ultimately show ?thesis
    by (auto simp: getShellName_def Let_def length_takeWhile_le split: list.split)
qed

function osExpand :: "(string \<Rightarrow> string) \<Rightarrow> string \<Rightarrow> string" where
  "osExpand mapping [] = []"
| "osExpand mapping (c # cs) =
     (if c = CHR ''$'' \<and> cs \<noteq> [] then
        (case getShellName cs of
           (name, w) \<Rightarrow>
             (if name = [] then (if 0 < w then [] else [c]) else mapping name) @ osExpand mapping (drop w cs))
      else c # osExpand mapping cs)"
  by pat_completeness auto
termination
  by (relation "measure (\<lambda>(m, s). length s)") auto

end
