(* ===== verification/GoPath.thy ===== *)
theory GoPath
  imports GoStrings
begin

text \<open>
  Go's \<open>path\<close> package (and \<open>path/filepath\<close> on Unix): \<open>Clean\<close>, \<open>Join\<close>, \<open>Base\<close>, \<open>Dir\<close>, \<open>Ext\<close>.
  \<open>Clean\<close> is modelled on the components of the path, with a stack of those that are kept.
\<close>

section \<open>Operations\<close>

definition proper :: "string \<Rightarrow> bool" where
  "proper p \<longleftrightarrow> p \<noteq> '''' \<and> p \<noteq> ''.'' \<and> p \<noteq> ''..''"

definition cleanStep :: "bool \<Rightarrow> string \<Rightarrow> string list \<Rightarrow> string list" where
  "cleanStep rooted p st =
     (if p = '''' \<or> p = ''.'' then st
      else if p = ''..'' then
        (case st of
           [] \<Rightarrow> (if rooted then [] else [''..''])
         | q # qs \<Rightarrow> (if q = ''..'' then ''..'' # st else qs))
      else p # st)"

definition cleanStack :: "bool \<Rightarrow> string list \<Rightarrow> string list" where
  "cleanStack rooted ps = fold (cleanStep rooted) ps []"

definition Clean :: "string \<Rightarrow> string" where
  "Clean s =
     (let rooted = hasPrefix s ''/'';
          out = joinWith ''/'' (rev (cleanStack rooted (splitSlash s)))
      in if rooted then CHR ''/'' # out else if out = '''' then ''.'' else out)"

text \<open>\<open>filepath.Join\<close>: empty leading elements are dropped, the rest is joined and cleaned.\<close>

definition Join :: "string list \<Rightarrow> string" where
  "Join ps =
     (case dropWhile (\<lambda>p. p = '''') ps of [] \<Rightarrow> '''' | qs \<Rightarrow> Clean (joinWith ''/'' qs))"

definition Base :: "string \<Rightarrow> string" where
  "Base s =
     (if s = '''' then ''.''
      else let q = rev (dropWhile (\<lambda>c. c = CHR ''/'') (rev s)); b = last (splitSlash q)
           in if b = '''' then ''/'' else b)"

definition Dir :: "string \<Rightarrow> string" where
  "Dir s = Clean (concat (map (\<lambda>p. p @ ''/'') (butlast (splitSlash s))))"

definition Ext :: "string \<Rightarrow> string" where
  "Ext s =
     (let b = last (splitSlash s)
      in if CHR ''.'' \<in> set b then CHR ''.'' # rev (takeWhile (\<lambda>c. c \<noteq> CHR ''.'') (rev b)) else '''')"

section \<open>What \<open>Clean\<close> returns\<close>

definition clean_form :: "bool \<Rightarrow> string list \<Rightarrow> bool" where
  "clean_form rooted st \<longleftrightarrow>
     (\<exists>ns k. st = ns @ replicate k ''..'' \<and> (\<forall>p\<in>set ns. proper p) \<and> (rooted \<longrightarrow> k = 0))"

lemma clean_form_Nil [simp]: "clean_form rooted []"
  by (auto simp: clean_form_def)

lemma cleanStep_form:
  assumes "clean_form rooted st"
  shows "clean_form rooted (cleanStep rooted p st)"
proof -
  from assms obtain ns k where st: "st = ns @ replicate k ''..''" "\<forall>q\<in>set ns. proper q" "rooted \<longrightarrow> k = 0"
    by (auto simp: clean_form_def)
  consider "p = '''' \<or> p = ''.''" | "p = ''..''" "ns = []" | "p = ''..''" "ns \<noteq> []" | "proper p"
    by (auto simp: proper_def)
  then show ?thesis
  proof cases
    case 1
    with assms show ?thesis by (simp add: cleanStep_def)
  next
    case 2
    have "cleanStep rooted p st = [] @ replicate (if rooted then 0 else Suc k) ''..''"
      using 2 st by (cases k) (auto simp: cleanStep_def)
    then show ?thesis
      unfolding clean_form_def by (metis empty_iff empty_set)
  next
    case 3
    then obtain q qs where "ns = q # qs" by (cases ns) auto
    with 3 st show ?thesis
      unfolding clean_form_def cleanStep_def
      by (intro exI [of _ qs] exI [of _ k]) (auto simp: proper_def)
  next
    case 4
    with st show ?thesis
      unfolding clean_form_def cleanStep_def
      by (intro exI [of _ "p # ns"] exI [of _ k]) (auto simp: proper_def)
  qed
qed

lemma cleanStack_form: "clean_form rooted (cleanStack rooted ps)"
proof -
  have "clean_form rooted (fold (cleanStep rooted) ps st)" if "clean_form rooted st" for st
    using that by (induction ps arbitrary: st) (auto simp: cleanStep_form)
  then show ?thesis by (simp add: cleanStack_def)
qed

lemma cleanStack_subset: "p \<in> set (cleanStack rooted ps) \<Longrightarrow> p \<in> set ps"
proof -
  have step: "set (cleanStep rooted p st) \<subseteq> insert p (set st)" for p st
    by (auto simp: cleanStep_def split: list.splits if_splits)
  have "set (fold (cleanStep rooted) ps st) \<subseteq> set ps \<union> set st" for st
  proof (induction ps arbitrary: st)
    case (Cons p ps)
    from Cons [of "cleanStep rooted p st"] step [of p st] show ?case by auto
  qed simp
  from this [of "[]"] show "p \<in> set (cleanStack rooted ps) \<Longrightarrow> p \<in> set ps"
    by (auto simp: cleanStack_def)
qed

lemma fold_cleanStep_proper:
  "\<forall>p\<in>set ps. proper p \<Longrightarrow> fold (cleanStep rooted) ps st = rev ps @ st"
  by (induction ps arbitrary: st) (auto simp: cleanStep_def proper_def)

lemma cleanStack_proper: "\<forall>p\<in>set ps. proper p \<Longrightarrow> cleanStack rooted ps = rev ps"
  by (simp add: cleanStack_def fold_cleanStep_proper)

lemma joinWith_eq_Nil_iff: "joinWith ''/'' ps = '''' \<longleftrightarrow> ps = [] \<or> ps = ['''']"
  by (induction "''/''" ps rule: joinWith.induct) auto

definition names :: "string list \<Rightarrow> bool" where
  "names ps \<longleftrightarrow> ps \<noteq> [] \<and> (\<forall>p\<in>set ps. proper p \<and> CHR ''/'' \<notin> set p)"

lemma names_not_slash: "names ps \<Longrightarrow> \<not> hasPrefix (joinWith ''/'' ps) ''/''"
proof -
  assume n: "names ps"
  then obtain p qs where ps: "ps = p # qs" by (cases ps) (auto simp: names_def)
  with n obtain c cs where "p = c # cs" "c \<noteq> CHR ''/''"
    by (cases p) (auto simp: names_def proper_def)
  with ps show ?thesis by (cases qs) (auto simp: hasPrefix_def)
qed

lemma joinWith_names: "names ps \<Longrightarrow> joinWith ''/'' ps \<noteq> ''''"
proof
  assume n: "names ps" and "joinWith ''/'' ps = ''''"
  then have "ps = [] \<or> ps = ['''']" by (simp only: joinWith_eq_Nil_iff)
  with n show False
    unfolding names_def proper_def by (elim disjE) simp_all
qed

text \<open>A path of proper components is clean.\<close>

lemma Clean_names:
  assumes "names ps"
  shows "Clean (joinWith ''/'' ps) = joinWith ''/'' ps"
proof -
  have "splitSlash (joinWith ''/'' ps) = ps"
    by (rule splitSlash_joinWith) (use assms in \<open>auto simp: names_def\<close>)
  moreover have "joinWith ''/'' ps \<noteq> ''''" by (rule joinWith_names [OF assms])
  moreover have "cleanStack False ps = rev ps"
    by (rule cleanStack_proper) (use assms in \<open>simp add: names_def\<close>)
  ultimately show ?thesis
    unfolding Clean_def Let_def using names_not_slash [OF assms] by simp
qed

text \<open>A cleaned path that neither is rooted nor climbs consists of proper components.\<close>

lemma Clean_safe:
  assumes "Clean s \<noteq> ''.''" and "\<not> hasPrefix (Clean s) ''../''" and "Clean s \<noteq> ''..''"
    and "\<not> hasPrefix (Clean s) ''/''"
  shows "\<exists>ps. names ps \<and> Clean s = joinWith ''/'' ps"
proof -
  have nr: "\<not> hasPrefix s ''/''"
    using assms(4) by (auto simp: Clean_def hasPrefix_def Let_def)
  let ?st = "cleanStack False (splitSlash s)"
  from cleanStack_form [of False "splitSlash s"] obtain ns k where st: "?st = ns @ replicate k ''..''" "\<forall>p\<in>set ns. proper p"
    by (auto simp: clean_form_def)
  have ne: "joinWith ''/'' (rev ?st) \<noteq> ''''" using assms(1) nr by (auto simp: Clean_def Let_def)
  then have C: "Clean s = joinWith ''/'' (rev ?st)" using nr by (simp add: Clean_def Let_def)
  have k: "k = 0"
  proof (rule ccontr)
    assume "k \<noteq> 0"
    then obtain j where "k = Suc j" by (cases k) auto
    then have "rev ?st = ''..'' # (replicate j ''..'' @ rev ns)"
      by (simp add: st replicate_append_same)
    with C assms(2,3) show False
      by (cases "replicate j ''..'' @ rev ns") (auto simp: hasPrefix_def)
  qed
  moreover have "?st \<noteq> []" using ne by auto
  moreover have "CHR ''/'' \<notin> set p" if "p \<in> set ?st" for p
    using cleanStack_subset [OF that] splitSlash_no_slash by blast
  ultimately have "names (rev ns)" using st by (auto simp: names_def)
  with C st k show ?thesis by auto
qed

text \<open>Joining proper components to a path keeps the path's own components in front.\<close>

lemma Join_names:
  assumes "names ps" and "names qs"
  shows "Join (joinWith ''/'' ps # qs) = joinWith ''/'' (ps @ qs)"
proof -
  have "joinWith ''/'' (joinWith ''/'' ps # qs) = joinWith ''/'' (ps @ qs)"
    if "ps \<noteq> []" "qs \<noteq> []" for ps qs
    using that
  proof (induction "''/''" ps rule: joinWith.induct)
    case (2 x)
    then show ?case by (cases qs) auto
  next
    case (3 x y xs)
    then show ?case by (cases qs) auto
  qed simp
  moreover have "names (ps @ qs)" using assms by (auto simp: names_def)
  moreover have "joinWith ''/'' ps \<noteq> ''''" by (rule joinWith_names [OF assms(1)])
  moreover have "ps \<noteq> []" "qs \<noteq> []" using assms by (simp_all add: names_def)
  ultimately show ?thesis
    unfolding Join_def using Clean_names [of "ps @ qs"] by simp
qed

lemma Join_names0: "names qs \<Longrightarrow> Join qs = joinWith ''/'' qs"
  unfolding Join_def using Clean_names [of qs] by (cases qs) (auto simp: names_def proper_def)

section \<open>Paths as stacks of components\<close>

text \<open>
  A path is given by whether it is rooted and by the stack of components \<open>Clean\<close> keeps; all
  that the operations do is seen there.
\<close>

definition rooted :: "string \<Rightarrow> bool" where
  "rooted s = hasPrefix s ''/''"

definition stack_of :: "string \<Rightarrow> string list" where
  "stack_of s = cleanStack (rooted s) (splitSlash s)"

definition render :: "bool \<Rightarrow> string list \<Rightarrow> string" where
  "render r st =
     (if r then CHR ''/'' # joinWith ''/'' (rev st)
      else if st = [] then ''.'' else joinWith ''/'' (rev st))"

definition stack_ok :: "bool \<Rightarrow> string list \<Rightarrow> bool" where
  "stack_ok r st \<longleftrightarrow> clean_form r st \<and> (\<forall>p\<in>set st. CHR ''/'' \<notin> set p)"

lemma not_proper [simp]: "\<not> proper []" "\<not> proper ''.''" "\<not> proper ''..''"
  by (simp_all add: proper_def)

lemma clean_form_no_empty: "clean_form r st \<Longrightarrow> [] \<notin> set st"
  using not_proper(1) by (fastforce simp: clean_form_def)

lemma stack_of_ok: "stack_ok (rooted s) (stack_of s)"
  unfolding stack_ok_def stack_of_def
proof (intro conjI ballI)
  fix p assume "p \<in> set (cleanStack (rooted s) (splitSlash s))"
  then show "CHR ''/'' \<notin> set p" by (rule splitSlash_no_slash [OF cleanStack_subset])
qed (rule cleanStack_form)

lemma Clean_render: "Clean s = render (rooted s) (stack_of s)"
proof -
  have "joinWith ''/'' (rev (stack_of s)) = '''' \<longleftrightarrow> stack_of s = []"
  proof -
    have "[] \<notin> set (stack_of s)"
      using clean_form_no_empty stack_of_ok [of s] by (auto simp: stack_ok_def)
    then have "rev (stack_of s) \<noteq> ['''']" by (metis list.set_intros(1) set_rev)
    then show ?thesis by (simp only: joinWith_eq_Nil_iff rev_is_Nil_conv simp_thms)
  qed
  then show ?thesis
    unfolding Clean_def render_def Let_def rooted_def [symmetric]
    by (cases "rooted s") (simp_all add: stack_of_def)
qed

lemma rooted_render: "stack_ok r st \<Longrightarrow> rooted (render r st) = r"
proof (cases "r \<or> st = []")
  case True
  then show ?thesis by (auto simp: render_def rooted_def hasPrefix_def)
next
  case False
  assume ok: "stack_ok r st"
  obtain p ps where p: "rev st = p # ps" using False by (metis neq_Nil_conv rev_is_Nil_conv)
  then have "p \<in> set st" by (metis list.set_intros(1) set_rev)
  with ok have "p \<noteq> []" "CHR ''/'' \<notin> set p"
    using clean_form_no_empty by (auto simp: stack_ok_def)
  then obtain c cs where "p = c # cs" "c \<noteq> CHR ''/''" by (cases p) auto
  with p False show ?thesis by (cases ps) (simp_all add: render_def rooted_def hasPrefix_def)
qed

lemma fold_cleanStep_rev:
  assumes "clean_form r st"
  shows "fold (cleanStep r) (rev st) [] = st"
proof -
  from assms obtain ns k where st: "st = ns @ replicate k ''..''" "\<forall>p\<in>set ns. proper p" "r \<longrightarrow> k = 0"
    by (auto simp: clean_form_def)
  have "fold (cleanStep r) (replicate k ''..'') [] = replicate k ''..''"
  proof (cases r)
    case True
    with st show ?thesis by simp
  next
    case False
    have "fold (cleanStep False) (replicate k ''..'') (replicate j ''..'') = replicate (k + j) ''..''" for j
    proof (induction k arbitrary: j)
      case (Suc k)
      have "cleanStep False ''..'' (replicate j ''..'') = replicate (Suc j) ''..''"
        by (cases j) (simp_all add: cleanStep_def)
      with Suc [of "Suc j"] show ?case by simp
    qed simp
    from this [of 0] False show ?thesis by simp
  qed
  with st show ?thesis by (simp add: fold_cleanStep_proper)
qed

lemma stack_of_render: "stack_ok r st \<Longrightarrow> stack_of (render r st) = st"
proof -
  assume ok: "stack_ok r st"
  then have f: "clean_form r st" and ns: "\<forall>p\<in>set (rev st). CHR ''/'' \<notin> set p"
    by (auto simp: stack_ok_def)
  have split: "fold (cleanStep r) (splitSlash (joinWith ''/'' (rev st))) [] = st"
  proof (cases "st = []")
    case True
    then show ?thesis by (simp add: cleanStep_def)
  next
    case False
    then have "splitSlash (joinWith ''/'' (rev st)) = rev st"
      using ns by (intro splitSlash_joinWith) simp_all
    with fold_cleanStep_rev [OF f] show ?thesis by simp
  qed
  have dot: "fold (cleanStep False) (splitSlash ''.'') [] = []"
    by (simp add: cleanStep_def)
  show ?thesis
    unfolding stack_of_def rooted_render [OF ok] cleanStack_def
    using split dot by (auto simp: render_def cleanStep_def)
qed

lemma Clean_Clean [simp]: "Clean (Clean s) = Clean s"
  by (simp add: Clean_render rooted_render stack_of_render stack_of_ok)

lemma splitSlash_join2: "splitSlash (a @ CHR ''/'' # b) = splitSlash a @ splitSlash b"
  by (induction a) (auto split: list.splits)

text \<open>Going down from a path: its stack, continued with the components below.\<close>

lemma Clean_below:
  assumes "a \<noteq> ''''"
  shows "Clean (a @ CHR ''/'' # b) =
    render (rooted a) (fold (cleanStep (rooted a)) (splitSlash b) (stack_of a))"
proof -
  have "rooted (a @ CHR ''/'' # b) = rooted a"
    using assms by (cases a) (simp_all add: rooted_def hasPrefix_def)
  then show ?thesis
    by (simp add: Clean_render stack_of_def splitSlash_join2 cleanStack_def)
qed

lemma stack_ok_step:
  "stack_ok r st \<Longrightarrow> CHR ''/'' \<notin> set p \<Longrightarrow> stack_ok r (cleanStep r p st)"
  unfolding stack_ok_def using cleanStep_form [of r st p]
  by (auto simp: cleanStep_def split: list.splits if_splits)

lemma stack_ok_fold:
  "stack_ok r st \<Longrightarrow> \<forall>p\<in>set ps. CHR ''/'' \<notin> set p \<Longrightarrow> stack_ok r (fold (cleanStep r) ps st)"
  by (induction ps arbitrary: st) (auto simp: stack_ok_step)

lemma stack_of_Join:
  assumes "a \<noteq> ''''"
  shows "stack_of (Join [a, b]) = fold (cleanStep (rooted a)) (splitSlash b) (stack_of a)"
    and "rooted (Join [a, b]) = rooted a"
proof -
  have "stack_ok (rooted a) (fold (cleanStep (rooted a)) (splitSlash b) (stack_of a))"
    using splitSlash_no_slash by (intro stack_ok_fold stack_of_ok) blast
  then show "stack_of (Join [a, b]) = fold (cleanStep (rooted a)) (splitSlash b) (stack_of a)"
    and "rooted (Join [a, b]) = rooted a"
    using assms by (simp_all add: Join_def Clean_below stack_of_render rooted_render)
qed

lemma stack_of_Join_names:
  assumes "a \<noteq> ''''" and "names ps"
  shows "stack_of (Join [a, joinWith ''/'' ps]) = rev ps @ stack_of a"
proof -
  have "splitSlash (joinWith ''/'' ps) = ps"
    by (rule splitSlash_joinWith) (use assms in \<open>simp_all add: names_def\<close>)
  with assms(2) show ?thesis
    by (simp add: stack_of_Join [OF assms(1)] fold_cleanStep_proper names_def)
qed

end
