(* ===== verification/AcbTracks.thy ===== *)
theory AcbTracks
  imports AcbUtf AcbAfs GoPath
begin

text \<open>
  \<open>internal/cricodecs/acb/track.go\<close> and the pure part of \<open>acbextractor.go\<close>: the tables of an
  ACB, the commands of its track events, the tracks they name, and the data of a track.

  A table that may be absent is an option. An index into a slice that Go checks at run time is
  \<open>index_get\<close>, with the panic as an error.
\<close>

unbundle bit_operations_syntax

section \<open>The tables\<close>

record Track =
  tr_CueID :: int
  tr_Name :: string
  tr_WavID :: int
  tr_EncType :: int
  tr_IsStream :: bool
  tr_StreamAwbID :: int

record acbTables =
  tb_cues :: UTFTable
  tb_nams :: UTFTable
  tb_wavs :: "UTFTable option"
  tb_syns :: "UTFTable option"
  tb_tras :: UTFTable
  tb_tevs :: UTFTable
  tb_seqs :: "UTFTable option"

definition parse_table :: "bytes \<Rightarrow> go_err + UTFTable" where
  "parse_table bs = fst (NewUTFTable bytes_ops (new_reader bs))"

text \<open>\<open>data, _ := getBytesField(row, name)\<close>: nil, that is empty, when there is an error.\<close>

definition bytes_or_nil :: "row \<Rightarrow> string \<Rightarrow> bytes" where
  "bytes_or_nil row name = (case getBytesField row name of Inl _ \<Rightarrow> [] | Inr b \<Rightarrow> b)"

definition requiredTables :: "string list" where
  "requiredTables = [''CueTable'', ''CueNameTable'', ''TrackTable'']"

definition optionalTables :: "string list" where
  "optionalTables = [''WaveformTable'', ''SynthTable'']"

fun require_tables :: "row \<Rightarrow> string list \<Rightarrow> (string \<rightharpoonup> bytes) \<Rightarrow> go_err + (string \<rightharpoonup> bytes)" where
  "require_tables row [] tables = Inr tables"
| "require_tables row (name # ns) tables =
     bindR (getBytesField row name) (\<lambda>data. require_tables row ns (tables(name \<mapsto> data)))"

fun optional_tables :: "row \<Rightarrow> string list \<Rightarrow> (string \<rightharpoonup> bytes) \<Rightarrow> (string \<rightharpoonup> bytes)" where
  "optional_tables row [] tables = tables"
| "optional_tables row (name # ns) tables =
     optional_tables row ns
       (if bytes_or_nil row name \<noteq> [] then tables(name \<mapsto> bytes_or_nil row name) else tables)"

definition extractTableBytes :: "row \<Rightarrow> go_err + (string \<rightharpoonup> bytes)" where
  "extractTableBytes row =
     bindR (require_tables row requiredTables Map.empty) (\<lambda>tables.
     let tables = optional_tables row optionalTables tables in
     bindR (case getBytesField row ''TrackEventTable'' of
              Inl _ \<Rightarrow> getBytesField row ''CommandTable'' | Inr b \<Rightarrow> Inr b) (\<lambda>tevTable.
     let tables = tables(''TrackEventTable'' \<mapsto> tevTable) in
     Inr (case getBytesField row ''SequenceTable'' of
            Inl _ \<Rightarrow> tables | Inr seqTable \<Rightarrow> tables(''SequenceTable'' \<mapsto> seqTable))))"

definition table_bytes :: "(string \<rightharpoonup> bytes) \<Rightarrow> string \<Rightarrow> bytes" where
  "table_bytes m name = (case m name of None \<Rightarrow> [] | Some b \<Rightarrow> b)"

definition parse_optional :: "(string \<rightharpoonup> bytes) \<Rightarrow> string \<Rightarrow> go_err + UTFTable option" where
  "parse_optional m name =
     (if table_bytes m name \<noteq> [] then bindR (parse_table (table_bytes m name)) (\<lambda>t. Inr (Some t))
      else Inr None)"

definition parseUTFTables :: "(string \<rightharpoonup> bytes) \<Rightarrow> go_err + acbTables" where
  "parseUTFTables m =
     bindR (parse_table (table_bytes m ''CueTable'')) (\<lambda>cues.
     bindR (parse_table (table_bytes m ''CueNameTable'')) (\<lambda>nams.
     bindR (parse_optional m ''WaveformTable'') (\<lambda>wavs.
     bindR (parse_optional m ''SynthTable'') (\<lambda>syns.
     bindR (parse_table (table_bytes m ''TrackTable'')) (\<lambda>tras.
     bindR (parse_table (table_bytes m ''TrackEventTable'')) (\<lambda>tevs.
       Inr \<lparr>tb_cues = cues, tb_nams = nams, tb_wavs = wavs, tb_syns = syns, tb_tras = tras, tb_tevs = tevs,
            tb_seqs = (case parse_optional m ''SequenceTable'' of Inl _ \<Rightarrow> None | Inr s \<Rightarrow> s)\<rparr>))))))"

definition parseACBTables :: "row \<Rightarrow> go_err + acbTables" where
  "parseACBTables row = bindR (extractTableBytes row) parseUTFTables"

section \<open>Tracks\<close>

definition buildNameMap :: "UTFTable \<Rightarrow> (int \<rightharpoonup> string)" where
  "buildNameMap nams =
     fold (\<lambda>row m. m(getIntField row ''CueIndex'' \<mapsto> getStringField row ''CueName'')) (Rows nams) Map.empty"

definition track_name :: "(int \<rightharpoonup> string) \<Rightarrow> int \<Rightarrow> string" where
  "track_name nameMap refIndex = (case nameMap refIndex of None \<Rightarrow> '''' | Some n \<Rightarrow> n)"

definition generateUniqueName :: "string \<Rightarrow> int \<Rightarrow> int \<Rightarrow> Track list \<Rightarrow> Track list \<Rightarrow> string" where
  "generateUniqueName name refIndex wavID existingTracks currentTracks =
     (let name = (if name = '''' then ''UNKNOWN-'' @ show_int refIndex else name)
      in if name \<in> tr_Name ` set existingTracks then name @ ''-'' @ show_int wavID
         else if name \<in> tr_Name ` set currentTracks then name @ ''-'' @ show_int wavID
         else name)"

text \<open>\<open>binary.BigEndian.Uint16(b[i:])\<close> where the length has been checked.\<close>

definition be16 :: "bytes \<Rightarrow> nat \<Rightarrow> nat" where
  "be16 bs i = unat (be_word (take 2 (drop i bs)) :: u16)"

definition rows_of :: "UTFTable option \<Rightarrow> row list" where
  "rows_of t = (case t of None \<Rightarrow> [] | Some t \<Rightarrow> Rows t)"

definition extractTrackFromCommand ::
    "bytes \<Rightarrow> UTFTable option \<Rightarrow> UTFTable option \<Rightarrow> (int \<rightharpoonup> string) \<Rightarrow> int \<Rightarrow> Track list \<Rightarrow> Track list \<Rightarrow>
     Track option" where
  "extractTrackFromCommand paramBytes syns wavs nameMap refIndex existingTracks currentTracks =
     (if length paramBytes < 4 then None
      else if be16 paramBytes 0 \<noteq> 2 then None
      else
        let synIdx = be16 paramBytes 2 in
        if syns = None \<or> length (rows_of syns) \<le> synIdx then None
        else
          let rData = bytes_or_nil (rows_of syns ! synIdx) ''ReferenceItems'' in
          if length rData < 4 then None
          else
            let a = be16 rData 0; wavIdx = be16 rData 2 in
            if a \<noteq> 1 \<or> wavs = None \<or> length (rows_of wavs) \<le> wavIdx then None
            else
              let wavRow = rows_of wavs ! wavIdx;
                  isStream = getIntField wavRow ''Streaming'' \<noteq> 0;
                  wavID = getIntField wavRow (if isStream then ''StreamAwbId'' else ''MemoryAwbId'')
              in Some \<lparr>tr_CueID = refIndex,
                   tr_Name = generateUniqueName (track_name nameMap refIndex) refIndex wavID
                               existingTracks currentTracks,
                   tr_WavID = wavID,
                   tr_EncType = getIntField wavRow ''EncodeType'',
                   tr_IsStream = isStream,
                   tr_StreamAwbID = (if isStream then getIntField wavRow ''StreamAwbPortNo'' else -1)\<rparr>)"

text \<open>One command at \<open>k\<close>: the track it names, where the next one starts, whether to stop.\<close>

definition processCommand ::
    "bytes \<Rightarrow> nat \<Rightarrow> UTFTable option \<Rightarrow> UTFTable option \<Rightarrow> (int \<rightharpoonup> string) \<Rightarrow> int \<Rightarrow> Track list \<Rightarrow> Track list \<Rightarrow>
     Track option \<times> nat \<times> bool" where
  "processCommand command k syns wavs nameMap refIndex existingTracks currentTracks =
     (if length command < k + 3 then (None, k, True)
      else
        let cmd = be16 command k; cmdLen = unat (command ! (k + 2)); k = k + 3 in
        if length command < k + cmdLen then (None, k, True)
        else
          let paramBytes = take cmdLen (drop k command); k = k + cmdLen in
          if cmd = 0 then (None, k, True)
          else if cmd = 0x07d0 then
            (extractTrackFromCommand paramBytes syns wavs nameMap refIndex existingTracks currentTracks, k, False)
          else (None, k, False))"

lemma processCommand_progress:
  "processCommand command k syns wavs nameMap refIndex ex cur = (t, k', False) \<Longrightarrow>
   k + 3 \<le> k' \<and> k' \<le> length command"
  by (auto simp: processCommand_def Let_def split: if_splits)

function command_loop ::
    "bytes \<Rightarrow> nat \<Rightarrow> UTFTable option \<Rightarrow> UTFTable option \<Rightarrow> (int \<rightharpoonup> string) \<Rightarrow> int \<Rightarrow> Track list \<Rightarrow> Track list \<Rightarrow>
     Track list" where
  "command_loop command k syns wavs nameMap refIndex existingTracks tracks =
     (if k < length command then
        (case processCommand command k syns wavs nameMap refIndex existingTracks tracks of
           (track, k', stop) \<Rightarrow>
             if stop then tracks
             else command_loop command k' syns wavs nameMap refIndex existingTracks
                    (case track of None \<Rightarrow> tracks | Some t \<Rightarrow> tracks @ [t]))
      else tracks)"
  by pat_completeness auto
termination
  by (relation "measure (\<lambda>(command, k, _). length command - k)")
    (auto dest!: sym [of "(_, _, False)"] processCommand_progress)

declare command_loop.simps [simp del]

definition extractTracksFromEvent ::
    "row \<Rightarrow> UTFTable option \<Rightarrow> UTFTable option \<Rightarrow> (int \<rightharpoonup> string) \<Rightarrow> int \<Rightarrow> Track list \<Rightarrow> Track list" where
  "extractTracksFromEvent trackEvent syns wavs nameMap refIndex existingTracks =
     (case getBytesField trackEvent ''Command'' of
        Inl _ \<Rightarrow> []
      | Inr command \<Rightarrow> command_loop command 0 syns wavs nameMap refIndex existingTracks [])"

definition extractTrackFromTrackRow ::
    "acbTables \<Rightarrow> (int \<rightharpoonup> string) \<Rightarrow> int \<Rightarrow> int \<Rightarrow> Track list \<Rightarrow> go_err + Track list" where
  "extractTrackFromTrackRow tables nameMap refIndex trackIdx trs =
     bindR (index_get (Rows (tb_tras tables)) trackIdx) (\<lambda>track.
     let eventIdx = getIntField track ''EventIndex'' in
     if eventIdx = 0xFFFF \<or> int (length (Rows (tb_tevs tables))) \<le> eventIdx then Inr trs
     else
       bindR (index_get (Rows (tb_tevs tables)) eventIdx) (\<lambda>event.
         Inr (trs @ extractTracksFromEvent event (tb_syns tables) (tb_wavs tables) nameMap refIndex trs)))"

fun track_rows_loop ::
    "acbTables \<Rightarrow> (int \<rightharpoonup> string) \<Rightarrow> int \<Rightarrow> nat list \<Rightarrow> Track list \<Rightarrow> go_err + Track list" where
  "track_rows_loop tables nameMap refIndex [] trs = Inr trs"
| "track_rows_loop tables nameMap refIndex (i # is) trs =
     bindR (extractTrackFromTrackRow tables nameMap refIndex (int i) trs)
       (track_rows_loop tables nameMap refIndex is)"

definition extractDirectTracks ::
    "acbTables \<Rightarrow> (int \<rightharpoonup> string) \<Rightarrow> int \<Rightarrow> Track list \<Rightarrow> go_err + Track list" where
  "extractDirectTracks tables nameMap refIndex trs =
     track_rows_loop tables nameMap refIndex [0..<length (Rows (tb_tras tables))] trs"

text \<open>\<open>binary.BigEndian.Uint16(trackIndex[i*2:])\<close> with its run-time checks.\<close>

definition index_be16 :: "bytes \<Rightarrow> nat \<Rightarrow> go_err + nat" where
  "index_be16 bs off =
     (if off + 2 \<le> length bs then Inr (be16 bs off) else Inl (Panic ''index out of range''))"

fun sequence_loop ::
    "acbTables \<Rightarrow> (int \<rightharpoonup> string) \<Rightarrow> int \<Rightarrow> bytes \<Rightarrow> nat \<Rightarrow> nat \<Rightarrow> Track list \<Rightarrow> go_err + Track list" where
  "sequence_loop tables nameMap refIndex trackIndex i 0 trs = Inr trs"
| "sequence_loop tables nameMap refIndex trackIndex i (Suc n) trs =
     bindR (index_be16 trackIndex (i * 2)) (\<lambda>idx.
     bindR (if length (Rows (tb_tras tables)) \<le> idx then Inr trs
            else extractTrackFromTrackRow tables nameMap refIndex (int idx) trs) (\<lambda>trs.
     sequence_loop tables nameMap refIndex trackIndex (Suc i) n trs))"

definition extractSequenceTracks ::
    "acbTables \<Rightarrow> (int \<rightharpoonup> string) \<Rightarrow> int \<Rightarrow> Track list \<Rightarrow> go_err + Track list" where
  "extractSequenceTracks tables nameMap refIndex trs =
     bindR (index_get (rows_of (tb_seqs tables)) refIndex) (\<lambda>seq.
       sequence_loop tables nameMap refIndex (bytes_or_nil seq ''TrackIndex'') 0
         (nat (getIntField seq ''NumTracks'')) trs)"

fun cue_loop :: "acbTables \<Rightarrow> (int \<rightharpoonup> string) \<Rightarrow> row list \<Rightarrow> Track list \<Rightarrow> go_err + Track list" where
  "cue_loop tables nameMap [] trs = Inr trs"
| "cue_loop tables nameMap (cueRow # cs) trs =
     (let refType = getIntField cueRow ''ReferenceType'' in
      if refType \<noteq> 3 \<and> refType \<noteq> 8 then Inl (Failure ''ReferenceType not implemented'')
      else
        let refIndex = getIntField cueRow ''ReferenceIndex'' in
        bindR (if tb_seqs tables \<noteq> None \<and> refIndex < int (length (rows_of (tb_seqs tables)))
               then extractSequenceTracks tables nameMap refIndex trs
               else extractDirectTracks tables nameMap refIndex trs)
          (cue_loop tables nameMap cs))"

definition extractTracksFromTables :: "acbTables \<Rightarrow> (int \<rightharpoonup> string) \<Rightarrow> Track list \<Rightarrow> go_err + Track list" where
  "extractTracksFromTables tables nameMap trs = cue_loop tables nameMap (Rows (tb_cues tables)) trs"

definition NewTrackList :: "UTFTable \<Rightarrow> go_err + Track list" where
  "NewTrackList utf =
     (case Rows utf of
        [] \<Rightarrow> Inl (Failure ''no rows in UTF table'')
      | row # _ \<Rightarrow>
          bindR (parseACBTables row) (\<lambda>tables.
            extractTracksFromTables tables (buildNameMap (tb_nams tables)) []))"

section \<open>The data of a track\<close>

definition waveTypeExtensions :: "int \<rightharpoonup> string" where
  "waveTypeExtensions = map_of
     [(0, ''.adx''), (2, ''.hca''), (7, ''.at3''), (8, ''.vag''), (9, ''.bcwav''), (13, ''.dsp'')]"

definition track_filename :: "Track \<Rightarrow> string" where
  "track_filename track =
     tr_Name track @
     (case waveTypeExtensions (tr_EncType track) of
        None \<Rightarrow> ''.'' @ show_int (tr_EncType track) | Some ext \<Rightarrow> ext)"

text \<open>An archive together with the reader of its bytes.\<close>

type_synonym archive = "AFSArchive \<times> byte_reader"

definition archive_data :: "archive \<Rightarrow> int \<Rightarrow> bytes option" where
  "archive_data a cueID =
     (case fst (FileDataForCueID bytes_ops (fst a) cueID (snd a)) of
        (data, None) \<Rightarrow> Some data | (_, Some _) \<Rightarrow> None)"

definition getTrackData :: "Track \<Rightarrow> archive option \<Rightarrow> archive list \<Rightarrow> bytes option" where
  "getTrackData track embeddedAwb externalAwbs =
     (if tr_IsStream track then
        (if 0 \<le> tr_StreamAwbID track \<and> tr_StreamAwbID track < int (length externalAwbs)
         then archive_data (externalAwbs ! nat (tr_StreamAwbID track)) (tr_WavID track)
         else None)
      else case embeddedAwb of None \<Rightarrow> None | Some a \<Rightarrow> archive_data a (tr_WavID track))"

definition open_archive :: "bytes \<Rightarrow> go_err + archive option" where
  "open_archive bs =
     (case NewAFSArchive bytes_ops (new_reader bs) of
        (Inl e, _) \<Rightarrow> (if is_panic e then Inl e else Inr None)
      | (Inr a, r) \<Rightarrow> Inr (Some (a, r)))"

definition loadEmbeddedAwb :: "row \<Rightarrow> go_err + archive option" where
  "loadEmbeddedAwb row =
     (case getBytesField row ''AwbFile'' of
        Inl _ \<Rightarrow> Inr None
      | Inr awbData \<Rightarrow> if awbData = [] then Inr None else open_archive awbData)"

text \<open>The files next to the ACB are the parameter \<open>disk\<close>; one that is missing or unreadable is skipped.\<close>

definition loadExternalAwbFile :: "(string \<rightharpoonup> bytes) \<Rightarrow> string \<Rightarrow> go_err + archive option" where
  "loadExternalAwbFile disk awbPath =
     (case disk awbPath of None \<Rightarrow> Inr None | Some bs \<Rightarrow> open_archive bs)"

fun external_loop :: "(string \<rightharpoonup> bytes) \<Rightarrow> string \<Rightarrow> row list \<Rightarrow> go_err + archive list" where
  "external_loop disk dir [] = Inr []"
| "external_loop disk dir (awbRow # rows) =
     bindR (loadExternalAwbFile disk (Join [dir, getStringField awbRow ''Name'' @ ''.awb''])) (\<lambda>awb.
     bindR (external_loop disk dir rows) (\<lambda>awbs.
       Inr (case awb of None \<Rightarrow> awbs | Some a \<Rightarrow> a # awbs)))"

definition loadExternalAwbs :: "(string \<rightharpoonup> bytes) \<Rightarrow> row \<Rightarrow> string \<Rightarrow> go_err + archive list" where
  "loadExternalAwbs disk row acbFilePath =
     (case getBytesField row ''StreamAwbHash'' of
        Inl _ \<Rightarrow> Inr []
      | Inr streamAwbHash \<Rightarrow>
          if streamAwbHash = [] then Inr []
          else case parse_table streamAwbHash of
            Inl e \<Rightarrow> (if is_panic e then Inl e else Inr [])
          | Inr hashTable \<Rightarrow> external_loop disk (Dir acbFilePath) (Rows hashTable))"

text \<open>The files \<open>ExtractACB\<close> writes: the path of each track and its data, in order.\<close>

definition extractAllTracks ::
    "Track list \<Rightarrow> string \<Rightarrow> archive option \<Rightarrow> archive list \<Rightarrow> (string \<times> bytes) list" where
  "extractAllTracks tracks targetDir embeddedAwb externalAwbs =
     List.map_filter (\<lambda>track.
       map_option (Pair (Join [targetDir, track_filename track]))
         (getTrackData track embeddedAwb externalAwbs)) tracks"

definition ExtractACB ::
    "(string \<rightharpoonup> bytes) \<Rightarrow> bytes \<Rightarrow> string \<Rightarrow> string \<Rightarrow> go_err + (string \<times> bytes) list" where
  "ExtractACB disk acb targetDir acbFilePath =
     bindR (parse_table acb) (\<lambda>utf.
     bindR (NewTrackList utf) (\<lambda>tracks.
     bindR (loadEmbeddedAwb (Rows utf ! 0)) (\<lambda>embeddedAwb.
     bindR (loadExternalAwbs disk (Rows utf ! 0) acbFilePath) (\<lambda>externalAwbs.
       Inr (extractAllTracks tracks targetDir embeddedAwb externalAwbs)))))"

text \<open>\<open>ExtractACBFromFile\<close>: what is too short or is no table is skipped, without an error.\<close>

definition ExtractACBFromFile ::
    "(string \<rightharpoonup> bytes) \<Rightarrow> string \<Rightarrow> string \<Rightarrow> go_err + (string \<times> bytes) list" where
  "ExtractACBFromFile disk acbPath targetDir =
     (case disk acbPath of
        None \<Rightarrow> Inl (Failure ''no such file'')
      | Some acb \<Rightarrow>
          if length acb < 32 then Inr []
          else if take 4 acb \<noteq> [0x40, 0x55, 0x54, 0x46] then Inr []
          else ExtractACB disk acb targetDir acbPath)"

section \<open>Which tracks come out\<close>

text \<open>A track describes a row of the waveform table.\<close>

definition describes :: "row \<Rightarrow> Track \<Rightarrow> bool" where
  "describes wavRow t \<longleftrightarrow>
     tr_IsStream t = (getIntField wavRow ''Streaming'' \<noteq> 0) \<and>
     tr_EncType t = getIntField wavRow ''EncodeType'' \<and>
     tr_WavID t = getIntField wavRow (if tr_IsStream t then ''StreamAwbId'' else ''MemoryAwbId'') \<and>
     tr_StreamAwbID t = (if tr_IsStream t then getIntField wavRow ''StreamAwbPortNo'' else -1)"

definition sound :: "acbTables \<Rightarrow> Track \<Rightarrow> bool" where
  "sound tables t \<longleftrightarrow>
     (\<exists>wavRow\<in>set (rows_of (tb_wavs tables)). describes wavRow t) \<and>
     (\<exists>cue\<in>set (Rows (tb_cues tables)). tr_CueID t = getIntField cue ''ReferenceIndex'')"

lemma extractTrackFromCommand_sound:
  assumes "extractTrackFromCommand ps syns wavs nm ref ex cur = Some t"
  shows "tr_CueID t = ref \<and> (\<exists>wavRow\<in>set (rows_of wavs). describes wavRow t)"
  using assms by (auto simp: extractTrackFromCommand_def Let_def describes_def not_le intro!: bexI [OF _ nth_mem] split: if_splits)

lemma command_loop_sound:
  "\<forall>t\<in>set trs. P t \<Longrightarrow>
   (\<And>ps ex cur t. extractTrackFromCommand ps syns wavs nm ref ex cur = Some t \<Longrightarrow> P t) \<Longrightarrow>
   \<forall>t\<in>set (command_loop command k syns wavs nm ref ex trs). P t"
proof (induction command k syns wavs nm ref ex trs rule: command_loop.induct)
  case (1 command k syns wavs nm ref ex trs)
  obtain track k' stop where p: "processCommand command k syns wavs nm ref ex trs = (track, k', stop)"
    by (metis surj_pair)
  have P: "P t" if "track = Some t" for t
    using p that 1(3) by (auto simp: processCommand_def Let_def split: if_splits)
  show ?case
  proof (cases "k < length command \<and> \<not> stop")
    case True
    have "\<forall>t\<in>set (command_loop command k' syns wavs nm ref ex
        (case track of None \<Rightarrow> trs | Some t \<Rightarrow> trs @ [t])). P t"
      by (rule 1(1) [OF _ p [symmetric] refl]) (use True 1(2,3) P in \<open>auto split: option.splits\<close>)
    with True p show ?thesis by (simp add: command_loop.simps [of command k])
  next
    case False
    with p 1(2) show ?thesis by (auto simp: command_loop.simps [of command k])
  qed
qed

lemma extractTrackFromTrackRow_sound:
  assumes "extractTrackFromTrackRow tables nm ref i trs = Inr trs'"
    and "\<forall>t\<in>set trs. sound tables t"
    and "cue \<in> set (Rows (tb_cues tables))" and "ref = getIntField cue ''ReferenceIndex''"
  shows "\<forall>t\<in>set trs'. sound tables t"
proof -
  have new: "sound tables t"
    if "t \<in> set (extractTracksFromEvent event (tb_syns tables) (tb_wavs tables) nm ref trs)" for event t
  proof -
    have "\<forall>t\<in>set (command_loop command 0 (tb_syns tables) (tb_wavs tables) nm ref trs []). sound tables t"
      for command
      by (rule command_loop_sound)
        (use assms(3,4) in \<open>auto simp: sound_def dest!: extractTrackFromCommand_sound\<close>)
    with that show ?thesis by (auto simp: extractTracksFromEvent_def split: sum.splits)
  qed
  from assms(1,2) show ?thesis
    by (auto simp: extractTrackFromTrackRow_def bindR_Inr_iff Let_def new split: if_splits)
qed

lemma track_rows_loop_sound:
  assumes "cue \<in> set (Rows (tb_cues tables))" and "ref = getIntField cue ''ReferenceIndex''"
  shows "track_rows_loop tables nm ref is trs = Inr trs' \<Longrightarrow> \<forall>t\<in>set trs. sound tables t \<Longrightarrow>
    \<forall>t\<in>set trs'. sound tables t"
proof (induction "is" arbitrary: trs)
  case Nil
  then show ?case by simp
next
  case (Cons i "is")
  from Cons.prems(1) obtain u where u: "extractTrackFromTrackRow tables nm ref (int i) trs = Inr u"
      "track_rows_loop tables nm ref is u = Inr trs'"
    by (auto simp: bindR_Inr_iff)
  from Cons.IH [OF u(2) extractTrackFromTrackRow_sound [OF u(1) Cons.prems(2) assms]] show ?case .
qed

lemma sequence_loop_sound:
  assumes "cue \<in> set (Rows (tb_cues tables))" and "ref = getIntField cue ''ReferenceIndex''"
  shows "sequence_loop tables nm ref ti i n trs = Inr trs' \<Longrightarrow> \<forall>t\<in>set trs. sound tables t \<Longrightarrow>
    \<forall>t\<in>set trs'. sound tables t"
proof (induction n arbitrary: i trs)
  case 0
  then show ?case by simp
next
  case (Suc n)
  from Suc.prems(1) obtain idx u where idx: "index_be16 ti (i * 2) = Inr idx"
      and u: "(if length (Rows (tb_tras tables)) \<le> idx then Inr trs
        else extractTrackFromTrackRow tables nm ref (int idx) trs) = Inr u"
      "sequence_loop tables nm ref ti (Suc i) n u = Inr trs'"
    by (auto simp: bindR_Inr_iff)
  have "\<forall>t\<in>set u. sound tables t"
    using u(1) Suc.prems(2) extractTrackFromTrackRow_sound [OF _ Suc.prems(2) assms]
    by (auto split: if_splits)
  from Suc.IH [OF u(2) this] show ?case .
qed

lemma cue_loop_sound:
  "cue_loop tables nm cs trs = Inr trs' \<Longrightarrow> set cs \<subseteq> set (Rows (tb_cues tables)) \<Longrightarrow>
   \<forall>t\<in>set trs. sound tables t \<Longrightarrow> \<forall>t\<in>set trs'. sound tables t"
proof (induction cs arbitrary: trs)
  case Nil
  then show ?case by simp
next
  case (Cons c cs)
  let ?ref = "getIntField c ''ReferenceIndex''"
  from Cons.prems(1) obtain u where
    u: "(if tb_seqs tables \<noteq> None \<and> ?ref < int (length (rows_of (tb_seqs tables)))
         then extractSequenceTracks tables nm ?ref trs else extractDirectTracks tables nm ?ref trs) = Inr u"
      "cue_loop tables nm cs u = Inr trs'"
    by (auto simp: Let_def bindR_Inr_iff split: if_splits)
  have c: "c \<in> set (Rows (tb_cues tables))" using Cons.prems(2) by simp
  have "\<forall>t\<in>set u. sound tables t"
  proof (cases "tb_seqs tables \<noteq> None \<and> ?ref < int (length (rows_of (tb_seqs tables)))")
    case True
    then obtain s where "sequence_loop tables nm ?ref (bytes_or_nil s ''TrackIndex'') 0
         (nat (getIntField s ''NumTracks'')) trs = Inr u"
      using u(1) by (auto simp: extractSequenceTracks_def bindR_Inr_iff)
    from sequence_loop_sound [OF c refl this Cons.prems(3)] show ?thesis .
  next
    case False
    then have "track_rows_loop tables nm ?ref [0..<length (Rows (tb_tras tables))] trs = Inr u"
      using u(1) by (simp add: extractDirectTracks_def split: if_splits)
    from track_rows_loop_sound [OF c refl this Cons.prems(3)] show ?thesis .
  qed
  from Cons.IH [OF u(2) _ this] Cons.prems(2) show ?case by simp
qed

section \<open>Where the extraction panics\<close>

definition tables_sane :: "acbTables \<Rightarrow> bool" where
  "tables_sane tables \<longleftrightarrow>
     (\<forall>cue\<in>set (Rows (tb_cues tables)). tb_seqs tables = None \<or> 0 \<le> getIntField cue ''ReferenceIndex'') \<and>
     (\<forall>track\<in>set (Rows (tb_tras tables)). 0 \<le> getIntField track ''EventIndex'') \<and>
     (\<forall>s\<in>set (rows_of (tb_seqs tables)).
        2 * getIntField s ''NumTracks'' \<le> int (length (bytes_or_nil s ''TrackIndex'')))"

lemma extractTrackFromTrackRow_total:
  assumes "tables_sane tables" and "i < length (Rows (tb_tras tables))"
  shows "\<exists>u. extractTrackFromTrackRow tables nm ref (int i) trs = Inr u"
proof -
  have "0 \<le> getIntField (Rows (tb_tras tables) ! i) ''EventIndex''"
    using assms by (auto simp: tables_sane_def)
  then show ?thesis
    using assms(2) by (auto simp: extractTrackFromTrackRow_def index_get_def Let_def)
qed

lemma track_rows_loop_total:
  assumes "tables_sane tables"
  shows "\<forall>i\<in>set is. i < length (Rows (tb_tras tables)) \<Longrightarrow> \<exists>u. track_rows_loop tables nm ref is trs = Inr u"
proof (induction "is" arbitrary: trs)
  case Nil
  then show ?case by simp
next
  case (Cons i "is")
  from Cons.prems obtain u where "extractTrackFromTrackRow tables nm ref (int i) trs = Inr u"
    using extractTrackFromTrackRow_total [OF assms, of i nm ref trs] by auto
  with Cons show ?case by simp
qed

lemma sequence_loop_total:
  assumes "tables_sane tables"
  shows "2 * (i + n) \<le> length ti \<Longrightarrow> \<exists>u. sequence_loop tables nm ref ti i n trs = Inr u"
proof (induction n arbitrary: i trs)
  case 0
  then show ?case by simp
next
  case (Suc n)
  let ?idx = "be16 ti (i * 2)"
  have idx: "index_be16 ti (i * 2) = Inr ?idx" using Suc.prems by (simp add: index_be16_def)
  obtain u where "(if length (Rows (tb_tras tables)) \<le> ?idx then Inr trs
      else extractTrackFromTrackRow tables nm ref (int ?idx) trs) = Inr u"
    using extractTrackFromTrackRow_total [OF assms, of ?idx nm ref trs] by fastforce
  with idx Suc.IH [of "Suc i" u] Suc.prems show ?case by simp
qed

lemma double_nat_le: "2 * i \<le> int n \<Longrightarrow> 2 * (0 + nat i) \<le> n"
  using int_nat_eq [of i] by (cases "0 \<le> i") auto

lemma double_nat_less: "int n < 2 * i \<Longrightarrow> n < 2 * (0 + nat i)"
  using int_nat_eq [of i] by (cases "0 \<le> i") auto

lemma cue_loop_total:
  assumes "tables_sane tables"
  shows "set cs \<subseteq> set (Rows (tb_cues tables)) \<Longrightarrow>
    (\<exists>u. cue_loop tables nm cs trs = Inr u) \<or>
    cue_loop tables nm cs trs = Inl (Failure ''ReferenceType not implemented'')"
proof (induction cs arbitrary: trs)
  case Nil
  then show ?case by simp
next
  case (Cons c cs)
  let ?ref = "getIntField c ''ReferenceIndex''"
  have "\<exists>u. (if tb_seqs tables \<noteq> None \<and> ?ref < int (length (rows_of (tb_seqs tables)))
         then extractSequenceTracks tables nm ?ref trs else extractDirectTracks tables nm ?ref trs) = Inr u"
  proof (cases "tb_seqs tables \<noteq> None \<and> ?ref < int (length (rows_of (tb_seqs tables)))")
    case True
    with assms Cons.prems have ref: "0 \<le> ?ref" "nat ?ref < length (rows_of (tb_seqs tables))"
      by (auto simp: tables_sane_def)
    let ?s = "rows_of (tb_seqs tables) ! nat ?ref"
    from assms ref have "2 * getIntField ?s ''NumTracks'' \<le> int (length (bytes_or_nil ?s ''TrackIndex''))"
      by (auto simp: tables_sane_def)
    then have "2 * (0 + nat (getIntField ?s ''NumTracks'')) \<le> length (bytes_or_nil ?s ''TrackIndex'')"
      by (rule double_nat_le)
    from sequence_loop_total [OF assms this] True ref show ?thesis
      by (simp add: extractSequenceTracks_def index_get_def)
  next
    case False
    with track_rows_loop_total [OF assms, of "[0..<length (Rows (tb_tras tables))]" nm ?ref trs] show ?thesis
      by (auto simp: extractDirectTracks_def)
  qed
  then obtain u where u: "(if tb_seqs tables \<noteq> None \<and> ?ref < int (length (rows_of (tb_seqs tables)))
         then extractSequenceTracks tables nm ?ref trs else extractDirectTracks tables nm ?ref trs) = Inr u" ..
  show ?case
  proof (cases "getIntField c ''ReferenceType'' \<noteq> 3 \<and> getIntField c ''ReferenceType'' \<noteq> 8")
    case True
    then show ?thesis by simp
  next
    case False
    then have "cue_loop tables nm (c # cs) trs = cue_loop tables nm cs u"
      using u by (auto simp: Let_def)
    with Cons.IH [of u] Cons.prems show ?thesis by simp
  qed
qed

section \<open>The command stream\<close>

text \<open>A command as it is written: its code, the length of its parameters, the parameters.\<close>

definition encode_command :: "u16 \<times> bytes \<Rightarrow> bytes" where
  "encode_command c = be_bytes 2 (fst c) @ [of_nat (length (snd c))] @ snd c"

definition command_ok :: "u16 \<times> bytes \<Rightarrow> bool" where
  "command_ok c \<longleftrightarrow> fst c \<noteq> 0 \<and> length (snd c) < 256"

text \<open>What ends the stream: too few bytes for a command, or a command of code 0.\<close>

definition ends_commands :: "bytes \<Rightarrow> bool" where
  "ends_commands bs \<longleftrightarrow> length bs < 3 \<or> take 2 bs = [0, 0]"

definition run_command ::
    "UTFTable option \<Rightarrow> UTFTable option \<Rightarrow> (int \<rightharpoonup> string) \<Rightarrow> int \<Rightarrow> Track list \<Rightarrow> u16 \<times> bytes \<Rightarrow> Track list \<Rightarrow>
     Track list" where
  "run_command syns wavs nm ref ex c trs =
     (if fst c = 0x07d0 then
        (case extractTrackFromCommand (snd c) syns wavs nm ref ex trs of
           None \<Rightarrow> trs | Some t \<Rightarrow> trs @ [t])
      else trs)"

lemma be16_be_bytes: "drop i bs = be_bytes 2 (w :: u16) @ x \<Longrightarrow> be16 bs i = unat w"
  by (simp add: be16_def be_word_be_bytes)

lemma command_loop_commands:
  assumes "\<forall>c\<in>set cs. command_ok c" and "ends_commands rest"
  shows "drop k command = concat (map encode_command cs) @ rest \<Longrightarrow>
    command_loop command k syns wavs nm ref ex trs = fold (run_command syns wavs nm ref ex) cs trs"
  using assms(1)
proof (induction cs arbitrary: k trs)
  case Nil
  then have len: "length rest = length command - k" using arg_cong [OF Nil(1), of length]
    by (simp del: length_drop add: length_drop [symmetric])
  show ?case
  proof (cases "length command < k + 3")
    case True
    then show ?thesis by (simp add: command_loop.simps [of command k] processCommand_def)
  next
    case False
    with assms(2) len have "take 2 rest = [0, 0]" by (auto simp: ends_commands_def)
    with Nil have "be16 command k = 0" by (simp add: be16_def be_word_def)
    with False show ?thesis
      by (simp add: command_loop.simps [of command k] processCommand_def Let_def)
  qed
next
  case (Cons c cs)
  obtain code ps where c: "c = (code, ps)" by fastforce
  with Cons.prems have ok: "code \<noteq> 0" "length ps < 256" by (auto simp: command_ok_def)
  let ?n = "of_nat (length ps) :: u8"
  have n: "unat ?n = length ps" using ok by (simp add: unsigned_of_nat take_bit_nat_eq_self)
  have d: "drop k command = be_bytes 2 code @ [?n] @ ps @ concat (map encode_command cs) @ rest"
    using Cons.prems(1) by (simp add: c encode_command_def [of "(code, ps)"])
  from arg_cong [OF d, of length] have len: "k + 3 + length ps \<le> length command" by simp
  have code: "be16 command k = unat code" by (rule be16_be_bytes [OF d])
  have "command ! (k + 2) = drop k command ! 2" using len by simp
  also have "\<dots> = ?n" unfolding d by (simp add: nth_append)
  finally have l: "unat (command ! (k + 2)) = length ps" using n by simp
  have d3: "drop (k + 3) command = ps @ concat (map encode_command cs) @ rest"
  proof -
    have "drop (k + 3) command = drop 3 (drop k command)" by (simp add: add.commute)
    also have "\<dots> = ps @ concat (map encode_command cs) @ rest" unfolding d by simp
    finally show ?thesis .
  qed
  have d4: "drop (k + 3 + length ps) command = concat (map encode_command cs) @ rest"
  proof -
    have "drop (k + 3 + length ps) command = drop (length ps) (drop (k + 3) command)"
      by (simp add: add.commute)
    then show ?thesis unfolding d3 by simp
  qed
  have p: "take (length ps) (drop (k + 3) command) = ps" unfolding d3 by simp
  have code': "unat code = 2000 \<longleftrightarrow> code = 0x07d0"
    by (auto simp: word_unat_eq_iff)
  have "processCommand command k syns wavs nm ref ex trs =
    (if code = 0x07d0 then extractTrackFromCommand ps syns wavs nm ref ex trs else None,
     k + 3 + length ps, False)"
    using len code l p ok(1) code' by (simp add: processCommand_def Let_def unat_eq_0)
  moreover have "k < length command" using len by simp
  ultimately have "command_loop command k syns wavs nm ref ex trs =
      command_loop command (k + 3 + length ps) syns wavs nm ref ex (run_command syns wavs nm ref ex c trs)"
    by (subst command_loop.simps) (auto simp: run_command_def c split: option.splits)
  with Cons.IH [OF d4, of "run_command syns wavs nm ref ex c trs"] Cons.prems(2) show ?case by simp
qed

section \<open>Properties\<close>

text \<open>
  C33: every track that an ACB yields is sound: it describes a row of the waveform table (encoding,
  wave ID and port read from the fields that its streaming flag selects), and its cue ID is the
  reference index of a row of the cue table.
\<close>

theorem extracted_tracks_are_sound:
  assumes "extractTracksFromTables tables nm [] = Inr trs" and "t \<in> set trs"
  shows "sound tables t"
  using cue_loop_sound [OF assms(1) [unfolded extractTracksFromTables_def]] assms(2) by simp

definition sample_table :: "row list \<Rightarrow> UTFTable" where
  "sample_table rows = \<lparr>Header = \<lparr>TableSize = 0, Version = 0, RowOffset = 0, StringTableOffset = 0,
     DataOffset = 0, TableNameOffset = 0, NumberOfFields = 1, RowSize = 0, NumberOfRows = 1\<rparr>,
     table_Name = '''', DynamicKeys = [], Constants = [], Rows = rows, schema = []\<rparr>"

definition sample_tables :: acbTables where
  "sample_tables =
     \<lparr>tb_cues = sample_table [[''ReferenceType'' \<mapsto> VUint8 3]], tb_nams = sample_table [],
      tb_wavs = Some (sample_table [[''EncodeType'' \<mapsto> VUint8 2, ''MemoryAwbId'' \<mapsto> VUint16 5]]),
      tb_syns = Some (sample_table [[''ReferenceItems'' \<mapsto> VBytes [0, 1, 0, 0]]]),
      tb_tras = sample_table [Map.empty],
      tb_tevs = sample_table [[''Command'' \<mapsto> VBytes [0x07, 0xd0, 4, 0, 2, 0, 0]]],
      tb_seqs = None\<rparr>"

definition sample_track :: Track where
  "sample_track = \<lparr>tr_CueID = 0, tr_Name = ''UNKNOWN-0'', tr_WavID = 5, tr_EncType = 2,
     tr_IsStream = False, tr_StreamAwbID = -1\<rparr>"

lemma sample_tracks: "extractTracksFromTables sample_tables Map.empty [] = Inr [sample_track]"
  by code_simp

lemma extracted_tracks_are_sound_witness: "sound sample_tables sample_track"
  by (rule extracted_tracks_are_sound [OF sample_tracks]) simp



text \<open>
  Without that room it panics: a sequence that claims a track more than its index holds
  reads outside the slice, whatever else the tables contain.
\<close>

theorem short_track_index_panics:
  assumes "Rows (tb_tras tables) = []"
    and "tb_seqs tables = Some s" and "0 \<le> ref" and "ref < int (length (Rows s))"
    and "int (length (bytes_or_nil (Rows s ! nat ref) ''TrackIndex'')) <
         2 * getIntField (Rows s ! nat ref) ''NumTracks''"
  shows "extractSequenceTracks tables nm ref trs = Inl (Panic ''index out of range'')"
proof -
  have "sequence_loop tables nm ref ti i n trs = Inl (Panic ''index out of range'')"
    if "length ti < 2 * (i + n)" "2 * i \<le> length ti" for ti i n
    using that
  proof (induction n arbitrary: i)
    case 0
    then show ?case by simp
  next
    case (Suc n)
    show ?case
    proof (cases "2 * Suc i \<le> length ti")
      case True
      with Suc.IH [of "Suc i"] Suc.prems assms(1) show ?thesis by (simp add: index_be16_def)
    next
      case False
      then show ?thesis by (simp add: index_be16_def)
    qed
  qed
  moreover have "length (bytes_or_nil (Rows s ! nat ref) ''TrackIndex'') <
      2 * (0 + nat (getIntField (Rows s ! nat ref) ''NumTracks''))"
    using assms(5) by (rule double_nat_less)
  ultimately show ?thesis
    using assms by (simp add: extractSequenceTracks_def rows_of_def index_get_def)
qed

lemma short_track_index_panics_witness:
  "extractSequenceTracks (sample_tables\<lparr>tb_tras := sample_table [],
      tb_seqs := Some (sample_table [[''NumTracks'' \<mapsto> VUint16 1]])\<rparr>) Map.empty 0 [] =
   Inl (Panic ''index out of range'')"
  by (rule short_track_index_panics [where s = "sample_table [[''NumTracks'' \<mapsto> VUint16 1]]"])
    (simp_all add: sample_table_def getIntField_def bytes_or_nil_def getBytesField_def)

text \<open>
  The command stream is walked command by command. For any sequence of commands with
  parameters of at most 255 bytes, followed by too few bytes for another one or by a command of
  code 0, each command of code \<open>0x07d0\<close> is evaluated once, in order, and nothing else is.
\<close>

theorem command_stream_is_walked:
  assumes "\<forall>c\<in>set cs. command_ok c" and "ends_commands rest"
    and "event ''Command'' = Some (VBytes (concat (map encode_command cs) @ rest))"
  shows "extractTracksFromEvent event syns wavs nm ref ex = fold (run_command syns wavs nm ref ex) cs []"
  using command_loop_commands [OF assms(1,2), of 0] assms(3)
  by (simp add: extractTracksFromEvent_def getBytesField_def)

lemma command_stream_is_walked_witness:
  "extractTracksFromEvent [''Command'' \<mapsto> VBytes [0, 5, 1, 9, 0x07, 0xd0, 4, 0, 2, 0, 0, 0, 0, 0, 1]]
     (tb_syns sample_tables) (tb_wavs sample_tables) Map.empty 0 [] = [sample_track]"
proof -
  let ?cs = "[(5, [9]), (0x07d0, [0, 2, 0, 0])] :: (u16 \<times> bytes) list"
  have ok: "\<forall>c\<in>set ?cs. command_ok c" by (simp add: command_ok_def)
  have ends: "ends_commands [0, 0, 0, 1]" by (simp add: ends_commands_def)
  have "concat (map encode_command ?cs) @ [0, 0, 0, 1] =
      [0, 5, 1, 9, 0x07, 0xd0, 4, 0, 2, 0, 0, 0, 0, 0, 1]" by code_simp
  then have "[''Command'' \<mapsto> VBytes [0, 5, 1, 9, 0x07, 0xd0, 4, 0, 2, 0, 0, 0, 0, 0, 1]] ''Command'' =
      Some (VBytes (concat (map encode_command ?cs) @ [0, 0, 0, 1]))" by simp
  note run = command_stream_is_walked [where syns = "tb_syns sample_tables" and wavs = "tb_wavs sample_tables"
      and nm = Map.empty and ref = 0 and ex = "[]" and event = "[''Command'' \<mapsto> VBytes [0, 5, 1, 9, 0x07, 0xd0, 4, 0, 2, 0, 0, 0, 0, 0, 1]]"
      and cs = ?cs and rest = "[0, 0, 0, 1]", OF ok ends this]
  show ?thesis unfolding run by code_simp
qed

text \<open>
  The name of a new track is the name of its cue, or that name with the wave ID; it is one
  already taken exactly when both are taken. So a third track of a cue with the wave ID of the
  second gets the second one's name, and its file overwrites the other.
\<close>

theorem unique_name_collides_iff:
  "generateUniqueName name ref wavID ex cur \<in> tr_Name ` set (ex @ cur) \<longleftrightarrow>
     (let base = if name = '''' then ''UNKNOWN-'' @ show_int ref else name
      in base \<in> tr_Name ` set (ex @ cur) \<and> base @ ''-'' @ show_int wavID \<in> tr_Name ` set (ex @ cur))"
  by (auto simp: generateUniqueName_def Let_def)

text \<open>
  The data of a track held in memory is the contents of the archive's file with its wave ID,
  for every archive that is written with distinct IDs.
\<close>

theorem track_data_from_archive:
  assumes "0 < al" and "al < 2 ^ 32" and "length (afs_encode al files) < 2 ^ 32"
    and "distinct (map fst files)" and "(c, content) \<in> set files"
    and "\<not> tr_IsStream track" and "tr_WavID track = uint c"
  shows "\<exists>a. open_archive (afs_encode al files) = Inr (Some a) \<and>
    getTrackData track (Some a) externalAwbs = Some content"
proof -
  from afs_archive [OF assms(1,3,2,4,5)] obtain a r' where
    a: "NewAFSArchive bytes_ops (new_reader (afs_encode al files)) = (Inr a, r')"
    and f: "\<forall>p. FileDataForCueID bytes_ops a (uint c) (r'\<lparr>br_pos := p\<rparr>) = ((content, None), r'\<lparr>br_pos := p\<rparr>)"
    by blast
  from f [rule_format, of "br_pos r'"]
  have "FileDataForCueID bytes_ops a (uint c) r' = ((content, None), r')" by simp
  with a assms(6,7) show ?thesis
    by (simp add: open_archive_def getTrackData_def archive_data_def)
qed

lemma track_data_from_archive_witness:
  "\<exists>a. open_archive (afs_encode 32 [(3, [1]), (5, [7, 7])]) = Inr (Some a) \<and>
    getTrackData sample_track (Some a) [] = Some [7, 7]"
proof -
  have "length (afs_encode 32 [(3, [1]), (5, [7, 7])]) < 2 ^ 32"
    by (simp add: afs_encode_def afs_header_size_def align_nat_def ceil_div_def)
  from track_data_from_archive [OF _ _ this, of 5 "[7, 7]" sample_track "[]"]
  show ?thesis by (simp add: sample_track_def)
qed

end
