(* ===== verification/ResultPath.thy ===== *)
theory ResultPath
  imports GoPath "HOL-Library.List_Lexorder" "HOL-Library.Char_ord"
begin

text \<open>
  The result side of \<open>internal/unpack/unpacker.go\<close>: the names of task directories and of result
  files, the manifest, its checks, and the archive that is uploaded with it.

  A walk of the export directory is the list of its regular files in the order of
  \<open>filepath.WalkDir\<close>: the path relative to the root, and what reading the file gives (its
  bytes, or the error of the walk, of \<open>Info\<close>, of the open or of the copy). SHA-256 is the
  parameter \<open>sha\<close>.
\<close>

section \<open>Names\<close>

definition safeRune :: "nat \<Rightarrow> nat" where
  "safeRune r =
     (if (97 \<le> r \<and> r \<le> 122) \<or> (65 \<le> r \<and> r \<le> 90) \<or> (48 \<le> r \<and> r \<le> 57) \<or> r = 45 \<or> r = 95 \<or> r = 46
      then r else 95)"

definition safeName :: "string \<Rightarrow> string" where
  "safeName s = stringsMap safeRune s"

definition sanitizeRune :: "nat \<Rightarrow> nat" where
  "sanitizeRune r = (if r = 58 \<or> r = 92 then 95 else if r < 0x20 \<or> r = 0x7f then 95 else r)"

definition sanitizeResultPathPart :: "string \<Rightarrow> string" where
  "sanitizeResultPathPart part = stringsMap sanitizeRune part"

definition sanitizeResultRelativePath :: "string \<Rightarrow> go_err + string" where
  "sanitizeResultRelativePath rel =
     (let cleaned = Clean rel in
      if cleaned = ''.'' \<or> hasPrefix cleaned ''../'' \<or> cleaned = ''..'' \<or> hasPrefix cleaned ''/''
      then Inl (Failure ''unsafe result path'')
      else
        let parts = map sanitizeResultPathPart (splitSlash cleaned)
        in if \<exists>p\<in>set parts. p = '''' \<or> p = ''.'' \<or> p = ''..''
           then Inl (Failure ''unsafe result path component'')
           else Inr (joinWith ''/'' parts))"

text \<open>The directories of a task, as \<open>Process\<close> names them.\<close>

definition taskDir :: "string \<Rightarrow> string \<Rightarrow> string" where
  "taskDir root taskID = Join [root, ''tasks'', safeName taskID]"

definition bundlePath :: "string \<Rightarrow> string \<Rightarrow> string \<Rightarrow> string" where
  "bundlePath root taskID bundle =
     Join [taskDir root taskID, ''bundle'', Base bundle @ ''.bundle'']"

definition exportRoot :: "string \<Rightarrow> string \<Rightarrow> string" where
  "exportRoot root taskID = Join [taskDir root taskID, ''export'']"

section \<open>The manifest\<close>

record ResultFile =
  rf_Path :: string
  rf_Size :: int
  rf_SHA256 :: string

type_synonym walk = "(string \<times> (go_err + bytes)) list"

fun manifest_files :: "(bytes \<Rightarrow> string) \<Rightarrow> walk \<Rightarrow> go_err + ResultFile list" where
  "manifest_files sha [] = Inr []"
| "manifest_files sha ((rel, content) # w) =
     bindR (sanitizeResultRelativePath rel) (\<lambda>path.
     bindR content (\<lambda>bytes.
     bindR (manifest_files sha w) (\<lambda>fs.
       Inr (\<lparr>rf_Path = path, rf_Size = int (length bytes), rf_SHA256 = sha bytes\<rparr> # fs))))"

fun reject_dup :: "string set \<Rightarrow> ResultFile list \<Rightarrow> go_err option" where
  "reject_dup seen [] = None"
| "reject_dup seen (f # fs) =
     (if rf_Path f \<in> seen then Some (Failure ''duplicate sanitized manifest path'')
      else reject_dup (insert (rf_Path f) seen) fs)"

definition rejectDuplicateResultPaths :: "ResultFile list \<Rightarrow> go_err option" where
  "rejectDuplicateResultPaths fs = reject_dup {} fs"

text \<open>
  The files of \<open>buildManifest\<close>. The keys differ when it sorts, so any sorting by path gives the
  same list.
\<close>

definition buildManifest :: "(bytes \<Rightarrow> string) \<Rightarrow> walk \<Rightarrow> go_err + ResultFile list" where
  "buildManifest sha w =
     bindR (manifest_files sha w) (\<lambda>fs.
       case rejectDuplicateResultPaths fs of
         Some e \<Rightarrow> Inl e
       | None \<Rightarrow> Inr (sort_key rf_Path fs))"

text \<open>\<open>createArchive\<close>: the entries of the tar file, in the order of the walk.\<close>

fun archive_files :: "string set \<Rightarrow> walk \<Rightarrow> go_err + (string \<times> bytes) list" where
  "archive_files seen [] = Inr []"
| "archive_files seen ((rel, content) # w) =
     bindR (sanitizeResultRelativePath rel) (\<lambda>archiveName.
       if archiveName \<in> seen then Inl (Failure ''duplicate sanitized archive path'')
       else
         bindR content (\<lambda>bytes.
         bindR (archive_files (insert archiveName seen) w) (\<lambda>es. Inr ((archiveName, bytes) # es))))"

definition createArchive :: "walk \<Rightarrow> go_err + (string \<times> bytes) list" where
  "createArchive w = archive_files {} w"

section \<open>The expected outputs\<close>

record ExportOptions =
  ExportByCategory :: bool
  UnityVersion :: string
  ExportMeshOBJ :: bool
  MeshOBJPathPatterns :: "string list"
  ExportUSMFiles :: bool
  DecodeUSMFiles :: bool
  ExportACBFiles :: bool
  DecodeACBFiles :: bool
  DecodeHCAFiles :: bool
  ConvertPhotoToWebP :: bool
  RemovePNG :: bool
  ConvertVideoToMP4 :: bool
  DirectUSMToMP4WithFFmpeg :: bool
  RemoveM2V :: bool
  ConvertAudioToMP3 :: bool
  ConvertWavToFLAC :: bool
  RemoveWav :: bool

definition countExt :: "ResultFile list \<Rightarrow> string \<Rightarrow> nat" where
  "countExt fs ext = length (filter (\<lambda>f. toLower (Ext (rf_Path f)) = ext) fs)"

definition hasExt :: "ResultFile list \<Rightarrow> string \<Rightarrow> bool" where
  "hasExt fs ext \<longleftrightarrow> 0 < countExt fs ext"

definition validateExpectedManifestOutputs :: "ResultFile list \<Rightarrow> ExportOptions \<Rightarrow> go_err option" where
  "validateExpectedManifestOutputs fs export =
     (if ConvertAudioToMP3 export \<and> ExportACBFiles export \<and> DecodeACBFiles export \<and>
         hasExt fs ''.wav'' \<and> \<not> hasExt fs ''.mp3''
      then Some (Failure ''expected MP3 output before upload'')
      else if ConvertWavToFLAC export \<and> ExportACBFiles export \<and> DecodeACBFiles export \<and>
         hasExt fs ''.wav'' \<and> \<not> hasExt fs ''.flac''
      then Some (Failure ''expected FLAC output before upload'')
      else if RemoveWav export \<and> (ConvertAudioToMP3 export \<or> ConvertWavToFLAC export) \<and>
         hasExt fs ''.wav''
      then Some (Failure ''expected WAV files to be removed before upload'')
      else if ConvertVideoToMP4 export \<and> hasExt fs ''.m2v'' \<and> \<not> hasExt fs ''.mp4''
      then Some (Failure ''expected MP4 output before upload'')
      else if ConvertPhotoToWebP export \<and> RemovePNG export \<and> hasExt fs ''.png'' \<and> \<not> hasExt fs ''.webp''
      then Some (Failure ''expected WebP output before upload'')
      else None)"

section \<open>Sanitized names\<close>

lemma valid_safeRune: "valid_rune r \<Longrightarrow> valid_rune (safeRune r)"
  by (auto simp: safeRune_def valid_rune_def)

lemma valid_sanitizeRune: "valid_rune r \<Longrightarrow> valid_rune (sanitizeRune r)"
  by (auto simp: sanitizeRune_def valid_rune_def)

lemma sanitizeRune_idem [simp]: "sanitizeRune (sanitizeRune r) = sanitizeRune r"
  by (simp add: sanitizeRune_def)

lemma safeRune_idem [simp]: "safeRune (safeRune r) = safeRune r"
  by (simp add: safeRune_def)

lemma stringsMap_idem:
  assumes "\<And>r. valid_rune r \<Longrightarrow> valid_rune (f r)" and "\<And>r. f (f r) = f r"
  shows "stringsMap f (stringsMap f s) = stringsMap f s"
proof (rule stringsMap_id)
  show "valid_utf8 (stringsMap f s)" by (rule valid_utf8_map) (rule assms(1))
  show "f r = r" if "r \<in> set (string_runes (stringsMap f s))" for r
    using that assms(2) by (auto simp: string_runes_map [of f, OF assms(1)])
qed

definition unsafe_char :: "char \<Rightarrow> bool" where
  "unsafe_char c \<longleftrightarrow> (let n = of_char c :: nat in n = 58 \<or> n = 92 \<or> n < 0x20 \<or> n = 0x7f)"

lemma sanitized_part_chars:
  assumes "c \<in> set (sanitizeResultPathPart part)"
  shows "\<not> unsafe_char c"
proof
  assume u: "unsafe_char c"
  then have "of_char c < (0x80 :: nat)" by (auto simp: unsafe_char_def Let_def)
  from stringsMap_ascii [OF assms [unfolded sanitizeResultPathPart_def] this valid_sanitizeRune]
  obtain r where "of_char c = sanitizeRune r" by blast
  with u show False by (auto simp: unsafe_char_def sanitizeRune_def Let_def split: if_splits)
qed

lemma sanitized_part_slash:
  assumes "CHR ''/'' \<notin> set part"
  shows "CHR ''/'' \<notin> set (sanitizeResultPathPart part)"
proof
  assume "CHR ''/'' \<in> set (sanitizeResultPathPart part)"
  from stringsMap_ascii [OF this [unfolded sanitizeResultPathPart_def] _ valid_sanitizeRune]
  obtain r where r: "r \<in> set (string_runes part)" "47 = sanitizeRune r" by auto
  then have "r = 47" by (auto simp: sanitizeRune_def split: if_splits)
  with string_runes_ascii [OF r(1)] have "char_of (47 :: nat) \<in> set part" by simp
  moreover have "char_of (47 :: nat) = CHR ''/''" using char_of_char [of "CHR ''/''"] by simp
  ultimately show False using assms by simp
qed

lemma sanitize_Inr:
  assumes "sanitizeResultRelativePath rel = Inr p"
  shows "\<exists>ps. names ps \<and> Clean rel = joinWith ''/'' ps \<and>
    names (map sanitizeResultPathPart ps) \<and> p = joinWith ''/'' (map sanitizeResultPathPart ps)"
proof -
  from assms have c: "Clean rel \<noteq> ''.''" "\<not> hasPrefix (Clean rel) ''../''" "Clean rel \<noteq> ''..''"
      "\<not> hasPrefix (Clean rel) ''/''"
    and ok: "\<not> (\<exists>q\<in>set (map sanitizeResultPathPart (splitSlash (Clean rel))).
        q = '''' \<or> q = ''.'' \<or> q = ''..'')"
    and p: "p = joinWith ''/'' (map sanitizeResultPathPart (splitSlash (Clean rel)))"
    unfolding sanitizeResultRelativePath_def Let_def by (simp_all split: if_splits)
  from Clean_safe [OF c] obtain ps where ps: "names ps" "Clean rel = joinWith ''/'' ps" by blast
  have sp: "splitSlash (Clean rel) = ps"
    unfolding ps(2) by (rule splitSlash_joinWith) (use ps(1) in \<open>simp_all add: names_def\<close>)
  have "names (map sanitizeResultPathPart ps)"
    unfolding names_def
  proof (intro conjI ballI)
    show "map sanitizeResultPathPart ps \<noteq> []" using ps(1) by (simp add: names_def)
    fix q assume q: "q \<in> set (map sanitizeResultPathPart ps)"
    with ok sp show "proper q" unfolding proper_def by blast
    from q ps(1) show "CHR ''/'' \<notin> set q" by (auto simp: names_def sanitized_part_slash)
  qed
  with ps p sp show ?thesis by metis
qed

lemma set_joinWith: "set (joinWith ''/'' ps) \<subseteq> insert (CHR ''/'') (\<Union> (set ` set ps))"
  by (induction "''/''" ps rule: joinWith.induct) auto

section \<open>Properties of the names\<close>

lemma sanitized_path:
  assumes "sanitizeResultRelativePath rel = Inr p"
  shows "names (splitSlash p) \<and> (\<forall>c\<in>set p. \<not> unsafe_char c) \<and>
    sanitizeResultRelativePath p = Inr p \<and> p = joinWith ''/'' (splitSlash p)"
proof -
  from sanitize_Inr [OF assms] obtain ps where
    n: "names (map sanitizeResultPathPart ps)" and p: "p = joinWith ''/'' (map sanitizeResultPathPart ps)"
    by blast
  let ?qs = "map sanitizeResultPathPart ps"
  have sp: "splitSlash p = ?qs"
    unfolding p by (rule splitSlash_joinWith) (use n in \<open>simp_all add: names_def\<close>)
  have "\<not> unsafe_char c" if "c \<in> set p" for c
  proof -
    from that p set_joinWith [of ?qs] have "c = CHR ''/'' \<or> (\<exists>part\<in>set ps. c \<in> set (sanitizeResultPathPart part))"
      by auto
    then show ?thesis
      using sanitized_part_chars by (auto simp: unsafe_char_def)
  qed
  moreover have "sanitizeResultRelativePath p = Inr p"
  proof -
    have C: "Clean p = p" unfolding p by (rule Clean_names [OF n])
    have no: "\<not> (p = ''.'' \<or> hasPrefix p ''../'' \<or> p = ''..'' \<or> hasPrefix p ''/'')"
    proof -
      have np: "q \<noteq> ''.''" "q \<noteq> ''..''" if "q \<in> set (splitSlash p)" for q
        using that n unfolding sp names_def proper_def by blast+
      have "p \<noteq> ''.''"
      proof
        assume "p = ''.''"
        then have "''.'' \<in> set (splitSlash p)" by simp
        with np(1) show False by blast
      qed
      moreover have "p \<noteq> ''..''"
      proof
        assume "p = ''..''"
        then have "''..'' \<in> set (splitSlash p)" by simp
        with np(2) show False by blast
      qed
      moreover have "\<not> hasPrefix p ''../''"
      proof
        assume "hasPrefix p ''../''"
        then obtain r where "p = ''..'' @ CHR ''/'' # r" by (auto simp: hasPrefix_iff)
        then have "''..'' \<in> set (splitSlash p)" by (simp add: splitSlash_join2)
        with np(2) show False by blast
      qed
      moreover have "\<not> hasPrefix p ''/''" unfolding p by (rule names_not_slash [OF n])
      ultimately show ?thesis by blast
    qed
    have id: "map sanitizeResultPathPart ?qs = ?qs"
      using stringsMap_idem [of sanitizeRune, OF valid_sanitizeRune]
      by (simp add: sanitizeResultPathPart_def)
    have "\<not> (\<exists>q\<in>set ?qs. q = '''' \<or> q = ''.'' \<or> q = ''..'')"
      using n unfolding names_def proper_def by blast
    then show ?thesis
      unfolding sanitizeResultRelativePath_def Let_def C if_not_P [OF no] sp id
      by (simp only: if_False p)
  qed
  ultimately show ?thesis using n sp p by metis
qed

text \<open>
  C36: a result path that passes the sanitizer is safe to unpack. It consists of at least one
  component, none of them empty, \<open>.\<close> or \<open>..\<close>, and has no control character, colon or backslash;
  sanitizing it again changes nothing; and joined to any directory it leads to a path below that
  directory, by exactly its components.
\<close>

theorem sanitized_path_is_safe:
  assumes "sanitizeResultRelativePath rel = Inr p" and "root \<noteq> ''''"
  shows "names (splitSlash p) \<and> (\<forall>c\<in>set p. \<not> unsafe_char c) \<and>
    sanitizeResultRelativePath p = Inr p \<and>
    stack_of (Join [root, p]) = rev (splitSlash p) @ stack_of root"
  using sanitized_path [OF assms(1)] stack_of_Join_names [OF assms(2), of "splitSlash p"] by simp

lemma sanitized_path_is_safe_witness:
  "sanitizeResultRelativePath ''a/../b:c//d'' = Inr ''b_c/d'' \<and>
   stack_of (Join [''/out'', ''b_c/d'']) = [''d'', ''b_c'', ''out'']"
proof -
  have run: "sanitizeResultRelativePath ''a/../b:c//d'' = Inr ''b_c/d''" by code_simp
  from sanitized_path_is_safe [OF this, of "''/out''"]
  have "stack_of (Join [''/out'', ''b_c/d'']) = rev (splitSlash ''b_c/d'') @ stack_of ''/out''" by simp
  also have "\<dots> = [''d'', ''b_c'', ''out'']" by code_simp
  finally show ?thesis using run by simp
qed

lemma safeName_no_slash: "CHR ''/'' \<notin> set (safeName s)"
proof
  assume "CHR ''/'' \<in> set (safeName s)"
  from stringsMap_ascii [OF this [unfolded safeName_def] _ valid_safeRune]
  show False by (auto simp: safeRune_def split: if_splits)
qed

lemma stack_of_taskDir:
  assumes "root \<noteq> ''''"
  shows "stack_of (taskDir root taskID) =
      cleanStep (rooted root) (safeName taskID) (''tasks'' # stack_of root)"
    and "rooted (taskDir root taskID) = rooted root"
proof -
  have t: "taskDir root taskID = Join [root, ''tasks'' @ CHR ''/'' # safeName taskID]"
    using assms by (simp add: taskDir_def Join_def)
  have sp: "splitSlash (''tasks'' @ CHR ''/'' # safeName taskID) = [''tasks'', safeName taskID]"
    unfolding splitSlash_join2 splitSlash_single [OF safeName_no_slash] by simp
  have st: "cleanStep (rooted root) ''tasks'' (stack_of root) = ''tasks'' # stack_of root"
    by (simp add: cleanStep_def)
  show "stack_of (taskDir root taskID) =
      cleanStep (rooted root) (safeName taskID) (''tasks'' # stack_of root)"
    unfolding t stack_of_Join(1) [OF assms] sp using st by simp
  show "rooted (taskDir root taskID) = rooted root"
    unfolding t by (rule stack_of_Join(2) [OF assms])
qed

lemma taskDir_clean: "root \<noteq> '''' \<Longrightarrow> taskDir root taskID = render (rooted root) (stack_of (taskDir root taskID))"
proof -
  assume r: "root \<noteq> ''''"
  then have "Clean (taskDir root taskID) = taskDir root taskID"
    by (simp add: taskDir_def Join_def)
  then show ?thesis using Clean_render [of "taskDir root taskID"] stack_of_taskDir(2) [OF r] by simp
qed

text \<open>
  A task whose safe name is a proper path component has its directory directly below
  \<open>tasks\<close> in the workspace. The safe names \<open>.\<close>, \<open>..\<close> and the empty one are not rejected: with
  them the task directory, which is removed when the task is done, is the \<open>tasks\<close> directory of
  all tasks, or the workspace root itself.
\<close>

theorem task_dir_in_workspace:
  assumes "root \<noteq> ''''"
  shows "(proper (safeName taskID) \<longrightarrow>
      stack_of (taskDir root taskID) = safeName taskID # ''tasks'' # stack_of root) \<and>
    (safeName taskID = '''' \<or> safeName taskID = ''.'' \<longrightarrow> taskDir root taskID = Join [root, ''tasks'']) \<and>
    (safeName taskID = ''..'' \<longrightarrow> taskDir root taskID = Clean root)"
proof (intro conjI impI)
  assume "proper (safeName taskID)"
  then show "stack_of (taskDir root taskID) = safeName taskID # ''tasks'' # stack_of root"
    unfolding stack_of_taskDir(1) [OF assms] by (simp add: cleanStep_def proper_def)
next
  assume "safeName taskID = '''' \<or> safeName taskID = ''.''"
  then have "stack_of (taskDir root taskID) = ''tasks'' # stack_of root"
    unfolding stack_of_taskDir(1) [OF assms] by (auto simp: cleanStep_def)
  moreover have "Join [root, ''tasks''] = render (rooted root) (''tasks'' # stack_of root)"
    using assms by (simp add: Join_def Clean_below [where b = "''tasks''"] cleanStep_def)
  ultimately show "taskDir root taskID = Join [root, ''tasks'']"
    using taskDir_clean [OF assms, of taskID] by simp
next
  assume "safeName taskID = ''..''"
  then have "stack_of (taskDir root taskID) = stack_of root"
    unfolding stack_of_taskDir(1) [OF assms] by (simp add: cleanStep_def)
  then show "taskDir root taskID = Clean root"
    using taskDir_clean [OF assms, of taskID] by (simp add: Clean_render)
qed

lemma task_dir_in_workspace_witness: "taskDir ''/srv/moe'' ''..'' = ''/srv/moe''"
proof -
  have "safeName ''..'' = ''..''" "Clean ''/srv/moe'' = ''/srv/moe''" by code_simp+
  with task_dir_in_workspace [of "''/srv/moe''" "''..''"] show ?thesis by simp
qed

section \<open>Properties of the manifest\<close>

definition result_file :: "(bytes \<Rightarrow> string) \<Rightarrow> string \<times> bytes \<Rightarrow> ResultFile" where
  "result_file sha e =
     \<lparr>rf_Path = fst e, rf_Size = int (length (snd e)), rf_SHA256 = sha (snd e)\<rparr>"

lemma rf_Path_result_file [simp]: "rf_Path (result_file sha e) = fst e"
  by (simp add: result_file_def)

lemma reject_dup_None:
  "reject_dup seen fs = None \<longleftrightarrow> distinct (map rf_Path fs) \<and> rf_Path ` set fs \<inter> seen = {}"
  by (induction fs arbitrary: seen) auto

lemma archive_manifest:
  "archive_files seen w = Inr es \<Longrightarrow>
   manifest_files sha w = Inr (map (result_file sha) es) \<and>
   distinct (map fst es) \<and> fst ` set es \<inter> seen = {}"
proof (induction seen w arbitrary: es rule: archive_files.induct)
  case (1 seen)
  then show ?case by simp
next
  case (2 seen rel content w)
  from 2(2) obtain n b es' where n: "sanitizeResultRelativePath rel = Inr n" "n \<notin> seen"
      "content = Inr b" "archive_files (insert n seen) w = Inr es'" "es = (n, b) # es'"
    by (auto simp: bindR_Inr_iff split: if_splits)
  from 2(1) [OF n(1,2,3,4)] n show ?case by (auto simp: result_file_def)
qed

lemma manifest_archive:
  "manifest_files sha w = Inr fs \<Longrightarrow> distinct (map rf_Path fs) \<Longrightarrow> rf_Path ` set fs \<inter> seen = {} \<Longrightarrow>
   \<exists>es. archive_files seen w = Inr es"
proof (induction sha w arbitrary: fs seen rule: manifest_files.induct)
  case (1 sha)
  then show ?case by simp
next
  case (2 sha rel content w)
  from 2(2) obtain n b fs' where n: "sanitizeResultRelativePath rel = Inr n" "content = Inr b"
      "manifest_files sha w = Inr fs'" "fs = \<lparr>rf_Path = n, rf_Size = int (length b), rf_SHA256 = sha b\<rparr> # fs'"
    by (auto simp: bindR_Inr_iff)
  have "\<exists>es. archive_files (insert n seen) w = Inr es"
    by (rule 2(1) [OF n(1,2,3)]) (use 2(3,4) n(4) in auto)
  with n 2(3,4) show ?case by auto
qed

text \<open>
  C37: the manifest describes the archive. For the same walk of the export directory, the
  manifest is built exactly when the archive is; and then it lists the archive's entries, each
  with its length and its hash, sorted by path and with no path twice.
\<close>

theorem manifest_describes_archive:
  "case createArchive w of
     Inl e \<Rightarrow> (\<exists>e'. buildManifest sha w = Inl e')
   | Inr es \<Rightarrow>
       buildManifest sha w = Inr (sort_key rf_Path (map (result_file sha) es)) \<and> distinct (map fst es)"
proof (cases "createArchive w")
  case (Inl e)
  have "\<exists>e'. buildManifest sha w = Inl e'"
  proof (rule ccontr)
    assume "\<not> ?thesis"
    then obtain fs where "manifest_files sha w = Inr fs" "rejectDuplicateResultPaths fs = None"
      by (cases "buildManifest sha w") (auto simp: buildManifest_def bindR_Inr_iff split: option.splits)
    with manifest_archive [of sha w fs "{}"] obtain es where "createArchive w = Inr es"
      by (auto simp: rejectDuplicateResultPaths_def reject_dup_None createArchive_def)
    with Inl show False by simp
  qed
  with Inl show ?thesis by simp
next
  case (Inr es)
  from archive_manifest [OF Inr [unfolded createArchive_def], of sha]
  have m: "manifest_files sha w = Inr (map (result_file sha) es)" "distinct (map fst es)" by auto
  then have "rejectDuplicateResultPaths (map (result_file sha) es) = None"
    by (auto simp: rejectDuplicateResultPaths_def reject_dup_None o_def)
  with m Inr show ?thesis by (simp add: buildManifest_def)
qed

text \<open>
  Every path in a manifest is one the sanitizer leaves alone, so the server that unpacks the
  result stays below its own root.
\<close>

theorem manifest_paths_safe:
  assumes "buildManifest sha w = Inr fs" and "f \<in> set fs"
  shows "sanitizeResultRelativePath (rf_Path f) = Inr (rf_Path f) \<and> names (splitSlash (rf_Path f))"
proof -
  from assms obtain fs' where m: "manifest_files sha w = Inr fs'" "set fs = set fs'"
    by (auto simp: buildManifest_def bindR_Inr_iff split: option.splits)
  have "\<exists>rel. sanitizeResultRelativePath rel = Inr (rf_Path f)"
    if "manifest_files sha w = Inr fs'" "f \<in> set fs'" for fs'
    using that
  proof (induction sha w arbitrary: fs' rule: manifest_files.induct)
    case (1 sha)
    then show ?case by simp
  next
    case (2 sha rel content w)
    from 2(2) obtain n b fs'' where n: "sanitizeResultRelativePath rel = Inr n" "content = Inr b"
        "manifest_files sha w = Inr fs''" "fs' = \<lparr>rf_Path = n, rf_Size = int (length b), rf_SHA256 = sha b\<rparr> # fs''"
      by (auto simp: bindR_Inr_iff)
    show ?case
    proof (cases "f \<in> set fs''")
      case True
      with 2(1) [OF n(1,2,3)] show ?thesis by blast
    next
      case False
      with 2(3) n(1,4) show ?thesis by auto
    qed
  qed
  with m assms(2) obtain rel where rel: "sanitizeResultRelativePath rel = Inr (rf_Path f)" by blast
  from sanitized_path [OF rel] show ?thesis by blast
qed

lemma manifest_paths_safe_witness:
  "buildManifest (\<lambda>b. '''') [(''b'', Inr [1]), (''./a:x'', Inr [])] =
     Inr [\<lparr>rf_Path = ''a_x'', rf_Size = 0, rf_SHA256 = ''''\<rparr>, \<lparr>rf_Path = ''b'', rf_Size = 1, rf_SHA256 = ''''\<rparr>] \<and>
   names (splitSlash ''a_x'')"
proof -
  have m: "buildManifest (\<lambda>b. '''') [(''b'', Inr [1]), (''./a:x'', Inr [])] =
     Inr [\<lparr>rf_Path = ''a_x'', rf_Size = 0, rf_SHA256 = ''''\<rparr>, \<lparr>rf_Path = ''b'', rf_Size = 1, rf_SHA256 = ''''\<rparr>]"
    by code_simp
  from manifest_paths_safe [OF m, of "\<lparr>rf_Path = ''a_x'', rf_Size = 0, rf_SHA256 = ''''\<rparr>"] m
  show ?thesis by simp
qed

text \<open>
  The checks before the upload. A manifest that passes has, when WAV files are to be
  converted and removed, no WAV file at all; when an MP3 (FLAC) conversion of decoded audio is
  asked for, it has no WAV file without an MP3 (FLAC) file; likewise for the video and picture
  conversions. Conversely these conditions are all that is checked.
\<close>

theorem validated_manifest_outputs:
  "validateExpectedManifestOutputs fs export = None \<longleftrightarrow>
     (let has = \<lambda>ext. \<exists>f\<in>set fs. toLower (Ext (rf_Path f)) = ext;
          audio = ExportACBFiles export \<and> DecodeACBFiles export
      in (ConvertAudioToMP3 export \<and> audio \<and> has ''.wav'' \<longrightarrow> has ''.mp3'') \<and>
         (ConvertWavToFLAC export \<and> audio \<and> has ''.wav'' \<longrightarrow> has ''.flac'') \<and>
         (RemoveWav export \<and> (ConvertAudioToMP3 export \<or> ConvertWavToFLAC export) \<longrightarrow> \<not> has ''.wav'') \<and>
         (ConvertVideoToMP4 export \<and> has ''.m2v'' \<longrightarrow> has ''.mp4'') \<and>
         (ConvertPhotoToWebP export \<and> RemovePNG export \<and> has ''.png'' \<longrightarrow> has ''.webp''))"
proof -
  have has: "hasExt fs ext \<longleftrightarrow> (\<exists>f\<in>set fs. toLower (Ext (rf_Path f)) = ext)" for ext
    by (auto simp: hasExt_def countExt_def length_greater_0_conv filter_empty_conv)
  show ?thesis
    unfolding validateExpectedManifestOutputs_def Let_def has [symmetric] by auto
qed

lemma validated_manifest_outputs_witness:
  "validateExpectedManifestOutputs [\<lparr>rf_Path = ''a/b.MP3'', rf_Size = 1, rf_SHA256 = ''''\<rparr>]
     \<lparr>ExportByCategory = False, UnityVersion = '''', ExportMeshOBJ = False, MeshOBJPathPatterns = [],
      ExportUSMFiles = True, DecodeUSMFiles = True, ExportACBFiles = True, DecodeACBFiles = True,
      DecodeHCAFiles = True, ConvertPhotoToWebP = True, RemovePNG = True, ConvertVideoToMP4 = True,
      DirectUSMToMP4WithFFmpeg = False, RemoveM2V = True, ConvertAudioToMP3 = True,
      ConvertWavToFLAC = False, RemoveWav = True\<rparr> = None"
proof -
  have "toLower (Ext ''a/b.MP3'') = ''.mp3''" by code_simp
  then show ?thesis by (simp add: validated_manifest_outputs Let_def)
qed

end
