(* ===== verification/HcaBits.thy ===== *)
theory HcaBits
  imports Prelude
begin

text \<open>
  The bottom layer of \<open>internal/cricodecs/hca/clhca.go\<close>: the bit reader, the checksum and the
  hearing threshold curve. Go's \<open>uint\<close> is 64 bits wide.

  The reader's contract is a bit string: bit \<open>i\<close> of the data is bit \<open>7 - i mod 8\<close> of byte
  \<open>i div 8\<close>, and a read of \<open>n\<close> bits gives the number that the next \<open>n\<close> bits write.
\<close>

unbundle bit_operations_syntax

section \<open>The bit reader\<close>

record clData =
  cl_data :: bytes
  cl_size :: int
  cl_bit :: int

definition bitreaderInit :: "bytes \<Rightarrow> int \<Rightarrow> clData" where
  "bitreaderInit data sz = \<lparr>cl_data = data, cl_size = sz * 8, cl_bit = 0\<rparr>"

definition mask32 :: "u64 list" where
  "mask32 = [0xFFFFFFFF, 0x7FFFFFFF, 0x3FFFFFFF, 0x1FFFFFFF,
             0x0FFFFFFF, 0x07FFFFFF, 0x03FFFFFF, 0x01FFFFFF]"

definition mask24 :: "u64 list" where
  "mask24 = [0xFFFFFF, 0x7FFFFF, 0x3FFFFF, 0x1FFFFF, 0x0FFFFF, 0x07FFFF, 0x03FFFF, 0x01FFFF]"

definition mask16 :: "u64 list" where
  "mask16 = [0xFFFF, 0x7FFF, 0x3FFF, 0x1FFF, 0x0FFF, 0x07FF, 0x03FF, 0x01FF]"

definition mask8 :: "u64 list" where
  "mask8 = [0xFF, 0x7F, 0x3F, 0x1F, 0x0F, 0x07, 0x03, 0x01]"

text \<open>\<open>data[0], data[1], ...\<close> of \<open>data := br.data[pos:]\<close>, \<open>k\<close> bytes, most significant first.\<close>

fun load_bytes :: "bytes \<Rightarrow> int \<Rightarrow> nat \<Rightarrow> go_err + u64" where
  "load_bytes data pos 0 = Inr 0"
| "load_bytes data pos (Suc k) =
     bindR (load_bytes data pos k) (\<lambda>v.
     bindR (index_get data (pos + int k)) (\<lambda>b. Inr (push_bit 8 v OR ucast b)))"

text \<open>\<open>v >>= amount\<close>: a negative amount panics.\<close>

definition shift_right :: "u64 \<Rightarrow> int \<Rightarrow> go_err + u64" where
  "shift_right v amount =
     (if amount < 0 then Inl (Panic ''negative shift amount'') else Inr (drop_bit (nat amount) v))"

definition bitreaderPeek :: "clData \<Rightarrow> int \<Rightarrow> go_err + u64" where
  "bitreaderPeek br bitsRead =
     (let bitPos = cl_bit br; bitRem = bitPos mod 8; bitSize = cl_size br in
      if bitPos + bitsRead > bitSize then Inr 0
      else if bitsRead = 0 then Inr 0
      else
        let bitOffset = bitsRead + bitRem; bitsLeft = bitSize - bitPos; pos = bitPos div 8 in
        if 32 \<le> bitsLeft \<and> 25 \<le> bitOffset then
          bindR (load_bytes (cl_data br) pos 4) (\<lambda>v.
            shift_right (v AND mask32 ! nat bitRem) (32 - bitRem - bitsRead))
        else if 24 \<le> bitsLeft \<and> 17 \<le> bitOffset then
          bindR (load_bytes (cl_data br) pos 3) (\<lambda>v.
            shift_right (v AND mask24 ! nat bitRem) (24 - bitRem - bitsRead))
        else if 16 \<le> bitsLeft \<and> 9 \<le> bitOffset then
          bindR (load_bytes (cl_data br) pos 2) (\<lambda>v.
            shift_right (v AND mask16 ! nat bitRem) (16 - bitRem - bitsRead))
        else
          bindR (load_bytes (cl_data br) pos 1) (\<lambda>v.
            shift_right (v AND mask8 ! nat bitRem) (8 - bitRem - bitsRead)))"

definition bitreaderSkip :: "clData \<Rightarrow> int \<Rightarrow> clData" where
  "bitreaderSkip br bitsize = br\<lparr>cl_bit := cl_bit br + bitsize\<rparr>"

definition bitreaderRead :: "clData \<Rightarrow> int \<Rightarrow> go_err + (u64 \<times> clData)" where
  "bitreaderRead br bitsize =
     bindR (bitreaderPeek br bitsize) (\<lambda>v. Inr (v, bitreaderSkip br bitsize))"

section \<open>The bit string\<close>

definition stream_bit :: "bytes \<Rightarrow> nat \<Rightarrow> bool" where
  "stream_bit data i = bit (data ! (i div 8)) (7 - i mod 8)"

fun bits_at :: "bytes \<Rightarrow> nat \<Rightarrow> nat \<Rightarrow> u64" where
  "bits_at data pos 0 = 0"
| "bits_at data pos (Suc n) = push_bit 1 (bits_at data pos n) OR of_bool (stream_bit data (pos + n))"

lemma bit_shift_in:
  "bit (push_bit 1 (w :: u64) OR of_bool b) j \<longleftrightarrow> (if j = 0 then b else j < 64 \<and> bit w (j - 1))"
  by (simp only: bit_or_iff bit_push_bit_iff bit_of_bool_iff possible_bit_word)
    (auto dest: bit_imp_le_length)

lemma bit_bits_at:
  "bit (bits_at data pos n) j \<longleftrightarrow> j < n \<and> j < 64 \<and> stream_bit data (pos + n - 1 - j)"
proof (induction n arbitrary: j)
  case 0
  then show ?case by simp
next
  case (Suc n)
  show ?case
  proof (cases j)
    case 0
    then show ?thesis unfolding bits_at.simps bit_shift_in by simp
  next
    case (Suc i)
    have "pos + Suc n - 1 - Suc i = pos + n - 1 - i" by linarith
    then show ?thesis
      unfolding bits_at.simps bit_shift_in Suc by (auto simp only: Suc.IH diff_Suc_1 if_False nat.simps)
  qed
qed

lemma div8_mod8: "x = 8 * a + c \<Longrightarrow> c < 8 \<Longrightarrow> x div 8 = a \<and> x mod 8 = (c :: nat)"
  by simp

text \<open>The bits of a big-endian number.\<close>

lemma bit_be_word:
  assumes "8 * length bs \<le> LENGTH('a)"
  shows "bit (be_word bs :: 'a::len word) i \<longleftrightarrow>
    i < 8 * length bs \<and> bit (bs ! (length bs - 1 - i div 8)) (i mod 8)"
  using assms
proof (induction bs arbitrary: i rule: rev_induct)
  case Nil
  then show ?case by simp
next
  case (snoc b bs)
  show ?case
  proof (cases "i < 8")
    case True
    with snoc.prems show ?thesis by (auto simp: bit_simps nth_append)
  next
    case False
    have idx: "i div 8 = Suc ((i - 8) div 8)" "i mod 8 = (i - 8) mod 8"
      using False le_div_geq [of 8 i] le_mod_geq [of 8 i] by simp_all
    have "\<not> bit (ucast b :: 'a word) i"
      using False by (auto simp: bit_simps dest: bit_imp_le_length)
    moreover have "(bs @ [b]) ! (length bs - i div 8) = bs ! (length bs - 1 - (i - 8) div 8)"
      if "i < 8 * Suc (length bs)"
      using that False idx by (auto simp: nth_append)
    moreover have "bit (push_bit 8 (be_word bs :: 'a word)) i \<longleftrightarrow> i < LENGTH('a) \<and> bit (be_word bs :: 'a word) (i - 8)"
      using False by (auto simp: bit_push_bit_iff)
    moreover have "bit (be_word bs :: 'a word) (i - 8) \<longleftrightarrow>
        i - 8 < 8 * length bs \<and> bit (bs ! (length bs - 1 - (i - 8) div 8)) ((i - 8) mod 8)"
      using snoc by simp
    moreover have "i - 8 < 8 * length bs \<longleftrightarrow> i < 8 * length (bs @ [b])" "length (bs @ [b]) - 1 = length bs"
      using False by auto
    ultimately show ?thesis
      using snoc.prems idx(2) unfolding be_word_snoc bit_or_iff by auto
  qed
qed

lemma load_bytes_Inr:
  "0 \<le> pos \<Longrightarrow> nat pos + k \<le> length data \<Longrightarrow>
   load_bytes data pos k = Inr (be_word (take k (drop (nat pos) data)))"
proof (induction k)
  case 0
  then show ?case by simp
next
  case (Suc k)
  then have "nat (pos + int k) = nat pos + k" by linarith
  with Suc show ?case
    by (simp add: index_get_def take_Suc_conv_app_nth)
qed

text \<open>What the branches of the reader compute: \<open>k\<close> bytes, the first \<open>r\<close> bits masked out.\<close>

lemma window_bits:
  assumes "r < 8" and "0 < n" and "r + n \<le> 8 * k" and "8 * k \<le> 64" and "p + k \<le> length data"
  shows "drop_bit (8 * k - r - n) (be_word (take k (drop p data)) AND mask (8 * k - r)) =
    bits_at data (8 * p + r) n"
proof (rule bit_word_eqI)
  fix j assume "j < LENGTH(64)"
  let ?i = "8 * k - r - n + j"
  let ?s = "8 * p + r + n - 1 - j"
  have len: "length (take k (drop p data)) = k" using assms(5) by simp
  show "bit (drop_bit (8 * k - r - n) ((be_word (take k (drop p data)) :: u64) AND mask (8 * k - r))) j =
    bit (bits_at data (8 * p + r) n) j"
  proof (cases "j < n")
    case False
    then show ?thesis
      using assms by (auto simp: bit_simps bit_bits_at)
  next
    case True
    have i: "?i < 8 * k - r" "?i < 8 * k" using True assms(3) by linarith+
    have sum: "?i + (?s - 8 * p) = 8 * k - 1" using True assms(2,3) by linarith
    have s: "8 * p \<le> ?s" using True assms(2) by linarith
    define t where "t = ?s - 8 * p"
    have t: "?s = 8 * p + t" "t = 8 * k - 1 - ?i" using s sum by (simp_all add: t_def)
    have "t div 8 = k - 1 - ?i div 8" "t mod 8 = 7 - ?i mod 8"
    proof -
      define q m where "q = ?i div 8" and "m = ?i mod 8"
      have im: "?i = 8 * q + m" "m < 8" by (simp_all add: q_def m_def)
      have "q < k" using i(2) im by linarith
      then have "t = 8 * (k - 1 - q) + (7 - m)" using t(2) im by (simp add: algebra_simps)
      from div8_mod8 [OF this] show "t div 8 = k - 1 - ?i div 8" "t mod 8 = 7 - ?i mod 8"
        by (simp_all only: q_def m_def)
    qed
    moreover have "take k (drop p data) ! (k - 1 - ?i div 8) = data ! (p + (k - 1 - ?i div 8))"
      using assms(5) i(2) by (subst nth_take) (auto simp: nth_drop)
    moreover have "?s div 8 = p + t div 8" "?s mod 8 = t mod 8" unfolding t(1) by simp_all
    moreover have "7 - (7 - ?i mod 8) = ?i mod 8" by simp
    ultimately have "stream_bit data ?s \<longleftrightarrow> bit (take k (drop p data) ! (k - 1 - ?i div 8)) (?i mod 8)"
      unfolding stream_bit_def by simp
    then show ?thesis
      using True i \<open>j < LENGTH(64)\<close> bit_be_word [of "take k (drop p data)" ?i, where ?'a = 64] assms(4)
      unfolding len by (auto simp: bit_simps bit_bits_at)
  qed
qed

lemma mask_tables:
  assumes "r < 8"
  shows "mask32 ! r = mask (32 - r)" "mask24 ! r = mask (24 - r)"
    "mask16 ! r = mask (16 - r)" "mask8 ! r = mask (8 - r)"
proof -
  from assms consider "r = 0" | "r = 1" | "r = 2" | "r = 3" | "r = 4" | "r = 5" | "r = 6" | "r = 7" by linarith
  then show "mask32 ! r = mask (32 - r)" "mask24 ! r = mask (24 - r)"
    "mask16 ! r = mask (16 - r)" "mask8 ! r = mask (8 - r)"
    by (cases; simp add: mask32_def mask24_def mask16_def mask8_def mask_eq_exp_minus_1)+
qed

text \<open>One branch of the reader.\<close>

lemma peek_branch:
  assumes "p + k \<le> length data" and "r < 8" and "0 < n" and "8 * k \<le> 64" and "m = mask (8 * k - r)"
    and "pos = int p"
  shows "bindR (load_bytes data pos k) (\<lambda>v. shift_right (v AND m) (int (8 * k) - int r - int n)) =
    (if r + n \<le> 8 * k then Inr (bits_at data (8 * p + r) n) else Inl (Panic ''negative shift amount''))"
proof -
  have "load_bytes data pos k = Inr (be_word (take k (drop p data)))"
    using load_bytes_Inr [of pos k data] assms(1,6) by simp
  moreover have "nat (int (8 * k) - int r - int n) = 8 * k - r - n" by linarith
  ultimately show ?thesis
    using window_bits [OF assms(2,3) _ assms(4,1)] by (auto simp: shift_right_def assms(5))
qed

text \<open>The end of the last byte that holds one of the next \<open>n\<close> bits, counted from the reader's byte.\<close>

definition bit_window :: "clData \<Rightarrow> int \<Rightarrow> int" where
  "bit_window br n = 8 * ((n + cl_bit br mod 8 + 7) div 8)"

definition reader_ok :: "clData \<Rightarrow> bool" where
  "reader_ok br \<longleftrightarrow> 0 \<le> cl_bit br \<and> cl_size br mod 8 = 0 \<and> cl_size br \<le> 8 * int (length (cl_data br))"

lemma bitreaderPeek_eq:
  assumes "reader_ok br" and "0 \<le> n"
  shows "bitreaderPeek br n =
    (if cl_size br < cl_bit br + n \<or> n = 0 then Inr 0
     else if bit_window br n \<le> 8 \<or> (bit_window br n \<le> 32 \<and> bit_window br n \<le> cl_size br - cl_bit br)
     then Inr (bits_at (cl_data br) (nat (cl_bit br)) (nat n))
     else Inl (Panic ''negative shift amount''))"
proof (cases "cl_size br < cl_bit br + n \<or> n = 0")
  case True
  then show ?thesis by (auto simp: bitreaderPeek_def Let_def)
next
  case False
  define data where "data = cl_data br"
  define p where "p = nat (cl_bit br div 8)"
  define r where "r = nat (cl_bit br mod 8)"
  define k where "k = nat n"
  have b: "cl_bit br = 8 * int p + int r" and r8: "r < 8" and n: "n = int k" and k0: "0 < k"
    using assms False by (auto simp: p_def r_def k_def reader_ok_def)
  have pos: "cl_bit br div 8 = int p" "cl_bit br mod 8 = int r" "nat (cl_bit br) = 8 * p + r"
    using b r8 by auto
  obtain m where m: "cl_size br = 8 * int m"
    using assms(1) by (metis reader_ok_def mod_0_imp_dvd dvdE nonneg_int_cases zero_le_mult_iff False
        add_nonneg_nonneg assms(2) le_less_trans linorder_not_less mult_less_0_iff zero_less_numeral)
  have ml: "m \<le> length data" using assms(1) m by (simp add: reader_ok_def data_def)
  have left: "8 * p + r + k \<le> 8 * m" using False b n m by linarith
  have w: "bit_window br n = 8 * int ((k + r + 7) div 8)"
    unfolding bit_window_def pos n by (simp add: zdiv_int)
  have branch: "bindR (load_bytes (cl_data br) (cl_bit br div 8) j) (\<lambda>v. shift_right (v AND M) (c - cl_bit br mod 8 - n)) =
      (if r + k \<le> 8 * j then Inr (bits_at data (8 * p + r) k) else Inl (Panic ''negative shift amount''))"
    if "p + j \<le> m" "8 * j \<le> 64" "M = mask (8 * j - r)" "c = int (8 * j)" for j M c
    using peek_branch [of p j data r k M "cl_bit br div 8"] that ml r8 k0 pos
    by (simp add: data_def n)
  note M = mask_tables [OF r8]
  have in4: "p + 4 \<le> m" if "32 \<le> 8 * m - (8 * p + r)" using that by linarith
  have in3: "p + 3 \<le> m" if "24 \<le> 8 * m - (8 * p + r)" using that by linarith
  have in2: "p + 2 \<le> m" if "16 \<le> 8 * m - (8 * p + r)" using that by linarith
  have in1: "p + 1 \<le> m" using left k0 by linarith
  let ?left = "8 * m - (8 * p + r)"
  have unf: "bitreaderPeek br n =
    (if 32 \<le> ?left \<and> 25 \<le> k + r
     then if r + k \<le> 32 then Inr (bits_at data (8 * p + r) k) else Inl (Panic ''negative shift amount'')
     else if 24 \<le> ?left \<and> 17 \<le> k + r
     then if r + k \<le> 24 then Inr (bits_at data (8 * p + r) k) else Inl (Panic ''negative shift amount'')
     else if 16 \<le> ?left \<and> 9 \<le> k + r
     then if r + k \<le> 16 then Inr (bits_at data (8 * p + r) k) else Inl (Panic ''negative shift amount'')
     else if r + k \<le> 8 then Inr (bits_at data (8 * p + r) k) else Inl (Panic ''negative shift amount''))"
  proof -
    have c: "32 \<le> cl_size br - cl_bit br \<longleftrightarrow> 32 \<le> ?left" "24 \<le> cl_size br - cl_bit br \<longleftrightarrow> 24 \<le> ?left"
        "16 \<le> cl_size br - cl_bit br \<longleftrightarrow> 16 \<le> ?left" "25 \<le> n + cl_bit br mod 8 \<longleftrightarrow> 25 \<le> k + r"
        "17 \<le> n + cl_bit br mod 8 \<longleftrightarrow> 17 \<le> k + r" "9 \<le> n + cl_bit br mod 8 \<longleftrightarrow> 9 \<le> k + r"
      using left b m n pos by linarith+
    have nr: "nat (cl_bit br mod 8) = r" using pos by simp
    have not: "\<not> cl_bit br + n > cl_size br" "n \<noteq> 0" using False by auto
    show ?thesis
      unfolding bitreaderPeek_def Let_def if_not_P [OF not(1)] if_not_P [OF not(2)] c nr
      using branch [of 4 "mask32 ! r" 32] branch [of 3 "mask24 ! r" 24] branch [of 2 "mask16 ! r" 16]
        branch [of 1 "mask8 ! r" 8] M in4 in3 in2 in1
      by (simp del: load_bytes.simps)
  qed
  have win: "k + r \<le> 8 * ((k + r + 7) div 8)" "8 * ((k + r + 7) div 8) \<le> k + r + 7" by linarith+
  define q where "q = (k + r + 7) div 8"
  have q: "k + r \<le> 8 * q" "8 * q \<le> k + r + 7" using win by (simp_all add: q_def)
  have W: "bit_window br n = 8 * int q" using w by (simp add: q_def)
  have lint: "cl_size br - cl_bit br = int ?left" using left m b by linarith
  have cond: "(bit_window br n \<le> 8 \<or> (bit_window br n \<le> 32 \<and> bit_window br n \<le> cl_size br - cl_bit br)) \<longleftrightarrow>
      q \<le> 1 \<or> (q \<le> 4 \<and> 8 * q \<le> ?left)"
    unfolding W lint by linarith
  have v: "bits_at (cl_data br) (nat (cl_bit br)) (nat n) = bits_at data (8 * p + r) k"
    unfolding pos(3) data_def n by simp
  have qs: "r + k \<le> 8 \<longleftrightarrow> q \<le> 1" "r + k \<le> 16 \<longleftrightarrow> q \<le> 2" "r + k \<le> 24 \<longleftrightarrow> q \<le> 3" "r + k \<le> 32 \<longleftrightarrow> q \<le> 4"
    "25 \<le> k + r \<longleftrightarrow> 4 \<le> q" "17 \<le> k + r \<longleftrightarrow> 3 \<le> q" "9 \<le> k + r \<longleftrightarrow> 2 \<le> q"
    using q k0 by linarith+
  show ?thesis
    unfolding unf if_not_P [OF False] cond v qs
    by (simp split: if_split)
qed

lemma bitreaderSkip_simps [simp]:
  "cl_data (bitreaderSkip br n) = cl_data br" "cl_size (bitreaderSkip br n) = cl_size br"
  "cl_bit (bitreaderSkip br n) = cl_bit br + n"
  by (simp_all add: bitreaderSkip_def)

lemma reader_ok_init: "0 \<le> sz \<Longrightarrow> sz \<le> int (length data) \<Longrightarrow> reader_ok (bitreaderInit data sz)"
  by (simp add: reader_ok_def bitreaderInit_def)

lemma reader_ok_skip: "reader_ok br \<Longrightarrow> 0 \<le> cl_bit br + n \<Longrightarrow> reader_ok (bitreaderSkip br n)"
  by (simp add: reader_ok_def)

lemma bits_at_less: "n \<le> 64 \<Longrightarrow> uint (bits_at data pos n) < 2 ^ n"
proof -
  assume "n \<le> 64"
  then have "take_bit n (bits_at data pos n) = bits_at data pos n"
    by (intro bit_word_eqI) (auto simp: bit_take_bit_iff bit_bits_at)
  then have "uint (bits_at data pos n) = take_bit n (uint (bits_at data pos n))"
    by (metis unsigned_take_bit_eq)
  then show ?thesis by (metis take_bit_int_less_exp)
qed

section \<open>Properties\<close>

text \<open>
  C30: the bit reader reads the bit string. Peeking \<open>n\<close> bits gives the number the next \<open>n\<close> bits
  write, zero when fewer are left, and moves nothing; but where the bytes that hold the bits
  are more than the reader's window (4 bytes, or what is left of the data counted from the
  reader's bit), it panics with a negative shift. For reads of up to 16 bits that happens only
  within the last 24 bits of the data and off the byte boundaries.
\<close>

theorem bit_reader_reads_bit_string:
  assumes "reader_ok br" and "0 \<le> n"
  shows "bitreaderPeek br n =
    (if cl_size br < cl_bit br + n \<or> n = 0 then Inr 0
     else if bit_window br n \<le> 8 \<or> (bit_window br n \<le> 32 \<and> bit_window br n \<le> cl_size br - cl_bit br)
     then Inr (bits_at (cl_data br) (nat (cl_bit br)) (nat n))
     else Inl (Panic ''negative shift amount''))"
  by (rule bitreaderPeek_eq [OF assms])

lemma bit_reader_reads_bit_string_witness:
  "bitreaderPeek \<lparr>cl_data = [0xAB, 0xCD, 0xEF], cl_size = 24, cl_bit = 4\<rparr> 8 = Inr 0xBC \<and>
   bitreaderPeek \<lparr>cl_data = [0xAB, 0xCD, 0xEF], cl_size = 24, cl_bit = 5\<rparr> 12 =
     Inl (Panic ''negative shift amount'')"
proof -
  have ok: "reader_ok \<lparr>cl_data = [0xAB, 0xCD, 0xEF], cl_size = 24, cl_bit = b\<rparr>" if "0 \<le> b" for b
    using that by (simp add: reader_ok_def)
  have "bits_at [0xAB, 0xCD, 0xEF] 4 8 = 0xBC" by code_simp
  with bit_reader_reads_bit_string [OF ok [of 4], of 8] bit_reader_reads_bit_string [OF ok [of 5], of 12]
  show ?thesis by (simp add: bit_window_def)
qed

end
