(* ===== verification/HcaCrc.thy ===== *)
theory HcaCrc
  imports Prelude
begin

text \<open>
  The checksum of \<open>internal/cricodecs/hca/clhca.go\<close> (a CRC of 16 bits, computed with a table)
  and the curve of the hearing threshold.
\<close>

unbundle bit_operations_syntax

section \<open>The checksum\<close>

definition hcacommonCrcMaskTable :: "u16 list" where
  "hcacommonCrcMaskTable =
    [0x0000, 0x8005, 0x800F, 0x000A, 0x801B, 0x001E, 0x0014, 0x8011, 0x8033, 0x0036, 0x003C, 0x8039, 0x0028, 0x802D, 0x8027, 0x0022,
     0x8063, 0x0066, 0x006C, 0x8069, 0x0078, 0x807D, 0x8077, 0x0072, 0x0050, 0x8055, 0x805F, 0x005A, 0x804B, 0x004E, 0x0044, 0x8041,
     0x80C3, 0x00C6, 0x00CC, 0x80C9, 0x00D8, 0x80DD, 0x80D7, 0x00D2, 0x00F0, 0x80F5, 0x80FF, 0x00FA, 0x80EB, 0x00EE, 0x00E4, 0x80E1,
     0x00A0, 0x80A5, 0x80AF, 0x00AA, 0x80BB, 0x00BE, 0x00B4, 0x80B1, 0x8093, 0x0096, 0x009C, 0x8099, 0x0088, 0x808D, 0x8087, 0x0082,
     0x8183, 0x0186, 0x018C, 0x8189, 0x0198, 0x819D, 0x8197, 0x0192, 0x01B0, 0x81B5, 0x81BF, 0x01BA, 0x81AB, 0x01AE, 0x01A4, 0x81A1,
     0x01E0, 0x81E5, 0x81EF, 0x01EA, 0x81FB, 0x01FE, 0x01F4, 0x81F1, 0x81D3, 0x01D6, 0x01DC, 0x81D9, 0x01C8, 0x81CD, 0x81C7, 0x01C2,
     0x0140, 0x8145, 0x814F, 0x014A, 0x815B, 0x015E, 0x0154, 0x8151, 0x8173, 0x0176, 0x017C, 0x8179, 0x0168, 0x816D, 0x8167, 0x0162,
     0x8123, 0x0126, 0x012C, 0x8129, 0x0138, 0x813D, 0x8137, 0x0132, 0x0110, 0x8115, 0x811F, 0x011A, 0x810B, 0x010E, 0x0104, 0x8101,
     0x8303, 0x0306, 0x030C, 0x8309, 0x0318, 0x831D, 0x8317, 0x0312, 0x0330, 0x8335, 0x833F, 0x033A, 0x832B, 0x032E, 0x0324, 0x8321,
     0x0360, 0x8365, 0x836F, 0x036A, 0x837B, 0x037E, 0x0374, 0x8371, 0x8353, 0x0356, 0x035C, 0x8359, 0x0348, 0x834D, 0x8347, 0x0342,
     0x03C0, 0x83C5, 0x83CF, 0x03CA, 0x83DB, 0x03DE, 0x03D4, 0x83D1, 0x83F3, 0x03F6, 0x03FC, 0x83F9, 0x03E8, 0x83ED, 0x83E7, 0x03E2,
     0x83A3, 0x03A6, 0x03AC, 0x83A9, 0x03B8, 0x83BD, 0x83B7, 0x03B2, 0x0390, 0x8395, 0x839F, 0x039A, 0x838B, 0x038E, 0x0384, 0x8381,
     0x0280, 0x8285, 0x828F, 0x028A, 0x829B, 0x029E, 0x0294, 0x8291, 0x82B3, 0x02B6, 0x02BC, 0x82B9, 0x02A8, 0x82AD, 0x82A7, 0x02A2,
     0x82E3, 0x02E6, 0x02EC, 0x82E9, 0x02F8, 0x82FD, 0x82F7, 0x02F2, 0x02D0, 0x82D5, 0x82DF, 0x02DA, 0x82CB, 0x02CE, 0x02C4, 0x82C1,
     0x8243, 0x0246, 0x024C, 0x8249, 0x0258, 0x825D, 0x8257, 0x0252, 0x0270, 0x8275, 0x827F, 0x027A, 0x826B, 0x026E, 0x0264, 0x8261,
     0x0220, 0x8225, 0x822F, 0x022A, 0x823B, 0x023E, 0x0234, 0x8231, 0x8213, 0x0216, 0x021C, 0x8219, 0x0208, 0x820D, 0x8207, 0x0202]"

definition crc_step :: "u16 \<Rightarrow> u8 \<Rightarrow> u16" where
  "crc_step s b = push_bit 8 s XOR hcacommonCrcMaskTable ! unat (drop_bit 8 s XOR ucast b)"

text \<open>\<open>crc16Checksum(data, size)\<close>; reading behind the data panics.\<close>

definition crc16Checksum :: "bytes \<Rightarrow> nat \<Rightarrow> go_err + u16" where
  "crc16Checksum data n =
     (if n \<le> length data then Inr (fold (\<lambda>b s. crc_step s b) (take n data) 0)
      else Inl (Panic ''index out of range''))"

text \<open>The checksum of a whole buffer.\<close>

definition crc :: "bytes \<Rightarrow> u16" where
  "crc data = fold (\<lambda>b s. crc_step s b) data 0"

lemma crc16Checksum_crc: "crc16Checksum data n = (if n \<le> length data then Inr (crc (take n data)) else Inl (Panic ''index out of range''))"
  by (simp add: crc16Checksum_def crc_def)

text \<open>The table, bit by bit: division by the polynomial \<open>x^16 + x^15 + x^2 + 1\<close>.\<close>

definition crc_shift :: "u16 \<Rightarrow> u16" where
  "crc_shift v = (if bit v 15 then push_bit 1 v XOR 0x8005 else push_bit 1 v)"

lemma crc_shift_simps [simp]:
  "crc_shift 0 = 0" "crc_shift 1 = 2"
  "crc_shift (numeral n) =
     (if bit (numeral n :: u16) 15 then numeral (Num.Bit0 n) XOR 0x8005 else numeral (Num.Bit0 n))"
proof -
  have "push_bit 1 x = x + x" for x :: u16 by (simp add: push_bit_eq_mult mult_2_right)
  then show "crc_shift (numeral n) =
     (if bit (numeral n :: u16) 15 then numeral (Num.Bit0 n) XOR 0x8005 else numeral (Num.Bit0 n))"
    by (simp only: crc_shift_def numeral_Bit0)
qed (simp_all add: crc_shift_def)

definition crc_byte :: "u16 \<Rightarrow> u16" where
  "crc_byte v = (crc_shift ^^ 8) v"

lemma crc_byte_unfold:
  "crc_byte v = crc_shift (crc_shift (crc_shift (crc_shift (crc_shift (crc_shift (crc_shift (crc_shift v)))))))"
  by (simp add: crc_byte_def numeral_eq_Suc)

lemma crc_table_eq:
  "hcacommonCrcMaskTable = map (\<lambda>i. crc_byte (push_bit 8 (of_nat i))) [0..<256]"
  by (simp add: crc_byte_unfold hcacommonCrcMaskTable_def upt_rec)

lemma length_crc_table [simp]: "length hcacommonCrcMaskTable = 256"
  by (simp add: crc_table_eq)

lemma crc_table_nth: "hcacommonCrcMaskTable ! unat (b :: u8) = crc_byte (push_bit 8 (ucast b))"
proof -
  have "unat b < 256" using unsigned_less [of b, where ?'a = nat] by simp
  then show ?thesis by (simp add: crc_table_eq unsigned_ucast_eq take_bit_nat_eq_self)
qed

section \<open>The hearing threshold\<close>

definition athBaseCurve :: bytes where
  "athBaseCurve =
    [0x78, 0x5F, 0x56, 0x51, 0x4E, 0x4C, 0x4B, 0x49, 0x48, 0x48, 0x47, 0x46, 0x46, 0x45, 0x45, 0x45,
     0x44, 0x44, 0x44, 0x44, 0x43, 0x43, 0x43, 0x43, 0x43, 0x43, 0x42, 0x42, 0x42, 0x42, 0x42, 0x42,
     0x42, 0x42, 0x41, 0x41, 0x41, 0x41, 0x41, 0x41, 0x41, 0x41, 0x41, 0x41, 0x40, 0x40, 0x40, 0x40,
     0x40, 0x40, 0x40, 0x40, 0x40, 0x3F, 0x3F, 0x3F, 0x3F, 0x3F, 0x3F, 0x3F, 0x3F, 0x3F, 0x3F, 0x3F,
     0x3F, 0x3F, 0x3F, 0x3E, 0x3E, 0x3E, 0x3E, 0x3E, 0x3E, 0x3D, 0x3D, 0x3D, 0x3D, 0x3D, 0x3D, 0x3D,
     0x3C, 0x3C, 0x3C, 0x3C, 0x3C, 0x3C, 0x3C, 0x3C, 0x3B, 0x3B, 0x3B, 0x3B, 0x3B, 0x3B, 0x3B, 0x3B,
     0x3B, 0x3B, 0x3B, 0x3B, 0x3B, 0x3B, 0x3B, 0x3B, 0x3B, 0x3B, 0x3B, 0x3B, 0x3B, 0x3B, 0x3B, 0x3B,
     0x3B, 0x3B, 0x3B, 0x3B, 0x3B, 0x3B, 0x3B, 0x3B, 0x3C, 0x3C, 0x3C, 0x3C, 0x3C, 0x3C, 0x3C, 0x3C,
     0x3D, 0x3D, 0x3D, 0x3D, 0x3D, 0x3D, 0x3D, 0x3D, 0x3E, 0x3E, 0x3E, 0x3E, 0x3E, 0x3E, 0x3E, 0x3F,
     0x3F, 0x3F, 0x3F, 0x3F, 0x3F, 0x3F, 0x3F, 0x3F, 0x3F, 0x3F, 0x3F, 0x3F, 0x3F, 0x3F, 0x3F, 0x3F,
     0x3F, 0x3F, 0x3F, 0x3F, 0x40, 0x40, 0x40, 0x40, 0x40, 0x40, 0x40, 0x40, 0x40, 0x40, 0x40, 0x40,
     0x40, 0x40, 0x40, 0x40, 0x40, 0x40, 0x40, 0x40, 0x40, 0x41, 0x41, 0x41, 0x41, 0x41, 0x41, 0x41,
     0x41, 0x41, 0x41, 0x41, 0x41, 0x41, 0x41, 0x41, 0x41, 0x41, 0x41, 0x41, 0x41, 0x41, 0x41, 0x41,
     0x41, 0x41, 0x41, 0x41, 0x41, 0x41, 0x41, 0x42, 0x42, 0x42, 0x42, 0x42, 0x42, 0x42, 0x42, 0x42,
     0x42, 0x42, 0x42, 0x42, 0x42, 0x42, 0x42, 0x42, 0x42, 0x42, 0x42, 0x42, 0x42, 0x43, 0x43, 0x43,
     0x43, 0x43, 0x43, 0x43, 0x43, 0x43, 0x43, 0x43, 0x43, 0x43, 0x43, 0x43, 0x43, 0x43, 0x44, 0x44,
     0x44, 0x44, 0x44, 0x44, 0x44, 0x44, 0x44, 0x44, 0x44, 0x44, 0x44, 0x44, 0x45, 0x45, 0x45, 0x45,
     0x45, 0x45, 0x45, 0x45, 0x45, 0x45, 0x45, 0x45, 0x46, 0x46, 0x46, 0x46, 0x46, 0x46, 0x46, 0x46,
     0x46, 0x46, 0x47, 0x47, 0x47, 0x47, 0x47, 0x47, 0x47, 0x47, 0x47, 0x47, 0x48, 0x48, 0x48, 0x48,
     0x48, 0x48, 0x48, 0x48, 0x49, 0x49, 0x49, 0x49, 0x49, 0x49, 0x49, 0x49, 0x4A, 0x4A, 0x4A, 0x4A,
     0x4A, 0x4A, 0x4A, 0x4A, 0x4B, 0x4B, 0x4B, 0x4B, 0x4B, 0x4B, 0x4B, 0x4C, 0x4C, 0x4C, 0x4C, 0x4C,
     0x4C, 0x4D, 0x4D, 0x4D, 0x4D, 0x4D, 0x4D, 0x4E, 0x4E, 0x4E, 0x4E, 0x4E, 0x4E, 0x4F, 0x4F, 0x4F,
     0x4F, 0x4F, 0x4F, 0x50, 0x50, 0x50, 0x50, 0x50, 0x51, 0x51, 0x51, 0x51, 0x51, 0x52, 0x52, 0x52,
     0x52, 0x52, 0x53, 0x53, 0x53, 0x53, 0x54, 0x54, 0x54, 0x54, 0x54, 0x55, 0x55, 0x55, 0x55, 0x56,
     0x56, 0x56, 0x56, 0x57, 0x57, 0x57, 0x57, 0x57, 0x58, 0x58, 0x58, 0x59, 0x59, 0x59, 0x59, 0x5A,
     0x5A, 0x5A, 0x5A, 0x5B, 0x5B, 0x5B, 0x5B, 0x5C, 0x5C, 0x5C, 0x5D, 0x5D, 0x5D, 0x5D, 0x5E, 0x5E,
     0x5E, 0x5F, 0x5F, 0x5F, 0x60, 0x60, 0x60, 0x61, 0x61, 0x61, 0x61, 0x62, 0x62, 0x62, 0x63, 0x63,
     0x63, 0x64, 0x64, 0x64, 0x65, 0x65, 0x66, 0x66, 0x66, 0x67, 0x67, 0x67, 0x68, 0x68, 0x68, 0x69,
     0x69, 0x6A, 0x6A, 0x6A, 0x6B, 0x6B, 0x6B, 0x6C, 0x6C, 0x6D, 0x6D, 0x6D, 0x6E, 0x6E, 0x6F, 0x6F,
     0x70, 0x70, 0x70, 0x71, 0x71, 0x72, 0x72, 0x73, 0x73, 0x73, 0x74, 0x74, 0x75, 0x75, 0x76, 0x76,
     0x77, 0x77, 0x78, 0x78, 0x78, 0x79, 0x79, 0x7A, 0x7A, 0x7B, 0x7B, 0x7C, 0x7C, 0x7D, 0x7D, 0x7E,
     0x7E, 0x7F, 0x7F, 0x80, 0x80, 0x81, 0x81, 0x82, 0x83, 0x83, 0x84, 0x84, 0x85, 0x85, 0x86, 0x86,
     0x87, 0x88, 0x88, 0x89, 0x89, 0x8A, 0x8A, 0x8B, 0x8C, 0x8C, 0x8D, 0x8D, 0x8E, 0x8F, 0x8F, 0x90,
     0x90, 0x91, 0x92, 0x92, 0x93, 0x94, 0x94, 0x95, 0x95, 0x96, 0x97, 0x97, 0x98, 0x99, 0x99, 0x9A,
     0x9B, 0x9B, 0x9C, 0x9D, 0x9D, 0x9E, 0x9F, 0xA0, 0xA0, 0xA1, 0xA2, 0xA2, 0xA3, 0xA4, 0xA5, 0xA5,
     0xA6, 0xA7, 0xA7, 0xA8, 0xA9, 0xAA, 0xAA, 0xAB, 0xAC, 0xAD, 0xAE, 0xAE, 0xAF, 0xB0, 0xB1, 0xB1,
     0xB2, 0xB3, 0xB4, 0xB5, 0xB6, 0xB6, 0xB7, 0xB8, 0xB9, 0xBA, 0xBA, 0xBB, 0xBC, 0xBD, 0xBE, 0xBF,
     0xC0, 0xC1, 0xC1, 0xC2, 0xC3, 0xC4, 0xC5, 0xC6, 0xC7, 0xC8, 0xC9, 0xC9, 0xCA, 0xCB, 0xCC, 0xCD,
     0xCE, 0xCF, 0xD0, 0xD1, 0xD2, 0xD3, 0xD4, 0xD5, 0xD6, 0xD7, 0xD8, 0xD9, 0xDA, 0xDB, 0xDC, 0xDD,
     0xDE, 0xDF, 0xE0, 0xE1, 0xE2, 0xE3, 0xE4, 0xE5, 0xE6, 0xE7, 0xE8, 0xE9, 0xEA, 0xEB, 0xED, 0xEE,
     0xEF, 0xF0, 0xF1, 0xF2, 0xF3, 0xF4, 0xF5, 0xF7, 0xF8, 0xF9, 0xFA, 0xFB, 0xFC, 0xFD, 0xFF, 0xFF]"

definition athInit0 :: bytes where
  "athInit0 = replicate 128 0"

text \<open>The loop of \<open>athInit1\<close> from index \<open>i\<close> on, given the accumulator.\<close>

fun athInit1_loop :: "nat \<Rightarrow> u64 \<Rightarrow> u64 \<Rightarrow> bytes" where
  "athInit1_loop 0 acc sampleRate = []"
| "athInit1_loop (Suc n) acc sampleRate =
     (let acc = acc + sampleRate; index = drop_bit 13 acc
      in if 654 \<le> index then replicate (Suc n) 0xFF
         else athBaseCurve ! unat index # athInit1_loop n acc sampleRate)"

definition athInit1 :: "u64 \<Rightarrow> bytes" where
  "athInit1 sampleRate = athInit1_loop 128 0 sampleRate"

definition athInit :: "int \<Rightarrow> u64 \<Rightarrow> go_err + bytes" where
  "athInit athType sampleRate =
     (if athType = 0 then Inr athInit0
      else if athType = 1 then Inr (athInit1 sampleRate)
      else Inl (Failure ''invalid ATH type''))"

lemma length_athInit1: "length (athInit1 sampleRate) = 128"
proof -
  have "length (athInit1_loop n acc sampleRate) = n" for n acc
    by (induction n arbitrary: acc) (simp_all add: Let_def del: replicate_Suc)
  then show ?thesis by (simp only: athInit1_def)
qed

section \<open>The algebra of the checksum\<close>

lemma crc_shift_xor: "crc_shift (v XOR w) = crc_shift v XOR crc_shift w"
  by (auto simp: crc_shift_def bit_xor_iff push_bit_xor ac_simps)

lemma crc_byte_xor: "crc_byte (v XOR w) = crc_byte v XOR crc_byte w"
  by (simp add: crc_byte_unfold crc_shift_xor)

lemma crc_byte_0 [simp]: "crc_byte 0 = 0"
  by (simp add: crc_byte_unfold)

lemma bit_crc_shift_0: "bit (crc_shift v) 0 = bit v 15"
  by (simp add: crc_shift_def bit_xor_iff bit_push_bit_iff bit_0 even_xor_iff)

lemma push_bit_1_inj:
  assumes "push_bit 1 v = push_bit 1 (w :: u16)" and "bit v 15 = bit w 15"
  shows "v = w"
proof (rule bit_word_eqI)
  fix i assume i: "i < LENGTH(16)"
  from assms(1) have "bit (push_bit 1 v) (Suc i) = bit (push_bit 1 w) (Suc i)" by simp
  with i assms(2) show "bit v i = bit w i"
    by (cases "i = 15") (simp_all add: bit_push_bit_iff del: push_bit_Suc)
qed

lemma crc_shift_inj: "crc_shift v = crc_shift w \<Longrightarrow> v = w"
proof -
  assume eq: "crc_shift v = crc_shift w"
  then have top: "bit v 15 = bit w 15" using bit_crc_shift_0 by metis
  with eq have "push_bit 1 v = push_bit 1 w" by (auto simp: crc_shift_def word_xor_cancel split: if_splits)
  from push_bit_1_inj [OF this top] show ?thesis .
qed

lemma crc_byte_inj: "crc_byte v = crc_byte w \<longleftrightarrow> v = w"
  by (auto simp: crc_byte_unfold dest!: crc_shift_inj)

lemma crc_byte_low: "crc_byte (ucast (b :: u8)) = push_bit 8 (ucast b)"
proof -
  have "n \<le> 8 \<Longrightarrow> (crc_shift ^^ n) (ucast b) = push_bit n (ucast b :: u16)" for n
  proof (induction n)
    case 0
    then show ?case by simp
  next
    case (Suc n)
    then have "\<not> bit (push_bit n (ucast b :: u16)) 15"
      by (auto simp: bit_push_bit_iff bit_ucast_iff dest: bit_imp_le_length)
    with Suc show ?case by (simp add: crc_shift_def push_bit_push_bit del: push_bit_Suc)
  qed
  from this [of 8] show ?thesis by (simp add: crc_byte_def)
qed

lemma u16_split: "s = push_bit 8 (ucast (ucast (drop_bit 8 s) :: u8)) XOR ucast (ucast s :: u8)" for s :: u16
  by (rule bit_word_eqI) (auto simp: bit_simps dest: bit_imp_le_length)

text \<open>A step of the table-driven loop is a division of the state with the byte put on top.\<close>

lemma crc_step_eq: "crc_step s b = crc_byte (s XOR push_bit 8 (ucast b))"
proof -
  let ?h = "ucast (drop_bit 8 s) :: u8" and ?l = "ucast s :: u8"
  have idx: "drop_bit 8 s XOR ucast b = ucast (?h XOR b)"
    by (rule bit_word_eqI) (auto simp: bit_simps dest: bit_imp_le_length)
  have lo: "push_bit 8 s = push_bit 8 (ucast ?l)"
    by (rule bit_word_eqI) (auto simp: bit_simps)
  have "unat (drop_bit 8 s XOR ucast b) = unat (?h XOR b)"
    unfolding idx by (simp add: unsigned_ucast_eq take_bit_nat_eq_self less_trans [OF unsigned_less])
  then have "crc_step s b = push_bit 8 (ucast ?l) XOR crc_byte (push_bit 8 (ucast (?h XOR b)))"
    by (simp add: crc_step_def crc_table_nth lo)
  also have "\<dots> = crc_byte (ucast ?l XOR push_bit 8 (ucast (?h XOR b)))"
    by (simp add: crc_byte_xor crc_byte_low)
  also have "ucast ?l XOR push_bit 8 (ucast (?h XOR b)) = s XOR push_bit 8 (ucast b)"
    by (rule bit_word_eqI) (auto simp: bit_simps dest: bit_imp_le_length)
  finally show ?thesis .
qed

lemma crc_append: "crc (a @ b) = fold (\<lambda>b s. crc_step s b) b (crc a)"
  by (simp add: crc_def)

lemma crc_fold_inj: "fold (\<lambda>b s. crc_step s b) q s = fold (\<lambda>b s. crc_step s b) q t \<longleftrightarrow> s = t"
proof (induction q arbitrary: s t)
  case (Cons b q)
  have "crc_step s b = crc_step t b \<longleftrightarrow> s = t"
    by (simp add: crc_step_eq crc_byte_inj word_xor_cancel)
  with Cons show ?case by simp
qed simp

text \<open>Two bytes act on the state like one 16-bit number.\<close>

lemma crc_two_bytes:
  "crc_step (crc_step s a) b = crc_byte (crc_byte (s XOR push_bit 8 (ucast a) XOR ucast b))"
proof -
  have "push_bit 8 (ucast b) = crc_byte (ucast b)" by (simp add: crc_byte_low)
  then show ?thesis by (simp add: crc_step_eq crc_byte_xor xor.assoc)
qed

lemma word_of_two_bytes:
  "push_bit 8 (ucast (a :: u8)) XOR ucast (b :: u8) = (push_bit 8 (ucast c) XOR ucast d :: u16) \<longleftrightarrow> a = c \<and> b = d"
proof
  assume eq: "push_bit 8 (ucast a) XOR ucast b = (push_bit 8 (ucast c) XOR ucast d :: u16)"
  have "ucast (push_bit 8 (ucast a) XOR ucast b :: u16) = b" for a b :: u8
    by (rule bit_word_eqI) (auto simp: bit_simps)
  moreover have "ucast (drop_bit 8 (push_bit 8 (ucast a) XOR ucast b :: u16)) = a" for a b :: u8
    by (rule bit_word_eqI) (auto simp: bit_simps dest: bit_imp_le_length)
  ultimately show "a = c \<and> b = d" using eq by metis
qed simp

section \<open>Properties\<close>

text \<open>
  C32: the table-driven checksum is the remainder of the bitwise division. Each entry of the
  table is what eight shifts through the polynomial \<open>0x8005\<close> make of its index, and each step of
  the loop is eight such shifts of the state with the next byte on top.
\<close>

theorem crc_table_is_polynomial_division:
  "hcacommonCrcMaskTable ! unat b = (crc_shift ^^ 8) (push_bit 8 (ucast b)) \<and>
   crc_step s b = (crc_shift ^^ 8) (s XOR push_bit 8 (ucast b))"
  by (simp add: crc_table_nth crc_step_eq crc_byte_def)

text \<open>
  The check that a header or a frame passes. For any data and any two bytes behind it, the
  checksum of the whole is zero if and only if the two bytes are the checksum of the data, the
  most significant one first.
\<close>

theorem crc_check_accepts_iff:
  "crc16Checksum (data @ be_bytes 2 w) (length data + 2) = Inr 0 \<longleftrightarrow> w = crc data"
proof -
  let ?h = "ucast (drop_bit 8 w) :: u8" and ?l = "ucast w :: u8"
  have b: "be_bytes 2 w = [?h, ?l]" by (simp add: numeral_2_eq_2)
  have "crc (data @ be_bytes 2 w) = crc_byte (crc_byte (crc data XOR push_bit 8 (ucast ?h) XOR ucast ?l))"
    by (simp add: crc_append b crc_two_bytes)
  also have "crc data XOR push_bit 8 (ucast ?h) XOR ucast ?l = crc data XOR w"
    using u16_split [of w] by (simp add: xor.assoc)
  also have "crc_byte (crc_byte (crc data XOR w)) = 0 \<longleftrightarrow> crc data XOR w = 0"
    using crc_byte_inj [of "crc_byte (crc data XOR w)" 0] crc_byte_inj [of "crc data XOR w" 0] by simp
  also have "crc data XOR w = 0 \<longleftrightarrow> w = crc data"
    by (metis xor.assoc xor_self_eq xor.right_neutral xor.left_neutral)
  finally show ?thesis by (simp add: crc16Checksum_crc)
qed

text \<open>
  The checksum detects every error that is confined to two neighbouring bytes, wherever
  they are in the data.
\<close>

theorem crc_detects_two_byte_errors:
  "crc (p @ [a, b] @ q) = crc (p @ [c, d] @ q) \<longleftrightarrow> a = c \<and> b = d"
proof -
  have "crc (p @ [a, b] @ q) = fold (\<lambda>b s. crc_step s b) q (crc_step (crc_step (crc p) a) b)" for a b
    by (simp add: crc_append)
  then have "crc (p @ [a, b] @ q) = crc (p @ [c, d] @ q) \<longleftrightarrow>
      crc p XOR push_bit 8 (ucast a) XOR ucast b = crc p XOR push_bit 8 (ucast c) XOR ucast d"
    by (simp only: crc_fold_inj crc_two_bytes crc_byte_inj)
  also have "\<dots> \<longleftrightarrow> push_bit 8 (ucast a) XOR ucast b = (push_bit 8 (ucast c) XOR ucast d :: u16)"
    by (simp only: xor.assoc word_xor_cancel)
  finally show ?thesis by (simp only: word_of_two_bytes)
qed

lemma athInit1_loop_nth:
  assumes "unat acc = j * rate" and "unat sampleRate = rate" and "(j + n) * rate < 2 ^ 64"
  shows "length (athInit1_loop n acc sampleRate) = n \<and>
    (\<forall>i<n. athInit1_loop n acc sampleRate ! i =
      (let index = (j + i + 1) * rate div 8192 in if 654 \<le> index then 0xFF else athBaseCurve ! index))"
  using assms
proof (induction n arbitrary: acc j)
  case 0
  then show ?case by simp
next
  case (Suc n)
  let ?acc = "acc + sampleRate"
  have lt: "(Suc j) * rate < 2 ^ 64"
    using Suc.prems(3) mult_le_mono1 [of "Suc j" "j + Suc n" rate] by linarith
  have acc: "unat ?acc = Suc j * rate"
    using Suc.prems(1,2) lt by (simp add: unat_word_ariths)
  have idx: "unat (drop_bit 13 ?acc) = Suc j * rate div 8192"
    using lt unfolding unsigned_drop_bit_eq acc by (simp add: take_bit_nat_eq_self) (simp add: drop_bit_eq_div)
  have le: "654 \<le> drop_bit 13 ?acc \<longleftrightarrow> 654 \<le> Suc j * rate div 8192"
    using idx by (simp add: word_le_nat_alt)
  show ?case
  proof (cases "654 \<le> drop_bit 13 ?acc")
    case True
    have "654 \<le> (j + i + 1) * rate div 8192" for i
      using True le div_le_mono [of "Suc j * rate" "(j + i + 1) * rate" 8192] mult_le_mono1 [of "Suc j" "j + i + 1" rate]
      by linarith
    with True show ?thesis by (simp add: Let_def nth_replicate del: replicate_Suc)
  next
    case False
    from Suc.IH [OF acc Suc.prems(2)] Suc.prems(3)
    have ih: "length (athInit1_loop n ?acc sampleRate) = n \<and>
      (\<forall>i<n. athInit1_loop n ?acc sampleRate ! i =
        (let index = (Suc j + i + 1) * rate div 8192 in if 654 \<le> index then 0xFF else athBaseCurve ! index))"
      by simp
    show ?thesis
    proof (intro conjI allI impI)
      show "length (athInit1_loop (Suc n) acc sampleRate) = Suc n" using False ih by (simp add: Let_def)
      fix i assume i: "i < Suc n"
      show "athInit1_loop (Suc n) acc sampleRate ! i =
        (let index = (j + i + 1) * rate div 8192 in if 654 \<le> index then 0xFF else athBaseCurve ! index)"
      proof (cases i)
        case 0
        with False idx le show ?thesis by (simp add: Let_def)
      next
        case (Suc k)
        with False ih i show ?thesis by (simp add: Let_def)
      qed
    qed
  qed
qed

text \<open>
  The hearing threshold curve. For every sampling rate a header may have, entry \<open>i\<close> is the
  entry of the base curve at \<open>(i+1) * rate / 8192\<close>, or 255 from where that is 654 or more.
\<close>

theorem ath_curve_closed_form:
  assumes "sampleRate \<le> 0x7FFFFF" and "i < 128"
  shows "athInit1 sampleRate ! i =
    (let index = (i + 1) * unat sampleRate div 8192
     in if 654 \<le> index then 0xFF else athBaseCurve ! index)"
proof -
  have "unat sampleRate \<le> 0x7FFFFF" using assms(1) by (simp add: word_le_nat_alt)
  then have "(0 + 128) * unat sampleRate < 2 ^ 64" by simp
  from athInit1_loop_nth [of 0 0 "unat sampleRate" sampleRate 128, OF _ refl this] assms(2)
  show ?thesis by (simp add: athInit1_def)
qed

lemma ath_curve_closed_form_witness: "athInit1 44100 ! 2 = athBaseCurve ! 16"
  using ath_curve_closed_form [of 44100 2] by simp

end
