(* ===== verification/HcaCipher.thy ===== *)
theory HcaCipher
  imports Prelude
begin

text \<open>
  The ciphers of \<open>internal/cricodecs/hca/clhca.go\<close>: a frame is decrypted byte by byte through
  a table of 256 bytes, which is built from the type of the cipher and a key. The locale
  \<open>byte_cipher\<close> is what a frame needs of such a table, and every table the code builds is an
  interpretation of it.
\<close>

unbundle bit_operations_syntax

section \<open>Building the tables\<close>

definition cipherDecrypt :: "u8 list \<Rightarrow> bytes \<Rightarrow> nat \<Rightarrow> bytes" where
  "cipherDecrypt cipherTable data n =
     map (\<lambda>b. cipherTable ! unat b) (take n data) @ drop n data"

definition cipherInit0 :: "u8 list" where
  "cipherInit0 = map of_nat [0..<256]"

definition cipher1_next :: "u64 \<Rightarrow> u64" where
  "cipher1_next v = (v * 13 + 11) AND 0xFF"

fun cipherInit1_loop :: "nat \<Rightarrow> u64 \<Rightarrow> u8 list" where
  "cipherInit1_loop 0 v = []"
| "cipherInit1_loop (Suc n) v =
     (let v = cipher1_next v; v = (if v = 0 \<or> v = 0xFF then cipher1_next v else v)
      in ucast v # cipherInit1_loop n v)"

definition cipherInit1 :: "u8 list" where
  "cipherInit1 = 0 # cipherInit1_loop 254 0 @ [0xFF]"

definition lcg16_next :: "u8 \<Rightarrow> u8 \<Rightarrow> u8 \<Rightarrow> u8" where
  "lcg16_next mul add key = (key * mul + add) AND 0xF"

fun lcg16 :: "nat \<Rightarrow> u8 \<Rightarrow> u8 \<Rightarrow> u8 \<Rightarrow> u8 list" where
  "lcg16 0 mul add key = []"
| "lcg16 (Suc n) mul add key =
     (let key = lcg16_next mul add key in key # lcg16 n mul add key)"

definition cipherInit56CreateTable :: "u8 \<Rightarrow> u8 list" where
  "cipherInit56CreateTable key =
     lcg16 16 (push_bit 3 (key AND 1) OR 5) ((key AND 0xE) OR 1) (drop_bit 4 key)"

text \<open>The key bytes and the 16 seeds.\<close>

fun key_bytes :: "nat \<Rightarrow> u64 \<Rightarrow> u8 list" where
  "key_bytes 0 keycode = []"
| "key_bytes (Suc n) keycode = ucast (keycode AND 0xFF) # key_bytes n (drop_bit 8 keycode)"

definition cipher56_seed :: "u8 list \<Rightarrow> u8 list" where
  "cipher56_seed kc =
     [kc ! 1, kc ! 1 XOR kc ! 6, kc ! 2 XOR kc ! 3, kc ! 2,
      kc ! 2 XOR kc ! 1, kc ! 3 XOR kc ! 4, kc ! 3, kc ! 3 XOR kc ! 2,
      kc ! 4 XOR kc ! 5, kc ! 4, kc ! 4 XOR kc ! 3, kc ! 5 XOR kc ! 6,
      kc ! 5, kc ! 5 XOR kc ! 4, kc ! 6 XOR kc ! 1, kc ! 6]"

definition cipher56_base :: "u8 list \<Rightarrow> u8 list" where
  "cipher56_base kc =
     (let baseR = cipherInit56CreateTable (kc ! 0); seed = cipher56_seed kc
      in concat (map (\<lambda>r. let baseC = cipherInit56CreateTable (seed ! r); nb = push_bit 4 (baseR ! r)
                          in map (\<lambda>c. nb OR baseC ! c) [0..<16]) [0..<16]))"

text \<open>The loop that visits the base table in steps of 17 and fills the table from index 1.\<close>

fun cipher56_walk :: "nat \<Rightarrow> u64 \<Rightarrow> u8 list \<Rightarrow> nat \<Rightarrow> u8 list \<Rightarrow> go_err + u8 list" where
  "cipher56_walk 0 x base pos table = Inr table"
| "cipher56_walk (Suc n) x base pos table =
     (let x = (x + 17) AND 0xFF; b = base ! unat x
      in if b \<noteq> 0 \<and> b \<noteq> 0xFF then
           (if pos < 256 then cipher56_walk n x base (pos + 1) (table[pos := b])
            else Inl (Panic ''index out of range''))
         else cipher56_walk n x base pos table)"

definition cipherInit56 :: "u8 list \<Rightarrow> u64 \<Rightarrow> go_err + u8 list" where
  "cipherInit56 cipherTable keycode =
     (let keycode = (if keycode \<noteq> 0 then keycode - 1 else keycode);
          kc = key_bytes 7 keycode @ [0]
      in bindR (cipher56_walk 256 0 (cipher56_base kc) 1 cipherTable)
           (\<lambda>table. Inr (table[0 := 0, 0xFF := 0xFF])))"

definition cipherInit :: "u8 list \<Rightarrow> int \<Rightarrow> u64 \<Rightarrow> go_err + u8 list" where
  "cipherInit cipherTable ciphType keycode =
     (let ciphType = (if ciphType = 56 \<and> keycode = 0 then 0 else ciphType)
      in if ciphType = 0 then Inr cipherInit0
         else if ciphType = 1 then Inr cipherInit1
         else if ciphType = 56 then cipherInit56 cipherTable keycode
         else Inl (Failure ''invalid cipher type''))"

section \<open>What a table must be\<close>

definition cipher_table :: "u8 list \<Rightarrow> bool" where
  "cipher_table t \<longleftrightarrow> length t = 256 \<and> distinct t \<and> t ! 0 = 0 \<and> t ! 255 = 0xFF"

locale byte_cipher =
  fixes subst :: "u8 \<Rightarrow> u8"
  assumes subst_inj: "subst a = subst b \<Longrightarrow> a = b"
    and subst_0: "subst 0 = 0"
    and subst_255: "subst 0xFF = 0xFF"
begin

lemma subst_surj: "\<exists>a. subst a = b"
proof -
  have "inj subst" by (rule injI) (rule subst_inj)
  then have "surj subst" by (simp add: finite_UNIV_inj_surj)
  then show ?thesis by (metis surjD)
qed

lemma map_subst_inj: "map subst d = map subst d' \<longleftrightarrow> d = d'"
  by (metis (no_types, lifting) inj_map_eq_map injI subst_inj)

lemma subst_0_iff: "subst a = 0 \<longleftrightarrow> a = 0"
  by (metis subst_0 subst_inj)

text \<open>A run of zero bytes, like the padding of a frame, is one after decryption and only then.\<close>

lemma zeros_iff: "(\<forall>b\<in>set (map subst d). b = 0) \<longleftrightarrow> (\<forall>b\<in>set d. b = 0)"
  by (simp add: subst_0_iff)

lemma map_subst_surj: "\<exists>d'. map subst d' = d"
proof (induction d)
  case (Cons b d)
  obtain a where "subst a = b" using subst_surj by blast
  with Cons show ?case by (metis list.simps(9))
qed simp

end

lemma byte_cipher_table: "cipher_table t \<Longrightarrow> byte_cipher (\<lambda>b. t ! unat b)"
proof
  assume t: "cipher_table t"
  have lt: "unat b < length t" for b :: u8
    using t unsigned_less [of b, where ?'a = nat] by (simp add: cipher_table_def)
  show "a = b" if "t ! unat a = t ! unat b" for a b :: u8
    using that t lt [of a] lt [of b]
    by (simp add: cipher_table_def nth_eq_iff_index_eq) (simp add: word_unat_eq_iff)
  show "t ! unat (0 :: u8) = 0" "t ! unat (0xFF :: u8) = 0xFF"
    using t by (simp_all add: cipher_table_def)
qed

section \<open>Orbits\<close>

lemma orbit_distinct:
  assumes "inj f" and "\<And>n. 0 < n \<Longrightarrow> n < N \<Longrightarrow> (f ^^ n) x \<noteq> x"
  shows "distinct (map (\<lambda>n. (f ^^ n) x) [0..<N])"
proof -
  have "(f ^^ i) x \<noteq> (f ^^ j) x" if "i < j" "j < N" for i j
  proof
    assume eq: "(f ^^ i) x = (f ^^ j) x"
    have "(f ^^ j) x = (f ^^ i) ((f ^^ (j - i)) x)"
      using \<open>i < j\<close> by (simp flip: funpow_add [THEN fun_cong, simplified o_def])
    with eq have "(f ^^ (j - i)) x = x" using inj_fn [OF assms(1), of i] by (metis injD)
    moreover have "0 < j - i" "j - i < N" using that by linarith+
    ultimately show False using assms(2) by blast
  qed
  then have "(f ^^ i) x \<noteq> (f ^^ j) x" if "i \<noteq> j" "i < N" "j < N" for i j
    using that by (metis linorder_neqE_nat)
  then show ?thesis by (simp add: distinct_conv_nth)
qed

lemma distinct_if_covers: "length t = 256 \<Longrightarrow> set t = (UNIV :: u8 set) \<Longrightarrow> distinct t"
  by (rule card_distinct) (simp add: card_word)

section \<open>Type 0 and type 1\<close>

lemma cipherInit0_ok: "cipher_table cipherInit0"
proof -
  have "set cipherInit0 = (UNIV :: u8 set)"
  proof -
    have "b \<in> set cipherInit0" for b :: u8
    proof -
      have "b = of_nat (unat b)" "unat b < 256"
        using unsigned_less [of b, where ?'a = nat] by simp_all
      then show ?thesis unfolding cipherInit0_def by (metis atLeastLessThan_iff image_eqI list.set_map set_upt zero_le)
    qed
    then show ?thesis by blast
  qed
  then show ?thesis
    using distinct_if_covers [of cipherInit0] by (simp add: cipher_table_def cipherInit0_def)
qed

lemma cipherInit0_id: "cipherInit0 ! unat b = b"
proof -
  have "unat b < 256" using unsigned_less [of b, where ?'a = nat] by simp
  then show ?thesis by (simp add: cipherInit0_def)
qed

text \<open>The generator of type 1 runs through all bytes before it repeats; 0 and 255 are left out.\<close>

definition byte_lcg :: "u8 \<Rightarrow> u8" where
  "byte_lcg v = v * 13 + 11"

fun byte_orbit :: "nat \<Rightarrow> u8 \<Rightarrow> u8 list" where
  "byte_orbit 0 v = []"
| "byte_orbit (Suc n) v = v # byte_orbit n (byte_lcg v)"

lemma byte_orbit_eq: "byte_orbit n v = map (\<lambda>i. (byte_lcg ^^ i) v) [0..<n]"
proof (induction n arbitrary: v)
  case (Suc n)
  have "map (\<lambda>i. (byte_lcg ^^ i) v) [0..<Suc n] = v # map (\<lambda>i. (byte_lcg ^^ Suc i) v) [0..<n]"
    by (simp only: upt_conv_Cons map_Suc_upt [symmetric] list.map) simp
  also have "\<dots> = v # map (\<lambda>i. (byte_lcg ^^ i) (byte_lcg v)) [0..<n]"
    by (simp add: funpow_swap1)
  finally show ?case using Suc by simp
qed simp

lemma byte_lcg_inj: "inj byte_lcg"
proof (rule injI)
  fix v w assume "byte_lcg v = byte_lcg w"
  then have "v * 13 * 197 = w * 13 * (197 :: u8)" by (simp add: byte_lcg_def)
  moreover have "13 * 197 = (1 :: u8)" by simp
  ultimately show "v = w" by (simp only: mult.assoc mult_1_right)
qed

lemma byte_orbit_Cons: "0 < n \<Longrightarrow> byte_orbit n v = v # tl (byte_orbit n v)"
  by (cases n) simp_all

lemma cipherInit1_orbit:
  "cipherInit1 = 0 # filter (\<lambda>b. b \<noteq> 0xFF) (tl (byte_orbit 256 0)) @ [0xFF]"
  by code_simp

lemma byte_orbit_distinct: "distinct (byte_orbit 256 0)"
proof -
  have ne: "\<forall>b\<in>set (tl (byte_orbit 256 0)). b \<noteq> 0" by code_simp
  have "(byte_lcg ^^ n) 0 \<noteq> 0" if "0 < n" "n < 256" for n
  proof -
    have "tl (byte_orbit 256 0) ! (n - 1) = (byte_lcg ^^ n) 0"
      using that by (simp add: byte_orbit_eq nth_tl)
    moreover have "n - 1 < length (tl (byte_orbit 256 0))"
      using that by (simp add: byte_orbit_eq)
    ultimately show ?thesis using ne nth_mem by metis
  qed
  then show ?thesis
    unfolding byte_orbit_eq by (intro orbit_distinct byte_lcg_inj) blast
qed

lemma length_cipherInit1_loop: "length (cipherInit1_loop n v) = n"
  by (induction n arbitrary: v) (simp_all add: Let_def)

lemma cipherInit1_ok: "cipher_table cipherInit1"
proof -
  have "byte_orbit 256 0 = 0 # tl (byte_orbit 256 0)" by (rule byte_orbit_Cons) simp
  with byte_orbit_distinct have "distinct (0 # tl (byte_orbit 256 0))" by simp
  then have "distinct (0 # filter (\<lambda>b. b \<noteq> 0xFF) (tl (byte_orbit 256 0)) @ [0xFF])" by auto
  then have "distinct cipherInit1" unfolding cipherInit1_orbit .
  moreover have "length cipherInit1 = 256"
    by (simp add: cipherInit1_def length_cipherInit1_loop)
  moreover have "cipherInit1 ! 255 = 0xFF"
    by (simp add: cipherInit1_def nth_append length_cipherInit1_loop)
  ultimately show ?thesis by (simp add: cipher_table_def cipherInit1_def)
qed

section \<open>Type 56\<close>

lemma byte_cases: "b \<in> set cipherInit0"
proof -
  have "unat b < length cipherInit0"
    using unsigned_less [of b, where ?'a = nat] by (simp add: cipherInit0_def)
  then show ?thesis using nth_mem cipherInit0_id by metis
qed

text \<open>A generator of type 56 runs through all 16 nibbles, whatever its key byte.\<close>

lemma lcg16_eq: "lcg16 n m a k = map (\<lambda>i. (lcg16_next m a ^^ Suc i) k) [0..<n]"
proof (induction n arbitrary: k)
  case (Suc n)
  have "map (\<lambda>i. (lcg16_next m a ^^ Suc i) k) [0..<Suc n] =
      lcg16_next m a k # map (\<lambda>i. (lcg16_next m a ^^ Suc i) (lcg16_next m a k)) [0..<n]"
    by (simp only: upt_conv_Cons map_Suc_upt [symmetric] list.map) (simp add: funpow_swap1)
  then show ?case using Suc by (simp add: Let_def)
qed simp

lemma nibble_generators:
  "\<forall>b\<in>set (take 16 cipherInit0). distinct (cipherInit56CreateTable b) \<and>
     (\<forall>w\<in>set (cipherInit56CreateTable b). w < 16) \<and> cipherInit56CreateTable b ! 15 = 0"
  by code_simp

lemma nibbles_card: "card {w :: u8. w < 16} = 16"
proof -
  have "{w :: u8. w < 16} = of_nat ` {..<16}"
  proof
    show "{w :: u8. w < 16} \<subseteq> of_nat ` {..<16}"
    proof
      fix w :: u8 assume "w \<in> {w. w < 16}"
      then have "unat w < 16" "w = of_nat (unat w)" by (simp_all add: word_less_nat_alt)
      then show "w \<in> of_nat ` {..<16}" by blast
    qed
    show "of_nat ` {..<16} \<subseteq> {w :: u8. w < 16}"
      by (auto simp: word_less_nat_alt unat_of_nat)
  qed
  moreover have "inj_on (of_nat :: nat \<Rightarrow> u8) {..<16}"
  proof (rule inj_onI)
    fix x y :: nat assume "x \<in> {..<16}" "y \<in> {..<16}" "of_nat x = (of_nat y :: u8)"
    then have "unat (of_nat x :: u8) = unat (of_nat y :: u8)" "x < 16" "y < 16" by simp_all
    then show "x = y" by (simp add: unat_of_nat)
  qed
  ultimately show ?thesis by (simp add: card_image)
qed

lemma funpow_period: "(f ^^ p) x = x \<Longrightarrow> (f ^^ (p + n)) x = (f ^^ n) x"
  by (metis add.commute comp_apply funpow_add)

lemma rotation_covers:
  fixes f :: "'a \<Rightarrow> 'a"
  assumes cov: "(\<lambda>i. (f ^^ Suc i) x) ` {..<N} = S" and per: "(f ^^ N) x = x" and k: "k \<in> S"
  shows "S \<subseteq> (\<lambda>i. (f ^^ Suc i) k) ` {..<N}"
proof
  fix w assume "w \<in> S"
  with cov obtain j where j: "j < N" "w = (f ^^ Suc j) x" by blast
  from k cov obtain i where i: "i < N" "k = (f ^^ Suc i) x" by blast
  define n where "n = (if i < j then j - i - 1 else N + j - i - 1)"
  have n: "n < N" "Suc n + Suc i = (if i < j then Suc j else N + Suc j)"
    using i(1) j(1) by (auto simp: n_def)
  have "(f ^^ Suc n) k = (f ^^ (Suc n + Suc i)) x" by (simp only: i(2) funpow_add comp_apply)
  also have "\<dots> = (f ^^ Suc j) x"
    using funpow_period [of N f x "Suc j", OF per] unfolding n(2) by (simp del: funpow.simps)
  finally have "w = (f ^^ Suc n) k" using j(2) by simp
  then show "w \<in> (\<lambda>i. (f ^^ Suc i) k) ` {..<N}"
    using n(1) by (intro image_eqI [of _ _ n]) simp_all
qed

lemma length_lcg16 [simp]: "length (lcg16 n m a k) = n"
  by (simp add: lcg16_eq)

lemma length_create_table [simp]: "length (cipherInit56CreateTable key) = 16"
  by (simp add: cipherInit56CreateTable_def)

lemma drop4_less: "drop_bit 4 (b :: u8) < 16"
proof -
  have b: "unat b < 256" using unsigned_less [of b, where ?'a = nat] by simp
  then have "take_bit 8 (unat b) = unat b" by (simp add: take_bit_nat_eq_self)
  then have "unat (drop_bit 4 b) = unat b div 16"
    by (simp add: unsigned_drop_bit_eq drop_bit_nat_def)
  then show ?thesis
    using b by (simp add: word_less_nat_alt less_mult_imp_div_less)
qed

lemma create_table_covers: "{w. w < 16} \<subseteq> set (cipherInit56CreateTable key)"
proof -
  define l where "l = key AND 0xF"
  define f where "f = lcg16_next (push_bit 3 (key AND 1) OR 5) ((key AND 0xE) OR 1)"
  have l: "key AND 1 = l AND 1" "key AND 0xE = l AND 0xE" "drop_bit 4 l = 0" "unat l < 16"
  proof -
    have F: "(0xF :: u8) = mask 4" by (simp add: mask_eq_exp_minus_1)
    show "key AND 1 = l AND 1" "key AND 0xE = l AND 0xE" by (simp_all add: l_def and.assoc)
    show "drop_bit 4 l = 0"
      unfolding l_def F by (rule bit_word_eqI) (simp add: bit_simps)
    show "unat l < 16" unfolding l_def F take_bit_eq_mask [symmetric] unsigned_take_bit_eq
      using take_bit_nat_less_exp [of 4 "unat key"] by simp
  qed
  have "l \<in> set (take 16 cipherInit0)"
  proof -
    have "take 16 cipherInit0 ! unat l = l" "unat l < length (take 16 cipherInit0)"
      using l(4) by (simp_all add: cipherInit0_id) (simp add: cipherInit0_def)
    then show ?thesis by (metis nth_mem)
  qed
  then have g: "distinct (cipherInit56CreateTable l)" "\<And>w. w \<in> set (cipherInit56CreateTable l) \<Longrightarrow> w < 16"
      "cipherInit56CreateTable l ! 15 = 0"
    using nibble_generators by blast+
  have T: "cipherInit56CreateTable l = map (\<lambda>i. (f ^^ Suc i) 0) [0..<16]"
    "cipherInit56CreateTable key = map (\<lambda>i. (f ^^ Suc i) (drop_bit 4 key)) [0..<16]"
    unfolding cipherInit56CreateTable_def lcg16_eq f_def l by simp_all
  have "card (set (cipherInit56CreateTable l)) = card {w :: u8. w < 16}"
    using distinct_card [OF g(1)] nibbles_card by simp
  then have "set (cipherInit56CreateTable l) = {w. w < 16}"
    using g(2) by (intro card_subset_eq) auto
  then have cov: "(\<lambda>i. (f ^^ Suc i) 0) ` {..<16} = {w. w < 16}"
    unfolding T(1) by (simp add: atLeast0LessThan del: funpow.simps)
  have per: "(f ^^ 16) 0 = 0"
    using g(3) unfolding T(1) by (simp add: eval_nat_numeral del: funpow.simps)
  from rotation_covers [OF cov per, of "drop_bit 4 key"] drop4_less [of key] show ?thesis
    unfolding T(2) by (simp add: atLeast0LessThan del: funpow.simps)
qed

text \<open>The base table: a row and a column generator give every byte once.\<close>

lemma nibbles_byte: "push_bit 4 (drop_bit 4 b) OR (b AND 0xF) = (b :: u8)"
proof -
  have F: "(0xF :: u8) = mask 4" by (simp add: mask_eq_exp_minus_1)
  show ?thesis unfolding F by (rule bit_word_eqI) (auto simp: bit_simps)
qed

lemma and15_less: "b AND 0xF < (16 :: u8)"
proof -
  have F: "(0xF :: u8) = mask 4" by (simp add: mask_eq_exp_minus_1)
  show ?thesis
    unfolding F take_bit_eq_mask [symmetric] word_less_nat_alt unsigned_take_bit_eq
    using take_bit_nat_less_exp [of 4 "unat b"] by simp
qed

lemma create_table_member:
  assumes "w < 16"
  obtains i where "i < 16" and "cipherInit56CreateTable key ! i = w"
  using assms create_table_covers [of key] length_create_table [of key] by (metis in_set_conv_nth mem_Collect_eq subsetD)

lemma length_cipher56_base: "length (cipher56_base kc) = 256"
  by (simp add: cipher56_base_def Let_def length_concat o_def sum_list_triv)

lemma cipher56_base_covers: "set (cipher56_base kc) = UNIV"
proof -
  have "b \<in> set (cipher56_base kc)" for b
  proof -
    obtain r where r: "r < 16" "cipherInit56CreateTable (kc ! 0) ! r = drop_bit 4 b"
      using create_table_member [OF drop4_less] .
    obtain c where c: "c < 16" "cipherInit56CreateTable (cipher56_seed kc ! r) ! c = b AND 0xF"
      using create_table_member [OF and15_less] .
    have "b = push_bit 4 (cipherInit56CreateTable (kc ! 0) ! r) OR cipherInit56CreateTable (cipher56_seed kc ! r) ! c"
      unfolding r(2) c(2) by (simp only: nibbles_byte)
    then show ?thesis
      using r(1) c(1) unfolding cipher56_base_def Let_def set_concat set_map
      by (auto simp: atLeast0LessThan del: imageI intro!: image_eqI [of _ _ r] image_eqI [of _ _ c])
  qed
  then show ?thesis by blast
qed

lemma cipher56_base_distinct: "distinct (cipher56_base kc)"
  by (rule distinct_if_covers) (simp_all only: length_cipher56_base cipher56_base_covers)

text \<open>The walk visits all 256 entries, so it finds the 254 bytes that are neither 0 nor 255.\<close>

fun walk_index :: "nat \<Rightarrow> nat \<Rightarrow> nat list" where
  "walk_index 0 x = []"
| "walk_index (Suc n) x = (x + 17) mod 256 # walk_index n ((x + 17) mod 256)"

definition walk_values :: "nat \<Rightarrow> u64 \<Rightarrow> u8 list \<Rightarrow> u8 list" where
  "walk_values n x base = filter (\<lambda>b. b \<noteq> 0 \<and> b \<noteq> 0xFF) (map ((!) base) (walk_index n (unat x)))"

lemma cipher56_step:
  assumes "unat x < 256"
  shows "unat ((x + 17) AND 0xFF :: u64) = (unat x + 17) mod 256"
proof -
  have F: "(0xFF :: u64) = mask 8" by (simp add: mask_eq_exp_minus_1)
  have "unat (x + 17) = unat x + 17"
    using assms by (subst unat_add_lem [THEN iffD1]) simp_all
  then show ?thesis
    unfolding F take_bit_eq_mask [symmetric] unsigned_take_bit_eq by (simp add: take_bit_eq_mod)
qed

lemma cipher56_walk_eq:
  assumes "unat x < 256" and "length table = 256" and "pos + length (walk_values n x base) \<le> 256"
  shows "cipher56_walk n x base pos table =
    Inr (take pos table @ walk_values n x base @ drop (pos + length (walk_values n x base)) table)"
  using assms
proof (induction n arbitrary: x pos table)
  case 0
  then show ?case by (simp add: walk_values_def)
next
  case (Suc n)
  define x' where "x' = (x + 17) AND 0xFF"
  have x': "unat x' = (unat x + 17) mod 256" "unat x' < 256"
    using cipher56_step [OF Suc.prems(1)] by (simp_all add: x'_def)
  define b where "b = base ! unat x'"
  have v: "walk_values (Suc n) x base = (if b \<noteq> 0 \<and> b \<noteq> 0xFF then [b] else []) @ walk_values n x' base"
    by (simp add: walk_values_def b_def x'(1))
  have w: "cipher56_walk (Suc n) x base pos table =
    (if b \<noteq> 0 \<and> b \<noteq> 0xFF then
       (if pos < 256 then cipher56_walk n x' base (pos + 1) (table[pos := b])
        else Inl (Panic ''index out of range''))
     else cipher56_walk n x' base pos table)"
    by (simp only: cipher56_walk.simps Let_def x'_def b_def)
  show ?case
  proof (cases "b \<noteq> 0 \<and> b \<noteq> 0xFF")
    case True
    then have p: "pos < 256" "pos + 1 + length (walk_values n x' base) \<le> 256"
      using Suc.prems(3) unfolding v by simp_all
    have "take (Suc pos) (table[pos := b]) = take pos table @ [b]"
      using p(1) Suc.prems(2) by (simp add: take_Suc_conv_app_nth)
    with Suc.IH [OF x'(2), of "table[pos := b]" "pos + 1"] p Suc.prems(2) True show ?thesis
      unfolding w v by simp
  next
    case False
    with Suc.IH [OF x'(2), of table pos] Suc.prems show ?thesis
      unfolding w v by auto
  qed
qed

lemma walk_index_eq: "walk_index n x = map (\<lambda>i. (x + 17 * (i + 1)) mod 256) [0..<n]"
proof (induction n arbitrary: x)
  case (Suc n)
  have "map (\<lambda>i. (x + 17 * (i + 1)) mod 256) [0..<Suc n] =
      (x + 17) mod 256 # map (\<lambda>i. ((x + 17) mod 256 + 17 * (i + 1)) mod 256) [0..<n]"
  proof -
    have "(x + 17 * (Suc i + 1)) mod 256 = ((x + 17) mod 256 + 17 * (i + 1)) mod 256" for i
    proof -
      have "x + 17 * (Suc i + 1) = x + 17 + 17 * (i + 1)" by simp
      then show ?thesis by (simp only: mod_add_left_eq)
    qed
    then show ?thesis
      by (simp only: upt_conv_Cons zero_less_Suc map_Suc_upt [symmetric] list.map map_map o_def) simp
  qed
  with Suc show ?case by simp
qed simp

lemma walk_index_distinct: "distinct (walk_index 256 0)"
proof -
  have "i = j" if "i < 256" "j < 256" "17 * (i + 1) mod 256 = 17 * (j + 1) mod (256 :: nat)" for i j
  proof -
    have "241 * (17 * (i + 1)) mod 256 = 241 * (17 * (j + 1)) mod (256 :: nat)"
      using that(3) by (metis mod_mult_right_eq)
    moreover have "241 * (17 * k) mod 256 = k mod 256" for k :: nat
    proof -
      have "241 * (17 * k) = k + 256 * (16 * k)" by simp
      then show ?thesis by (simp only: mod_mult_self2)
    qed
    ultimately have "(i + 1) mod 256 = (j + 1) mod 256" by (simp only:)
    with that(1,2) show ?thesis by (cases "i = 255"; cases "j = 255") simp_all
  qed
  then have "inj_on (\<lambda>i. 17 * (i + 1) mod 256 :: nat) (set [0..<256])"
    by (intro inj_onI) (simp only: set_upt atLeastLessThan_iff)
  then show ?thesis unfolding walk_index_eq distinct_map add_0 by (simp only: distinct_upt simp_thms)
qed

lemma length_walk_index: "length (walk_index n x) = n"
  by (simp add: walk_index_eq)

lemma set_walk_index: "set (walk_index 256 0) = {..<256}"
proof (rule card_subset_eq)
  show "set (walk_index 256 0) \<subseteq> {..<256}" by (auto simp: walk_index_eq)
  show "card (set (walk_index 256 0)) = card {..<256 :: nat}"
    using distinct_card [OF walk_index_distinct] by (simp only: length_walk_index card_lessThan)
qed simp

lemma walk_values_all:
  assumes "length base = 256" and "distinct base" and "set base = UNIV"
  shows "distinct (walk_values 256 0 base)" and "set (walk_values 256 0 base) = UNIV - {0, 0xFF}"
    and "length (walk_values 256 0 base) = 254"
proof -
  have "inj_on ((!) base) (set (walk_index 256 0))"
    using assms(1,2) unfolding set_walk_index by (simp add: inj_on_def nth_eq_iff_index_eq)
  then show d: "distinct (walk_values 256 0 base)"
    unfolding walk_values_def unsigned_0 by (intro distinct_filter) (simp only: distinct_map walk_index_distinct simp_thms)
  have "(!) base ` {..<256} = UNIV"
    using assms(1,3) by (auto simp: set_conv_nth)
  then show e: "set (walk_values 256 0 base) = UNIV - {0, 0xFF}"
    unfolding walk_values_def unsigned_0 set_filter set_map set_walk_index by auto
  show "length (walk_values 256 0 base) = 254"
    using distinct_card [OF d] unfolding e by (simp add: card_Diff_subset card_word)
qed

definition cipher56_table :: "u64 \<Rightarrow> u8 list" where
  "cipher56_table key =
     0 # walk_values 256 0 (cipher56_base (key_bytes 7 (if key \<noteq> 0 then key - 1 else key) @ [0])) @ [0xFF]"

lemma cipher56_table_ok: "cipher_table (cipher56_table key)"
proof -
  note walk_values_all [OF length_cipher56_base cipher56_base_distinct cipher56_base_covers,
      of "key_bytes 7 (if key \<noteq> 0 then key - 1 else key) @ [0]"]
  then show ?thesis by (simp add: cipher_table_def nth_append cipher56_table_def)
qed

text \<open>The table depends on the key alone, whatever the array held before.\<close>

lemma cipherInit56_eq:
  assumes "length t = 256"
  shows "cipherInit56 t key = Inr (cipher56_table key)"
proof -
  define kc where "kc = key_bytes 7 (if key \<noteq> 0 then key - 1 else key) @ [0]"
  define vs where "vs = walk_values 256 0 (cipher56_base kc)"
  note vs = walk_values_all(3) [OF length_cipher56_base [of kc] cipher56_base_distinct cipher56_base_covers, folded vs_def]
  have "cipher56_walk 256 0 (cipher56_base kc) 1 t = Inr (take 1 t @ vs @ drop 255 t)"
    using cipher56_walk_eq [of 0 t 1 256 "cipher56_base kc"] assms vs by (simp add: vs_def)
  moreover have "(take 1 t @ vs @ drop 255 t)[0 := 0, 0xFF := 0xFF] = 0 # vs @ [0xFF]"
  proof -
    obtain a r where t: "t = a # r" using assms by (cases t) auto
    have "length (drop 254 r) = 1" using assms t by simp
    then obtain z where "drop 254 r = [z]" by (metis One_nat_def length_0_conv length_Suc_conv)
    then show ?thesis using vs by (simp add: t list_update_append)
  qed
  ultimately show ?thesis
    by (simp add: cipherInit56_def cipher56_table_def Let_def flip: kc_def vs_def)
qed

lemma cipherInit_cases:
  assumes "length t = 256"
  shows "cipherInit t ciphType keycode =
    (if ciphType = 0 \<or> ciphType = 56 \<and> keycode = 0 then Inr cipherInit0
     else if ciphType = 1 then Inr cipherInit1
     else if ciphType = 56 then Inr (cipher56_table keycode)
     else Inl (Failure ''invalid cipher type''))"
  by (simp add: cipherInit_def cipherInit56_eq [OF assms] Let_def)

section \<open>What every table gives a frame\<close>

definition cipher_subst :: "int \<Rightarrow> u64 \<Rightarrow> u8 \<Rightarrow> u8" where
  "cipher_subst ciphType keycode b =
     (case cipherInit cipherInit0 ciphType keycode of Inr t \<Rightarrow> t ! unat b | Inl _ \<Rightarrow> b)"

lemma cipherInit_table:
  "length t = 256 \<Longrightarrow> cipherInit t ciphType keycode = Inr t' \<Longrightarrow> cipher_table t'"
  using cipherInit0_ok cipherInit1_ok cipher56_table_ok
  by (auto simp: cipherInit_cases split: if_splits)

lemma length_cipherInit0: "length cipherInit0 = 256"
  using cipherInit0_ok by (simp add: cipher_table_def)

interpretation cipher: byte_cipher "cipher_subst ciphType keycode" for ciphType keycode
proof (cases "cipherInit cipherInit0 ciphType keycode")
  case (Inl e)
  then show "byte_cipher (cipher_subst ciphType keycode)"
    by unfold_locales (simp_all add: cipher_subst_def)
next
  case (Inr t)
  then have "cipher_subst ciphType keycode = (\<lambda>b. t ! unat b)" by (simp add: cipher_subst_def fun_eq_iff)
  with byte_cipher_table [OF cipherInit_table [OF length_cipherInit0 Inr]]
  show "byte_cipher (cipher_subst ciphType keycode)" by simp
qed

lemma cipherDecrypt_subst:
  assumes "length t = 256" and "cipherInit t ciphType keycode = Inr t'"
  shows "cipherDecrypt t' data (length data) = map (cipher_subst ciphType keycode) data"
proof -
  have "cipherInit cipherInit0 ciphType keycode = Inr t'"
    using assms by (simp add: cipherInit_cases length_cipherInit0)
  then show ?thesis by (simp add: cipherDecrypt_def cipher_subst_def)
qed

section \<open>Properties\<close>

text \<open>
  C9: the decoder's cipher tables are permutations. For every key, and whatever the table held
  before, the types 0, 1 and 56 give a table of 256 distinct bytes that keeps 0 and 255 (so
  filling the table in the walk never runs out of it), and every other type is the error.
\<close>

theorem cipher_tables_are_permutations:
  assumes "length t = 256"
  shows "if ciphType \<in> {0, 1, 56}
    then \<exists>t'. cipherInit t ciphType keycode = Inr t' \<and> cipher_table t'
    else cipherInit t ciphType keycode = Inl (Failure ''invalid cipher type'')"
  using cipherInit_table [OF assms, of ciphType keycode] cipherInit_cases [OF assms, of ciphType keycode]
  by auto

lemma cipher_tables_are_permutations_witness:
  "\<exists>t'. cipherInit cipherInit0 56 0x30D9E8 = Inr t' \<and> cipher_table t'"
  using cipher_tables_are_permutations [where t = cipherInit0 and ciphType = 56 and keycode = "0x30D9E8",
      OF length_cipherInit0]
  by simp

text \<open>
  Decrypting a frame loses nothing. With a table the decoder built, two frames decrypt to
  the same bytes only when they are the same, every frame is the decryption of some frame of
  its length, and a frame is all zero after decryption exactly when it was before.
\<close>

theorem decryption_is_bijective:
  assumes "length t = 256" and "cipherInit t ciphType keycode = Inr t'"
  shows "(cipherDecrypt t' d (length d) = cipherDecrypt t' d' (length d') \<longleftrightarrow> d = d') \<and>
    (\<exists>c. length c = length d \<and> cipherDecrypt t' c (length c) = d) \<and>
    ((\<forall>b\<in>set (cipherDecrypt t' d (length d)). b = 0) \<longleftrightarrow> (\<forall>b\<in>set d. b = 0))"
  unfolding cipherDecrypt_subst [OF assms]
  using cipher.map_subst_inj cipher.map_subst_surj cipher.zeros_iff by (metis length_map)

lemma decryption_is_bijective_witness:
  "cipherDecrypt cipherInit1 [1, 2] 2 \<noteq> cipherDecrypt cipherInit1 [1, 3] 2"
proof -
  have "cipherInit cipherInit0 1 0 = Inr cipherInit1" by (simp add: cipherInit_def)
  from decryption_is_bijective [OF length_cipherInit0 this, of "[1, 2]" "[1, 3]"]
  show ?thesis by (simp add: numeral_2_eq_2)
qed

end
