(* ===== verification/HcaHeader.thy ===== *)
theory HcaHeader
  imports GoIO HcaBits HcaCrc HcaCipher
begin

text \<open>
  The decoder state of \<open>internal/cricodecs/hca/clhca.go\<close> and the header: the chunks
  \<open>HCA\<close>, \<open>fmt\<close>, \<open>comp\<close> or \<open>dec\<close>, \<open>vbr\<close>, \<open>ath\<close>, \<open>loop\<close>, \<open>ciph\<close>, \<open>rva\<close> and \<open>comm\<close>,
  their validation, the tables and the channels.

  The samples are of a type \<open>'f\<close>: the model never looks into a \<open>float32\<close>. A step of the decoder
  works on the state and the bit reader, and may stop with an error that leaves both as they are.
  The contract of a step is the triple \<open>runs P m Q\<close>: from a state in \<open>P\<close> it does not panic, and
  where it returns, \<open>Q\<close> holds.
\<close>

unbundle bit_operations_syntax

section \<open>The state\<close>

datatype channelType = discrete | stereoPrimary | stereoSecondary

record 'f stChannel =
  ch_channelType :: channelType
  ch_codedCount :: u64
  ch_intensity :: bytes
  ch_scaleFactors :: bytes
  ch_resolution :: bytes
  ch_noises :: bytes
  ch_noiseCount :: u64
  ch_validCount :: u64
  ch_gain :: "'f list"
  ch_spectra :: "'f list list"
  ch_temp :: "'f list"
  ch_dct :: "'f list"
  ch_imdctPrevious :: "'f list"
  ch_wave :: "'f list list"

record 'f ClHCA =
  h_isValid :: bool
  h_version :: u64
  h_headerSize :: u64
  h_channels :: u64
  h_sampleRate :: u64
  h_frameCount :: u64
  h_encoderDelay :: u64
  h_encoderPadding :: u64
  h_frameSize :: u64
  h_minResolution :: u64
  h_maxResolution :: u64
  h_trackCount :: u64
  h_channelConfig :: u64
  h_stereoType :: u64
  h_totalBandCount :: u64
  h_baseBandCount :: u64
  h_stereoBandCount :: u64
  h_bandsPerHfrGroup :: u64
  h_msStereo :: u64
  h_reserved :: u64
  h_vbrMaxFrameSize :: u64
  h_vbrNoiseLevel :: u64
  h_athType :: u64
  h_loopStartFrame :: u64
  h_loopEndFrame :: u64
  h_loopStartDelay :: u64
  h_loopEndPadding :: u64
  h_loopFlag :: u64
  h_ciphType :: u64
  h_keycode :: u64
  h_rvaVolume :: u32
  h_commentLen :: u64
  h_comment :: bytes
  h_hfrGroupCount :: u64
  h_athCurve :: bytes
  h_cipherTable :: bytes
  h_random :: u64
  h_channel :: "'f stChannel list"

definition zeroChannel :: "'f \<Rightarrow> 'f stChannel" where
  "zeroChannel z =
     \<lparr>ch_channelType = discrete, ch_codedCount = 0, ch_intensity = replicate 8 0,
      ch_scaleFactors = replicate 128 0, ch_resolution = replicate 128 0,
      ch_noises = replicate 128 0, ch_noiseCount = 0, ch_validCount = 0,
      ch_gain = replicate 128 z, ch_spectra = replicate 8 (replicate 128 z),
      ch_temp = replicate 128 z, ch_dct = replicate 128 z,
      ch_imdctPrevious = replicate 128 z, ch_wave = replicate 8 (replicate 128 z)\<rparr>"

text \<open>\<open>NewClHCA\<close> and \<open>Clear\<close>: the zero value of the struct, given the zero of \<open>float32\<close>.\<close>

definition NewClHCA :: "'f \<Rightarrow> 'f ClHCA" where
  "NewClHCA z =
     \<lparr>h_isValid = False, h_version = 0, h_headerSize = 0, h_channels = 0, h_sampleRate = 0,
      h_frameCount = 0, h_encoderDelay = 0, h_encoderPadding = 0, h_frameSize = 0,
      h_minResolution = 0, h_maxResolution = 0, h_trackCount = 0, h_channelConfig = 0,
      h_stereoType = 0, h_totalBandCount = 0, h_baseBandCount = 0, h_stereoBandCount = 0,
      h_bandsPerHfrGroup = 0, h_msStereo = 0, h_reserved = 0, h_vbrMaxFrameSize = 0,
      h_vbrNoiseLevel = 0, h_athType = 0, h_loopStartFrame = 0, h_loopEndFrame = 0,
      h_loopStartDelay = 0, h_loopEndPadding = 0, h_loopFlag = 0, h_ciphType = 0,
      h_keycode = 0, h_rvaVolume = 0, h_commentLen = 0, h_comment = replicate 256 0,
      h_hfrGroupCount = 0, h_athCurve = replicate 128 0, h_cipherTable = replicate 256 0,
      h_random = 0, h_channel = replicate 16 (zeroChannel z)\<rparr>"

section \<open>Steps\<close>

type_synonym 'f hca_state = "'f ClHCA \<times> clData"

definition br_peek :: "int \<Rightarrow> ('f hca_state, u64) io" where
  "br_peek n st = (bitreaderPeek (snd st) n, st)"

definition br_read :: "int \<Rightarrow> ('f hca_state, u64) io" where
  "br_read n st =
     (case bitreaderRead (snd st) n of
        Inl e \<Rightarrow> (Inl e, st)
      | Inr (v, br) \<Rightarrow> (Inr v, (fst st, br)))"

definition br_skip :: "int \<Rightarrow> ('f hca_state, unit) io" where
  "br_skip n st = (Inr (), (fst st, bitreaderSkip (snd st) n))"

definition modH :: "('f ClHCA \<Rightarrow> 'f ClHCA) \<Rightarrow> ('f hca_state, unit) io" where
  "modH f st = (Inr (), (f (fst st), snd st))"

text \<open>\<open>hca.field = bitreaderRead(br, n)\<close>.\<close>

definition readH :: "int \<Rightarrow> (u64 \<Rightarrow> 'f ClHCA \<Rightarrow> 'f ClHCA) \<Rightarrow> ('f hca_state, unit) io" where
  "readH n f = bindS (br_read n) (\<lambda>v. modH (f v))"

text \<open>\<open>if cond { return errors.New(msg) }\<close>.\<close>

definition failIf :: "('f ClHCA \<Rightarrow> bool) \<Rightarrow> string \<Rightarrow> ('f hca_state, unit) io" where
  "failIf P msg st = (if P (fst st) then Inl (Failure msg) else Inr (), st)"

text \<open>Statements in sequence, and \<open>if (bitreaderPeek(br, 32) & hcaMask) == tag\<close>.\<close>

fun runS :: "('s, unit) io list \<Rightarrow> ('s, unit) io" where
  "runS [] = returnS ()"
| "runS (m # ms) = bindS m (\<lambda>_. runS ms)"

definition ifTag :: "u64 \<Rightarrow> ('f hca_state, unit) io \<Rightarrow> ('f hca_state, unit) io \<Rightarrow> ('f hca_state, unit) io" where
  "ifTag tag m1 m2 = bindS (br_peek 32) (\<lambda>v. if v AND 0x7F7F7F7F = tag then m1 else m2)"

text \<open>\<open>if err := f(hca); err != nil { return err }\<close> for code that only works on the state.\<close>

definition tryH :: "('f ClHCA \<Rightarrow> go_err + 'f ClHCA) \<Rightarrow> ('f hca_state, unit) io" where
  "tryH f st = (case f (fst st) of Inl e \<Rightarrow> (Inl e, st) | Inr h \<Rightarrow> (Inr (), (h, snd st)))"

section \<open>The chunks\<close>

definition supported_version :: "u64 \<Rightarrow> bool" where
  "supported_version v \<longleftrightarrow> v \<in> {0x0101, 0x0102, 0x0103, 0x0200, 0x0300}"

definition check_header_crc :: "bytes \<Rightarrow> 'f ClHCA \<Rightarrow> go_err + 'f ClHCA" where
  "check_header_crc data h =
     bindR (crc16Checksum data (unat (h_headerSize h))) (\<lambda>c.
       if c \<noteq> 0 then Inl (Failure ''header checksum failed'') else Inr h)"

definition decodeBaseHeader :: "bytes \<Rightarrow> ('f hca_state, unit) io" where
  "decodeBaseHeader data =
     ifTag 0x48434100
       (runS
         [br_skip 32,
          readH 16 (\<lambda>v h. h\<lparr>h_version := v\<rparr>),
          readH 16 (\<lambda>v h. h\<lparr>h_headerSize := v\<rparr>),
          failIf (\<lambda>h. \<not> supported_version (h_version h)) ''unsupported HCA version'',
          failIf (\<lambda>h. of_nat (length data) < h_headerSize h) ''incomplete header'',
          tryH (check_header_crc data)])
       (throwS (Failure ''invalid HCA signature''))"

definition decodeFmtChunk :: "('f hca_state, unit) io" where
  "decodeFmtChunk =
     ifTag 0x666D7400
       (runS
         [br_skip 32,
          readH 8 (\<lambda>v h. h\<lparr>h_channels := v\<rparr>),
          readH 24 (\<lambda>v h. h\<lparr>h_sampleRate := v\<rparr>),
          readH 32 (\<lambda>v h. h\<lparr>h_frameCount := v\<rparr>),
          readH 16 (\<lambda>v h. h\<lparr>h_encoderDelay := v\<rparr>),
          readH 16 (\<lambda>v h. h\<lparr>h_encoderPadding := v\<rparr>),
          failIf (\<lambda>h. h_channels h < 1 \<or> 16 < h_channels h) ''invalid channel count'',
          failIf (\<lambda>h. h_frameCount h = 0) ''invalid frame count'',
          failIf (\<lambda>h. h_sampleRate h < 1 \<or> 0x7FFFFF < h_sampleRate h) ''invalid sample rate''])
       (throwS (Failure ''missing fmt chunk''))"

definition decodeCompChunk :: "('f hca_state, unit) io" where
  "decodeCompChunk =
     runS
       [br_skip 32,
        readH 16 (\<lambda>v h. h\<lparr>h_frameSize := v\<rparr>),
        readH 8 (\<lambda>v h. h\<lparr>h_minResolution := v\<rparr>),
        readH 8 (\<lambda>v h. h\<lparr>h_maxResolution := v\<rparr>),
        readH 8 (\<lambda>v h. h\<lparr>h_trackCount := v\<rparr>),
        readH 8 (\<lambda>v h. h\<lparr>h_channelConfig := v\<rparr>),
        readH 8 (\<lambda>v h. h\<lparr>h_totalBandCount := v\<rparr>),
        readH 8 (\<lambda>v h. h\<lparr>h_baseBandCount := v\<rparr>),
        readH 8 (\<lambda>v h. h\<lparr>h_stereoBandCount := v\<rparr>),
        readH 8 (\<lambda>v h. h\<lparr>h_bandsPerHfrGroup := v\<rparr>),
        readH 8 (\<lambda>v h. h\<lparr>h_msStereo := v\<rparr>),
        readH 8 (\<lambda>v h. h\<lparr>h_reserved := v\<rparr>)]"

definition decodeDecChunk :: "('f hca_state, unit) io" where
  "decodeDecChunk =
     runS
       [br_skip 32,
        readH 16 (\<lambda>v h. h\<lparr>h_frameSize := v\<rparr>),
        readH 8 (\<lambda>v h. h\<lparr>h_minResolution := v\<rparr>),
        readH 8 (\<lambda>v h. h\<lparr>h_maxResolution := v\<rparr>),
        readH 8 (\<lambda>v h. h\<lparr>h_totalBandCount := v + 1\<rparr>),
        readH 8 (\<lambda>v h. h\<lparr>h_baseBandCount := v + 1\<rparr>),
        readH 4 (\<lambda>v h. h\<lparr>h_trackCount := v\<rparr>),
        readH 4 (\<lambda>v h. h\<lparr>h_channelConfig := v\<rparr>),
        readH 8 (\<lambda>v h. h\<lparr>h_stereoType := v\<rparr>),
        modH (\<lambda>h. if h_stereoType h = 0 then h\<lparr>h_baseBandCount := h_totalBandCount h\<rparr> else h),
        modH (\<lambda>h. h\<lparr>h_stereoBandCount := h_totalBandCount h - h_baseBandCount h\<rparr>),
        modH (\<lambda>h. h\<lparr>h_bandsPerHfrGroup := 0\<rparr>)]"

definition decodeCompDecChunk :: "('f hca_state, unit) io" where
  "decodeCompDecChunk =
     bindS (br_peek 32) (\<lambda>v. let chunkType = v AND 0x7F7F7F7F in
       if chunkType = 0x636F6D70 then decodeCompChunk
       else if chunkType = 0x64656300 then decodeDecChunk
       else throwS (Failure ''missing comp/dec chunk''))"

definition decodeVbrChunk :: "('f hca_state, unit) io" where
  "decodeVbrChunk =
     ifTag 0x76627200
       (runS
         [br_skip 32,
          readH 16 (\<lambda>v h. h\<lparr>h_vbrMaxFrameSize := v\<rparr>),
          readH 16 (\<lambda>v h. h\<lparr>h_vbrNoiseLevel := v\<rparr>)])
       (modH (\<lambda>h. h\<lparr>h_vbrMaxFrameSize := 0, h_vbrNoiseLevel := 0\<rparr>))"

definition decodeAthChunk :: "('f hca_state, unit) io" where
  "decodeAthChunk =
     ifTag 0x61746800
       (runS [br_skip 32, readH 16 (\<lambda>v h. h\<lparr>h_athType := v\<rparr>)])
       (modH (\<lambda>h. h\<lparr>h_athType := (if h_version h < 0x0200 then 1 else 0)\<rparr>))"

definition decodeLoopChunk :: "('f hca_state, unit) io" where
  "decodeLoopChunk =
     ifTag 0x6C6F6F70
       (runS
         [br_skip 32,
          readH 32 (\<lambda>v h. h\<lparr>h_loopStartFrame := v\<rparr>),
          readH 32 (\<lambda>v h. h\<lparr>h_loopEndFrame := v\<rparr>),
          readH 16 (\<lambda>v h. h\<lparr>h_loopStartDelay := v\<rparr>),
          readH 16 (\<lambda>v h. h\<lparr>h_loopEndPadding := v\<rparr>),
          modH (\<lambda>h. h\<lparr>h_loopFlag := 1\<rparr>),
          failIf (\<lambda>h. \<not> (h_loopStartFrame h \<le> h_loopEndFrame h \<and> h_loopEndFrame h < h_frameCount h))
            ''invalid loop points''])
       (modH (\<lambda>h. h\<lparr>h_loopFlag := 0\<rparr>))"

definition decodeCipherChunk :: "('f hca_state, unit) io" where
  "decodeCipherChunk =
     ifTag 0x63697068
       (runS
         [br_skip 32,
          readH 16 (\<lambda>v h. h\<lparr>h_ciphType := v\<rparr>),
          failIf (\<lambda>h. \<not> (h_ciphType h = 0 \<or> h_ciphType h = 1 \<or> h_ciphType h = 56)) ''invalid cipher type''])
       (modH (\<lambda>h. h\<lparr>h_ciphType := 0\<rparr>))"

definition decodeRvaChunk :: "('f hca_state, unit) io" where
  "decodeRvaChunk =
     ifTag 0x72766100
       (runS [br_skip 32, readH 32 (\<lambda>v h. h\<lparr>h_rvaVolume := ucast v\<rparr>)])
       (modH (\<lambda>h. h\<lparr>h_rvaVolume := 0x3F800000\<rparr>))"

text \<open>\<open>hca.comment[i] = b\<close>: the array has 256 bytes.\<close>

definition put_comment :: "nat \<Rightarrow> u8 \<Rightarrow> 'f ClHCA \<Rightarrow> go_err + 'f ClHCA" where
  "put_comment i b h =
     (if i < length (h_comment h) then Inr (h\<lparr>h_comment := (h_comment h)[i := b]\<rparr>)
      else Inl (Panic ''index out of range''))"

fun comment_loop :: "nat \<Rightarrow> nat \<Rightarrow> ('f hca_state, unit) io" where
  "comment_loop 0 i = returnS ()"
| "comment_loop (Suc n) i =
     bindS (br_read 8) (\<lambda>v. bindS (tryH (put_comment i (ucast v))) (\<lambda>_. comment_loop n (Suc i)))"

definition decodeCommentChunk :: "('f hca_state, unit) io" where
  "decodeCommentChunk =
     ifTag 0x636F6D6D
       (runS
         [br_skip 32,
          readH 8 (\<lambda>v h. h\<lparr>h_commentLen := v\<rparr>),
          (\<lambda>st. comment_loop (unat (h_commentLen (fst st))) 0 st),
          tryH (\<lambda>h. put_comment (unat (h_commentLen h)) 0 h)])
       (modH (\<lambda>h. h\<lparr>h_commentLen := 0\<rparr>))"

definition decodeChunks :: "('f hca_state, unit) io" where
  "decodeChunks =
     runS [decodeFmtChunk, decodeCompDecChunk, decodeVbrChunk, decodeAthChunk, decodeLoopChunk,
           decodeCipherChunk, decodeRvaChunk, decodeCommentChunk]"

section \<open>Validation and initialisation\<close>

definition headerCeil2 :: "u64 \<Rightarrow> u64 \<Rightarrow> u64" where
  "headerCeil2 a b =
     (if b < 1 then 0 else let result = a div b in if a mod b \<noteq> 0 then result + 1 else result)"

definition validateFrameAndResolution :: "'f ClHCA \<Rightarrow> go_err + 'f ClHCA" where
  "validateFrameAndResolution h =
     (if h_frameSize h < 8 \<or> 0xFFFF < h_frameSize h then Inl (Failure ''invalid frame size'')
      else if h_version h \<le> 0x0200 then
        (if h_minResolution h \<noteq> 1 \<or> h_maxResolution h \<noteq> 15
         then Inl (Failure ''invalid resolution for version'') else Inr h)
      else if h_minResolution h > h_maxResolution h \<or> h_maxResolution h > 15
      then Inl (Failure ''invalid resolution range'')
      else Inr h)"

definition validateTracksAndBands :: "'f ClHCA \<Rightarrow> go_err + 'f ClHCA" where
  "validateTracksAndBands h =
     (let h = (if h_trackCount h = 0 then h\<lparr>h_trackCount := 1\<rparr> else h) in
      if h_trackCount h > h_channels h then Inl (Failure ''track count exceeds channels'')
      else if h_totalBandCount h > 128 \<or> h_baseBandCount h > 128 \<or> h_stereoBandCount h > 128 \<or>
              h_baseBandCount h + h_stereoBandCount h > 128 \<or> h_bandsPerHfrGroup h > 128
      then Inl (Failure ''invalid band configuration'')
      else Inr (h\<lparr>h_hfrGroupCount :=
             headerCeil2 (h_totalBandCount h - h_baseBandCount h - h_stereoBandCount h)
               (h_bandsPerHfrGroup h)\<rparr>))"

text \<open>The assignments of the \<open>switch\<close> over the channels of a track.\<close>

definition track_types :: "u64 \<Rightarrow> u64 \<Rightarrow> channelType list" where
  "track_types channelsPerTrack channelConfig =
     (if channelsPerTrack = 2 then [stereoPrimary, stereoSecondary]
      else if channelsPerTrack = 3 then [stereoPrimary, stereoSecondary, discrete]
      else if channelsPerTrack = 4 then
        [stereoPrimary, stereoSecondary] @
        (if channelConfig = 0 then [stereoPrimary, stereoSecondary] else [discrete, discrete])
      else if channelsPerTrack = 5 then
        [stereoPrimary, stereoSecondary, discrete] @
        (if channelConfig \<le> 2 then [stereoPrimary, stereoSecondary] else [discrete, discrete])
      else if channelsPerTrack = 6 then
        [stereoPrimary, stereoSecondary, discrete, discrete, stereoPrimary, stereoSecondary]
      else if channelsPerTrack = 7 then
        [stereoPrimary, stereoSecondary, discrete, discrete, stereoPrimary, stereoSecondary, discrete]
      else if channelsPerTrack = 8 then
        [stereoPrimary, stereoSecondary, discrete, discrete, stereoPrimary, stereoSecondary,
         stereoPrimary, stereoSecondary]
      else [])"

text \<open>\<open>ct := channelTypes[base:]\<close> and the assignments to its elements.\<close>

definition store_types :: "nat \<Rightarrow> channelType list \<Rightarrow> channelType list \<Rightarrow> go_err + channelType list" where
  "store_types base ct types =
     (if base + length ct \<le> length types
      then Inr (take base types @ ct @ drop (base + length ct) types)
      else Inl (Panic ''index out of range''))"

fun tracks_loop :: "nat \<Rightarrow> u64 \<Rightarrow> u64 \<Rightarrow> u64 \<Rightarrow> channelType list \<Rightarrow> go_err + channelType list" where
  "tracks_loop 0 i cpt cfg types = Inr types"
| "tracks_loop (Suc n) i cpt cfg types =
     bindR (store_types (unat (i * cpt)) (track_types cpt cfg) types) (tracks_loop n (i + 1) cpt cfg)"

definition set_channel :: "'f ClHCA \<Rightarrow> channelType \<Rightarrow> 'f stChannel \<Rightarrow> 'f stChannel" where
  "set_channel h t c =
     c\<lparr>ch_channelType := t,
       ch_codedCount := (if t \<noteq> stereoSecondary then h_baseBandCount h + h_stereoBandCount h
                         else h_baseBandCount h)\<rparr>"

fun channels_loop :: "nat \<Rightarrow> nat \<Rightarrow> channelType list \<Rightarrow> 'f ClHCA \<Rightarrow> go_err + 'f ClHCA" where
  "channels_loop 0 i types h = Inr h"
| "channels_loop (Suc n) i types h =
     (if i < length (h_channel h) \<and> i < length types
      then channels_loop n (Suc i) types
             (h\<lparr>h_channel := (h_channel h)[i := set_channel h (types ! i) (h_channel h ! i)]\<rparr>)
      else Inl (Panic ''index out of range''))"

definition initChannels :: "'f ClHCA \<Rightarrow> go_err + 'f ClHCA" where
  "initChannels h =
     (if h_trackCount h = 0 then Inl (Panic ''integer divide by zero'')
      else
        let channelsPerTrack = h_channels h div h_trackCount h in
        bindR (if h_stereoBandCount h > 0 \<and> channelsPerTrack > 1
               then tracks_loop (unat (h_trackCount h)) 0 channelsPerTrack (h_channelConfig h)
                      (replicate 16 discrete)
               else Inr (replicate 16 discrete))
          (\<lambda>types. channels_loop (unat (h_channels h)) 0 types h))"

definition initializeDecoderState :: "'f ClHCA \<Rightarrow> go_err + 'f ClHCA" where
  "initializeDecoderState h =
     bindR (athInit (sint (h_athType h)) (h_sampleRate h)) (\<lambda>ath.
     bindR (cipherInit (h_cipherTable h) (sint (h_ciphType h)) (h_keycode h)) (\<lambda>t.
     bindR (initChannels (h\<lparr>h_athCurve := ath, h_cipherTable := t\<rparr>)) (\<lambda>h.
       let h = h\<lparr>h_random := 1\<rparr> in
       if h_msStereo h \<noteq> 0 then Inl (Failure ''MS stereo not fully supported'') else Inr h)))"

definition validateAndInitialize :: "'f ClHCA \<Rightarrow> go_err + 'f ClHCA" where
  "validateAndInitialize h =
     bindR (validateFrameAndResolution h) (\<lambda>h.
     bindR (validateTracksAndBands h) initializeDecoderState)"

text \<open>\<open>DecodeHeader\<close>: an error leaves the decoder marked as not valid.\<close>

definition DecodeHeader :: "bytes \<Rightarrow> 'f ClHCA \<Rightarrow> (go_err + unit) \<times> 'f ClHCA" where
  "DecodeHeader data h =
     (if length data < 8 then (Inl (Failure ''data too small''), h)
      else
        case runS [decodeBaseHeader data, decodeChunks, tryH validateAndInitialize]
               (h\<lparr>h_isValid := False\<rparr>, bitreaderInit data (int (length data))) of
          (Inl e, (h, _)) \<Rightarrow> (Inl e, h)
        | (Inr _, (h, _)) \<Rightarrow> (Inr (), h\<lparr>h_isValid := True\<rparr>))"

section \<open>Other operations\<close>

definition hcaErrorParams :: int where "hcaErrorParams = - 1"
definition hcaErrorHeader :: int where "hcaErrorHeader = - 2"

definition IsOurFile :: "bytes \<Rightarrow> go_err + int" where
  "IsOurFile data =
     (if length data < 8 then Inr hcaErrorParams
      else
        let br = bitreaderInit data 8 in
        bindR (bitreaderPeek br 32) (\<lambda>v.
          if v AND 0x7F7F7F7F = 0x48434100 then
            bindR (bitreaderRead (bitreaderSkip br (32 + 16)) 16) (\<lambda>(headerSize, br).
              if headerSize = 0 then Inr hcaErrorHeader else Inr (sint headerSize))
          else Inr hcaErrorHeader))"

definition SetKey :: "u64 \<Rightarrow> 'f ClHCA \<Rightarrow> 'f ClHCA" where
  "SetKey keycode h =
     (let h = h\<lparr>h_keycode := keycode\<rparr> in
      if h_isValid h then
        case cipherInit (h_cipherTable h) (sint (h_ciphType h)) (h_keycode h) of
          Inr t \<Rightarrow> h\<lparr>h_cipherTable := t\<rparr>
        | Inl _ \<Rightarrow> h
      else h)"

record CriWareHCAInfo =
  in_Version :: u64
  in_HeaderSize :: u64
  in_SamplingRate :: u64
  in_ChannelCount :: u64
  in_BlockSize :: u64
  in_BlockCount :: u64
  in_EncoderDelay :: u64
  in_EncoderPadding :: u64
  in_LoopEnabled :: u64
  in_LoopStartBlock :: u64
  in_LoopEndBlock :: u64
  in_LoopStartDelay :: u64
  in_LoopEndPadding :: u64
  in_SamplesPerBlock :: u64
  in_Comment :: bytes
  in_EncryptionEnabled :: bool

definition GetInfo :: "'f ClHCA \<Rightarrow> go_err + CriWareHCAInfo" where
  "GetInfo h =
     (if \<not> h_isValid h then Inl (Failure ''decoder not initialized'')
      else Inr
        \<lparr>in_Version = h_version h, in_HeaderSize = h_headerSize h, in_SamplingRate = h_sampleRate h,
         in_ChannelCount = h_channels h, in_BlockSize = h_frameSize h, in_BlockCount = h_frameCount h,
         in_EncoderDelay = h_encoderDelay h, in_EncoderPadding = h_encoderPadding h,
         in_LoopEnabled = h_loopFlag h, in_LoopStartBlock = h_loopStartFrame h,
         in_LoopEndBlock = h_loopEndFrame h, in_LoopStartDelay = h_loopStartDelay h,
         in_LoopEndPadding = h_loopEndPadding h, in_SamplesPerBlock = 1024,
         in_Comment = (if h_commentLen h > 0 then take (unat (h_commentLen h)) (h_comment h) else []),
         in_EncryptionEnabled = (h_ciphType h = 56)\<rparr>)"

text \<open>\<open>DecodeReset\<close>: the overlap of the first \<open>channels\<close> channels is cleared.\<close>

definition DecodeReset :: "'f \<Rightarrow> 'f ClHCA \<Rightarrow> 'f ClHCA" where
  "DecodeReset z h =
     (if \<not> h_isValid h then h
      else h\<lparr>h_random := 1,
             h_channel := map (\<lambda>(i, c). if i < unat (h_channels h)
                 then c\<lparr>ch_imdctPrevious := replicate 128 z\<rparr> else c)
               (enumerate 0 (h_channel h))\<rparr>)"

section \<open>The reader between two fields\<close>

definition rdr :: "bytes \<Rightarrow> nat \<Rightarrow> clData" where
  "rdr data b = \<lparr>cl_data = data, cl_size = 8 * int (length data), cl_bit = int b\<rparr>"

text \<open>The \<open>k\<close> bytes at offset \<open>p\<close> as a number, zero where the data are too short.\<close>

definition field :: "bytes \<Rightarrow> nat \<Rightarrow> nat \<Rightarrow> u64" where
  "field data p k = (if p + k \<le> length data then be_word (take k (drop p data)) else 0)"

definition nibble :: "bytes \<Rightarrow> nat \<Rightarrow> u64" where
  "nibble data b = (if b + 4 \<le> 8 * length data then bits_at data b 4 else 0)"

lemma bitreaderInit_rdr: "bitreaderInit data (int (length data)) = rdr data 0"
  by (simp add: bitreaderInit_def rdr_def)

lemma bitreaderSkip_rdr: "bitreaderSkip (rdr data b) (int n) = rdr data (b + n)"
  by (simp add: bitreaderSkip_def rdr_def)

lemma reader_ok_rdr [simp]: "reader_ok (rdr data b)"
  by (simp add: reader_ok_def rdr_def)

lemma rdr_simps [simp]:
  "cl_data (rdr data b) = data" "cl_size (rdr data b) = 8 * int (length data)"
  "cl_bit (rdr data b) = int b"
  by (simp_all add: rdr_def)

lemma bits_at_bytes:
  assumes "p + k \<le> length data" and "0 < k" and "k \<le> 4"
  shows "bits_at data (8 * p) (8 * k) = be_word (take k (drop p data))"
proof -
  have len: "length (take k (drop p data)) = k" using assms(1) by simp
  have "(be_word (take k (drop p data)) :: u64) AND mask (8 * k) = be_word (take k (drop p data))"
    using bit_be_word_less [of "take k (drop p data)"] unfolding len
    by (intro bit_word_eqI) (auto simp: bit_simps)
  with window_bits [of 0 "8 * k" k p data] assms show ?thesis by simp
qed

lemma peek_field:
  assumes "0 < k" and "k \<le> 4"
  shows "bitreaderPeek (rdr data (8 * p)) (int (8 * k)) = Inr (field data p k)"
proof (cases "p + k \<le> length data")
  case False
  then have "8 * int (length data) < int (8 * p) + int (8 * k)" by linarith
  with False show ?thesis by (simp add: bitreaderPeek_eq field_def)
next
  case True
  then have len: "\<not> 8 * int (length data) < int (8 * p) + int (8 * k)" by linarith
  have "bit_window (rdr data (8 * p)) (int (8 * k)) = int (8 * k)"
  proof -
    have "(int (8 * k) + int (8 * p) mod 8 + 7) div 8 = int k" by simp
    then show ?thesis by (simp add: bit_window_def)
  qed
  moreover have "int (8 * k) \<le> 8 * int (length data) - int (8 * p)" using len by linarith
  moreover have "nat (int (8 * k)) = 8 * k" "nat (int (8 * p)) = 8 * p" by simp_all
  ultimately show ?thesis
    using assms True len bits_at_bytes [OF True assms]
    by (simp add: bitreaderPeek_eq field_def)
qed

lemma peek_nibble:
  assumes "b mod 8 \<le> 4"
  shows "bitreaderPeek (rdr data b) 4 = Inr (nibble data b)"
proof -
  have "bit_window (rdr data b) 4 = 8"
  proof -
    have "(4 + int (b mod 8) + 7) div 8 = 1" using assms by presburger
    then have "(4 + int b mod 8 + 7) div 8 = 1" by (simp add: zmod_int)
    then show ?thesis by (simp add: bit_window_def)
  qed
  then show ?thesis by (auto simp: bitreaderPeek_eq nibble_def)
qed

lemma field_less: "k \<le> 4 \<Longrightarrow> unat (field data p k) < 2 ^ (8 * k)"
proof (cases "p + k \<le> length data")
  case True
  assume k: "k \<le> 4"
  have len: "length (take k (drop p data)) = k" using True by simp
  have "take_bit (8 * k) (be_word (take k (drop p data)) :: u64) = be_word (take k (drop p data))"
    using bit_be_word_less [of "take k (drop p data)"] unfolding len
    by (intro bit_word_eqI) (auto simp: bit_simps)
  then have "unat (be_word (take k (drop p data)) :: u64) = take_bit (8 * k) (unat (be_word (take k (drop p data)) :: u64))"
    by (metis unsigned_take_bit_eq)
  with True show ?thesis by (simp add: field_def) (metis take_bit_nat_less_exp)
qed (simp add: field_def)

text \<open>The reader at a byte, and in the middle of one; every step moves it from one to the next.\<close>

definition at8 :: "bytes \<Rightarrow> nat \<Rightarrow> clData" where
  "at8 data p = rdr data (8 * p)"

definition at4 :: "bytes \<Rightarrow> nat \<Rightarrow> clData" where
  "at4 data p = rdr data (8 * p + 4)"

named_theorems hca_step \<open>one step of the header decoder on a state with a known position\<close>

lemma read_field:
  assumes "0 < k" and "k \<le> 4"
  shows "bitreaderRead (at8 data p) (int (8 * k)) = Inr (field data p k, at8 data (p + k))"
  using peek_field [OF assms, of data p] bitreaderSkip_rdr [of data "8 * p" "8 * k"]
  by (simp add: bitreaderRead_def at8_def)

lemma readH_field:
  assumes "0 < k" and "k \<le> 4"
  shows "readH (int (8 * k)) f (h, at8 data p) = (Inr (), (f (field data p k) h, at8 data (p + k)))"
  using read_field [OF assms, of data p]
  by (simp add: readH_def br_read_def bindS_def modH_def)

lemmas readH_fields [hca_step] =
  readH_field [of 1, simplified] readH_field [of 2, simplified]
  readH_field [of 3, simplified] readH_field [of 4, simplified]

lemma readH_nibble [hca_step]:
  "readH 4 f (h, at8 data p) = (Inr (), (f (nibble data (8 * p)) h, at4 data p))"
  "readH 4 f (h, at4 data p) = (Inr (), (f (nibble data (8 * p + 4)) h, at8 data (p + 1)))"
  using peek_nibble [of "8 * p" data] peek_nibble [of "8 * p + 4" data]
    bitreaderSkip_rdr [of data "8 * p" 4] bitreaderSkip_rdr [of data "8 * p + 4" 4]
  by (simp_all add: readH_def br_read_def bitreaderRead_def bindS_def modH_def at8_def at4_def algebra_simps)

lemma br_skip_32 [hca_step]: "br_skip 32 (h, at8 data p) = (Inr (), (h, at8 data (p + 4)))"
  using bitreaderSkip_rdr [of data "8 * p" 32] by (simp add: br_skip_def at8_def algebra_simps)

lemma modH_step [hca_step]: "modH f (h, br) = (Inr (), (f h, br))"
  by (simp add: modH_def)

lemma failIf_step [hca_step]:
  "failIf P msg (h, br) = (if P h then (Inl (Failure msg), (h, br)) else (Inr (), (h, br)))"
  by (simp add: failIf_def)

lemma tryH_step [hca_step]:
  "tryH f (h, br) = (case f h of Inl e \<Rightarrow> (Inl e, (h, br)) | Inr h' \<Rightarrow> (Inr (), (h', br)))"
  by (simp add: tryH_def split: sum.split)

lemma ifTag_step [hca_step]:
  "ifTag tag m1 m2 (h, at8 data p) =
     (if field data p 4 AND 0x7F7F7F7F = tag then m1 (h, at8 data p) else m2 (h, at8 data p))"
  using peek_field [of 4 data p] by (simp add: ifTag_def br_peek_def bindS_def at8_def)

declare bindS_Inr [hca_step]

lemma runS_step [hca_step]:
  "m s = (Inr (), t) \<Longrightarrow> runS (m # ms) s = runS ms t"
  "m s = (Inl e, t) \<Longrightarrow> runS (m # ms) s = (Inl e, t)"
  "runS [] s = (Inr (), s)"
  by (simp_all add: bindS_def returnS_def)

lemma runS_if [hca_step]:
  "m s = (if b then (Inl e, t) else (Inr (), u)) \<Longrightarrow>
   runS (m # ms) s = (if b then (Inl e, t) else runS ms u)"
  by (simp add: bindS_def)

declare runS.simps [simp del]

section \<open>What each chunk does\<close>

text \<open>Each chunk is read from the byte where the reader stands; its fields follow the tag.\<close>

definition tag_at :: "bytes \<Rightarrow> nat \<Rightarrow> u64" where
  "tag_at data p = field data p 4 AND 0x7F7F7F7F"

definition fmt_fields :: "bytes \<Rightarrow> nat \<Rightarrow> 'f ClHCA \<Rightarrow> 'f ClHCA" where
  "fmt_fields data p h =
     h\<lparr>h_channels := field data (4 + p) 1, h_sampleRate := field data (5 + p) 3,
       h_frameCount := field data (8 + p) 4, h_encoderDelay := field data (12 + p) 2,
       h_encoderPadding := field data (14 + p) 2\<rparr>"

lemma fmt_chunk:
  "decodeFmtChunk (h, at8 data p) =
    (let h' = fmt_fields data p h; st = (h', at8 data (16 + p)) in
     if tag_at data p = 0x666D7400 then
       (if h_channels h' < 1 \<or> 16 < h_channels h' then (Inl (Failure ''invalid channel count''), st)
        else if h_frameCount h' = 0 then (Inl (Failure ''invalid frame count''), st)
        else if h_sampleRate h' < 1 \<or> 0x7FFFFF < h_sampleRate h' then (Inl (Failure ''invalid sample rate''), st)
        else (Inr (), st))
     else (Inl (Failure ''missing fmt chunk''), (h, at8 data p)))"
  by (simp add: decodeFmtChunk_def hca_step Let_def throwS_def tag_at_def fmt_fields_def
      add.commute add.left_commute cong: if_cong)

definition comp_fields :: "bytes \<Rightarrow> nat \<Rightarrow> 'f ClHCA \<Rightarrow> 'f ClHCA" where
  "comp_fields data p h =
     h\<lparr>h_frameSize := field data (4 + p) 2, h_minResolution := field data (6 + p) 1,
       h_maxResolution := field data (7 + p) 1, h_trackCount := field data (8 + p) 1,
       h_channelConfig := field data (9 + p) 1, h_totalBandCount := field data (10 + p) 1,
       h_baseBandCount := field data (11 + p) 1, h_stereoBandCount := field data (12 + p) 1,
       h_bandsPerHfrGroup := field data (13 + p) 1, h_msStereo := field data (14 + p) 1,
       h_reserved := field data (15 + p) 1\<rparr>"

definition dec_fields :: "bytes \<Rightarrow> nat \<Rightarrow> 'f ClHCA \<Rightarrow> 'f ClHCA" where
  "dec_fields data p h =
     (let total = field data (8 + p) 1 + 1; stereo = field data (11 + p) 1;
          base = (if stereo = 0 then total else field data (9 + p) 1 + 1) in
      h\<lparr>h_frameSize := field data (4 + p) 2, h_minResolution := field data (6 + p) 1,
        h_maxResolution := field data (7 + p) 1, h_totalBandCount := total, h_baseBandCount := base,
        h_trackCount := nibble data (8 * (10 + p)), h_channelConfig := nibble data (8 * (10 + p) + 4),
        h_stereoType := stereo, h_stereoBandCount := total - base, h_bandsPerHfrGroup := 0\<rparr>)"

lemma comp_dec_chunk:
  "decodeCompDecChunk (h, at8 data p) =
    (if tag_at data p = 0x636F6D70 then (Inr (), (comp_fields data p h, at8 data (16 + p)))
     else if tag_at data p = 0x64656300 then (Inr (), (dec_fields data p h, at8 data (12 + p)))
     else (Inl (Failure ''missing comp/dec chunk''), (h, at8 data p)))"
proof -
  have c: "decodeCompChunk (h, at8 data p) = (Inr (), (comp_fields data p h, at8 data (16 + p)))"
    by (simp add: decodeCompChunk_def hca_step comp_fields_def add.commute add.left_commute)
  have d: "decodeDecChunk (h, at8 data p) = (Inr (), (dec_fields data p h, at8 data (12 + p)))"
    by (simp add: decodeDecChunk_def hca_step dec_fields_def Let_def add.commute add.left_commute)
  show ?thesis
    using peek_field [of 4 data p]
    by (simp add: decodeCompDecChunk_def br_peek_def bindS_def at8_def [symmetric] tag_at_def c d throwS_def Let_def)
qed

definition base_fields :: "bytes \<Rightarrow> 'f ClHCA \<Rightarrow> 'f ClHCA" where
  "base_fields data h = h\<lparr>h_version := field data 4 2, h_headerSize := field data 6 2\<rparr>"

lemma runS_single: "runS [m] s = m s"
  by (auto simp: runS.simps bindS_def returnS_def split: prod.splits sum.splits)

lemma base_header:
  "decodeBaseHeader data (h, at8 data 0) =
    (let h' = base_fields data h; st = (h', at8 data 8) in
     if tag_at data 0 = 0x48434100 then
       (if \<not> supported_version (h_version h') then (Inl (Failure ''unsupported HCA version''), st)
        else if of_nat (length data) < h_headerSize h' then (Inl (Failure ''incomplete header''), st)
        else tryH (check_header_crc data) st)
     else (Inl (Failure ''invalid HCA signature''), (h, at8 data 0)))"
  by (simp add: decodeBaseHeader_def hca_step runS_single Let_def throwS_def tag_at_def base_fields_def
      del: tryH_step cong: if_cong)

definition vbr_fields :: "bytes \<Rightarrow> nat \<Rightarrow> 'f ClHCA \<Rightarrow> 'f ClHCA" where
  "vbr_fields data p h =
     (if tag_at data p = 0x76627200
      then h\<lparr>h_vbrMaxFrameSize := field data (4 + p) 2, h_vbrNoiseLevel := field data (6 + p) 2\<rparr>
      else h\<lparr>h_vbrMaxFrameSize := 0, h_vbrNoiseLevel := 0\<rparr>)"

lemma vbr_chunk:
  "decodeVbrChunk (h, at8 data p) =
    (Inr (), (vbr_fields data p h, at8 data (if tag_at data p = 0x76627200 then 8 + p else p)))"
  by (simp add: decodeVbrChunk_def hca_step vbr_fields_def tag_at_def add.commute add.left_commute)

definition ath_fields :: "bytes \<Rightarrow> nat \<Rightarrow> 'f ClHCA \<Rightarrow> 'f ClHCA" where
  "ath_fields data p h =
     h\<lparr>h_athType := (if tag_at data p = 0x61746800 then field data (4 + p) 2
                     else if h_version h < 0x0200 then 1 else 0)\<rparr>"

lemma ath_chunk:
  "decodeAthChunk (h, at8 data p) =
    (Inr (), (ath_fields data p h, at8 data (if tag_at data p = 0x61746800 then 6 + p else p)))"
  by (simp add: decodeAthChunk_def hca_step ath_fields_def tag_at_def add.commute add.left_commute)

definition loop_fields :: "bytes \<Rightarrow> nat \<Rightarrow> 'f ClHCA \<Rightarrow> 'f ClHCA" where
  "loop_fields data p h =
     (if tag_at data p = 0x6C6F6F70
      then h\<lparr>h_loopStartFrame := field data (4 + p) 4, h_loopEndFrame := field data (8 + p) 4,
             h_loopStartDelay := field data (12 + p) 2, h_loopEndPadding := field data (14 + p) 2,
             h_loopFlag := 1\<rparr>
      else h\<lparr>h_loopFlag := 0\<rparr>)"

lemma loop_chunk:
  "decodeLoopChunk (h, at8 data p) =
    (let h' = loop_fields data p h; st = (h', at8 data (if tag_at data p = 0x6C6F6F70 then 16 + p else p)) in
     if h_loopFlag h' = 1 \<and> \<not> (h_loopStartFrame h' \<le> h_loopEndFrame h' \<and> h_loopEndFrame h' < h_frameCount h')
     then (Inl (Failure ''invalid loop points''), st)
     else (Inr (), st))"
  by (simp add: decodeLoopChunk_def hca_step loop_fields_def tag_at_def Let_def add.commute add.left_commute)

definition cipher_fields :: "bytes \<Rightarrow> nat \<Rightarrow> 'f ClHCA \<Rightarrow> 'f ClHCA" where
  "cipher_fields data p h =
     h\<lparr>h_ciphType := (if tag_at data p = 0x63697068 then field data (4 + p) 2 else 0)\<rparr>"

lemma cipher_chunk:
  "decodeCipherChunk (h, at8 data p) =
    (let h' = cipher_fields data p h; st = (h', at8 data (if tag_at data p = 0x63697068 then 6 + p else p)) in
     if h_ciphType h' \<in> {0, 1, 56} then (Inr (), st) else (Inl (Failure ''invalid cipher type''), st))"
  by (auto simp: decodeCipherChunk_def hca_step cipher_fields_def tag_at_def Let_def add.commute add.left_commute)

definition rva_fields :: "bytes \<Rightarrow> nat \<Rightarrow> 'f ClHCA \<Rightarrow> 'f ClHCA" where
  "rva_fields data p h =
     h\<lparr>h_rvaVolume := (if tag_at data p = 0x72766100 then ucast (field data (4 + p) 4) else 0x3F800000)\<rparr>"

lemma rva_chunk:
  "decodeRvaChunk (h, at8 data p) =
    (Inr (), (rva_fields data p h, at8 data (if tag_at data p = 0x72766100 then 8 + p else p)))"
  by (simp add: decodeRvaChunk_def hca_step rva_fields_def tag_at_def add.commute add.left_commute)

text \<open>The comment: one byte per round, into an array of 256 bytes that always has room.\<close>

fun put_bytes :: "bytes \<Rightarrow> nat \<Rightarrow> nat \<Rightarrow> nat \<Rightarrow> bytes \<Rightarrow> bytes" where
  "put_bytes data p 0 i c = c"
| "put_bytes data p (Suc n) i c = put_bytes data (Suc p) n (Suc i) (c[i := ucast (field data p 1)])"

lemma length_put_bytes [simp]: "length (put_bytes data p n i c) = length c"
  by (induction n arbitrary: p i c) simp_all

lemma comment_loop_eq:
  "i + n \<le> length (h_comment h) \<Longrightarrow>
   comment_loop n i (h, at8 data p) =
     (Inr (), (h\<lparr>h_comment := put_bytes data p n i (h_comment h)\<rparr>, at8 data (n + p)))"
proof (induction n arbitrary: i h p)
  case 0
  then show ?case by simp
next
  case (Suc n)
  have "br_read 8 (h, at8 data p) = (Inr (field data p 1), (h, at8 data (Suc p)))"
    using read_field [of 1 data p] by (simp add: br_read_def)
  with Suc show ?case
    by (simp add: hca_step put_comment_def)
qed

definition comment_fields :: "bytes \<Rightarrow> nat \<Rightarrow> 'f ClHCA \<Rightarrow> 'f ClHCA" where
  "comment_fields data p h =
     (if tag_at data p = 0x636F6D6D
      then let n = field data (4 + p) 1 in
        h\<lparr>h_commentLen := n,
          h_comment := (put_bytes data (5 + p) (unat n) 0 (h_comment h))[unat n := 0]\<rparr>
      else h\<lparr>h_commentLen := 0\<rparr>)"

lemma comment_chunk:
  assumes "length (h_comment h) = 256"
  shows "decodeCommentChunk (h, at8 data p) =
    (Inr (), (comment_fields data p h,
       at8 data (if tag_at data p = 0x636F6D6D then unat (field data (4 + p) 1) + (5 + p) else p)))"
proof -
  have lt: "unat (field data (4 + p) 1) < 256" using field_less [of 1 data "4 + p"] by simp
  then have l: "(\<lambda>st. comment_loop (unat (h_commentLen (fst st))) 0 st)
      (h\<lparr>h_commentLen := field data (4 + p) 1\<rparr>, at8 data (5 + p)) =
    (Inr (), (h\<lparr>h_commentLen := field data (4 + p) 1,
        h_comment := put_bytes data (5 + p) (unat (field data (4 + p) 1)) 0 (h_comment h)\<rparr>,
      at8 data (unat (field data (4 + p) 1) + (5 + p))))"
    using assms comment_loop_eq [of 0 "unat (field data (4 + p) 1)" "h\<lparr>h_commentLen := field data (4 + p) 1\<rparr>" data "5 + p"]
    by simp
  show ?thesis
    using lt assms l
    by (simp add: decodeCommentChunk_def hca_step comment_fields_def tag_at_def put_comment_def Let_def
        add.commute add.left_commute)
qed

section \<open>The channels\<close>

text \<open>In a list of channel types, a primary channel is followed by its secondary one.\<close>

definition paired :: "channelType list \<Rightarrow> bool" where
  "paired ts \<longleftrightarrow>
     (\<forall>k<length ts. ts ! k = stereoPrimary \<longrightarrow> Suc k < length ts \<and> ts ! Suc k = stereoSecondary) \<and>
     (\<forall>k<length ts. ts ! k = stereoSecondary \<longrightarrow> 0 < k \<and> ts ! (k - 1) = stereoPrimary)"

lemma paired_Nil [simp]: "paired []"
  by (simp add: paired_def)

lemma paired_append:
  assumes a: "paired a" and b: "paired b"
  shows "paired (a @ b)"
  unfolding paired_def
proof (intro conjI allI impI)
  fix k assume k: "k < length (a @ b)" "(a @ b) ! k = stereoPrimary"
  show "Suc k < length (a @ b)" "(a @ b) ! Suc k = stereoSecondary"
  proof -
    have "Suc k < length (a @ b) \<and> (a @ b) ! Suc k = stereoSecondary"
    proof (cases "k < length a")
      case True
      with k a show ?thesis by (auto simp: paired_def nth_append)
    next
      case False
      then obtain j where j: "k = length a + j" using le_Suc_ex not_less by blast
      with k b have "Suc j < length b" "b ! Suc j = stereoSecondary"
        by (auto simp: paired_def)
      with j show ?thesis by (simp add: nth_append)
    qed
    then show "Suc k < length (a @ b)" "(a @ b) ! Suc k = stereoSecondary" by simp_all
  qed
next
  fix k assume k: "k < length (a @ b)" "(a @ b) ! k = stereoSecondary"
  have "0 < k \<and> (a @ b) ! (k - 1) = stereoPrimary"
  proof (cases "k < length a")
    case True
    with k a show ?thesis by (auto simp: paired_def nth_append)
  next
    case False
    then obtain j where j: "k = length a + j" using le_Suc_ex not_less by blast
    with k b have "0 < j" "b ! (j - 1) = stereoPrimary" by (auto simp: paired_def)
    with j show ?thesis by (auto simp: nth_append gr0_conv_Suc)
  qed
  then show "0 < k" "(a @ b) ! (k - 1) = stereoPrimary" by simp_all
qed

lemma paired_replicate: "paired (replicate n discrete)"
  by (simp add: paired_def)

lemma paired_two: "paired [stereoPrimary, stereoSecondary]"
  by (auto simp: paired_def less_Suc_eq)

lemma paired_one: "paired [discrete]"
  by (auto simp: paired_def)

lemma paired_two_Cons: "paired ts \<Longrightarrow> paired (stereoPrimary # stereoSecondary # ts)"
  using paired_append [OF paired_two] by simp

lemma paired_one_Cons: "paired ts \<Longrightarrow> paired (discrete # ts)"
  using paired_append [OF paired_one] by simp

lemma track_types_paired: "paired (track_types cpt cfg)"
  by (auto simp: track_types_def intro!: paired_two_Cons paired_one_Cons)

lemma track_types_length: "length (track_types cpt cfg) \<le> unat cpt"
  by (auto simp: track_types_def)

lemma unat_mult_small:
  fixes a b :: u64
  assumes "unat a * unat b \<le> 16"
  shows "unat (a * b) = unat a * unat b"
  using assms by (simp add: unat_word_ariths)

lemma tracks_loop_ok:
  assumes "length xs = unat i * unat cpt" and "paired xs" and "(unat i + n) * unat cpt \<le> 16"
    and "unat i + n \<le> 16"
  shows "\<exists>ys. tracks_loop n i cpt cfg (xs @ replicate (16 - length xs) discrete) =
      Inr (ys @ replicate (16 - length ys) discrete) \<and>
    length ys = (unat i + n) * unat cpt \<and> paired ys"
  using assms
proof (induction n arbitrary: i xs)
  case 0
  then show ?case by (intro exI [of _ xs]) simp
next
  case (Suc n)
  let ?ct = "track_types cpt cfg"
  let ?ys = "xs @ ?ct @ replicate (unat cpt - length ?ct) discrete"
  have le: "unat i * unat cpt + unat cpt \<le> 16"
    using Suc.prems(3) by (simp add: algebra_simps)
  have i1: "unat (i + 1) = Suc (unat i)"
    using Suc.prems(4) by (simp add: unat_word_ariths)
  have base: "unat (i * cpt) = length xs"
    using unat_mult_small [of i cpt] le Suc.prems(1) by simp
  have len: "length ?ys = unat (i + 1) * unat cpt"
    using track_types_length [of cpt cfg] Suc.prems(1) i1 by simp
  have "store_types (unat (i * cpt)) ?ct (xs @ replicate (16 - length xs) discrete) =
      Inr (?ys @ replicate (16 - length ?ys) discrete)"
  proof -
    have "length xs + unat cpt \<le> 16" using le Suc.prems(1) by simp
    moreover have "16 - length xs = length ?ct + (16 - length xs - length ?ct)"
      using track_types_length [of cpt cfg] calculation by linarith
    moreover have "16 - length xs - length ?ct = (unat cpt - length ?ct) + (16 - length xs - unat cpt)"
      using track_types_length [of cpt cfg] calculation by linarith
    ultimately show ?thesis
      using track_types_length [of cpt cfg]
      by (simp add: store_types_def base replicate_add [symmetric])
  qed
  moreover have "paired ?ys"
    by (intro paired_append Suc.prems(2) track_types_paired paired_replicate)
  moreover have "(unat (i + 1) + n) * unat cpt \<le> 16" "unat (i + 1) + n \<le> 16"
    using Suc.prems(3,4) unfolding i1 by simp_all
  ultimately show ?case
    using Suc.IH [OF len] i1 by simp
qed

lemma set_channel_update: "set_channel (h\<lparr>h_channel := x\<rparr>) t c = set_channel h t c"
  by (simp add: set_channel_def)

lemma channels_loop_ok:
  assumes "i + n \<le> length (h_channel h)" and "i + n \<le> length types"
  shows "\<exists>chs. channels_loop n i types h = Inr (h\<lparr>h_channel := chs\<rparr>) \<and>
    length chs = length (h_channel h) \<and>
    (\<forall>k<length chs. chs ! k =
      (if i \<le> k \<and> k < i + n then set_channel h (types ! k) (h_channel h ! k) else h_channel h ! k))"
  using assms
proof (induction n arbitrary: i h)
  case 0
  show ?case by (intro exI [of _ "h_channel h"]) auto
next
  case (Suc n)
  let ?h = "h\<lparr>h_channel := (h_channel h)[i := set_channel h (types ! i) (h_channel h ! i)]\<rparr>"
  have "\<exists>chs. channels_loop n (Suc i) types ?h = Inr (?h\<lparr>h_channel := chs\<rparr>) \<and>
    length chs = length (h_channel ?h) \<and>
    (\<forall>k<length chs. chs ! k =
      (if Suc i \<le> k \<and> k < Suc i + n then set_channel ?h (types ! k) (h_channel ?h ! k) else h_channel ?h ! k))"
    using Suc.prems by (intro Suc.IH) simp_all
  then obtain chs where chs: "channels_loop n (Suc i) types ?h = Inr (?h\<lparr>h_channel := chs\<rparr>)"
      "length chs = length (h_channel h)"
      "\<And>k. k < length chs \<Longrightarrow> chs ! k =
        (if Suc i \<le> k \<and> k < Suc i + n then set_channel ?h (types ! k) (h_channel ?h ! k) else h_channel ?h ! k)"
    by auto
  have "chs ! k = (if i \<le> k \<and> k < i + Suc n then set_channel h (types ! k) (h_channel h ! k) else h_channel h ! k)"
    if "k < length chs" for k
    using chs(3) [OF that] that chs(2) by (cases "i = k") (auto simp: set_channel_update)
  with chs(1,2) Suc.prems show ?case by (intro exI [of _ chs]) simp
qed

section \<open>The invariant of a decoder\<close>

text \<open>
  A channel: its arrays are in place, and what they hold stays inside the tables that the frame
  decoder looks it up in.
\<close>

definition channel_shape :: "'f stChannel \<Rightarrow> bool" where
  "channel_shape c \<longleftrightarrow>
     (\<forall>v\<in>set (ch_intensity c). v \<le> 15) \<and> (\<forall>v\<in>set (ch_scaleFactors c). v < 64) \<and>
     (\<forall>v\<in>set (ch_resolution c). v \<le> 15) \<and> (\<forall>v\<in>set (ch_noises c). v < 128) \<and>
     unat (ch_noiseCount c) + unat (ch_validCount c) \<le> 128 \<and>
     length (ch_intensity c) = 8 \<and> length (ch_scaleFactors c) = 128 \<and> length (ch_resolution c) = 128 \<and>
     length (ch_noises c) = 128 \<and> length (ch_gain c) = 128 \<and> length (ch_spectra c) = 8 \<and>
     (\<forall>s\<in>set (ch_spectra c). length s = 128) \<and> length (ch_temp c) = 128 \<and> length (ch_dct c) = 128 \<and>
     length (ch_imdctPrevious c) = 128 \<and> length (ch_wave c) = 8 \<and>
     (\<forall>s\<in>set (ch_wave c). length s = 128)"

definition shape :: "'f ClHCA \<Rightarrow> bool" where
  "shape h \<longleftrightarrow>
     length (h_comment h) = 256 \<and> length (h_athCurve h) = 128 \<and> length (h_cipherTable h) = 256 \<and>
     length (h_channel h) = 16 \<and> (\<forall>c\<in>set (h_channel h). channel_shape c)"

lemma shape_NewClHCA: "shape (NewClHCA z)"
  by (simp add: shape_def NewClHCA_def zeroChannel_def channel_shape_def)

text \<open>What the tracks, the bands and the channels of a decoder that is set up satisfy.\<close>

definition bands_ok :: "'f ClHCA \<Rightarrow> bool" where
  "bands_ok h \<longleftrightarrow>
     unat (h_totalBandCount h) \<le> 128 \<and> unat (h_baseBandCount h) + unat (h_stereoBandCount h) \<le> 128 \<and>
     unat (h_bandsPerHfrGroup h) \<le> 128 \<and>
     h_hfrGroupCount h = headerCeil2 (h_totalBandCount h - h_baseBandCount h - h_stereoBandCount h)
       (h_bandsPerHfrGroup h)"

definition channels_ok :: "'f ClHCA \<Rightarrow> bool" where
  "channels_ok h \<longleftrightarrow>
     1 \<le> unat (h_trackCount h) \<and> unat (h_trackCount h) \<le> unat (h_channels h) \<and> unat (h_channels h) \<le> 16 \<and>
     paired (map ch_channelType (take (unat (h_channels h)) (h_channel h))) \<and>
     (\<forall>c\<in>set (take (unat (h_channels h)) (h_channel h)).
        ch_codedCount c = (if ch_channelType c = stereoSecondary then h_baseBandCount h
                           else h_baseBandCount h + h_stereoBandCount h))"

definition frame_ok :: "'f ClHCA \<Rightarrow> bool" where
  "frame_ok h \<longleftrightarrow>
     8 \<le> h_frameSize h \<and> h_frameSize h \<le> 0xFFFF \<and>
     h_minResolution h \<le> h_maxResolution h \<and> h_maxResolution h \<le> 15 \<and>
     (h_version h \<le> 0x0200 \<longrightarrow> h_minResolution h = 1 \<and> h_maxResolution h = 15)"

definition decoder_ok :: "'f ClHCA \<Rightarrow> bool" where
  "decoder_ok h \<longleftrightarrow>
     shape h \<and> bands_ok h \<and> channels_ok h \<and> frame_ok h \<and>
     athInit (sint (h_athType h)) (h_sampleRate h) = Inr (h_athCurve h) \<and>
     cipherInit cipherInit0 (sint (h_ciphType h)) (h_keycode h) = Inr (h_cipherTable h) \<and>
     h_random h = 1 \<and> h_msStereo h = 0"

lemma frame_validated:
  "validateFrameAndResolution h = r \<Longrightarrow>
   (case r of Inl e \<Rightarrow> \<not> is_panic e | Inr h' \<Rightarrow> h' = h \<and> frame_ok h)"
  by (auto simp: validateFrameAndResolution_def frame_ok_def split: if_splits)

lemma bands_validated:
  assumes "validateTracksAndBands h = r"
  shows "case r of Inl e \<Rightarrow> \<not> is_panic e
    | Inr h' \<Rightarrow> bands_ok h' \<and> h_trackCount h' \<noteq> 0 \<and> h_trackCount h' \<le> h_channels h \<and>
        h' = h\<lparr>h_trackCount := h_trackCount h', h_hfrGroupCount := h_hfrGroupCount h'\<rparr>"
proof -
  have sum: "unat b + unat s \<le> 128" if "\<not> b > 128" "\<not> s > 128" "\<not> b + s > 128" for b s :: u64
  proof -
    have "unat b \<le> 128" "unat s \<le> 128" using that by (simp_all add: word_le_nat_alt not_less)
    then have "unat (b + s) = unat b + unat s" by (simp add: unat_word_ariths)
    with that(3) show ?thesis by (simp add: word_le_nat_alt not_less)
  qed
  show ?thesis
    using assms sum [of "h_baseBandCount h" "h_stereoBandCount h"]
    by (auto simp: validateTracksAndBands_def Let_def bands_ok_def not_less word_le_nat_alt
        split: if_splits)
qed

lemma set_channel_shape: "channel_shape c \<Longrightarrow> channel_shape (set_channel h t c)"
  by (simp add: channel_shape_def set_channel_def)

lemma initChannels_ok:
  assumes "length (h_channel h) = 16" and "\<forall>c\<in>set (h_channel h). channel_shape c"
    and "h_trackCount h \<noteq> 0" and "h_trackCount h \<le> h_channels h" and "h_channels h \<le> 16"
  shows "\<exists>chs. initChannels h = Inr (h\<lparr>h_channel := chs\<rparr>) \<and> channels_ok (h\<lparr>h_channel := chs\<rparr>) \<and>
    length chs = 16 \<and> (\<forall>c\<in>set chs. channel_shape c)"
proof -
  define tc where "tc = unat (h_trackCount h)"
  define n where "n = unat (h_channels h)"
  define cpt where "cpt = h_channels h div h_trackCount h"
  have n: "1 \<le> tc" "tc \<le> n" "n \<le> 16"
    using assms(3-5) by (simp_all add: tc_def n_def word_le_nat_alt unat_gt_0 Suc_le_eq)
  have cpt: "unat cpt = n div tc" by (simp add: cpt_def unat_div n_def tc_def)
  have le: "tc * unat cpt \<le> n" by (simp add: cpt)
  have "\<exists>ys. (if h_stereoBandCount h > 0 \<and> cpt > 1
      then tracks_loop tc 0 cpt (h_channelConfig h) (replicate 16 discrete)
      else Inr (replicate 16 discrete)) = (Inr (ys @ replicate (16 - length ys) discrete) :: go_err + _) \<and>
    length ys \<le> n \<and> paired ys"
  proof (cases "h_stereoBandCount h > 0 \<and> cpt > 1")
    case True
    have "\<exists>ys. tracks_loop tc 0 cpt (h_channelConfig h) ([] @ replicate (16 - length ([] :: channelType list)) discrete) =
        Inr (ys @ replicate (16 - length ys) discrete) \<and> length ys = (unat (0 :: u64) + tc) * unat cpt \<and> paired ys"
      by (rule tracks_loop_ok) (use le n in simp_all)
    then show ?thesis unfolding if_P [OF True] using le by auto
  next
    case False
    show ?thesis unfolding if_not_P [OF False] by (intro exI [of _ "[]"]) simp
  qed
  then obtain ys where ys: "(if h_stereoBandCount h > 0 \<and> cpt > 1
      then tracks_loop tc 0 cpt (h_channelConfig h) (replicate 16 discrete)
      else Inr (replicate 16 discrete)) = (Inr (ys @ replicate (16 - length ys) discrete) :: go_err + _)"
      "length ys \<le> n" "paired ys" by blast
  define types where "types = ys @ replicate (16 - length ys) discrete"
  have lt: "length types = 16" using ys(2) n(3) by (simp add: types_def)
  obtain chs where chs: "channels_loop n 0 types h = Inr (h\<lparr>h_channel := chs\<rparr>)" "length chs = 16"
      "\<And>k. k < 16 \<Longrightarrow> chs ! k = (if k < n then set_channel h (types ! k) (h_channel h ! k) else h_channel h ! k)"
    using channels_loop_ok [of 0 n h types] assms(1) lt n(3) by auto
  have init: "initChannels h = Inr (h\<lparr>h_channel := chs\<rparr>)"
    using assms(3) ys(1) chs(1)
    by (simp add: initChannels_def Let_def types_def cong del: if_weak_cong flip: tc_def n_def cpt_def)
  have tk: "map ch_channelType (take n chs) = take n types"
    using chs(2,3) n(3) lt by (intro nth_equalityI) (simp_all add: set_channel_def)
  have "take n types = ys @ replicate (n - length ys) discrete"
    using ys(2) n(3) by (simp add: types_def min_def)
  then have "paired (map ch_channelType (take n chs))"
    unfolding tk using ys(3) by (simp add: paired_append paired_replicate)
  moreover have "ch_codedCount c = (if ch_channelType c = stereoSecondary then h_baseBandCount h
      else h_baseBandCount h + h_stereoBandCount h)" if "c \<in> set (take n chs)" for c
    using that chs(2,3) n(3) by (auto simp: in_set_conv_nth set_channel_def)
  ultimately have "channels_ok (h\<lparr>h_channel := chs\<rparr>)"
    using n by (simp add: channels_ok_def tc_def n_def)
  moreover have "channel_shape c" if "c \<in> set chs" for c
    using that chs(2,3) assms(1,2) by (auto simp: in_set_conv_nth intro: set_channel_shape) (metis nth_mem set_channel_shape)+
  ultimately show ?thesis using init chs(2) by blast
qed

lemma validate_ok:
  assumes "shape h" and "h_channels h \<le> 16" and "h_ciphType h \<in> {0, 1, 56}"
  shows "case validateAndInitialize h of
      Inl e \<Rightarrow> \<not> is_panic e
    | Inr h' \<Rightarrow> decoder_ok h' \<and>
        h' = h\<lparr>h_trackCount := h_trackCount h', h_hfrGroupCount := h_hfrGroupCount h',
               h_athCurve := h_athCurve h', h_cipherTable := h_cipherTable h',
               h_random := h_random h', h_channel := h_channel h'\<rparr>"
proof (cases "validateFrameAndResolution h")
  case (Inl e)
  with frame_validated [OF Inl] show ?thesis by (simp add: validateAndInitialize_def)
next
  case (Inr h0)
  with frame_validated [OF Inr] have 0: "h0 = h" "frame_ok h" by simp_all
  show ?thesis
  proof (cases "validateTracksAndBands h")
    case (Inl e)
    with bands_validated [OF Inl] Inr 0 show ?thesis by (simp add: validateAndInitialize_def)
  next
    case (Inr h1)
    have 1: "bands_ok h1" "h_trackCount h1 \<noteq> 0" "h_trackCount h1 \<le> h_channels h"
      "h1 = h\<lparr>h_trackCount := h_trackCount h1, h_hfrGroupCount := h_hfrGroupCount h1\<rparr>"
      using bands_validated [OF Inr] by simp_all
    define t g where "t = h_trackCount h1" and "g = h_hfrGroupCount h1"
    note h1 = 1(4) [folded t_def g_def]
    show ?thesis
    proof (cases "athInit (sint (h_athType h)) (h_sampleRate h)")
      case (Inl e)
      then have "\<not> is_panic e" by (auto simp: athInit_def split: if_splits)
      with Inl Inr \<open>validateFrameAndResolution h = Inr h0\<close> 0 show ?thesis
        by (simp add: validateAndInitialize_def initializeDecoderState_def h1)
    next
      case (Inr ath)
      have la: "length ath = 128"
        using Inr
        by (auto simp: athInit_def athInit0_def length_athInit1 split: if_splits)
      have "\<exists>tb. cipherInit cipherInit0 (sint (h_ciphType h)) (h_keycode h) = Inr tb"
        using assms(3) by (cases "h_keycode h = 0") (auto simp: cipherInit_cases length_cipherInit0)
      then obtain tb where tb2: "cipherInit cipherInit0 (sint (h_ciphType h)) (h_keycode h) = Inr tb" by blast
      then have tb: "cipherInit (h_cipherTable h) (sint (h_ciphType h)) (h_keycode h) = Inr tb"
          "cipherInit cipherInit0 (sint (h_ciphType h)) (h_keycode h) = Inr tb" "length tb = 256"
        using assms(1) cipherInit_table [OF length_cipherInit0 tb2]
        by (simp_all add: shape_def cipherInit_cases length_cipherInit0 cipher_table_def)
      let ?h2 = "h1\<lparr>h_athCurve := ath, h_cipherTable := tb\<rparr>"
      obtain chs where chs: "initChannels ?h2 = Inr (?h2\<lparr>h_channel := chs\<rparr>)"
          "channels_ok (?h2\<lparr>h_channel := chs\<rparr>)" "length chs = 16" "\<forall>c\<in>set chs. channel_shape c"
        using initChannels_ok [of ?h2] assms(1,2) 1(2,3) by (auto simp: h1 shape_def)
      let ?h3 = "?h2\<lparr>h_channel := chs, h_random := 1\<rparr>"
      have v: "validateAndInitialize h =
          (if h_msStereo h \<noteq> 0 then Inl (Failure ''MS stereo not fully supported'') else Inr ?h3)"
        using \<open>validateFrameAndResolution h = Inr h0\<close> \<open>validateTracksAndBands h = Inr h1\<close> 0 Inr tb(1) chs(1)
        by (simp add: validateAndInitialize_def initializeDecoderState_def Let_def h1)
      have "decoder_ok ?h3" if "h_msStereo h = 0"
        using assms(1) 0(2) 1(1) chs(2-4) la tb(2,3) Inr that
        by (simp add: decoder_ok_def shape_def h1 bands_ok_def frame_ok_def channels_ok_def)
      then show ?thesis unfolding v by (simp add: h1)
    qed
  qed
qed

section \<open>The header as a whole\<close>

text \<open>The fields with a fixed place in the header, and what its chunks promise.\<close>

definition fields_read :: "bytes \<Rightarrow> 'f ClHCA \<Rightarrow> bool" where
  "fields_read data h \<longleftrightarrow>
     h_version h = field data 4 2 \<and> h_headerSize h = field data 6 2 \<and>
     h_channels h = field data 12 1 \<and> h_sampleRate h = field data 13 3 \<and>
     h_frameCount h = field data 16 4 \<and> h_encoderDelay h = field data 20 2 \<and>
     h_encoderPadding h = field data 22 2 \<and> h_frameSize h = field data 28 2 \<and>
     h_minResolution h = field data 30 1 \<and> h_maxResolution h = field data 31 1"

definition header_checked :: "bytes \<Rightarrow> bool" where
  "header_checked data \<longleftrightarrow>
     tag_at data 0 = 0x48434100 \<and> supported_version (field data 4 2) \<and>
     field data 6 2 \<le> of_nat (length data) \<and> crc16Checksum data (unat (field data 6 2)) = Inr 0 \<and>
     tag_at data 8 = 0x666D7400 \<and> 1 \<le> field data 12 1 \<and> field data 12 1 \<le> 16 \<and>
     1 \<le> field data 13 3 \<and> field data 13 3 \<le> 0x7FFFFF \<and> field data 16 4 \<noteq> 0"

definition loop_ok :: "'f ClHCA \<Rightarrow> bool" where
  "loop_ok h \<longleftrightarrow>
     (h_loopFlag h = 0 \<or>
      h_loopFlag h = 1 \<and> h_loopStartFrame h \<le> h_loopEndFrame h \<and> h_loopEndFrame h < h_frameCount h)"

text \<open>A step from states in \<open>I\<close> to states in \<open>J\<close>, wherever the reader stands.\<close>

definition runs :: "bytes \<Rightarrow> ('f ClHCA \<Rightarrow> bool) \<Rightarrow> ('f hca_state, unit) io \<Rightarrow> ('f ClHCA \<Rightarrow> bool) \<Rightarrow> bool" where
  "runs data I m J \<longleftrightarrow>
     (\<forall>h p. shape h \<and> \<not> h_isValid h \<and> I h \<longrightarrow>
       (case m (h, at8 data p) of
          (Inl e, (h', _)) \<Rightarrow> \<not> is_panic e \<and> shape h' \<and> \<not> h_isValid h'
        | (Inr _, (h', br)) \<Rightarrow> shape h' \<and> \<not> h_isValid h' \<and> J h' \<and> (\<exists>q. br = at8 data q)))"

lemma runs_seq:
  assumes "runs data I m J" and "runs data J (runS ms) K"
  shows "runs data I (runS (m # ms)) K"
  unfolding runs_def
proof (intro allI impI)
  fix h :: "'a ClHCA" and p
  assume h: "shape h \<and> \<not> h_isValid h \<and> I h"
  obtain r h' br where m: "m (h, at8 data p) = (r, (h', br))" by (metis surj_pair)
  show "case runS (m # ms) (h, at8 data p) of
      (Inl e, (h', _)) \<Rightarrow> \<not> is_panic e \<and> shape h' \<and> \<not> h_isValid h'
    | (Inr _, (h', br)) \<Rightarrow> shape h' \<and> \<not> h_isValid h' \<and> K h' \<and> (\<exists>q. br = at8 data q)"
  proof (cases r)
    case (Inl e)
    with assms(1) [unfolded runs_def, rule_format, OF h, of p] m show ?thesis
      by (simp add: runS.simps bindS_def)
  next
    case (Inr u)
    with assms(1) [unfolded runs_def, rule_format, OF h, of p] m
    obtain q where q: "shape h'" "\<not> h_isValid h'" "J h'" "br = at8 data q" by auto
    have "runS (m # ms) (h, at8 data p) = runS ms (h', at8 data q)"
      using m Inr q(4) by (simp add: runS.simps bindS_def)
    with assms(2) q(1-3) show ?thesis unfolding runs_def by simp
  qed
qed

lemma runs_nil: "runs data I (runS []) I"
  by (auto simp: runs_def runS.simps)

text \<open>The optional chunks keep what the fixed ones have read.\<close>

definition fixed :: "bytes \<Rightarrow> 'f ClHCA \<Rightarrow> bool" where
  "fixed data h \<longleftrightarrow> fields_read data h \<and> header_checked data"

lemma runs_vbr: "runs data (fixed data) decodeVbrChunk (fixed data)"
  by (auto simp: runs_def vbr_chunk vbr_fields_def fixed_def fields_read_def shape_def)

lemma runs_ath: "runs data (fixed data) decodeAthChunk (fixed data)"
  by (auto simp: runs_def ath_chunk ath_fields_def fixed_def fields_read_def shape_def)

lemma runs_loop: "runs data (fixed data) decodeLoopChunk (\<lambda>h. fixed data h \<and> loop_ok h)"
  by (auto simp: runs_def loop_chunk loop_fields_def fixed_def fields_read_def shape_def loop_ok_def Let_def)

lemma runs_cipher:
  "runs data (\<lambda>h. fixed data h \<and> loop_ok h) decodeCipherChunk
     (\<lambda>h. fixed data h \<and> loop_ok h \<and> h_ciphType h \<in> {0, 1, 56})"
  by (auto simp: runs_def cipher_chunk cipher_fields_def fixed_def fields_read_def shape_def loop_ok_def Let_def)

lemma runs_rva:
  "runs data (\<lambda>h. fixed data h \<and> loop_ok h \<and> h_ciphType h \<in> {0, 1, 56}) decodeRvaChunk
     (\<lambda>h. fixed data h \<and> loop_ok h \<and> h_ciphType h \<in> {0, 1, 56})"
  by (auto simp: runs_def rva_chunk rva_fields_def fixed_def fields_read_def shape_def loop_ok_def)

lemma runs_comment:
  "runs data (\<lambda>h. fixed data h \<and> loop_ok h \<and> h_ciphType h \<in> {0, 1, 56}) decodeCommentChunk
     (\<lambda>h. fixed data h \<and> loop_ok h \<and> h_ciphType h \<in> {0, 1, 56})"
proof -
  have "shape h \<Longrightarrow> length (h_comment h) = 256" for h :: "'a ClHCA" by (simp add: shape_def)
  then show ?thesis
    by (auto simp: runs_def comment_chunk comment_fields_def fixed_def fields_read_def shape_def loop_ok_def Let_def)
qed

text \<open>The outcome of a run that may stop.\<close>

definition outcome :: "bytes \<Rightarrow> ('f ClHCA \<Rightarrow> bool) \<Rightarrow> (go_err + unit) \<times> 'f hca_state \<Rightarrow> bool" where
  "outcome data J x \<longleftrightarrow>
     (case x of
        (Inl e, (h', _)) \<Rightarrow> \<not> is_panic e \<and> shape h' \<and> \<not> h_isValid h'
      | (Inr _, (h', br)) \<Rightarrow> shape h' \<and> \<not> h_isValid h' \<and> J h' \<and> (\<exists>q. br = at8 data q))"

lemma runs_outcome:
  "runs data I m J \<longleftrightarrow> (\<forall>h p. shape h \<and> \<not> h_isValid h \<and> I h \<longrightarrow> outcome data J (m (h, at8 data p)))"
  by (simp add: runs_def outcome_def)

lemma outcome_runS_Cons:
  "outcome data J (runS (m # ms) s) \<longleftrightarrow>
     (case m s of (Inl e, t) \<Rightarrow> outcome data J (Inl e, t) | (Inr _, t) \<Rightarrow> outcome data J (runS ms t))"
  by (auto simp: runS.simps bindS_def outcome_def split: prod.splits sum.splits)

abbreviation parsed :: "bytes \<Rightarrow> 'f ClHCA \<Rightarrow> bool" where
  "parsed data h \<equiv> fixed data h \<and> loop_ok h \<and> h_ciphType h \<in> {0, 1, 56}"

lemma rest_outcome:
  assumes "shape h" and "\<not> h_isValid h" and "fixed data h"
  shows "outcome data (parsed data)
    (runS [decodeVbrChunk, decodeAthChunk, decodeLoopChunk, decodeCipherChunk, decodeRvaChunk, decodeCommentChunk]
      (h, at8 data p))"
proof -
  have "runs data (fixed data)
      (runS [decodeVbrChunk, decodeAthChunk, decodeLoopChunk, decodeCipherChunk, decodeRvaChunk, decodeCommentChunk])
      (parsed data)"
    by (intro runs_seq [OF runs_vbr] runs_seq [OF runs_ath] runs_seq [OF runs_loop] runs_seq [OF runs_cipher]
        runs_seq [OF runs_rva] runs_seq [OF runs_comment] runs_nil)
  with assms show ?thesis unfolding runs_outcome by blast
qed

lemma base_cases:
  assumes "shape h" and "\<not> h_isValid h"
  shows "(\<exists>e t. decodeBaseHeader data (h, at8 data 0) = (Inl e, t) \<and> outcome data J (Inl e, t)) \<or>
    decodeBaseHeader data (h, at8 data 0) = (Inr (), (base_fields data h, at8 data 8)) \<and>
    tag_at data 0 = 0x48434100 \<and> supported_version (field data 4 2) \<and>
    field data 6 2 \<le> of_nat (length data) \<and> crc16Checksum data (unat (field data 6 2)) = Inr 0"
proof -
  have sh: "shape (base_fields data h)" "\<not> h_isValid (base_fields data h)"
    using assms by (simp_all add: shape_def base_fields_def)
  have f: "h_version (base_fields data h) = field data 4 2" "h_headerSize (base_fields data h) = field data 6 2"
    by (simp_all add: base_fields_def)
  show ?thesis
  proof (cases "tag_at data 0 = 0x48434100 \<and> supported_version (field data 4 2) \<and>
      \<not> of_nat (length data) < field data 6 2")
    case False
    then show ?thesis using assms sh by (auto simp: base_header Let_def f outcome_def)
  next
    case True
    then have le: "field data 6 2 \<le> of_nat (length data)" by (simp add: not_less)
    have "unat (field data 6 2) \<le> length data"
    proof (cases "length data < 2 ^ 64")
      case True
      with le show ?thesis by (simp add: word_le_nat_alt unat_of_nat)
    next
      case False
      then show ?thesis using unsigned_less [of "field data 6 2", where ?'a = nat] by simp
    qed
    then obtain c where c: "crc16Checksum data (unat (field data 6 2)) = Inr c" by (simp add: crc16Checksum_def)
    show ?thesis
    proof (cases "c = 0")
      case True
      with c le \<open>tag_at data 0 = 0x48434100 \<and> _\<close> show ?thesis
        by (simp add: base_header Let_def f tryH_step check_header_crc_def)
    next
      case False
      with c le \<open>tag_at data 0 = 0x48434100 \<and> _\<close> sh show ?thesis
        by (simp add: base_header Let_def f tryH_step check_header_crc_def outcome_def)
    qed
  qed
qed

lemma header_outcome:
  assumes "shape h" and "\<not> h_isValid h"
  shows "outcome data (parsed data) (runS [decodeBaseHeader data, decodeChunks] (h, at8 data 0))"
proof -
  have chunks: "outcome data (parsed data) (decodeChunks (base_fields data h, at8 data 8))"
    if ok: "tag_at data 0 = 0x48434100" "supported_version (field data 4 2)"
      "field data 6 2 \<le> of_nat (length data)" "crc16Checksum data (unat (field data 6 2)) = Inr 0"
  proof -
    let ?h2 = "fmt_fields data 8 (base_fields data h)"
    have sh: "shape (base_fields data h)" "\<not> h_isValid (base_fields data h)" "shape ?h2" "\<not> h_isValid ?h2"
      using assms by (simp_all add: shape_def base_fields_def fmt_fields_def)
    show ?thesis
    proof (cases "tag_at data 8 = 0x666D7400 \<and> \<not> (h_channels ?h2 < 1 \<or> 16 < h_channels ?h2) \<and>
        h_frameCount ?h2 \<noteq> 0 \<and> \<not> (h_sampleRate ?h2 < 1 \<or> 0x7FFFFF < h_sampleRate ?h2)")
      case False
      then show ?thesis
        using sh unfolding decodeChunks_def outcome_runS_Cons fmt_chunk
        by (auto simp: Let_def outcome_def)
    next
      case True
      then have hc: "header_checked data"
        using ok by (simp add: header_checked_def fmt_fields_def flip: not_less)
      have fmt: "decodeFmtChunk (base_fields data h, at8 data 8) = (Inr (), (?h2, at8 data 24))"
        using True by (simp add: fmt_chunk Let_def)
      have fx: "fixed data (comp_fields data 24 ?h2)" "fixed data (dec_fields data 24 ?h2)"
        using hc by (simp_all add: fixed_def fields_read_def comp_fields_def dec_fields_def fmt_fields_def base_fields_def Let_def)
      have sh': "shape (comp_fields data 24 ?h2)" "\<not> h_isValid (comp_fields data 24 ?h2)"
          "shape (dec_fields data 24 ?h2)" "\<not> h_isValid (dec_fields data 24 ?h2)"
        using sh(3,4) by (simp_all add: shape_def comp_fields_def dec_fields_def Let_def)
      show ?thesis
        unfolding decodeChunks_def outcome_runS_Cons [of _ _ decodeFmtChunk] fmt prod.case sum.case
          outcome_runS_Cons [of _ _ decodeCompDecChunk] comp_dec_chunk
        using rest_outcome [OF sh'(1,2) fx(1)] rest_outcome [OF sh'(3,4) fx(2)] sh(3,4)
        by (auto simp: outcome_def [of _ _ "(Inl _, _)"])
    qed
  qed
  show ?thesis
    using base_cases [OF assms, of data "parsed data"] chunks
    by (auto simp: outcome_runS_Cons [of _ _ "decodeBaseHeader data"] runS_single)
qed

lemma DecodeHeader_cases:
  assumes "shape h" and "DecodeHeader data h = (r, h')"
  shows "shape h' \<and>
    (case r of
       Inl e \<Rightarrow> \<not> is_panic e \<and> (8 \<le> length data \<longrightarrow> \<not> h_isValid h')
     | Inr _ \<Rightarrow> h_isValid h' \<and> decoder_ok h' \<and> parsed data h')"
proof (cases "length data < 8")
  case True
  with assms show ?thesis by (auto simp: DecodeHeader_def)
next
  case False
  let ?h = "h\<lparr>h_isValid := False\<rparr>"
  have sh: "shape ?h" "\<not> h_isValid ?h" using assms(1) by (simp_all add: shape_def)
  obtain x k br where run: "runS [decodeBaseHeader data, decodeChunks] (?h, at8 data 0) = (x, (k, br))"
    by (metis surj_pair)
  have all: "runS [decodeBaseHeader data, decodeChunks, tryH validateAndInitialize] (?h, at8 data 0) =
      (case x of Inl e \<Rightarrow> (Inl e, (k, br)) | Inr _ \<Rightarrow> tryH validateAndInitialize (k, br))"
    using run by (auto simp: runS.simps bindS_def returnS_def split: prod.splits sum.splits)
  have d: "DecodeHeader data h =
      (case (case x of Inl e \<Rightarrow> (Inl e, (k, br)) | Inr _ \<Rightarrow> tryH validateAndInitialize (k, br)) of
        (Inl e, (h, _)) \<Rightarrow> (Inl e, h) | (Inr _, (h, _)) \<Rightarrow> (Inr (), h\<lparr>h_isValid := True\<rparr>))"
    using False by (simp add: DecodeHeader_def bitreaderInit_rdr at8_def [of data 0, simplified, symmetric] all)
  note out = header_outcome [OF sh, of data, unfolded run outcome_def]
  show ?thesis
  proof (cases x)
    case (Inl e)
    with d out assms(2) show ?thesis by auto
  next
    case (Inr u)
    with out have k: "shape k" "\<not> h_isValid k" "parsed data k" by simp_all
    have "h_channels k \<le> 16" using k(3) by (simp add: fixed_def fields_read_def header_checked_def)
    then have v: "case validateAndInitialize k of Inl e \<Rightarrow> \<not> is_panic e
      | Inr h' \<Rightarrow> decoder_ok h' \<and>
          h' = k\<lparr>h_trackCount := h_trackCount h', h_hfrGroupCount := h_hfrGroupCount h',
                 h_athCurve := h_athCurve h', h_cipherTable := h_cipherTable h',
                 h_random := h_random h', h_channel := h_channel h'\<rparr>"
      using validate_ok [OF k(1)] k(3) by blast
    show ?thesis
    proof (cases "validateAndInitialize k")
      case (Inl e)
      with v d Inr k assms(2) show ?thesis by (auto simp: tryH_step)
    next
      case (Inr h2)
      note v2 = v [unfolded Inr sum.case]
      then have h2: "decoder_ok h2" by (rule conjunct1)
      obtain t g a c d' l where eq: "h2 = k\<lparr>h_trackCount := t, h_hfrGroupCount := g, h_athCurve := a,
          h_cipherTable := c, h_random := d', h_channel := l\<rparr>"
        using conjunct2 [OF v2] by blast
      have h': "r = Inr ()" "h' = h2\<lparr>h_isValid := True\<rparr>"
        using d Inr \<open>x = Inr u\<close> assms(2) by (simp_all add: tryH_step)
      have "decoder_ok h'"
        using h2 unfolding h' by (simp add: decoder_ok_def shape_def bands_ok_def channels_ok_def frame_ok_def)
      moreover have "parsed data h2"
        using k(3) unfolding eq by (auto simp: fixed_def fields_read_def loop_ok_def)
      then have "parsed data h'" unfolding h' by (auto simp: fixed_def fields_read_def loop_ok_def)
      ultimately show ?thesis using h' by (simp add: decoder_ok_def)
    qed
  qed
qed

lemma SetKey_ok:
  assumes "decoder_ok h" and "h_isValid h"
  shows "decoder_ok (SetKey keycode h)"
proof -
  have t: "length (h_cipherTable h) = 256" using assms(1) by (simp add: decoder_ok_def shape_def)
  have "cipherInit cipherInit0 (sint (h_ciphType h)) (h_keycode h) = Inr (h_cipherTable h)"
    using assms(1) by (simp add: decoder_ok_def)
  then have "sint (h_ciphType h) \<in> {0, 1, 56}"
    by (auto simp: cipherInit_cases length_cipherInit0 split: if_splits)
  then obtain t' where t': "cipherInit cipherInit0 (sint (h_ciphType h)) keycode = Inr t'"
    by (cases "keycode = 0") (auto simp: cipherInit_cases length_cipherInit0)
  then have "cipherInit (h_cipherTable h) (sint (h_ciphType h)) keycode = Inr t'"
    using t by (simp add: cipherInit_cases length_cipherInit0)
  moreover have "length t' = 256"
    using cipherInit_table [OF length_cipherInit0 t'] by (simp add: cipher_table_def)
  ultimately show ?thesis
    using assms t'
    by (simp add: SetKey_def Let_def decoder_ok_def shape_def bands_ok_def channels_ok_def frame_ok_def)
qed

lemma DecodeReset_ok:
  assumes "decoder_ok h"
  shows "decoder_ok (DecodeReset z h)"
proof (cases "h_isValid h")
  case False
  with assms show ?thesis by (simp add: DecodeReset_def)
next
  case True
  let ?chs = "h_channel (DecodeReset z h)"
  have l: "length ?chs = length (h_channel h)" using True by (simp add: DecodeReset_def)
  have nth: "?chs ! k = (if k < unat (h_channels h) then (h_channel h ! k)\<lparr>ch_imdctPrevious := replicate 128 z\<rparr>
      else h_channel h ! k)" if "k < length (h_channel h)" for k
    using True that by (simp add: DecodeReset_def nth_enumerate_eq)
  have "channel_shape c" if c: "c \<in> set ?chs" for c
  proof -
    obtain k where k: "k < length (h_channel h)" "c = ?chs ! k"
      using c unfolding in_set_conv_nth l by blast
    with assms have "channel_shape (h_channel h ! k)" by (simp add: decoder_ok_def shape_def)
    then show ?thesis using nth [OF k(1)] k(2) by (simp add: channel_shape_def)
  qed
  moreover have "map ch_channelType (take n ?chs) = map ch_channelType (take n (h_channel h))" for n
    using nth l by (intro nth_equalityI) simp_all
  moreover have "map ch_codedCount (take n ?chs) = map ch_codedCount (take n (h_channel h))" for n
    using nth l by (intro nth_equalityI) simp_all
  moreover have "\<forall>c\<in>set (take (unat (h_channels h)) ?chs). ch_codedCount c =
      (if ch_channelType c = stereoSecondary then h_baseBandCount h else h_baseBandCount h + h_stereoBandCount h)"
  proof
    fix c assume "c \<in> set (take (unat (h_channels h)) ?chs)"
    then obtain k where k: "k < unat (h_channels h)" "k < length (h_channel h)" "c = ?chs ! k"
      using l by (auto simp: in_set_conv_nth)
    then have "h_channel h ! k \<in> set (take (unat (h_channels h)) (h_channel h))"
      by (auto simp: in_set_conv_nth intro!: exI [of _ k])
    with assms nth [OF k(2)] k show "ch_codedCount c =
      (if ch_channelType c = stereoSecondary then h_baseBandCount h else h_baseBandCount h + h_stereoBandCount h)"
      by (simp add: decoder_ok_def channels_ok_def)
  qed
  ultimately show ?thesis
    using assms True l
    by (simp add: DecodeReset_def decoder_ok_def shape_def bands_ok_def channels_ok_def frame_ok_def)
qed

section \<open>A header of version 2.0\<close>

definition sample_header :: bytes where
  "sample_header =
    [0x48, 0x43, 0x41, 0x00, 0x02, 0x00, 0x00, 0x26, 0x66, 0x6D, 0x74, 0x00, 
     0x01, 0x00, 0xAC, 0x44, 0x00, 0x00, 0x00, 0x05, 0x00, 0x80, 0x00, 0x00, 
     0x64, 0x65, 0x63, 0x00, 0x01, 0x00, 0x01, 0x0F, 0x7F, 0x7F, 0x10, 0x00, 0x47, 0x9F]"

lemma sample_fields:
  "tag_at sample_header 0 = 0x48434100" "tag_at sample_header 8 = 0x666D7400"
  "tag_at sample_header 24 = 0x64656300" "tag_at sample_header 36 = 0"
  "field sample_header 4 2 = 0x200" "field sample_header 6 2 = 38" "field sample_header 12 1 = 1"
  "field sample_header 13 3 = 44100" "field sample_header 16 4 = 5" "field sample_header 20 2 = 128"
  "field sample_header 22 2 = 0" "field sample_header 28 2 = 256" "field sample_header 30 1 = 1"
  "field sample_header 31 1 = 15" "field sample_header 32 1 = 127" "field sample_header 33 1 = 127"
  "nibble sample_header 272 = 1" "nibble sample_header 276 = 0" "field sample_header 35 1 = 0"
  "crc16Checksum sample_header 38 = Inr 0" "length sample_header = 38"
  by code_simp+

lemmas chunk_simps =
  base_header fmt_chunk comp_dec_chunk vbr_chunk ath_chunk loop_chunk cipher_chunk rva_chunk comment_chunk
  base_fields_def fmt_fields_def dec_fields_def vbr_fields_def ath_fields_def loop_fields_def
  cipher_fields_def rva_fields_def comment_fields_def supported_version_def check_header_crc_def runS_single

lemmas validate_simps =
  validateAndInitialize_def validateFrameAndResolution_def validateTracksAndBands_def headerCeil2_def
  initializeDecoderState_def athInit_def cipherInit_def initChannels_def set_channel_def

lemma sample_decodes: "fst (DecodeHeader sample_header (NewClHCA 0)) = Inr ()"
  unfolding DecodeHeader_def decodeChunks_def bitreaderInit_rdr
  by (simp add: hca_step chunk_simps sample_fields [unfolded One_nat_def] Let_def NewClHCA_def
      at8_def [of sample_header 0, symmetric, simplified])
    (simp add: validate_simps Let_def)

definition sample_decoder :: "nat ClHCA" where
  "sample_decoder = snd (DecodeHeader sample_header (NewClHCA 0))"

lemma sample_run: "DecodeHeader sample_header (NewClHCA 0) = (Inr (), sample_decoder)"
  unfolding sample_decoder_def using sample_decodes by (metis prod.collapse)

section \<open>Properties\<close>

text \<open>
  C11: no bytes make the header decoder panic, whatever it decoded before: every read of a field
  stays inside the reader's window, the comment fits its array and the channels theirs. It
  returns the decoder set up, or an error that leaves the decoder marked as not valid (unless
  there are fewer than 8 bytes, which it refuses without a look), the arrays all in place.
\<close>

theorem decode_header_never_panics:
  assumes "shape h"
  shows "case DecodeHeader data h of
      (Inl e, h') \<Rightarrow> \<not> is_panic e \<and> shape h' \<and> (8 \<le> length data \<longrightarrow> \<not> h_isValid h')
    | (Inr _, h') \<Rightarrow> h_isValid h' \<and> shape h'"
  using DecodeHeader_cases [OF assms, of data]
  by (cases "DecodeHeader data h"; cases "fst (DecodeHeader data h)") auto

lemma decode_header_never_panics_witness:
  "case DecodeHeader [0x48, 0x43] (NewClHCA (0 :: nat)) of
      (Inl e, h') \<Rightarrow> \<not> is_panic e \<and> shape h' | (Inr _, h') \<Rightarrow> False"
  using decode_header_never_panics [OF shape_NewClHCA, of "[0x48, 0x43]" "0 :: nat"]
  by (simp add: DecodeHeader_def)



text \<open>
  What happens between files keeps a decoder in order. Setting a key rebuilds the table for
  the new key and changes nothing else, and resetting clears the overlap and the noise state.
\<close>

theorem set_key_and_reset_keep_decoder:
  assumes "decoder_ok h" and "h_isValid h"
  shows "decoder_ok (SetKey keycode h) \<and> decoder_ok (DecodeReset z h) \<and>
    h_keycode (SetKey keycode h) = keycode \<and> h_channel (SetKey keycode h) = h_channel h"
  using SetKey_ok [OF assms] DecodeReset_ok [OF assms(1)]
  by (simp add: SetKey_def Let_def split: sum.split)

lemma set_key_and_reset_keep_decoder_witness: "decoder_ok (SetKey 7 sample_decoder)"
proof -
  have "decoder_ok sample_decoder" "h_isValid sample_decoder"
    using DecodeHeader_cases [OF shape_NewClHCA sample_run] by simp_all
  from set_key_and_reset_keep_decoder [OF this] show ?thesis by blast
qed

end
