(* ===== verification/HcaFrame.thy ===== *)
theory HcaFrame
  imports HcaHeader
begin

text \<open>
  Unpacking a frame: \<open>internal/cricodecs/hca/clhcadecoder.go\<close> up to the spectra, with the tables
  of \<open>clhcatables.go\<close> it uses.

  A \<open>float32\<close> is a value of the type \<open>'f\<close>; what the code does with one is an operation of the
  record \<open>float_ops\<close>, so nothing here depends on rounding. Every access to an array is checked,
  so the panics of the code are values of the model.
\<close>

unbundle bit_operations_syntax

section \<open>Operations on \<open>float32\<close>\<close>

record 'f float_ops =
  f_mul :: "'f \<Rightarrow> 'f \<Rightarrow> 'f"
  f_add :: "'f \<Rightarrow> 'f \<Rightarrow> 'f"
  f_sub :: "'f \<Rightarrow> 'f \<Rightarrow> 'f"
  f_less :: "'f \<Rightarrow> 'f \<Rightarrow> bool"
  f_of_int :: "int \<Rightarrow> 'f"
  f_of_bits :: "u32 \<Rightarrow> 'f"
  f_to_int32 :: "'f \<Rightarrow> int"

section \<open>Tables\<close>

definition hcadecoderInvertTable :: bytes where
  "hcadecoderInvertTable = [
     14, 14, 14, 14, 14, 14, 13, 13, 13, 13, 13, 13, 12, 12, 12, 12,
     12, 12, 11, 11, 11, 11, 11, 11, 10, 10, 10, 10, 10, 10, 10, 9,
     9, 9, 9, 9, 9, 8, 8, 8, 8, 8, 8, 7, 6, 6, 5, 4,
     4, 4, 3, 3, 3, 2, 2, 2, 2, 1, 1, 1, 1, 1, 1, 1,
     1, 1]"

definition hcadequantizerScalingTableFloatHex :: "u32 list" where
  "hcadequantizerScalingTableFloatHex = [
     0x342A8D26, 0x34633F89, 0x3497657D, 0x34C9B9BE, 0x35066491, 0x353311C4, 0x356E9910, 0x359EF532,
     0x35D3CCF1, 0x360D1ADF, 0x363C034A, 0x367A83B3, 0x36A6E595, 0x36DE60F5, 0x371426FF, 0x3745672A,
     0x37838359, 0x37AF3B79, 0x37E97C38, 0x381B8D3A, 0x384F4319, 0x388A14D5, 0x38B7FBF0, 0x38F5257D,
     0x3923520F, 0x39599D16, 0x3990FA4D, 0x39C12C4D, 0x3A00B1ED, 0x3A2B7A3A, 0x3A647B6D, 0x3A9837F0,
     0x3ACAD226, 0x3B071F62, 0x3B340AAF, 0x3B6FE4BA, 0x3B9FD228, 0x3BD4F35B, 0x3C0DDF04, 0x3C3D08A4,
     0x3C7BDFED, 0x3CA7CD94, 0x3CDF9613, 0x3D14F4F0, 0x3D467991, 0x3D843A29, 0x3DB02F0E, 0x3DEAC0C7,
     0x3E1C6573, 0x3E506334, 0x3E8AD4C6, 0x3EB8FBAF, 0x3EF67A41, 0x3F243516, 0x3F5ACB94, 0x3F91C3D3,
     0x3FC238D2, 0x400164D2, 0x402C6897, 0x4065B907, 0x40990B88, 0x40CBEC15, 0x4107DB35, 0x413504F3]"

definition hcadequantizerRangeTableFloatHex :: "u32 list" where
  "hcadequantizerRangeTableFloatHex = [
     0x3F800000, 0x3F2AAAAB, 0x3ECCCCCD, 0x3E924925, 0x3E638E39, 0x3E3A2E8C, 0x3E1D89D9, 0x3E088889,
     0x3D842108, 0x3D020821, 0x3C810204, 0x3C008081, 0x3B804020, 0x3B002008, 0x3A801002, 0x3A000801]"

definition hcatbdecoderMaxBitTable :: bytes where
  "hcatbdecoderMaxBitTable = [
     0, 2, 3, 3, 4, 4, 4, 4, 5, 6, 7, 8, 9, 10, 11, 12]"

definition hcatbdecoderReadBitTable :: bytes where
  "hcatbdecoderReadBitTable = [
     0, 0, 0, 0, 0, 0, 0, 0, 0, 0, 0, 0, 0, 0, 0, 0,
     1, 1, 2, 2, 0, 0, 0, 0, 0, 0, 0, 0, 0, 0, 0, 0,
     2, 2, 2, 2, 2, 2, 3, 3, 0, 0, 0, 0, 0, 0, 0, 0,
     2, 2, 3, 3, 3, 3, 3, 3, 0, 0, 0, 0, 0, 0, 0, 0,
     3, 3, 3, 3, 3, 3, 3, 3, 3, 3, 3, 3, 3, 3, 4, 4,
     3, 3, 3, 3, 3, 3, 3, 3, 3, 3, 4, 4, 4, 4, 4, 4,
     3, 3, 3, 3, 3, 3, 4, 4, 4, 4, 4, 4, 4, 4, 4, 4,
     3, 3, 4, 4, 4, 4, 4, 4, 4, 4, 4, 4, 4, 4, 4, 4]"

definition hcatbdecoderReadValTable :: "int list" where
  "hcatbdecoderReadValTable = [
     0, 0, 0, 0, 0, 0, 0, 0, 0, 0, 0, 0, 0, 0, 0, 0,
     0, 0, 1, - 1, 0, 0, 0, 0, 0, 0, 0, 0, 0, 0, 0, 0,
     0, 0, 1, 1, - 1, - 1, 2, - 2, 0, 0, 0, 0, 0, 0, 0, 0,
     0, 0, 1, - 1, 2, - 2, 3, - 3, 0, 0, 0, 0, 0, 0, 0, 0,
     0, 0, 1, 1, - 1, - 1, 2, 2, - 2, - 2, 3, 3, - 3, - 3, 4, - 4,
     0, 0, 1, 1, - 1, - 1, 2, 2, - 2, - 2, 3, - 3, 4, - 4, 5, - 5,
     0, 0, 1, 1, - 1, - 1, 2, - 2, 3, - 3, 4, - 4, 5, - 5, 6, - 6,
     0, 0, 1, - 1, 2, - 2, 3, - 3, 4, - 4, 5, - 5, 6, - 6, 7, - 7]"

definition hcadecoderScaleConversionTableHex :: "u32 list" where
  "hcadecoderScaleConversionTableHex = [
     0x00000000, 0x32A0B051, 0x32D61B5E, 0x330EA43A, 0x333E0F68, 0x337D3E0C, 0x33A8B6D5, 0x33E0CCDF,
     0x3415C3FF, 0x34478D75, 0x3484F1F6, 0x34B123F6, 0x34EC0719, 0x351D3EDA, 0x355184DF, 0x358B95C2,
     0x35B9FCD2, 0x35F7D0DF, 0x36251958, 0x365BFBB8, 0x36928E72, 0x36C346CD, 0x370218AF, 0x372D583F,
     0x3766F85B, 0x3799E046, 0x37CD078C, 0x3808980F, 0x38360094, 0x38728177, 0x38A18FAF, 0x38D744FD,
     0x390F6A81, 0x393F179A, 0x397E9E11, 0x39A9A15B, 0x39E2055B, 0x3A16942D, 0x3A48A2D8, 0x3A85AAC3,
     0x3AB21A32, 0x3AED4F30, 0x3B1E196E, 0x3B52A81E, 0x3B8C57CA, 0x3BBAFF5B, 0x3BF9295A, 0x3C25FED7,
     0x3C5D2D82, 0x3C935A2B, 0x3CC4563F, 0x3D02CD87, 0x3D2E4934, 0x3D68396A, 0x3D9AB62B, 0x3DCE248C,
     0x3E0955EE, 0x3E36FD92, 0x3E73D290, 0x3EA27043, 0x3ED87039, 0x3F1031DC, 0x3F40213B, 0x3F800000,
     0x3FAA8D26, 0x3FE33F89, 0x4017657D, 0x4049B9BE, 0x40866491, 0x40B311C4, 0x40EE9910, 0x411EF532,
     0x4153CCF1, 0x418D1ADF, 0x41BC034A, 0x41FA83B3, 0x4226E595, 0x425E60F5, 0x429426FF, 0x42C5672A,
     0x43038359, 0x432F3B79, 0x43697C38, 0x439B8D3A, 0x43CF4319, 0x440A14D5, 0x4437FBF0, 0x4475257D,
     0x44A3520F, 0x44D99D16, 0x4510FA4D, 0x45412C4D, 0x4580B1ED, 0x45AB7A3A, 0x45E47B6D, 0x461837F0,
     0x464AD226, 0x46871F62, 0x46B40AAF, 0x46EFE4BA, 0x471FD228, 0x4754F35B, 0x478DDF04, 0x47BD08A4,
     0x47FBDFED, 0x4827CD94, 0x485F9613, 0x4894F4F0, 0x48C67991, 0x49043A29, 0x49302F0E, 0x496AC0C7,
     0x499C6573, 0x49D06334, 0x4A0AD4C6, 0x4A38FBAF, 0x4A767A41, 0x4AA43516, 0x4ADACB94, 0x4B11C3D3,
     0x4B4238D2, 0x4B8164D2, 0x4BAC6897, 0x4BE5B907, 0x4C190B88, 0x4C4BEC15, 0x00000000, 0x00000000]"

definition hcadecoderIntensityRatioTableHex :: "u32 list" where
  "hcadecoderIntensityRatioTableHex = [
     0x40000000, 0x3FEDB6DB, 0x3FDB6DB7, 0x3FC92492, 0x3FB6DB6E, 0x3FA49249, 0x3F924925, 0x3F800000,
     0x3F5B6DB7, 0x3F36DB6E, 0x3F124925, 0x3EDB6DB7, 0x3E924925, 0x3E124925, 0x00000000, 0x00000000]"

section \<open>Steps on a channel\<close>

type_synonym 'f chan = "'f stChannel \<times> clData"

definition c_peek :: "int \<Rightarrow> ('f chan, u64) io" where
  "c_peek n st = (bitreaderPeek (snd st) n, st)"

definition c_skip :: "int \<Rightarrow> ('f chan, unit) io" where
  "c_skip n st = (Inr (), (fst st, bitreaderSkip (snd st) n))"

definition c_read :: "int \<Rightarrow> ('f chan, u64) io" where
  "c_read n = bindS (c_peek n) (\<lambda>v. bindS (c_skip n) (\<lambda>_. returnS v))"

definition c_get :: "('f chan, 'f stChannel) io" where
  "c_get st = (Inr (fst st), st)"

definition c_try :: "('f stChannel \<Rightarrow> go_err + 'f stChannel) \<Rightarrow> ('f chan, unit) io" where
  "c_try f st = (case f (fst st) of Inl e \<Rightarrow> (Inl e, st) | Inr c \<Rightarrow> (Inr (), (c, snd st)))"

definition put_scaleFactor :: "nat \<Rightarrow> u8 \<Rightarrow> 'f stChannel \<Rightarrow> go_err + 'f stChannel" where
  "put_scaleFactor i v c =
     bindR (arr_put i v (ch_scaleFactors c)) (\<lambda>l. Inr (c\<lparr>ch_scaleFactors := l\<rparr>))"

definition put_intensity :: "nat \<Rightarrow> u8 \<Rightarrow> 'f stChannel \<Rightarrow> go_err + 'f stChannel" where
  "put_intensity i v c = bindR (arr_put i v (ch_intensity c)) (\<lambda>l. Inr (c\<lparr>ch_intensity := l\<rparr>))"

text \<open>\<open>for i := i; i < i + n; i++\<close>.\<close>

fun forS :: "nat \<Rightarrow> nat \<Rightarrow> (nat \<Rightarrow> ('s, unit) io) \<Rightarrow> ('s, unit) io" where
  "forS 0 i body = returnS ()"
| "forS (Suc n) i body = bindS (body i) (\<lambda>_. forS n (Suc i) body)"

fun forR :: "nat \<Rightarrow> nat \<Rightarrow> (nat \<Rightarrow> 's \<Rightarrow> go_err + 's) \<Rightarrow> 's \<Rightarrow> go_err + 's" where
  "forR 0 i body s = Inr s"
| "forR (Suc n) i body s = bindR (body i s) (forR n (Suc i) body)"

section \<open>Scale factors\<close>

text \<open>The value after \<open>value\<close>: read anew after the escape code, else moved by the delta.\<close>

definition next_scale :: "u8 \<Rightarrow> u8 \<Rightarrow> u8 \<Rightarrow> ('f chan, u8) io" where
  "next_scale deltaBits value delta =
     (let expectedDelta = push_bit (unat deltaBits) 1 - 1 in
      if delta = expectedDelta then bindS (c_read 6) (\<lambda>v. returnS (ucast v))
      else
        let scalefactorTest = uint value + (uint delta - uint (drop_bit 1 expectedDelta)) in
        if scalefactorTest < 0 \<or> 64 \<le> scalefactorTest then throwS (Failure ''invalid scalefactor'')
        else returnS ((value - drop_bit 1 expectedDelta + delta) AND 0x3F))"

fun delta_loop :: "nat \<Rightarrow> nat \<Rightarrow> u8 \<Rightarrow> u8 \<Rightarrow> ('f chan, unit) io" where
  "delta_loop 0 i deltaBits value = returnS ()"
| "delta_loop (Suc n) i deltaBits value =
     bindS (c_read (uint deltaBits)) (\<lambda>delta.
     bindS (next_scale deltaBits value (ucast delta)) (\<lambda>value.
     bindS (c_try (put_scaleFactor i value)) (\<lambda>_. delta_loop n (Suc i) deltaBits value)))"

text \<open>The last loop of version 3: \<open>scaleFactors[127-i] = scaleFactors[csCount-i]\<close>, in \<open>uint\<close>.\<close>

definition derive_scale :: "u64 \<Rightarrow> nat \<Rightarrow> 'f stChannel \<Rightarrow> go_err + 'f stChannel" where
  "derive_scale csCount i c =
     bindR (arr_get (ch_scaleFactors c) (unat (csCount - of_nat i))) (\<lambda>v.
       put_scaleFactor (unat (127 - of_nat i :: u64)) v c)"

definition read_scales :: "u64 \<Rightarrow> u8 \<Rightarrow> ('f chan, unit) io" where
  "read_scales csCount deltaBits =
     (if 6 \<le> deltaBits then
        forS (unat csCount) 0 (\<lambda>i. bindS (c_read 6) (\<lambda>v. c_try (put_scaleFactor i (ucast v))))
      else if 0 < deltaBits then
        bindS (c_read 6) (\<lambda>v.
        bindS (c_try (put_scaleFactor 0 (ucast v))) (\<lambda>_.
          delta_loop (unat csCount - 1) 1 deltaBits (ucast v)))
      else c_try (\<lambda>c. Inr (c\<lparr>ch_scaleFactors := replicate 128 0\<rparr>)))"

definition unpackScaleFactors :: "u64 \<Rightarrow> u64 \<Rightarrow> ('f chan, unit) io" where
  "unpackScaleFactors hfrGroupCount version =
     bindS (c_read 3) (\<lambda>v. let deltaBits = ucast v in
     bindS c_get (\<lambda>c.
       if ch_channelType c = stereoSecondary \<or> hfrGroupCount \<le> 0 \<or> version \<le> 0x0200
       then read_scales (ch_codedCount c) deltaBits
       else
         let extraCount = hfrGroupCount; csCount = ch_codedCount c + extraCount in
         if 128 < csCount then throwS (Failure ''invalid coded count'')
         else bindS (read_scales csCount deltaBits) (\<lambda>_.
           forS (unat extraCount) 0 (\<lambda>i. c_try (derive_scale csCount i)))))"

section \<open>Intensity\<close>

definition next_intensity :: "u8 \<Rightarrow> u8 \<Rightarrow> u8 \<Rightarrow> ('f chan, u8) io" where
  "next_intensity deltaBits value delta =
     (let bmax = push_bit (unat deltaBits) 2 - 1 in
      if delta = bmax then bindS (c_read 4) (\<lambda>v. returnS (ucast v))
      else
        let value = value - drop_bit 1 bmax + delta in
        if 15 < value then throwS (Failure ''invalid intensity'') else returnS value)"

fun intensity_loop :: "nat \<Rightarrow> nat \<Rightarrow> u8 \<Rightarrow> u8 \<Rightarrow> ('f chan, unit) io" where
  "intensity_loop 0 i deltaBits value = returnS ()"
| "intensity_loop (Suc n) i deltaBits value =
     bindS (c_read (uint (deltaBits + 1))) (\<lambda>delta.
     bindS (next_intensity deltaBits value (ucast delta)) (\<lambda>value.
     bindS (c_try (put_intensity i value)) (\<lambda>_. intensity_loop n (Suc i) deltaBits value)))"

definition read_intensities :: "nat \<Rightarrow> nat \<Rightarrow> ('f chan, unit) io" where
  "read_intensities n i = forS n i (\<lambda>i. bindS (c_read 4) (\<lambda>v. c_try (put_intensity i (ucast v))))"

definition unpackIntensity :: "u64 \<Rightarrow> u64 \<Rightarrow> ('f chan, unit) io" where
  "unpackIntensity hfrGroupCount version =
     bindS c_get (\<lambda>c.
       if ch_channelType c = stereoSecondary then
         bindS (c_peek 4) (\<lambda>v. let value = ucast v :: u8 in
           if version \<le> 0x0200 then
             bindS (c_try (put_intensity 0 value)) (\<lambda>_.
               if value < 15 then bindS (c_skip 4) (\<lambda>_. read_intensities 7 1) else returnS ())
           else if value < 15 then
             bindS (c_skip 4) (\<lambda>_.
             bindS (c_read 2) (\<lambda>v. let deltaBits = ucast v :: u8 in
             bindS (c_try (put_intensity 0 value)) (\<lambda>_.
               if deltaBits = 3 then read_intensities 7 1 else intensity_loop 7 1 deltaBits value)))
           else
             bindS (c_skip 4) (\<lambda>_. forS 8 0 (\<lambda>i. c_try (put_intensity i 7))))
       else if version \<le> 0x0200 then
         (let start = 128 - hfrGroupCount in
          if 128 < start then throwS (Panic ''slice bounds out of range'')
          else forS (unat hfrGroupCount) 0 (\<lambda>i. bindS (c_read 6) (\<lambda>v.
                 if i < 128 - unat start then c_try (put_scaleFactor (unat start + i) (ucast v))
                 else throwS (Panic ''index out of range''))))
       else returnS ())"

section \<open>Resolution\<close>

definition new_resolution :: "u8 \<Rightarrow> u64 \<Rightarrow> nat \<Rightarrow> u8 \<Rightarrow> u64 \<Rightarrow> u64 \<Rightarrow> u8" where
  "new_resolution scalefactor packedNoiseLevel i ath minResolution maxResolution =
     (let noiseLevel = uint ath + (sint packedNoiseLevel + int i) div 256;
          curvePosition = noiseLevel + 1 - (5 * uint scalefactor) div 2;
          r = (if curvePosition < 0 then 15
               else if curvePosition \<le> 65 then hcadecoderInvertTable ! nat curvePosition
               else 0)
      in if r > ucast maxResolution then ucast maxResolution
         else if r < ucast minResolution then ucast minResolution
         else r)"

text \<open>The state of the loop: the channel, \<open>noiseCount\<close> and \<open>validCount\<close>.\<close>

definition resolution_step ::
  "u64 \<Rightarrow> bytes \<Rightarrow> u64 \<Rightarrow> u64 \<Rightarrow> nat \<Rightarrow> 'f stChannel \<times> u64 \<times> u64 \<Rightarrow> go_err + 'f stChannel \<times> u64 \<times> u64" where
  "resolution_step packedNoiseLevel athCurve minResolution maxResolution i =
     (\<lambda>(c, noiseCount, validCount).
       bindR (arr_get (ch_scaleFactors c) i) (\<lambda>scalefactor.
       bindR (if scalefactor > 0 then
                bindR (arr_get athCurve i) (\<lambda>ath.
                  let r = new_resolution scalefactor packedNoiseLevel i ath minResolution maxResolution in
                  if r < 1 then
                    bindR (arr_put (unat noiseCount) (of_nat i) (ch_noises c)) (\<lambda>l.
                      Inr (r, c\<lparr>ch_noises := l\<rparr>, noiseCount + 1, validCount))
                  else
                    bindR (arr_put (unat (127 - validCount)) (of_nat i) (ch_noises c)) (\<lambda>l.
                      Inr (r, c\<lparr>ch_noises := l\<rparr>, noiseCount, validCount + 1)))
              else Inr (0, c, noiseCount, validCount))
         (\<lambda>(r, c, noiseCount, validCount).
            bindR (arr_put i r (ch_resolution c)) (\<lambda>l.
              Inr (c\<lparr>ch_resolution := l\<rparr>, noiseCount, validCount)))))"

definition calculateResolution ::
  "u64 \<Rightarrow> bytes \<Rightarrow> u64 \<Rightarrow> u64 \<Rightarrow> 'f stChannel \<Rightarrow> go_err + 'f stChannel" where
  "calculateResolution packedNoiseLevel athCurve minResolution maxResolution c =
     (let crCount = unat (ch_codedCount c) in
      bindR (forR crCount 0 (resolution_step packedNoiseLevel athCurve minResolution maxResolution) (c, 0, 0))
        (\<lambda>(c, noiseCount, validCount).
          let c = c\<lparr>ch_noiseCount := noiseCount, ch_validCount := validCount\<rparr>
          in forR (128 - crCount) crCount (\<lambda>i c.
               bindR (arr_put i 0 (ch_resolution c)) (\<lambda>l. Inr (c\<lparr>ch_resolution := l\<rparr>))) c))"

section \<open>Gain and coefficients\<close>

definition gain_step :: "'f float_ops \<Rightarrow> nat \<Rightarrow> 'f stChannel \<Rightarrow> go_err + 'f stChannel" where
  "gain_step F i c =
     bindR (arr_get (ch_scaleFactors c) i) (\<lambda>sf.
     bindR (arr_get hcadequantizerScalingTableFloatHex (unat sf)) (\<lambda>scale.
     bindR (arr_get (ch_resolution c) i) (\<lambda>res.
     bindR (arr_get hcadequantizerRangeTableFloatHex (unat res)) (\<lambda>range.
     bindR (arr_put i (f_mul F (f_of_bits F scale) (f_of_bits F range)) (ch_gain c)) (\<lambda>l.
       Inr (c\<lparr>ch_gain := l\<rparr>))))))"

definition calculateGain :: "'f float_ops \<Rightarrow> 'f stChannel \<Rightarrow> go_err + 'f stChannel" where
  "calculateGain F c = forR (unat (ch_codedCount c)) 0 (gain_step F) c"

text \<open>\<open>spectra[subframe][i] = v\<close>.\<close>

definition put_spectrum :: "nat \<Rightarrow> nat \<Rightarrow> 'f \<Rightarrow> 'f stChannel \<Rightarrow> go_err + 'f stChannel" where
  "put_spectrum subframe i v c =
     bindR (arr_get (ch_spectra c) subframe) (\<lambda>row.
     bindR (arr_put i v row) (\<lambda>row.
       Inr (c\<lparr>ch_spectra := (ch_spectra c)[subframe := row]\<rparr>)))"

definition get_spectrum :: "nat \<Rightarrow> nat \<Rightarrow> 'f stChannel \<Rightarrow> go_err + 'f" where
  "get_spectrum subframe i c = bindR (arr_get (ch_spectra c) subframe) (\<lambda>row. arr_get row i)"

text \<open>The quantised value and how far the reader moves: the sign-magnitude form and the codebooks.\<close>

definition signed_code :: "u64 \<Rightarrow> int" where
  "signed_code code = sint ((1 - push_bit 1 (code AND 1)) * drop_bit 1 code)"

definition read_coefficient :: "u8 \<Rightarrow> ('f chan, int) io" where
  "read_coefficient resolution =
     bindS (\<lambda>st. (arr_get hcatbdecoderMaxBitTable (unat resolution), st)) (\<lambda>bits.
     bindS (c_read (uint bits)) (\<lambda>code.
       if resolution > 7 then
         let signedCode = signed_code code in
         if signedCode = 0 then bindS (c_skip (- 1)) (\<lambda>_. returnS signedCode) else returnS signedCode
       else
         let index = push_bit 4 (ucast resolution) + code in
         bindS (\<lambda>st. (arr_get hcatbdecoderReadBitTable (unat index), st)) (\<lambda>len.
         bindS (c_skip (uint len - uint bits)) (\<lambda>_.
         (\<lambda>st. (arr_get hcatbdecoderReadValTable (unat index), st))))))"

definition dequantize_step :: "'f float_ops \<Rightarrow> nat \<Rightarrow> nat \<Rightarrow> ('f chan, unit) io" where
  "dequantize_step F subframe i =
     bindS c_get (\<lambda>c.
     bindS (\<lambda>st. (arr_get (ch_resolution c) i, st)) (\<lambda>resolution.
     bindS (read_coefficient resolution) (\<lambda>qc.
     bindS (\<lambda>st. (arr_get (ch_gain c) i, st)) (\<lambda>gain.
       c_try (put_spectrum subframe i (f_mul F gain (f_of_int F qc)))))))"

definition dequantizeCoefficients :: "'f float_ops \<Rightarrow> nat \<Rightarrow> ('f chan, unit) io" where
  "dequantizeCoefficients F subframe =
     bindS c_get (\<lambda>c. let ccCount = unat (ch_codedCount c) in
     bindS (forS ccCount 0 (dequantize_step F subframe)) (\<lambda>_.
       forS (128 - ccCount) ccCount (\<lambda>i. c_try (put_spectrum subframe i (f_of_bits F 0)))))"

section \<open>A frame\<close>

text \<open>Run a step on channel \<open>ch\<close> of the decoder.\<close>

type_synonym 'f frame = "'f ClHCA \<times> clData"

definition on_channel :: "nat \<Rightarrow> ('f chan, 'a) io \<Rightarrow> ('f frame, 'a) io" where
  "on_channel ch m st =
     (let (h, br) = st in
      if ch < length (h_channel h) then
        case m (h_channel h ! ch, br) of
          (r, (c, br)) \<Rightarrow> (r, (h\<lparr>h_channel := (h_channel h)[ch := c]\<rparr>, br))
      else (Inl (Panic ''index out of range''), st))"

text \<open>\<open>_ = f(...)\<close>: an error value is dropped, a panic is not.\<close>

definition ignore_err :: "('s, unit) io \<Rightarrow> ('s, unit) io" where
  "ignore_err m s = (case m s of (Inl e, t) \<Rightarrow> (if is_panic e then Inl e else Inr (), t) | (Inr u, t) \<Rightarrow> (Inr u, t))"

definition unpack_channel :: "'f float_ops \<Rightarrow> u64 \<Rightarrow> nat \<Rightarrow> ('f frame, unit) io" where
  "unpack_channel F packedNoiseLevel ch st =
     (let h = fst st in
      runS
        [on_channel ch (unpackScaleFactors (h_hfrGroupCount h) (h_version h)),
         ignore_err (on_channel ch (unpackIntensity (h_hfrGroupCount h) (h_version h))),
         on_channel ch (c_try (calculateResolution packedNoiseLevel (h_athCurve h)
           (h_minResolution h) (h_maxResolution h))),
         on_channel ch (c_try (calculateGain F))] st)"

definition dequantize_all :: "'f float_ops \<Rightarrow> nat \<Rightarrow> ('f frame, unit) io" where
  "dequantize_all F n =
     forS 8 0 (\<lambda>subframe. forS n 0 (\<lambda>ch. on_channel ch (dequantizeCoefficients F subframe)))"

text \<open>The code of \<open>decodeBlockUnpack\<close> from the evaluation boundary on.\<close>

definition unpack_body :: "'f float_ops \<Rightarrow> bytes \<Rightarrow> 'f ClHCA \<Rightarrow> u64 \<Rightarrow> clData \<Rightarrow> (go_err + int) \<times> 'f ClHCA \<times> bytes" where
  "unpack_body F data h level br =
     (case bitreaderRead br 7 of
        Inl e \<Rightarrow> (Inl e, h, data)
      | Inr (boundary, br) \<Rightarrow>
          (case forS (unat (h_channels h)) 0 (unpack_channel F (push_bit 8 level - boundary)) (h, br) of
             (Inl e, (h, _)) \<Rightarrow> (if is_panic e then Inl e else Inr (- 5), h, data)
           | (Inr _, s) \<Rightarrow>
               (case dequantize_all F (unat (h_channels h)) s of
                  (Inl e, (h, _)) \<Rightarrow> (Inl e, h, data)
                | (Inr _, (h, br)) \<Rightarrow> (Inr (cl_bit br), h, data))))"

text \<open>
  \<open>decodeBlockUnpack\<close>: the bit position after the frame, or a negative code. The data are
  decrypted in place, under the reader.
\<close>

definition decodeBlockUnpack :: "'f float_ops \<Rightarrow> bytes \<Rightarrow> 'f ClHCA \<Rightarrow> (go_err + int) \<times> 'f ClHCA \<times> bytes" where
  "decodeBlockUnpack F data h =
     (if \<not> h_isValid h then (Inr (- 1), h, data)
      else if int (length data) < sint (h_frameSize h) then (Inr (- 1), h, data)
      else
        case bitreaderRead (bitreaderInit data (sint (h_frameSize h))) 16 of
          Inl e \<Rightarrow> (Inl e, h, data)
        | Inr (sync, br) \<Rightarrow>
            if sync \<noteq> 0xFFFF then (Inr (- 4), h, data)
            else case crc16Checksum data (unat (h_frameSize h)) of
              Inl e \<Rightarrow> (Inl e, h, data)
            | Inr c \<Rightarrow>
                if c \<noteq> 0 then (Inr (- 3), h, data)
                else
                  let data = cipherDecrypt (h_cipherTable h) data (unat (h_frameSize h));
                      br = br\<lparr>cl_data := data\<rparr> in
                  case bitreaderRead br 9 of
                    Inl e \<Rightarrow> (Inl e, h, data)
                  | Inr (level, br) \<Rightarrow>
                      unpack_body F data h level br)"

section \<open>The contract of a step\<close>

text \<open>
  \<open>crun I m Q\<close>: on a channel (or a decoder) in \<open>I\<close>, the step keeps \<open>I\<close>, wherever it stops; what it returns
  satisfies \<open>Q\<close>; and its only panic is the one of the bit reader at the end of the data.
\<close>

definition soft :: "go_err \<Rightarrow> bool" where
  "soft e \<longleftrightarrow> \<not> is_panic e \<or> e = Panic ''negative shift amount''"

definition crun :: "('c \<Rightarrow> bool) \<Rightarrow> ('c \<times> clData, 'a) io \<Rightarrow> ('a \<Rightarrow> bool) \<Rightarrow> bool" where
  "crun I m Q \<longleftrightarrow>
     (\<forall>c br r c' br'. reader_ok br \<longrightarrow> I c \<longrightarrow> m (c, br) = (r, (c', br')) \<longrightarrow>
       I c' \<and> reader_ok br' \<and> (case r of Inl e \<Rightarrow> soft e | Inr x \<Rightarrow> Q x))"

named_theorems crun_intros \<open>the contract, construct by construct\<close>

lemma crunI:
  assumes "\<And>c br r c' br'. reader_ok br \<Longrightarrow> I c \<Longrightarrow> m (c, br) = (r, (c', br')) \<Longrightarrow>
    I c' \<and> reader_ok br' \<and> (case r of Inl e \<Rightarrow> soft e | Inr x \<Rightarrow> Q x)"
  shows "crun I m Q"
  unfolding crun_def using assms by blast

lemma crunD:
  assumes "crun I m Q" and "reader_ok br" and "I c" and "m (c, br) = (r, (c', br'))"
  shows "I c' \<and> reader_ok br' \<and> (case r of Inl e \<Rightarrow> soft e | Inr x \<Rightarrow> Q x)"
  using assms unfolding crun_def by blast

lemma crun_weaken:
  assumes "crun I m Q" and "\<And>x. Q x \<Longrightarrow> R x"
  shows "crun I m R"
proof (rule crunI)
  fix c br r c' br'
  assume "reader_ok br" "I c" "m (c, br) = (r, (c', br'))"
  from crunD [OF assms(1) this] assms(2)
  show "I c' \<and> reader_ok br' \<and> (case r of Inl e \<Rightarrow> soft e | Inr x \<Rightarrow> R x)" by (cases r) simp_all
qed

lemma crun_bind [crun_intros]:
  assumes "crun I m Q" and "\<And>x. Q x \<Longrightarrow> crun I (f x) R"
  shows "crun I (bindS m f) R"
proof (rule crunI)
  fix c br r c' br'
  assume ok: "reader_ok br" "I c" and run: "bindS m f (c, br) = (r, (c', br'))"
  obtain q d b where m: "m (c, br) = (q, (d, b))" by (metis surj_pair)
  note out = crunD [OF assms(1) ok m]
  show "I c' \<and> reader_ok br' \<and> (case r of Inl e \<Rightarrow> soft e | Inr x \<Rightarrow> R x)"
  proof (cases q)
    case (Inl e)
    with run m out show ?thesis by (auto simp: bindS_def)
  next
    case (Inr x)
    with run m have "f x (d, b) = (r, (c', br'))" by (simp add: bindS_def)
    from crunD [OF assms(2) _ _ this] out Inr show ?thesis by simp
  qed
qed

lemma crun_return [crun_intros]: "Q x \<Longrightarrow> crun I (returnS x) Q"
  by (rule crunI) auto

lemma crun_throw [crun_intros]: "soft e \<Longrightarrow> crun I (throwS e) Q"
  by (rule crunI) auto

lemma crun_if [crun_intros]: "(b \<Longrightarrow> crun I m Q) \<Longrightarrow> (\<not> b \<Longrightarrow> crun I n Q) \<Longrightarrow> crun I (if b then m else n) Q"
  by simp

lemma crun_get:
  assumes "\<And>c. I c \<Longrightarrow> crun I (f c) R"
  shows "crun I (bindS c_get f) R"
proof (rule crunI)
  fix c br r c' br'
  assume "reader_ok br" "I c" "bindS c_get f (c, br) = (r, (c', br'))"
  with crunD [OF assms, of c br c r c' br'] show "I c' \<and> reader_ok br' \<and> (case r of Inl e \<Rightarrow> soft e | Inr x \<Rightarrow> R x)"
    by (simp add: bindS_def c_get_def)
qed

lemma crun_try [crun_intros]:
  assumes "\<And>c. I c \<Longrightarrow> (case f c of Inl e \<Rightarrow> soft e | Inr c' \<Rightarrow> I c')"
  shows "crun I (c_try f) (\<lambda>_. True)"
proof (rule crunI)
  fix c br r c' br'
  assume "reader_ok br" "I c" "c_try f (c, br) = (r, (c', br'))"
  with assms [of c] show "I c' \<and> reader_ok br' \<and> (case r of Inl e \<Rightarrow> soft e | Inr x \<Rightarrow> True)"
    by (auto simp: c_try_def split: sum.splits)
qed

lemma crun_forS:
  assumes "\<And>j. i \<le> j \<Longrightarrow> j < i + n \<Longrightarrow> crun I (body j) (\<lambda>_. True)"
  shows "crun I (forS n i body) (\<lambda>_. True)"
  using assms
proof (induction n arbitrary: i)
  case 0
  show ?case by (simp add: crun_return)
next
  case (Suc n)
  show ?case
    unfolding forS.simps by (rule crun_bind [OF Suc.prems], simp, simp, rule Suc.IH) (use Suc.prems in simp)
qed

lemma soft_simps [simp]:
  "soft (Failure m)" "\<not> soft (Panic ''index out of range'')" "\<not> soft (Panic ''slice bounds out of range'')"
  "soft (Panic ''negative shift amount'')"
  by (simp_all add: soft_def)

lemma peek_result:
  assumes "reader_ok br" and "0 \<le> n" and "n \<le> 64"
  shows "case bitreaderPeek br n of Inl e \<Rightarrow> soft e | Inr v \<Rightarrow> uint v < 2 ^ nat n"
proof -
  have "uint (bits_at (cl_data br) (nat (cl_bit br)) (nat n)) < 2 ^ nat n"
    using assms(3) by (intro bits_at_less) simp
  then show ?thesis by (simp add: bitreaderPeek_eq [OF assms(1,2)])
qed

lemma crun_peek [crun_intros]:
  "0 \<le> n \<Longrightarrow> n \<le> 64 \<Longrightarrow> crun I (c_peek n) (\<lambda>v. uint v < 2 ^ nat n)"
  using peek_result [of _ n] by (intro crunI) (auto simp: c_peek_def)

lemma crun_skip [crun_intros]: "0 \<le> n \<Longrightarrow> crun I (c_skip n) (\<lambda>_. True)"
  by (rule crunI) (auto simp: c_skip_def reader_ok_def)

lemma crun_read [crun_intros]:
  assumes "0 \<le> n" and "n \<le> 64"
  shows "crun I (c_read n) (\<lambda>v. uint v < 2 ^ nat n)"
  unfolding c_read_def
  by (rule crun_bind [OF crun_peek [OF assms]], rule crun_bind [OF crun_skip [OF assms(1)]], rule crun_return)

section \<open>The steps keep the channel in shape\<close>

definition chan_ok :: "channelType \<Rightarrow> u64 \<Rightarrow> 'f stChannel \<Rightarrow> bool" where
  "chan_ok t n c \<longleftrightarrow> channel_shape c \<and> ch_channelType c = t \<and> ch_codedCount c = n"

lemma in_list_update: "v \<in> set (xs[i := x]) \<Longrightarrow> v = x \<or> v \<in> set xs"
  using set_update_subset_insert [of xs i x] by blast

lemma byte_of_bits: "uint (v :: u64) < b \<Longrightarrow> b \<le> 256 \<Longrightarrow> uint (ucast v :: u8) = uint v"
  by (simp add: unsigned_ucast_eq take_bit_int_eq_self)

lemma byte_of_bits_less: "uint (v :: u64) < 2 ^ 6 \<Longrightarrow> (ucast v :: u8) < 64"
  "uint (v :: u64) < 2 ^ 4 \<Longrightarrow> (ucast v :: u8) \<le> 15"
  by (simp_all add: word_less_def word_le_def byte_of_bits)

lemma and_3F_less: "(v :: u8) AND 0x3F < 64"
proof -
  have F: "(0x3F :: u8) = mask 6" by (simp add: mask_eq_exp_minus_1)
  show ?thesis
    unfolding F take_bit_eq_mask [symmetric] word_less_nat_alt unsigned_take_bit_eq
    using take_bit_nat_less_exp [of 6 "unat v"] by simp
qed

lemma put_scaleFactor_ok:
  "i < 128 \<Longrightarrow> v < 64 \<Longrightarrow> chan_ok t n c \<Longrightarrow>
   case put_scaleFactor i v c of Inl e \<Rightarrow> soft e | Inr c' \<Rightarrow> chan_ok t n c'"
  by (auto simp: put_scaleFactor_def arr_put_def chan_ok_def channel_shape_def dest: in_list_update)

lemma put_intensity_ok:
  "i < 8 \<Longrightarrow> v \<le> 15 \<Longrightarrow> chan_ok t n c \<Longrightarrow>
   case put_intensity i v c of Inl e \<Rightarrow> soft e | Inr c' \<Rightarrow> chan_ok t n c'"
  by (auto simp: put_intensity_def arr_put_def chan_ok_def channel_shape_def dest: in_list_update)

lemma crun_put_sf [crun_intros]:
  "i < 128 \<Longrightarrow> v < 64 \<Longrightarrow> crun (chan_ok t n) (c_try (put_scaleFactor i v)) (\<lambda>_. True)"
  by (rule crun_try) (rule put_scaleFactor_ok)

lemma crun_put_intensity [crun_intros]:
  "i < 8 \<Longrightarrow> v \<le> 15 \<Longrightarrow> crun (chan_ok t n) (c_try (put_intensity i v)) (\<lambda>_. True)"
  by (rule crun_try) (rule put_intensity_ok)

lemma crun_read_sf:
  "i < 128 \<Longrightarrow> crun (chan_ok t n) (bindS (c_read 6) (\<lambda>v. c_try (put_scaleFactor i (ucast v)))) (\<lambda>_. True)"
  by (rule crun_bind [OF crun_read]) (auto intro!: crun_put_sf byte_of_bits_less)

lemma crun_next_scale: "crun I (next_scale deltaBits v d) (\<lambda>v. v < 64)"
  unfolding next_scale_def Let_def
  by (intro crun_if crun_return crun_throw crun_bind [OF crun_read]) (simp_all add: and_3F_less byte_of_bits_less)

lemma crun_next_intensity: "crun I (next_intensity deltaBits v d) (\<lambda>v. v \<le> 15)"
  unfolding next_intensity_def Let_def
  by (intro crun_if crun_return crun_throw crun_bind [OF crun_read]) (simp_all add: byte_of_bits_less)

lemma crun_delta_loop:
  assumes "uint deltaBits \<le> 64"
  shows "i + k \<le> 128 \<Longrightarrow> crun (chan_ok t n) (delta_loop k i deltaBits v) (\<lambda>_. True)"
proof (induction k arbitrary: i v)
  case 0
  show ?case by (simp add: crun_return)
next
  case (Suc k)
  then have i: "i < 128" "Suc i + k \<le> 128" by simp_all
  show ?case
    unfolding delta_loop.simps
    by (rule crun_bind [OF crun_read [OF uint_ge_0 assms]], rule crun_bind [OF crun_next_scale],
        rule crun_bind [OF crun_put_sf [OF i(1)]], assumption, rule Suc.IH [OF i(2)])
qed

lemma crun_intensity_loop:
  assumes "uint (deltaBits + 1) \<le> 64"
  shows "i + k \<le> 8 \<Longrightarrow> crun (chan_ok t n) (intensity_loop k i deltaBits v) (\<lambda>_. True)"
proof (induction k arbitrary: i v)
  case 0
  show ?case by (simp add: crun_return)
next
  case (Suc k)
  then have i: "i < 8" "Suc i + k \<le> 8" by simp_all
  show ?case
    unfolding intensity_loop.simps
    by (rule crun_bind [OF crun_read [OF uint_ge_0 assms]], rule crun_bind [OF crun_next_intensity],
        rule crun_bind [OF crun_put_intensity [OF i(1)]], assumption, rule Suc.IH [OF i(2)])
qed

lemma derive_scale_ok:
  assumes "unat cs < 128" and "i < unat cs" and "chan_ok t n c"
  shows "case derive_scale cs i c of Inl e \<Rightarrow> soft e | Inr c' \<Rightarrow> chan_ok t n c'"
proof -
  have i: "unat (of_nat i :: u64) = i" using assms(1,2) by (simp add: unat_of_nat)
  then have "unat (cs - of_nat i) = unat cs - i"
    using assms(2) by (simp add: unat_sub word_le_nat_alt)
  moreover have "unat (127 - of_nat i :: u64) = 127 - i"
    using assms(1,2) i by (subst unat_sub) (simp_all add: word_le_nat_alt)
  moreover have "ch_scaleFactors c ! (unat cs - i) < 64"
    using assms by (simp add: chan_ok_def channel_shape_def)
  ultimately show ?thesis
    using assms put_scaleFactor_ok [of "127 - i" "ch_scaleFactors c ! (unat cs - i)" t n c]
    by (simp add: derive_scale_def arr_get_def chan_ok_def channel_shape_def)
qed

text \<open>When version 3 derives its high-frequency scales from inside the array.\<close>

definition scales_fit :: "u64 \<Rightarrow> u64 \<Rightarrow> channelType \<Rightarrow> u64 \<Rightarrow> bool" where
  "scales_fit hfr version t n \<longleftrightarrow>
     unat n \<le> 128 \<and> unat hfr \<le> 128 \<and>
     (t = stereoSecondary \<or> hfr = 0 \<or> version \<le> 0x0200 \<or> unat n + unat hfr \<noteq> 128)"

lemma crun_read_scales:
  assumes "unat cs \<le> 128"
  shows "crun (chan_ok t n) (read_scales cs d) (\<lambda>_. True)"
  unfolding read_scales_def
proof (intro crun_if)
  show "crun (chan_ok t n) (forS (unat cs) 0 (\<lambda>i. bindS (c_read 6) (\<lambda>v. c_try (put_scaleFactor i (ucast v))))) (\<lambda>_. True)"
    by (rule crun_forS, rule crun_read_sf) (use assms in simp)
  show "crun (chan_ok t n) (bindS (c_read 6) (\<lambda>v. bindS (c_try (put_scaleFactor 0 (ucast v))) (\<lambda>_.
      delta_loop (unat cs - 1) 1 d (ucast v)))) (\<lambda>_. True)" if d: "\<not> 6 \<le> d"
  proof (rule crun_bind [OF crun_read])
    fix v :: u64 assume v: "uint v < 2 ^ nat 6"
    have "uint d \<le> 64" using d by (simp add: word_le_def)
    then show "crun (chan_ok t n) (bindS (c_try (put_scaleFactor 0 (ucast v))) (\<lambda>_.
      delta_loop (unat cs - 1) 1 d (ucast v))) (\<lambda>_. True)"
      using v assms by (intro crun_bind [OF crun_put_sf] crun_delta_loop byte_of_bits_less) simp_all
  qed simp_all
  show "crun (chan_ok t n) (c_try (\<lambda>c. Inr (c\<lparr>ch_scaleFactors := replicate 128 0\<rparr>))) (\<lambda>_. True)"
    by (rule crun_try) (simp add: chan_ok_def channel_shape_def)
qed

lemma crun_unpackScaleFactors:
  assumes fit: "scales_fit hfr version t n"
  shows "crun (chan_ok t n) (unpackScaleFactors hfr version) (\<lambda>_. True)"
  unfolding unpackScaleFactors_def Let_def
proof (rule crun_bind [OF crun_read], simp, simp, rule crun_get, intro crun_if)
  fix v :: u64 and c :: "'a stChannel"
  assume "chan_ok t n c"
  then have c: "ch_channelType c = t" "ch_codedCount c = n" by (simp_all add: chan_ok_def)
  show "crun (chan_ok t n) (read_scales (ch_codedCount c) (ucast v)) (\<lambda>_. True)"
    using fit by (intro crun_read_scales) (simp add: c scales_fit_def)
  show "crun (chan_ok t n) (throwS (Failure ''invalid coded count'')) (\<lambda>_. True)"
    by (simp add: crun_throw)
  assume "\<not> (ch_channelType c = stereoSecondary \<or> hfr \<le> 0 \<or> version \<le> 0x0200)"
    and "\<not> 128 < ch_codedCount c + hfr"
  then have "unat (n + hfr) = unat n + unat hfr" "unat n + unat hfr < 128"
    using fit by (auto simp: c scales_fit_def unat_word_ariths word_less_nat_alt not_less)
  then show "crun (chan_ok t n) (bindS (read_scales (ch_codedCount c + hfr) (ucast v)) (\<lambda>_.
      forS (unat hfr) 0 (\<lambda>i. c_try (derive_scale (ch_codedCount c + hfr) i)))) (\<lambda>_. True)"
    unfolding c
    by (intro crun_bind [OF crun_read_scales] crun_forS crun_try derive_scale_ok) simp_all
qed

lemma crun_read_intensities: "i + k \<le> 8 \<Longrightarrow> crun (chan_ok t n) (read_intensities k i) (\<lambda>_. True)"
  unfolding read_intensities_def
  by (intro crun_forS crun_bind [OF crun_read] crun_put_intensity byte_of_bits_less) simp_all

lemma crun_unpackIntensity:
  assumes fit: "scales_fit hfr version t n"
  shows "crun (chan_ok t n) (unpackIntensity hfr version) (\<lambda>_. True)"
  unfolding unpackIntensity_def Let_def
proof (rule crun_get, intro crun_if)
  show "crun (chan_ok t n) (bindS (c_peek 4) (\<lambda>v.
      if version \<le> 0x0200 then
        bindS (c_try (put_intensity 0 (ucast v))) (\<lambda>_.
          if (ucast v :: u8) < 15 then bindS (c_skip 4) (\<lambda>_. read_intensities 7 1) else returnS ())
      else if (ucast v :: u8) < 15 then
        bindS (c_skip 4) (\<lambda>_. bindS (c_read 2) (\<lambda>va.
        bindS (c_try (put_intensity 0 (ucast v))) (\<lambda>_.
          if (ucast va :: u8) = 3 then read_intensities 7 1 else intensity_loop 7 1 (ucast va) (ucast v))))
      else bindS (c_skip 4) (\<lambda>_. forS 8 0 (\<lambda>i. c_try (put_intensity i 7))))) (\<lambda>_. True)"
  proof (rule crun_bind [OF crun_peek], simp, simp)
    fix v :: u64 assume "uint v < 2 ^ nat 4"
    then have v: "(ucast v :: u8) \<le> 15" by (intro byte_of_bits_less) simp
    have bits: "uint (ucast va + 1 :: u8) \<le> 64" if "uint (va :: u64) < 2 ^ nat 2" for va
    proof -
      have "uint (ucast va :: u8) < 4" using that by (simp add: byte_of_bits)
      then show ?thesis by (simp add: uint_word_ariths)
    qed
    show "crun (chan_ok t n)
      (if version \<le> 0x0200 then
        bindS (c_try (put_intensity 0 (ucast v))) (\<lambda>_.
          if (ucast v :: u8) < 15 then bindS (c_skip 4) (\<lambda>_. read_intensities 7 1) else returnS ())
      else if (ucast v :: u8) < 15 then
        bindS (c_skip 4) (\<lambda>_. bindS (c_read 2) (\<lambda>va.
        bindS (c_try (put_intensity 0 (ucast v))) (\<lambda>_.
          if (ucast va :: u8) = 3 then read_intensities 7 1 else intensity_loop 7 1 (ucast va) (ucast v))))
      else bindS (c_skip 4) (\<lambda>_. forS 8 0 (\<lambda>i. c_try (put_intensity i 7)))) (\<lambda>_. True)"
      using v bits
      by (intro crun_if crun_bind [OF crun_put_intensity] crun_bind [OF crun_skip] crun_bind [OF crun_read]
          crun_return crun_read_intensities crun_intensity_loop crun_forS crun_put_intensity) simp_all
  qed
  show "crun (chan_ok t n) (throwS (Panic ''slice bounds out of range'')) (\<lambda>_. True)" if "128 < 128 - hfr"
  proof -
    have "unat (128 - hfr) = 128 - unat hfr"
      using fit by (subst unat_sub) (simp_all add: scales_fit_def word_le_nat_alt)
    with that show ?thesis by (simp add: word_less_nat_alt)
  qed
  show "crun (chan_ok t n) (forS (unat hfr) 0 (\<lambda>i. bindS (c_read 6) (\<lambda>v.
      if i < 128 - unat (128 - hfr) then c_try (put_scaleFactor (unat (128 - hfr) + i) (ucast v))
      else throwS (Panic ''index out of range'')))) (\<lambda>_. True)"
  proof (rule crun_forS)
    fix i assume "0 \<le> i" "i < 0 + unat hfr"
    moreover have h: "unat hfr \<le> 128" using fit by (simp add: scales_fit_def)
    moreover have "unat (128 - hfr) = 128 - unat hfr"
      using h by (subst unat_sub) (simp_all add: word_le_nat_alt)
    ultimately have "i < 128 - unat (128 - hfr)" "unat (128 - hfr) + i < 128" by linarith+
    then show "crun (chan_ok t n) (bindS (c_read 6) (\<lambda>v.
      if i < 128 - unat (128 - hfr) then c_try (put_scaleFactor (unat (128 - hfr) + i) (ucast v))
      else throwS (Panic ''index out of range''))) (\<lambda>_. True)"
      by (intro crun_if crun_bind [OF crun_read] crun_put_sf byte_of_bits_less) simp_all
  qed
  show "crun (chan_ok t n) (returnS ()) (\<lambda>_. True)" by (simp add: crun_return)
qed

section \<open>Resolution, gain and coefficients\<close>

lemma forR_induct:
  assumes "P i s" and "\<And>j t. i \<le> j \<Longrightarrow> j < i + n \<Longrightarrow> P j t \<Longrightarrow> \<exists>t'. body j t = Inr t' \<and> P (Suc j) t'"
  shows "\<exists>t. forR n i body s = Inr t \<and> P (i + n) t"
  using assms
proof (induction n arbitrary: i s)
  case 0
  then show ?case by simp
next
  case (Suc n)
  from Suc.prems(2) [of i s] Suc.prems(1) obtain t where t: "body i s = Inr t" "P (Suc i) t" by auto
  have "\<exists>u. forR n (Suc i) body t = Inr u \<and> P (Suc i + n) u"
    by (rule Suc.IH [OF t(2)]) (use Suc.prems(2) in auto)
  with t show ?case by simp
qed

lemma new_resolution_le: "k \<le> 15 \<Longrightarrow> m \<le> 15 \<Longrightarrow> new_resolution s p i a k m \<le> 15"
proof -
  assume "k \<le> 15" "m \<le> 15"
  then have "(ucast k :: u8) \<le> 15" "(ucast m :: u8) \<le> 15"
    by (simp_all add: word_le_def unsigned_ucast_eq take_bit_int_eq_self)
  moreover have len: "length hcadecoderInvertTable = 66" by (simp add: hcadecoderInvertTable_def)
  moreover have "\<forall>v\<in>set hcadecoderInvertTable. v \<le> 15" by (simp add: hcadecoderInvertTable_def)
  then have "hcadecoderInvertTable ! n \<le> 15" if "n \<le> 65" for n
    using that nth_mem [of n hcadecoderInvertTable] len by fastforce
  ultimately show ?thesis
    unfolding new_resolution_def Let_def
    by (auto simp: not_less intro: order_trans order.strict_implies_order)
qed

lemma resolution_step_ok:
  assumes "chan_ok t n c" and "i < 128" and "length ath = 128" and "k \<le> 15" and "m \<le> 15"
    and "unat nc + unat vc \<le> i"
  shows "\<exists>c' nc' vc'. resolution_step p ath k m i (c, nc, vc) = Inr (c', nc', vc') \<and>
    chan_ok t n c' \<and> unat nc' + unat vc' \<le> Suc i"
proof -
  have l: "length (ch_scaleFactors c) = 128" "length (ch_noises c) = 128" "length (ch_resolution c) = 128"
    using assms(1) by (simp_all add: chan_ok_def channel_shape_def)
  have n: "unat nc < 128" "unat vc < 128" "unat (nc + 1) = unat nc + 1" "unat (vc + 1) = unat vc + 1"
    using assms(2,6) by (simp_all add: unat_word_ariths)
  then have v: "unat (127 - vc) = 127 - unat vc"
    by (subst unat_sub) (simp_all add: word_le_nat_alt)
  have byte: "(of_nat i :: u8) < 128" using assms(2) by (simp add: word_less_nat_alt unat_of_nat)
  note res = new_resolution_le [OF assms(4,5)]
  have step: "chan_ok t n (c\<lparr>ch_noises := (ch_noises c)[a := of_nat i], ch_resolution := (ch_resolution c)[i := r]\<rparr>)"
    "chan_ok t n (c\<lparr>ch_resolution := (ch_resolution c)[i := r]\<rparr>)" if "r \<le> 15" for a r
    using assms(1) that byte by (auto simp: chan_ok_def channel_shape_def dest!: in_list_update)
  show ?thesis
    using assms(2,3,6) n step res
    by (auto simp: resolution_step_def arr_get_def arr_put_def Let_def l v)
qed

lemma calculateResolution_ok:
  assumes "chan_ok t n c" and "length ath = 128" and "k \<le> 15" and "m \<le> 15" and "unat n \<le> 128"
  shows "\<exists>c'. calculateResolution p ath k m c = Inr c' \<and> chan_ok t n c'"
proof -
  have n: "ch_codedCount c = n" using assms(1) by (simp add: chan_ok_def)
  let ?P = "\<lambda>j (c, nc, vc). chan_ok t n c \<and> unat (nc :: u64) + unat (vc :: u64) \<le> j"
  have "\<exists>s. forR (unat n) 0 (resolution_step p ath k m) (c, 0, 0) = Inr s \<and> ?P (0 + unat n) s"
  proof (rule forR_induct)
    show "?P 0 (c, 0, 0)" using assms(1) by simp
  next
    fix j s assume "0 \<le> j" "j < 0 + unat n" "?P j s"
    then show "\<exists>s'. resolution_step p ath k m j s = Inr s' \<and> ?P (Suc j) s'"
      using resolution_step_ok [OF _ _ assms(2-4)] assms(5) by (cases s) force
  qed
  then obtain d nc vc where d: "forR (unat n) 0 (resolution_step p ath k m) (c, 0, 0) = Inr (d, nc, vc)"
      "chan_ok t n d" "unat nc + unat vc \<le> unat n" by auto
  let ?d = "d\<lparr>ch_noiseCount := nc, ch_validCount := vc\<rparr>"
  have "\<exists>s. forR (128 - unat n) (unat n) (\<lambda>i c. bindR (arr_put i 0 (ch_resolution c)) (\<lambda>l. Inr (c\<lparr>ch_resolution := l\<rparr>))) ?d
      = Inr s \<and> chan_ok t n s"
  proof (rule forR_induct [where P = "\<lambda>_. chan_ok t n"])
    show "chan_ok t n ?d" using d(2,3) assms(5) by (simp add: chan_ok_def channel_shape_def)
  next
    fix j e assume "unat n \<le> j" "j < unat n + (128 - unat n)" "chan_ok t n e"
    then show "\<exists>e'. bindR (arr_put j 0 (ch_resolution e)) (\<lambda>l. Inr (e\<lparr>ch_resolution := l\<rparr>)) = Inr e' \<and> chan_ok t n e'"
      by (auto simp: arr_put_def chan_ok_def channel_shape_def dest!: in_list_update)
  qed
  then show ?thesis using d(1) by (simp add: calculateResolution_def n Let_def)
qed

lemma calculateGain_ok:
  fixes c :: "'f stChannel"
  assumes "chan_ok t n c" and "unat n \<le> 128"
  shows "\<exists>c'. calculateGain F c = Inr c' \<and> chan_ok t n c'"
proof -
  have n: "ch_codedCount c = n" using assms(1) by (simp add: chan_ok_def)
  have "\<exists>s. forR (unat n) 0 (gain_step F) c = Inr s \<and> chan_ok t n s"
  proof (rule forR_induct [where P = "\<lambda>_. chan_ok t n"])
    fix j and e :: "'f stChannel" assume j: "0 \<le> j" "j < 0 + unat n" and e: "chan_ok t n e"
    from e j assms(2) have "ch_scaleFactors e ! j < 64" "ch_resolution e ! j \<le> 15"
      by (simp_all add: chan_ok_def channel_shape_def)
    then have "unat (ch_scaleFactors e ! j) < 64" "unat (ch_resolution e ! j) < 16"
      by (simp_all add: word_less_nat_alt word_le_nat_alt)
    moreover have "length hcadequantizerScalingTableFloatHex = 64" "length hcadequantizerRangeTableFloatHex = 16"
      by (simp_all add: hcadequantizerScalingTableFloatHex_def hcadequantizerRangeTableFloatHex_def)
    ultimately show "\<exists>e'. gain_step F j e = Inr e' \<and> chan_ok t n e'"
      using e j assms(2) by (simp add: gain_step_def arr_get_def arr_put_def chan_ok_def channel_shape_def)
  qed (rule assms(1))
  then show ?thesis by (simp add: calculateGain_def n)
qed

text \<open>What a code of \<open>bits\<close> bits stands for, and how many of the bits it takes.\<close>

definition coefficient :: "u8 \<Rightarrow> u64 \<Rightarrow> int \<times> int" where
  "coefficient resolution code =
     (if resolution > 7 then
        (signed_code code,
         if signed_code code = 0 then uint (hcatbdecoderMaxBitTable ! unat resolution) - 1
         else uint (hcatbdecoderMaxBitTable ! unat resolution))
      else
        (hcatbdecoderReadValTable ! (16 * unat resolution + unat code),
         uint (hcatbdecoderReadBitTable ! (16 * unat resolution + unat code))))"

lemma max_bits: "(r :: u8) \<le> 15 \<Longrightarrow> uint (hcatbdecoderMaxBitTable ! unat r) \<le> 12 \<and>
  (r > 7 \<longrightarrow> 5 \<le> uint (hcatbdecoderMaxBitTable ! unat r)) \<and> (\<not> r > 7 \<longrightarrow> uint (hcatbdecoderMaxBitTable ! unat r) \<le> 4)"
proof -
  assume "r \<le> 15"
  then have r: "unat r \<in> set [0..<16]" by (auto simp: word_le_nat_alt)
  have "\<forall>k\<in>set [0..<16]. uint (hcatbdecoderMaxBitTable ! k) \<le> 12 \<and>
    (7 < k \<longrightarrow> 5 \<le> uint (hcatbdecoderMaxBitTable ! k)) \<and> (\<not> 7 < k \<longrightarrow> uint (hcatbdecoderMaxBitTable ! k) \<le> 4)"
    by code_simp
  with r show ?thesis unfolding word_less_nat_alt by auto
qed

lemma table_lengths:
  "length hcatbdecoderMaxBitTable = 16" "length hcatbdecoderReadBitTable = 128" "length hcatbdecoderReadValTable = 128"
  by (simp_all add: hcatbdecoderMaxBitTable_def hcatbdecoderReadBitTable_def hcatbdecoderReadValTable_def)

lemma codebook_index:
  assumes "\<not> (r :: u8) > 7" and "uint (code :: u64) < 16"
  shows "unat (push_bit 4 (ucast r) + code :: u64) = 16 * unat r + unat code" "16 * unat r + unat code < 128"
proof -
  have r: "unat r \<le> 7" and c: "unat code < 16"
    using assms nat_less_iff [of "uint code" 16] by (simp_all add: word_le_nat_alt not_less)
  have u: "(ucast r :: u64) = of_nat (unat r)" by simp
  have "unat (push_bit 4 (ucast r) :: u64) = 16 * unat r"
    unfolding push_bit_eq_mult u using r by (simp add: unat_word_ariths unat_of_nat del: of_nat_unat)
  then show "unat (push_bit 4 (ucast r) + code :: u64) = 16 * unat r + unat code"
    using r c by (simp add: unat_word_ariths)
  show "16 * unat r + unat code < 128" using r c by simp
qed

lemma read_coefficient_eq:
  assumes "reader_ok br" and "r \<le> 15"
  defines "bits \<equiv> uint (hcatbdecoderMaxBitTable ! unat r)"
  shows "read_coefficient r (c, br) =
    (case bitreaderPeek br bits of
       Inl e \<Rightarrow> (Inl e, (c, br))
     | Inr code \<Rightarrow> (Inr (fst (coefficient r code)), (c, bitreaderSkip br (snd (coefficient r code)))))"
proof -
  have r: "unat r < 16" using assms(2) by (simp add: word_le_nat_alt)
  have b: "0 \<le> bits" "bits \<le> 64" "\<not> r > 7 \<Longrightarrow> bits \<le> 4"
    using max_bits [OF assms(2)] by (simp_all add: bits_def)
  show ?thesis
  proof (cases "bitreaderPeek br bits")
    case (Inl e)
    then show ?thesis using r
      by (simp add: read_coefficient_def bindS_def arr_get_def table_lengths bits_def c_read_def c_peek_def)
  next
    case (Inr code)
    have "uint code < 2 ^ nat bits" using peek_result [OF assms(1) b(1,2)] Inr by simp
    moreover have "(2::int) ^ nat bits \<le> 2 ^ 4" if "\<not> r > 7"
      using b(3) [OF that] by (intro power_increasing) simp_all
    ultimately have code: "uint code < 16" if "\<not> r > 7" using that by force
    have skip: "bitreaderSkip (bitreaderSkip br m) k = bitreaderSkip br (m + k)" for m k
      by (simp add: bitreaderSkip_def)
    note idx = codebook_index [of r code, OF _ code]
    show ?thesis
      using r Inr idx
      by (simp add: read_coefficient_def bindS_def arr_get_def table_lengths bits_def [symmetric]
          c_read_def c_peek_def c_skip_def returnS_def coefficient_def skip Let_def)
  qed
qed

lemma coefficient_length:
  assumes "r \<le> 15"
  shows "0 \<le> snd (coefficient r code)"
  using max_bits [OF assms] by (auto simp: coefficient_def)

lemma crun_read_coefficient:
  assumes "r \<le> 15"
  shows "crun I (read_coefficient r) (\<lambda>_. True)"
proof (rule crunI)
  fix c :: "'a stChannel" and br x c' br'
  assume ok: "reader_ok br" "I c" and run: "read_coefficient r (c, br) = (x, (c', br'))"
  have "uint (hcatbdecoderMaxBitTable ! unat r) \<le> 64" using max_bits [OF assms] by simp
  from peek_result [OF ok(1) _ this] have p: "case bitreaderPeek br (uint (hcatbdecoderMaxBitTable ! unat r)) of
      Inl e \<Rightarrow> soft e | Inr v \<Rightarrow> True"
    by (auto split: sum.splits)
  have "0 \<le> cl_bit br" using ok(1) by (simp add: reader_ok_def)
  then show "I c' \<and> reader_ok br' \<and> (case x of Inl e \<Rightarrow> soft e | Inr x \<Rightarrow> True)"
    using run p ok coefficient_length [OF assms]
    by (auto simp: read_coefficient_eq [OF ok(1) assms] intro!: reader_ok_skip split: sum.splits)
qed

lemma put_spectrum_ok:
  "i < 128 \<Longrightarrow> subframe < 8 \<Longrightarrow> chan_ok t n c \<Longrightarrow>
   \<exists>c'. put_spectrum subframe i v c = Inr c' \<and> chan_ok t n c'"
  by (auto simp: put_spectrum_def arr_get_def arr_put_def chan_ok_def channel_shape_def dest: in_list_update)

lemma crun_put_spectrum:
  "i < 128 \<Longrightarrow> subframe < 8 \<Longrightarrow> crun (chan_ok t n) (c_try (put_spectrum subframe i v)) (\<lambda>_. True)"
  by (rule crun_try) (drule (2) put_spectrum_ok [where v = v], auto)

lemma crun_arr_get: "i < length xs \<Longrightarrow> crun I (\<lambda>st. (arr_get xs i, st)) (\<lambda>v. v = xs ! i)"
  by (rule crunI) (auto simp: arr_get_def)

lemma crun_dequantize_step:
  fixes F :: "'f float_ops"
  assumes "i < 128" and "subframe < 8"
  shows "crun (chan_ok t n) (dequantize_step F subframe i) (\<lambda>_. True)"
  unfolding dequantize_step_def
proof (rule crun_get)
  fix c :: "'f stChannel" assume c: "chan_ok t n c"
  have l: "i < length (ch_resolution c)" "i < length (ch_gain c)"
    using c assms(1) by (simp_all add: chan_ok_def channel_shape_def)
  have r: "ch_resolution c ! i \<le> 15" using c l(1) by (simp add: chan_ok_def channel_shape_def)
  show "crun (chan_ok t n) (bindS (\<lambda>st. (arr_get (ch_resolution c) i, st)) (\<lambda>resolution.
     bindS (read_coefficient resolution) (\<lambda>qc. bindS (\<lambda>st. (arr_get (ch_gain c) i, st)) (\<lambda>gain.
       c_try (put_spectrum subframe i (f_mul F gain (f_of_int F qc))))))) (\<lambda>_. True)"
    by (rule crun_bind [OF crun_arr_get [OF l(1)]], rule crun_bind [OF crun_read_coefficient],
        simp add: r, rule crun_bind [OF crun_arr_get [OF l(2)]], rule crun_put_spectrum [OF assms])
qed

lemma crun_dequantize:
  assumes "subframe < 8" and "unat n \<le> 128"
  shows "crun (chan_ok t n) (dequantizeCoefficients F subframe) (\<lambda>_. True)"
  unfolding dequantizeCoefficients_def Let_def
proof (rule crun_get)
  fix c assume "chan_ok t n c"
  then have n: "ch_codedCount c = n" by (simp add: chan_ok_def)
  show "crun (chan_ok t n) (bindS (forS (unat (ch_codedCount c)) 0 (dequantize_step F subframe)) (\<lambda>_.
      forS (128 - unat (ch_codedCount c)) (unat (ch_codedCount c)) (\<lambda>i. c_try (put_spectrum subframe i (f_of_bits F 0))))) (\<lambda>_. True)"
    unfolding n using assms
    by (intro crun_bind [OF crun_forS] crun_forS crun_dequantize_step crun_put_spectrum) simp_all
qed

text \<open>The dequantisation stops with nothing but a panic.\<close>

definition no_failure :: "('s, 'a) io \<Rightarrow> bool" where
  "no_failure m \<longleftrightarrow> (\<forall>s e t. m s = (Inl e, t) \<longrightarrow> is_panic e)"

lemma no_failure_bind: "no_failure m \<Longrightarrow> (\<And>x. no_failure (f x)) \<Longrightarrow> no_failure (bindS m f)"
  unfolding no_failure_def bindS_def by (auto split: prod.splits sum.splits)

lemma no_failure_simps:
  "no_failure (returnS x)" "no_failure c_get" "no_failure (c_skip n)" "no_failure (\<lambda>st. (arr_get xs i, st))"
  "no_failure (c_try (put_spectrum subframe i v))"
  by (auto simp: no_failure_def c_get_def c_skip_def arr_get_def arr_put_def c_try_def put_spectrum_def returnS_def
      split: sum.splits if_splits)

lemma load_bytes_panics: "load_bytes data p k = Inl e \<Longrightarrow> is_panic e"
  by (induction k) (auto simp: bindR_Inl_iff index_get_def split: if_splits)

lemma bitreaderPeek_panics: "bitreaderPeek br n = Inl e \<Longrightarrow> is_panic e"
  by (auto simp: bitreaderPeek_def Let_def bindR_Inl_iff shift_right_def simp del: load_bytes.simps
      dest: load_bytes_panics split: if_splits)

lemma no_failure_peek: "no_failure (c_peek n)"
  by (auto simp: no_failure_def c_peek_def bitreaderPeek_panics)

lemma no_failure_read: "no_failure (c_read n)"
  unfolding c_read_def by (intro no_failure_bind no_failure_simps no_failure_peek)

lemma no_failure_forS: "(\<And>i. no_failure (body i)) \<Longrightarrow> no_failure (forS n i body)"
  by (induction n arbitrary: i) (simp_all add: no_failure_simps no_failure_bind)

lemma no_failure_on_channel: "no_failure m \<Longrightarrow> no_failure (on_channel ch m)"
  unfolding no_failure_def on_channel_def by (fastforce split: prod.splits if_splits)

lemma no_failure_read_coefficient: "no_failure (read_coefficient r)"
  unfolding read_coefficient_def Let_def
  by (intro no_failure_bind no_failure_simps no_failure_read) (auto intro!: no_failure_bind no_failure_simps)

lemma no_failure_dequantize_all: "no_failure (dequantize_all F n)"
  unfolding dequantize_all_def dequantizeCoefficients_def dequantize_step_def Let_def
  by (intro no_failure_forS no_failure_on_channel no_failure_bind no_failure_simps no_failure_read_coefficient)

section \<open>A frame keeps the decoder in order\<close>

text \<open>The decoder between frames: its invariant, but for the noise generator, which moves on.\<close>

definition ready :: "'f ClHCA \<Rightarrow> bool" where
  "ready h \<longleftrightarrow> decoder_ok (h\<lparr>h_random := 1\<rparr>)"

lemma decoder_ready: "decoder_ok h \<Longrightarrow> ready h"
  by (simp add: ready_def decoder_ok_def shape_def bands_ok_def channels_ok_def frame_ok_def)

text \<open>\<open>retyped h0 h\<close>: only what the channels hold may differ from \<open>h0\<close>.\<close>

definition retyped :: "'f ClHCA \<Rightarrow> 'f ClHCA \<Rightarrow> bool" where
  "retyped h0 h \<longleftrightarrow>
     h = h0\<lparr>h_channel := h_channel h\<rparr> \<and> length (h_channel h) = 16 \<and>
     (\<forall>k<16. chan_ok (ch_channelType (h_channel h0 ! k)) (ch_codedCount (h_channel h0 ! k)) (h_channel h ! k))"

lemma retyped_refl: "shape h \<Longrightarrow> retyped h h"
  by (simp add: retyped_def shape_def chan_ok_def)

lemma retypedE:
  assumes "retyped h0 h"
  obtains chs where "h = h0\<lparr>h_channel := chs\<rparr>" and "length chs = 16"
    and "\<And>k. k < 16 \<Longrightarrow> chan_ok (ch_channelType (h_channel h0 ! k)) (ch_codedCount (h_channel h0 ! k)) (chs ! k)"
  using assms unfolding retyped_def by blast

lemma retyped_fields:
  assumes "retyped h0 h"
  shows "h_hfrGroupCount h = h_hfrGroupCount h0" "h_version h = h_version h0" "h_athCurve h = h_athCurve h0"
    "h_minResolution h = h_minResolution h0" "h_maxResolution h = h_maxResolution h0"
  by (rule retypedE [OF assms], simp)+

lemma retyped_maps:
  assumes "retyped h0 h" and "length (h_channel h0) = 16"
  shows "map ch_channelType (h_channel h) = map ch_channelType (h_channel h0)"
    "map ch_codedCount (h_channel h) = map ch_codedCount (h_channel h0)"
  using assms by (auto intro!: nth_equalityI simp: retyped_def chan_ok_def)

lemma channels_ok_maps:
  "channels_ok h \<longleftrightarrow>
     1 \<le> unat (h_trackCount h) \<and> unat (h_trackCount h) \<le> unat (h_channels h) \<and> unat (h_channels h) \<le> 16 \<and>
     paired (take (unat (h_channels h)) (map ch_channelType (h_channel h))) \<and>
     (\<forall>x\<in>set (take (unat (h_channels h)) (zip (map ch_channelType (h_channel h)) (map ch_codedCount (h_channel h)))).
        snd x = (if fst x = stereoSecondary then h_baseBandCount h else h_baseBandCount h + h_stereoBandCount h))"
  by (simp add: channels_ok_def take_map zip_map_map zip_same_conv_map)

lemma retyped_shape:
  assumes "retyped h0 h" and "shape h0"
  shows "shape h"
proof (rule retypedE [OF assms(1)])
  fix chs
  assume h: "h = h0\<lparr>h_channel := chs\<rparr>" "length chs = 16"
    "\<And>k. k < 16 \<Longrightarrow> chan_ok (ch_channelType (h_channel h0 ! k)) (ch_codedCount (h_channel h0 ! k)) (chs ! k)"
  have "channel_shape c" if "c \<in> set chs" for c
    using that h(2,3) by (auto simp: in_set_conv_nth chan_ok_def)
  then show ?thesis using assms(2) h(1,2) by (simp add: shape_def)
qed

lemma retyped_ready:
  assumes "retyped h0 h" and "ready h0"
  shows "ready h"
proof -
  have s0: "shape h0" using assms(2) by (simp add: ready_def decoder_ok_def shape_def)
  note s = retyped_shape [OF assms(1) s0]
  obtain chs where h: "h = h0\<lparr>h_channel := chs\<rparr>" by (rule retypedE [OF assms(1)])
  have "length (h_channel h0) = 16" using s0 by (simp add: shape_def)
  from retyped_maps [OF assms(1) this]
  have "channels_ok (h\<lparr>h_random := 1\<rparr>) \<longleftrightarrow> channels_ok (h0\<lparr>h_random := 1\<rparr>)"
    unfolding channels_ok_maps by (simp add: h)
  then show ?thesis
    using assms(2) s by (simp add: ready_def decoder_ok_def h shape_def bands_ok_def frame_ok_def)
qed

lemma crun_on_channel:
  assumes "ch < 16"
    and "crun (chan_ok (ch_channelType (h_channel h0 ! ch)) (ch_codedCount (h_channel h0 ! ch))) m Q"
  shows "crun (retyped h0) (on_channel ch m) Q"
proof (rule crunI)
  fix h br r h' br'
  assume ok: "reader_ok br" "retyped h0 h" and run: "on_channel ch m (h, br) = (r, (h', br'))"
  obtain chs where h: "h = h0\<lparr>h_channel := chs\<rparr>" "length chs = 16"
      "\<And>k. k < 16 \<Longrightarrow> chan_ok (ch_channelType (h_channel h0 ! k)) (ch_codedCount (h_channel h0 ! k)) (chs ! k)"
    using ok(2) unfolding retyped_def by blast
  obtain c where m: "m (chs ! ch, br) = (r, (c, br'))" and h': "h' = h0\<lparr>h_channel := chs[ch := c]\<rparr>"
    using run assms(1) by (auto simp: on_channel_def h(1,2) split: prod.splits)
  from crunD [OF assms(2) ok(1) h(3) [OF assms(1)] m]
  show "retyped h0 h' \<and> reader_ok br' \<and> (case r of Inl e \<Rightarrow> soft e | Inr x \<Rightarrow> Q x)"
    using h(2,3) assms(1) by (auto simp: h' retyped_def nth_list_update)
qed

lemma crun_ignore_err: "crun I m (\<lambda>_. True) \<Longrightarrow> crun I (ignore_err m) (\<lambda>_. True)"
proof (rule crunI)
  fix c br r c' br'
  assume m: "crun I m (\<lambda>_. True)" and ok: "reader_ok br" "I c" and run: "ignore_err m (c, br) = (r, (c', br'))"
  obtain q d b where q: "m (c, br) = (q, (d, b))" by (metis surj_pair)
  from crunD [OF m ok q] run q show "I c' \<and> reader_ok br' \<and> (case r of Inl e \<Rightarrow> soft e | Inr x \<Rightarrow> True)"
    by (auto simp: ignore_err_def split: sum.splits if_splits)
qed

lemma crun_runS_Cons:
  "crun I m (\<lambda>_. True) \<Longrightarrow> crun I (runS ms) (\<lambda>_. True) \<Longrightarrow> crun I (runS (m # ms)) (\<lambda>_. True)"
  unfolding runS.simps by (rule crun_bind)

lemma crun_runS_Nil: "crun I (runS []) (\<lambda>_. True)"
  unfolding runS.simps by (rule crun_return) simp

lemma crun_from_ok:
  assumes "\<And>c. I c \<Longrightarrow> \<exists>c'. f c = Inr c' \<and> I c'"
  shows "crun I (c_try f) (\<lambda>_. True)"
  by (rule crun_try) (use assms in fastforce)

lemma crun_start:
  assumes "\<And>c. I c \<Longrightarrow> crun I (f c) Q"
  shows "crun I (\<lambda>st. f (fst st) st) Q"
  by (rule crunI) (use assms in \<open>auto dest: crunD\<close>)

text \<open>When every channel of a decoder derives its high-frequency scales from inside the array.\<close>

definition all_scales_fit :: "'f ClHCA \<Rightarrow> bool" where
  "all_scales_fit h \<longleftrightarrow>
     (\<forall>c\<in>set (take (unat (h_channels h)) (h_channel h)).
        scales_fit (h_hfrGroupCount h) (h_version h) (ch_channelType c) (ch_codedCount c))"

lemma crun_unpack_channel:
  assumes "ready h0" and "all_scales_fit h0" and "ch < unat (h_channels h0)"
  shows "crun (retyped h0) (unpack_channel F level ch) (\<lambda>_. True)"
proof -
  let ?t = "ch_channelType (h_channel h0 ! ch)" and ?n = "ch_codedCount (h_channel h0 ! ch)"
  have ok: "length (h_athCurve h0) = 128" "h_minResolution h0 \<le> 15" "h_maxResolution h0 \<le> 15"
      "unat (h_channels h0) \<le> 16" "length (h_channel h0) = 16"
    using assms(1) by (auto simp: ready_def decoder_ok_def shape_def frame_ok_def channels_ok_def)
  have ch: "ch < 16" using assms(3) ok(4) by simp
  have "h_channel h0 ! ch \<in> set (take (unat (h_channels h0)) (h_channel h0))"
    using assms(3) ch ok(5) by (auto simp: in_set_conv_nth intro!: exI [of _ ch])
  with assms(2) have fit: "scales_fit (h_hfrGroupCount h0) (h_version h0) ?t ?n"
    by (simp add: all_scales_fit_def)
  then have n: "unat ?n \<le> 128" by (simp add: scales_fit_def)
  have "crun (retyped h0) (runS
      [on_channel ch (unpackScaleFactors (h_hfrGroupCount h) (h_version h)),
       ignore_err (on_channel ch (unpackIntensity (h_hfrGroupCount h) (h_version h))),
       on_channel ch (c_try (calculateResolution level (h_athCurve h) (h_minResolution h) (h_maxResolution h))),
       on_channel ch (c_try (calculateGain F))]) (\<lambda>_. True)" if "retyped h0 h" for h
    unfolding retyped_fields [OF that]
    by (intro crun_runS_Cons crun_runS_Nil crun_ignore_err crun_on_channel [OF ch] crun_unpackScaleFactors
        crun_unpackIntensity crun_from_ok calculateResolution_ok calculateGain_ok)
      (simp_all add: fit ok n)
  then show ?thesis unfolding unpack_channel_def Let_def by (rule crun_start)
qed

lemma crun_dequantize_all:
  assumes "ready h0" and "all_scales_fit h0" and "n = unat (h_channels h0)"
  shows "crun (retyped h0) (dequantize_all F n) (\<lambda>_. True)"
proof -
  have ok: "unat (h_channels h0) \<le> 16" "length (h_channel h0) = 16"
    using assms(1) by (auto simp: ready_def decoder_ok_def shape_def channels_ok_def)
  have "unat (ch_codedCount (h_channel h0 ! ch)) \<le> 128" if "ch < n" for ch
  proof -
    have "h_channel h0 ! ch \<in> set (take (unat (h_channels h0)) (h_channel h0))"
      using that ok assms(3) by (auto simp: in_set_conv_nth intro!: exI [of _ ch])
    with assms(2) show ?thesis by (simp add: all_scales_fit_def scales_fit_def)
  qed
  then show ?thesis
    unfolding dequantize_all_def using ok assms(3)
    by (intro crun_forS crun_on_channel crun_dequantize) simp_all
qed

lemma crun_run:
  assumes "crun (retyped h) m (\<lambda>_. True)" and "reader_ok br" and "retyped h h1" and "m (h1, br) = (r, (h', br'))"
  shows "retyped h h' \<and> reader_ok br' \<and> (case r of Inl e \<Rightarrow> soft e | Inr _ \<Rightarrow> True)"
  using crunD [OF assms] by simp

lemma read_ok:
  assumes "reader_ok br" and "0 \<le> n" and "n \<le> 64"
  shows "case bitreaderRead br n of Inl e \<Rightarrow> e = Panic ''negative shift amount''
    | Inr (v, br') \<Rightarrow> reader_ok br' \<and> cl_data br' = cl_data br"
  using assms(1,2) peek_result [OF assms] bitreaderPeek_panics [of br n]
  by (cases "bitreaderPeek br n") (auto simp: bitreaderRead_def soft_def reader_ok_def)

lemma sint_small: "uint (w :: u64) < 2 ^ 63 \<Longrightarrow> sint w = uint w"
proof -
  assume "uint w < 2 ^ 63"
  moreover have "- (2 ^ 63) \<le> uint w" by (rule order_trans [OF _ uint_ge_0]) simp
  ultimately show ?thesis by (simp add: sint_uint signed_take_bit_int_eq_self)
qed

text \<open>What a frame may do: the result, the decoder and the data after it.\<close>

definition frame_result :: "'f ClHCA \<Rightarrow> bytes \<Rightarrow> (go_err + int) \<times> 'f ClHCA \<times> bytes \<Rightarrow> bool" where
  "frame_result h data out =
     (case out of (r, h', data') \<Rightarrow>
        retyped h h' \<and> length data' = length data \<and>
        (case r of
           Inl e \<Rightarrow> e = Panic ''negative shift amount''
         | Inr n \<Rightarrow> (n \<in> {- 1, - 3, - 4} \<and> h' = h \<and> data' = data) \<or>
             (n = - 5 \<or> 0 \<le> n) \<and>
             data' = cipherDecrypt (h_cipherTable h) data (unat (h_frameSize h)) \<and>
             crc (take (unat (h_frameSize h)) data) = 0))"

lemma unpack_body_result:
  assumes h: "ready h" "all_scales_fit h" and br: "reader_ok br"
  shows "case unpack_body F data h level br of (r, h', data') \<Rightarrow>
    retyped h h' \<and> data' = data \<and>
    (case r of Inl e \<Rightarrow> e = Panic ''negative shift amount'' | Inr n \<Rightarrow> n = - 5 \<or> 0 \<le> n)"
proof -
  have "shape h" using h(1) by (simp add: ready_def decoder_ok_def shape_def)
  note refl = retyped_refl [OF this]
  show ?thesis
  proof (cases "bitreaderRead br 7")
    case (Inl e)
    with read_ok [OF br, of 7] refl show ?thesis by (simp add: unpack_body_def)
  next
    case (Inr v)
    obtain boundary br2 where v: "v = (boundary, br2)" by (cases v)
    with read_ok [OF br, of 7] Inr have br2: "reader_ok br2" by simp
    let ?n = "unat (h_channels h)" and ?level = "push_bit 8 level - boundary"
    have c1: "crun (retyped h) (forS ?n 0 (unpack_channel F ?level)) (\<lambda>_. True)"
      by (rule crun_forS, rule crun_unpack_channel [OF h]) simp
    obtain r h1 br3 where run1: "forS ?n 0 (unpack_channel F ?level) (h, br2) = (r, (h1, br3))" by (metis surj_pair)
    from crun_run [OF c1 br2 refl run1]
    have 1: "retyped h h1" "reader_ok br3" "\<And>e. r = Inl e \<Longrightarrow> soft e" by auto
    show ?thesis
    proof (cases r)
      case (Inl e)
      with Inr v run1 1 show ?thesis by (auto simp: unpack_body_def soft_def)
    next
      case r: (Inr u)
      obtain q h2 br4 where run2: "dequantize_all F ?n (h1, br3) = (q, (h2, br4))" by (metis surj_pair)
      from crun_run [OF crun_dequantize_all [OF h HOL.refl] 1(2,1) run2]
      have 2: "retyped h h2" "reader_ok br4" "\<And>e. q = Inl e \<Longrightarrow> soft e" by auto
      have "\<And>e. q = Inl e \<Longrightarrow> is_panic e"
        using no_failure_dequantize_all run2 unfolding no_failure_def by blast
      with Inr v run1 r run2 2 show ?thesis
        by (cases q) (auto simp: unpack_body_def soft_def reader_ok_def)
    qed
  qed
qed

lemma unpacked_frame:
  assumes h: "ready h" "all_scales_fit h"
  shows "frame_result h data (decodeBlockUnpack F data h)"
proof (cases "\<not> h_isValid h \<or> int (length data) < sint (h_frameSize h)")
  case True
  then show ?thesis
    using retyped_refl [of h] h(1)
    by (auto simp: decodeBlockUnpack_def frame_result_def ready_def decoder_ok_def shape_def)
next
  case False
  have shape: "shape h" using h(1) by (simp add: ready_def decoder_ok_def shape_def)
  note refl = retyped_refl [OF this]
  have "uint (h_frameSize h) \<le> 0xFFFF"
    using h(1) by (simp add: ready_def decoder_ok_def frame_ok_def word_le_def)
  then have sint: "sint (h_frameSize h) = int (unat (h_frameSize h))"
    by (subst sint_small) simp_all
  define n where "n = unat (h_frameSize h)"
  have len: "n \<le> length data" using False sint unfolding n_def [symmetric] by linarith
  define d where "d = cipherDecrypt (h_cipherTable h) data n"
  have ld: "length d = length data" using len by (simp add: d_def cipherDecrypt_def)
  have br0: "reader_ok (bitreaderInit data (int n))" using len by (intro reader_ok_init) simp_all
  have valid: "h_isValid h" "\<not> int (length data) < int n" using False sint by (simp_all add: n_def)
  show ?thesis
  proof (cases "bitreaderRead (bitreaderInit data (int n)) 16")
    case (Inl e)
    with read_ok [OF br0, of 16] refl valid show ?thesis
      by (simp add: decodeBlockUnpack_def frame_result_def sint n_def [symmetric])
  next
    case (Inr v1)
    obtain sync br1 where v1: "v1 = (sync, br1)" by (cases v1)
    with read_ok [OF br0, of 16] Inr have br1: "reader_ok br1" "cl_data br1 = data" by (simp_all add: bitreaderInit_def)
    show ?thesis
    proof (cases "sync \<noteq> 0xFFFF \<or> crc (take n data) \<noteq> 0")
      case True
      with Inr v1 refl valid len show ?thesis
        by (auto simp: decodeBlockUnpack_def frame_result_def sint n_def [symmetric] crc16Checksum_crc)
    next
      case ok: False
      let ?br = "br1\<lparr>cl_data := d\<rparr>"
      have "reader_ok ?br" using br1 ld by (simp add: reader_ok_def)
      note br2 = read_ok [OF this, of 9]
      have head: "decodeBlockUnpack F data h =
        (case bitreaderRead ?br 9 of Inl e \<Rightarrow> (Inl e, h, d)
         | Inr (level, br) \<Rightarrow> unpack_body F d h level br)"
        using Inr v1 valid len ok
        by (cases "bitreaderRead ?br 9")
          (simp_all add: decodeBlockUnpack_def sint n_def [symmetric] crc16Checksum_crc d_def
            Let_def split_beta)
      show ?thesis
      proof (cases "bitreaderRead ?br 9")
        case (Inl e)
        with br2 refl ld head show ?thesis by (simp add: frame_result_def)
      next
        case (Inr v2)
        obtain level br2 where v2: "v2 = (level, br2)" by (cases v2)
        with Inr br2 have "reader_ok br2" by simp
        from unpack_body_result [OF h this, where F = F and data = d and level = level] head Inr v2 ok ld
        show ?thesis
          by (cases "unpack_body F d h level br2") (simp add: frame_result_def d_def n_def split: sum.splits)
      qed
    qed
  qed
qed

section \<open>Properties\<close>


definition nat_ops :: "nat float_ops" where
  "nat_ops = \<lparr>f_mul = (*), f_add = (+), f_sub = (-), f_less = (<), f_of_int = nat, f_of_bits = unat, f_to_int32 = int\<rparr>"

lemma sample_ready: "ready sample_decoder" "h_isValid sample_decoder"
  using DecodeHeader_cases [OF shape_NewClHCA sample_run] by (auto intro: decoder_ready)

lemma sample_band_field: "h_bandsPerHfrGroup (snd (DecodeHeader sample_header (NewClHCA (0 :: nat)))) = 0"
  unfolding DecodeHeader_def decodeChunks_def bitreaderInit_rdr
  by (simp add: hca_step chunk_simps sample_fields [unfolded One_nat_def] Let_def NewClHCA_def
      at8_def [of sample_header 0, symmetric, simplified])
    (simp add: validate_simps Let_def)

lemma scales_fit_v2:
  assumes "decoder_ok h" and "h_version h \<le> 0x0200" and "unat (h_hfrGroupCount h) \<le> 128"
  shows "all_scales_fit h"
proof -
  have base: "unat (h_baseBandCount h) + unat (h_stereoBandCount h) \<le> 128"
    using assms(1) by (simp add: decoder_ok_def bands_ok_def)
  then have sum: "unat (h_baseBandCount h + h_stereoBandCount h) \<le> 128" "unat (h_baseBandCount h) \<le> 128"
    by (simp_all add: unat_word_ariths)
  have "unat (ch_codedCount c) \<le> 128" if "c \<in> set (take (unat (h_channels h)) (h_channel h))" for c
    using that assms(1) sum by (simp add: decoder_ok_def channels_ok_def)
  with assms(2,3) show ?thesis by (simp add: all_scales_fit_def scales_fit_def)
qed

lemma sample_scales_fit: "all_scales_fit sample_decoder"
proof (rule scales_fit_v2)
  note sample = DecodeHeader_cases [OF shape_NewClHCA sample_run]
  show "decoder_ok sample_decoder" "h_version sample_decoder \<le> 0x0200"
    using sample by (simp_all add: fixed_def fields_read_def sample_fields)
  then show "unat (h_hfrGroupCount sample_decoder) \<le> 128"
    using sample_band_field by (simp add: decoder_ok_def bands_ok_def headerCeil2_def sample_decoder_def)
qed


text \<open>
  The high-frequency scales of version 3 are derived off by one. Scale \<open>127 - i\<close> is a copy
  of \<open>scaleFactors[csCount - i]\<close>, where the last scale read is \<open>scaleFactors[csCount - 1]\<close>: the
  first copy is of a scale no read has set, and where \<open>csCount\<close> is 128, which the guard allows,
  the code panics.
\<close>

theorem derived_scales_are_off_by_one:
  assumes "length (ch_scaleFactors c) = 128" and "unat csCount \<le> 128" and "i < unat csCount"
  shows "derive_scale csCount i c =
    (if i = 0 \<and> csCount = 128 then Inl (Panic ''index out of range'')
     else Inr (c\<lparr>ch_scaleFactors := (ch_scaleFactors c)[127 - i := ch_scaleFactors c ! (unat csCount - i)]\<rparr>))"
proof -
  have i: "unat (of_nat i :: u64) = i" using assms(2,3) by (simp add: unat_of_nat)
  have "unat (csCount - of_nat i) = unat csCount - i"
    using assms(3) i by (simp add: unat_sub word_le_nat_alt)
  moreover have "unat (127 - of_nat i :: u64) = 127 - i"
    using assms(2,3) i by (subst unat_sub) (simp_all add: word_le_nat_alt)
  moreover have "csCount = 128 \<longleftrightarrow> unat csCount = 128" by (simp add: word_unat_eq_iff)
  ultimately show ?thesis
    using assms by (auto simp: derive_scale_def put_scaleFactor_def arr_get_def arr_put_def)
qed

lemma derived_scales_are_off_by_one_witness:
  "derive_scale 128 0 (zeroChannel (0 :: nat)) = Inl (Panic ''index out of range'')"
  by (subst derived_scales_are_off_by_one) (simp_all add: zeroChannel_def)

end
