(* ===== verification/HcaCodes.thy ===== *)
theory HcaCodes
  imports HcaFrame
begin

text \<open>
  The code of the coefficients in \<open>clhcadecoder.go\<close>: the codewords as an encoder writes them, independently of the
  decoder's tables, and that \<open>dequantizeCoefficients\<close> takes a row of codewords apart again.
\<close>

section \<open>The codewords\<close>

text \<open>
  The codeword of a value at a resolution, as a number and its length. Up to resolution 7 the values 0, 1, -1, 2, -2 and so on
  are numbered and coded in truncated binary: the first \<open>2 ^ n - (2 * r + 1)\<close> of them in \<open>n - 1\<close> bits, the others in \<open>n\<close>
  bits. Above it is the magnitude and a sign bit, and zero has no sign bit.
\<close>

definition max_code_bits :: "nat \<Rightarrow> nat" where
  "max_code_bits r = [0, 2, 3, 3, 4, 4, 4, 4, 5, 6, 7, 8, 9, 10, 11, 12] ! r"

definition code_of :: "nat \<Rightarrow> int \<Rightarrow> nat \<times> nat" where
  "code_of r v =
     (let n = max_code_bits r in
      if r > 7 then (if v = 0 then (0, n - 1) else (2 * nat \<bar>v\<bar> + of_bool (v < 0), n))
      else
        let x = (if v > 0 then 2 * nat v - 1 else 2 * nat (- v)); u = 2 ^ n - (2 * r + 1)
        in if x < u then (x, n - 1) else (x + u, n))"

definition codable :: "nat \<Rightarrow> int \<Rightarrow> bool" where
  "codable r v \<longleftrightarrow> r \<le> 15 \<and> (if r > 7 then \<bar>v\<bar> < 2 ^ (max_code_bits r - 1) else \<bar>v\<bar> \<le> int r)"

text \<open>The number that \<open>n\<close> bits of the data write from bit \<open>p\<close> on, and data that hold codewords one behind the other.\<close>

fun number_at :: "bytes \<Rightarrow> nat \<Rightarrow> nat \<Rightarrow> nat" where
  "number_at data p 0 = 0"
| "number_at data p (Suc n) = 2 * number_at data p n + of_bool (stream_bit data (p + n))"

fun holds_codes :: "bytes \<Rightarrow> nat \<Rightarrow> (nat \<times> nat) list \<Rightarrow> bool" where
  "holds_codes data p [] \<longleftrightarrow> True"
| "holds_codes data p ((num, len) # cs) \<longleftrightarrow> number_at data p len = num \<and> holds_codes data (p + len) cs"

definition codes_length :: "(nat \<times> nat) list \<Rightarrow> nat" where
  "codes_length cs = sum_list (map snd cs)"

lemma number_at_less: "number_at data p n < 2 ^ n"
  by (induction n) (auto simp: of_bool_def)

lemma number_at_prefix: "number_at data p (m + k) div 2 ^ k = number_at data p m"
proof (induction k)
  case (Suc k)
  have "number_at data p (m + Suc k) div 2 ^ Suc k = (number_at data p (m + Suc k) div 2) div 2 ^ k"
    by (simp add: div_mult2_eq)
  also have "number_at data p (m + Suc k) div 2 = number_at data p (m + k)" by simp
  finally show ?case using Suc by simp
qed simp

lemma bits_at_number: "n \<le> 64 \<Longrightarrow> bits_at data p n = of_nat (number_at data p n)"
proof (induction n)
  case (Suc n)
  have "push_bit 1 w OR of_bool b = 2 * w + of_bool b" for w :: u64 and b
    by (cases b) (simp_all add: push_bit_eq_mult or_one_eq mult.commute)
  then have "bits_at data p (Suc n) = 2 * bits_at data p n + of_bool (stream_bit data (p + n))"
    by (simp only: bits_at.simps)
  with Suc show ?case by simp
qed simp

lemma unat_bits_at: "n \<le> 63 \<Longrightarrow> unat (bits_at data p n) = number_at data p n"
proof -
  assume "n \<le> 63"
  then have "(2 :: nat) ^ n \<le> 2 ^ 63" by (intro power_increasing) auto
  with number_at_less [of data p n] have "number_at data p n < 2 ^ 64" by simp
  then show ?thesis using \<open>n \<le> 63\<close> by (simp add: bits_at_number unat_of_nat)
qed

section \<open>One coefficient\<close>

lemma max_code_bits_table: "r \<le> 15 \<Longrightarrow> max_code_bits r = unat (hcatbdecoderMaxBitTable ! r)"
proof -
  assume "r \<le> 15"
  then have r: "r \<in> set [0..<16]" by auto
  have "\<forall>r\<in>set [0..<16]. max_code_bits r = unat (hcatbdecoderMaxBitTable ! r)" by code_simp
  with r show ?thesis by blast
qed

lemma max_code_bits_le: "r \<le> 15 \<Longrightarrow> max_code_bits r \<le> 12"
  "r \<le> 15 \<Longrightarrow> 7 < r \<Longrightarrow> 5 \<le> max_code_bits r"
proof -
  have "\<forall>r\<in>set [0..<16]. max_code_bits r \<le> 12 \<and> (7 < r \<longrightarrow> 5 \<le> max_code_bits r)" by code_simp
  then show "r \<le> 15 \<Longrightarrow> max_code_bits r \<le> 12" "r \<le> 15 \<Longrightarrow> 7 < r \<Longrightarrow> 5 \<le> max_code_bits r" by auto
qed

text \<open>
  The number of a value, and the value of a number. The tables decode the truncated binary code, whatever follows a codeword that
  is short.
\<close>

definition value_number :: "int \<Rightarrow> nat" where
  "value_number v = (if v > 0 then 2 * nat v - 1 else 2 * nat (- v))"

definition number_value :: "nat \<Rightarrow> int" where
  "number_value x = (if odd x then int ((x + 1) div 2) else - int (x div 2))"

lemma number_value_number [simp]: "number_value (value_number v) = v"
proof (cases "v > 0")
  case True
  then obtain k where k: "nat v = Suc k" by (cases "nat v") auto
  then have "v = int k + 1" by simp
  with k True show ?thesis by (simp add: value_number_def number_value_def)
qed (simp add: value_number_def number_value_def)

lemma value_number_le: "\<bar>v\<bar> \<le> int r \<Longrightarrow> value_number v \<le> 2 * r"
  by (auto simp: value_number_def)

definition code_decodes :: "nat \<Rightarrow> nat \<Rightarrow> bool" where
  "code_decodes r c \<longleftrightarrow>
     (let n = max_code_bits r; u = 2 ^ n - (2 * r + 1) in
      hcatbdecoderReadValTable ! (16 * r + c) = number_value (if c < 2 * u then c div 2 else c - u) \<and>
      unat (hcatbdecoderReadBitTable ! (16 * r + c)) = (if c < 2 * u then n - 1 else n))"

lemma codebook_rows:
  "list_all (code_decodes 0) [0]" "list_all (code_decodes 1) [0, 1, 2, 3]"
  "list_all (code_decodes 2) [0, 1, 2, 3, 4, 5, 6, 7]" "list_all (code_decodes 3) [0, 1, 2, 3, 4, 5, 6, 7]"
  "list_all (code_decodes 4) [0, 1, 2, 3, 4, 5, 6, 7, 8, 9, 10, 11, 12, 13, 14, 15]"
  "list_all (code_decodes 5) [0, 1, 2, 3, 4, 5, 6, 7, 8, 9, 10, 11, 12, 13, 14, 15]"
  "list_all (code_decodes 6) [0, 1, 2, 3, 4, 5, 6, 7, 8, 9, 10, 11, 12, 13, 14, 15]"
  "list_all (code_decodes 7) [0, 1, 2, 3, 4, 5, 6, 7, 8, 9, 10, 11, 12, 13, 14, 15]"
  by (simp_all add: code_decodes_def max_code_bits_def number_value_def hcatbdecoderReadBitTable_def
      hcatbdecoderReadValTable_def)

lemma code_ranges:
  "[0..<2 ^ max_code_bits 0] = [0]"
  "[0..<2 ^ max_code_bits 1] = [0, 1, 2, 3]"
  "[0..<2 ^ max_code_bits 2] = [0, 1, 2, 3, 4, 5, 6, 7]"
  "[0..<2 ^ max_code_bits 3] = [0, 1, 2, 3, 4, 5, 6, 7]"
  "[0..<2 ^ max_code_bits 4] = [0, 1, 2, 3, 4, 5, 6, 7, 8, 9, 10, 11, 12, 13, 14, 15]"
  "[0..<2 ^ max_code_bits 5] = [0, 1, 2, 3, 4, 5, 6, 7, 8, 9, 10, 11, 12, 13, 14, 15]"
  "[0..<2 ^ max_code_bits 6] = [0, 1, 2, 3, 4, 5, 6, 7, 8, 9, 10, 11, 12, 13, 14, 15]"
  "[0..<2 ^ max_code_bits 7] = [0, 1, 2, 3, 4, 5, 6, 7, 8, 9, 10, 11, 12, 13, 14, 15]"
  by code_simp+

lemma codebook_row:
  assumes "r \<le> 7" and "c < 2 ^ max_code_bits r" shows "code_decodes r c"
proof -
  consider "r = 0" | "r = 1" | "r = 2" | "r = 3" | "r = 4" | "r = 5" | "r = 6" | "r = 7" using assms(1) by linarith
  then have "list_all (code_decodes r) [0..<2 ^ max_code_bits r]"
    by cases (simp_all only: code_ranges codebook_rows)
  with assms(2) show ?thesis by (simp add: list_all_iff)
qed

lemma codebook_decodes:
  assumes "r \<le> 7" and "\<bar>v\<bar> \<le> int r" and "c < 2 ^ max_code_bits r"
    and "c div 2 ^ (max_code_bits r - snd (code_of r v)) = fst (code_of r v)"
  shows "hcatbdecoderReadValTable ! (16 * r + c) = v \<and> unat (hcatbdecoderReadBitTable ! (16 * r + c)) = snd (code_of r v)"
proof -
  let ?n = "max_code_bits r"
  let ?u = "2 ^ ?n - (2 * r + 1)" and ?x = "value_number v"
  have code: "code_of r v = (if ?x < ?u then (?x, ?n - 1) else (?x + ?u, ?n))"
    using assms(1) by (simp add: code_of_def value_number_def Let_def)
  have n: "?x < ?u \<Longrightarrow> 0 < ?n" by (cases ?n) auto
  have "(if c < 2 * ?u then c div 2 else c - ?u) = ?x \<and> (if c < 2 * ?u then ?n - 1 else ?n) = snd (code_of r v)"
  proof (cases "?x < ?u")
    case True
    with assms(4) code n have "c div 2 = ?x" by simp
    with True have "c < 2 * ?u" by linarith
    with True \<open>c div 2 = ?x\<close> code show ?thesis by simp
  next
    case False
    with assms(4) code have "c = ?x + ?u" by simp
    with False code show ?thesis by simp
  qed
  then show ?thesis using codebook_row [OF assms(1,3)] unfolding code_decodes_def Let_def by simp
qed

lemma signed_code_value:
  assumes "m < 2 ^ 12"
  shows "signed_code (of_nat (2 * m + of_bool neg)) = (if neg then - int m else int m)"
proof -
  define w :: u64 where "w = of_nat (2 * m + of_bool neg)"
  have "2 * m + of_bool neg < 2 ^ 64" using assms by (simp add: of_bool_def)
  then have u: "unat w = 2 * m + of_bool neg" unfolding w_def by (simp only: unat_of_nat) (simp add: take_bit_nat_eq_self)
  have a: "w AND 1 = of_bool neg"
  proof -
    have "unat (w AND 1) = unat w AND 1" by (simp add: unsigned_and_eq)
    also have "\<dots> = of_bool neg" unfolding and_one_eq u by (cases neg) simp_all
    finally have "w AND 1 = of_nat (of_bool neg)" by (metis of_nat_unat ucast_id)
    then show ?thesis by simp
  qed
  have "unat (drop_bit 1 w) = drop_bit 1 (unat w)" by (rule unat_drop_bit_eq)
  also have "\<dots> = m" unfolding u by (cases neg) (simp_all add: drop_bit_eq_div)
  finally have "unat (drop_bit 1 w) = m" .
  then have d: "drop_bit 1 w = of_nat m" by (metis of_nat_unat ucast_id)
  have "sint (word_of_int k :: u64) = k" if "\<bar>k\<bar> < 2 ^ 12" for k
    using that by (simp add: signed_of_int signed_take_bit_int_eq_self)
  from this [of "int m"] this [of "- int m"] assms
  have s: "sint (of_nat m :: u64) = int m" "sint (- of_nat m :: u64) = - int m" by simp_all
  show ?thesis unfolding w_def [symmetric] signed_code_def a d using s by (cases neg) simp_all
qed

text \<open>A coefficient whose codeword is next is read, and the reader stops behind it.\<close>

lemma peek_number:
  assumes "reader_ok br" and "n \<le> 12" and "cl_bit br + 24 \<le> cl_size br"
  shows "bitreaderPeek br (int n) = Inr (of_nat (number_at (cl_data br) (nat (cl_bit br)) n))"
proof -
  have "bit_window br (int n) \<le> 24"
  proof -
    have "(int n + cl_bit br mod 8 + 7) div 8 \<le> 26 div 8" using assms(2) by (intro zdiv_mono1) auto
    then show ?thesis by (simp add: bit_window_def)
  qed
  then show ?thesis
    using assms by (auto simp: bitreaderPeek_eq bits_at_number)
qed

lemma code_of_length: "codable r v \<Longrightarrow> snd (code_of r v) \<le> max_code_bits r"
  by (auto simp: code_of_def Let_def)

lemma coefficient_decodes:
  assumes v: "codable (unat r) v" and n: "n = max_code_bits (unat r)"
    and code: "number_at data p (snd (code_of (unat r) v)) = fst (code_of (unat r) v)"
  shows "coefficient r (of_nat (number_at data p n)) = (v, int (snd (code_of (unat r) v)))"
proof -
  let ?c = "number_at data p n" and ?len = "snd (code_of (unat r) v)"
  have r: "unat r \<le> 15" using v by (simp add: codable_def)
  have len: "?len \<le> n" using code_of_length [OF v] n by simp
  have n12: "n \<le> 12" using max_code_bits_le(1) [OF r] n by simp
  then have "(2 :: nat) ^ n \<le> 2 ^ 12" by (intro power_increasing) auto
  then have c: "?c < 2 ^ 12" "?c < 2 ^ n" using number_at_less [of data p n] by simp_all
  then have u: "unat (of_nat ?c :: u64) = ?c" by (simp add: unat_of_nat take_bit_nat_eq_self)
  have div: "?c div 2 ^ (n - ?len) = fst (code_of (unat r) v)"
    using number_at_prefix [of data p ?len "n - ?len"] len code by simp
  show ?thesis
  proof (cases "r > 7")
    case False
    then have r7: "unat r \<le> 7" by (simp add: word_less_nat_alt not_less)
    with v have "\<bar>v\<bar> \<le> int (unat r)" by (simp add: codable_def)
    note d = codebook_decodes [OF r7 this c(2) [unfolded n] div [unfolded n]]
    have "uint (hcatbdecoderReadBitTable ! (16 * unat r + ?c)) = int (unat (hcatbdecoderReadBitTable ! (16 * unat r + ?c)))"
      by (rule uint_nat)
    with d n False show ?thesis by (simp add: coefficient_def u [unfolded n])
  next
    case True
    then have r7: "unat r > 7" by (simp add: word_less_nat_alt)
    have bits: "uint (hcatbdecoderMaxBitTable ! unat r) = int n"
      using max_code_bits_table [OF r] n by (metis uint_nat)
    have n5: "5 \<le> n" using max_code_bits_le(2) [OF r r7] n by simp
    show ?thesis
    proof (cases "v = 0")
      case True
      with r7 div n n5 have "?c div 2 = 0" by (simp add: code_of_def Let_def)
      then have "?c = 2 * 0 + of_bool (?c = 1)" by (cases "?c = 1") auto
      then have "signed_code (of_nat ?c) = 0" using signed_code_value [of 0 "?c = 1"] by simp
      then show ?thesis using True \<open>r > 7\<close> r7 bits n n5 by (simp add: coefficient_def code_of_def Let_def)
    next
      case False
      with r7 code n have cv: "?c = 2 * nat \<bar>v\<bar> + of_bool (v < 0)" by (simp add: code_of_def Let_def)
      have "nat \<bar>v\<bar> < 2 ^ 12" using cv c(1) by linarith
      then have "signed_code (of_nat ?c) = v" unfolding cv by (subst signed_code_value) auto
      then show ?thesis using False \<open>r > 7\<close> r7 bits n by (simp add: coefficient_def code_of_def Let_def)
    qed
  qed
qed

lemma read_coded:
  assumes "reader_ok br" and "codable (unat r) v" and "cl_bit br + 24 \<le> cl_size br"
    and "number_at (cl_data br) (nat (cl_bit br)) (snd (code_of (unat r) v)) = fst (code_of (unat r) v)"
  shows "read_coefficient r (c, br) = (Inr v, (c, bitreaderSkip br (int (snd (code_of (unat r) v)))))"
proof -
  have r: "unat r \<le> 15" "r \<le> 15" using assms(2) by (simp_all add: codable_def word_le_nat_alt)
  have "uint (hcatbdecoderMaxBitTable ! unat r) = int (max_code_bits (unat r))"
    using max_code_bits_table [OF r(1)] by (metis uint_nat)
  then show ?thesis
    using peek_number [OF assms(1) max_code_bits_le(1) [OF r(1)] assms(3)]
      coefficient_decodes [OF assms(2) refl assms(4)] by (simp add: read_coefficient_eq [OF assms(1) r(2)])
qed

section \<open>A row of coefficients\<close>

text \<open>The codewords of a row of values, at the resolutions of their bands, and what they are worth.\<close>

definition row_codes :: "u8 list \<Rightarrow> int list \<Rightarrow> (nat \<times> nat) list" where
  "row_codes rs vs = map2 (\<lambda>r v. code_of (unat r) v) rs vs"

definition scaled :: "'f float_ops \<Rightarrow> 'f list \<Rightarrow> int list \<Rightarrow> 'f list" where
  "scaled F gs vs = map2 (\<lambda>g v. f_mul F g (f_of_int F v)) gs vs"

definition set_row :: "nat \<Rightarrow> 'f list \<Rightarrow> 'f stChannel \<Rightarrow> 'f stChannel" where
  "set_row subframe row c = c\<lparr>ch_spectra := (ch_spectra c)[subframe := row]\<rparr>"

lemma set_row_simps [simp]:
  "ch_resolution (set_row s row c) = ch_resolution c" "ch_gain (set_row s row c) = ch_gain c"
  "ch_codedCount (set_row s row c) = ch_codedCount c" "length (ch_spectra (set_row s row c)) = length (ch_spectra c)"
  "set_row s row' (set_row s row c) = set_row s row' c"
  by (simp_all add: set_row_def)

lemma set_row_get [simp]: "s < length (ch_spectra c) \<Longrightarrow> ch_spectra (set_row s row c) ! s = row"
  by (simp add: set_row_def)

lemma put_spectrum_row:
  assumes "s < length (ch_spectra c)" and "i < length (ch_spectra c ! s)"
  shows "put_spectrum s i x c = Inr (set_row s ((ch_spectra c ! s)[i := x]) c)"
  using assms by (simp add: put_spectrum_def arr_get_def arr_put_def set_row_def)

lemma dequantize_coded:
  assumes "reader_ok br" and "cl_bit br + 24 \<le> cl_size br"
    and "i < length (ch_resolution c)" and "i < length (ch_gain c)"
    and "s < length (ch_spectra c)" and "i < length (ch_spectra c ! s)"
    and v: "codable (unat (ch_resolution c ! i)) v"
    and "number_at (cl_data br) (nat (cl_bit br)) (snd (code_of (unat (ch_resolution c ! i)) v))
      = fst (code_of (unat (ch_resolution c ! i)) v)"
  shows "dequantize_step F s i (c, br) =
    (Inr (), (set_row s ((ch_spectra c ! s)[i := f_mul F (ch_gain c ! i) (f_of_int F v)]) c,
      bitreaderSkip br (int (snd (code_of (unat (ch_resolution c ! i)) v)))))"
  using read_coded [OF assms(1) v assms(2,8), of c] assms(3-6)
  by (simp add: dequantize_step_def bindS_def c_get_def arr_get_def c_try_def put_spectrum_row)

text \<open>The loop over the coded bands, and the one that clears the others.\<close>

lemma fill_step:
  "i < length row \<Longrightarrow> take (Suc i) (row[i := x]) @ xs @ drop (Suc i + n) (row[i := x]) = take i row @ (x # xs) @ drop (i + Suc n) row"
  by (simp add: take_Suc_conv_app_nth)

lemma dequantize_loop:
  assumes "reader_ok br" and "length (ch_resolution c) = 128" and "length (ch_gain c) = 128"
    and "s < length (ch_spectra c)" and "length (ch_spectra c ! s) = 128" and "i + length vs \<le> 128"
    and "list_all2 (\<lambda>r v. codable (unat r) v) (take (length vs) (drop i (ch_resolution c))) vs"
    and "holds_codes (cl_data br) (nat (cl_bit br)) (row_codes (drop i (ch_resolution c)) vs)"
    and "cl_bit br + int (codes_length (row_codes (drop i (ch_resolution c)) vs)) + 24 \<le> cl_size br"
  shows "forS (length vs) i (dequantize_step F s) (c, br) =
    (Inr (), (set_row s (take i (ch_spectra c ! s) @ scaled F (drop i (ch_gain c)) vs @ drop (i + length vs) (ch_spectra c ! s)) c,
      bitreaderSkip br (int (codes_length (row_codes (drop i (ch_resolution c)) vs)))))"
  using assms
proof (induction vs arbitrary: i c br)
  case Nil
  then show ?case by (simp add: row_codes_def scaled_def codes_length_def bitreaderSkip_def set_row_def returnS_def)
next
  case (Cons v vs)
  let ?r = "ch_resolution c ! i" and ?row = "ch_spectra c ! s"
  let ?x = "f_mul F (ch_gain c ! i) (f_of_int F v)" and ?len = "snd (code_of (unat ?r) v)"
  let ?c = "set_row s (?row[i := ?x]) c" and ?br = "bitreaderSkip br (int ?len)"
  have i: "i < 128" using Cons.prems(6) by simp
  have res: "drop i (ch_resolution c) = ?r # drop (Suc i) (ch_resolution c)"
    and gain: "drop i (ch_gain c) = ch_gain c ! i # drop (Suc i) (ch_gain c)"
    using Cons.prems(2,3) i by (simp_all add: Cons_nth_drop_Suc)
  have codes: "row_codes (drop i (ch_resolution c)) (v # vs) = code_of (unat ?r) v # row_codes (drop (Suc i) (ch_resolution c)) vs"
    unfolding res by (simp add: row_codes_def)
  have len: "codes_length (row_codes (drop i (ch_resolution c)) (v # vs)) =
      ?len + codes_length (row_codes (drop (Suc i) (ch_resolution c)) vs)"
    unfolding codes by (simp add: codes_length_def)
  have v: "codable (unat ?r) v" and vs: "list_all2 (\<lambda>r v. codable (unat r) v) (take (length vs) (drop (Suc i) (ch_resolution c))) vs"
    using Cons.prems(7) unfolding res by simp_all
  have now: "number_at (cl_data br) (nat (cl_bit br)) ?len = fst (code_of (unat ?r) v)"
    and rest: "holds_codes (cl_data br) (nat (cl_bit br) + ?len) (row_codes (drop (Suc i) (ch_resolution c)) vs)"
    using Cons.prems(8) unfolding codes by (cases "code_of (unat ?r) v"; simp)+
  have "cl_bit br + 24 \<le> cl_size br" using Cons.prems(9) by linarith
  then have step: "dequantize_step F s i (c, br) = (Inr (), (?c, ?br))"
    using dequantize_coded [OF Cons.prems(1) _ _ _ Cons.prems(4) _ v now] Cons.prems(2,3,5) i by simp
  have ok: "reader_ok ?br" "0 \<le> cl_bit br" using Cons.prems(1) by (simp_all add: reader_ok_def bitreaderSkip_def)
  have "forS (length vs) (Suc i) (dequantize_step F s) (?c, ?br) =
    (Inr (), (set_row s (take (Suc i) (ch_spectra ?c ! s) @ scaled F (drop (Suc i) (ch_gain ?c)) vs @
        drop (Suc i + length vs) (ch_spectra ?c ! s)) ?c,
      bitreaderSkip ?br (int (codes_length (row_codes (drop (Suc i) (ch_resolution ?c)) vs)))))"
    by (rule Cons.IH)
      (use Cons.prems ok vs rest len in \<open>simp_all add: bitreaderSkip_def nat_add_distrib\<close>)
  then show ?case
    using step Cons.prems(4,5) i fill_step [of i ?row ?x "scaled F (drop (Suc i) (ch_gain c)) vs" "length vs"]
    by (simp add: bindS_def len gain scaled_def bitreaderSkip_def add.assoc)
qed

lemma clear_loop:
  assumes "s < length (ch_spectra c)" and "length (ch_spectra c ! s) = 128" and "i + n \<le> 128"
  shows "forS n i (\<lambda>i. c_try (put_spectrum s i z)) (c, br) =
    (Inr (), (set_row s (take i (ch_spectra c ! s) @ replicate n z @ drop (i + n) (ch_spectra c ! s)) c, br))"
  using assms
proof (induction n arbitrary: i c)
  case 0
  then show ?case by (simp add: set_row_def returnS_def)
next
  case (Suc n)
  let ?row = "ch_spectra c ! s"
  let ?c = "set_row s (?row[i := z]) c"
  have "c_try (put_spectrum s i z) (c, br) = (Inr (), (?c, br))"
    using Suc.prems by (simp add: c_try_def put_spectrum_row)
  moreover have "forS n (Suc i) (\<lambda>i. c_try (put_spectrum s i z)) (?c, br) =
    (Inr (), (set_row s (take (Suc i) (ch_spectra ?c ! s) @ replicate n z @ drop (Suc i + n) (ch_spectra ?c ! s)) ?c, br))"
    by (rule Suc.IH) (use Suc.prems in simp_all)
  ultimately show ?case
    using fill_step [of i ?row z "replicate n z" n] Suc.prems by (simp add: bindS_def)
qed

section \<open>Property\<close>

text \<open>
  C13: reading undoes the coding of coefficients. When the data hold the codewords of values, one behind the other, each at the
  resolution of its band (truncated binary up to resolution 7, magnitude and sign above), then
  \<open>dequantizeCoefficients\<close> writes exactly these values, scaled by the gains of their bands, clears the bands that are not
  coded, and stops at the bit behind the last codeword. At least 24 bits follow it, as the checksum and the next row do.
\<close>

theorem coefficients_round_trip:
  assumes "reader_ok br" and "channel_shape c" and "subframe < 8"
    and "length vs = unat (ch_codedCount c)" and "length vs \<le> 128"
    and "list_all2 (\<lambda>r v. codable (unat r) v) (take (length vs) (ch_resolution c)) vs"
    and "holds_codes (cl_data br) (nat (cl_bit br)) (row_codes (ch_resolution c) vs)"
    and "cl_bit br + int (codes_length (row_codes (ch_resolution c) vs)) + 24 \<le> cl_size br"
  shows "dequantizeCoefficients F subframe (c, br) =
    (Inr (), (c\<lparr>ch_spectra := (ch_spectra c)[subframe :=
        scaled F (ch_gain c) vs @ replicate (128 - length vs) (f_of_bits F 0)]\<rparr>,
      bitreaderSkip br (int (codes_length (row_codes (ch_resolution c) vs)))))"
proof -
  have c: "length (ch_resolution c) = 128" "length (ch_gain c) = 128" "length (ch_spectra c) = 8"
    "length (ch_spectra c ! subframe) = 128"
    using assms(2,3) by (simp_all add: channel_shape_def)
  let ?row = "scaled F (ch_gain c) vs @ drop (length vs) (ch_spectra c ! subframe)"
  have s: "subframe < length (ch_spectra c)" using c(3) assms(3) by simp
  have "forS (length vs) 0 (dequantize_step F subframe) (c, br) =
      (Inr (), (set_row subframe ?row c, bitreaderSkip br (int (codes_length (row_codes (ch_resolution c) vs)))))"
    using dequantize_loop [of br c subframe 0 vs F] assms c s by simp
  moreover have "length (scaled F (ch_gain c) vs) = length vs" using c(2) assms(5) by (simp add: scaled_def)
  ultimately show ?thesis
    using clear_loop [of subframe "set_row subframe ?row c" "length vs" "128 - length vs"] s c(4) assms(4,5)
    by (simp add: dequantizeCoefficients_def c_get_def bindS_def Let_def) (simp add: set_row_def)
qed

text \<open>Three bands of the resolutions 1, 4 and 9, and the values -1, 4 and 0.\<close>

theorem coefficients_round_trip_witness:
  "fst (dequantizeCoefficients nat_ops 2
     ((zeroChannel 0)\<lparr>ch_codedCount := 3, ch_resolution := [1, 4, 9] @ replicate 125 0, ch_gain := replicate 128 5\<rparr>,
      bitreaderInit [0xF8, 0x1F, 0xFF, 0xFF, 0xFF, 0xFF] 6)) = Inr () \<and>
   take 4 (ch_spectra (fst (snd (dequantizeCoefficients nat_ops 2
     ((zeroChannel 0)\<lparr>ch_codedCount := 3, ch_resolution := [1, 4, 9] @ replicate 125 0, ch_gain := replicate 128 5\<rparr>,
      bitreaderInit [0xF8, 0x1F, 0xFF, 0xFF, 0xFF, 0xFF] 6)))) ! 2) = [0, 20, 0, 0]"
proof -
  let ?c = "(zeroChannel 0)\<lparr>ch_codedCount := 3, ch_resolution := [1, 4, 9] @ replicate 125 0, ch_gain := replicate 128 5\<rparr> :: nat stChannel"
  let ?br = "bitreaderInit [0xF8, 0x1F, 0xFF, 0xFF, 0xFF, 0xFF] 6"
  let ?vs = "[- 1, 4, 0] :: int list"
  have codes: "row_codes (ch_resolution ?c) ?vs = [(3, 2), (14, 4), (0, 5)]"
    by (simp add: row_codes_def code_of_def max_code_bits_def)
  have bits: "holds_codes (cl_data ?br) (nat (cl_bit ?br)) (row_codes (ch_resolution ?c) ?vs)"
    unfolding codes by code_simp
  have size: "cl_bit ?br + int (codes_length (row_codes (ch_resolution ?c) ?vs)) + 24 \<le> cl_size ?br"
    unfolding codes by (simp add: codes_length_def bitreaderInit_def)
  have ok: "reader_ok ?br" "channel_shape ?c" "codable 1 (- 1)" "codable 4 4" "codable 9 0"
    by (simp_all add: reader_ok_def bitreaderInit_def channel_shape_def zeroChannel_def codable_def max_code_bits_def)
  have lens: "(2 :: nat) < 8" "length ?vs = unat (ch_codedCount ?c)" "length ?vs \<le> 128" by simp_all
  have able: "list_all2 (\<lambda>r v. codable (unat r) v) (take (length ?vs) (ch_resolution ?c)) ?vs" using ok by simp
  note run = coefficients_round_trip [OF ok(1,2) lens able bits size, of nat_ops]
  have scaled: "map2 (\<lambda>x y. x * nat y) (replicate 128 5) ?vs = [0, 20, 0]" by code_simp
  show ?thesis unfolding run by (simp add: scaled_def nat_ops_def zeroChannel_def scaled)
qed

end
