(* ===== verification/HcaRestore.thy ===== *)
theory HcaRestore
  imports HcaFrame
begin

text \<open>
  Restoring the bands a frame leaves out: noise, high frequencies and joint stereo, of
  \<open>internal/cricodecs/hca/clhcadecoder.go\<close>.

  These routines read nothing, so they are functions of a channel (or of the list of channels)
  that return its new value or a panic. What they compute is stated with closed forms: which band
  is a copy of which, and scaled by what.
\<close>

unbundle bit_operations_syntax

section \<open>Noise\<close>

definition scale_conversion :: "'f float_ops \<Rightarrow> int \<Rightarrow> go_err + 'f" where
  "scale_conversion F scIndex =
     bindR (arr_get hcadecoderScaleConversionTableHex (nat scIndex)) (\<lambda>bits. Inr (f_of_bits F bits))"

definition next_random :: "u64 \<Rightarrow> u64" where
  "next_random r = 0x343FD * r + 0x269EC3"

definition random_index :: "u64 \<Rightarrow> u64 \<Rightarrow> u64" where
  "random_index validCount r = 128 - validCount + drop_bit 15 ((r AND 0x7FFF) * validCount)"

definition noise_step ::
  "'f float_ops \<Rightarrow> nat \<Rightarrow> nat \<Rightarrow> u64 \<times> 'f stChannel \<Rightarrow> go_err + u64 \<times> 'f stChannel" where
  "noise_step F subframe i = (\<lambda>(r, c).
     let r = next_random r; randomIndex = random_index (ch_validCount c) r in
     bindR (arr_get (ch_noises c) i) (\<lambda>noiseIndex.
     bindR (arr_get (ch_noises c) (unat randomIndex)) (\<lambda>validIndex.
     bindR (arr_get (ch_scaleFactors c) (unat noiseIndex)) (\<lambda>sfNoise.
     bindR (arr_get (ch_scaleFactors c) (unat validIndex)) (\<lambda>sfValid.
     let scIndex = uint sfNoise - uint sfValid + 62 in
     bindR (scale_conversion F (if scIndex < 0 then 0 else scIndex)) (\<lambda>scale.
     bindR (get_spectrum subframe (unat validIndex) c) (\<lambda>v.
     bindR (put_spectrum subframe (unat noiseIndex) (f_mul F scale v) c) (\<lambda>c.
       Inr (r, c)))))))))"

definition reconstructNoise ::
  "'f float_ops \<Rightarrow> u64 \<Rightarrow> u64 \<Rightarrow> nat \<Rightarrow> u64 \<times> 'f stChannel \<Rightarrow> go_err + u64 \<times> 'f stChannel" where
  "reconstructNoise F minResolution msStereo subframe = (\<lambda>(random, c).
     if minResolution > 0 then Inr (random, c)
     else if ch_validCount c \<le> 0 \<or> ch_noiseCount c \<le> 0 then Inr (random, c)
     else if \<not> (msStereo = 0 \<or> ch_channelType c = stereoPrimary) then Inr (random, c)
     else forR (unat (ch_noiseCount c)) 0 (noise_step F subframe) (random, c))"

section \<open>High frequencies\<close>

text \<open>The state of the loops: \<open>highband\<close>, \<open>lowband\<close> and the channel.\<close>

definition hfr_step ::
  "'f float_ops \<Rightarrow> nat \<Rightarrow> u8 \<Rightarrow> u64 \<Rightarrow> u64 \<times> u64 \<times> 'f stChannel \<Rightarrow> go_err + u64 \<times> u64 \<times> 'f stChannel" where
  "hfr_step F subframe hfrScale lowbandSub = (\<lambda>(highband, lowband, c).
     bindR (arr_get (ch_scaleFactors c) (unat lowband)) (\<lambda>sf.
     let scIndex = uint hfrScale - uint sf + 63 in
     bindR (scale_conversion F (if scIndex < 0 then 0 else scIndex)) (\<lambda>scale.
     bindR (get_spectrum subframe (unat lowband) c) (\<lambda>v.
     bindR (put_spectrum subframe (unat highband) (f_mul F scale v) c) (\<lambda>c.
       Inr (highband + 1, lowband - lowbandSub, c))))))"

text \<open>The inner loop, with its \<open>break\<close>; an unsigned \<open>lowband\<close> is never below 0.\<close>

fun hfr_bands ::
  "'f float_ops \<Rightarrow> nat \<Rightarrow> u64 \<Rightarrow> u8 \<Rightarrow> u64 \<Rightarrow> nat \<Rightarrow> u64 \<times> u64 \<times> 'f stChannel \<Rightarrow>
   go_err + u64 \<times> u64 \<times> 'f stChannel" where
  "hfr_bands F subframe totalBandCount hfrScale lowbandSub 0 s = Inr s"
| "hfr_bands F subframe totalBandCount hfrScale lowbandSub (Suc n) s =
     (if fst s \<ge> totalBandCount \<or> fst (snd s) < 0 then Inr s
      else bindR (hfr_step F subframe hfrScale lowbandSub s)
        (hfr_bands F subframe totalBandCount hfrScale lowbandSub n))"

text \<open>The slice \<open>hfrScales\<close> has \<open>hfrGroupCount\<close> scales, so each group has its own.\<close>

definition hfr_group ::
  "'f float_ops \<Rightarrow> nat \<Rightarrow> u64 \<Rightarrow> u64 \<Rightarrow> u64 \<Rightarrow> u64 \<Rightarrow> nat \<Rightarrow> u64 \<times> u64 \<times> 'f stChannel \<Rightarrow>
   go_err + u64 \<times> u64 \<times> 'f stChannel" where
  "hfr_group F subframe hfrGroupCount bandsPerHfrGroup totalBandCount groupLimit g s =
     bindR (arr_get (drop (unat (128 - hfrGroupCount)) (ch_scaleFactors (snd (snd s)))) g) (\<lambda>hfrScale.
       hfr_bands F subframe totalBandCount hfrScale (if of_nat g \<ge> groupLimit then 0 else 1)
         (unat bandsPerHfrGroup) s)"

definition group_limit :: "u64 \<Rightarrow> u64 \<Rightarrow> u64" where
  "group_limit version hfrGroupCount =
     (if version \<le> 0x0200 then hfrGroupCount
      else drop_bit 1 (if sint hfrGroupCount \<ge> 0 then hfrGroupCount else hfrGroupCount + 1))"

definition reconstructHighFrequency ::
  "'f float_ops \<Rightarrow> u64 \<Rightarrow> u64 \<Rightarrow> u64 \<Rightarrow> u64 \<Rightarrow> u64 \<Rightarrow> u64 \<Rightarrow> nat \<Rightarrow> 'f stChannel \<Rightarrow> go_err + 'f stChannel" where
  "reconstructHighFrequency F hfrGroupCount bandsPerHfrGroup stereoBandCount baseBandCount totalBandCount
       version subframe c =
     (if bandsPerHfrGroup = 0 then Inr c
      else if ch_channelType c = stereoSecondary then Inr c
      else if 128 < 128 - hfrGroupCount then Inl (Panic ''slice bounds out of range'')
      else
        let startBand = stereoBandCount + baseBandCount in
        bindR
          (forR (unat hfrGroupCount) 0
            (hfr_group F subframe hfrGroupCount bandsPerHfrGroup totalBandCount
              (group_limit version hfrGroupCount))
            (startBand, startBand - 1, c))
          (\<lambda>(highband, lowband, c). put_spectrum subframe (unat (highband - 1)) (f_of_int F 0) c))"

section \<open>Joint stereo\<close>

text \<open>The two spectra of a pair, band by band.\<close>

definition pair_step :: "('f \<Rightarrow> 'f \<Rightarrow> 'f \<times> 'f) \<Rightarrow> nat \<Rightarrow> 'f list \<times> 'f list \<Rightarrow> go_err + 'f list \<times> 'f list" where
  "pair_step f band = (\<lambda>(spL, spR).
     bindR (arr_get spL band) (\<lambda>l.
     bindR (arr_get spR band) (\<lambda>r.
     bindR (arr_put band (fst (f l r)) spL) (\<lambda>spL.
     bindR (arr_put band (snd (f l r)) spR) (\<lambda>spR. Inr (spL, spR))))))"

definition on_pair ::
  "nat \<Rightarrow> nat \<Rightarrow> u64 \<Rightarrow> u64 \<Rightarrow> ('f \<Rightarrow> 'f \<Rightarrow> 'f \<times> 'f) \<Rightarrow> 'f stChannel list \<Rightarrow> go_err + 'f stChannel list" where
  "on_pair chIdx subframe baseBandCount totalBandCount f chPair =
     bindR (arr_get chPair chIdx) (\<lambda>l.
     bindR (arr_get chPair (Suc chIdx)) (\<lambda>r.
     bindR (arr_get (ch_spectra l) subframe) (\<lambda>spL.
     bindR (arr_get (ch_spectra r) subframe) (\<lambda>spR.
     bindR (forR (unat totalBandCount - unat baseBandCount) (unat baseBandCount) (pair_step f) (spL, spR))
       (\<lambda>(spL, spR).
       Inr (chPair[chIdx := l\<lparr>ch_spectra := (ch_spectra l)[subframe := spL]\<rparr>,
                   Suc chIdx := r\<lparr>ch_spectra := (ch_spectra r)[subframe := spR]\<rparr>]))))))"

definition intensity_pair :: "'f float_ops \<Rightarrow> 'f \<Rightarrow> 'f \<Rightarrow> 'f \<Rightarrow> 'f \<times> 'f" where
  "intensity_pair F ratioL l r = (f_mul F l ratioL, f_mul F l (f_sub F (f_of_int F 2) ratioL))"

definition applyIntensityStereo ::
  "'f float_ops \<Rightarrow> nat \<Rightarrow> nat \<Rightarrow> u64 \<Rightarrow> u64 \<Rightarrow> 'f stChannel list \<Rightarrow> go_err + 'f stChannel list" where
  "applyIntensityStereo F chIdx subframe baseBandCount totalBandCount chPair =
     bindR (arr_get chPair chIdx) (\<lambda>l.
       if ch_channelType l \<noteq> stereoPrimary then Inr chPair
       else
         bindR (arr_get chPair (Suc chIdx)) (\<lambda>r.
         bindR (arr_get (ch_intensity r) subframe) (\<lambda>i.
         bindR (arr_get hcadecoderIntensityRatioTableHex (unat i)) (\<lambda>bits.
           on_pair chIdx subframe baseBandCount totalBandCount (intensity_pair F (f_of_bits F bits)) chPair))))"

definition ms_pair :: "'f float_ops \<Rightarrow> 'f \<Rightarrow> 'f \<Rightarrow> 'f \<times> 'f" where
  "ms_pair F l r = (let ratio = f_of_bits F 0x3F3504F3 in (f_mul F (f_add F l r) ratio, f_mul F (f_sub F l r) ratio))"

definition applyMsStereo ::
  "'f float_ops \<Rightarrow> nat \<Rightarrow> u64 \<Rightarrow> nat \<Rightarrow> u64 \<Rightarrow> u64 \<Rightarrow> 'f stChannel list \<Rightarrow> go_err + 'f stChannel list" where
  "applyMsStereo F chIdx msStereo subframe baseBandCount totalBandCount chPair =
     (if msStereo = 0 then Inr chPair
      else
        bindR (arr_get chPair chIdx) (\<lambda>l.
          if ch_channelType l \<noteq> stereoPrimary then Inr chPair
          else on_pair chIdx subframe baseBandCount totalBandCount (ms_pair F) chPair))"

section \<open>Noise takes from valid bands only\<close>

text \<open>
  The random index lands behind the noise bands: in the part of \<open>noises\<close> that lists the valid
  bands from its end.
\<close>

lemma and_mask_15: "unat ((r :: u64) AND 0x7FFF) < 2 ^ 15"
proof -
  have M: "(0x7FFF :: u64) = mask 15" by (simp add: mask_eq_exp_minus_1)
  show ?thesis
    unfolding M take_bit_eq_mask [symmetric] unsigned_take_bit_eq by (rule take_bit_nat_less_exp)
qed

lemma random_index_range:
  assumes "0 < unat v" and "unat v \<le> 128"
  shows "128 - unat v \<le> unat (random_index v r)" "unat (random_index v r) < 128"
proof -
  let ?x = "unat (r AND 0x7FFF)"
  have x: "?x < 2 ^ 15" by (rule and_mask_15)
  have "?x * unat v \<le> 2 ^ 15 * 128" using x assms(2) by (intro mult_le_mono) simp_all
  then have "unat ((r AND 0x7FFF) * v) = ?x * unat v" by (simp add: unat_word_ariths)
  then have d: "unat (drop_bit 15 ((r AND 0x7FFF) * v)) = ?x * unat v div 2 ^ 15"
    unfolding unat_drop_bit_eq by (simp add: drop_bit_eq_div)
  have "?x * unat v < 2 ^ 15 * unat v" using x assms(1) by simp
  then have small: "?x * unat v div 2 ^ 15 < unat v" by (simp add: less_mult_imp_div_less mult.commute)
  have s: "unat (128 - v) = 128 - unat v" using assms(2) by (subst unat_sub) (simp_all add: word_le_nat_alt)
  have "unat (random_index v r) = 128 - unat v + ?x * unat v div 2 ^ 15"
    using small assms(2) by (simp add: random_index_def unat_word_ariths d s)
  then show "128 - unat v \<le> unat (random_index v r)" "unat (random_index v r) < 128"
    using small assms(2) by simp_all
qed

text \<open>
  What the resolutions make of the bands: the noise bands have a scale and no resolution, the
  valid bands a scale and a resolution. \<open>noises\<close> lists the noise bands from its front and the
  valid bands from its end, both in order.
\<close>

definition noise_bands :: "nat \<Rightarrow> 'f stChannel \<Rightarrow> nat list" where
  "noise_bands n c = [b \<leftarrow> [0..<n]. ch_scaleFactors c ! b > 0 \<and> ch_resolution c ! b = 0]"

definition valid_bands :: "nat \<Rightarrow> 'f stChannel \<Rightarrow> nat list" where
  "valid_bands n c = [b \<leftarrow> [0..<n]. ch_scaleFactors c ! b > 0 \<and> ch_resolution c ! b \<noteq> 0]"

definition lists_bands :: "nat \<Rightarrow> 'f stChannel \<Rightarrow> u64 \<Rightarrow> u64 \<Rightarrow> bool" where
  "lists_bands n c nc vc \<longleftrightarrow>
     length (noise_bands n c) = unat nc \<and> length (valid_bands n c) = unat vc \<and>
     take (unat nc) (ch_noises c) = map of_nat (noise_bands n c) \<and>
     rev (drop (128 - unat vc) (ch_noises c)) = map of_nat (valid_bands n c)"

lemma bands_Suc:
  "noise_bands (Suc n) c = noise_bands n c @ (if ch_scaleFactors c ! n > 0 \<and> ch_resolution c ! n = 0 then [n] else [])"
  "valid_bands (Suc n) c = valid_bands n c @ (if ch_scaleFactors c ! n > 0 \<and> ch_resolution c ! n \<noteq> 0 then [n] else [])"
  by (simp_all add: noise_bands_def valid_bands_def)

lemma bands_length: "length (noise_bands n c) + length (valid_bands n c) \<le> n"
  by (induction n) (simp_all add: bands_Suc, simp_all add: noise_bands_def valid_bands_def)

lemma bands_cong:
  "ch_scaleFactors c = ch_scaleFactors d \<Longrightarrow> (\<And>b. b < n \<Longrightarrow> ch_resolution c ! b = ch_resolution d ! b) \<Longrightarrow>
   noise_bands n c = noise_bands n d \<and> valid_bands n c = valid_bands n d"
  unfolding noise_bands_def valid_bands_def by (intro conjI filter_cong) simp_all

lemma resolution_step_lists:
  assumes shape: "length (ch_scaleFactors c) = 128" "length (ch_noises c) = 128" "length (ch_resolution c) = 128"
    and i: "i < 128" and ath: "length ath = 128" and lists: "lists_bands i c nc vc"
  shows "\<exists>c' nc' vc'. resolution_step p ath k m i (c, nc, vc) = Inr (c', nc', vc') \<and>
    ch_scaleFactors c' = ch_scaleFactors c \<and> length (ch_noises c') = 128 \<and> length (ch_resolution c') = 128 \<and>
    lists_bands (Suc i) c' nc' vc' \<and> c' = c\<lparr>ch_noises := ch_noises c', ch_resolution := ch_resolution c'\<rparr>"
proof -
  have sum: "unat nc + unat vc \<le> i" using lists bands_length [of i c] by (simp add: lists_bands_def)
  then have n: "unat nc < 128" "unat vc < 128" "unat (nc + 1) = unat nc + 1" "unat (vc + 1) = unat vc + 1"
    using i by (simp_all add: unat_word_ariths)
  then have v: "unat (127 - vc) = 127 - unat vc"
    by (subst unat_sub) (simp_all add: word_le_nat_alt)
  have L: "length (noise_bands i c) = unat nc" "length (valid_bands i c) = unat vc"
      "take (unat nc) (ch_noises c) = map of_nat (noise_bands i c)"
      "rev (drop (128 - unat vc) (ch_noises c)) = map of_nat (valid_bands i c)"
    using lists unfolding lists_bands_def by metis+
  define sf where "sf = ch_scaleFactors c ! i"
  define r where "r = new_resolution sf p i (ath ! i) k m"
  have prefix: "noise_bands i (c\<lparr>ch_noises := l, ch_resolution := (ch_resolution c)[i := x]\<rparr>) = noise_bands i c"
    "valid_bands i (c\<lparr>ch_noises := l, ch_resolution := (ch_resolution c)[i := x]\<rparr>) = valid_bands i c" for l x
    using bands_cong [of "c\<lparr>ch_noises := l, ch_resolution := (ch_resolution c)[i := x]\<rparr>" c i] by simp_all
  consider "sf = 0" | "sf > 0" "r = 0" | "sf > 0" "r \<noteq> 0"
    by (cases "sf = 0"; cases "r = 0") (simp_all add: word_gt_0)
  then show ?thesis
  proof cases
    case 1
    then show ?thesis
      using shape i ath L prefix [of _ "ch_noises c"]
      by (simp add: resolution_step_def arr_get_def arr_put_def sf_def lists_bands_def bands_Suc)
  next
    case 2
    have "drop (128 - unat vc) ((ch_noises c)[unat nc := of_nat i]) = drop (128 - unat vc) (ch_noises c)"
      using sum i by (simp add: drop_update_cancel)
    moreover have "take (Suc (unat nc)) ((ch_noises c)[unat nc := of_nat i]) = take (unat nc) (ch_noises c) @ [of_nat i]"
      using shape n by (simp add: take_Suc_conv_app_nth)
    ultimately show ?thesis
      using 2 shape i ath L prefix n
      by (simp add: resolution_step_def arr_get_def arr_put_def sf_def [symmetric] r_def [symmetric] lists_bands_def bands_Suc Let_def)
  next
    case 3
    have d: "127 - unat vc < 128" "128 - unat vc = Suc (127 - unat vc)" "127 - unat vc \<ge> unat nc"
      using n sum i by linarith+
    have "drop (127 - unat vc) ((ch_noises c)[127 - unat vc := of_nat i]) =
        of_nat i # drop (128 - unat vc) (ch_noises c)"
      unfolding d(2) using shape d(1) by (simp add: Cons_nth_drop_Suc [symmetric])
    moreover have "take (unat nc) ((ch_noises c)[127 - unat vc := of_nat i]) = take (unat nc) (ch_noises c)"
      using d(3) by simp
    moreover have "\<not> r < 1" using 3 by (simp add: word_less_1)
    moreover have "128 - unat (vc + 1) = 127 - unat vc" using n by simp
    ultimately show ?thesis
      using 3 shape i ath L prefix n v
      by (simp add: resolution_step_def arr_get_def arr_put_def sf_def [symmetric] r_def [symmetric] lists_bands_def bands_Suc Let_def)
  qed
qed

text \<open>After \<open>calculateResolution\<close> the channel lists its noise bands and its valid bands.\<close>

definition bands_listed :: "'f stChannel \<Rightarrow> bool" where
  "bands_listed c \<longleftrightarrow> lists_bands (unat (ch_codedCount c)) c (ch_noiseCount c) (ch_validCount c)"

lemma resolution_loop_lists:
  assumes shape: "length (ch_scaleFactors c) = 128" "length (ch_noises c) = 128" "length (ch_resolution c) = 128"
    and n: "unat (ch_codedCount c) \<le> 128" and ath: "length ath = 128"
  shows "\<exists>d nc vc a b. forR (unat (ch_codedCount c)) 0 (resolution_step p ath k m) (c, 0, 0) = Inr (d, nc, vc) \<and>
    d = c\<lparr>ch_noises := a, ch_resolution := b\<rparr> \<and> length b = 128 \<and> lists_bands (unat (ch_codedCount c)) d nc vc"
proof -
  let ?n = "unat (ch_codedCount c)"
  let ?same = "\<lambda>d. ch_scaleFactors d = ch_scaleFactors c \<and> length (ch_noises d) = 128 \<and> length (ch_resolution d) = 128 \<and>
    (\<exists>a b. d = c\<lparr>ch_noises := a, ch_resolution := b\<rparr>)"
  let ?P = "\<lambda>j (d, nc, vc). ?same d \<and> lists_bands j d nc vc"
  have "\<exists>s. forR ?n 0 (resolution_step p ath k m) (c, 0, 0) = Inr s \<and> ?P (0 + ?n) s"
  proof (rule forR_induct)
    have "\<exists>a b. c = c\<lparr>ch_noises := a, ch_resolution := b\<rparr>"
      by (intro exI [of _ "ch_noises c"] exI [of _ "ch_resolution c"]) simp
    then show "?P 0 (c, 0, 0)" using shape by (simp add: lists_bands_def noise_bands_def valid_bands_def)
  next
    fix j s assume j: "0 \<le> j" "j < 0 + ?n" "?P j s"
    obtain d nc vc where s: "s = (d, nc, vc)" by (cases s)
    from j s obtain a b where d: "d = c\<lparr>ch_noises := a, ch_resolution := b\<rparr>" and
      d': "length (ch_noises d) = 128" "length (ch_resolution d) = 128" "lists_bands j d nc vc" by auto
    have "length (ch_scaleFactors d) = 128" "j < 128" using d shape(1) j n by simp_all
    from resolution_step_lists [OF this(1) d'(1,2) this(2) ath d'(3)] obtain d2 nc2 vc2 where
      step: "resolution_step p ath k m j (d, nc, vc) = Inr (d2, nc2, vc2)"
        "ch_scaleFactors d2 = ch_scaleFactors d" "length (ch_noises d2) = 128" "length (ch_resolution d2) = 128"
        "lists_bands (Suc j) d2 nc2 vc2" "d2 = d\<lparr>ch_noises := ch_noises d2, ch_resolution := ch_resolution d2\<rparr>"
      by blast
    moreover have "\<exists>a b. d2 = c\<lparr>ch_noises := a, ch_resolution := b\<rparr>"
      using step(6) unfolding d by (intro exI) (erule trans, simp)
    ultimately show "\<exists>s'. resolution_step p ath k m j s = Inr s' \<and> ?P (Suc j) s'"
      unfolding s d by (intro exI [of _ "(d2, nc2, vc2)"]) simp
  qed
  then show ?thesis by fastforce
qed

lemma resolution_lists:
  assumes shape: "length (ch_scaleFactors c) = 128" "length (ch_noises c) = 128" "length (ch_resolution c) = 128"
    and n: "unat (ch_codedCount c) \<le> 128" and ath: "length ath = 128"
  shows "\<exists>c'. calculateResolution p ath k m c = Inr c' \<and> bands_listed c' \<and>
    c' = c\<lparr>ch_noises := ch_noises c', ch_resolution := ch_resolution c',
           ch_noiseCount := ch_noiseCount c', ch_validCount := ch_validCount c'\<rparr>"
proof -
  let ?n = "unat (ch_codedCount c)"
  obtain d nc vc a b where run: "forR ?n 0 (resolution_step p ath k m) (c, 0, 0) = Inr (d, nc, vc)"
      and d: "d = c\<lparr>ch_noises := a, ch_resolution := b\<rparr>" "length b = 128"
      and lists: "lists_bands ?n d nc vc" using resolution_loop_lists [OF assms] by metis
  let ?Q = "\<lambda>j e. \<exists>r. e = d\<lparr>ch_noiseCount := nc, ch_validCount := vc, ch_resolution := r\<rparr> \<and> length r = 128 \<and>
    (\<forall>x<?n. r ! x = b ! x)"
  have "\<exists>e. forR (128 - ?n) ?n (\<lambda>i c. bindR (arr_put i 0 (ch_resolution c)) (\<lambda>l. Inr (c\<lparr>ch_resolution := l\<rparr>)))
      (d\<lparr>ch_noiseCount := nc, ch_validCount := vc\<rparr>) = Inr e \<and> ?Q (?n + (128 - ?n)) e"
  proof (rule forR_induct [where P = ?Q])
    show "?Q ?n (d\<lparr>ch_noiseCount := nc, ch_validCount := vc\<rparr>)" using d by (intro exI [of _ b]) simp
  next
    fix j e assume "?n \<le> j" "j < ?n + (128 - ?n)" "?Q j e"
    then obtain r where "e = d\<lparr>ch_noiseCount := nc, ch_validCount := vc, ch_resolution := r\<rparr>" "length r = 128"
      "\<forall>x<?n. r ! x = b ! x" "j < 128" "?n \<le> j" by auto
    then show "\<exists>e'. bindR (arr_put j 0 (ch_resolution e)) (\<lambda>l. Inr (e\<lparr>ch_resolution := l\<rparr>)) = Inr e' \<and> ?Q (Suc j) e'"
      by (simp add: arr_put_def) (intro exI [of _ "r[j := 0]"], simp)
  qed
  then obtain r where fin: "forR (128 - ?n) ?n (\<lambda>i c. bindR (arr_put i 0 (ch_resolution c)) (\<lambda>l. Inr (c\<lparr>ch_resolution := l\<rparr>)))
      (d\<lparr>ch_noiseCount := nc, ch_validCount := vc\<rparr>) = Inr (d\<lparr>ch_noiseCount := nc, ch_validCount := vc, ch_resolution := r\<rparr>)"
      and r: "\<forall>x<?n. r ! x = b ! x" by blast
  let ?e = "d\<lparr>ch_noiseCount := nc, ch_validCount := vc, ch_resolution := r\<rparr>"
  have "noise_bands ?n ?e = noise_bands ?n d \<and> valid_bands ?n ?e = valid_bands ?n d"
    by (rule bands_cong) (use r d in simp_all)
  then have "lists_bands ?n ?e nc vc \<longleftrightarrow> lists_bands ?n d nc vc" by (simp add: lists_bands_def)
  then have "bands_listed ?e" using lists d(1) unfolding bands_listed_def by simp
  then show ?thesis using run fin d by (simp add: calculateResolution_def Let_def)
qed

section \<open>What noise reconstruction does\<close>

text \<open>
  A row of the spectra after some bands were overwritten: each either as before or the scaled
  copy of a valid band.
\<close>

definition noise_filled :: "'f float_ops \<Rightarrow> nat set \<Rightarrow> nat set \<Rightarrow> bytes \<Rightarrow> 'f list \<Rightarrow> 'f list \<Rightarrow> bool" where
  "noise_filled F targets sources sfs row row' \<longleftrightarrow>
     length row' = length row \<and>
     (\<forall>b<length row. if b \<in> targets
        then \<exists>v\<in>sources. row' ! b =
          f_mul F (f_of_bits F (hcadecoderScaleConversionTableHex ! (nat (uint (sfs ! b) - uint (sfs ! v) + 62)))) (row ! v)
        else row' ! b = row ! b)"

lemma scale_conversion_ok:
  assumes "x < 128"
  shows "scale_conversion F (if x < 0 then 0 else x) =
    Inr (f_of_bits F (hcadecoderScaleConversionTableHex ! nat x))"
proof -
  have "length hcadecoderScaleConversionTableHex = 128" by (simp add: hcadecoderScaleConversionTableHex_def)
  then show ?thesis using assms by (auto simp: scale_conversion_def arr_get_def nat_less_iff)
qed

lemma noise_step_ok:
  assumes c: "channel_shape c" and sub: "subframe < 8"
    and i: "i < unat (ch_noiseCount c)" and v: "0 < unat (ch_validCount c)"
  obtains b w row where "b = unat (ch_noises c ! i)" and "w \<in> unat ` set (drop (128 - unat (ch_validCount c)) (ch_noises c))"
    and "row = ch_spectra c ! subframe"
    and "noise_step F subframe i (r, c) = Inr (next_random r, c\<lparr>ch_spectra := (ch_spectra c)[subframe :=
      row[b := f_mul F (f_of_bits F (hcadecoderScaleConversionTableHex !
        nat (uint (ch_scaleFactors c ! b) - uint (ch_scaleFactors c ! w) + 62))) (row ! w)]]\<rparr>)"
proof -
  let ?r = "next_random r"
  let ?k = "unat (random_index (ch_validCount c) ?r)"
  have cnt: "unat (ch_noiseCount c) + unat (ch_validCount c) \<le> 128" using c by (simp add: channel_shape_def)
  then have k: "128 - unat (ch_validCount c) \<le> ?k" "?k < 128" using random_index_range [OF v] by simp_all
  have len: "length (ch_noises c) = 128" "length (ch_scaleFactors c) = 128" "length (ch_spectra c) = 8"
    "length (ch_spectra c ! subframe) = 128" using c sub by (auto simp: channel_shape_def)
  have small: "unat (ch_noises c ! x) < 128" if "x < 128" for x
    using c that len(1) by (auto simp: channel_shape_def word_less_nat_alt)
  have sf: "uint (ch_scaleFactors c ! x) < 64" if "x < 128" for x
    using c that len(2) by (auto simp: channel_shape_def word_less_def)
  define b w where "b = unat (ch_noises c ! i)" and "w = unat (ch_noises c ! ?k)"
  have i': "i < 128" using i cnt by simp
  have bw: "b < 128" "w < 128" using small i' k(2) by (simp_all add: b_def w_def)
  have "ch_noises c ! ?k \<in> set (drop (128 - unat (ch_validCount c)) (ch_noises c))"
    using k len(1) by (auto simp: in_set_conv_nth intro!: exI [of _ "?k - (128 - unat (ch_validCount c))"])
  moreover have "uint (ch_scaleFactors c ! b) - uint (ch_scaleFactors c ! w) + 62 < 128"
    using sf [OF bw(1)] uint_ge_0 [of "ch_scaleFactors c ! w"] by linarith
  note conv = scale_conversion_ok [OF this, of F]
  have "noise_step F subframe i (r, c) = Inr (?r, c\<lparr>ch_spectra := (ch_spectra c)[subframe :=
      (ch_spectra c ! subframe)[b := f_mul F (f_of_bits F (hcadecoderScaleConversionTableHex !
        nat (uint (ch_scaleFactors c ! b) - uint (ch_scaleFactors c ! w) + 62))) (ch_spectra c ! subframe ! w)]]\<rparr>)"
    using i' k(2) bw len sub conv
    by (simp add: noise_step_def Let_def arr_get_def arr_put_def get_spectrum_def put_spectrum_def
        b_def [symmetric] w_def [symmetric])
  ultimately show ?thesis using that [of b w "ch_spectra c ! subframe"] by (simp add: b_def w_def)
qed

lemma listed_sets:
  assumes "bands_listed c" and "unat (ch_codedCount c) \<le> 128" and "length (ch_noises c) = 128"
  shows "set (map unat (take (unat (ch_noiseCount c)) (ch_noises c))) = set (noise_bands (unat (ch_codedCount c)) c)"
    "unat ` set (drop (128 - unat (ch_validCount c)) (ch_noises c)) = set (valid_bands (unat (ch_codedCount c)) c)"
proof -
  have un: "map unat (map (of_nat :: nat \<Rightarrow> u8) xs) = xs" if "set xs \<subseteq> {..<128}" for xs
    using that by (induction xs) (auto simp: unat_of_nat)
  have sub: "set (noise_bands (unat (ch_codedCount c)) c) \<subseteq> {..<128}" "set (valid_bands (unat (ch_codedCount c)) c) \<subseteq> {..<128}"
    using assms(2) by (auto simp: noise_bands_def valid_bands_def)
  have take: "take (unat (ch_noiseCount c)) (ch_noises c) = map of_nat (noise_bands (unat (ch_codedCount c)) c)"
    using assms(1) unfolding bands_listed_def lists_bands_def by blast
  show "set (map unat (take (unat (ch_noiseCount c)) (ch_noises c))) = set (noise_bands (unat (ch_codedCount c)) c)"
    unfolding take un [OF sub(1)] ..
  have drop: "rev (drop (128 - unat (ch_validCount c)) (ch_noises c)) = map of_nat (valid_bands (unat (ch_codedCount c)) c)"
    using assms(1) unfolding bands_listed_def lists_bands_def by blast
  have "unat ` set (drop (128 - unat (ch_validCount c)) (ch_noises c)) =
      set (map unat (rev (drop (128 - unat (ch_validCount c)) (ch_noises c))))" by simp
  also have "\<dots> = set (map unat (map (of_nat :: nat \<Rightarrow> u8) (valid_bands (unat (ch_codedCount c)) c)))"
    unfolding drop ..
  finally show "unat ` set (drop (128 - unat (ch_validCount c)) (ch_noises c)) = set (valid_bands (unat (ch_codedCount c)) c)"
    unfolding un [OF sub(2)] .
qed

lemma noise_filled_step:
  assumes "noise_filled F T V sfs row row'" and "b < length row" and "w \<in> V" and "V \<inter> (T \<union> {b}) = {}"
    and "w < length row"
  shows "noise_filled F (T \<union> {b}) V sfs row (row'[b := f_mul F (f_of_bits F (hcadecoderScaleConversionTableHex !
    nat (uint (sfs ! b) - uint (sfs ! w) + 62))) (row' ! w)])"
proof -
  have "w \<notin> T" using assms(3,4) by blast
  then have "row' ! w = row ! w" using assms(1,5) by (simp add: noise_filled_def)
  then show ?thesis using assms unfolding noise_filled_def
    by (auto simp: nth_list_update split: if_splits)
qed

lemma noise_loop:
  assumes c: "channel_shape c" and listed: "bands_listed c" and n: "unat (ch_codedCount c) \<le> 128"
    and sub: "subframe < 8" and v: "0 < unat (ch_validCount c)"
  shows "\<exists>r' row'. forR (unat (ch_noiseCount c)) 0 (noise_step F subframe) (r, c) =
      Inr (r', c\<lparr>ch_spectra := (ch_spectra c)[subframe := row']\<rparr>) \<and>
    noise_filled F (set (noise_bands (unat (ch_codedCount c)) c)) (set (valid_bands (unat (ch_codedCount c)) c))
      (ch_scaleFactors c) (ch_spectra c ! subframe) row'"
proof -
  let ?nc = "unat (ch_noiseCount c)" and ?row = "ch_spectra c ! subframe"
  let ?V = "set (valid_bands (unat (ch_codedCount c)) c)"
  let ?T = "\<lambda>i. set (map unat (take i (ch_noises c)))"
  have len: "length (ch_noises c) = 128" "length (ch_spectra c) = 8" "length ?row = 128"
    using c sub by (auto simp: channel_shape_def)
  note sets = listed_sets [OF listed n len(1)]
  have nc: "?nc \<le> 128" using c by (simp add: channel_shape_def)
  have disj: "?V \<inter> ?T ?nc = {}" unfolding sets by (auto simp: noise_bands_def valid_bands_def)
  have V: "?V \<subseteq> {..<128}" using n by (auto simp: valid_bands_def)
  have T: "?T i \<subseteq> {..<128}" for i
    using c by (auto simp: channel_shape_def word_less_nat_alt dest!: in_set_takeD)
  let ?P = "\<lambda>i (r' :: u64, d). \<exists>row'. d = c\<lparr>ch_spectra := (ch_spectra c)[subframe := row']\<rparr> \<and>
    noise_filled F (?T i) ?V (ch_scaleFactors c) ?row row'"
  have "\<exists>s. forR ?nc 0 (noise_step F subframe) (r, c) = Inr s \<and> ?P (0 + ?nc) s"
  proof (rule forR_induct)
    have "c = c\<lparr>ch_spectra := (ch_spectra c)[subframe := ?row]\<rparr>" by simp
    then show "?P 0 (r, c)" by (auto simp: noise_filled_def intro!: exI [of _ ?row])
  next
    fix i s assume i: "0 \<le> i" "i < 0 + ?nc" and P: "?P i s"
    obtain r' d where s: "s = (r', d)" by (cases s)
    obtain row' where d: "d = c\<lparr>ch_spectra := (ch_spectra c)[subframe := row']\<rparr>"
      and filled: "noise_filled F (?T i) ?V (ch_scaleFactors c) ?row row'" using P s by auto
    have "length row' = 128" using filled len(3) by (simp add: noise_filled_def)
    then have d_ok: "channel_shape d" using c d by (auto simp: channel_shape_def dest!: in_list_update)
    have pre: "i < unat (ch_noiseCount d)" "0 < unat (ch_validCount d)" using i v d by simp_all
    obtain b w row where b: "b = unat (ch_noises d ! i)"
      and w: "w \<in> unat ` set (drop (128 - unat (ch_validCount d)) (ch_noises d))"
      and row: "row = ch_spectra d ! subframe"
      and step: "noise_step F subframe i (r', d) = Inr (next_random r', d\<lparr>ch_spectra := (ch_spectra d)[subframe :=
        row[b := f_mul F (f_of_bits F (hcadecoderScaleConversionTableHex !
        nat (uint (ch_scaleFactors d ! b) - uint (ch_scaleFactors d ! w) + 62))) (row ! w)]]\<rparr>)"
      by (rule noise_step_ok [OF d_ok sub pre, where r = r' and F = F]) (erule (3) that)
    have w: "w \<in> ?V" using w unfolding sets(2) [symmetric] d by simp
    have row: "row = row'" using row len(2) sub by (simp add: d)
    have Ti: "?T (Suc i) = ?T i \<union> {b}"
      using i nc len(1) b by (simp add: take_Suc_conv_app_nth d)
    have "?T (Suc i) \<subseteq> ?T ?nc" using i set_take_subset_set_take [of "Suc i" ?nc "ch_noises c"] by auto
    then have "?V \<inter> (?T i \<union> {b}) = {}" using disj unfolding Ti by blast
    moreover have "b < length ?row" "w < length ?row" using T [of "Suc i"] V w Ti len(3) by auto
    ultimately have "noise_filled F (?T (Suc i)) ?V (ch_scaleFactors c) ?row (row'[b := f_mul F (f_of_bits F
        (hcadecoderScaleConversionTableHex ! nat (uint (ch_scaleFactors c ! b) - uint (ch_scaleFactors c ! w) + 62))) (row' ! w)])"
      unfolding Ti using w by (intro noise_filled_step [OF filled])
    then show "\<exists>s'. noise_step F subframe i s = Inr s' \<and> ?P (Suc i) s'"
      unfolding s step by (intro exI conjI [OF HOL.refl]) (simp add: d row, blast)
  qed
  then obtain r' row' where "forR ?nc 0 (noise_step F subframe) (r, c) = Inr (r', c\<lparr>ch_spectra := (ch_spectra c)[subframe := row']\<rparr>)"
    "noise_filled F (?T ?nc) ?V (ch_scaleFactors c) ?row row'" by auto
  then show ?thesis unfolding sets(1) by blast
qed

lemma noise_result:
  assumes "channel_shape c" and "bands_listed c" and "unat (ch_codedCount c) \<le> 128" and "subframe < 8"
  shows "\<exists>r' row'. reconstructNoise F minResolution msStereo subframe (r, c) =
      Inr (r', c\<lparr>ch_spectra := (ch_spectra c)[subframe := row']\<rparr>) \<and>
    noise_filled F
      (if minResolution = 0 \<and> valid_bands (unat (ch_codedCount c)) c \<noteq> [] \<and>
          (msStereo = 0 \<or> ch_channelType c = stereoPrimary)
       then set (noise_bands (unat (ch_codedCount c)) c) else {})
      (set (valid_bands (unat (ch_codedCount c)) c)) (ch_scaleFactors c) (ch_spectra c ! subframe) row'"
proof -
  let ?n = "unat (ch_codedCount c)"
  have cnt: "unat (ch_noiseCount c) = length (noise_bands ?n c)" "unat (ch_validCount c) = length (valid_bands ?n c)"
    using assms(2) by (simp_all add: bands_listed_def lists_bands_def)
  have same: "noise_filled F {} V sfs row row" for V sfs row by (simp add: noise_filled_def)
  show ?thesis
  proof (cases "minResolution = 0 \<and> valid_bands ?n c \<noteq> [] \<and> (msStereo = 0 \<or> ch_channelType c = stereoPrimary)")
    case active: True
    then have v: "0 < unat (ch_validCount c)" using cnt by simp
    show ?thesis
    proof (cases "noise_bands ?n c = []")
      case True
      then have "ch_noiseCount c = 0" using cnt by (simp add: unat_eq_zero)
      then show ?thesis using True same by (intro exI [of _ r] exI [of _ "ch_spectra c ! subframe"]) (simp add: reconstructNoise_def)
    next
      case False
      then have "\<not> ch_validCount c \<le> 0" "\<not> ch_noiseCount c \<le> 0"
        using cnt v by (auto simp: word_le_nat_alt)
      then show ?thesis using active noise_loop [OF assms v, of F r] by (auto simp: reconstructNoise_def word_gt_0)
    qed
  next
    case False
    then have "ch_validCount c \<le> 0 \<or> minResolution > 0 \<or> \<not> (msStereo = 0 \<or> ch_channelType c = stereoPrimary)"
      using cnt by (auto simp: word_le_nat_alt word_gt_0)
    then show ?thesis using False same
      by (intro exI [of _ r] exI [of _ "ch_spectra c ! subframe"]) (auto simp: reconstructNoise_def)
  qed
qed

section \<open>What high-frequency reconstruction does\<close>

text \<open>
  High band \<open>S + k\<close> is a copy of a low band: the \<open>k\<close>-th below \<open>S\<close>, until the limit of bands that
  move the low band is reached. The scale is of the band's group.
\<close>

definition low_band :: "nat \<Rightarrow> nat \<Rightarrow> nat \<Rightarrow> nat" where
  "low_band S moving k = S - 1 - min k moving"

definition hfr_copy :: "'f float_ops \<Rightarrow> bytes \<Rightarrow> nat \<Rightarrow> nat \<Rightarrow> nat \<Rightarrow> nat \<Rightarrow> 'f list \<Rightarrow> nat \<Rightarrow> 'f" where
  "hfr_copy F sfs hfr B S moving row k =
     f_mul F (f_of_bits F (hcadecoderScaleConversionTableHex !
         nat (uint (sfs ! (128 - hfr + k div B)) - uint (sfs ! low_band S moving k) + 63)))
       (row ! low_band S moving k)"

definition hfr_row :: "'f float_ops \<Rightarrow> bytes \<Rightarrow> nat \<Rightarrow> nat \<Rightarrow> nat \<Rightarrow> nat \<Rightarrow> 'f list \<Rightarrow> nat \<Rightarrow> 'f list" where
  "hfr_row F sfs hfr B S moving row k =
     map (\<lambda>b. if S \<le> b \<and> b < S + k then hfr_copy F sfs hfr B S moving row (b - S) else row ! b) [0..<128]"

lemma hfr_row_Suc:
  assumes "S + k < 128"
  shows "(hfr_row F sfs hfr B S moving row k)[S + k := hfr_copy F sfs hfr B S moving row k] =
    hfr_row F sfs hfr B S moving row (Suc k)"
  using assms by (intro nth_equalityI) (auto simp: hfr_row_def nth_list_update)

text \<open>The channel with the first \<open>k\<close> high bands filled in.\<close>

definition hfr_chan :: "'f float_ops \<Rightarrow> nat \<Rightarrow> nat \<Rightarrow> nat \<Rightarrow> nat \<Rightarrow> nat \<Rightarrow> 'f stChannel \<Rightarrow> nat \<Rightarrow> 'f stChannel" where
  "hfr_chan F hfr B S moving subframe c k =
     c\<lparr>ch_spectra := (ch_spectra c)[subframe :=
       hfr_row F (ch_scaleFactors c) hfr B S moving (ch_spectra c ! subframe) k]\<rparr>"

lemma hfr_step_ok:
  fixes c :: "'f stChannel"
  assumes c: "channel_shape c" and sub: "subframe < 8" and S: "1 \<le> S" "S + k < 128"
    and hfr: "hfr \<le> 128" "k div B < hfr"
    and low: "unat (lowband :: u64) = low_band S moving k" and high: "highband = of_nat (S + k)"
  shows "hfr_step F subframe (ch_scaleFactors c ! (128 - hfr + k div B)) step
      (highband, lowband, hfr_chan F hfr B S moving subframe c k) =
    Inr (of_nat (S + Suc k), lowband - step, hfr_chan F hfr B S moving subframe c (Suc k))"
proof -
  let ?row = "ch_spectra c ! subframe"
  have len: "length (ch_scaleFactors c) = 128" "length (ch_spectra c) = 8"
    "length (hfr_row F (ch_scaleFactors c) hfr B S moving ?row k) = 128" using c by (simp_all add: channel_shape_def hfr_row_def)
  have sf: "uint (ch_scaleFactors c ! x) < 64" if "x < 128" for x
    using c that by (auto simp: channel_shape_def word_less_def)
  have l: "low_band S moving k < S" "low_band S moving k < 128" using S by (auto simp: low_band_def)
  have g: "128 - hfr + k div B < 128" using hfr by linarith
  have "uint (ch_scaleFactors c ! (128 - hfr + k div B)) - uint (ch_scaleFactors c ! low_band S moving k) + 63 < 128"
    using sf [OF g] uint_ge_0 [of "ch_scaleFactors c ! low_band S moving k"] by linarith
  note conv = scale_conversion_ok [OF this, of F]
  have hi: "unat highband = S + k" using S(2) unfolding high by (subst unat_of_nat) simp
  have "hfr_row F (ch_scaleFactors c) hfr B S moving ?row k ! low_band S moving k = ?row ! low_band S moving k"
    using l by (simp add: hfr_row_def)
  moreover have next_band: "of_nat (S + Suc k) = highband + 1" by (simp add: high)
  ultimately show ?thesis
    unfolding next_band using len l conv sub S(2) hfr_row_Suc [OF S(2), of F "ch_scaleFactors c" hfr B moving ?row]
    by (simp add: hfr_step_def hfr_chan_def arr_get_def arr_put_def get_spectrum_def put_spectrum_def low hi hfr_copy_def Let_def)
qed

text \<open>
  The place of the low band before copy \<open>k\<close>, as the word the code keeps: it may pass 0 once,
  after the last copy.
\<close>

definition low_word :: "nat \<Rightarrow> nat \<Rightarrow> nat \<Rightarrow> u64" where
  "low_word S moving k = of_nat S - 1 - of_nat (min k moving)"

lemma unat_low_word:
  assumes "k < S" and "S \<le> 128"
  shows "unat (low_word S moving k) = low_band S moving k"
proof -
  have "low_word S moving k = of_nat (S - 1 - min k moving)"
    using assms(1) by (simp add: low_word_def of_nat_diff)
  then show ?thesis using assms(2) by (simp add: low_band_def unat_of_nat)
qed

lemma hfr_bands_ok:
  fixes c :: "'f stChannel"
  assumes c: "channel_shape c" and sub: "subframe < 8" and S: "1 \<le> S" "S \<le> T" "T \<le> 128" "T \<le> 2 * S"
    and hfr: "hfr \<le> 128" "g < hfr" and B: "0 < B" and k: "g * B \<le> k" "k + n \<le> Suc g * B"
    and moving: "moving = limit * B"
  shows "hfr_bands F subframe (of_nat T) (ch_scaleFactors c ! (128 - hfr + g)) (if g \<ge> limit then 0 else 1) n
      (of_nat (S + min k (T - S)), low_word S moving (min k (T - S)),
       hfr_chan F hfr B S moving subframe c (min k (T - S))) =
    Inr (of_nat (S + min (k + n) (T - S)), low_word S moving (min (k + n) (T - S)),
         hfr_chan F hfr B S moving subframe c (min (k + n) (T - S)))"
  using k
proof (induction n arbitrary: k)
  case 0
  then show ?case by simp
next
  case (Suc n)
  show ?case
  proof (cases "k < T - S")
    case False
    then have "min k (T - S) = T - S" "min (k + Suc n) (T - S) = T - S" "S + (T - S) = T" using S(2) by simp_all
    then show ?thesis by (simp del: of_nat_add)
  next
    case True
    have g: "k div B = g" using Suc.prems B by (intro div_nat_eqI) (simp_all add: mult.commute)
    have m: "min k (T - S) = k" "min (Suc k) (T - S) = Suc k" using True by simp_all
    have less: "\<not> (of_nat (S + k) :: u64) \<ge> of_nat T"
      using True S unfolding word_le_nat_alt by (subst (1 2) unat_of_nat) simp
    have next_low: "low_word S moving k - (if g \<ge> limit then 0 else 1) = low_word S moving (Suc k)"
    proof (cases "g \<ge> limit")
      case True
      then have "moving \<le> k" using Suc.prems(1) moving by (meson le_trans mult_le_mono1)
      with True show ?thesis by (simp add: low_word_def)
    next
      case False
      then have "Suc g * B \<le> moving" unfolding moving by (intro mult_le_mono1) simp
      then have "Suc k \<le> moving" using Suc.prems(2) by linarith
      with False show ?thesis by (simp add: low_word_def min_def)
    qed
    have "hfr_step F subframe (ch_scaleFactors c ! (128 - hfr + g)) (if g \<ge> limit then 0 else 1)
        (of_nat (S + k), low_word S moving k, hfr_chan F hfr B S moving subframe c k) =
      Inr (of_nat (S + Suc k), low_word S moving (Suc k), hfr_chan F hfr B S moving subframe c (Suc k))"
      using hfr_step_ok [OF c sub S(1), of k hfr B "low_word S moving k" moving "of_nat (S + k)" F "if g \<ge> limit then 0 else 1"]
        unat_low_word [of k S moving] True S hfr g next_low by simp
    then show ?thesis
      using Suc.IH [of "Suc k"] Suc.prems m less by simp
  qed
qed

lemma ceil_groups:
  assumes "unat a \<le> 128" and "0 < unat b"
  shows "unat (headerCeil2 a b) \<le> 128" "unat a \<le> unat (headerCeil2 a b) * unat b"
proof -
  let ?q = "unat a div unat b" and ?m = "unat a mod unat b"
  have b: "\<not> b < 1" using assms(2) by (simp add: word_less_nat_alt)
  have q: "?q * unat b + ?m = unat a" by simp
  have "?q \<le> unat a" by (rule div_le_dividend)
  then have "?q \<le> 128" using assms(1) by linarith
  then have "unat (a div b + 1) = ?q + 1" by (simp add: unat_word_ariths unat_div_distrib)
  moreover have "a mod b = 0 \<longleftrightarrow> ?m = 0" by (simp add: word_unat_eq_iff unat_mod_distrib)
  ultimately have h: "unat (headerCeil2 a b) = ?q + (if ?m = 0 then 0 else 1)"
    using b by (simp add: headerCeil2_def Let_def unat_div_distrib)
  have "?q + 1 \<le> unat a" if "?m \<noteq> 0"
  proof -
    have "?q * 1 \<le> ?q * unat b" using assms(2) by (intro mult_le_mono) simp_all
    then show ?thesis using that q by linarith
  qed
  then show "unat (headerCeil2 a b) \<le> 128" using assms(1) h \<open>?q \<le> 128\<close> by (auto split: if_splits)
  have "?m < unat b" using assms(2) by simp
  then have "unat a \<le> (?q + 1) * unat b" using q by (simp only: add_mult_distrib)
  then show "unat a \<le> unat (headerCeil2 a b) * unat b" using h q by (cases "?m = 0") simp_all
qed

lemma hfr_groups_ok:
  fixes c :: "'f stChannel"
  assumes c: "channel_shape c" and sub: "subframe < 8" and S: "1 \<le> S" "S \<le> T" "T \<le> 128" "T \<le> 2 * S"
    and H: "unat hfr \<le> 128" and B: "0 < unat B" and limit: "unat lim = limit"
  shows "forR (unat hfr) 0 (hfr_group F subframe hfr B (of_nat T) lim)
      (of_nat S, of_nat S - 1, hfr_chan F (unat hfr) (unat B) S (limit * unat B) subframe c 0) =
    Inr (of_nat (S + min (unat hfr * unat B) (T - S)),
         low_word S (limit * unat B) (min (unat hfr * unat B) (T - S)),
         hfr_chan F (unat hfr) (unat B) S (limit * unat B) subframe c (min (unat hfr * unat B) (T - S)))"
proof -
  let ?B = "unat B" and ?H = "unat hfr"
  let ?s = "\<lambda>g. (of_nat (S + min (g * ?B) (T - S)) :: u64, low_word S (limit * ?B) (min (g * ?B) (T - S)),
      hfr_chan F ?H ?B S (limit * ?B) subframe c (min (g * ?B) (T - S)))"
  have "\<exists>s. forR ?H 0 (hfr_group F subframe hfr B (of_nat T) lim)
      (of_nat S, of_nat S - 1, hfr_chan F ?H ?B S (limit * ?B) subframe c 0) = Inr s \<and> s = ?s (0 + ?H)"
  proof (rule forR_induct [where P = "\<lambda>g s. s = ?s g"])
    show "(of_nat S, of_nat S - 1, hfr_chan F ?H ?B S (limit * ?B) subframe c 0) = ?s 0"
      by (simp add: low_word_def)
  next
    fix g s assume g: "0 \<le> g" "g < 0 + ?H" and s: "s = ?s g"
    have start: "unat (128 - hfr) = 128 - ?H" using H by (subst unat_sub) (simp_all add: word_le_nat_alt)
    have len: "length (ch_scaleFactors c) = 128" using c by (simp add: channel_shape_def)
    have scale: "arr_get (drop (unat (128 - hfr)) (ch_scaleFactors (snd (snd s)))) g = Inr (ch_scaleFactors c ! (128 - ?H + g))"
      using g H len by (simp add: s arr_get_def start hfr_chan_def)
    have "of_nat g \<ge> lim \<longleftrightarrow> g \<ge> limit"
      using g H limit by (simp add: word_le_nat_alt unat_of_nat)
    then show "\<exists>t. hfr_group F subframe hfr B (of_nat T) lim g s = Inr t \<and> t = ?s (Suc g)"
      using hfr_bands_ok [OF c sub S H, where g = g and B = ?B and k = "g * ?B" and n = ?B and limit = limit and F = F and moving = "limit * ?B"]
        g B by (cases "limit \<le> g") (simp_all add: hfr_group_def scale, simp_all add: s add.commute)
  qed
  then show ?thesis by simp
qed

text \<open>When the high bands can be filled from the low ones.\<close>

definition hfr_fits :: "u64 \<Rightarrow> u64 \<Rightarrow> u64 \<Rightarrow> bool" where
  "hfr_fits stereoBandCount baseBandCount totalBandCount \<longleftrightarrow>
     1 \<le> unat stereoBandCount + unat baseBandCount \<and>
     unat stereoBandCount + unat baseBandCount \<le> unat totalBandCount \<and> unat totalBandCount \<le> 128 \<and>
     unat totalBandCount \<le> 2 * (unat stereoBandCount + unat baseBandCount)"

text \<open>The number of groups whose copies move the low band.\<close>

definition moving_groups :: "u64 \<Rightarrow> u64 \<Rightarrow> nat" where
  "moving_groups version hfr = (if version \<le> 0x0200 then unat hfr else unat hfr div 2)"

lemma hfr_result:
  fixes c :: "'f stChannel"
  assumes c: "channel_shape c" and sub: "subframe < 8" and type: "ch_channelType c \<noteq> stereoSecondary"
    and fits: "hfr_fits stereo base tot" and B: "bands \<noteq> 0"
  defines "hfr \<equiv> headerCeil2 (tot - base - stereo) bands"
  defines "S \<equiv> unat stereo + unat base"
  shows "reconstructHighFrequency F hfr bands stereo base tot version subframe c =
    Inr (c\<lparr>ch_spectra := (ch_spectra c)[subframe :=
      (hfr_row F (ch_scaleFactors c) (unat hfr) (unat bands) S (moving_groups version hfr * unat bands) (ch_spectra c ! subframe)
        (unat tot - S))[unat tot - 1 := f_of_int F 0]]\<rparr>)"
proof -
  let ?T = "unat tot"
  define limit where "limit = moving_groups version hfr"
  have S: "1 \<le> S" "S \<le> ?T" "?T \<le> 128" "?T \<le> 2 * S" using fits by (simp_all add: hfr_fits_def S_def)
  have start: "stereo + base = of_nat S" by (simp add: S_def)
  have B0: "0 < unat bands" using B by (simp add: unat_gt_0)
  have "tot - base - stereo = of_nat (?T - S)"
    using S(2) by (simp add: of_nat_diff S_def algebra_simps)
  then have x: "unat (tot - base - stereo) = ?T - S" using S(3) by (simp add: unat_of_nat)
  have H: "unat hfr \<le> 128" "?T - S \<le> unat hfr * unat bands"
    using ceil_groups [of "tot - base - stereo" bands] x S(3) B0 by (simp_all add: hfr_def)
  have "uint hfr < 2 ^ 63" using H(1) nat_less_iff [of "uint hfr" "2 ^ 63"] by simp
  then have sint: "sint hfr \<ge> 0" by (simp add: sint_small)
  have "unat (group_limit version hfr) = limit"
    using sint unat_drop_bit_eq [of 1 hfr]
    by (simp add: group_limit_def limit_def moving_groups_def drop_bit_eq_div unat_div_distrib)
  note loop = hfr_groups_ok [OF c sub S H(1) B0 this, of F]
  have zero: "hfr_chan F (unat hfr) (unat bands) S (limit * unat bands) subframe c 0 = c"
  proof -
    have "length (ch_spectra c ! subframe) = 128" using c sub by (auto simp: channel_shape_def)
    then have "hfr_row F (ch_scaleFactors c) (unat hfr) (unat bands) S (limit * unat bands) (ch_spectra c ! subframe) 0 =
        ch_spectra c ! subframe" by (intro nth_equalityI) (auto simp: hfr_row_def)
    then show ?thesis by (simp add: hfr_chan_def)
  qed
  have no_slice: "\<not> 128 < 128 - hfr" using H(1) by (simp add: word_less_nat_alt unat_sub word_le_nat_alt)
  have m: "min (unat hfr * unat bands) (?T - S) = ?T - S" "S + (?T - S) = ?T" using H(2) S(2) by simp_all
  have last: "unat (tot - 1) = ?T - 1" using S by (subst unat_sub) (simp_all add: word_le_nat_alt)
  have "length (ch_spectra c) = 8" using c by (simp add: channel_shape_def)
  then show ?thesis
    using loop B type no_slice last sub S
    unfolding reconstructHighFrequency_def limit_def [symmetric] Let_def start zero m
    by (simp add: put_spectrum_def arr_get_def arr_put_def hfr_chan_def hfr_row_def)
qed

section \<open>What joint stereo does\<close>

lemma pair_loop:
  assumes "length l = 128" and "length r = 128" and "T \<le> 128"
  shows "forR (T - B) B (pair_step f) (l, r) =
    Inr (map (\<lambda>b. if B \<le> b \<and> b < T then fst (f (l ! b) (r ! b)) else l ! b) [0..<128],
         map (\<lambda>b. if B \<le> b \<and> b < T then snd (f (l ! b) (r ! b)) else r ! b) [0..<128])"
proof -
  let ?L = "\<lambda>n. map (\<lambda>b. if B \<le> b \<and> b < n then fst (f (l ! b) (r ! b)) else l ! b) [0..<128]"
  let ?R = "\<lambda>n. map (\<lambda>b. if B \<le> b \<and> b < n then snd (f (l ! b) (r ! b)) else r ! b) [0..<128]"
  have "\<exists>s. forR (T - B) B (pair_step f) (l, r) = Inr s \<and> s = (?L (B + (T - B)), ?R (B + (T - B)))"
  proof (rule forR_induct [where P = "\<lambda>n s. s = (?L n, ?R n)"])
    show "(l, r) = (?L B, ?R B)" using assms(1,2) by (auto intro!: nth_equalityI)
  next
    fix n s assume n: "B \<le> n" "n < B + (T - B)" and s: "s = (?L n, ?R n)"
    then have "n < 128" using assms(3) by simp
    then show "\<exists>t. pair_step f n s = Inr t \<and> t = (?L (Suc n), ?R (Suc n))"
      using n by (simp add: s pair_step_def arr_get_def arr_put_def)
        (intro conjI nth_equalityI; auto simp: nth_list_update)
  qed
  moreover have "(?L (B + (T - B)), ?R (B + (T - B))) = (?L T, ?R T)" by auto
  ultimately show ?thesis by simp
qed

definition stereo_row :: "nat \<Rightarrow> nat \<Rightarrow> ('f \<Rightarrow> 'f \<Rightarrow> 'f) \<Rightarrow> 'f list \<Rightarrow> 'f list \<Rightarrow> 'f list \<Rightarrow> 'f list" where
  "stereo_row B T f l r row = map (\<lambda>b. if B \<le> b \<and> b < T then f (l ! b) (r ! b) else row ! b) [0..<128]"

lemma on_pair_result:
  fixes chs :: "'f stChannel list"
  assumes "Suc k < length chs" and "channel_shape (chs ! k)" and "channel_shape (chs ! Suc k)"
    and "subframe < 8" and "unat T \<le> 128"
  defines "l \<equiv> ch_spectra (chs ! k) ! subframe" and "r \<equiv> ch_spectra (chs ! Suc k) ! subframe"
  shows "on_pair k subframe B T f chs = Inr (chs
    [k := (chs ! k)\<lparr>ch_spectra := (ch_spectra (chs ! k))[subframe := stereo_row (unat B) (unat T) (\<lambda>x y. fst (f x y)) l r l]\<rparr>,
     Suc k := (chs ! Suc k)\<lparr>ch_spectra := (ch_spectra (chs ! Suc k))[subframe := stereo_row (unat B) (unat T) (\<lambda>x y. snd (f x y)) l r r]\<rparr>])"
proof -
  have "length l = 128" "length r = 128" "length (ch_spectra (chs ! k)) = 8" "length (ch_spectra (chs ! Suc k)) = 8"
    using assms(2-4) by (auto simp: channel_shape_def l_def r_def)
  then show ?thesis
    using pair_loop [of l r "unat T" "unat B" f] assms(1,4,5)
    by (simp add: on_pair_def arr_get_def l_def [symmetric] r_def [symmetric] stereo_row_def)
qed

text \<open>A channel with another row of spectra.\<close>

definition with_row :: "'f stChannel \<Rightarrow> nat \<Rightarrow> 'f list \<Rightarrow> 'f stChannel" where
  "with_row c subframe row = c\<lparr>ch_spectra := (ch_spectra c)[subframe := row]\<rparr>"

lemma with_row_ok:
  "length row = 128 \<Longrightarrow> chan_ok t n c \<Longrightarrow> chan_ok t n (with_row c subframe row)"
  by (auto simp: with_row_def chan_ok_def channel_shape_def dest!: in_list_update)

lemma length_stereo_row [simp]: "length (stereo_row B T f l r row) = 128"
  by (simp add: stereo_row_def)

lemma intensity_ratio_ok:
  "i \<le> 15 \<Longrightarrow> arr_get hcadecoderIntensityRatioTableHex (unat (i :: u8)) =
    Inr (hcadecoderIntensityRatioTableHex ! unat i)"
  by (simp add: arr_get_def hcadecoderIntensityRatioTableHex_def word_le_nat_alt)

lemma hfr_bands_3:
  "hfr_bands F subframe tot scale step 3 s =
     (if fst s \<ge> tot \<or> fst (snd s) < 0 then Inr s
      else bindR (hfr_step F subframe scale step s) (hfr_bands F subframe tot scale step 2))"
  "hfr_bands F subframe tot scale step 2 s =
     (if fst s \<ge> tot \<or> fst (snd s) < 0 then Inr s
      else bindR (hfr_step F subframe scale step s) (hfr_bands F subframe tot scale step 1))"
  by (simp_all only: numeral_3_eq_3 numeral_2_eq_2 One_nat_def hfr_bands.simps)

section \<open>Properties\<close>

text \<open>
  C28: noise is made of valid bands. The resolutions of a channel are computed so that its noise
  bands (a scale, but no bits) and its valid bands are listed apart; then, whatever the random
  numbers and the spectra, reconstructing noise never leaves an array, overwrites exactly the
  noise bands, each with a valid band of the same row scaled by the distance of the two scale
  factors, and leaves every other band as it was.
\<close>

theorem noise_is_made_of_valid_bands:
  assumes c: "channel_shape c" and n: "unat (ch_codedCount c) \<le> 128" and "subframe < 8"
    and "length athCurve = 128" and "minResolution \<le> 15" and "maxResolution \<le> 15"
    and "length rows = 8" and "\<forall>row\<in>set rows. length row = 128"
  shows "\<exists>d. calculateResolution level athCurve minResolution maxResolution c = Inr d \<and>
    (\<exists>random' row'.
      reconstructNoise F minResolution msStereo subframe (random, d\<lparr>ch_spectra := rows\<rparr>) =
        Inr (random', d\<lparr>ch_spectra := rows[subframe := row']\<rparr>) \<and>
      noise_filled F
        (if minResolution = 0 \<and> valid_bands (unat (ch_codedCount c)) d \<noteq> [] \<and>
            (msStereo = 0 \<or> ch_channelType c = stereoPrimary)
         then set (noise_bands (unat (ch_codedCount c)) d) else {})
        (set (valid_bands (unat (ch_codedCount c)) d)) (ch_scaleFactors c) (rows ! subframe) row')"
proof -
  have ok: "chan_ok (ch_channelType c) (ch_codedCount c) c" using c by (simp add: chan_ok_def)
  have len: "length (ch_scaleFactors c) = 128" "length (ch_noises c) = 128" "length (ch_resolution c) = 128"
    using c by (simp_all add: channel_shape_def)
  from resolution_lists [OF len n assms(4)] obtain d where
    d: "calculateResolution level athCurve minResolution maxResolution c = Inr d" "bands_listed d"
      "d = c\<lparr>ch_noises := ch_noises d, ch_resolution := ch_resolution d,
        ch_noiseCount := ch_noiseCount d, ch_validCount := ch_validCount d\<rparr>"
    by blast
  have fields: "ch_codedCount d = ch_codedCount c" "ch_channelType d = ch_channelType c" "ch_scaleFactors d = ch_scaleFactors c"
    by (subst d(3), simp)+
  have "chan_ok (ch_channelType c) (ch_codedCount c) d"
    using calculateResolution_ok [OF ok assms(4-6) n, where p = level] d(1) by simp
  then have shape: "channel_shape (d\<lparr>ch_spectra := rows\<rparr>)" using assms(7,8) by (simp add: chan_ok_def channel_shape_def)
  have same: "noise_bands m (d\<lparr>ch_spectra := rows\<rparr>) = noise_bands m d" "valid_bands m (d\<lparr>ch_spectra := rows\<rparr>) = valid_bands m d" for m
    by (simp_all add: noise_bands_def valid_bands_def)
  then have listed: "bands_listed (d\<lparr>ch_spectra := rows\<rparr>)"
    using d(2) by (simp add: bands_listed_def lists_bands_def)
  have row: "ch_codedCount (d\<lparr>ch_spectra := rows\<rparr>) = ch_codedCount c"
    "ch_channelType (d\<lparr>ch_spectra := rows\<rparr>) = ch_channelType c" "ch_spectra (d\<lparr>ch_spectra := rows\<rparr>) = rows"
    "ch_scaleFactors (d\<lparr>ch_spectra := rows\<rparr>) = ch_scaleFactors c"
    "d\<lparr>ch_spectra := rows, ch_spectra := x\<rparr> = d\<lparr>ch_spectra := x\<rparr>" for x
    by (simp_all add: fields)
  show ?thesis
    using noise_result [OF shape listed _ assms(3), of F minResolution msStereo random, unfolded row same, OF n]
    by (intro exI [of _ d] conjI d(1))
qed

definition noisy_channel :: "nat stChannel" where
  "noisy_channel = (zeroChannel 0)\<lparr>ch_codedCount := 2, ch_scaleFactors := [63, 1] @ replicate 126 0\<rparr>"

lemma noise_is_made_of_valid_bands_witness:
  "\<exists>d random' row'. calculateResolution 0 (replicate 128 0xFF) 0 15 noisy_channel = Inr d \<and>
    reconstructNoise nat_ops 0 0 7 (1, d\<lparr>ch_spectra := replicate 8 (replicate 128 5)\<rparr>) =
      Inr (random', d\<lparr>ch_spectra := (replicate 8 (replicate 128 5))[7 := row']\<rparr>) \<and> length row' = 128"
proof -
  have shape: "channel_shape noisy_channel" by (simp add: noisy_channel_def zeroChannel_def channel_shape_def)
  have "unat (ch_codedCount noisy_channel) \<le> 128" by (simp add: noisy_channel_def)
  from noise_is_made_of_valid_bands [OF shape this, of 7 "replicate 128 0xFF" 0 15 "replicate 8 (replicate 128 5)" 0
      nat_ops 0 1] show ?thesis
    by (auto simp: noise_filled_def)
qed

text \<open>
  The high bands are copies of the low ones. Where there are no more high bands than low
  ones, filling them in never leaves an array: high band \<open>S + k\<close> becomes low band \<open>S - 1 - k\<close>
  (in versions above 2.0 the low band stays where it is after half of the groups), scaled by the
  distance from the scale of its group to that of the low band; the last high band is cleared,
  and the low bands are left as they were.
\<close>

theorem high_bands_copy_low_bands:
  fixes c :: "'f stChannel"
  assumes "channel_shape c" and "subframe < 8" and "ch_channelType c \<noteq> stereoSecondary"
    and "hfr_fits stereo base tot" and "bands \<noteq> 0"
  defines "hfr \<equiv> headerCeil2 (tot - base - stereo) bands"
  defines "S \<equiv> unat stereo + unat base"
  shows "\<exists>row. reconstructHighFrequency F hfr bands stereo base tot version subframe c =
      Inr (c\<lparr>ch_spectra := (ch_spectra c)[subframe := row]\<rparr>) \<and>
    (\<forall>b<128. row ! b =
      (if b = unat tot - 1 then f_of_int F 0
       else if S \<le> b \<and> b < unat tot then
         let low = S - 1 - min (b - S) (moving_groups version hfr * unat bands) in
         f_mul F (f_of_bits F (hcadecoderScaleConversionTableHex !
             nat (uint (ch_scaleFactors c ! (128 - unat hfr + (b - S) div unat bands)) - uint (ch_scaleFactors c ! low) + 63)))
           (ch_spectra c ! subframe ! low)
       else ch_spectra c ! subframe ! b))"
proof -
  have "S \<le> unat tot" "unat tot \<le> 128" using assms(4) by (simp_all add: hfr_fits_def S_def)
  note range = this
  show ?thesis
    unfolding hfr_result [OF assms(1-5), folded hfr_def S_def]
    by (intro exI conjI, rule HOL.refl)
      (use range in \<open>auto simp: hfr_row_def nth_list_update hfr_copy_def low_band_def Let_def\<close>)
qed

lemma high_bands_copy_low_bands_witness:
  "\<exists>row. reconstructHighFrequency nat_ops (headerCeil2 (4 - 3 - 0) 2) 2 0 3 4 0x0200 0 (zeroChannel 0) =
    Inr ((zeroChannel 0)\<lparr>ch_spectra := (ch_spectra (zeroChannel 0))[0 := row]\<rparr>) \<and> row ! 3 = 0"
proof -
  have "channel_shape (zeroChannel (0 :: nat))" by (simp add: zeroChannel_def channel_shape_def)
  from high_bands_copy_low_bands [OF this, of 0 0 3 4 2 nat_ops "0x0200"] show ?thesis
    by (auto simp: zeroChannel_def hfr_fits_def nat_ops_def)
qed

text \<open>
  With more high bands than low ones the guard \<open>lowband < 0\<close>, which no unsigned number
  meets, does not stop the copying: a channel of one low band and three high bands in one group
  panics, although the header of such a file is accepted.
\<close>

theorem high_bands_without_low_bands_panic:
  "reconstructHighFrequency F 1 3 0 1 4 0x0200 0 (zeroChannel z) = Inl (Panic ''index out of range'') \<and>
   headerCeil2 (4 - 1 - 0) 3 = (1 :: u64)"
  by (simp add: reconstructHighFrequency_def hfr_group_def hfr_step_def scale_conversion_def arr_get_def arr_put_def
      get_spectrum_def put_spectrum_def zeroChannel_def group_limit_def headerCeil2_def Let_def
      hfr_bands_3 word_le_nat_alt hcadecoderScaleConversionTableHex_def)

end
