(* ===== verification/HcaImdct.thy ===== *)
theory HcaImdct
  imports HcaFrame
begin

text \<open>
  The inverse transform of \<open>internal/cricodecs/hca/clhcaimdct.go\<close>.

  The code works in place, with running indices and two buffers that change roles; the reference
  is recursive: a Walsh-Hadamard transform (each half from the sums and the differences of
  neighbours), then rotations that merge halves into wholes, then the window and the overlap with
  the previous subframe. Each product and sum is an operation of its own, as Go compiles them
  for amd64.
\<close>

section \<open>Tables\<close>

definition sinTablesHex :: "u32 list list" where
  "sinTablesHex = [
    [0x3DA73D75, 0x3DA73D75, 0x3DA73D75, 0x3DA73D75, 0x3DA73D75, 0x3DA73D75, 0x3DA73D75, 0x3DA73D75,
     0x3DA73D75, 0x3DA73D75, 0x3DA73D75, 0x3DA73D75, 0x3DA73D75, 0x3DA73D75, 0x3DA73D75, 0x3DA73D75,
     0x3DA73D75, 0x3DA73D75, 0x3DA73D75, 0x3DA73D75, 0x3DA73D75, 0x3DA73D75, 0x3DA73D75, 0x3DA73D75,
     0x3DA73D75, 0x3DA73D75, 0x3DA73D75, 0x3DA73D75, 0x3DA73D75, 0x3DA73D75, 0x3DA73D75, 0x3DA73D75,
     0x3DA73D75, 0x3DA73D75, 0x3DA73D75, 0x3DA73D75, 0x3DA73D75, 0x3DA73D75, 0x3DA73D75, 0x3DA73D75,
     0x3DA73D75, 0x3DA73D75, 0x3DA73D75, 0x3DA73D75, 0x3DA73D75, 0x3DA73D75, 0x3DA73D75, 0x3DA73D75,
     0x3DA73D75, 0x3DA73D75, 0x3DA73D75, 0x3DA73D75, 0x3DA73D75, 0x3DA73D75, 0x3DA73D75, 0x3DA73D75,
     0x3DA73D75, 0x3DA73D75, 0x3DA73D75, 0x3DA73D75, 0x3DA73D75, 0x3DA73D75, 0x3DA73D75, 0x3DA73D75],
    [0x3F7B14BE, 0x3F54DB31, 0x3F7B14BE, 0x3F54DB31, 0x3F7B14BE, 0x3F54DB31, 0x3F7B14BE, 0x3F54DB31,
     0x3F7B14BE, 0x3F54DB31, 0x3F7B14BE, 0x3F54DB31, 0x3F7B14BE, 0x3F54DB31, 0x3F7B14BE, 0x3F54DB31,
     0x3F7B14BE, 0x3F54DB31, 0x3F7B14BE, 0x3F54DB31, 0x3F7B14BE, 0x3F54DB31, 0x3F7B14BE, 0x3F54DB31,
     0x3F7B14BE, 0x3F54DB31, 0x3F7B14BE, 0x3F54DB31, 0x3F7B14BE, 0x3F54DB31, 0x3F7B14BE, 0x3F54DB31,
     0x3F7B14BE, 0x3F54DB31, 0x3F7B14BE, 0x3F54DB31, 0x3F7B14BE, 0x3F54DB31, 0x3F7B14BE, 0x3F54DB31,
     0x3F7B14BE, 0x3F54DB31, 0x3F7B14BE, 0x3F54DB31, 0x3F7B14BE, 0x3F54DB31, 0x3F7B14BE, 0x3F54DB31,
     0x3F7B14BE, 0x3F54DB31, 0x3F7B14BE, 0x3F54DB31, 0x3F7B14BE, 0x3F54DB31, 0x3F7B14BE, 0x3F54DB31,
     0x3F7B14BE, 0x3F54DB31, 0x3F7B14BE, 0x3F54DB31, 0x3F7B14BE, 0x3F54DB31, 0x3F7B14BE, 0x3F54DB31],
    [0x3F7EC46D, 0x3F74FA0B, 0x3F61C598, 0x3F45E403, 0x3F7EC46D, 0x3F74FA0B, 0x3F61C598, 0x3F45E403,
     0x3F7EC46D, 0x3F74FA0B, 0x3F61C598, 0x3F45E403, 0x3F7EC46D, 0x3F74FA0B, 0x3F61C598, 0x3F45E403,
     0x3F7EC46D, 0x3F74FA0B, 0x3F61C598, 0x3F45E403, 0x3F7EC46D, 0x3F74FA0B, 0x3F61C598, 0x3F45E403,
     0x3F7EC46D, 0x3F74FA0B, 0x3F61C598, 0x3F45E403, 0x3F7EC46D, 0x3F74FA0B, 0x3F61C598, 0x3F45E403,
     0x3F7EC46D, 0x3F74FA0B, 0x3F61C598, 0x3F45E403, 0x3F7EC46D, 0x3F74FA0B, 0x3F61C598, 0x3F45E403,
     0x3F7EC46D, 0x3F74FA0B, 0x3F61C598, 0x3F45E403, 0x3F7EC46D, 0x3F74FA0B, 0x3F61C598, 0x3F45E403,
     0x3F7EC46D, 0x3F74FA0B, 0x3F61C598, 0x3F45E403, 0x3F7EC46D, 0x3F74FA0B, 0x3F61C598, 0x3F45E403,
     0x3F7EC46D, 0x3F74FA0B, 0x3F61C598, 0x3F45E403, 0x3F7EC46D, 0x3F74FA0B, 0x3F61C598, 0x3F45E403],
    [0x3F7FB10F, 0x3F7D3AAC, 0x3F7853F8, 0x3F710908, 0x3F676BD8, 0x3F5B941A, 0x3F4D9F02, 0x3F3DAEF9,
     0x3F7FB10F, 0x3F7D3AAC, 0x3F7853F8, 0x3F710908, 0x3F676BD8, 0x3F5B941A, 0x3F4D9F02, 0x3F3DAEF9,
     0x3F7FB10F, 0x3F7D3AAC, 0x3F7853F8, 0x3F710908, 0x3F676BD8, 0x3F5B941A, 0x3F4D9F02, 0x3F3DAEF9,
     0x3F7FB10F, 0x3F7D3AAC, 0x3F7853F8, 0x3F710908, 0x3F676BD8, 0x3F5B941A, 0x3F4D9F02, 0x3F3DAEF9,
     0x3F7FB10F, 0x3F7D3AAC, 0x3F7853F8, 0x3F710908, 0x3F676BD8, 0x3F5B941A, 0x3F4D9F02, 0x3F3DAEF9,
     0x3F7FB10F, 0x3F7D3AAC, 0x3F7853F8, 0x3F710908, 0x3F676BD8, 0x3F5B941A, 0x3F4D9F02, 0x3F3DAEF9,
     0x3F7FB10F, 0x3F7D3AAC, 0x3F7853F8, 0x3F710908, 0x3F676BD8, 0x3F5B941A, 0x3F4D9F02, 0x3F3DAEF9,
     0x3F7FB10F, 0x3F7D3AAC, 0x3F7853F8, 0x3F710908, 0x3F676BD8, 0x3F5B941A, 0x3F4D9F02, 0x3F3DAEF9],
    [0x3F7FEC43, 0x3F7F4E6D, 0x3F7E1324, 0x3F7C3B28, 0x3F79C79D, 0x3F76BA07, 0x3F731447, 0x3F6ED89E,
     0x3F6A09A7, 0x3F64AA59, 0x3F5EBE05, 0x3F584853, 0x3F514D3D, 0x3F49D112, 0x3F41D870, 0x3F396842,
     0x3F7FEC43, 0x3F7F4E6D, 0x3F7E1324, 0x3F7C3B28, 0x3F79C79D, 0x3F76BA07, 0x3F731447, 0x3F6ED89E,
     0x3F6A09A7, 0x3F64AA59, 0x3F5EBE05, 0x3F584853, 0x3F514D3D, 0x3F49D112, 0x3F41D870, 0x3F396842,
     0x3F7FEC43, 0x3F7F4E6D, 0x3F7E1324, 0x3F7C3B28, 0x3F79C79D, 0x3F76BA07, 0x3F731447, 0x3F6ED89E,
     0x3F6A09A7, 0x3F64AA59, 0x3F5EBE05, 0x3F584853, 0x3F514D3D, 0x3F49D112, 0x3F41D870, 0x3F396842,
     0x3F7FEC43, 0x3F7F4E6D, 0x3F7E1324, 0x3F7C3B28, 0x3F79C79D, 0x3F76BA07, 0x3F731447, 0x3F6ED89E,
     0x3F6A09A7, 0x3F64AA59, 0x3F5EBE05, 0x3F584853, 0x3F514D3D, 0x3F49D112, 0x3F41D870, 0x3F396842],
    [0x3F7FFB11, 0x3F7FD397, 0x3F7F84AB, 0x3F7F0E58, 0x3F7E70B0, 0x3F7DABCC, 0x3F7CBFC9, 0x3F7BACCD,
     0x3F7A7302, 0x3F791298, 0x3F778BC5, 0x3F75DEC6, 0x3F740BDD, 0x3F721352, 0x3F6FF573, 0x3F6DB293,
     0x3F6B4B0C, 0x3F68BF3C, 0x3F660F88, 0x3F633C5A, 0x3F604621, 0x3F5D2D53, 0x3F59F26A, 0x3F5695E5,
     0x3F531849, 0x3F4F7A1F, 0x3F4BBBF8, 0x3F47DE65, 0x3F43E200, 0x3F3FC767, 0x3F3B8F3B, 0x3F373A23,
     0x3F7FFB11, 0x3F7FD397, 0x3F7F84AB, 0x3F7F0E58, 0x3F7E70B0, 0x3F7DABCC, 0x3F7CBFC9, 0x3F7BACCD,
     0x3F7A7302, 0x3F791298, 0x3F778BC5, 0x3F75DEC6, 0x3F740BDD, 0x3F721352, 0x3F6FF573, 0x3F6DB293,
     0x3F6B4B0C, 0x3F68BF3C, 0x3F660F88, 0x3F633C5A, 0x3F604621, 0x3F5D2D53, 0x3F59F26A, 0x3F5695E5,
     0x3F531849, 0x3F4F7A1F, 0x3F4BBBF8, 0x3F47DE65, 0x3F43E200, 0x3F3FC767, 0x3F3B8F3B, 0x3F373A23],
    [0x3F7FFEC4, 0x3F7FF4E6, 0x3F7FE129, 0x3F7FC38F, 0x3F7F9C18, 0x3F7F6AC7, 0x3F7F2F9D, 0x3F7EEA9D,
     0x3F7E9BC9, 0x3F7E4323, 0x3F7DE0B1, 0x3F7D7474, 0x3F7CFE73, 0x3F7C7EB0, 0x3F7BF531, 0x3F7B61FC,
     0x3F7AC516, 0x3F7A1E84, 0x3F796E4E, 0x3F78B47B, 0x3F77F110, 0x3F772417, 0x3F764D97, 0x3F756D97,
     0x3F748422, 0x3F73913F, 0x3F7294F8, 0x3F718F57, 0x3F708066, 0x3F6F6830, 0x3F6E46BE, 0x3F6D1C1D,
     0x3F6BE858, 0x3F6AAB7B, 0x3F696591, 0x3F6816A8, 0x3F66BECC, 0x3F655E0B, 0x3F63F473, 0x3F628210,
     0x3F6106F2, 0x3F5F8327, 0x3F5DF6BE, 0x3F5C61C7, 0x3F5AC450, 0x3F591E6A, 0x3F577026, 0x3F55B993,
     0x3F53FAC3, 0x3F5233C6, 0x3F5064AF, 0x3F4E8D90, 0x3F4CAE79, 0x3F4AC77F, 0x3F48D8B3, 0x3F46E22A,
     0x3F44E3F5, 0x3F42DE29, 0x3F40D0DA, 0x3F3EBC1B, 0x3F3CA003, 0x3F3A7CA4, 0x3F385216, 0x3F36206C]]"

definition cosTablesHex :: "u32 list list" where
  "cosTablesHex = [
    [0xBD0A8BD4, 0x3D0A8BD4, 0x3D0A8BD4, 0xBD0A8BD4, 0x3D0A8BD4, 0xBD0A8BD4, 0xBD0A8BD4, 0x3D0A8BD4,
     0x3D0A8BD4, 0xBD0A8BD4, 0xBD0A8BD4, 0x3D0A8BD4, 0xBD0A8BD4, 0x3D0A8BD4, 0x3D0A8BD4, 0xBD0A8BD4,
     0x3D0A8BD4, 0xBD0A8BD4, 0xBD0A8BD4, 0x3D0A8BD4, 0xBD0A8BD4, 0x3D0A8BD4, 0x3D0A8BD4, 0xBD0A8BD4,
     0xBD0A8BD4, 0x3D0A8BD4, 0x3D0A8BD4, 0xBD0A8BD4, 0x3D0A8BD4, 0xBD0A8BD4, 0xBD0A8BD4, 0x3D0A8BD4,
     0x3D0A8BD4, 0xBD0A8BD4, 0xBD0A8BD4, 0x3D0A8BD4, 0xBD0A8BD4, 0x3D0A8BD4, 0x3D0A8BD4, 0xBD0A8BD4,
     0xBD0A8BD4, 0x3D0A8BD4, 0x3D0A8BD4, 0xBD0A8BD4, 0x3D0A8BD4, 0xBD0A8BD4, 0xBD0A8BD4, 0x3D0A8BD4,
     0xBD0A8BD4, 0x3D0A8BD4, 0x3D0A8BD4, 0xBD0A8BD4, 0x3D0A8BD4, 0xBD0A8BD4, 0xBD0A8BD4, 0x3D0A8BD4,
     0x3D0A8BD4, 0xBD0A8BD4, 0xBD0A8BD4, 0x3D0A8BD4, 0xBD0A8BD4, 0x3D0A8BD4, 0x3D0A8BD4, 0xBD0A8BD4],
    [0xBE47C5C2, 0xBF0E39DA, 0x3E47C5C2, 0x3F0E39DA, 0x3E47C5C2, 0x3F0E39DA, 0xBE47C5C2, 0xBF0E39DA,
     0x3E47C5C2, 0x3F0E39DA, 0xBE47C5C2, 0xBF0E39DA, 0xBE47C5C2, 0xBF0E39DA, 0x3E47C5C2, 0x3F0E39DA,
     0x3E47C5C2, 0x3F0E39DA, 0xBE47C5C2, 0xBF0E39DA, 0xBE47C5C2, 0xBF0E39DA, 0x3E47C5C2, 0x3F0E39DA,
     0xBE47C5C2, 0xBF0E39DA, 0x3E47C5C2, 0x3F0E39DA, 0x3E47C5C2, 0x3F0E39DA, 0xBE47C5C2, 0xBF0E39DA,
     0x3E47C5C2, 0x3F0E39DA, 0xBE47C5C2, 0xBF0E39DA, 0xBE47C5C2, 0xBF0E39DA, 0x3E47C5C2, 0x3F0E39DA,
     0xBE47C5C2, 0xBF0E39DA, 0x3E47C5C2, 0x3F0E39DA, 0x3E47C5C2, 0x3F0E39DA, 0xBE47C5C2, 0xBF0E39DA,
     0xBE47C5C2, 0xBF0E39DA, 0x3E47C5C2, 0x3F0E39DA, 0x3E47C5C2, 0x3F0E39DA, 0xBE47C5C2, 0xBF0E39DA,
     0x3E47C5C2, 0x3F0E39DA, 0xBE47C5C2, 0xBF0E39DA, 0xBE47C5C2, 0xBF0E39DA, 0x3E47C5C2, 0x3F0E39DA],
    [0xBDC8BD36, 0xBE94A031, 0xBEF15AEA, 0xBF226799, 0x3DC8BD36, 0x3E94A031, 0x3EF15AEA, 0x3F226799,
     0x3DC8BD36, 0x3E94A031, 0x3EF15AEA, 0x3F226799, 0xBDC8BD36, 0xBE94A031, 0xBEF15AEA, 0xBF226799,
     0x3DC8BD36, 0x3E94A031, 0x3EF15AEA, 0x3F226799, 0xBDC8BD36, 0xBE94A031, 0xBEF15AEA, 0xBF226799,
     0xBDC8BD36, 0xBE94A031, 0xBEF15AEA, 0xBF226799, 0x3DC8BD36, 0x3E94A031, 0x3EF15AEA, 0x3F226799,
     0x3DC8BD36, 0x3E94A031, 0x3EF15AEA, 0x3F226799, 0xBDC8BD36, 0xBE94A031, 0xBEF15AEA, 0xBF226799,
     0xBDC8BD36, 0xBE94A031, 0xBEF15AEA, 0xBF226799, 0x3DC8BD36, 0x3E94A031, 0x3EF15AEA, 0x3F226799,
     0xBDC8BD36, 0xBE94A031, 0xBEF15AEA, 0xBF226799, 0x3DC8BD36, 0x3E94A031, 0x3EF15AEA, 0x3F226799,
     0x3DC8BD36, 0x3E94A031, 0x3EF15AEA, 0x3F226799, 0xBDC8BD36, 0xBE94A031, 0xBEF15AEA, 0xBF226799],
    [0xBD48FB30, 0xBE164083, 0xBE78CFCC, 0xBEAC7CD4, 0xBEDAE880, 0xBF039C3D, 0xBF187FC0, 0xBF2BEB4A,
     0x3D48FB30, 0x3E164083, 0x3E78CFCC, 0x3EAC7CD4, 0x3EDAE880, 0x3F039C3D, 0x3F187FC0, 0x3F2BEB4A,
     0x3D48FB30, 0x3E164083, 0x3E78CFCC, 0x3EAC7CD4, 0x3EDAE880, 0x3F039C3D, 0x3F187FC0, 0x3F2BEB4A,
     0xBD48FB30, 0xBE164083, 0xBE78CFCC, 0xBEAC7CD4, 0xBEDAE880, 0xBF039C3D, 0xBF187FC0, 0xBF2BEB4A,
     0x3D48FB30, 0x3E164083, 0x3E78CFCC, 0x3EAC7CD4, 0x3EDAE880, 0x3F039C3D, 0x3F187FC0, 0x3F2BEB4A,
     0xBD48FB30, 0xBE164083, 0xBE78CFCC, 0xBEAC7CD4, 0xBEDAE880, 0xBF039C3D, 0xBF187FC0, 0xBF2BEB4A,
     0xBD48FB30, 0xBE164083, 0xBE78CFCC, 0xBEAC7CD4, 0xBEDAE880, 0xBF039C3D, 0xBF187FC0, 0xBF2BEB4A,
     0x3D48FB30, 0x3E164083, 0x3E78CFCC, 0x3EAC7CD4, 0x3EDAE880, 0x3F039C3D, 0x3F187FC0, 0x3F2BEB4A],
    [0xBCC90AB0, 0xBD96A905, 0xBDFAB273, 0xBE2F10A2, 0xBE605C13, 0xBE888E93, 0xBEA09AE5, 0xBEB8442A,
     0xBECF7BCA, 0xBEE63375, 0xBEFC5D27, 0xBF08F59B, 0xBF13682A, 0xBF1D7FD1, 0xBF273656, 0xBF3085BB,
     0x3CC90AB0, 0x3D96A905, 0x3DFAB273, 0x3E2F10A2, 0x3E605C13, 0x3E888E93, 0x3EA09AE5, 0x3EB8442A,
     0x3ECF7BCA, 0x3EE63375, 0x3EFC5D27, 0x3F08F59B, 0x3F13682A, 0x3F1D7FD1, 0x3F273656, 0x3F3085BB,
     0x3CC90AB0, 0x3D96A905, 0x3DFAB273, 0x3E2F10A2, 0x3E605C13, 0x3E888E93, 0x3EA09AE5, 0x3EB8442A,
     0x3ECF7BCA, 0x3EE63375, 0x3EFC5D27, 0x3F08F59B, 0x3F13682A, 0x3F1D7FD1, 0x3F273656, 0x3F3085BB,
     0xBCC90AB0, 0xBD96A905, 0xBDFAB273, 0xBE2F10A2, 0xBE605C13, 0xBE888E93, 0xBEA09AE5, 0xBEB8442A,
     0xBECF7BCA, 0xBEE63375, 0xBEFC5D27, 0xBF08F59B, 0xBF13682A, 0xBF1D7FD1, 0xBF273656, 0xBF3085BB],
    [0xBC490E90, 0xBD16C32C, 0xBD7B2B74, 0xBDAFB680, 0xBDE1BC2E, 0xBE09CF86, 0xBE22ABB6, 0xBE3B6ECF,
     0xBE541501, 0xBE6C9A7F, 0xBE827DC0, 0xBE8E9A22, 0xBE9AA086, 0xBEA68F12, 0xBEB263EF, 0xBEBE1D4A,
     0xBEC9B953, 0xBED53641, 0xBEE0924F, 0xBEEBCBBB, 0xBEF6E0CB, 0xBF00E7E4, 0xBF064B82, 0xBF0B9A6B,
     0xBF10D3CD, 0xBF15F6D9, 0xBF1B02C6, 0xBF1FF6CB, 0xBF24D225, 0xBF299415, 0xBF2E3BDE, 0xBF32C8C9,
     0x3C490E90, 0x3D16C32C, 0x3D7B2B74, 0x3DAFB680, 0x3DE1BC2E, 0x3E09CF86, 0x3E22ABB6, 0x3E3B6ECF,
     0x3E541501, 0x3E6C9A7F, 0x3E827DC0, 0x3E8E9A22, 0x3E9AA086, 0x3EA68F12, 0x3EB263EF, 0x3EBE1D4A,
     0x3EC9B953, 0x3ED53641, 0x3EE0924F, 0x3EEBCBBB, 0x3EF6E0CB, 0x3F00E7E4, 0x3F064B82, 0x3F0B9A6B,
     0x3F10D3CD, 0x3F15F6D9, 0x3F1B02C6, 0x3F1FF6CB, 0x3F24D225, 0x3F299415, 0x3F2E3BDE, 0x3F32C8C9],
    [0xBBC90F88, 0xBC96C9B6, 0xBCFB49BA, 0xBD2FE007, 0xBD621469, 0xBD8A200A, 0xBDA3308C, 0xBDBC3AC3,
     0xBDD53DB9, 0xBDEE3876, 0xBE039502, 0xBE1008B7, 0xBE1C76DE, 0xBE28DEFC, 0xBE354098, 0xBE419B37,
     0xBE4DEE60, 0xBE5A3997, 0xBE667C66, 0xBE72B651, 0xBE7EE6E1, 0xBE8586CE, 0xBE8B9507, 0xBE919DDD,
     0xBE97A117, 0xBE9D9E78, 0xBEA395C5, 0xBEA986C4, 0xBEAF713A, 0xBEB554EC, 0xBEBB31A0, 0xBEC1071E,
     0xBEC6D529, 0xBECC9B8B, 0xBED25A09, 0xBED8106B, 0xBEDDBE79, 0xBEE363FA, 0xBEE900B7, 0xBEEE9479,
     0xBEF41F07, 0xBEF9A02D, 0xBEFF17B2, 0xBF0242B1, 0xBF04F484, 0xBF07A136, 0xBF0A48AD, 0xBF0CEAD0,
     0xBF0F8784, 0xBF121EB0, 0xBF14B039, 0xBF173C07, 0xBF19C200, 0xBF1C420C, 0xBF1EBC12, 0xBF212FF9,
     0xBF239DA9, 0xBF26050A, 0xBF286605, 0xBF2AC082, 0xBF2D1469, 0xBF2F61A5, 0xBF31A81D, 0xBF33E7BC]]"

definition hcaimdctWindowFloatHex :: "u32 list" where
  "hcaimdctWindowFloatHex = [
     0x3A3504F0, 0x3B0183B8, 0x3B70C538, 0x3BBB9268, 0x3C04A809, 0x3C308200, 0x3C61284C, 0x3C8B3F17,
     0x3CA83992, 0x3CC77FBD, 0x3CE91110, 0x3D0677CD, 0x3D198FC4, 0x3D2DD35C, 0x3D434643, 0x3D59ECC1,
     0x3D71CBA8, 0x3D85741E, 0x3D92A413, 0x3DA078B4, 0x3DAEF522, 0x3DBE1C9E, 0x3DCDF27B, 0x3DDE7A1D,
     0x3DEFB6ED, 0x3E00D62B, 0x3E0A2EDA, 0x3E13E72A, 0x3E1E00B1, 0x3E287CF2, 0x3E335D55, 0x3E3EA321,
     0x3E4A4F75, 0x3E56633F, 0x3E62DF37, 0x3E6FC3D1, 0x3E7D1138, 0x3E8563A2, 0x3E8C72B7, 0x3E93B561,
     0x3E9B2AEF, 0x3EA2D26F, 0x3EAAAAAB, 0x3EB2B222, 0x3EBAE706, 0x3EC34737, 0x3ECBD03D, 0x3ED47F46,
     0x3EDD5128, 0x3EE6425C, 0x3EEF4EFF, 0x3EF872D7, 0x3F00D4A9, 0x3F0576CA, 0x3F0A1D3B, 0x3F0EC548,
     0x3F136C25, 0x3F180EF2, 0x3F1CAAC2, 0x3F213CA2, 0x3F25C1A5, 0x3F2A36E7, 0x3F2E9998, 0x3F32E705,
     0xBF371C9E, 0xBF3B37FE, 0xBF3F36F2, 0xBF431780, 0xBF46D7E6, 0xBF4A76A4, 0xBF4DF27C, 0xBF514A6F,
     0xBF547DC5, 0xBF578C03, 0xBF5A74EE, 0xBF5D3887, 0xBF5FD707, 0xBF6250DA, 0xBF64A699, 0xBF66D908,
     0xBF68E90E, 0xBF6AD7B1, 0xBF6CA611, 0xBF6E5562, 0xBF6FE6E7, 0xBF715BEF, 0xBF72B5D1, 0xBF73F5E6,
     0xBF751D89, 0xBF762E13, 0xBF7728D7, 0xBF780F20, 0xBF78E234, 0xBF79A34C, 0xBF7A5397, 0xBF7AF439,
     0xBF7B8648, 0xBF7C0ACE, 0xBF7C82C8, 0xBF7CEF26, 0xBF7D50CB, 0xBF7DA88E, 0xBF7DF737, 0xBF7E3D86,
     0xBF7E7C2A, 0xBF7EB3CC, 0xBF7EE507, 0xBF7F106C, 0xBF7F3683, 0xBF7F57CA, 0xBF7F74B6, 0xBF7F8DB6,
     0xBF7FA32E, 0xBF7FB57B, 0xBF7FC4F6, 0xBF7FD1ED, 0xBF7FDCAD, 0xBF7FE579, 0xBF7FEC90, 0xBF7FF22E,
     0xBF7FF688, 0xBF7FF9D0, 0xBF7FFC32, 0xBF7FFDDA, 0xBF7FFEED, 0xBF7FFF8F, 0xBF7FFFDF, 0xBF7FFFFC]"

section \<open>The code\<close>

text \<open>\<open>xs[i] = v\<close> for a running index.\<close>

definition index_put :: "int \<Rightarrow> 'a \<Rightarrow> 'a list \<Rightarrow> go_err + 'a list" where
  "index_put i v xs =
     (if 0 \<le> i \<and> i < int (length xs) then Inr (xs[nat i := v]) else Inl (Panic ''index out of range''))"

definition pre_step ::
  "'f float_ops \<Rightarrow> 'f list \<Rightarrow> (int \<times> int \<times> int) \<times> 'f list \<Rightarrow> go_err + (int \<times> int \<times> int) \<times> 'f list" where
  "pre_step F temp1 = (\<lambda>((t1Idx, d1Idx, d2Idx), temp2).
     bindR (index_get temp1 t1Idx) (\<lambda>a.
     bindR (index_get temp1 (t1Idx + 1)) (\<lambda>b.
     bindR (index_put d1Idx (f_add F a b) temp2) (\<lambda>temp2.
     bindR (index_put d2Idx (f_sub F a b) temp2) (\<lambda>temp2.
       Inr ((t1Idx + 1 + 1, d1Idx + 1, d2Idx + 1), temp2))))))"

definition pre_stage :: "'f float_ops \<Rightarrow> nat \<Rightarrow> nat \<Rightarrow> 'f list \<Rightarrow> 'f list \<Rightarrow> go_err + 'f list" where
  "pre_stage F count1 count2 temp1 temp2 =
     bindR
       (forR count1 0 (\<lambda>j s. bindR (forR count2 0 (\<lambda>k. pre_step F temp1) s)
          (\<lambda>((t1Idx, d1Idx, d2Idx), temp2). Inr ((t1Idx, d1Idx + int count2, d2Idx + int count2), temp2)))
          ((0, 0, int count2), temp2))
       (\<lambda>s. Inr (snd s))"

text \<open>
  The stages with their buffers: what a stage writes is what the next one reads. The number of
  stages is odd, so the result is in the buffer that the first stage wrote.
\<close>

definition pre_rotation :: "'f float_ops \<Rightarrow> nat \<Rightarrow> nat \<Rightarrow> nat \<Rightarrow> 'f list \<Rightarrow> 'f list \<Rightarrow> go_err + 'f list \<times> 'f list" where
  "pre_rotation F stages count1 count2 temp1 temp2 =
     bindR
       (forR stages 0 (\<lambda>i (temp1, temp2, count1, count2).
          bindR (pre_stage F count1 count2 temp1 temp2) (\<lambda>out. Inr (out, temp1, count1 * 2, count2 div 2)))
          (temp1, temp2, count1, count2))
       (\<lambda>(temp1, temp2, _). Inr (temp1, temp2))"

definition rotate_step ::
  "'f float_ops \<Rightarrow> 'f list \<Rightarrow> 'f list \<Rightarrow> 'f list \<Rightarrow> (int \<times> int \<times> int \<times> int \<times> int \<times> int) \<times> 'f list \<Rightarrow>
   go_err + (int \<times> int \<times> int \<times> int \<times> int \<times> int) \<times> 'f list" where
  "rotate_step F sinTable cosTable temp1 = (\<lambda>((s1Idx, s2Idx, sinIdx, cosIdx, d1Idx, d2Idx), temp2).
     bindR (index_get temp1 s1Idx) (\<lambda>a.
     bindR (index_get temp1 s2Idx) (\<lambda>b.
     bindR (index_get sinTable sinIdx) (\<lambda>sin.
     bindR (index_get cosTable cosIdx) (\<lambda>cos.
     bindR (index_put d1Idx (f_sub F (f_mul F a sin) (f_mul F b cos)) temp2) (\<lambda>temp2.
     bindR (index_put d2Idx (f_add F (f_mul F a cos) (f_mul F b sin)) temp2) (\<lambda>temp2.
       Inr ((s1Idx + 1, s2Idx + 1, sinIdx + 1, cosIdx + 1, d1Idx + 1, d2Idx - 1), temp2))))))))"

definition rotate_stage ::
  "'f float_ops \<Rightarrow> 'f list \<Rightarrow> 'f list \<Rightarrow> nat \<Rightarrow> nat \<Rightarrow> 'f list \<Rightarrow> 'f list \<Rightarrow> go_err + 'f list" where
  "rotate_stage F sinTable cosTable count1 count2 temp1 temp2 =
     bindR
       (forR count1 0 (\<lambda>j s. bindR (forR count2 0 (\<lambda>k. rotate_step F sinTable cosTable temp1) s)
          (\<lambda>((s1Idx, s2Idx, sinIdx, cosIdx, d1Idx, d2Idx), temp2).
             Inr ((s1Idx + int count2, s2Idx + int count2, sinIdx, cosIdx,
               d1Idx + int count2, d2Idx + int count2 * 3), temp2)))
          ((0, int count2, 0, 0, 0, int count2 * 2 - 1), temp2))
       (\<lambda>s. Inr (snd s))"

definition float_row :: "'f float_ops \<Rightarrow> u32 list list \<Rightarrow> nat \<Rightarrow> 'f list" where
  "float_row F hex i = map (f_of_bits F) (hex ! i)"

definition rotation :: "'f float_ops \<Rightarrow> nat \<Rightarrow> nat \<Rightarrow> nat \<Rightarrow> 'f list \<Rightarrow> 'f list \<Rightarrow> go_err + 'f list \<times> 'f list" where
  "rotation F stages count1 count2 temp1 temp2 =
     bindR
       (forR stages 0 (\<lambda>i (temp1, temp2, count1, count2).
          bindR (rotate_stage F (float_row F sinTablesHex i) (float_row F cosTablesHex i) count1 count2 temp1 temp2)
            (\<lambda>out. Inr (out, temp1, count1 div 2, count2 * 2)))
          (temp1, temp2, count1, count2))
       (\<lambda>(temp1, temp2, _). Inr (temp1, temp2))"

definition window_step ::
  "'f float_ops \<Rightarrow> 'f list \<Rightarrow> nat \<Rightarrow> 'f list \<times> 'f list \<Rightarrow> go_err + 'f list \<times> 'f list" where
  "window_step F dct i = (\<lambda>(wave, prev).
     let window = map (f_of_bits F) hcaimdctWindowFloatHex in
     bindR (arr_get window i) (\<lambda>w0.
     bindR (arr_get window (i + 64)) (\<lambda>w1.
     bindR (arr_get window (128 - 1 - i)) (\<lambda>w2.
     bindR (arr_get window (64 - i - 1)) (\<lambda>w3.
     bindR (arr_get dct (i + 64)) (\<lambda>d0.
     bindR (arr_get dct (128 - 1 - i)) (\<lambda>d1.
     bindR (arr_get dct (64 - i - 1)) (\<lambda>d2.
     bindR (arr_get dct i) (\<lambda>d3.
     bindR (arr_get prev i) (\<lambda>p0.
     bindR (arr_get prev (i + 64)) (\<lambda>p1.
     bindR (arr_put i (f_add F (f_mul F w0 d0) p0) wave) (\<lambda>wave.
     bindR (arr_put (i + 64) (f_sub F (f_mul F w1 d1) p1) wave) (\<lambda>wave.
     bindR (arr_put i (f_mul F w2 d2) prev) (\<lambda>prev.
     bindR (arr_put (i + 64) (f_mul F w3 d3) prev) (\<lambda>prev.
       Inr (wave, prev))))))))))))))))"

definition imdctTransform :: "'f float_ops \<Rightarrow> nat \<Rightarrow> 'f stChannel \<Rightarrow> go_err + 'f stChannel" where
  "imdctTransform F subframe c =
     bindR (arr_get (ch_spectra c) subframe) (\<lambda>spectrum.
     bindR (pre_rotation F 7 1 64 spectrum (ch_temp c)) (\<lambda>(temp, spectrum).
     bindR (rotation F 7 64 1 temp spectrum) (\<lambda>(spectrum, temp).
     bindR (arr_get (ch_wave c) subframe) (\<lambda>wave.
     bindR (forR 64 0 (window_step F spectrum) (wave, ch_imdctPrevious c)) (\<lambda>(wave, prev).
       Inr (c\<lparr>ch_spectra := (ch_spectra c)[subframe := spectrum], ch_temp := temp,
              ch_wave := (ch_wave c)[subframe := wave], ch_imdctPrevious := prev\<rparr>))))))"

section \<open>The reference\<close>

definition sums :: "'f float_ops \<Rightarrow> 'f list \<Rightarrow> 'f list" where
  "sums F xs = map (\<lambda>k. f_add F (xs ! (2 * k)) (xs ! (2 * k + 1))) [0..<length xs div 2]"

definition differences :: "'f float_ops \<Rightarrow> 'f list \<Rightarrow> 'f list" where
  "differences F xs = map (\<lambda>k. f_sub F (xs ! (2 * k)) (xs ! (2 * k + 1))) [0..<length xs div 2]"

fun hadamard :: "'f float_ops \<Rightarrow> nat \<Rightarrow> 'f list \<Rightarrow> 'f list" where
  "hadamard F 0 xs = xs"
| "hadamard F (Suc n) xs = hadamard F n (sums F xs) @ hadamard F n (differences F xs)"

text \<open>Two halves merged by rotations, the second component from the back.\<close>

definition merge :: "'f float_ops \<Rightarrow> 'f list \<Rightarrow> 'f list \<Rightarrow> 'f list \<Rightarrow> 'f list \<Rightarrow> 'f list" where
  "merge F sins coss a b =
     map (\<lambda>k. f_sub F (f_mul F (a ! k) (sins ! k)) (f_mul F (b ! k) (coss ! k))) [0..<length a] @
     rev (map (\<lambda>k. f_add F (f_mul F (a ! k) (coss ! k)) (f_mul F (b ! k) (sins ! k))) [0..<length a])"

text \<open>\<open>rotations F n off xs\<close>: the \<open>2 ^ n\<close> values that start at \<open>off\<close>.\<close>

fun rotations :: "'f float_ops \<Rightarrow> nat \<Rightarrow> nat \<Rightarrow> 'f list \<Rightarrow> 'f list" where
  "rotations F 0 off xs = xs"
| "rotations F (Suc n) off xs =
     merge F (drop (off div 2) (float_row F sinTablesHex n)) (drop (off div 2) (float_row F cosTablesHex n))
       (rotations F n off (take (2 ^ n) xs)) (rotations F n (off + 2 ^ n) (drop (2 ^ n) xs))"

definition dct :: "'f float_ops \<Rightarrow> 'f list \<Rightarrow> 'f list" where
  "dct F xs = rotations F 7 0 (hadamard F 7 xs)"

section \<open>A stage of butterflies\<close>

text \<open>
  Block \<open>j\<close> of a stage writes, for each \<open>k\<close> below \<open>m\<close>, the places \<open>k\<close> and \<open>e k\<close> of its \<open>2 * m\<close>
  values, and no place twice.
\<close>

definition written :: "nat \<Rightarrow> (nat \<Rightarrow> nat) \<Rightarrow> (nat \<Rightarrow> nat \<Rightarrow> 'a) \<Rightarrow> (nat \<Rightarrow> nat \<Rightarrow> 'a) \<Rightarrow> nat \<Rightarrow> 'a list \<Rightarrow> bool" where
  "written m e g h j out \<longleftrightarrow>
     (\<forall>i<j. \<forall>k<m. out ! (2 * m * i + k) = g i k \<and> out ! (2 * m * i + e k) = h i k)"

lemma block_before: "i < j \<Longrightarrow> x < 2 * m \<Longrightarrow> 2 * m * i + x < 2 * m * (j :: nat)"
proof -
  assume "i < j" "x < 2 * m"
  moreover from this(1) have "2 * m * Suc i \<le> 2 * m * j" by (intro mult_le_mono) simp_all
  ultimately show ?thesis by simp
qed

lemma butterfly_block:
  fixes st :: "nat \<Rightarrow> nat \<Rightarrow> 's" and out :: "'a list"
  assumes len: "length out = 2 * m * n" and j: "j < n" and w: "written m e g h j out"
    and step: "\<And>k out :: 'a list. k < m \<Longrightarrow> length out = 2 * m * n \<Longrightarrow>
      body k (st j k, out) = Inr (st j (Suc k), out[2 * m * j + k := g j k, 2 * m * j + e k := h j k])"
    and e: "\<And>k. k < m \<Longrightarrow> m \<le> e k \<and> e k < 2 * m" and inj: "inj_on e {..<m}"
  shows "\<exists>out'. forR m 0 body (st j 0, out) = Inr (st j m, out') \<and> length out' = 2 * m * n \<and> written m e g h (Suc j) out'"
proof -
  let ?part = "\<lambda>k out :: 'a list. length out = 2 * m * n \<and> written m e g h j out \<and>
    (\<forall>q<k. out ! (2 * m * j + q) = g j q \<and> out ! (2 * m * j + e q) = h j q)"
  have "\<exists>s. forR m 0 body (st j 0, out) = Inr s \<and> (\<exists>out'. s = (st j (0 + m), out') \<and> ?part (0 + m) out')"
  proof (rule forR_induct [where P = "\<lambda>k s. \<exists>out'. s = (st j k, out') \<and> ?part k out'"])
    show "\<exists>out'. (st j 0, out) = (st j 0, out') \<and> ?part 0 out'" using len w by simp
  next
    fix k s assume k: "0 \<le> k" "k < 0 + m" and "\<exists>out'. s = (st j k, out') \<and> ?part k out'"
    then obtain o1 where o1: "s = (st j k, o1)" "?part k o1" by blast
    let ?o2 = "o1[2 * m * j + k := g j k, 2 * m * j + e k := h j k]"
    have km: "k < m" "e k < 2 * m" "m \<le> e k" using k e [of k] by auto
    have "?o2 ! (2 * m * i + x) = o1 ! (2 * m * i + x)" if "i < j" "x < 2 * m" for i x
      using block_before [OF that] by simp
    then have "written m e g h j ?o2" using o1(2) e by (simp add: written_def)
    moreover have "?o2 ! (2 * m * j + q) = g j q \<and> ?o2 ! (2 * m * j + e q) = h j q" if "q < Suc k" for q
    proof (cases "q = k")
      case True
      with km o1(2) block_before [OF j] show ?thesis by (auto simp: nth_list_update)
    next
      case False
      then have q: "q < k" "e q \<noteq> e k" "m \<le> e q" "q < m"
        using that e [of q] km inj by (auto simp: inj_on_def)
      then have "e k \<noteq> q" "e q \<noteq> k" using km by linarith+
      with q False o1(2) show ?thesis by simp
    qed
    ultimately have "?part (Suc k) ?o2" using o1(2) by simp
    then show "\<exists>t. body k s = Inr t \<and> (\<exists>out'. t = (st j (Suc k), out') \<and> ?part (Suc k) out')"
      using step [OF km(1)] o1 by blast
  qed
  then show ?thesis by (auto simp: written_def less_Suc_eq)
qed

lemma butterfly_loop:
  fixes st :: "nat \<Rightarrow> nat \<Rightarrow> 's" and out :: "'a list"
  assumes len: "length out = 2 * m * n"
    and step: "\<And>j k out :: 'a list. j < n \<Longrightarrow> k < m \<Longrightarrow> length out = 2 * m * n \<Longrightarrow>
      body k (st j k, out) = Inr (st j (Suc k), out[2 * m * j + k := g j k, 2 * m * j + e k := h j k])"
    and after: "\<And>j out. j < n \<Longrightarrow> after (st j m, out) = Inr (st (Suc j) 0, out)"
    and e: "\<And>k. k < m \<Longrightarrow> m \<le> e k \<and> e k < 2 * m" and inj: "inj_on e {..<m}"
  shows "\<exists>out'. forR n 0 (\<lambda>j s. bindR (forR m 0 body s) after) (st 0 0, out) = Inr (st n 0, out') \<and>
    length out' = 2 * m * n \<and> written m e g h n out'"
proof -
  let ?P = "\<lambda>j s. \<exists>out'. s = (st j 0, out') \<and> length out' = 2 * m * n \<and> written m e g h j out'"
  have "\<exists>s. forR n 0 (\<lambda>j s. bindR (forR m 0 body s) after) (st 0 0, out) = Inr s \<and> ?P (0 + n) s"
  proof (rule forR_induct)
    show "?P 0 (st 0 0, out)" using len by (simp add: written_def)
  next
    fix j s assume "0 \<le> j" and j: "j < 0 + n" and "?P j s"
    then obtain o1 where o1: "s = (st j 0, o1)" "length o1 = 2 * m * n" "written m e g h j o1" by blast
    from j have j: "j < n" by simp
    from butterfly_block [where st = st and body = body, OF o1(2) j o1(3) step [OF j] e inj] obtain o2 where
      "forR m 0 body (st j 0, o1) = Inr (st j m, o2)" "length o2 = 2 * m * n" "written m e g h (Suc j) o2"
      by blast
    with after [OF j, of o2] o1(1)
    show "\<exists>t. bindR (forR m 0 body s) after = Inr t \<and> ?P (Suc j) t" by simp
  qed
  then show ?thesis by auto
qed

definition block :: "nat \<Rightarrow> nat \<Rightarrow> 'a list \<Rightarrow> 'a list" where
  "block m j xs = take m (drop (m * j) xs)"

lemma block_place: "j < n \<Longrightarrow> m * j + m \<le> m * (n :: nat)"
proof -
  assume "j < n"
  then have "m * Suc j \<le> m * n" by (intro mult_le_mono) simp_all
  then show ?thesis by simp
qed

lemma length_block [simp]: "j < n \<Longrightarrow> length xs = m * n \<Longrightarrow> length (block m j xs) = m"
  using block_place [of j n m] by (simp add: block_def min_def) linarith

lemma block_nth: "j < n \<Longrightarrow> length xs = m * n \<Longrightarrow> q < m \<Longrightarrow> block m j xs ! q = xs ! (m * j + q)"
  using block_place [of j n m] by (simp add: block_def)

lemma block_halves: "block (2 * m) j xs = block m (2 * j) xs @ block m (2 * j + 1) xs"
proof -
  have "take (2 * m) zs = take m zs @ take m (drop m zs)" for zs :: "'a list"
    by (metis mult_2 take_add)
  then show ?thesis by (simp add: block_def algebra_simps)
qed

lemma block_all: "length xs = m \<Longrightarrow> block m 0 xs = xs"
  by (simp add: block_def)

lemma running_index:
  "a < length xs \<Longrightarrow> index_get xs (int a) = Inr (xs ! a)"
  "a < length xs \<Longrightarrow> index_put (int a) v xs = Inr (xs[a := v])"
  by (simp_all add: index_get_def index_put_def)

lemma pre_stage_ok:
  assumes "length xs = 2 * m * n" and "length ys = 2 * m * n"
  shows "\<exists>out. pre_stage F n m xs ys = Inr out \<and> length out = 2 * m * n \<and>
    (\<forall>j<n. block (2 * m) j out = sums F (block (2 * m) j xs) @ differences F (block (2 * m) j xs))"
proof -
  let ?st = "\<lambda>j k. (int (2 * m * j + 2 * k), int (2 * m * j + k), int (2 * m * j + (m + k)))"
  let ?g = "\<lambda>j k. f_add F (xs ! (2 * m * j + 2 * k)) (xs ! (2 * m * j + 2 * k + 1))"
  let ?h = "\<lambda>j k. f_sub F (xs ! (2 * m * j + 2 * k)) (xs ! (2 * m * j + 2 * k + 1))"
  have "\<exists>out. forR n 0 (\<lambda>j s. bindR (forR m 0 (\<lambda>k. pre_step F xs) s)
          (\<lambda>((t1Idx, d1Idx, d2Idx), temp2). Inr ((t1Idx, d1Idx + int m, d2Idx + int m), temp2)))
          (?st 0 0, ys) = Inr (?st n 0, out) \<and> length out = 2 * m * n \<and> written m (\<lambda>k. m + k) ?g ?h n out"
  proof (rule butterfly_loop [where st = ?st, OF assms(2)])
    fix j k and out :: "'a list" assume jk: "j < n" "k < m" "length out = 2 * m * n"
    have i: "2 * m * j + 2 * k + 1 < 2 * m * n" "2 * m * j + k < 2 * m * n" "2 * m * j + (m + k) < 2 * m * n"
      using block_place [OF jk(1), of "2 * m"] jk(2) by simp_all
    have incr: "int a + 1 = int (Suc a)" for a by simp
    show "pre_step F xs (?st j k, out) = Inr (?st j (Suc k), out[2 * m * j + k := ?g j k, 2 * m * j + (m + k) := ?h j k])"
      using i assms(1) jk(3)
      by (simp add: pre_step_def running_index incr del: of_nat_add of_nat_mult of_nat_Suc)
  next
    fix j and out :: "'a list" assume "j < n"
    show "(\<lambda>((t1Idx, d1Idx, d2Idx), temp2). Inr ((t1Idx, d1Idx + int m, d2Idx + int m), temp2)) (?st j m, out) =
      Inr (?st (Suc j) 0, out)" by (simp add: algebra_simps)
  qed (auto simp: inj_on_def)
  then obtain out where run: "pre_stage F n m xs ys = Inr out" and len: "length out = 2 * m * n"
    and w: "written m (\<lambda>k. m + k) ?g ?h n out"
    by (auto simp: pre_stage_def)
  have "block (2 * m) j out = sums F (block (2 * m) j xs) @ differences F (block (2 * m) j xs)" if j: "j < n" for j
  proof (rule nth_equalityI)
    fix q assume "q < length (block (2 * m) j out)"
    then have q: "q < 2 * m" using j len by simp
    have nth: "block (2 * m) j xs ! x = xs ! (2 * m * j + x)" if "x < 2 * m" for x
      by (rule block_nth [OF j assms(1) that])
    have lb: "length (block (2 * m) j xs) = 2 * m" using j assms(1) by simp
    consider "q < m" | k where "q = m + k" "k < m"
      using q by (metis add_diff_inverse_nat less_diff_conv2 mult_2 nat_add_left_cancel_less)
    then show "block (2 * m) j out ! q = (sums F (block (2 * m) j xs) @ differences F (block (2 * m) j xs)) ! q"
      using w j q
      by cases (simp_all add: block_nth [OF j len] lb nth sums_def differences_def nth_append written_def)
  qed (simp add: sums_def differences_def length_block [OF j len] length_block [OF j assms(1)])
  then show ?thesis using run len by blast
qed

lemma pre_stages_ok:
  assumes "length xs = 2 ^ n * c" and "length ys = 2 ^ n * c" and "n \<noteq> 0"
  shows "\<exists>out other k2. forR n i (\<lambda>i (temp1, temp2, count1, count2).
      bindR (pre_stage F count1 count2 temp1 temp2) (\<lambda>out. Inr (out, temp1, count1 * 2, count2 div 2)))
      (xs, ys, c, 2 ^ (n - 1)) = Inr (out, other, k2) \<and> length out = 2 ^ n * c \<and> length other = 2 ^ n * c \<and>
    (\<forall>j<c. block (2 ^ n) j out = hadamard F n (block (2 ^ n) j xs))"
  using assms
proof (induction n arbitrary: xs ys c i)
  case 0
  then show ?case by simp
next
  case (Suc n)
  have len: "length xs = 2 * 2 ^ n * c" "length ys = 2 * 2 ^ n * c" using Suc.prems(1,2) by simp_all
  from pre_stage_ok [OF len, of F] obtain mid where mid: "pre_stage F c (2 ^ n) xs ys = Inr mid" "length mid = 2 * 2 ^ n * c"
    and stage: "\<forall>j<c. block (2 * 2 ^ n) j mid = sums F (block (2 * 2 ^ n) j xs) @ differences F (block (2 * 2 ^ n) j xs)"
    by blast
  show ?case
  proof (cases "n = 0")
    case True
    with mid stage len show ?thesis by (simp add: split_def)
  next
    case False
    have l: "length mid = 2 ^ n * (c * 2)" "length xs = 2 ^ n * (c * 2)" using mid(2) len by simp_all
    from Suc.IH [OF l False, of "Suc i"] obtain out other k2 where
      run: "forR n (Suc i) (\<lambda>i (temp1, temp2, count1, count2).
        bindR (pre_stage F count1 count2 temp1 temp2) (\<lambda>out. Inr (out, temp1, count1 * 2, count2 div 2)))
        (mid, xs, c * 2, 2 ^ (n - 1)) = Inr (out, other, k2)"
      and lo: "length out = 2 ^ n * (c * 2)" "length other = 2 ^ n * (c * 2)"
      and blocks: "\<forall>j<c * 2. block (2 ^ n) j out = hadamard F n (block (2 ^ n) j mid)" by blast
    have "block (2 * 2 ^ n) j out = hadamard F (Suc n) (block (2 * 2 ^ n) j xs)" if j: "j < c" for j
    proof -
      have lb: "length (block (2 * 2 ^ n) j xs) = 2 * 2 ^ n" using j len(1) by simp
      have "block (2 ^ n) (2 * j) mid @ block (2 ^ n) (2 * j + 1) mid =
          sums F (block (2 * 2 ^ n) j xs) @ differences F (block (2 * 2 ^ n) j xs)"
        using stage j unfolding block_halves [symmetric] by simp
      moreover have "length (block (2 ^ n) (2 * j) mid) = length (sums F (block (2 * 2 ^ n) j xs))"
        using j length_block [of "2 * j" "c * 2" mid "2 ^ n"] l lb by (simp add: sums_def)
      ultimately have "block (2 ^ n) (2 * j) mid = sums F (block (2 * 2 ^ n) j xs)"
        "block (2 ^ n) (2 * j + 1) mid = differences F (block (2 * 2 ^ n) j xs)" by simp_all
      then show ?thesis using blocks j by (simp add: block_halves)
    qed
    moreover have "(2 :: nat) ^ n div 2 = 2 ^ (n - 1)" using False by (cases n) simp_all
    ultimately show ?thesis using mid run lo by (simp add: split_def)
  qed
qed

lemma pre_rotation_ok:
  assumes "length xs = 128" and "length ys = 128"
  shows "\<exists>other. pre_rotation F 7 1 64 xs ys = Inr (hadamard F 7 xs, other) \<and>
    length (hadamard F 7 xs) = 128 \<and> length other = 128"
proof -
  have "length xs = 2 ^ 7 * 1" "length ys = 2 ^ 7 * 1" using assms by simp_all
  from pre_stages_ok [OF this, of 0 F] obtain out other k2 where
    run: "forR 7 0 (\<lambda>i (temp1, temp2, count1, count2).
      bindR (pre_stage F count1 count2 temp1 temp2) (\<lambda>out. Inr (out, temp1, count1 * 2, count2 div 2)))
      (xs, ys, 1, 64) = Inr (out, other, k2)" "length out = 128" "length other = 128"
    and "block 128 0 out = hadamard F 7 (block 128 0 xs)" by auto
  then have "out = hadamard F 7 xs" using assms by (simp add: block_all)
  with run show ?thesis by (simp add: pre_rotation_def)
qed

lemma length_merge [simp]: "length (merge F sins coss a b) = 2 * length a"
  by (simp add: merge_def)

lemma merge_nth:
  assumes "k < length a"
  shows "merge F sins coss a b ! k = f_sub F (f_mul F (a ! k) (sins ! k)) (f_mul F (b ! k) (coss ! k))"
    "merge F sins coss a b ! (2 * length a - 1 - k) = f_add F (f_mul F (a ! k) (coss ! k)) (f_mul F (b ! k) (sins ! k))"
proof -
  define d where "d = length a - Suc k"
  have "2 * length a - 1 - k = length a + d" "d < length a" "length a - Suc d = k" using assms by (simp_all add: d_def)
  then show "merge F sins coss a b ! (2 * length a - 1 - k) = f_add F (f_mul F (a ! k) (coss ! k)) (f_mul F (b ! k) (sins ! k))"
    using assms by (simp add: merge_def nth_append rev_nth)
qed (use assms in \<open>simp add: merge_def nth_append\<close>)

lemma rotate_stage_ok:
  assumes xs: "length xs = 2 * m * n" and ys: "length ys = 2 * m * n"
    and tables: "length sins = m * n" "length coss = m * n"
  shows "\<exists>out. rotate_stage F sins coss n m xs ys = Inr out \<and> length out = 2 * m * n \<and>
    (\<forall>j<n. block (2 * m) j out =
      merge F (drop (m * j) sins) (drop (m * j) coss) (block m (2 * j) xs) (block m (2 * j + 1) xs))"
proof -
  let ?st = "\<lambda>j k. (int (2 * m * j + k), int (2 * m * j + m + k), int (m * j + k), int (m * j + k),
      int (2 * m * j + k), int (2 * m * j) + 2 * int m - 1 - int k)"
  let ?g = "\<lambda>j k. f_sub F (f_mul F (xs ! (2 * m * j + k)) (sins ! (m * j + k)))
    (f_mul F (xs ! (2 * m * j + m + k)) (coss ! (m * j + k)))"
  let ?h = "\<lambda>j k. f_add F (f_mul F (xs ! (2 * m * j + k)) (coss ! (m * j + k)))
    (f_mul F (xs ! (2 * m * j + m + k)) (sins ! (m * j + k)))"
  let ?e = "\<lambda>k. 2 * m - 1 - k"
  have "\<exists>out. forR n 0 (\<lambda>j s. bindR (forR m 0 (\<lambda>k. rotate_step F sins coss xs) s)
          (\<lambda>((s1Idx, s2Idx, sinIdx, cosIdx, d1Idx, d2Idx), temp2).
             Inr ((s1Idx + int m, s2Idx + int m, sinIdx, cosIdx, d1Idx + int m, d2Idx + int m * 3), temp2)))
          (?st 0 0, ys) = Inr (?st n 0, out) \<and> length out = 2 * m * n \<and> written m ?e ?g ?h n out"
  proof (rule butterfly_loop [where st = ?st, OF ys])
    fix j k and out :: "'a list" assume jk: "j < n" "k < m" "length out = 2 * m * n"
    have i: "2 * m * j + k < 2 * m * n" "2 * m * j + m + k < 2 * m * n" "m * j + k < m * n" "2 * m * j + ?e k < 2 * m * n"
      using block_place [OF jk(1), of "2 * m"] block_place [OF jk(1), of m] jk(2) by linarith+
    have incr: "int a + 1 = int (Suc a)" for a by simp
    have d2: "int (2 * m * j) + 2 * int m - 1 - int k = int (2 * m * j + ?e k)" using jk(2) by simp
    have decr: "int (2 * m * j + ?e k) - 1 = int (2 * m * j) + 2 * int m - 1 - int (Suc k)" unfolding d2 [symmetric] by simp
    show "rotate_step F sins coss xs (?st j k, out) = Inr (?st j (Suc k), out[2 * m * j + k := ?g j k, 2 * m * j + ?e k := ?h j k])"
      unfolding rotate_step_def prod.case d2 decr
      using i xs tables jk(3)
      by (simp add: running_index incr del: of_nat_add of_nat_mult of_nat_Suc of_nat_diff)
  next
    fix j and out :: "'a list" assume "j < n"
    show "(\<lambda>((s1Idx, s2Idx, sinIdx, cosIdx, d1Idx, d2Idx), temp2).
       Inr ((s1Idx + int m, s2Idx + int m, sinIdx, cosIdx, d1Idx + int m, d2Idx + int m * 3), temp2)) (?st j m, out) =
      Inr (?st (Suc j) 0, out)" by (simp add: algebra_simps)
  qed (auto simp: inj_on_def)
  then obtain out where run: "rotate_stage F sins coss n m xs ys = Inr out" and len: "length out = 2 * m * n"
    and w: "written m ?e ?g ?h n out"
    by (auto simp: rotate_stage_def mult.commute)
  have "block (2 * m) j out =
      merge F (drop (m * j) sins) (drop (m * j) coss) (block m (2 * j) xs) (block m (2 * j + 1) xs)" if j: "j < n" for j
  proof (rule nth_equalityI)
    have lx: "length xs = m * (n * 2)" using xs by simp
    have j2: "2 * j < n * 2" "2 * j + 1 < n * 2" using j by linarith+
    have la: "length (block m (2 * j) xs) = m" by (rule length_block [OF j2(1) lx])
    show "length (block (2 * m) j out) = length (merge F (drop (m * j) sins) (drop (m * j) coss)
        (block m (2 * j) xs) (block m (2 * j + 1) xs))"
      using length_block [OF j len] la by simp
    fix q assume "q < length (block (2 * m) j out)"
    then have q: "q < 2 * m" using length_block [OF j len] by simp
    have a: "block m (2 * j) xs ! k = xs ! (2 * m * j + k)" "block m (2 * j + 1) xs ! k = xs ! (2 * m * j + m + k)" if "k < m" for k
      using block_nth [OF j2(1) lx that] block_nth [OF j2(2) lx that] by (simp_all add: algebra_simps)
    have t: "m * j \<le> m * n" using j by simp
    consider "q < m" | k where "q = ?e k" "k < m"
      using q that(2) [of "2 * m - 1 - q"] by (cases "q < m") auto
    then show "block (2 * m) j out ! q =
        merge F (drop (m * j) sins) (drop (m * j) coss) (block m (2 * j) xs) (block m (2 * j + 1) xs) ! q"
    proof cases
      case 1
      then show ?thesis
        using w j t tables a by (simp add: block_nth [OF j len] merge_nth la written_def)
    next
      case 2
      then show ?thesis
        using w j t tables a merge_nth(2) [of k "block m (2 * j) xs" F "drop (m * j) sins" "drop (m * j) coss" "block m (2 * j + 1) xs"]
        by (simp add: block_nth [OF j len] la written_def)
    qed
  qed
  then show ?thesis using run len by blast
qed

lemma table_rows:
  assumes "i < 7"
  shows "length (float_row F sinTablesHex i) = 64" "length (float_row F cosTablesHex i) = 64"
proof -
  have "i \<in> {0, 1, 2, 3, 4, 5, 6}" using assms by auto
  then show "length (float_row F sinTablesHex i) = 64" "length (float_row F cosTablesHex i) = 64"
    by (auto simp: float_row_def sinTablesHex_def cosTablesHex_def)
qed

lemma rotation_stages_ok:
  fixes xs ys :: "'f list"
  assumes "length xs = 128" and "length ys = 128"
  shows "\<exists>s. forR 7 0 (\<lambda>i (temp1, temp2, count1, count2).
      bindR (rotate_stage F (float_row F sinTablesHex i) (float_row F cosTablesHex i) count1 count2 temp1 temp2)
        (\<lambda>out. Inr (out, temp1, count1 div 2, count2 * 2))) (xs, ys, 64, 1) = Inr s \<and>
    (\<exists>t1 t2 c1 c2. s = (t1, t2, c1, c2) \<and> length t1 = 128 \<and> length t2 = 128 \<and> block 128 0 t1 = rotations F 7 0 (block 128 0 xs))"
proof -
  let ?P = "\<lambda>i s. \<exists>t1 t2 c1 c2. s = (t1, t2, c1, c2) \<and> length t1 = 128 \<and> length t2 = 128 \<and>
    c1 * 2 ^ i = (64 :: nat) \<and> c2 = 2 ^ i \<and> (\<forall>j<2 * c1. block (2 ^ i) j t1 = rotations F i (2 ^ i * j) (block (2 ^ i) j xs))"
  let ?Q = "\<lambda>i s. if i < 7 then ?P i s
    else \<exists>t1 t2 c1 c2. s = (t1 :: 'f list, t2 :: 'f list, c1 :: nat, c2 :: nat) \<and> length t1 = 128 \<and> length t2 = 128 \<and>
      block 128 0 t1 = rotations F 7 0 (block 128 0 xs)"
  have "\<exists>s. forR 7 0 (\<lambda>i (temp1, temp2, count1, count2).
      bindR (rotate_stage F (float_row F sinTablesHex i) (float_row F cosTablesHex i) count1 count2 temp1 temp2)
        (\<lambda>out. Inr (out, temp1, count1 div 2, count2 * 2))) (xs, ys, 64, 1) = Inr s \<and> ?Q (0 + 7) s"
  proof (rule forR_induct [where P = ?Q])
    show "?Q 0 (xs, ys, 64, 1)" using assms by simp
  next
    fix i s assume i: "0 \<le> i" "i < 0 + 7" and Q: "?Q i s"
    then obtain t1 t2 c1 c2 where s: "s = (t1, t2, c1, c2)" and l: "length t1 = 128" "length t2 = 128"
      and c: "c1 * 2 ^ i = 64" "c2 = 2 ^ i"
      and blocks: "\<forall>j<2 * c1. block (2 ^ i) j t1 = rotations F i (2 ^ i * j) (block (2 ^ i) j xs)" by auto
    let ?m = "2 ^ i :: nat" and ?sins = "float_row F sinTablesHex i" and ?coss = "float_row F cosTablesHex i"
    have mc: "2 * ?m * c1 = 128" "?m * c1 = 64" using c(1) by (simp_all add: mult.commute)
    then have lm: "length t1 = 2 * ?m * c1" "length t2 = 2 * ?m * c1" "length ?sins = ?m * c1" "length ?coss = ?m * c1"
      using l table_rows [of i F] i by simp_all
    from rotate_stage_ok [OF lm, of F] obtain out where out: "rotate_stage F ?sins ?coss c1 ?m t1 t2 = Inr out"
      "length out = 128"
      and stage: "\<forall>j<c1. block (2 * ?m) j out =
        merge F (drop (?m * j) ?sins) (drop (?m * j) ?coss) (block ?m (2 * j) t1) (block ?m (2 * j + 1) t1)"
      using mc by auto
    have "block (2 * ?m) j out = rotations F (Suc i) (2 * ?m * j) (block (2 * ?m) j xs)" if j: "j < c1" for j
    proof -
      have "2 * j < 2 * c1" "2 * j + 1 < 2 * c1" "length xs = ?m * (2 * c1)" using j mc assms(1) by simp_all
      then have lb: "length (block ?m (2 * j) xs) = ?m" by (metis length_block)
      have "2 * ?m * j div 2 = ?m * j" "2 * ?m * j = ?m * (2 * j)" "2 * ?m * j + ?m = ?m * (2 * j + 1)" by simp_all
      then show ?thesis
        using stage blocks j \<open>2 * j < 2 * c1\<close> \<open>2 * j + 1 < 2 * c1\<close>
        by (simp add: lb [unfolded mult.commute [of 2 j]] block_halves ac_simps)
    qed
    note step = this
    have Q': "?Q (Suc i) (out, t1, c1 div 2, c2 * 2)"
    proof (cases "Suc i < 7")
      case True
      then have "c1 * 2 ^ i = 2 ^ (6 - i) * 2 ^ i" using c(1) by (simp add: power_add [symmetric])
      then have "c1 = 2 ^ (6 - i)" by simp
      then have "even c1" using True by simp
      then have half: "2 * (c1 div 2) = c1" by simp
      have "c1 div 2 * 2 ^ Suc i = 2 * (c1 div 2) * 2 ^ i" by simp
      then have half': "c1 div 2 * 2 ^ Suc i = 64" unfolding half c(1) .
      have "?P (Suc i) (out, t1, c1 div 2, c2 * 2)"
        by (intro exI conjI, rule HOL.refl) (use half half' step out(2) l(1) c(2) in simp_all)
      with True show ?thesis by simp
    next
      case False
      then have "i = 6" using i by simp
      with step out l c show ?thesis by auto
    qed
    have "(\<lambda>(temp1, temp2, count1, count2).
        bindR (rotate_stage F ?sins ?coss count1 count2 temp1 temp2)
          (\<lambda>out. Inr (out, temp1, count1 div 2, count2 * 2))) s = Inr (out, t1, c1 div 2, c2 * 2)"
      using out(1) c(2) by (simp add: s)
    note run = conjI [OF this Q']
    show "\<exists>t. (\<lambda>(temp1, temp2, count1, count2).
        bindR (rotate_stage F ?sins ?coss count1 count2 temp1 temp2)
          (\<lambda>out. Inr (out, temp1, count1 div 2, count2 * 2))) s = Inr t \<and> ?Q (Suc i) t"
      by (rule exI, rule run)
  qed
  then show ?thesis by simp
qed

lemma rotation_ok:
  assumes "length xs = 128" and "length ys = 128"
  shows "\<exists>other. rotation F 7 64 1 xs ys = Inr (rotations F 7 0 xs, other) \<and>
    length (rotations F 7 0 xs) = 128 \<and> length other = 128"
proof -
  from rotation_stages_ok [OF assms, of F] obtain t1 t2 c1 c2 where
    "forR 7 0 (\<lambda>i (temp1, temp2, count1, count2).
      bindR (rotate_stage F (float_row F sinTablesHex i) (float_row F cosTablesHex i) count1 count2 temp1 temp2)
        (\<lambda>out. Inr (out, temp1, count1 div 2, count2 * 2))) (xs, ys, 64, 1) = Inr (t1, t2, c1, c2)"
    "length t1 = 128" "length t2 = 128" "block 128 0 t1 = rotations F 7 0 (block 128 0 xs)" by blast
  then show ?thesis using assms by (simp add: rotation_def block_all)
qed

section \<open>The window\<close>

definition window :: "'f float_ops \<Rightarrow> nat \<Rightarrow> 'f" where
  "window F i = f_of_bits F (hcaimdctWindowFloatHex ! i)"

text \<open>The output of a subframe and what it leaves for the next one, from the transformed spectrum.\<close>

definition overlap_wave :: "'f float_ops \<Rightarrow> 'f list \<Rightarrow> 'f list \<Rightarrow> 'f list" where
  "overlap_wave F d prev =
     map (\<lambda>i. if i < 64 then f_add F (f_mul F (window F i) (d ! (i + 64))) (prev ! i)
               else f_sub F (f_mul F (window F i) (d ! (191 - i))) (prev ! i)) [0..<128]"

definition overlap_previous :: "'f float_ops \<Rightarrow> 'f list \<Rightarrow> 'f list" where
  "overlap_previous F d =
     map (\<lambda>i. f_mul F (window F (127 - i)) (d ! (if i < 64 then 63 - i else i - 64))) [0..<128]"

lemma window_step_ok:
  assumes "i < 64" and "length d = 128" and "length w = 128" and "length p = 128"
  shows "window_step F d i (w, p) = Inr
    (w[i := f_add F (f_mul F (window F i) (d ! (i + 64))) (p ! i),
       i + 64 := f_sub F (f_mul F (window F (i + 64)) (d ! (127 - i))) (p ! (i + 64))],
     p[i := f_mul F (window F (127 - i)) (d ! (63 - i)), i + 64 := f_mul F (window F (63 - i)) (d ! i)])"
proof -
  have "length hcaimdctWindowFloatHex = 128" by (simp add: hcaimdctWindowFloatHex_def)
  then show ?thesis
    using assms by (simp add: window_step_def arr_get_def arr_put_def window_def less_imp_diff_less)
qed

lemma window_loop_ok:
  assumes "length d = 128" and "length w = 128" and "length p = 128"
  shows "forR 64 0 (window_step F d) (w, p) = Inr (overlap_wave F d p, overlap_previous F d)"
proof -
  let ?w = "overlap_wave F d p" and ?p = "overlap_previous F d"
  let ?P = "\<lambda>n (w', p'). length w' = 128 \<and> length p' = 128 \<and>
    (\<forall>i<128. w' ! i = (if i mod 64 < n then ?w ! i else w ! i) \<and> p' ! i = (if i mod 64 < n then ?p ! i else p ! i))"
  have parts: "?w ! i = f_add F (f_mul F (window F i) (d ! (i + 64))) (p ! i)"
    "?w ! (i + 64) = f_sub F (f_mul F (window F (i + 64)) (d ! (127 - i))) (p ! (i + 64))"
    "?p ! i = f_mul F (window F (127 - i)) (d ! (63 - i))"
    "?p ! (i + 64) = f_mul F (window F (63 - i)) (d ! i)" if "i < 64" for i
    using that by (simp_all add: overlap_wave_def overlap_previous_def)
  have "\<exists>s. forR 64 0 (window_step F d) (w, p) = Inr s \<and> ?P (0 + 64) s"
  proof (rule forR_induct)
    show "?P 0 (w, p)" using assms by simp
  next
    fix n s assume n: "0 \<le> n" "n < 0 + 64" and P: "?P n s"
    obtain w' p' where s: "s = (w', p')" by (cases s)
    have old: "w' ! (n + 64) = w ! (n + 64)" "p' ! n = p ! n" "p' ! (n + 64) = p ! (n + 64)"
      using P n by (simp_all add: s)
    have m: "i mod 64 < Suc n \<longleftrightarrow> i mod 64 < n \<or> i = n \<or> i = n + 64" if "i < 128" for i
    proof -
      have "i mod 64 = (if i < 64 then i else i - 64)" using that by (auto simp: le_mod_geq)
      then show ?thesis using that n by auto
    qed
    have step: "window_step F d n s = Inr (w'[n := ?w ! n, n + 64 := ?w ! (n + 64)], p'[n := ?p ! n, n + 64 := ?p ! (n + 64)])"
      using window_step_ok [of n d w' p' F] P n assms(1) parts [of n] old by (simp add: s)
    have "?P (Suc n) (w'[n := ?w ! n, n + 64 := ?w ! (n + 64)], p'[n := ?p ! n, n + 64 := ?p ! (n + 64)])"
      using P n m by (simp add: s nth_list_update)
    with step show "\<exists>t. window_step F d n s = Inr t \<and> ?P (Suc n) t" by blast
  qed
  then obtain w' p' where run: "forR 64 0 (window_step F d) (w, p) = Inr (w', p')" and P: "?P 64 (w', p')" by auto
  have "w' = ?w" "p' = ?p"
    using P by (auto intro!: nth_equalityI simp: overlap_wave_def overlap_previous_def)
  with run show ?thesis by simp
qed

lemma imdct_result:
  assumes "channel_shape c" and "subframe < 8"
  shows "\<exists>temp. length temp = 128 \<and> imdctTransform F subframe c = Inr (c\<lparr>
    ch_spectra := (ch_spectra c)[subframe := dct F (ch_spectra c ! subframe)],
    ch_temp := temp,
    ch_wave := (ch_wave c)[subframe := overlap_wave F (dct F (ch_spectra c ! subframe)) (ch_imdctPrevious c)],
    ch_imdctPrevious := overlap_previous F (dct F (ch_spectra c ! subframe))\<rparr>)"
proof -
  let ?x = "ch_spectra c ! subframe"
  have len: "length ?x = 128" "length (ch_temp c) = 128" "length (ch_spectra c) = 8" "length (ch_wave c) = 8"
    "length (ch_wave c ! subframe) = 128" "length (ch_imdctPrevious c) = 128"
    using assms by (auto simp: channel_shape_def)
  from pre_rotation_ok [OF len(1,2)] obtain other where
    p: "pre_rotation F 7 1 64 ?x (ch_temp c) = Inr (hadamard F 7 ?x, other)" "length (hadamard F 7 ?x) = 128" "length other = 128"
    by blast
  from rotation_ok [OF p(2,3)] obtain temp where
    r: "rotation F 7 64 1 (hadamard F 7 ?x) other = Inr (dct F ?x, temp)" "length (dct F ?x) = 128" "length temp = 128"
    by (auto simp: dct_def)
  show ?thesis
    using window_loop_ok [OF r(2) len(5,6)] p r len assms(2)
    by (intro exI [of _ temp]) (simp add: imdctTransform_def arr_get_def)
qed

lemma imdct_keeps_shape:
  assumes "chan_ok t n c" and "subframe < 8" and "imdctTransform F subframe c = Inr c'"
  shows "chan_ok t n c'"
proof -
  have c: "channel_shape c" using assms(1) by (simp add: chan_ok_def)
  then have "length (ch_spectra c ! subframe) = 128" "length (ch_temp c) = 128" using assms(2) by (auto simp: channel_shape_def)
  then have "length (dct F (ch_spectra c ! subframe)) = 128"
    using pre_rotation_ok rotation_ok unfolding dct_def by blast
  then show ?thesis
    using imdct_result [OF c assms(2), of F] assms
    by (auto simp: chan_ok_def channel_shape_def overlap_wave_def overlap_previous_def dest!: in_list_update)
qed

section \<open>Properties\<close>

text \<open>
  C29: the transform computes its reference. The in-place loops, with their running indices and
  the buffers they swap, never leave an array and turn the spectrum of a subframe into the
  rotations of its Walsh-Hadamard transform; the output is the windowed half of it overlapped
  with what the previous subframe left, and the other half is left for the next one.
\<close>

theorem imdct_computes_reference:
  assumes "channel_shape c" and "subframe < 8"
  shows "\<exists>temp. length temp = 128 \<and> imdctTransform F subframe c = Inr (c\<lparr>
    ch_spectra := (ch_spectra c)[subframe := dct F (ch_spectra c ! subframe)],
    ch_temp := temp,
    ch_wave := (ch_wave c)[subframe := overlap_wave F (dct F (ch_spectra c ! subframe)) (ch_imdctPrevious c)],
    ch_imdctPrevious := overlap_previous F (dct F (ch_spectra c ! subframe))\<rparr>)"
  by (rule imdct_result [OF assms])

lemma imdct_computes_reference_witness:
  "\<exists>c. imdctTransform nat_ops 7 (zeroChannel 0) = Inr c \<and> length (ch_temp c) = 128"
proof -
  have "channel_shape (zeroChannel (0 :: nat))" by (simp add: zeroChannel_def channel_shape_def)
  from imdct_computes_reference [OF this, of 7 nat_ops] show ?thesis by auto
qed

end
