(* ===== verification/HcaBlock.thy ===== *)
theory HcaBlock
  imports HcaRestore HcaImdct
begin

text \<open>
  A whole frame: \<open>decodeBlockTransform\<close>, \<open>DecodeBlock\<close>, \<open>TestBlock\<close> and the reading of samples,
  of \<open>internal/cricodecs/hca/clhcadecoder.go\<close> and \<open>clhca.go\<close>.
\<close>

section \<open>The transformation of a frame\<close>

definition restore_channel :: "'f float_ops \<Rightarrow> nat \<Rightarrow> nat \<Rightarrow> 'f ClHCA \<Rightarrow> go_err + 'f ClHCA" where
  "restore_channel F subframe ch h =
     bindR (arr_get (h_channel h) ch) (\<lambda>c.
     bindR (reconstructNoise F (h_minResolution h) (h_msStereo h) subframe (h_random h, c)) (\<lambda>(random, c).
     bindR (reconstructHighFrequency F (h_hfrGroupCount h) (h_bandsPerHfrGroup h) (h_stereoBandCount h)
         (h_baseBandCount h) (h_totalBandCount h) (h_version h) subframe c) (\<lambda>c.
       Inr (h\<lparr>h_random := random, h_channel := (h_channel h)[ch := c]\<rparr>))))"

definition stereo_channel :: "'f float_ops \<Rightarrow> nat \<Rightarrow> nat \<Rightarrow> 'f ClHCA \<Rightarrow> go_err + 'f ClHCA" where
  "stereo_channel F subframe ch h =
     bindR (applyIntensityStereo F ch subframe (h_baseBandCount h) (h_totalBandCount h) (h_channel h)) (\<lambda>chs.
     bindR (applyMsStereo F ch (h_msStereo h) subframe (h_baseBandCount h) (h_totalBandCount h) chs) (\<lambda>chs.
       Inr (h\<lparr>h_channel := chs\<rparr>)))"

definition imdct_channel :: "'f float_ops \<Rightarrow> nat \<Rightarrow> nat \<Rightarrow> 'f ClHCA \<Rightarrow> go_err + 'f ClHCA" where
  "imdct_channel F subframe ch h =
     bindR (arr_get (h_channel h) ch) (\<lambda>c.
     bindR (imdctTransform F subframe c) (\<lambda>c. Inr (h\<lparr>h_channel := (h_channel h)[ch := c]\<rparr>)))"

definition transform_subframe :: "'f float_ops \<Rightarrow> nat \<Rightarrow> 'f ClHCA \<Rightarrow> go_err + 'f ClHCA" where
  "transform_subframe F subframe h =
     bindR (forR (unat (h_channels h)) 0 (restore_channel F subframe) h) (\<lambda>h.
     bindR (if h_stereoBandCount h > 0
            then forR (unat (h_channels h - 1)) 0 (stereo_channel F subframe) h else Inr h) (\<lambda>h.
       forR (unat (h_channels h)) 0 (imdct_channel F subframe) h))"

definition decodeBlockTransform :: "'f float_ops \<Rightarrow> 'f ClHCA \<Rightarrow> go_err + 'f ClHCA" where
  "decodeBlockTransform F h = forR 8 0 (transform_subframe F) h"

definition DecodeBlock :: "'f float_ops \<Rightarrow> bytes \<Rightarrow> 'f ClHCA \<Rightarrow> (go_err + unit) \<times> 'f ClHCA \<times> bytes" where
  "DecodeBlock F data h =
     (case decodeBlockUnpack F data h of
        (Inl e, h, data) \<Rightarrow> (Inl e, h, data)
      | (Inr res, h, data) \<Rightarrow>
          (if res < 0 then (Inl (Failure ''unpack failed''), h, data)
           else case decodeBlockTransform F h of
             Inl e \<Rightarrow> (Inl e, h, data)
           | Inr h \<Rightarrow> (Inr (), h, data)))"

section \<open>The test of a key\<close>

definition isEmptyBlock :: "bytes \<Rightarrow> bool" where
  "isEmptyBlock data = list_all (\<lambda>b. b = 0) (drop 2 (take (length data - 2) data))"

text \<open>The loop over the bytes behind the last bit read.\<close>

fun padding_clear :: "bytes \<Rightarrow> nat \<Rightarrow> int \<Rightarrow> go_err + int" where
  "padding_clear data 0 i = Inr 0"
| "padding_clear data (Suc n) i =
     bindR (index_get data i) (\<lambda>b. if b \<noteq> 0 then Inr (- 1) else padding_clear data n (i + 1))"

definition validateBitreader :: "bytes \<Rightarrow> int \<Rightarrow> int \<Rightarrow> go_err + int" where
  "validateBitreader data status frameSize =
     (if status + 14 > frameSize * 8 then Inr (- 6)
      else
        let byteStart = status div 8; byteStart = (if status mod 8 \<noteq> 0 then byteStart + 1 else byteStart)
        in padding_clear data (nat (frameSize - 2 - byteStart)) byteStart)"

text \<open>The counters of \<open>evaluateDecodeQuality\<close>: \<open>clips\<close>, \<open>blanks\<close> and \<open>channelBlanks\<close>.\<close>

type_synonym quality = "int \<times> int \<times> int list"

definition score_sample :: "'f float_ops \<Rightarrow> nat \<Rightarrow> 'f \<Rightarrow> quality \<Rightarrow> quality" where
  "score_sample F ch fsample = (\<lambda>(clips, blanks, channelBlanks).
     if f_less F (f_of_int F 1) fsample \<or> f_less F fsample (f_of_int F (- 1)) then (clips + 1, blanks, channelBlanks)
     else
       let psample = f_to_int32 F (f_mul F fsample (f_of_int F 32768)) in
       if psample = 0 \<or> psample = - 1 then (clips, blanks + 1, channelBlanks[ch := channelBlanks ! ch + 1])
       else (clips, blanks, channelBlanks))"

definition score_channels :: "'f float_ops \<Rightarrow> 'f ClHCA \<Rightarrow> quality" where
  "score_channels F h =
     fold (\<lambda>(ch, c). fold (score_sample F ch) (concat (ch_wave c)))
       (enumerate 0 (take (unat (h_channels h)) (h_channel h))) (0, 0, replicate 16 0)"

definition calculateScore :: "int \<Rightarrow> int \<Rightarrow> int list \<Rightarrow> int \<Rightarrow> u64 \<Rightarrow> int" where
  "calculateScore clips blanks channelBlanks framesamples channels =
     (let clips = (if clips = 1 then clips + 1 else clips) in
      if clips > 1 then clips
      else if blanks = sint channels * framesamples then 0
      else if channels \<ge> 2 \<and> channelBlanks ! 0 = framesamples \<and> channelBlanks ! 1 \<noteq> framesamples then 3
      else 1)"

definition evaluateDecodeQuality :: "'f float_ops \<Rightarrow> 'f ClHCA \<Rightarrow> int" where
  "evaluateDecodeQuality F h =
     (case score_channels F h of (clips, blanks, channelBlanks) \<Rightarrow>
        calculateScore clips blanks channelBlanks (8 * 128) (h_channels h))"

definition TestBlock :: "'f float_ops \<Rightarrow> bytes \<Rightarrow> 'f ClHCA \<Rightarrow> (go_err + int) \<times> 'f ClHCA \<times> bytes" where
  "TestBlock F data h =
     (if isEmptyBlock data then (Inr 0, h, data)
      else case decodeBlockUnpack F data h of
        (Inl e, h, data) \<Rightarrow> (Inl e, h, data)
      | (Inr status, h, data) \<Rightarrow>
          (if status < 0 then (Inr (- 1), h, data)
           else case validateBitreader data status (sint (h_frameSize h)) of
             Inl e \<Rightarrow> (Inl e, h, data)
           | Inr errCode \<Rightarrow>
               (if errCode \<noteq> 0 then (Inr errCode, h, data)
                else case decodeBlockTransform F h of
                  Inl e \<Rightarrow> (Inl e, h, data)
                | Inr h \<Rightarrow> (Inr (evaluateDecodeQuality F h), h, data))))"

section \<open>Samples\<close>

text \<open>The samples of a frame in the order of the loops: subframe, place, channel.\<close>

definition interleaved :: "'f ClHCA \<Rightarrow> 'f list" where
  "interleaved h =
     concat (map (\<lambda>i. concat (map (\<lambda>j. map (\<lambda>k. ch_wave (h_channel h ! k) ! i ! j) [0..<unat (h_channels h)]) [0..<128])) [0..<8])"

text \<open>Fill a buffer from its start; a write behind its end panics.\<close>

definition fill_buffer :: "'a list \<Rightarrow> 'a list \<Rightarrow> go_err + 'a list" where
  "fill_buffer xs samples =
     (if length xs \<le> length samples then Inr (xs @ drop (length xs) samples)
      else Inl (Panic ''index out of range''))"

definition ReadSamples :: "'f list \<Rightarrow> 'f ClHCA \<Rightarrow> go_err + 'f list" where
  "ReadSamples samples h = fill_buffer (interleaved h) samples"

definition pcm16 :: "'f float_ops \<Rightarrow> 'f \<Rightarrow> 16 word" where
  "pcm16 F f =
     (let s = f_to_int32 F (f_mul F f (f_of_int F 32768)) in
      of_int (if s > 32767 then 32767 else if s < - 32768 then - 32768 else s))"

definition ReadSamples16 :: "'f float_ops \<Rightarrow> 16 word list \<Rightarrow> 'f ClHCA \<Rightarrow> go_err + 16 word list" where
  "ReadSamples16 F samples h = fill_buffer (map (pcm16 F) (interleaved h)) samples"

section \<open>A transformation keeps the decoder in order\<close>

text \<open>\<open>moved h0 h\<close>: only the noise generator and what the channels hold may differ from \<open>h0\<close>.\<close>

definition moved :: "'f ClHCA \<Rightarrow> 'f ClHCA \<Rightarrow> bool" where
  "moved h0 h \<longleftrightarrow> retyped (h0\<lparr>h_random := h_random h\<rparr>) h"

lemma movedE:
  assumes "moved h0 h"
  obtains r chs where "h = h0\<lparr>h_random := r, h_channel := chs\<rparr>" and "length chs = 16"
    and "\<And>k. k < 16 \<Longrightarrow> chan_ok (ch_channelType (h_channel h0 ! k)) (ch_codedCount (h_channel h0 ! k)) (chs ! k)"
proof (rule retypedE [OF assms [unfolded moved_def]])
  fix chs
  assume h: "h = h0\<lparr>h_random := h_random h, h_channel := chs\<rparr>" "length chs = 16"
    "\<And>k. k < 16 \<Longrightarrow> chan_ok (ch_channelType (h_channel (h0\<lparr>h_random := h_random h\<rparr>) ! k))
      (ch_codedCount (h_channel (h0\<lparr>h_random := h_random h\<rparr>) ! k)) (chs ! k)"
  then show thesis using that [of chs "h_random h"] by simp
qed

lemma movedI:
  assumes "length chs = 16"
    and "\<And>k. k < 16 \<Longrightarrow> chan_ok (ch_channelType (h_channel h0 ! k)) (ch_codedCount (h_channel h0 ! k)) (chs ! k)"
  shows "moved h0 (h0\<lparr>h_random := r, h_channel := chs\<rparr>)"
  using assms by (simp add: moved_def retyped_def)

lemma moved_ready:
  assumes "moved h0 h" and "ready h0"
  shows "ready h"
proof -
  have "ready (h0\<lparr>h_random := h_random h\<rparr>)" using assms(2) by (simp add: ready_def)
  with assms(1) show ?thesis unfolding moved_def by (rule retyped_ready)
qed

text \<open>When every channel that copies high bands has the low bands for it.\<close>

definition high_bands_fit :: "'f ClHCA \<Rightarrow> bool" where
  "high_bands_fit h \<longleftrightarrow>
     h_bandsPerHfrGroup h = 0 \<or> hfr_fits (h_stereoBandCount h) (h_baseBandCount h) (h_totalBandCount h)"

lemma noise_safe:
  fixes c :: "'f stChannel"
  assumes c: "chan_ok t n c" and sub: "subframe < 8"
  shows "\<exists>r' c'. reconstructNoise F minResolution msStereo subframe (r, c) = Inr (r', c') \<and> chan_ok t n c'"
proof -
  have "\<exists>s. forR (unat (ch_noiseCount c)) 0 (noise_step F subframe) (r, c) = Inr s \<and>
      (case s of (r' :: u64, d :: 'f stChannel) \<Rightarrow> chan_ok t n d \<and> ch_noiseCount d = ch_noiseCount c \<and> ch_validCount d = ch_validCount c)"
    if v: "\<not> ch_validCount c \<le> 0"
  proof (rule forR_induct [where P = "\<lambda>_ s. case s of (r', d) \<Rightarrow>
      chan_ok t n d \<and> ch_noiseCount d = ch_noiseCount c \<and> ch_validCount d = ch_validCount c"])
    show "case (r, c) of (r', d) \<Rightarrow> chan_ok t n d \<and> ch_noiseCount d = ch_noiseCount c \<and> ch_validCount d = ch_validCount c"
      using c by simp
  next
    fix i and s :: "u64 \<times> 'f stChannel" assume i: "0 \<le> i" "i < 0 + unat (ch_noiseCount c)"
      and P: "case s of (r', d) \<Rightarrow> chan_ok t n d \<and> ch_noiseCount d = ch_noiseCount c \<and> ch_validCount d = ch_validCount c"
    obtain r' d where s: "s = (r', d)" by (cases s)
    have d: "channel_shape d" "i < unat (ch_noiseCount d)" "0 < unat (ch_validCount d)"
      using P i v by (simp_all add: s chan_ok_def word_le_nat_alt)
    have len: "length (ch_spectra d ! subframe) = 128" using d(1) sub by (auto simp: channel_shape_def)
    obtain b x where step: "noise_step F subframe i (r', d) = Inr (next_random r', with_row d subframe ((ch_spectra d ! subframe)[b := x]))"
      using noise_step_ok [OF d(1) sub d(2,3)] unfolding with_row_def by metis
    moreover have "chan_ok t n (with_row d subframe ((ch_spectra d ! subframe)[b := x]))"
      using P len by (intro with_row_ok) (simp_all add: s)
    ultimately show "\<exists>t'. noise_step F subframe i s = Inr t' \<and> (case t' of (r', d) \<Rightarrow>
        chan_ok t n d \<and> ch_noiseCount d = ch_noiseCount c \<and> ch_validCount d = ch_validCount c)"
      using P by (simp add: s with_row_def)
  qed
  then show ?thesis using c by (auto simp: reconstructNoise_def)
qed

lemma hfr_safe:
  assumes c: "chan_ok t n c" and sub: "subframe < 8"
    and fits: "bands = 0 \<or> hfr_fits stereo base tot" and hfr: "hfr = headerCeil2 (tot - base - stereo) bands"
  shows "\<exists>c'. reconstructHighFrequency F hfr bands stereo base tot version subframe c = Inr c' \<and> chan_ok t n c'"
proof (cases "bands = 0 \<or> ch_channelType c = stereoSecondary")
  case True
  with c show ?thesis by (auto simp: reconstructHighFrequency_def)
next
  case False
  let ?row = "(hfr_row F (ch_scaleFactors c) (unat hfr) (unat bands) (unat stereo + unat base)
    (moving_groups version hfr * unat bands) (ch_spectra c ! subframe) (unat tot - (unat stereo + unat base)))[unat tot - 1 := f_of_int F 0]"
  have "channel_shape c" using c by (simp add: chan_ok_def)
  from hfr_result [OF this sub _ _, of stereo base tot bands F version] False fits
  have "reconstructHighFrequency F hfr bands stereo base tot version subframe c = Inr (with_row c subframe ?row)"
    by (simp add: hfr with_row_def)
  moreover have "chan_ok t n (with_row c subframe ?row)"
    using c by (intro with_row_ok) (simp_all add: hfr_row_def)
  ultimately show ?thesis by blast
qed

lemma on_pair_safe:
  assumes "Suc k < length chs" and "chan_ok t n (chs ! k)" and "chan_ok t' n' (chs ! Suc k)"
    and "subframe < 8" and "unat T \<le> 128"
  shows "\<exists>l r. on_pair k subframe B T f chs = Inr (chs[k := l, Suc k := r]) \<and> chan_ok t n l \<and> chan_ok t' n' r"
proof -
  have shape: "channel_shape (chs ! k)" "channel_shape (chs ! Suc k)" using assms(2,3) by (simp_all add: chan_ok_def)
  show ?thesis
    using on_pair_result [OF assms(1) shape assms(4,5), of B f] assms(2,3)
    by (fold with_row_def) (blast intro: with_row_ok length_stereo_row)
qed

lemma ready_numbers:
  assumes "ready h"
  shows "1 \<le> unat (h_channels h)" "unat (h_channels h) \<le> 16" "unat (h_totalBandCount h) \<le> 128"
    "h_hfrGroupCount h = headerCeil2 (h_totalBandCount h - h_baseBandCount h - h_stereoBandCount h) (h_bandsPerHfrGroup h)"
  using assms by (auto simp: ready_def decoder_ok_def channels_ok_def bands_ok_def)

lemma restore_channel_ok:
  assumes ready: "ready h0" "high_bands_fit h0" and m: "moved h0 h" and ch: "ch < unat (h_channels h0)" and sub: "subframe < 8"
  shows "\<exists>h'. restore_channel F subframe ch h = Inr h' \<and> moved h0 h'"
proof (rule movedE [OF m])
  fix r chs
  assume h: "h = h0\<lparr>h_random := r, h_channel := chs\<rparr>" "length chs = 16"
    and ok: "\<And>k. k < 16 \<Longrightarrow> chan_ok (ch_channelType (h_channel h0 ! k)) (ch_codedCount (h_channel h0 ! k)) (chs ! k)"
  have ch16: "ch < 16" using ch ready_numbers(2) [OF ready(1)] by simp
  from noise_safe [OF ok [OF ch16] sub, of F "h_minResolution h0" "h_msStereo h0" r] obtain r' c where
    noise: "reconstructNoise F (h_minResolution h0) (h_msStereo h0) subframe (r, chs ! ch) = Inr (r', c)"
      "chan_ok (ch_channelType (h_channel h0 ! ch)) (ch_codedCount (h_channel h0 ! ch)) c" by blast
  from hfr_safe [OF noise(2) sub ready(2) [unfolded high_bands_fit_def] ready_numbers(4) [OF ready(1)], of F "h_version h0"]
  obtain c' where hfr: "reconstructHighFrequency F (h_hfrGroupCount h0) (h_bandsPerHfrGroup h0) (h_stereoBandCount h0)
      (h_baseBandCount h0) (h_totalBandCount h0) (h_version h0) subframe c = Inr c'"
      "chan_ok (ch_channelType (h_channel h0 ! ch)) (ch_codedCount (h_channel h0 ! ch)) c'" by blast
  have "restore_channel F subframe ch h = Inr (h0\<lparr>h_random := r', h_channel := chs[ch := c']\<rparr>)"
    using noise(1) hfr(1) h ch16 by (simp add: restore_channel_def arr_get_def)
  moreover have "moved h0 (h0\<lparr>h_random := r', h_channel := chs[ch := c']\<rparr>)"
    using h(2) ok hfr(2) ch16 by (intro movedI) (auto simp: nth_list_update)
  ultimately show ?thesis by blast
qed

lemma imdct_channel_ok:
  assumes ready: "ready h0" and m: "moved h0 h" and ch: "ch < unat (h_channels h0)" and sub: "subframe < 8"
  shows "\<exists>h'. imdct_channel F subframe ch h = Inr h' \<and> moved h0 h'"
proof (rule movedE [OF m])
  fix r chs
  assume h: "h = h0\<lparr>h_random := r, h_channel := chs\<rparr>" "length chs = 16"
    and ok: "\<And>k. k < 16 \<Longrightarrow> chan_ok (ch_channelType (h_channel h0 ! k)) (ch_codedCount (h_channel h0 ! k)) (chs ! k)"
  have ch16: "ch < 16" using ch ready_numbers(2) [OF ready(1)] by simp
  from imdct_result [of "chs ! ch" subframe F] sub ok [OF ch16] obtain c where
    c: "imdctTransform F subframe (chs ! ch) = Inr c" by (auto simp: chan_ok_def)
  note c_ok = imdct_keeps_shape [OF ok [OF ch16] sub c]
  have "imdct_channel F subframe ch h = Inr (h0\<lparr>h_random := r, h_channel := chs[ch := c]\<rparr>)"
    using c h ch16 by (simp add: imdct_channel_def arr_get_def)
  moreover have "moved h0 (h0\<lparr>h_random := r, h_channel := chs[ch := c]\<rparr>)"
    using h(2) ok c_ok ch16 by (intro movedI) (auto simp: nth_list_update)
  ultimately show ?thesis by blast
qed

text \<open>Joint stereo on a pair of channels of the right types and shapes.\<close>

lemma intensity_safe:
  assumes "Suc k < length chs" and "chan_ok t n (chs ! k)" and "chan_ok t' n' (chs ! Suc k)"
    and "subframe < 8" and "unat T \<le> 128"
  shows "\<exists>l r. applyIntensityStereo F k subframe B T chs = Inr (chs[k := l, Suc k := r]) \<and> chan_ok t n l \<and> chan_ok t' n' r"
proof (cases "ch_channelType (chs ! k) = stereoPrimary")
  case False
  then have "applyIntensityStereo F k subframe B T chs = Inr (chs[k := chs ! k, Suc k := chs ! Suc k])"
    using assms(1) by (simp add: applyIntensityStereo_def arr_get_def)
  with assms(2,3) show ?thesis by blast
next
  case True
  have i: "subframe < length (ch_intensity (chs ! Suc k))" "ch_intensity (chs ! Suc k) ! subframe \<le> 15"
    using assms(3,4) by (auto simp: chan_ok_def channel_shape_def)
  note ratio = intensity_ratio_ok [OF i(2)]
  show ?thesis
    using True assms(1) i(1) ratio on_pair_safe [OF assms] by (simp add: applyIntensityStereo_def arr_get_def)
qed

lemma ms_safe:
  assumes "Suc k < length chs" and "chan_ok t n (chs ! k)" and "chan_ok t' n' (chs ! Suc k)"
    and "subframe < 8" and "unat T \<le> 128"
  shows "\<exists>l r. applyMsStereo F k ms subframe B T chs = Inr (chs[k := l, Suc k := r]) \<and> chan_ok t n l \<and> chan_ok t' n' r"
proof (cases "ms \<noteq> 0 \<and> ch_channelType (chs ! k) = stereoPrimary")
  case False
  then have "applyMsStereo F k ms subframe B T chs = Inr (chs[k := chs ! k, Suc k := chs ! Suc k])"
    using assms(1) by (auto simp: applyMsStereo_def arr_get_def)
  with assms(2,3) show ?thesis by blast
next
  case True
  then show ?thesis
    using assms(1) on_pair_safe [OF assms] by (simp add: applyMsStereo_def arr_get_def)
qed

lemma stereo_channel_ok:
  assumes ready: "ready h0" and m: "moved h0 h" and ch: "ch < unat (h_channels h0 - 1)" and sub: "subframe < 8"
  shows "\<exists>h'. stereo_channel F subframe ch h = Inr h' \<and> moved h0 h'"
proof (rule movedE [OF m])
  fix r chs
  let ?t = "\<lambda>k. ch_channelType (h_channel h0 ! k)" and ?n = "\<lambda>k. ch_codedCount (h_channel h0 ! k)"
  assume h: "h = h0\<lparr>h_random := r, h_channel := chs\<rparr>" "length chs = 16"
    and ok: "\<And>k. k < 16 \<Longrightarrow> chan_ok (?t k) (?n k) (chs ! k)"
  have "unat (h_channels h0 - 1) = unat (h_channels h0) - 1"
    using ready_numbers(1) [OF ready] by (subst unat_sub) (simp_all add: word_le_nat_alt)
  then have k: "Suc ch < 16" using ch ready_numbers(1,2) [OF ready] by simp
  have T: "unat (h_totalBandCount h0) \<le> 128" by (rule ready_numbers [OF ready])
  from intensity_safe [of ch chs "?t ch" "?n ch" "?t (Suc ch)" "?n (Suc ch)" subframe "h_totalBandCount h0" F "h_baseBandCount h0"]
    k h(2) ok sub T obtain a b where
    1: "applyIntensityStereo F ch subframe (h_baseBandCount h0) (h_totalBandCount h0) chs = Inr (chs[ch := a, Suc ch := b])"
      "chan_ok (?t ch) (?n ch) a" "chan_ok (?t (Suc ch)) (?n (Suc ch)) b" by auto
  from ms_safe [of ch "chs[ch := a, Suc ch := b]" "?t ch" "?n ch" "?t (Suc ch)" "?n (Suc ch)" subframe "h_totalBandCount h0" F "h_msStereo h0" "h_baseBandCount h0"]
    k h(2) 1 sub T obtain c d where
    2: "applyMsStereo F ch (h_msStereo h0) subframe (h_baseBandCount h0) (h_totalBandCount h0) (chs[ch := a, Suc ch := b]) =
        Inr (chs[ch := a, Suc ch := b, ch := c, Suc ch := d])"
      "chan_ok (?t ch) (?n ch) c" "chan_ok (?t (Suc ch)) (?n (Suc ch)) d" by auto
  let ?chs = "chs[ch := a, Suc ch := b, ch := c, Suc ch := d]"
  have "stereo_channel F subframe ch h = Inr (h0\<lparr>h_random := r, h_channel := ?chs\<rparr>)"
    using 1(1) 2(1) by (simp add: stereo_channel_def h(1))
  moreover have "moved h0 (h0\<lparr>h_random := r, h_channel := ?chs\<rparr>)"
    using h(2) ok 2(2,3) k by (intro movedI) (auto simp: nth_list_update)
  ultimately show ?thesis by blast
qed

lemma transform_subframe_ok:
  assumes ready: "ready h0" "high_bands_fit h0" and m: "moved h0 h" and sub: "subframe < 8"
  shows "\<exists>h'. transform_subframe F subframe h = Inr h' \<and> moved h0 h'"
proof -
  have fields: "h_channels g = h_channels h0" "h_stereoBandCount g = h_stereoBandCount h0" if "moved h0 g" for g
    by (rule movedE [OF that], simp)+
  have "\<exists>g. forR (unat (h_channels h0)) 0 (restore_channel F subframe) h = Inr g \<and> moved h0 g"
    by (rule forR_induct [where P = "\<lambda>_. moved h0", OF m]) (use restore_channel_ok [OF ready _ _ sub] in auto)
  then obtain g where g: "forR (unat (h_channels h0)) 0 (restore_channel F subframe) h = Inr g" "moved h0 g" by blast
  have "\<exists>g'. forR (unat (h_channels h0 - 1)) 0 (stereo_channel F subframe) g = Inr g' \<and> moved h0 g'"
    by (rule forR_induct [where P = "\<lambda>_. moved h0", OF g(2)]) (use stereo_channel_ok [OF ready(1) _ _ sub] in auto)
  then obtain g' where g': "(if h_stereoBandCount h0 > 0 then forR (unat (h_channels h0 - 1)) 0 (stereo_channel F subframe) g
      else Inr g) = Inr g'" "moved h0 g'" using g(2) by (cases "h_stereoBandCount h0 > 0") auto
  have "\<exists>g''. forR (unat (h_channels h0)) 0 (imdct_channel F subframe) g' = Inr g'' \<and> moved h0 g''"
    by (rule forR_induct [where P = "\<lambda>_. moved h0", OF g'(2)]) (use imdct_channel_ok [OF ready(1) _ _ sub] in auto)
  then show ?thesis using g g' m by (auto simp: transform_subframe_def fields)
qed

lemma transform_ok:
  assumes "ready h" and "high_bands_fit h"
  shows "\<exists>h'. decodeBlockTransform F h = Inr h' \<and> moved h h'"
proof -
  have "shape h" using assms(1) by (simp add: ready_def decoder_ok_def shape_def)
  then have m: "moved h h" using retyped_refl [of h] by (simp add: moved_def)
  show ?thesis
    unfolding decodeBlockTransform_def
    by (rule forR_induct [where P = "\<lambda>_. moved h", OF m]) (use transform_subframe_ok [OF assms] in auto)
qed

section \<open>The score of a decoded frame\<close>

text \<open>How a sample counts.\<close>

definition clipped :: "'f float_ops \<Rightarrow> 'f \<Rightarrow> bool" where
  "clipped F x \<longleftrightarrow> f_less F (f_of_int F 1) x \<or> f_less F x (f_of_int F (- 1))"

definition blank :: "'f float_ops \<Rightarrow> 'f \<Rightarrow> bool" where
  "blank F x \<longleftrightarrow> \<not> clipped F x \<and> f_to_int32 F (f_mul F x (f_of_int F 32768)) \<in> {0, - 1}"

lemma score_sample_eq:
  "ch < length cb \<Longrightarrow> score_sample F ch x (clips, blanks, cb) =
    (clips + of_bool (clipped F x), blanks + of_bool (blank F x), cb[ch := cb ! ch + of_bool (blank F x)])"
  by (auto simp: score_sample_def clipped_def blank_def Let_def)

lemma score_samples:
  assumes "ch < length cb"
  shows "fold (score_sample F ch) xs (clips, blanks, cb) =
    (clips + int (length (filter (clipped F) xs)), blanks + int (length (filter (blank F) xs)),
     cb[ch := cb ! ch + int (length (filter (blank F) xs))])"
  using assms
proof (induction xs arbitrary: clips blanks cb)
  case Nil
  then show ?case by simp
next
  case (Cons x xs)
  then show ?case by (simp add: score_sample_eq add.assoc)
qed

definition blanks_of :: "'f float_ops \<Rightarrow> 'f stChannel \<Rightarrow> int" where
  "blanks_of F c = int (length (filter (blank F) (concat (ch_wave c))))"

definition clips_of :: "'f float_ops \<Rightarrow> 'f stChannel \<Rightarrow> int" where
  "clips_of F c = int (length (filter (clipped F) (concat (ch_wave c))))"

lemma score_channels_loop:
  assumes "i + length cs \<le> length cb"
  shows "fold (\<lambda>(ch, c). fold (score_sample F ch) (concat (ch_wave c))) (enumerate i cs) (clips, blanks, cb) =
    (clips + sum_list (map (clips_of F) cs), blanks + sum_list (map (blanks_of F) cs),
     map (\<lambda>k. cb ! k + (if i \<le> k \<and> k < i + length cs then blanks_of F (cs ! (k - i)) else 0)) [0..<length cb])"
  using assms
proof (induction cs arbitrary: i clips blanks cb)
  case Nil
  show ?case by (auto intro!: nth_equalityI)
next
  case (Cons c cs)
  then have i: "i < length cb" by simp
  let ?cb = "cb[i := cb ! i + blanks_of F c]"
  have "map (\<lambda>k. ?cb ! k + (if Suc i \<le> k \<and> k < Suc i + length cs then blanks_of F (cs ! (k - Suc i)) else 0)) [0..<length cb] =
    map (\<lambda>k. cb ! k + (if i \<le> k \<and> k < i + length (c # cs) then blanks_of F ((c # cs) ! (k - i)) else 0)) [0..<length cb]"
    using i by (auto simp: nth_list_update nth_Cons' Suc_le_eq)
  with Cons i score_samples [OF i, of F "concat (ch_wave c)" clips blanks] show ?case
    by (simp add: blanks_of_def [symmetric] clips_of_def [symmetric] algebra_simps)
qed

lemma score_channels_eq:
  assumes "length (h_channel h) = 16"
  defines "cs \<equiv> take (unat (h_channels h)) (h_channel h)"
  shows "score_channels F h =
    (sum_list (map (clips_of F) cs), sum_list (map (blanks_of F) cs),
     map (\<lambda>k. if k < length cs then blanks_of F (cs ! k) else 0) [0..<16])"
  using score_channels_loop [of 0 cs "replicate 16 0" F 0 0] assms(1)
  by (simp add: score_channels_def cs_def cong: map_cong)

section \<open>The order of the samples\<close>

lemma length_concat_uniform: "(\<And>x. x \<in> set xs \<Longrightarrow> length (f x) = m) \<Longrightarrow> length (concat (map f xs)) = m * length xs"
  by (induction xs) auto

lemma concat_nth:
  assumes "\<And>x. x < n \<Longrightarrow> length (f x) = m" and "i < n" and "j < m"
  shows "concat (map f [0..<n]) ! (m * i + j) = f i ! j"
  using assms
proof (induction n)
  case 0
  then show ?case by simp
next
  case (Suc n)
  have len: "length (concat (map f [0..<n])) = m * n"
    using length_concat_uniform [of "[0..<n]" f m] Suc.prems(1) by simp
  show ?case
  proof (cases "i < n")
    case True
    have "m * i + j < m * n"
    proof -
      have "m * Suc i \<le> m * n" using True by (intro mult_le_mono) simp_all
      then show ?thesis using Suc.prems(3) by simp
    qed
    then show ?thesis using Suc True len by (simp add: nth_append)
  next
    case False
    then have "i = n" using Suc.prems(2) by simp
    then show ?thesis using len by (simp add: nth_append)
  qed
qed

lemma interleaved_length: "length (interleaved h) = 1024 * unat (h_channels h)"
proof -
  have 1: "length (concat (map (\<lambda>j. map (\<lambda>k. ch_wave (h_channel h ! k) ! i ! j) [0..<unat (h_channels h)]) [0..<128])) =
      unat (h_channels h) * 128" for i
    by (subst length_concat_uniform) simp_all
  show ?thesis unfolding interleaved_def by (subst length_concat_uniform [OF 1]) simp
qed

lemma interleaved_nth:
  assumes "i < 8" and "j < 128" and "k < unat (h_channels h)"
  shows "interleaved h ! ((128 * i + j) * unat (h_channels h) + k) = ch_wave (h_channel h ! k) ! i ! j"
proof -
  let ?n = "unat (h_channels h)"
  let ?row = "\<lambda>i. concat (map (\<lambda>j. map (\<lambda>k. ch_wave (h_channel h ! k) ! i ! j) [0..<?n]) [0..<128])"
  have len: "length (?row i) = ?n * 128" for i by (subst length_concat_uniform) simp_all
  have "?n * j + k < ?n * 128"
  proof -
    have "?n * Suc j \<le> ?n * 128" using assms(2) by (intro mult_le_mono2) simp
    moreover have "?n * Suc j = ?n * j + ?n" by simp
    ultimately show ?thesis using assms(3) by linarith
  qed
  then have "concat (map ?row [0..<8]) ! (?n * 128 * i + (?n * j + k)) = ?row i ! (?n * j + k)"
    by (intro concat_nth len assms(1))
  also have "\<dots> = map (\<lambda>k. ch_wave (h_channel h ! k) ! i ! j) [0..<?n] ! k"
    by (rule concat_nth [OF _ assms(2)]) (simp_all add: assms(3))
  finally show ?thesis using assms(3) by (simp add: interleaved_def algebra_simps)
qed

section \<open>Properties\<close>

lemma moved_same:
  assumes "moved h0 h"
  shows "h = h0\<lparr>h_random := h_random h, h_channel := h_channel h\<rparr>"
  by (rule movedE [OF assms]) simp

lemma retyped_moved: "retyped h0 h \<Longrightarrow> moved h0 h"
  by (rule retypedE, assumption) (auto simp: moved_def retyped_def)

lemma moved_trans:
  assumes "retyped h0 h1" and "moved h1 h2"
  shows "moved h0 h2"
proof (rule movedE [OF assms(2)])
  fix r chs
  assume h: "h2 = h1\<lparr>h_random := r, h_channel := chs\<rparr>" "length chs = 16"
    "\<And>k. k < 16 \<Longrightarrow> chan_ok (ch_channelType (h_channel h1 ! k)) (ch_codedCount (h_channel h1 ! k)) (chs ! k)"
  show ?thesis
  proof (rule retypedE [OF assms(1)])
    fix chs1
    assume h1: "h1 = h0\<lparr>h_channel := chs1\<rparr>"
      "\<And>k. k < 16 \<Longrightarrow> chan_ok (ch_channelType (h_channel h0 ! k)) (ch_codedCount (h_channel h0 ! k)) (chs1 ! k)"
    have "h2 = h0\<lparr>h_random := r, h_channel := chs\<rparr>" by (simp add: h h1)
    moreover have "chan_ok (ch_channelType (h_channel h0 ! k)) (ch_codedCount (h_channel h0 ! k)) (chs ! k)" if "k < 16" for k
      using h(3) [OF that] h1(2) [OF that] by (simp add: h1(1) chan_ok_def)
    ultimately show ?thesis using movedI [OF h(2)] by metis
  qed
qed

lemma high_bands_fit_retyped: "retyped h0 h \<Longrightarrow> high_bands_fit h \<longleftrightarrow> high_bands_fit h0"
  by (erule retypedE) (simp add: high_bands_fit_def)

lemma decoded_block:
  assumes h: "ready h" "all_scales_fit h" "high_bands_fit h" and run: "DecodeBlock F data h = (r, h', data')"
  shows "moved h h' \<and> length data' = length data \<and>
    (case r of Inl e \<Rightarrow> e = Panic ''negative shift amount'' \<or> e = Failure ''unpack failed''
     | Inr _ \<Rightarrow> crc (take (unat (h_frameSize h)) data) = 0 \<and>
         data' = cipherDecrypt (h_cipherTable h) data (unat (h_frameSize h)))"
proof -
  obtain q g d where unpack: "decodeBlockUnpack F data h = (q, g, d)" by (metis surj_pair)
  then have res: "frame_result h data (q, g, d)" using unpacked_frame [OF h(1,2), of data F] by simp
  then have g: "retyped h g" "length d = length data" by (simp_all add: frame_result_def)
  have "ready g" "high_bands_fit g" using retyped_ready [OF g(1) h(1)] h(3) high_bands_fit_retyped [OF g(1)] by simp_all
  from transform_ok [OF this, of F] obtain g' where t: "decodeBlockTransform F g = Inr g'" "moved g g'" by blast
  show ?thesis
  proof (cases q)
    case (Inl e)
    then show ?thesis using run unpack res g retyped_moved [OF g(1)] by (auto simp: DecodeBlock_def frame_result_def)
  next
    case (Inr n)
    show ?thesis
    proof (cases "n < 0")
      case True
      then show ?thesis using run unpack Inr g retyped_moved [OF g(1)] by (auto simp: DecodeBlock_def)
    next
      case False
      then show ?thesis
        using run unpack Inr g t moved_trans [OF g(1) t(2)] res by (auto simp: DecodeBlock_def frame_result_def)
    qed
  qed
qed

text \<open>
  C17: decoding a frame is safe. From a decoder in order, whose scales and high bands fit, no data
  make the transformation panic, and the unpacking only at the end of the data; the decoder stays
  in order whatever happens, nothing in it but the noise generator and the channels changes, and
  a frame is decoded only if its checksum is right, its bytes then decrypted in place.
\<close>

theorem decoding_a_block_is_safe:
  assumes "ready h" and "all_scales_fit h" and "high_bands_fit h" and "DecodeBlock F data h = (r, h', data')"
  shows "ready h' \<and> h' = h\<lparr>h_random := h_random h', h_channel := h_channel h'\<rparr> \<and> length data' = length data \<and>
    (case r of Inl e \<Rightarrow> e = Panic ''negative shift amount'' \<or> e = Failure ''unpack failed''
     | Inr _ \<Rightarrow> crc (take (unat (h_frameSize h)) data) = 0 \<and>
         data' = cipherDecrypt (h_cipherTable h) data (unat (h_frameSize h)))"
proof -
  note res = decoded_block [OF assms]
  then have m: "moved h h'" by blast
  show ?thesis using res moved_ready [OF m assms(1)] moved_same [OF m] by blast
qed

lemma decoding_a_block_is_safe_witness:
  "\<exists>h' data'. DecodeBlock nat_ops [] sample_decoder = (Inl (Failure ''unpack failed''), h', data') \<and> ready h'"
proof -
  have "h_frameSize sample_decoder = 256"
    using DecodeHeader_cases [OF shape_NewClHCA sample_run] by (simp add: fixed_def fields_read_def sample_fields)
  then have run: "DecodeBlock nat_ops [] sample_decoder = (Inl (Failure ''unpack failed''), sample_decoder, [])"
    by (simp add: DecodeBlock_def decodeBlockUnpack_def)
  have "high_bands_fit sample_decoder"
    using sample_band_field by (simp add: high_bands_fit_def sample_decoder_def)
  from decoding_a_block_is_safe [OF sample_ready(1) sample_scales_fit this run] run show ?thesis by blast
qed

text \<open>
  The score of a frame. With \<open>clips\<close> samples beyond full scale and \<open>blanks\<close> samples that round
  to silence, over the channels in use: one clip counts as two, more count as many; without any, a
  frame that is silent in all channels scores 0, one that is silent in the first channel alone 3,
  and every other 1.
\<close>

theorem score_of_a_frame:
  fixes F :: "'f float_ops" and h :: "'f ClHCA"
  assumes "length (h_channel h) = 16" and "1 \<le> unat (h_channels h)" and "unat (h_channels h) \<le> 16"
  defines "cs \<equiv> take (unat (h_channels h)) (h_channel h)"
  defines "clips \<equiv> sum_list (map (clips_of F) cs)"
  shows "evaluateDecodeQuality F h =
    (if clips = 1 then 2 else if clips > 1 then clips
     else if sum_list (map (blanks_of F) cs) = int (length cs) * 1024 then 0
     else if length cs \<ge> 2 \<and> blanks_of F (cs ! 0) = 1024 \<and> blanks_of F (cs ! 1) \<noteq> 1024 then 3
     else 1)"
proof -
  have len: "length cs = unat (h_channels h)" using assms(1,3) by (simp add: cs_def)
  have "uint (h_channels h) \<le> 16" using assms(3) nat_le_iff [of "uint (h_channels h)" 16] by simp
  then have "sint (h_channels h) = int (length cs)" unfolding len by (subst sint_small) simp_all
  moreover have "h_channels h \<ge> 2 \<longleftrightarrow> length cs \<ge> 2" unfolding len by (simp add: word_le_nat_alt)
  ultimately show ?thesis
    using assms(2) len
    by (simp add: evaluateDecodeQuality_def score_channels_eq [OF assms(1)] cs_def [symmetric] clips_def [symmetric]
        calculateScore_def Let_def)
qed

lemma score_of_a_frame_witness:
  "evaluateDecodeQuality nat_ops ((NewClHCA 0)\<lparr>h_channels := 2\<rparr>) = 0"
proof -
  have c: "clips_of nat_ops (zeroChannel 0) = 0" "blanks_of nat_ops (zeroChannel 0) = 1024"
    by (simp_all add: clips_of_def blanks_of_def clipped_def blank_def nat_ops_def zeroChannel_def
        filter_concat length_concat sum_list_replicate)
  have t: "take 2 (replicate 16 (zeroChannel (0 :: nat))) = [zeroChannel 0, zeroChannel 0]"
    by (simp only: take_replicate) (simp add: numeral_2_eq_2)
  show ?thesis
    by (subst score_of_a_frame) (simp_all add: NewClHCA_def t c sum_list_replicate)
qed

text \<open>
  Samples are interleaved. A buffer of 1024 samples a channel is filled with the frame: sample
  \<open>j\<close> of subframe \<open>i\<close> of channel \<open>k\<close> goes to place \<open>(128 * i + j) * channels + k\<close>, in 16 bits
  clamped to their range; a shorter buffer makes the code panic.
\<close>

theorem samples_are_interleaved:
  assumes "i < 8" and "j < 128" and "k < unat (h_channels h)"
  shows "case ReadSamples16 F samples h of
      Inl e \<Rightarrow> e = Panic ''index out of range'' \<and> length samples < 1024 * unat (h_channels h)
    | Inr out \<Rightarrow> 1024 * unat (h_channels h) \<le> length samples \<and> length out = length samples \<and>
        drop (1024 * unat (h_channels h)) out = drop (1024 * unat (h_channels h)) samples \<and>
        sint (out ! ((128 * i + j) * unat (h_channels h) + k)) =
          max (- 32768) (min 32767 (f_to_int32 F (f_mul F (ch_wave (h_channel h ! k) ! i ! j) (f_of_int F 32768))))"
proof -
  let ?n = "unat (h_channels h)"
  have clamp: "sint (pcm16 F x) = max (- 32768) (min 32767 (f_to_int32 F (f_mul F x (f_of_int F 32768))))" for x
    by (auto simp: pcm16_def Let_def sint_sbintrunc' signed_take_bit_int_eq_self)
  have "(128 * i + j) * ?n + k < 1024 * ?n"
  proof -
    have "Suc (128 * i + j) * ?n \<le> 1024 * ?n" using assms(1,2) by (intro mult_le_mono1) simp
    moreover have "Suc (128 * i + j) * ?n = (128 * i + j) * ?n + ?n" by simp
    ultimately show ?thesis using assms(3) by linarith
  qed
  then show ?thesis
    using interleaved_nth [OF assms]
    by (auto simp: ReadSamples16_def fill_buffer_def interleaved_length nth_append clamp)
qed

lemma samples_are_interleaved_witness:
  "case ReadSamples16 nat_ops (replicate 1025 7) ((NewClHCA 0)\<lparr>h_channels := 1\<rparr>) of
     Inl e \<Rightarrow> False | Inr out \<Rightarrow> sint (out ! 1023) = 0"
  using samples_are_interleaved [where i = 7 and j = 127 and k = 0 and h = "(NewClHCA 0)\<lparr>h_channels := 1\<rparr>"
      and F = nat_ops and samples = "replicate 1025 7"]
  by (simp add: NewClHCA_def zeroChannel_def nat_ops_def split: sum.splits)

end
