(* ===== verification/HcaDecoder.thy ===== *)
theory HcaDecoder
  imports GoIO HcaBlock
begin

text \<open>
  \<open>internal/cricodecs/hca/hcadecoder.go\<close>: the streaming decoder over an \<open>io.ReadSeeker\<close>, which
  reads the frames of a file one after another, drops the samples of the encoder's delay, writes a
  WAV file, and scores a key.

  The field \<open>reader\<close> of the source's struct is the first component of the state, the other fields
  are the second, so the same code runs over every reader. \<open>NewHCADecoder\<close> and \<open>Close\<close>, which
  only open and close the file, are not modelled.
\<close>

section \<open>The state\<close>

record 'f CriWareHCADecoder =
  d_info :: CriWareHCAInfo
  d_handle :: "'f ClHCA"
  d_buf :: bytes
  d_fbuf :: "'f list"
  d_currentDelay :: int
  d_currentBlock :: u64

type_synonym ('s, 'f) dec = "'s \<times> 'f CriWareHCADecoder"

record KeyTest =
  kt_Key :: u64
  kt_Subkey :: u64
  kt_StartOffset :: u64
  kt_BestScore :: int
  kt_BestKey :: u64

definition hcaKeyScoreScale :: int where "hcaKeyScoreScale = 10"
definition hcaKeyMaxSkipBlanks :: int where "hcaKeyMaxSkipBlanks = 1200"
definition hcaKeyMinTestFrames :: int where "hcaKeyMinTestFrames = 3"
definition hcaKeyMaxTestFrames :: int where "hcaKeyMaxTestFrames = 7"
definition hcaKeyMaxFrameScore :: int where "hcaKeyMaxFrameScore = 600"
definition hcaKeyMaxTotalScore :: int where "hcaKeyMaxTotalScore = hcaKeyMaxTestFrames * 50 * hcaKeyScoreScale"

text \<open>Steps on the reader, on the rest of the decoder, and of a fallible function.\<close>

definition onReader :: "('s, 'a) io \<Rightarrow> ('s \<times> 'd, 'a) io" where
  "onReader m st = (case m (fst st) of (r, s) \<Rightarrow> (r, (s, snd st)))"

definition onDecoder :: "('d, 'a) io \<Rightarrow> ('s \<times> 'd, 'a) io" where
  "onDecoder f st = (case f (snd st) of (r, d) \<Rightarrow> (r, (fst st, d)))"

definition getD :: "('s \<times> 'd, 'd) io" where
  "getD st = (Inr (snd st), st)"

definition modD :: "('d \<Rightarrow> 'd) \<Rightarrow> ('s \<times> 'd, unit) io" where
  "modD f st = (Inr (), (fst st, f (snd st)))"

definition fromR :: "go_err + 'a \<Rightarrow> ('s, 'a) io" where
  "fromR r s = (r, s)"

section \<open>Opening\<close>

definition Reset :: "'f float_ops \<Rightarrow> 'f CriWareHCADecoder \<Rightarrow> 'f CriWareHCADecoder" where
  "Reset F d = d\<lparr>d_handle := DecodeReset (f_of_int F 0) (d_handle d), d_currentBlock := 0,
                 d_currentDelay := sint (in_EncoderDelay (d_info d))\<rparr>"

text \<open>The part of \<open>NewHCADecoderFromReader\<close> behind the reading of the header.\<close>

definition open_header :: "'f float_ops \<Rightarrow> bytes \<Rightarrow> go_err + 'f CriWareHCADecoder" where
  "open_header F fullHeader =
     (case DecodeHeader fullHeader (NewClHCA (f_of_int F 0)) of
        (Inl e, _) \<Rightarrow> Inl (if is_panic e then e else Failure ''failed to decode header'')
      | (Inr _, handle) \<Rightarrow>
          bindR (GetInfo handle) (\<lambda>info.
            Inr (Reset F \<lparr>d_info = info, d_handle = handle, d_buf = replicate (unat (in_BlockSize info)) 0,
              d_fbuf = replicate (unat (in_ChannelCount info * in_SamplesPerBlock info)) (f_of_int F 0),
              d_currentDelay = 0, d_currentBlock = 0\<rparr>)))"

definition NewHCADecoderFromReader :: "'s read_seeker \<Rightarrow> 'f float_ops \<Rightarrow> ('s, 'f CriWareHCADecoder) io" where
  "NewHCADecoderFromReader R F =
     bindS (checkErr (\<lambda>s. rs_read R s 8)) (\<lambda>got.
     bindS (fromR (IsOurFile (got @ replicate (8 - length got) 0))) (\<lambda>headerSize.
       if headerSize < 0 \<or> headerSize > 0x1000 then throwS (Failure ''invalid HCA header'')
       else
         bindS (checkErr (\<lambda>s. rs_seek R s 0 SeekStart)) (\<lambda>_.
         bindS (checkErr (read_full R (nat headerSize))) (\<lambda>fullHeader.
           fromR (open_header F fullHeader)))))"

definition SetEncryptionKey :: "u64 \<Rightarrow> u64 \<Rightarrow> 'f CriWareHCADecoder \<Rightarrow> 'f CriWareHCADecoder" where
  "SetEncryptionKey keycode subkey d =
     (let keycode = (if subkey \<noteq> 0
        then keycode * (push_bit 16 subkey OR (ucast (NOT (ucast subkey :: u16)) + 2)) else keycode)
      in d\<lparr>d_handle := SetKey keycode (d_handle d)\<rparr>)"

section \<open>Frames\<close>

text \<open>\<open>io.ReadFull(d.reader, d.buf)\<close>: what was read replaces the start of the buffer.\<close>

definition readBuf :: "'s read_seeker \<Rightarrow> (('s, 'f) dec, nat) io" where
  "readBuf R st =
     (let d = snd st; n = length (d_buf d) in
      case read_loop R n (fst st) of
        ((got, e), s) \<Rightarrow>
          (case read_full_err n got e of None \<Rightarrow> Inr (length got) | Some err \<Rightarrow> Inl err,
           (s, d\<lparr>d_buf := got @ drop (length got) (d_buf d)\<rparr>)))"

definition readPacket :: "'s read_seeker \<Rightarrow> (('s, 'f) dec, unit) io" where
  "readPacket R =
     bindS getD (\<lambda>d.
       if d_currentBlock d \<ge> in_BlockCount (d_info d) then throwS EOF
       else
         bindS (onReader (checkErr (\<lambda>s. rs_seek R s
           (sint (in_HeaderSize (d_info d) + d_currentBlock d * in_BlockSize (d_info d))) SeekStart))) (\<lambda>_.
         bindS (readBuf R) (\<lambda>n.
           if int n \<noteq> sint (in_BlockSize (d_info d)) then throwS (Failure ''short block'')
           else modD (\<lambda>d. d\<lparr>d_currentBlock := d_currentBlock d + 1\<rparr>))))"

definition decodeBuf :: "'f float_ops \<Rightarrow> ('f CriWareHCADecoder, unit) io" where
  "decodeBuf F d =
     (case DecodeBlock F (d_buf d) (d_handle d) of
        (r, h, data) \<Rightarrow> (r, d\<lparr>d_handle := h, d_buf := data\<rparr>))"

definition readSamplesFbuf :: "('f CriWareHCADecoder, unit) io" where
  "readSamplesFbuf d =
     (case ReadSamples (d_fbuf d) (d_handle d) of
        Inl e \<Rightarrow> (Inl e, d)
      | Inr fbuf \<Rightarrow> (Inr (), d\<lparr>d_fbuf := fbuf\<rparr>))"

text \<open>The samples to drop from a frame; \<open>None\<close> when the delay covers all of it.\<close>

definition takeDelay :: "('f CriWareHCADecoder, int option) io" where
  "takeDelay d =
     (let samples = sint (in_SamplesPerBlock (d_info d)) in
      if d_currentDelay d > 0 then
        if d_currentDelay d \<ge> samples then (Inr None, d\<lparr>d_currentDelay := d_currentDelay d - samples\<rparr>)
        else (Inr (Some (d_currentDelay d)), d\<lparr>d_currentDelay := 0\<rparr>)
      else (Inr (Some 0), d))"

definition DecodeFrame :: "'s read_seeker \<Rightarrow> 'f float_ops \<Rightarrow> (('s, 'f) dec, 'f list \<times> int) io" where
  "DecodeFrame R F =
     bindS (readPacket R) (\<lambda>_.
     bindS (wrapErr ''decode failed'' (onDecoder (decodeBuf F))) (\<lambda>_.
     bindS (onDecoder readSamplesFbuf) (\<lambda>_.
     bindS (onDecoder takeDelay) (\<lambda>delay.
     bindS getD (\<lambda>d.
       case delay of
         None \<Rightarrow> returnS ([], 0)
       | Some discard \<Rightarrow>
           (let startIdx = discard * sint (in_ChannelCount (d_info d)) in
            if startIdx < 0 \<or> int (length (d_fbuf d)) < startIdx then throwS (Panic ''slice bounds out of range'')
            else returnS (drop (nat startIdx) (d_fbuf d), sint (in_SamplesPerBlock (d_info d)) - discard)))))))"

section \<open>Every frame moves to the next block\<close>

lemma readPacket_moves:
  assumes "readPacket R (s, d) = (Inr u, (s', d'))"
  shows "d_currentBlock d < in_BlockCount (d_info d) \<and> d_info d' = d_info d \<and> d_handle d' = d_handle d \<and>
    d_fbuf d' = d_fbuf d \<and> d_currentDelay d' = d_currentDelay d \<and> d_currentBlock d' = d_currentBlock d + 1"
  using assms
  by (auto simp: readPacket_def getD_def modD_def onReader_def readBuf_def Let_def bindS_def
      split: if_splits prod.splits sum.splits option.splits)

lemma decodeBuf_keeps:
  "decodeBuf F d = (r, d') \<Longrightarrow> d_info d' = d_info d \<and> d_fbuf d' = d_fbuf d \<and>
    d_currentDelay d' = d_currentDelay d \<and> d_currentBlock d' = d_currentBlock d"
  by (auto simp: decodeBuf_def split: prod.splits)

lemma readSamplesFbuf_keeps:
  "readSamplesFbuf d = (r, d') \<Longrightarrow> d_info d' = d_info d \<and> d_handle d' = d_handle d \<and> d_buf d' = d_buf d \<and>
    d_currentDelay d' = d_currentDelay d \<and> d_currentBlock d' = d_currentBlock d"
  by (auto simp: readSamplesFbuf_def split: sum.splits)

lemma takeDelay_keeps:
  "takeDelay d = (r, d') \<Longrightarrow> d_info d' = d_info d \<and> d_handle d' = d_handle d \<and> d_buf d' = d_buf d \<and>
    d_fbuf d' = d_fbuf d \<and> d_currentBlock d' = d_currentBlock d"
  by (auto simp: takeDelay_def Let_def split: if_splits)

lemma onDecoder_InrE [go_elims]:
  assumes "onDecoder f st = (Inr x, t)"
  obtains d where "f (snd st) = (Inr x, d)" and "t = (fst st, d)"
  using assms by (auto simp: onDecoder_def split: prod.splits)

lemma getD_iff [simp]: "getD st = (r, t) \<longleftrightarrow> r = Inr (snd st) \<and> t = st"
  by (auto simp: getD_def)

lemma DecodeFrame_moves:
  assumes "DecodeFrame R F (s, d) = (Inr x, (s', d'))"
  shows "d_currentBlock d < in_BlockCount (d_info d) \<and> d_info d' = d_info d \<and>
    d_currentBlock d' = d_currentBlock d + 1"
  using assms unfolding DecodeFrame_def
  by (auto elim!: go_elims dest!: readPacket_moves decodeBuf_keeps readSamplesFbuf_keeps takeDelay_keeps
      simp: Let_def split: option.splits if_splits)

lemma next_block_less:
  assumes "b < (c :: u64)"
  shows "unat c - unat (b + 1) < unat c - unat b" "unat (b + 1) = Suc (unat b)"
proof -
  have "unat b < unat c" using assms by (simp add: word_less_nat_alt)
  moreover have "unat c < 2 ^ 64" using unsigned_less [of c] by simp
  ultimately show "unat (b + 1) = Suc (unat b)" by (subst unat_word_ariths) simp
  then show "unat c - unat (b + 1) < unat c - unat b" using \<open>unat b < unat c\<close> by simp
qed

section \<open>Whole files\<close>

text \<open>The loop of \<open>DecodeAll\<close>: it ends at \<open>io.EOF\<close>.\<close>

function decode_all_loop :: "'s read_seeker \<Rightarrow> 'f float_ops \<Rightarrow> (('s, 'f) dec, 'f list) io" where
  "decode_all_loop R F st =
     (case DecodeFrame R F st of
        (Inl e, st') \<Rightarrow> if e = EOF then (Inr [], st') else (Inl e, st')
      | (Inr (samples, numSamples), st') \<Rightarrow>
          (let samplesToAdd = numSamples * sint (in_ChannelCount (d_info (snd st'))) in
           if samplesToAdd < 0 \<or> int (length samples) < samplesToAdd
           then (Inl (Panic ''slice bounds out of range''), st')
           else case decode_all_loop R F st' of
             (Inl e, t) \<Rightarrow> (Inl e, t)
           | (Inr rest, t) \<Rightarrow> (Inr (take (nat samplesToAdd) samples @ rest), t)))"
  by pat_completeness auto
termination
proof (relation "measure (\<lambda>(R, F, s, d). unat (in_BlockCount (d_info d)) - unat (d_currentBlock d))")
  fix R :: "'s read_seeker" and F :: "'f float_ops" and st p st' r x y z
  show "wf (measure (\<lambda>(R :: 's read_seeker, F :: 'f float_ops, s :: 's, d). unat (in_BlockCount (d_info d)) - unat (d_currentBlock d)))"
    by simp
qed (auto dest!: DecodeFrame_moves [OF sym] next_block_less(1))

declare decode_all_loop.simps [simp del]

text \<open>A negative capacity makes \<open>make\<close> panic.\<close>

definition DecodeAll :: "'s read_seeker \<Rightarrow> 'f float_ops \<Rightarrow> (('s, 'f) dec, 'f list) io" where
  "DecodeAll R F =
     bindS (modD (Reset F)) (\<lambda>_.
     bindS getD (\<lambda>d.
       let totalSamples = sint (in_BlockCount (d_info d) * in_SamplesPerBlock (d_info d)) in
       if totalSamples * sint (in_ChannelCount (d_info d)) < 0 then throwS (Panic ''makeslice: cap out of range'')
       else decode_all_loop R F))"

text \<open>\<open>Seek\<close>: the loop fields of the info are used to keep the target.\<close>

definition Seek :: "int \<Rightarrow> 'f CriWareHCADecoder \<Rightarrow> 'f CriWareHCADecoder" where
  "Seek sampleNum d =
     (let i = d_info d;
          i = (if in_LoopStartBlock i = 0 \<and> in_LoopStartDelay i = 0 then
                 let targetSample = of_int sampleNum + in_EncoderDelay i;
                     block = targetSample div in_SamplesPerBlock i
                 in i\<lparr>in_LoopStartBlock := block,
                      in_LoopStartDelay := targetSample - block * in_SamplesPerBlock i\<rparr>
               else i)
      in d\<lparr>d_info := i, d_currentBlock := in_LoopStartBlock i, d_currentDelay := sint (in_LoopStartDelay i)\<rparr>)"

section \<open>Scoring a key\<close>

definition shouldSkipBlankFrame :: "int \<Rightarrow> int \<Rightarrow> bool" where
  "shouldSkipBlankFrame score blankFrames \<longleftrightarrow> score = 0 \<and> blankFrames < hcaKeyMaxSkipBlanks"

definition scaleFrameScore :: "int \<Rightarrow> int" where
  "scaleFrameScore score =
     (if score = 1 then 1 else if score = 0 then 3 * hcaKeyScoreScale else score * hcaKeyScoreScale)"

definition finalizeScore :: "int \<Rightarrow> int \<Rightarrow> int" where
  "finalizeScore totalScore testFrames =
     (if testFrames > hcaKeyMinTestFrames \<and> totalScore > 0 \<and> totalScore \<le> testFrames then 1 else totalScore)"

text \<open>\<open>recoverS x m\<close>: an error of \<open>m\<close> gives the value \<open>x\<close>; a panic passes through.\<close>

definition recoverS :: "'a \<Rightarrow> ('s, 'a) io \<Rightarrow> ('s, 'a) io" where
  "recoverS x m s = (case m s of (Inl e, t) \<Rightarrow> (if is_panic e then Inl e else Inr x, t) | (Inr v, t) \<Rightarrow> (Inr v, t))"

text \<open>The block at an offset: its length if it could be read.\<close>

definition readTestBlock :: "'s read_seeker \<Rightarrow> u64 \<Rightarrow> (('s, 'f) dec, nat option) io" where
  "readTestBlock R offset =
     recoverS None
       (bindS (onReader (checkErr (\<lambda>s. rs_seek R s (sint offset) SeekStart))) (\<lambda>_.
        bindS (readBuf R) (\<lambda>n. bindS getD (\<lambda>d.
          returnS (if int n \<noteq> sint (in_BlockSize (d_info d)) then None else Some n)))))"

definition testBuf :: "'f float_ops \<Rightarrow> ('f CriWareHCADecoder, int) io" where
  "testBuf F d =
     (case TestBlock F (d_buf d) (d_handle d) of
        (r, h, data) \<Rightarrow> (r, d\<lparr>d_handle := h, d_buf := data\<rparr>))"

text \<open>The score, whether to break, and the next offset, with the key test it may update.\<close>

definition testSingleFrame ::
    "'s read_seeker \<Rightarrow> 'f float_ops \<Rightarrow> KeyTest \<Rightarrow> u64 \<Rightarrow> (('s, 'f) dec, (int \<times> bool \<times> u64) \<times> KeyTest) io" where
  "testSingleFrame R F kt offset =
     bindS (readTestBlock R offset) (\<lambda>b.
       case b of
         None \<Rightarrow> returnS ((- 1, False, offset), kt)
       | Some n \<Rightarrow>
           bindS (onDecoder (testBuf F)) (\<lambda>score.
             let kt = (if kt_StartOffset kt = 0 \<and> score \<noteq> 0 then kt\<lparr>kt_StartOffset := offset\<rparr> else kt);
                 newOffset = offset + of_nat n
             in returnS (if score < 0 \<or> score > hcaKeyMaxFrameScore then (0, True, newOffset)
                         else (score, False, newOffset), kt)))"

text \<open>The counters of \<open>testHCAScore\<close>.\<close>

record score_state =
  sc_testFrames :: int
  sc_currentFrame :: u64
  sc_blankFrames :: int
  sc_totalScore :: int
  sc_offset :: u64

text \<open>The loop of \<open>testHCAScore\<close> over the number of blocks.\<close>

function score_loop ::
    "'s read_seeker \<Rightarrow> 'f float_ops \<Rightarrow> u64 \<Rightarrow> KeyTest \<Rightarrow> score_state \<Rightarrow> (('s, 'f) dec, score_state \<times> KeyTest) io" where
  "score_loop R F blockCount kt c st =
     (if \<not> (sc_testFrames c < hcaKeyMaxTestFrames \<and> sc_currentFrame c < blockCount) then (Inr (c, kt), st)
      else case testSingleFrame R F kt (sc_offset c) st of
        (Inl e, st) \<Rightarrow> (Inl e, st)
      | (Inr ((score, shouldBreak, newOffset), kt), st) \<Rightarrow>
          (let c = c\<lparr>sc_offset := newOffset\<rparr> in
           if shouldBreak then (Inr (c\<lparr>sc_totalScore := - 1\<rparr>, kt), st)
           else if score < 0 then (Inr (c, kt), st)
           else
             let c = c\<lparr>sc_currentFrame := sc_currentFrame c + 1\<rparr> in
             if shouldSkipBlankFrame score (sc_blankFrames c)
             then score_loop R F blockCount kt (c\<lparr>sc_blankFrames := sc_blankFrames c + 1\<rparr>) st
             else
               let c = c\<lparr>sc_testFrames := sc_testFrames c + 1,
                        sc_totalScore := sc_totalScore c + scaleFrameScore score\<rparr> in
               if sc_totalScore c > hcaKeyMaxTotalScore then (Inr (c, kt), st)
               else score_loop R F blockCount kt c st))"
  by pat_completeness auto
termination
  by (relation "measure (\<lambda>(R, F, blockCount, kt, c, st). unat blockCount - unat (sc_currentFrame c))")
    (simp_all add: next_block_less)

declare score_loop.simps [simp del]

definition testHCAScore :: "'s read_seeker \<Rightarrow> 'f float_ops \<Rightarrow> KeyTest \<Rightarrow> (('s, 'f) dec, int \<times> KeyTest) io" where
  "testHCAScore R F kt =
     bindS getD (\<lambda>d.
       let offset = (if kt_StartOffset kt = 0 then in_HeaderSize (d_info d) else kt_StartOffset kt) in
       bindS (modD (SetEncryptionKey (kt_Key kt) (kt_Subkey kt))) (\<lambda>_.
       bindS (score_loop R F (in_BlockCount (d_info d)) kt
         \<lparr>sc_testFrames = 0, sc_currentFrame = 0, sc_blankFrames = 0, sc_totalScore = 0, sc_offset = offset\<rparr>) (\<lambda>(c, kt).
       bindS (modD (\<lambda>d. d\<lparr>d_handle := DecodeReset (f_of_int F 0) (d_handle d)\<rparr>)) (\<lambda>_.
         returnS (finalizeScore (sc_totalScore c) (sc_testFrames c), kt)))))"

definition keepBest :: "int \<Rightarrow> KeyTest \<Rightarrow> KeyTest" where
  "keepBest score kt =
     (if score < 0 then kt
      else if kt_BestScore kt \<le> 0 \<or> (score < kt_BestScore kt \<and> score > 0)
        then kt\<lparr>kt_BestScore := score, kt_BestKey := kt_Key kt\<rparr> else kt)"

definition TestKey :: "'s read_seeker \<Rightarrow> 'f float_ops \<Rightarrow> KeyTest \<Rightarrow> (('s, 'f) dec, KeyTest) io" where
  "TestKey R F kt =
     bindS (testHCAScore R F kt) (\<lambda>(score, kt). returnS (keepBest score kt))"

section \<open>WAV files\<close>

definition ascii :: "string \<Rightarrow> bytes" where
  "ascii s = map (\<lambda>c. of_nat (of_char c)) s"

definition wav_pcm_bytes :: "CriWareHCAInfo \<Rightarrow> int" where
  "wav_pcm_bytes i =
     (let totalSamples = sint (in_BlockCount i * in_SamplesPerBlock i) - sint (in_EncoderDelay i)
      in totalSamples * sint (in_ChannelCount i) * 2)"

text \<open>The 44 bytes of the header, field by field.\<close>

definition wav_header :: "CriWareHCAInfo \<Rightarrow> bytes" where
  "wav_header i =
     (let totalPCMBytes = wav_pcm_bytes i in
      ascii ''RIFF'' @ le_bytes 4 (of_int (36 + totalPCMBytes) :: u32) @ ascii ''WAVE'' @
      ascii ''fmt '' @ le_bytes 4 (16 :: u32) @ le_bytes 2 (1 :: u16) @
      le_bytes 2 (ucast (in_ChannelCount i) :: u16) @
      le_bytes 4 (ucast (in_SamplingRate i) :: u32) @
      le_bytes 4 (ucast (in_SamplingRate i) * ucast (in_ChannelCount i) * 2 :: u32) @
      le_bytes 2 (ucast (in_ChannelCount i * 2) :: u16) @ le_bytes 2 (16 :: u16) @
      ascii ''data'' @ le_bytes 4 (of_int totalPCMBytes :: u32))"

definition readSamplesPcm :: "'f float_ops \<Rightarrow> u16 list \<Rightarrow> ('f CriWareHCADecoder, u16 list) io" where
  "readSamplesPcm F pcmBuf d = (ReadSamples16 F pcmBuf (d_handle d), d)"

text \<open>
  A frame of \<open>DecodeToWav\<close>: the buffer it leaves and the bytes it writes, none for a frame that the
  delay covers. \<open>Inl EOF\<close> is the \<open>io.EOF\<close> of \<open>readPacket\<close> that ends the loop.
\<close>

definition wav_frame :: "'s read_seeker \<Rightarrow> 'f float_ops \<Rightarrow> u16 list \<Rightarrow> (('s, 'f) dec, u16 list \<times> bytes option) io" where
  "wav_frame R F pcmBuf =
     bindS (readPacket R) (\<lambda>_.
     bindS (onDecoder (decodeBuf F)) (\<lambda>_.
     bindS (onDecoder (readSamplesPcm F pcmBuf)) (\<lambda>pcmBuf.
     bindS (onDecoder takeDelay) (\<lambda>delay.
     bindS getD (\<lambda>d.
       case delay of
         None \<Rightarrow> returnS (pcmBuf, None)
       | Some discard \<Rightarrow>
           (let start = discard * sint (in_ChannelCount (d_info d));
                end' = sint (in_SamplesPerBlock (d_info d)) * sint (in_ChannelCount (d_info d)) in
            if start < 0 \<or> end' < 0 \<or> start \<ge> end' then throwS (Failure ''invalid sample range'')
            else if end' > int (length pcmBuf) then throwS (Failure ''sample range out of bounds'')
            else returnS (pcmBuf, Some (concat (map (le_bytes 2) (drop (nat start) (take (nat end') pcmBuf)))))))))))"

lemma wav_frame_moves:
  assumes "wav_frame R F pcm (s, d) = (Inr x, (s', d'))"
  shows "d_currentBlock d < in_BlockCount (d_info d) \<and> d_info d' = d_info d \<and>
    d_currentBlock d' = d_currentBlock d + 1"
  using assms unfolding wav_frame_def
  by (auto elim!: go_elims dest!: readPacket_moves decodeBuf_keeps takeDelay_keeps
      simp: Let_def readSamplesPcm_def split: option.splits if_splits)

function wav_loop :: "'s read_seeker \<Rightarrow> 'f float_ops \<Rightarrow> u16 list \<Rightarrow> writer \<Rightarrow> ('s, 'f) dec \<Rightarrow> go_err option \<times> writer \<times> ('s, 'f) dec" where
  "wav_loop R F pcmBuf w st =
     (case wav_frame R F pcmBuf st of
        (Inl e, st') \<Rightarrow> (if e = EOF then None else Some e, w, st')
      | (Inr (pcmBuf', None), st') \<Rightarrow> wav_loop R F pcmBuf' w st'
      | (Inr (pcmBuf', Some data), st') \<Rightarrow>
          (case wr_write w data of
             (Some e, w) \<Rightarrow> (Some e, w, st')
           | (None, w) \<Rightarrow> wav_loop R F pcmBuf' w st'))"
  by pat_completeness auto
termination
  by (relation "measure (\<lambda>(R, F, pcm, w, s, d). unat (in_BlockCount (d_info d)) - unat (d_currentBlock d))")
    (auto dest!: wav_frame_moves [OF sym] next_block_less(1))

declare wav_loop.simps [simp del]

definition DecodeToWav :: "'s read_seeker \<Rightarrow> 'f float_ops \<Rightarrow> writer \<Rightarrow> ('s, 'f) dec \<Rightarrow> go_err option \<times> writer \<times> ('s, 'f) dec" where
  "DecodeToWav R F w st =
     (let st = (fst st, Reset F (snd st)); i = d_info (snd st) in
      case wr_write w (wav_header i) of
        (Some e, w) \<Rightarrow> (Some e, w, st)
      | (None, w) \<Rightarrow> wav_loop R F (replicate (unat (in_SamplesPerBlock i * in_ChannelCount i)) 0) w st)"

section \<open>A decoder in order\<close>

definition info_ok :: "CriWareHCAInfo \<Rightarrow> bool" where
  "info_ok i \<longleftrightarrow>
     in_HeaderSize i \<le> 0xFFFF \<and> 8 \<le> in_BlockSize i \<and> in_BlockSize i \<le> 0xFFFF \<and>
     in_BlockCount i \<le> 0xFFFFFFFF \<and> in_EncoderDelay i \<le> 0xFFFF \<and> in_SamplesPerBlock i = 1024 \<and>
     1 \<le> in_ChannelCount i \<and> in_ChannelCount i \<le> 16"

text \<open>A low level decoder between frames that no data make panic, but at their end.\<close>

definition playable :: "'f ClHCA \<Rightarrow> bool" where
  "playable h \<longleftrightarrow> ready h \<and> all_scales_fit h \<and> high_bands_fit h"

definition dec_ok :: "'f CriWareHCADecoder \<Rightarrow> bool" where
  "dec_ok d \<longleftrightarrow>
     info_ok (d_info d) \<and> h_channels (d_handle d) = in_ChannelCount (d_info d) \<and>
     length (d_buf d) = unat (in_BlockSize (d_info d)) \<and>
     length (d_fbuf d) = 1024 * unat (in_ChannelCount (d_info d)) \<and> 0 \<le> d_currentDelay d"

lemma moved_fields:
  assumes "moved h0 h"
  shows "h_channels h = h_channels h0" "h_hfrGroupCount h = h_hfrGroupCount h0" "h_version h = h_version h0"
    "high_bands_fit h \<longleftrightarrow> high_bands_fit h0"
  by (rule movedE [OF assms], simp add: high_bands_fit_def)+

lemma moved_scales:
  assumes "moved h0 h" and "length (h_channel h0) = 16" and "all_scales_fit h0"
  shows "all_scales_fit h"
proof (rule movedE [OF assms(1)])
  fix r chs
  assume h: "h = h0\<lparr>h_random := r, h_channel := chs\<rparr>" "length chs = 16"
    and ok: "\<And>k. k < 16 \<Longrightarrow> chan_ok (ch_channelType (h_channel h0 ! k)) (ch_codedCount (h_channel h0 ! k)) (chs ! k)"
  have "scales_fit (h_hfrGroupCount h0) (h_version h0) (ch_channelType (chs ! k)) (ch_codedCount (chs ! k))"
    if k: "k < unat (h_channels h0)" "k < 16" for k
  proof -
    have "h_channel h0 ! k \<in> set (take (unat (h_channels h0)) (h_channel h0))"
      using k assms(2) by (auto simp: in_set_conv_nth intro!: exI [of _ k])
    then show ?thesis using assms(3) ok [OF k(2)] by (simp add: all_scales_fit_def chan_ok_def)
  qed
  then show ?thesis by (auto simp: all_scales_fit_def h in_set_conv_nth)
qed

lemma moved_playable:
  assumes "moved h0 h" and "playable h0"
  shows "playable h"
proof -
  have "length (h_channel h0) = 16" using assms(2) by (simp add: playable_def ready_def decoder_ok_def shape_def)
  then show ?thesis
    using assms moved_ready [OF assms(1)] moved_fields(4) [OF assms(1)] moved_scales [OF assms(1)]
    by (simp add: playable_def)
qed

lemma DecodeBlock_playable:
  assumes "playable h" and "DecodeBlock F data h = (r, h', data')"
  shows "playable h'" "h_channels h' = h_channels h" "length data' = length data" "r \<noteq> Inl EOF" "r \<noteq> Inl UnexpectedEOF"
proof -
  have h: "ready h" "all_scales_fit h" "high_bands_fit h" using assms(1) by (simp_all add: playable_def)
  note res = decoded_block [OF h assms(2)]
  then show "playable h'" "h_channels h' = h_channels h" "length data' = length data" "r \<noteq> Inl EOF" "r \<noteq> Inl UnexpectedEOF"
    using moved_playable [OF _ assms(1)] moved_fields(1) by (auto split: sum.splits)
qed

section \<open>The frames of a file\<close>

text \<open>
  What is in a file: from its blocks one after another, at most \<open>n\<close> of them, the samples of each. The
  end of the file between two blocks ends the frames, and inside one it is an error.
\<close>

fun decoded_frames :: "'f float_ops \<Rightarrow> nat \<Rightarrow> nat \<Rightarrow> 'f ClHCA \<Rightarrow> bytes \<Rightarrow> go_err + 'f list list" where
  "decoded_frames F 0 bsz h data = Inr []"
| "decoded_frames F (Suc n) bsz h data =
     (if data = [] then Inr []
      else if length data < bsz then Inl UnexpectedEOF
      else case DecodeBlock F (take bsz data) h of
        (Inl e, _) \<Rightarrow> Inl e
      | (Inr _, h', _) \<Rightarrow>
          bindR (decoded_frames F n bsz h' (drop bsz data)) (\<lambda>fs. Inr (interleaved h' # fs)))"

lemma decoded_frames_count:
  "decoded_frames F n bsz h data = Inr fs \<Longrightarrow> 0 < bsz \<Longrightarrow> length fs = min n (length data div bsz)"
proof (induction n arbitrary: h data fs)
  case 0
  then show ?case by simp
next
  case (Suc n)
  show ?case
  proof (cases "data = []")
    case True
    with Suc.prems show ?thesis by simp
  next
    case False
    with Suc.prems obtain h' d gs where g: "\<not> length data < bsz" "DecodeBlock F (take bsz data) h = (Inr (), h', d)"
        "decoded_frames F n bsz h' (drop bsz data) = Inr gs" "fs = interleaved h' # gs"
      by (auto simp: bindR_Inr_iff split: if_splits prod.splits sum.splits)
    have "length data div bsz = Suc ((length data - bsz) div bsz)"
      using g(1) Suc.prems(2) by (simp add: le_div_geq)
    then show ?thesis using Suc.IH [OF g(3) Suc.prems(2)] g(4) by simp
  qed
qed

lemma decoded_frames_length:
  "decoded_frames F n bsz h data = Inr fs \<Longrightarrow> playable h \<Longrightarrow> f \<in> set fs \<Longrightarrow> length f = 1024 * unat (h_channels h)"
proof (induction n arbitrary: h data fs)
  case 0
  then show ?case by simp
next
  case (Suc n)
  show ?case
  proof (cases "data = []")
    case True
    with Suc.prems show ?thesis by simp
  next
    case False
    with Suc.prems obtain h' d gs where g: "DecodeBlock F (take bsz data) h = (Inr (), h', d)"
        "decoded_frames F n bsz h' (drop bsz data) = Inr gs" "fs = interleaved h' # gs"
      by (auto simp: bindR_Inr_iff split: if_splits prod.splits sum.splits)
    note h' = DecodeBlock_playable [OF Suc.prems(2) g(1)]
    then show ?thesis using Suc.IH [OF g(2) h'(1)] Suc.prems(3) g(3) by (auto simp: interleaved_length)
  qed
qed

section \<open>Reading a block\<close>

lemma word_uint_mono:
  fixes x y :: u64
  assumes "x \<le> y"
  shows "uint x \<le> uint y"
  using assms by (simp add: word_le_def)

lemma block_offset:
  assumes "info_ok i" and "b < in_BlockCount i"
  shows "sint (in_HeaderSize i + b * in_BlockSize i) =
    int (unat (in_HeaderSize i) + unat b * unat (in_BlockSize i))"
proof -
  have le: "uint (in_HeaderSize i) \<le> 0xFFFF" "uint (in_BlockSize i) \<le> 0xFFFF" "uint b \<le> 0xFFFFFFFF"
    using assms word_uint_mono [of "in_HeaderSize i" "0xFFFF"] word_uint_mono [of "in_BlockSize i" "0xFFFF"]
      word_uint_mono [of "in_BlockCount i" "0xFFFFFFFF"]
    by (auto simp: info_ok_def word_less_def)
  then have "uint b * uint (in_BlockSize i) \<le> 0xFFFFFFFF * 0xFFFF" by (intro mult_mono) simp_all
  with le have sum: "uint (in_HeaderSize i) + uint b * uint (in_BlockSize i) < 2 ^ 63" by simp
  have "uint (in_HeaderSize i + b * in_BlockSize i) =
      (uint (in_HeaderSize i) + uint b * uint (in_BlockSize i)) mod 2 ^ 64"
    by (simp add: uint_word_ariths mod_add_right_eq)
  also have "\<dots> = uint (in_HeaderSize i) + uint b * uint (in_BlockSize i)"
    using sum by (intro mod_pos_pos_trivial) simp_all
  finally have "uint (in_HeaderSize i + b * in_BlockSize i) = uint (in_HeaderSize i) + uint b * uint (in_BlockSize i)" .
  with sum show ?thesis by (subst sint_small) simp_all
qed

text \<open>\<open>readPacket\<close> on a file: the next block of it.\<close>

definition block_at :: "bytes \<Rightarrow> 'f CriWareHCADecoder \<Rightarrow> bytes" where
  "block_at file d = drop (unat (in_HeaderSize (d_info d)) + unat (d_currentBlock d) * unat (in_BlockSize (d_info d))) file"

lemma block_size:
  assumes "info_ok i"
  shows "sint (in_BlockSize i) = int (unat (in_BlockSize i))" "0 < unat (in_BlockSize i)"
proof -
  have "uint (in_BlockSize i) \<le> 0xFFFF" using assms word_uint_mono [of "in_BlockSize i" "0xFFFF"] by (simp add: info_ok_def)
  then show "sint (in_BlockSize i) = int (unat (in_BlockSize i))" by (subst sint_small) simp_all
  show "0 < unat (in_BlockSize i)" using assms by (simp add: info_ok_def word_le_nat_alt)
qed

lemma readPacket_block:
  fixes d :: "'f CriWareHCADecoder" and r :: byte_reader
  assumes d: "info_ok (d_info d)" "length (d_buf d) = unat (in_BlockSize (d_info d))"
  defines "bsz \<equiv> unat (in_BlockSize (d_info d))" and "data \<equiv> block_at (br_data r) d"
  obtains r' d' where "br_data r' = br_data r" and
    "readPacket bytes_ops (r, d) =
      (if in_BlockCount (d_info d) \<le> d_currentBlock d \<or> data = [] then (Inl EOF, (r', d'))
       else if length data < bsz then (Inl UnexpectedEOF, (r', d'))
       else (Inr (), (r', d\<lparr>d_buf := take bsz data, d_currentBlock := d_currentBlock d + 1\<rparr>)))"
proof (cases "in_BlockCount (d_info d) \<le> d_currentBlock d")
  case True
  then have "readPacket bytes_ops (r, d) = (Inl EOF, (r, d))"
    by (simp add: readPacket_def bindS_def getD_def)
  with that [of r d] True show thesis by simp
next
  case False
  then have b: "d_currentBlock d < in_BlockCount (d_info d)" by simp
  let ?off = "unat (in_HeaderSize (d_info d)) + unat (d_currentBlock d) * unat (in_BlockSize (d_info d))"
  let ?r1 = "r\<lparr>br_pos := ?off\<rparr>"
  have rest: "br_rest ?r1 = data" by (simp add: br_rest_def data_def block_at_def)
  define r' where "r' = ?r1\<lparr>br_pos := ?off + min bsz (length data)\<rparr>"
  have loop: "read_loop bytes_ops bsz ?r1 =
      ((take bsz data, if length data < bsz then Some EOF else None), r')"
    by (simp add: read_loop_bytes rest r'_def)
  have "readPacket bytes_ops (r, d) =
      (if data = [] then (Inl EOF, (r', d\<lparr>d_buf := take bsz data @ drop (length (take bsz data)) (d_buf d)\<rparr>))
       else if length data < bsz then (Inl UnexpectedEOF, (r', d\<lparr>d_buf := take bsz data @ drop (length (take bsz data)) (d_buf d)\<rparr>))
       else (Inr (), (r', d\<lparr>d_buf := take bsz data, d_currentBlock := d_currentBlock d + 1\<rparr>)))"
    using False d(2) block_size [OF d(1)] loop
    by (simp add: readPacket_def bindS_def getD_def onReader_def checkErr_def bytes_Seek_def Let_def
        block_offset [OF d(1) b] readBuf_def bsz_def [symmetric] read_full_err_def modD_def del: of_nat_add of_nat_mult)
  with that [of r' "d\<lparr>d_buf := take bsz data @ drop (length (take bsz data)) (d_buf d)\<rparr>"] False
  show thesis by (auto simp: r'_def)
qed

section \<open>One frame\<close>

text \<open>The decoder behind a frame that became \<open>h\<close>.\<close>

definition after_frame :: "'f ClHCA \<Rightarrow> 'f CriWareHCADecoder \<Rightarrow> 'f CriWareHCADecoder \<Rightarrow> bool" where
  "after_frame h d d' \<longleftrightarrow>
     dec_ok d' \<and> d_info d' = d_info d \<and> d_handle d' = h \<and> d_currentBlock d' = d_currentBlock d + 1 \<and>
     d_currentDelay d' = max 0 (d_currentDelay d - 1024)"

lemma info_numbers:
  assumes "info_ok i"
  shows "sint (in_SamplesPerBlock i) = 1024" "sint (in_ChannelCount i) = int (unat (in_ChannelCount i))"
    "1 \<le> unat (in_ChannelCount i)" "unat (in_ChannelCount i) \<le> 16"
proof -
  have "uint (in_ChannelCount i) \<le> 16"
    using assms word_uint_mono [of "in_ChannelCount i" 16] by (simp add: info_ok_def)
  then show "sint (in_ChannelCount i) = int (unat (in_ChannelCount i))" by (subst sint_small) simp_all
  show "sint (in_SamplesPerBlock i) = 1024" using assms by (simp add: info_ok_def)
  show "1 \<le> unat (in_ChannelCount i)" "unat (in_ChannelCount i) \<le> 16"
    using assms by (simp_all add: info_ok_def word_le_nat_alt)
qed

lemma takeDelay_cases:
  assumes "info_ok (d_info d)" and "0 \<le> d_currentDelay d"
  shows "takeDelay d =
    (if d_currentDelay d < 1024 then (Inr (Some (d_currentDelay d)), d\<lparr>d_currentDelay := 0\<rparr>)
     else (Inr None, d\<lparr>d_currentDelay := d_currentDelay d - 1024\<rparr>))"
  using assms info_numbers(1) [OF assms(1)]
  by (cases "d_currentDelay d = 0") (auto simp: takeDelay_def Let_def)

lemma decodeBuf_run:
  assumes "DecodeBlock F (d_buf d) (d_handle d) = (r, h, data)"
  shows "decodeBuf F d = (r, d\<lparr>d_handle := h, d_buf := data\<rparr>)"
  using assms by (simp add: decodeBuf_def)

lemma frame_samples:
  assumes "0 \<le> (D :: int)" and "D < 1024" and "length xs = 1024 * n"
  shows "take (nat ((1024 - D) * int n)) (drop (nat (D * int n)) xs) = drop (nat D * n) xs"
    "(1024 - D) * int n \<le> int (length (drop (nat (D * int n)) xs))" "0 \<le> (1024 - D) * int n"
    "D * int n \<le> int (length xs)" "nat (D * int n) = nat D * n"
proof -
  obtain k where k: "D = int k" "k < 1024" using assms(1,2) by (metis nonneg_int_cases of_nat_less_iff of_nat_numeral)
  have e: "(1024 - D) * int n = int ((1024 - k) * n)" using k by (simp add: of_nat_diff)
  have m: "nat (D * int n) = k * n" using k by (simp flip: of_nat_mult)
  have le: "k * n \<le> 1024 * n" using k(2) by (intro mult_le_mono1) simp
  have l: "length (drop (k * n) xs) = (1024 - k) * n" using assms(3) by (simp add: diff_mult_distrib)
  show "nat (D * int n) = nat D * n" using m k(1) by simp
  show "take (nat ((1024 - D) * int n)) (drop (nat (D * int n)) xs) = drop (nat D * n) xs"
    using l unfolding e m nat_int by (simp add: k(1))
  show "(1024 - D) * int n \<le> int (length (drop (nat (D * int n)) xs))" unfolding e m l by simp
  show "0 \<le> (1024 - D) * int n" unfolding e by simp
  show "D * int n \<le> int (length xs)" using le assms(3) k(1) by (simp flip: of_nat_mult)
qed

lemma DecodeFrame_stops:
  assumes d: "dec_ok d"
    and stop: "in_BlockCount (d_info d) \<le> d_currentBlock d \<or> length (block_at (br_data r) d) < unat (in_BlockSize (d_info d))"
  defines "e \<equiv> (if in_BlockCount (d_info d) \<le> d_currentBlock d \<or> block_at (br_data r) d = [] then EOF else UnexpectedEOF)"
  shows "fst (DecodeFrame bytes_ops F (r, d)) = Inl e" "fst (wav_frame bytes_ops F pcm (r, d)) = Inl e"
proof -
  have "info_ok (d_info d)" "length (d_buf d) = unat (in_BlockSize (d_info d))" using d by (simp_all add: dec_ok_def)
  then have "\<exists>st. readPacket bytes_ops (r, d) = (Inl e, st)"
    by (rule readPacket_block [where r = r]) (use stop in \<open>auto simp: e_def\<close>)
  then obtain st where "readPacket bytes_ops (r, d) = (Inl e, st)" ..
  then show "fst (DecodeFrame bytes_ops F (r, d)) = Inl e" "fst (wav_frame bytes_ops F pcm (r, d)) = Inl e"
    by (simp_all add: DecodeFrame_def wav_frame_def bindS_def)
qed

lemma frame_read:
  assumes d: "dec_ok d" and b: "d_currentBlock d < in_BlockCount (d_info d)"
    and len: "unat (in_BlockSize (d_info d)) \<le> length (block_at (br_data r) d)"
  obtains r' where "br_data r' = br_data r" and "readPacket bytes_ops (r, d) =
    (Inr (), (r', d\<lparr>d_buf := take (unat (in_BlockSize (d_info d))) (block_at (br_data r) d),
       d_currentBlock := d_currentBlock d + 1\<rparr>))"
proof -
  have i: "info_ok (d_info d)" and "length (d_buf d) = unat (in_BlockSize (d_info d))" using d by (simp_all add: dec_ok_def)
  moreover have "block_at (br_data r) d \<noteq> []" using len block_size(2) [OF i] by auto
  ultimately show thesis
    by (rule_tac readPacket_block [where d = d and r = r]) (use b len in \<open>auto intro: that\<close>)
qed

lemma DecodeFrame_fails:
  assumes d: "dec_ok d" "playable (d_handle d)" and b: "d_currentBlock d < in_BlockCount (d_info d)"
    and len: "unat (in_BlockSize (d_info d)) \<le> length (block_at (br_data r) d)"
    and run: "DecodeBlock F (take (unat (in_BlockSize (d_info d))) (block_at (br_data r) d)) (d_handle d) = (Inl e, h, data)"
  shows "fst (DecodeFrame bytes_ops F (r, d)) = Inl (if is_panic e then e else Failure ''decode failed'')"
    "fst (wav_frame bytes_ops F pcm (r, d)) = Inl e"
  by (rule frame_read [OF d(1) b len],
      simp add: DecodeFrame_def wav_frame_def bindS_def wrapErr_def onDecoder_def decodeBuf_def run)+

lemma DecodeFrame_succeeds:
  fixes h :: "'f ClHCA"
  assumes d: "dec_ok d" "playable (d_handle d)" and b: "d_currentBlock d < in_BlockCount (d_info d)"
    and len: "unat (in_BlockSize (d_info d)) \<le> length (block_at (br_data r) d)"
    and run: "DecodeBlock F (take (unat (in_BlockSize (d_info d))) (block_at (br_data r) d)) (d_handle d) = (Inr u, h, data)"
  defines "n \<equiv> unat (in_ChannelCount (d_info d))"
  obtains r' d' xs k where "DecodeFrame bytes_ops F (r, d) = (Inr (xs, k), (r', d'))" and "br_data r' = br_data r"
    and "after_frame h d d'" and "0 \<le> k * int n" and "k * int n \<le> int (length xs)"
    and "take (nat (k * int n)) xs = drop (nat (d_currentDelay d) * n) (interleaved h)"
proof (rule frame_read [OF d(1) b len])
  fix r'
  let ?b = "take (unat (in_BlockSize (d_info d))) (block_at (br_data r) d)"
  assume r': "br_data r' = br_data r" "readPacket bytes_ops (r, d) = (Inr (), (r', d\<lparr>d_buf := ?b, d_currentBlock := d_currentBlock d + 1\<rparr>))"
  have i: "info_ok (d_info d)" "0 \<le> d_currentDelay d" and ch: "h_channels (d_handle d) = in_ChannelCount (d_info d)"
    using d(1) by (simp_all add: dec_ok_def)
  note num = info_numbers [OF i(1)]
  note h = DecodeBlock_playable [OF d(2) run]
  have len_h: "length (interleaved h) = 1024 * n" by (simp add: interleaved_length h(2) ch n_def)
  let ?D = "d_currentDelay d"
  let ?d = "d\<lparr>d_currentBlock := d_currentBlock d + 1, d_handle := h, d_buf := data, d_fbuf := interleaved h\<rparr>"
  have rs: "ReadSamples (d_fbuf d) h = Inr (interleaved h)"
    using d(1) len_h by (simp add: ReadSamples_def fill_buffer_def dec_ok_def n_def)
  have start: "DecodeFrame bytes_ops F (r, d) =
    bindS (onDecoder takeDelay) (\<lambda>delay. bindS getD (\<lambda>d.
      case delay of None \<Rightarrow> returnS ([], 0)
      | Some discard \<Rightarrow>
           (let startIdx = discard * sint (in_ChannelCount (d_info d)) in
            if startIdx < 0 \<or> int (length (d_fbuf d)) < startIdx then throwS (Panic ''slice bounds out of range'')
            else returnS (drop (nat startIdx) (d_fbuf d), sint (in_SamplesPerBlock (d_info d)) - discard)))) (r', ?d)"
    by (simp add: DecodeFrame_def bindS_def [where m = "readPacket bytes_ops"] r' bindS_def [where m = "wrapErr _ _"]
        bindS_def [where m = "onDecoder readSamplesFbuf"] wrapErr_def onDecoder_def [of "decodeBuf F"]
        onDecoder_def [of readSamplesFbuf] decodeBuf_def run readSamplesFbuf_def rs)
  have ok: "after_frame h d (?d\<lparr>d_currentDelay := max 0 (?D - 1024)\<rparr>)"
    using d(1) h len_h len by (simp add: after_frame_def dec_ok_def ch n_def)
  show thesis
  proof (cases "?D < 1024")
    case True
    note fs = frame_samples [OF i(2) True len_h]
    have "DecodeFrame bytes_ops F (r, d) =
        (Inr (drop (nat (?D * int n)) (interleaved h), 1024 - ?D), (r', ?d\<lparr>d_currentDelay := 0\<rparr>))"
      unfolding start using True i fs(4) num
      by (simp add: bindS_def onDecoder_def takeDelay_cases getD_def Let_def n_def not_less mult_nonneg_nonneg)
    then show thesis using fs(1-3) ok True by (intro that [OF _ r'(1)]) simp_all
  next
    case False
    have "length (interleaved h) \<le> nat ?D * n" unfolding len_h using False by (intro mult_le_mono1) simp
    moreover have "DecodeFrame bytes_ops F (r, d) = (Inr ([], 0), (r', ?d\<lparr>d_currentDelay := ?D - 1024\<rparr>))"
      unfolding start using False i by (simp add: bindS_def onDecoder_def takeDelay_cases getD_def)
    ultimately show thesis
      using ok False by (intro that [OF _ r'(1), where xs = "[]" and k = 0]) simp_all
  qed
qed

section \<open>All frames\<close>

text \<open>The error that \<open>DecodeFrame\<close> makes of the one of a frame.\<close>

definition frame_error :: "go_err \<Rightarrow> go_err" where
  "frame_error e = (if is_panic e \<or> e = UnexpectedEOF then e else Failure ''decode failed'')"

text \<open>The frames a decoder has still to read, and its channels.\<close>

definition frames_left :: "'f float_ops \<Rightarrow> bytes \<Rightarrow> 'f CriWareHCADecoder \<Rightarrow> go_err + 'f list list" where
  "frames_left F file d =
     decoded_frames F (unat (in_BlockCount (d_info d)) - unat (d_currentBlock d))
       (unat (in_BlockSize (d_info d))) (d_handle d) (block_at file d)"

definition channels_of :: "'f CriWareHCADecoder \<Rightarrow> nat" where
  "channels_of d = unat (in_ChannelCount (d_info d))"

lemma after_frame_left:
  assumes "after_frame h d d'" and b: "d_currentBlock d < in_BlockCount (d_info d)"
    and len: "unat (in_BlockSize (d_info d)) \<le> length (block_at file d)" "0 < unat (in_BlockSize (d_info d))"
    and run: "DecodeBlock F (take (unat (in_BlockSize (d_info d))) (block_at file d)) (d_handle d) = (Inr u, h, data)"
  shows "frames_left F file d = bindR (frames_left F file d') (\<lambda>fs. Inr (interleaved h # fs))"
    "channels_of d' = channels_of d"
    "unat (in_BlockCount (d_info d)) - unat (d_currentBlock d) = Suc (unat (in_BlockCount (d_info d')) - unat (d_currentBlock d'))"
proof -
  have cb: "unat (d_currentBlock d + 1) = Suc (unat (d_currentBlock d))" by (rule next_block_less(2) [OF b])
  have "unat (d_currentBlock d) < unat (in_BlockCount (d_info d))" using b by (simp add: word_less_nat_alt)
  then show n: "unat (in_BlockCount (d_info d)) - unat (d_currentBlock d) = Suc (unat (in_BlockCount (d_info d')) - unat (d_currentBlock d'))"
    using assms(1) cb by (simp add: after_frame_def)
  have "block_at file d' = drop (unat (in_BlockSize (d_info d))) (block_at file d)"
    using assms(1) cb by (simp add: after_frame_def block_at_def algebra_simps)
  then show "frames_left F file d = bindR (frames_left F file d') (\<lambda>fs. Inr (interleaved h # fs))"
    using n assms(1) len run by (auto simp: frames_left_def after_frame_def)
  show "channels_of d' = channels_of d" using assms(1) by (simp add: after_frame_def channels_of_def)
qed

lemma frames_left_end:
  "in_BlockCount (d_info d) \<le> d_currentBlock d \<or> block_at file d = [] \<Longrightarrow> frames_left F file d = Inr []"
  by (cases "unat (in_BlockCount (d_info d)) - unat (d_currentBlock d)")
    (auto simp: frames_left_def word_le_nat_alt)

lemma frames_left_fails:
  assumes b: "d_currentBlock d < in_BlockCount (d_info d)" and data: "block_at file d \<noteq> []"
  shows "length (block_at file d) < unat (in_BlockSize (d_info d)) \<Longrightarrow> frames_left F file d = Inl UnexpectedEOF"
    "\<not> length (block_at file d) < unat (in_BlockSize (d_info d)) \<Longrightarrow>
     DecodeBlock F (take (unat (in_BlockSize (d_info d))) (block_at file d)) (d_handle d) = (Inl e, h, out) \<Longrightarrow>
     frames_left F file d = Inl e"
proof -
  obtain n where "unat (in_BlockCount (d_info d)) - unat (d_currentBlock d) = Suc n"
    using b by (metis word_less_nat_alt diff_is_0_eq not_le old.nat.exhaust)
  then show "length (block_at file d) < unat (in_BlockSize (d_info d)) \<Longrightarrow> frames_left F file d = Inl UnexpectedEOF"
    "\<not> length (block_at file d) < unat (in_BlockSize (d_info d)) \<Longrightarrow>
     DecodeBlock F (take (unat (in_BlockSize (d_info d))) (block_at file d)) (d_handle d) = (Inl e, h, out) \<Longrightarrow>
     frames_left F file d = Inl e"
    using data by (simp_all add: frames_left_def)
qed

text \<open>The four ways a frame can go.\<close>

lemma frame_casesE:
  fixes d :: "'f CriWareHCADecoder"
  assumes "dec_ok d"
  obtains (ends) "in_BlockCount (d_info d) \<le> d_currentBlock d \<or> block_at file d = []"
  | (short) "d_currentBlock d < in_BlockCount (d_info d)" "block_at file d \<noteq> []"
      "length (block_at file d) < unat (in_BlockSize (d_info d))"
  | (bad) e h out where "d_currentBlock d < in_BlockCount (d_info d)" "block_at file d \<noteq> []"
      "\<not> length (block_at file d) < unat (in_BlockSize (d_info d))"
      "DecodeBlock F (take (unat (in_BlockSize (d_info d))) (block_at file d)) (d_handle d) = (Inl e, h, out)"
  | (good) h out where "d_currentBlock d < in_BlockCount (d_info d)"
      "\<not> length (block_at file d) < unat (in_BlockSize (d_info d))"
      "DecodeBlock F (take (unat (in_BlockSize (d_info d))) (block_at file d)) (d_handle d) = (Inr (), h, out)"
proof -
  obtain r h out where run: "DecodeBlock F (take (unat (in_BlockSize (d_info d))) (block_at file d)) (d_handle d) = (r, h, out)"
    by (metis surj_pair)
  show thesis
    using ends short bad [of _ h out] good [of h out] run by (cases r) (auto simp: not_le [symmetric])
qed

lemma decode_all_loop_frames:
  assumes "dec_ok d" and "playable (d_handle d)"
  shows "fst (decode_all_loop bytes_ops F (r, d)) =
    (case frames_left F (br_data r) d of
       Inl e \<Rightarrow> Inl (frame_error e)
     | Inr fs \<Rightarrow> Inr (drop (nat (d_currentDelay d) * channels_of d) (concat fs)))"
  using assms
proof (induction "unat (in_BlockCount (d_info d)) - unat (d_currentBlock d)" arbitrary: r d rule: less_induct)
  case less
  have i: "info_ok (d_info d)" "0 \<le> d_currentDelay d" using less.prems(1) by (simp_all add: dec_ok_def)
  show ?case
  proof (rule frame_casesE [OF less.prems(1), of "br_data r" _ F])
    assume e: "in_BlockCount (d_info d) \<le> d_currentBlock d \<or> block_at (br_data r) d = []"
    then have "fst (DecodeFrame bytes_ops F (r, d)) = Inl EOF"
      using DecodeFrame_stops(1) [OF less.prems(1)] block_size(2) [OF i(1)] by auto
    then show ?thesis using frames_left_end [OF e, of F]
      by (cases "DecodeFrame bytes_ops F (r, d)") (simp add: decode_all_loop.simps [of _ _ "(r, d)"])
  next
    assume e: "d_currentBlock d < in_BlockCount (d_info d)" "block_at (br_data r) d \<noteq> []"
      "length (block_at (br_data r) d) < unat (in_BlockSize (d_info d))"
    then have "fst (DecodeFrame bytes_ops F (r, d)) = Inl UnexpectedEOF"
      using DecodeFrame_stops(1) [OF less.prems(1)] by auto
    then show ?thesis using frames_left_fails(1) [OF e]
      by (cases "DecodeFrame bytes_ops F (r, d)") (simp add: decode_all_loop.simps [of _ _ "(r, d)"] frame_error_def)
  next
    fix e h out
    assume e: "d_currentBlock d < in_BlockCount (d_info d)" "block_at (br_data r) d \<noteq> []"
      "\<not> length (block_at (br_data r) d) < unat (in_BlockSize (d_info d))"
      "DecodeBlock F (take (unat (in_BlockSize (d_info d))) (block_at (br_data r) d)) (d_handle d) = (Inl e, h, out)"
    have "fst (DecodeFrame bytes_ops F (r, d)) = Inl (frame_error e)" "frame_error e \<noteq> EOF"
      using DecodeFrame_fails(1) [OF less.prems e(1) _ e(4)] e(3) DecodeBlock_playable(4,5) [OF less.prems(2) e(4)]
      by (auto simp: frame_error_def)
    then show ?thesis using frames_left_fails(2) [OF e]
      by (cases "DecodeFrame bytes_ops F (r, d)") (simp add: decode_all_loop.simps [of _ _ "(r, d)"])
  next
    fix h out
    assume e: "d_currentBlock d < in_BlockCount (d_info d)"
      "\<not> length (block_at (br_data r) d) < unat (in_BlockSize (d_info d))"
      "DecodeBlock F (take (unat (in_BlockSize (d_info d))) (block_at (br_data r) d)) (d_handle d) = (Inr (), h, out)"
    then have le: "unat (in_BlockSize (d_info d)) \<le> length (block_at (br_data r) d)" by simp
    note h = DecodeBlock_playable [OF less.prems(2) e(3)]
    show ?thesis
    proof (rule DecodeFrame_succeeds [OF less.prems e(1) le e(3)])
      fix r' d' xs k
      assume run: "DecodeFrame bytes_ops F (r, d) = (Inr (xs, k), (r', d'))" "br_data r' = br_data r"
        and a: "after_frame h d d'" and k: "0 \<le> k * int (unat (in_ChannelCount (d_info d)))"
          "k * int (unat (in_ChannelCount (d_info d))) \<le> int (length xs)"
          "take (nat (k * int (unat (in_ChannelCount (d_info d))))) xs =
             drop (nat (d_currentDelay d) * unat (in_ChannelCount (d_info d))) (interleaved h)"
      note left = after_frame_left [OF a e(1) le block_size(2) [OF i(1)] e(3)]
      have d': "dec_ok d'" "playable (d_handle d')" "d_info d' = d_info d" "d_currentDelay d' = max 0 (d_currentDelay d - 1024)"
        using a h(1) by (simp_all add: after_frame_def)
      have IH: "fst (decode_all_loop bytes_ops F (r', d')) =
        (case frames_left F (br_data r) d' of Inl e \<Rightarrow> Inl (frame_error e)
         | Inr fs \<Rightarrow> Inr (drop (nat (d_currentDelay d') * channels_of d) (concat fs)))"
        using less.hyps [OF _ d'(1,2), of r'] left(3) run(2) unfolding left(2) by simp
      have len: "length (interleaved h) = 1024 * channels_of d"
        using h(2) less.prems(1) by (simp add: interleaved_length channels_of_def dec_ok_def)
      have cut: "nat (d_currentDelay d) * channels_of d - length (interleaved h) = nat (d_currentDelay d') * channels_of d"
        unfolding len by (simp add: d'(4) diff_mult_distrib [symmetric] nat_diff_distrib' max_def)
      show ?thesis
        using IH run(1) k left(1) info_numbers(2) [OF i(1)] cut d'(3)
        by (cases "decode_all_loop bytes_ops F (r', d')"; cases "frames_left F (br_data r) d'")
          (simp_all add: decode_all_loop.simps [of _ _ "(r, d)"] Let_def channels_of_def not_less)
    qed
  qed
qed

section \<open>Resetting\<close>

lemma DecodeReset_moved:
  assumes "ready h"
  shows "moved h (DecodeReset z h)"
proof (cases "h_isValid h")
  case False
  have "shape h" using assms by (simp add: ready_def decoder_ok_def shape_def)
  then show ?thesis using retyped_refl [of h] False by (simp add: moved_def DecodeReset_def)
next
  case True
  let ?chs = "map (\<lambda>(i, c). if i < unat (h_channels h) then c\<lparr>ch_imdctPrevious := replicate 128 z\<rparr> else c)
    (enumerate 0 (h_channel h))"
  have h: "length (h_channel h) = 16" "\<forall>c\<in>set (h_channel h). channel_shape c"
    using assms by (simp_all add: ready_def decoder_ok_def shape_def)
  have "moved h (h\<lparr>h_random := 1, h_channel := ?chs\<rparr>)"
  proof (rule movedI)
    fix k assume k: "k < (16 :: nat)"
    then have "channel_shape (h_channel h ! k)" using h by simp
    then show "chan_ok (ch_channelType (h_channel h ! k)) (ch_codedCount (h_channel h ! k)) (?chs ! k)"
      using k h(1) by (simp add: nth_enumerate_eq chan_ok_def channel_shape_def)
  qed (simp add: h(1))
  then show ?thesis using True by (simp add: DecodeReset_def)
qed

lemma Reset_ok:
  assumes "dec_ok d" and "playable (d_handle d)"
  shows "dec_ok (Reset F d)" "playable (d_handle (Reset F d))" "d_info (Reset F d) = d_info d"
    "d_currentBlock (Reset F d) = 0" "nat (d_currentDelay (Reset F d)) = unat (in_EncoderDelay (d_info d))"
proof -
  have m: "moved (d_handle d) (DecodeReset (f_of_int F 0) (d_handle d))"
    using assms(2) by (intro DecodeReset_moved) (simp add: playable_def)
  show "playable (d_handle (Reset F d))" using moved_playable [OF m assms(2)] by (simp add: Reset_def)
  have "uint (in_EncoderDelay (d_info d)) \<le> 0xFFFF"
    using assms(1) word_uint_mono [of "in_EncoderDelay (d_info d)" "0xFFFF"] by (simp add: dec_ok_def info_ok_def)
  then have e: "sint (in_EncoderDelay (d_info d)) = int (unat (in_EncoderDelay (d_info d)))"
    by (subst sint_small) simp_all
  then show "dec_ok (Reset F d)" using assms(1) moved_fields(1) [OF m] by (simp add: dec_ok_def Reset_def)
  show "d_info (Reset F d) = d_info d" "d_currentBlock (Reset F d) = 0"
    "nat (d_currentDelay (Reset F d)) = unat (in_EncoderDelay (d_info d))"
    by (simp_all add: Reset_def e)
qed

text \<open>What the file of a decoder holds, from its start.\<close>

definition file_frames :: "'f float_ops \<Rightarrow> bytes \<Rightarrow> 'f CriWareHCADecoder \<Rightarrow> go_err + 'f list list" where
  "file_frames F file d =
     decoded_frames F (unat (in_BlockCount (d_info d))) (unat (in_BlockSize (d_info d)))
       (DecodeReset (f_of_int F 0) (d_handle d)) (drop (unat (in_HeaderSize (d_info d))) file)"

lemma frames_left_Reset: "frames_left F file (Reset F d) = file_frames F file d"
  by (simp add: frames_left_def file_frames_def Reset_def block_at_def)

lemma sample_count:
  assumes "info_ok i"
  shows "sint (in_BlockCount i * in_SamplesPerBlock i) = int (unat (in_BlockCount i) * 1024)"
    "unat (in_BlockCount i) \<le> 0xFFFFFFFF"
proof -
  have c: "uint (in_BlockCount i) \<le> 0xFFFFFFFF" and s: "in_SamplesPerBlock i = 1024"
    using assms word_uint_mono [of "in_BlockCount i" "0xFFFFFFFF"] by (simp_all add: info_ok_def)
  then have "uint (in_BlockCount i * in_SamplesPerBlock i) = uint (in_BlockCount i) * 1024"
    by (simp add: uint_word_ariths mod_pos_pos_trivial)
  moreover from this c have "uint (in_BlockCount i * in_SamplesPerBlock i) < 2 ^ 63" by simp
  ultimately show "sint (in_BlockCount i * in_SamplesPerBlock i) = int (unat (in_BlockCount i) * 1024)"
    by (subst sint_small) simp_all
  show "unat (in_BlockCount i) \<le> 0xFFFFFFFF" using assms by (simp add: info_ok_def word_le_nat_alt)
qed

lemma DecodeAll_frames:
  assumes "dec_ok d" and "playable (d_handle d)"
  shows "fst (DecodeAll bytes_ops F (r, d)) =
    (case file_frames F (br_data r) d of
       Inl e \<Rightarrow> Inl (frame_error e)
     | Inr fs \<Rightarrow> Inr (drop (unat (in_EncoderDelay (d_info d)) * channels_of d) (concat fs)))"
proof -
  note R = Reset_ok [OF assms, of F]
  have i: "info_ok (d_info d)" using assms(1) by (simp add: dec_ok_def)
  have "DecodeAll bytes_ops F (r, d) = decode_all_loop bytes_ops F (r, Reset F d)"
    using sample_count(1) [OF i] info_numbers(2) [OF i]
    by (simp add: DecodeAll_def bindS_def modD_def getD_def R(3) Let_def not_less [symmetric] mult_less_0_iff)
  then show ?thesis
    using decode_all_loop_frames [OF R(1,2), of F r]
    by (simp add: frames_left_Reset R(5) channels_of_def R(3) cong: sum.case_cong)
qed

section \<open>The samples of a WAV file\<close>

definition pcm_bytes :: "'f float_ops \<Rightarrow> 'f list \<Rightarrow> bytes" where
  "pcm_bytes F xs = concat (map (\<lambda>x. le_bytes 2 (pcm16 F x)) xs)"

lemma pcm_bytes_append: "pcm_bytes F (xs @ ys) = pcm_bytes F xs @ pcm_bytes F ys"
  by (simp add: pcm_bytes_def)

lemma length_pcm_bytes: "length (pcm_bytes F xs) = 2 * length xs"
  by (induction xs) (simp_all add: pcm_bytes_def)

lemma wav_frame_succeeds:
  fixes h :: "'f ClHCA"
  assumes d: "dec_ok d" "playable (d_handle d)" and b: "d_currentBlock d < in_BlockCount (d_info d)"
    and len: "unat (in_BlockSize (d_info d)) \<le> length (block_at (br_data r) d)"
    and run: "DecodeBlock F (take (unat (in_BlockSize (d_info d))) (block_at (br_data r) d)) (d_handle d) = (Inr u, h, data)"
    and pcm: "length pcm = 1024 * channels_of d"
  obtains r' d' pcm' out where "wav_frame bytes_ops F pcm (r, d) = (Inr (pcm', out), (r', d'))" and "br_data r' = br_data r"
    and "after_frame h d d'" and "length pcm' = 1024 * channels_of d"
    and "(case out of None \<Rightarrow> [] | Some bs \<Rightarrow> bs) =
      pcm_bytes F (drop (nat (d_currentDelay d) * channels_of d) (interleaved h))"
proof (rule frame_read [OF d(1) b len])
  fix r'
  let ?b = "take (unat (in_BlockSize (d_info d))) (block_at (br_data r) d)" and ?n = "channels_of d"
  assume r': "br_data r' = br_data r" "readPacket bytes_ops (r, d) = (Inr (), (r', d\<lparr>d_buf := ?b, d_currentBlock := d_currentBlock d + 1\<rparr>))"
  have i: "info_ok (d_info d)" "0 \<le> d_currentDelay d" and ch: "h_channels (d_handle d) = in_ChannelCount (d_info d)"
    using d(1) by (simp_all add: dec_ok_def)
  note num = info_numbers [OF i(1), folded channels_of_def]
  note h = DecodeBlock_playable [OF d(2) run]
  have len_h: "length (interleaved h) = 1024 * ?n" by (simp add: interleaved_length h(2) ch channels_of_def)
  let ?D = "d_currentDelay d" and ?pcm = "map (pcm16 F) (interleaved h)"
  let ?d = "d\<lparr>d_currentBlock := d_currentBlock d + 1, d_handle := h, d_buf := data\<rparr>"
  have rs: "ReadSamples16 F pcm h = Inr ?pcm"
    using pcm len_h by (simp add: ReadSamples16_def fill_buffer_def)
  have start: "wav_frame bytes_ops F pcm (r, d) =
    bindS (onDecoder takeDelay) (\<lambda>delay. bindS getD (\<lambda>d.
      case delay of None \<Rightarrow> returnS (?pcm, None)
      | Some discard \<Rightarrow>
           (let start = discard * sint (in_ChannelCount (d_info d));
                end' = sint (in_SamplesPerBlock (d_info d)) * sint (in_ChannelCount (d_info d)) in
            if start < 0 \<or> end' < 0 \<or> start \<ge> end' then throwS (Failure ''invalid sample range'')
            else if end' > int (length ?pcm) then throwS (Failure ''sample range out of bounds'')
            else returnS (?pcm, Some (concat (map (le_bytes 2) (drop (nat start) (take (nat end') ?pcm)))))))) (r', ?d)"
    by (simp add: wav_frame_def bindS_def [where m = "readPacket bytes_ops"] r'
        bindS_def [where m = "onDecoder (decodeBuf F)"] bindS_def [where m = "onDecoder (readSamplesPcm F pcm)"]
        onDecoder_def [of "decodeBuf F"] onDecoder_def [of "readSamplesPcm F pcm"] decodeBuf_def run readSamplesPcm_def rs)
  have ok: "after_frame h d (?d\<lparr>d_currentDelay := max 0 (?D - 1024)\<rparr>)"
    using d(1) h len by (simp add: after_frame_def dec_ok_def ch)
  show thesis
  proof (cases "?D < 1024")
    case True
    note fs = frame_samples [OF i(2) True len_h]
    have "?D * int ?n < 1024 * int ?n" using True num(3) by (intro mult_strict_right_mono) simp_all
    then have "wav_frame bytes_ops F pcm (r, d) =
        (Inr (?pcm, Some (concat (map (le_bytes 2) (drop (nat (?D * int ?n)) ?pcm)))), (r', ?d\<lparr>d_currentDelay := 0\<rparr>))"
      unfolding start using True i num len_h
      by (simp add: bindS_def onDecoder_def takeDelay_cases getD_def Let_def not_less nat_mult_distrib)
    moreover have "concat (map (le_bytes 2) (drop (nat (?D * int ?n)) ?pcm)) = pcm_bytes F (drop (nat ?D * ?n) (interleaved h))"
      by (simp add: fs(5) pcm_bytes_def drop_map comp_def)
    ultimately show thesis
      using ok True len_h
      by (intro that [OF _ r'(1), where pcm' = ?pcm and out = "Some (pcm_bytes F (drop (nat ?D * ?n) (interleaved h)))"]) simp_all
  next
    case False
    have "length (interleaved h) \<le> nat ?D * ?n" unfolding len_h using False by (intro mult_le_mono1) simp
    then have "pcm_bytes F (drop (nat ?D * ?n) (interleaved h)) = []" by (simp add: pcm_bytes_def)
    moreover have "wav_frame bytes_ops F pcm (r, d) = (Inr (?pcm, None), (r', ?d\<lparr>d_currentDelay := ?D - 1024\<rparr>))"
      unfolding start using False i by (simp add: bindS_def onDecoder_def takeDelay_cases getD_def)
    ultimately show thesis
      using ok False len_h by (intro that [OF _ r'(1), where pcm' = ?pcm and out = None]) simp_all
  qed
qed

lemma wav_loop_frames:
  assumes "dec_ok d" and "playable (d_handle d)" and "wr_limit w = None" and "length pcm = 1024 * channels_of d"
  shows "case frames_left F (br_data r) d of
      Inl e \<Rightarrow> fst (wav_loop bytes_ops F pcm w (r, d)) = Some e
    | Inr fs \<Rightarrow> fst (wav_loop bytes_ops F pcm w (r, d)) = None \<and>
        wr_out (fst (snd (wav_loop bytes_ops F pcm w (r, d)))) =
          wr_out w @ pcm_bytes F (drop (nat (d_currentDelay d) * channels_of d) (concat fs))"
  using assms
proof (induction "unat (in_BlockCount (d_info d)) - unat (d_currentBlock d)" arbitrary: r d w pcm rule: less_induct)
  case less
  have i: "info_ok (d_info d)" "0 \<le> d_currentDelay d" using less.prems(1) by (simp_all add: dec_ok_def)
  note loop = wav_loop.simps [of _ _ _ _ "(r, d)"]
  show ?case
  proof (rule frame_casesE [OF less.prems(1), of "br_data r" _ F])
    assume e: "in_BlockCount (d_info d) \<le> d_currentBlock d \<or> block_at (br_data r) d = []"
    then have "fst (wav_frame bytes_ops F pcm (r, d)) = Inl EOF"
      using DecodeFrame_stops(2) [OF less.prems(1)] block_size(2) [OF i(1)] by auto
    then show ?thesis using frames_left_end [OF e, of F]
      by (cases "wav_frame bytes_ops F pcm (r, d)") (simp add: loop pcm_bytes_def)
  next
    assume e: "d_currentBlock d < in_BlockCount (d_info d)" "block_at (br_data r) d \<noteq> []"
      "length (block_at (br_data r) d) < unat (in_BlockSize (d_info d))"
    then have "fst (wav_frame bytes_ops F pcm (r, d)) = Inl UnexpectedEOF"
      using DecodeFrame_stops(2) [OF less.prems(1)] by auto
    then show ?thesis using frames_left_fails(1) [OF e]
      by (cases "wav_frame bytes_ops F pcm (r, d)") (simp add: loop)
  next
    fix e h out
    assume e: "d_currentBlock d < in_BlockCount (d_info d)" "block_at (br_data r) d \<noteq> []"
      "\<not> length (block_at (br_data r) d) < unat (in_BlockSize (d_info d))"
      "DecodeBlock F (take (unat (in_BlockSize (d_info d))) (block_at (br_data r) d)) (d_handle d) = (Inl e, h, out)"
    have "fst (wav_frame bytes_ops F pcm (r, d)) = Inl e" "e \<noteq> EOF"
      using DecodeFrame_fails(2) [OF less.prems(1,2) e(1) _ e(4)] e(3) DecodeBlock_playable(4) [OF less.prems(2) e(4)] by auto
    then show ?thesis using frames_left_fails(2) [OF e]
      by (cases "wav_frame bytes_ops F pcm (r, d)") (simp add: loop)
  next
    fix h out
    assume e: "d_currentBlock d < in_BlockCount (d_info d)"
      "\<not> length (block_at (br_data r) d) < unat (in_BlockSize (d_info d))"
      "DecodeBlock F (take (unat (in_BlockSize (d_info d))) (block_at (br_data r) d)) (d_handle d) = (Inr (), h, out)"
    then have le: "unat (in_BlockSize (d_info d)) \<le> length (block_at (br_data r) d)" by simp
    note h = DecodeBlock_playable [OF less.prems(2) e(3)]
    show ?thesis
    proof (rule wav_frame_succeeds [OF less.prems(1,2) e(1) le e(3) less.prems(4)])
      fix r' d' pcm' bs
      assume run: "wav_frame bytes_ops F pcm (r, d) = (Inr (pcm', bs), (r', d'))" "br_data r' = br_data r"
        and a: "after_frame h d d'" and pcm': "length pcm' = 1024 * channels_of d"
        and bs: "(case bs of None \<Rightarrow> [] | Some bs \<Rightarrow> bs) =
          pcm_bytes F (drop (nat (d_currentDelay d) * channels_of d) (interleaved h))"
      note left = after_frame_left [OF a e(1) le block_size(2) [OF i(1)] e(3)]
      have d': "dec_ok d'" "playable (d_handle d')" "d_info d' = d_info d" "d_currentDelay d' = max 0 (d_currentDelay d - 1024)"
        using a h(1) by (simp_all add: after_frame_def)
      let ?w = "w\<lparr>wr_out := wr_out w @ pcm_bytes F (drop (nat (d_currentDelay d) * channels_of d) (interleaved h))\<rparr>"
      have IH: "case frames_left F (br_data r) d' of
          Inl e \<Rightarrow> fst (wav_loop bytes_ops F pcm' ?w (r', d')) = Some e
        | Inr fs \<Rightarrow> fst (wav_loop bytes_ops F pcm' ?w (r', d')) = None \<and>
            wr_out (fst (snd (wav_loop bytes_ops F pcm' ?w (r', d')))) =
              wr_out ?w @ pcm_bytes F (drop (nat (d_currentDelay d') * channels_of d) (concat fs))"
        using less.hyps [OF _ d'(1,2), of ?w pcm' r'] left(3) run(2) less.prems(3) pcm' unfolding left(2) by simp
      have step: "wav_loop bytes_ops F pcm w (r, d) = wav_loop bytes_ops F pcm' ?w (r', d')"
        using run(1) bs less.prems(3) by (cases bs) (simp_all add: loop wr_write_def flip: bs)
      have len: "length (interleaved h) = 1024 * channels_of d"
        using h(2) less.prems(1) by (simp add: interleaved_length channels_of_def dec_ok_def)
      have cut: "nat (d_currentDelay d) * channels_of d - length (interleaved h) = nat (d_currentDelay d') * channels_of d"
        unfolding len by (simp add: d'(4) diff_mult_distrib [symmetric] nat_diff_distrib' max_def)
      show ?thesis
        using IH left(1) cut unfolding step
        by (cases "frames_left F (br_data r) d'") (simp_all add: pcm_bytes_append)
    qed
  qed
qed

lemma DecodeToWav_frames:
  assumes "dec_ok d" and "playable (d_handle d)" and "wr_limit w = None"
  shows "case file_frames F (br_data r) d of
      Inl e \<Rightarrow> fst (DecodeToWav bytes_ops F w (r, d)) = Some e
    | Inr fs \<Rightarrow> fst (DecodeToWav bytes_ops F w (r, d)) = None \<and>
        wr_out (fst (snd (DecodeToWav bytes_ops F w (r, d)))) = wr_out w @ wav_header (d_info d) @
          pcm_bytes F (drop (unat (in_EncoderDelay (d_info d)) * channels_of d) (concat fs))"
proof -
  note R = Reset_ok [OF assms(1,2), of F]
  have i: "info_ok (d_info d)" using assms(1) by (simp add: dec_ok_def)
  have "uint (in_ChannelCount (d_info d)) \<le> 16"
    using i word_uint_mono [of "in_ChannelCount (d_info d)" 16] by (simp add: info_ok_def)
  then have pcm: "unat (in_SamplesPerBlock (d_info d) * in_ChannelCount (d_info d)) = 1024 * channels_of d"
    using info_numbers(4) [OF i] i by (simp add: info_ok_def channels_of_def unat_word_ariths)
  let ?w = "w\<lparr>wr_out := wr_out w @ wav_header (d_info d)\<rparr>"
  have "DecodeToWav bytes_ops F w (r, d) = wav_loop bytes_ops F (replicate (1024 * channels_of d) 0) ?w (r, Reset F d)"
    using assms(3) by (simp add: DecodeToWav_def wr_write_def R(3) pcm Let_def)
  then show ?thesis
    using wav_loop_frames [OF R(1,2), of ?w "replicate (1024 * channels_of d) 0" F r] assms(3)
    by (simp add: frames_left_Reset R(5) channels_of_def R(3) cong: sum.case_cong)
qed

section \<open>Any reader will do\<close>

text \<open>
  A decoder over a reader that satisfies the contract does what the same decoder does over the bytes
  the reader stands for.
\<close>

definition viewD :: "('s \<Rightarrow> 't) \<Rightarrow> 's \<times> 'd \<Rightarrow> 't \<times> 'd" where
  "viewD view st = (view (fst st), snd st)"

definition okD :: "('s \<Rightarrow> bool) \<Rightarrow> ('s, 'f) dec \<Rightarrow> bool" where
  "okD ok st \<longleftrightarrow> ok (fst st) \<and> info_ok (d_info (snd st))"

lemma viewD_simps [simp]: "snd (viewD view st) = snd st" "viewD view (s, d) = (view s, d)" "okD ok (s, d) \<longleftrightarrow> ok s \<and> info_ok (d_info d)"
  by (simp_all add: viewD_def okD_def)

lemma simS_onReader [sim_intros]:
  assumes "simS ok view m m'"
  shows "simS (okD ok) (viewD view) (onReader m) (onReader m')"
proof (rule simSI)
  fix st r t
  assume st: "okD ok st" "onReader m st = (r, t)"
  obtain s d q u where s: "st = (s, d)" "m s = (q, u)" by (metis surj_pair)
  from simSD [OF assms _ s(2)] st s(1,2)
  show "onReader m' (viewD view st) = (r, viewD view t) \<and> okD ok t" by (auto simp: onReader_def)
qed

lemma simS_onDecoder [sim_intros]:
  assumes "\<And>d. d_info (snd (f d)) = d_info d"
  shows "simS (okD ok) (viewD view) (onDecoder f) (onDecoder f)"
proof (rule simSI)
  fix st r t
  assume st: "okD ok st" "onDecoder f st = (r, t)"
  then show "onDecoder f (viewD view st) = (r, viewD view t) \<and> okD ok t"
    using assms [of "snd st"] by (cases st; cases "f (snd st)") (auto simp: onDecoder_def)
qed

lemma simS_modD [sim_intros]:
  assumes "\<And>d. d_info (f d) = d_info d"
  shows "simS (okD ok) (viewD view) (modD f) (modD f)"
  by (rule simSI) (use assms in \<open>auto simp: modD_def\<close>)

lemma simS_getD [sim_intros]:
  assumes "\<And>d. info_ok (d_info d) \<Longrightarrow> simS (okD ok) (viewD view) (f d) (f' d)"
  shows "simS (okD ok) (viewD view) (bindS getD f) (bindS getD f')"
proof (rule simSI)
  fix st r t
  assume st: "okD ok st" "bindS getD f st = (r, t)"
  obtain s d where s: "st = (s, d)" by (cases st)
  then have "f d st = (r, t)" using st(2) by (simp add: bindS_def getD_def)
  from simSD [OF assms st(1) this] st(1) s
  show "bindS getD f' (viewD view st) = (r, viewD view t) \<and> okD ok t" by (simp add: bindS_def getD_def)
qed

lemma decodeBuf_info: "d_info (snd (decodeBuf F d)) = d_info d"
  by (simp add: decodeBuf_def split: prod.splits)

lemma readSamplesFbuf_info: "d_info (snd (readSamplesFbuf d)) = d_info d"
  by (simp add: readSamplesFbuf_def split: sum.splits)

lemma takeDelay_info: "d_info (snd (takeDelay d)) = d_info d"
  by (simp add: takeDelay_def Let_def)

lemma readSamplesPcm_info: "d_info (snd (readSamplesPcm F pcm d)) = d_info d"
  by (simp add: readSamplesPcm_def)

context seekable_reader begin

lemma readBuf_sim [sim_intros]: "simS (okD ok) (viewD view) (readBuf R) (readBuf bytes_ops)"
proof (rule simSI)
  fix st r t
  assume st: "okD ok st" "readBuf R st = (r, t)"
  obtain s d where s: "st = (s, d)" by (cases st)
  obtain got e u where l: "read_loop R (length (d_buf d)) s = ((got, e), u)" by (metis surj_pair)
  from simSD [OF read_loop_sim _ l] st l s
  show "readBuf bytes_ops (viewD view st) = (r, viewD view t) \<and> okD ok t"
    by (auto simp: readBuf_def Let_def split: option.splits)
qed

lemma readPacket_sim [sim_intros]: "simS (okD ok) (viewD view) (readPacket R) (readPacket bytes_ops)"
  unfolding readPacket_def
proof (intro simS_getD simS_If)
  fix d :: "'f CriWareHCADecoder"
  assume i: "info_ok (d_info d)" and "\<not> in_BlockCount (d_info d) \<le> d_currentBlock d"
  then have "0 \<le> sint (in_HeaderSize (d_info d) + d_currentBlock d * in_BlockSize (d_info d))"
    by (subst block_offset [OF i]) simp_all
  note seek_sim [OF this]
  then show "simS (okD ok) (viewD view)
     (bindS (onReader (checkErr (\<lambda>s. rs_seek R s (sint (in_HeaderSize (d_info d) + d_currentBlock d * in_BlockSize (d_info d))) SeekStart)))
       (\<lambda>_. bindS (readBuf R) (\<lambda>n. if int n \<noteq> sint (in_BlockSize (d_info d)) then throwS (Failure ''short block'')
          else modD (\<lambda>d. d\<lparr>d_currentBlock := d_currentBlock d + 1\<rparr>))))
     (bindS (onReader (checkErr (\<lambda>s. rs_seek bytes_ops s (sint (in_HeaderSize (d_info d) + d_currentBlock d * in_BlockSize (d_info d))) SeekStart)))
       (\<lambda>_. bindS (readBuf bytes_ops) (\<lambda>n. if int n \<noteq> sint (in_BlockSize (d_info d)) then throwS (Failure ''short block'')
          else modD (\<lambda>d. d\<lparr>d_currentBlock := d_currentBlock d + 1\<rparr>))))"
    by (auto intro!: sim_intros)
qed (rule simS_throwS)

lemma DecodeFrame_sim: "simS (okD ok) (viewD view) (DecodeFrame R F) (DecodeFrame bytes_ops F)"
  unfolding DecodeFrame_def
  by (intro sim_intros decodeBuf_info readSamplesFbuf_info takeDelay_info)
    (auto simp: Let_def split: option.split intro!: sim_intros)

lemma wav_frame_sim: "simS (okD ok) (viewD view) (wav_frame R F pcm) (wav_frame bytes_ops F pcm)"
  unfolding wav_frame_def
  by (intro sim_intros decodeBuf_info readSamplesPcm_info takeDelay_info)
    (auto simp: Let_def split: option.split intro!: sim_intros)

lemma decode_all_loop_sim:
  "okD ok st \<Longrightarrow> decode_all_loop R F st = (r, t) \<Longrightarrow>
   decode_all_loop bytes_ops F (viewD view st) = (r, viewD view t)"
proof (induction "unat (in_BlockCount (d_info (snd st))) - unat (d_currentBlock (snd st))" arbitrary: st r t rule: less_induct)
  case less
  obtain q u where run: "DecodeFrame R F st = (q, u)" by (metis surj_pair)
  note sim = simSD [OF DecodeFrame_sim less.prems(1) run]
  show ?case
  proof (cases q)
    case (Inl e)
    with less.prems(2) sim run show ?thesis by (auto simp: decode_all_loop.simps [of _ _ st] decode_all_loop.simps [of _ _ "viewD view st"])
  next
    case (Inr x)
    obtain xs k where x: "x = (xs, k)" by (cases x)
    obtain q' u' where rest: "decode_all_loop R F u = (q', u')" by (metis surj_pair)
    have "unat (in_BlockCount (d_info (snd u))) - unat (d_currentBlock (snd u)) <
        unat (in_BlockCount (d_info (snd st))) - unat (d_currentBlock (snd st))"
      using DecodeFrame_moves [of R F "fst st" "snd st" x "fst u" "snd u"] run Inr next_block_less(1) by auto
    from less.hyps [OF this sim(2) rest] less.prems(2) sim run rest Inr x
    show ?thesis
      by (auto simp: decode_all_loop.simps [of _ _ st] decode_all_loop.simps [of _ _ "viewD view st"] Let_def
          split: if_splits sum.splits)
  qed
qed

lemma wav_loop_sim:
  "okD ok st \<Longrightarrow> wav_loop R F pcm w st = (e, w', t) \<Longrightarrow>
   wav_loop bytes_ops F pcm w (viewD view st) = (e, w', viewD view t)"
proof (induction "unat (in_BlockCount (d_info (snd st))) - unat (d_currentBlock (snd st))" arbitrary: st pcm w e w' t rule: less_induct)
  case less
  obtain q u where run: "wav_frame R F pcm st = (q, u)" by (metis surj_pair)
  note sim = simSD [OF wav_frame_sim less.prems(1) run]
  show ?case
  proof (cases q)
    case (Inl e)
    with less.prems(2) sim run show ?thesis by (auto simp: wav_loop.simps [of _ _ _ _ st] wav_loop.simps [of _ _ _ _ "viewD view st"])
  next
    case (Inr x)
    obtain pcm' bs where x: "x = (pcm', bs)" by (cases x)
    have smaller: "unat (in_BlockCount (d_info (snd u))) - unat (d_currentBlock (snd u)) <
        unat (in_BlockCount (d_info (snd st))) - unat (d_currentBlock (snd st))"
      using wav_frame_moves [of R F pcm "fst st" "snd st" x "fst u" "snd u"] run Inr next_block_less(1) by auto
    note IH = less.hyps [OF smaller sim(2)]
    note loops = wav_loop.simps [of _ _ _ _ st] wav_loop.simps [of _ _ _ _ "viewD view st"]
    show ?thesis
    proof (cases bs)
      case None
      with IH [of pcm' w] less.prems(2) sim run Inr x show ?thesis by (simp add: loops)
    next
      case (Some data)
      obtain we w2 where wr: "wr_write w data = (we, w2)" by (metis surj_pair)
      with IH [of pcm' w2] less.prems(2) sim run Inr x Some show ?thesis
        by (cases we) (auto simp: loops)
    qed
  qed
qed

end

section \<open>Opening a file\<close>

lemma simS_fromR [sim_intros]: "simS ok view (fromR x) (fromR x)"
  by (rule simSI) (simp add: fromR_def)

context seekable_reader begin

lemma NewHCADecoderFromReader_sim:
  "simS ok view (NewHCADecoderFromReader R F) (NewHCADecoderFromReader bytes_ops F)"
  unfolding NewHCADecoderFromReader_def
  by (intro sim_intros) (simp_all add: read_sim [of 8, simplified] seek_sim [of 0, simplified])

end

lemma IsOurFile_no_panic:
  assumes "length data = 8"
  shows "\<exists>n. IsOurFile data = Inr n"
proof -
  have br: "bitreaderInit data 8 = rdr data 0" using bitreaderInit_rdr [of data] assms by simp
  have skip: "bitreaderSkip (rdr data 0) 48 = rdr data 48" using bitreaderSkip_rdr [of data 0 48] by simp
  have "bitreaderPeek (rdr data 0) 32 = Inr (field data 0 4)"
    using peek_field [of 4 data 0] by simp
  moreover have "bitreaderPeek (rdr data 48) 16 = Inr (field data 6 2)"
    using peek_field [of 2 data 6] by simp
  ultimately show ?thesis
    using assms by (auto simp: IsOurFile_def Let_def br skip bitreaderRead_def)
qed

lemma open_header_ok:
  assumes "open_header F data = r"
  shows "case r of Inl e \<Rightarrow> \<not> is_panic e
    | Inr d \<Rightarrow> dec_ok d \<and> decoder_ok (d_handle d) \<and> header_checked data \<and>
        GetInfo (d_handle d) = Inr (d_info d) \<and> d_currentBlock d = 0 \<and>
        d_currentDelay d = int (unat (in_EncoderDelay (d_info d)))"
proof -
  let ?z = "f_of_int F 0"
  obtain q h where run: "DecodeHeader data (NewClHCA ?z) = (q, h)" by (metis surj_pair)
  note res = DecodeHeader_cases [OF shape_NewClHCA run]
  show ?thesis
  proof (cases q)
    case (Inl e)
    then show ?thesis using assms run res by (auto simp: open_header_def)
  next
    case (Inr u)
    then have h: "h_isValid h" "decoder_ok h" "fields_read data h" "header_checked data"
      using res by (simp_all add: fixed_def)
    then obtain info where info: "GetInfo h = Inr info" by (simp add: GetInfo_def)
    then have i: "in_HeaderSize info = h_headerSize h" "in_ChannelCount info = h_channels h" "in_BlockSize info = h_frameSize h"
      "in_BlockCount info = h_frameCount h" "in_EncoderDelay info = h_encoderDelay h" "in_SamplesPerBlock info = 1024"
      using h(1) by (auto simp: GetInfo_def)
    have num: "h_headerSize h \<le> 0xFFFF" "h_frameCount h \<le> 0xFFFFFFFF" "h_encoderDelay h \<le> 0xFFFF"
      using h(3) field_less [of 2 data 6] field_less [of 4 data 16] field_less [of 2 data 20]
      by (simp_all add: fields_read_def word_le_nat_alt)
    have ch: "1 \<le> unat (h_channels h)" "unat (h_channels h) \<le> 16"
      using h(2) by (auto simp: decoder_ok_def channels_ok_def)
    then have "unat (h_channels h * 1024) = 1024 * unat (h_channels h)" by (simp add: unat_word_ariths)
    moreover have "info_ok info"
      using num ch h(2) by (simp add: info_ok_def i word_le_nat_alt decoder_ok_def frame_ok_def)
    ultimately have d0: "dec_ok \<lparr>d_info = info, d_handle = h, d_buf = replicate (unat (in_BlockSize info)) 0,
        d_fbuf = replicate (unat (in_ChannelCount info * in_SamplesPerBlock info)) ?z,
        d_currentDelay = 0, d_currentBlock = 0\<rparr>" (is "dec_ok ?d")
      by (simp add: dec_ok_def i)
    have d: "r = Inr (Reset F ?d)" using assms run Inr info by (simp add: open_header_def)
    have m: "moved h (DecodeReset ?z h)" by (rule DecodeReset_moved [OF decoder_ready [OF h(2)]])
    have "uint (h_encoderDelay h) \<le> 0xFFFF" using word_uint_mono [OF num(3)] by simp
    then have e: "sint (h_encoderDelay h) = int (unat (h_encoderDelay h))" by (subst sint_small) simp_all
    have "GetInfo (DecodeReset ?z h) = GetInfo h" by (simp add: GetInfo_def DecodeReset_def)
    then show ?thesis
      using d d0 h(4) info DecodeReset_ok [OF h(2)] moved_fields(1) [OF m]
      by (simp add: Reset_def dec_ok_def i e)
  qed
qed

lemma open_bytes:
  assumes "NewHCADecoderFromReader bytes_ops F r = (q, r')"
  shows "br_data r' = br_data r \<and> (case q of Inl e \<Rightarrow> \<not> is_panic e
    | Inr d \<Rightarrow> \<exists>n. open_header F (take n (br_data r)) = Inr d)"
proof (cases "length (br_data r) \<le> br_pos r")
  case True
  then show ?thesis
    using assms by (auto simp: NewHCADecoderFromReader_def bindS_def checkErr_def bytes_Read_def)
next
  case False
  let ?got = "take 8 (drop (br_pos r) (br_data r))"
  have "length (?got @ replicate (8 - length ?got) 0) = 8" by simp
  then obtain n where n: "IsOurFile (?got @ replicate (8 - length ?got) 0) = Inr n"
    using IsOurFile_no_panic by blast
  let ?r = "r\<lparr>br_pos := 0\<rparr>"
  let ?full = "take (nat n) (br_data r) @ replicate (nat n - length (br_data r)) 0"
  have rest: "br_rest ?r = br_data r" by (simp add: br_rest_def)
  have run: "(q, r') =
    (if n < 0 \<or> n > 0x1000 then (Inl (Failure ''invalid HCA header''), r\<lparr>br_pos := br_pos r + length ?got\<rparr>)
     else case read_full bytes_ops (nat n) ?r of
       ((v, None), s) \<Rightarrow> (open_header F v, s) | ((v, Some e), s) \<Rightarrow> (Inl e, s))"
    using False n
    by (simp add: assms [symmetric] NewHCADecoderFromReader_def bindS_def checkErr_def bytes_Read_def bytes_Seek_def
        Let_def fromR_def throwS_def split: option.splits prod.splits)
  show ?thesis
  proof (cases "n < 0 \<or> n > 0x1000 \<or> length (br_data r) < nat n")
    case True
    then show ?thesis using run rest by (auto simp: read_full_bytes split: if_splits)
  next
    case ok: False
    then have "open_header F (take (nat n) (br_data r)) = q" "br_data r' = br_data r"
      using run rest by (auto simp: read_full_bytes)
    then show ?thesis using open_header_ok [of F "take (nat n) (br_data r)" q] by (auto split: sum.splits)
  qed
qed

section \<open>A decoder for the sample header\<close>

definition sample_dec :: "nat CriWareHCADecoder" where
  "sample_dec = (case open_header nat_ops sample_header of Inr d \<Rightarrow> d)"

lemma sample_opens: "open_header nat_ops sample_header = Inr sample_dec"
proof -
  have "f_of_int nat_ops 0 = 0" by (simp add: nat_ops_def)
  then have "open_header nat_ops sample_header =
      bindR (GetInfo sample_decoder) (\<lambda>info. Inr (Reset nat_ops \<lparr>d_info = info, d_handle = sample_decoder,
        d_buf = replicate (unat (in_BlockSize info)) 0,
        d_fbuf = replicate (unat (in_ChannelCount info * in_SamplesPerBlock info)) 0,
        d_currentDelay = 0, d_currentBlock = 0\<rparr>))"
    by (simp add: open_header_def sample_run)
  then show ?thesis unfolding sample_dec_def by (simp add: GetInfo_def sample_ready(2))
qed

lemma sample_dec_ok:
  "dec_ok sample_dec" "playable (d_handle sample_dec)" "in_HeaderSize (d_info sample_dec) = 38"
  "in_BlockCount (d_info sample_dec) = 5" "in_BlockSize (d_info sample_dec) = 256"
  "in_ChannelCount (d_info sample_dec) = 1" "in_EncoderDelay (d_info sample_dec) = 128"
proof -
  note open_header_ok [OF sample_opens]
  then show "dec_ok sample_dec" by simp
  have f: "f_of_int nat_ops 0 = 0" by (simp add: nat_ops_def)
  have d: "d_handle sample_dec = DecodeReset 0 sample_decoder" "GetInfo sample_decoder = Inr (d_info sample_dec)"
    using sample_opens by (simp_all add: open_header_def sample_run f GetInfo_def sample_ready(2) Reset_def sample_dec_def)
  have "high_bands_fit sample_decoder"
    using sample_band_field by (simp add: high_bands_fit_def sample_decoder_def)
  then show "playable (d_handle sample_dec)"
    unfolding d(1) using sample_ready(1) sample_scales_fit
    by (intro moved_playable [OF DecodeReset_moved]) (simp_all add: playable_def)
  have "fields_read sample_header sample_decoder"
    using DecodeHeader_cases [OF shape_NewClHCA sample_run] by (simp add: fixed_def)
  then show "in_HeaderSize (d_info sample_dec) = 38" "in_BlockCount (d_info sample_dec) = 5"
    "in_BlockSize (d_info sample_dec) = 256" "in_ChannelCount (d_info sample_dec) = 1"
    "in_EncoderDelay (d_info sample_dec) = 128"
    unfolding d(2) [unfolded GetInfo_def, simplified sample_ready(2), simplified, symmetric]
    by (simp_all add: fields_read_def sample_fields [unfolded One_nat_def])
qed

lemma sample_frames:
  "file_frames F sample_header sample_dec' = Inr []" if "in_HeaderSize (d_info sample_dec') = 38"
  using that by (cases "unat (in_BlockCount (d_info sample_dec'))") (simp_all add: file_frames_def sample_fields)

section \<open>Properties\<close>

text \<open>
  C18: opening never panics and gives a decoder in order. Over any reader that satisfies the contract,
  whatever bytes it holds, \<open>NewHCADecoderFromReader\<close> returns an error value, or a decoder whose
  header was checked, whose buffers have the size of a block and of its samples, and which stands
  at the first block with the encoder's delay still to drop.
\<close>

theorem opened_decoder_is_in_order:
  assumes "seekable_reader R view ok" and "ok s" and "NewHCADecoderFromReader R F s = (r, s')"
  shows "case r of Inl e \<Rightarrow> \<not> is_panic e
    | Inr d \<Rightarrow> dec_ok d \<and> decoder_ok (d_handle d) \<and> GetInfo (d_handle d) = Inr (d_info d) \<and>
        (\<exists>n. header_checked (take n (br_data (view s)))) \<and>
        d_currentBlock d = 0 \<and> d_currentDelay d = int (unat (in_EncoderDelay (d_info d)))"
proof -
  note run = simSD(1) [OF seekable_reader.NewHCADecoderFromReader_sim [OF assms(1)] assms(2,3)]
  show ?thesis
  proof (cases r)
    case (Inl e)
    with open_bytes [OF run] show ?thesis by simp
  next
    case (Inr d)
    with open_bytes [OF run] obtain n where "open_header F (take n (br_data (view s))) = Inr d" by auto
    from open_header_ok [OF this] Inr show ?thesis by auto
  qed
qed

lemma opened_decoder_is_in_order_witness:
  "\<exists>d s'. NewHCADecoderFromReader bytes_ops nat_ops (new_reader sample_header) = (Inr d, s') \<and> dec_ok d"
proof -
  have [simp]: "length sample_header = 38" by (rule sample_fields)
  have "IsOurFile (take 8 sample_header) = Inr 38" by code_simp
  then have run: "NewHCADecoderFromReader bytes_ops nat_ops (new_reader sample_header) =
      (Inr sample_dec, \<lparr>br_data = sample_header, br_pos = 38\<rparr>)"
    by (simp add: NewHCADecoderFromReader_def bindS_def checkErr_def bytes_Read_def bytes_Seek_def Let_def fromR_def
        read_full_bytes br_rest_def sample_opens new_reader_def)
  from opened_decoder_is_in_order [OF bytes_reader.seekable_reader_axioms TrueI this] run show ?thesis by simp
qed

text \<open>
  C19: \<open>DecodeAll\<close> gives the samples of the file without the encoder's delay. Over any reader that
  satisfies the contract, from a decoder in order, its result is that of decoding the blocks of the
  file one after another, with the samples of the delay dropped from the front however many blocks
  they cover; an error of a block is its error.
\<close>

theorem decode_all_drops_the_delay:
  assumes "seekable_reader R view ok" and "ok s" and "dec_ok d" and "playable (d_handle d)"
  shows "fst (DecodeAll R F (s, d)) =
    (case file_frames F (br_data (view s)) d of
       Inl e \<Rightarrow> Inl (frame_error e)
     | Inr fs \<Rightarrow> Inr (drop (unat (in_EncoderDelay (d_info d)) * channels_of d) (concat fs)))"
proof -
  note R = Reset_ok [OF assms(3,4), of F]
  have i: "info_ok (d_info d)" using assms(3) by (simp add: dec_ok_def)
  obtain r t where run: "decode_all_loop R F (s, Reset F d) = (r, t)" by (metis surj_pair)
  have "DecodeAll R F (s, d) = (r, t)"
    using sample_count(1) [OF i] info_numbers(2) [OF i] run
    by (simp add: DecodeAll_def bindS_def modD_def getD_def Reset_def Let_def not_less [symmetric] mult_less_0_iff)
  moreover have "okD ok (s, Reset F d)" using assms(2) i by (simp add: Reset_def)
  from seekable_reader.decode_all_loop_sim [OF assms(1) this run]
  have "fst (decode_all_loop bytes_ops F (view s, Reset F d)) = r" by simp
  ultimately show ?thesis
    using decode_all_loop_frames [OF R(1,2), of F "view s"]
    by (simp add: frames_left_Reset R(5) channels_of_def R(3) cong: sum.case_cong)
qed

lemma decode_all_drops_the_delay_witness:
  "fst (DecodeAll bytes_ops nat_ops (new_reader sample_header, sample_dec)) = Inr []"
  using decode_all_drops_the_delay [OF bytes_reader.seekable_reader_axioms TrueI sample_dec_ok(1,2), of nat_ops "new_reader sample_header"]
    sample_frames [OF sample_dec_ok(3), of nat_ops]
  by simp

lemma DecodeToWav_any_reader:
  assumes "seekable_reader R view ok" and "ok s" and d: "dec_ok d"
  shows "fst (DecodeToWav R F w (s, d)) = fst (DecodeToWav bytes_ops F w (view s, d))"
    "fst (snd (DecodeToWav R F w (s, d))) = fst (snd (DecodeToWav bytes_ops F w (view s, d)))"
proof -
  have ok: "okD ok (s, Reset F d)" using assms(2) d by (simp add: Reset_def dec_ok_def)
  obtain we w' where w: "wr_write w (wav_header (d_info d)) = (we, w')" by (metis surj_pair)
  have "d_info (Reset F d) = d_info d" by (simp add: Reset_def)
  moreover obtain e w2 t where run: "wav_loop R F (replicate (unat (in_SamplesPerBlock (d_info d) * in_ChannelCount (d_info d))) 0) w' (s, Reset F d) = (e, w2, t)"
    by (metis surj_pair)
  note sim = seekable_reader.wav_loop_sim [OF assms(1) ok run]
  ultimately show "fst (DecodeToWav R F w (s, d)) = fst (DecodeToWav bytes_ops F w (view s, d))"
    "fst (snd (DecodeToWav R F w (s, d))) = fst (snd (DecodeToWav bytes_ops F w (view s, d)))"
    using run sim w by (auto simp: DecodeToWav_def Let_def split: option.split)
qed

text \<open>
  C20: what \<open>DecodeToWav\<close> writes. Over any reader that satisfies the contract, from a decoder in order,
  into a writer with room: when every block decodes, the 44 bytes of the header and then the samples of
  the file behind the encoder's delay, in 16 bits; otherwise it reports the error of the first block
  that does not.
\<close>

theorem wav_file_contents:
  assumes "seekable_reader R view ok" and "ok s" and "dec_ok d" and "playable (d_handle d)" and "wr_limit w = None"
    and "DecodeToWav R F w (s, d) = (e, w', t)"
  shows "case file_frames F (br_data (view s)) d of
      Inl err \<Rightarrow> e = Some err
    | Inr fs \<Rightarrow> e = None \<and> length (wav_header (d_info d)) = 44 \<and>
        wr_out w' = wr_out w @ wav_header (d_info d) @
          pcm_bytes F (drop (unat (in_EncoderDelay (d_info d)) * channels_of d) (concat fs))"
  using DecodeToWav_frames [OF assms(3,4,5), of F "view s"] DecodeToWav_any_reader [OF assms(1-3), of F w] assms(6)
  by (auto simp: wav_header_def Let_def ascii_def split: sum.splits)

lemma wav_file_contents_witness:
  "wr_out (fst (snd (DecodeToWav bytes_ops nat_ops \<lparr>wr_out = [], wr_limit = None\<rparr> (new_reader sample_header, sample_dec)))) =
    wav_header (d_info sample_dec)"
proof -
  obtain e w t where "DecodeToWav bytes_ops nat_ops \<lparr>wr_out = [], wr_limit = None\<rparr> (new_reader sample_header, sample_dec) = (e, w, t)"
    by (metis surj_pair)
  from wav_file_contents [OF bytes_reader.seekable_reader_axioms TrueI sample_dec_ok(1,2) _ this] this show ?thesis
    using sample_frames [OF sample_dec_ok(3), of nat_ops] by (simp add: pcm_bytes_def)
qed

text \<open>
  A WAV file is as long as its header says exactly when the HCA file holds all the blocks its own
  header counts. A file that is cut between two blocks still decodes without an error, into a WAV
  file that is shorter than its header says.
\<close>

theorem wav_header_counts_missing_blocks:
  assumes d: "dec_ok d" "playable (d_handle d)"
    and delay: "unat (in_EncoderDelay (d_info d)) < 1024 * unat (in_BlockCount (d_info d))"
    and run: "DecodeToWav bytes_ops F \<lparr>wr_out = [], wr_limit = None\<rparr> (r, d) = (None, w, t)"
  shows "int (length (wr_out w)) \<le> 44 + wav_pcm_bytes (d_info d) \<and>
    (int (length (wr_out w)) = 44 + wav_pcm_bytes (d_info d) \<longleftrightarrow>
     unat (in_HeaderSize (d_info d)) + unat (in_BlockCount (d_info d)) * unat (in_BlockSize (d_info d)) \<le> length (br_data r))"
proof -
  let ?i = "d_info d"
  let ?D = "unat (in_EncoderDelay ?i)" and ?N = "unat (in_BlockCount ?i)" and ?n = "channels_of d"
    and ?bs = "unat (in_BlockSize ?i)" and ?hs = "unat (in_HeaderSize ?i)"
  have i: "info_ok ?i" using d(1) by (simp add: dec_ok_def)
  note out = DecodeToWav_frames [OF d, of "\<lparr>wr_out = [], wr_limit = None\<rparr>" F r]
  obtain fs where fs: "file_frames F (br_data r) d = Inr fs"
    using out run by (cases "file_frames F (br_data r) d") simp_all
  have w: "wr_out w = wav_header ?i @ pcm_bytes F (drop (?D * ?n) (concat fs))"
    using out run fs by simp
  have h: "playable (DecodeReset (f_of_int F 0) (d_handle d))" "h_channels (DecodeReset (f_of_int F 0) (d_handle d)) = in_ChannelCount ?i"
    using Reset_ok(1,2) [OF d, of F] by (simp_all add: Reset_def dec_ok_def)
  have count: "length fs = min ?N ((length (br_data r) - ?hs) div ?bs)"
    using decoded_frames_count [OF fs [unfolded file_frames_def] block_size(2) [OF i]] by simp
  have "f \<in> set fs \<Longrightarrow> length f = 1024 * ?n" for f
    using decoded_frames_length [OF fs [unfolded file_frames_def] h(1)] by (simp add: h(2) channels_of_def)
  then have all: "length (concat fs) = 1024 * ?n * length fs"
    using length_concat_uniform [of fs "\<lambda>x. x" "1024 * ?n"] by simp
  have len: "length (wr_out w) = 44 + 2 * ?n * (1024 * length fs - ?D)"
    by (simp add: w length_pcm_bytes all wav_header_def Let_def ascii_def diff_mult_distrib2 mult.assoc mult.left_commute mult.commute)
  have "uint (in_EncoderDelay ?i) \<le> 0xFFFF"
    using i word_uint_mono [of "in_EncoderDelay ?i" "0xFFFF"] by (simp add: info_ok_def)
  then have e: "sint (in_EncoderDelay ?i) = int ?D" by (subst sint_small) simp_all
  have "wav_pcm_bytes ?i = (int (?N * 1024) - int ?D) * int ?n * 2"
    unfolding wav_pcm_bytes_def Let_def sample_count(1) [OF i] info_numbers(2) [OF i] e channels_of_def by simp
  also have "int (?N * 1024) - int ?D = int (1024 * ?N - ?D)" using delay by (simp add: of_nat_diff)
  finally have pcm: "wav_pcm_bytes ?i = int (2 * ?n * (1024 * ?N - ?D))" by simp
  have n: "0 < ?n" using info_numbers(3) [OF i] by (simp add: channels_of_def)
  have "length fs \<le> ?N" using count by simp
  then have "1024 * length fs - ?D \<le> 1024 * ?N - ?D" "1024 * length fs - ?D = 1024 * ?N - ?D \<longleftrightarrow> length fs = ?N"
    using delay by auto
  moreover have "length fs = ?N \<longleftrightarrow> ?N * ?bs \<le> length (br_data r) - ?hs"
    using count block_size(2) [OF i] less_eq_div_iff_mult_less_eq [of ?bs ?N "length (br_data r) - ?hs"] by auto
  moreover have "0 < ?N * ?bs" using delay block_size(2) [OF i] by (cases ?N) auto
  then have "?N * ?bs \<le> length (br_data r) - ?hs \<longleftrightarrow> ?hs + ?N * ?bs \<le> length (br_data r)"
    by (cases "?hs \<le> length (br_data r)") (simp_all add: le_diff_conv2 add.commute)
  ultimately show ?thesis unfolding len pcm using n by auto
qed

lemma wav_header_counts_missing_blocks_witness:
  "\<exists>w t. DecodeToWav bytes_ops nat_ops \<lparr>wr_out = [], wr_limit = None\<rparr> (new_reader sample_header, sample_dec) = (None, w, t) \<and>
    int (length (wr_out w)) < 44 + wav_pcm_bytes (d_info sample_dec)"
proof -
  obtain e w t where run: "DecodeToWav bytes_ops nat_ops \<lparr>wr_out = [], wr_limit = None\<rparr> (new_reader sample_header, sample_dec) = (e, w, t)"
    by (metis surj_pair)
  moreover have e: "e = None"
    using DecodeToWav_frames [OF sample_dec_ok(1,2), of "\<lparr>wr_out = [], wr_limit = None\<rparr>" nat_ops "new_reader sample_header"] run
      sample_frames [OF sample_dec_ok(3), of nat_ops] by simp
  moreover have "length sample_header = 38" by (rule sample_fields)
  ultimately have "int (length (wr_out w)) < 44 + wav_pcm_bytes (d_info sample_dec)"
    using wav_header_counts_missing_blocks [OF sample_dec_ok(1,2), of nat_ops "new_reader sample_header" w t]
    by (simp add: sample_dec_ok(3-7))
  with run e show ?thesis by blast
qed

lemma seek_target:
  assumes "info_ok i" and "0 \<le> n" and "n < 2 ^ 62"
  shows "uint (of_int n + in_EncoderDelay i) = n + uint (in_EncoderDelay i)"
proof -
  have "uint (in_EncoderDelay i) \<le> 0xFFFF"
    using assms(1) word_uint_mono [of "in_EncoderDelay i" "0xFFFF"] by (simp add: info_ok_def)
  with assms(2,3) show ?thesis by (simp add: uint_word_ariths uint_word_of_int mod_add_left_eq)
qed

lemma Seek_again:
  assumes "\<not> (in_LoopStartBlock (d_info d) = 0 \<and> in_LoopStartDelay (d_info d) = 0)"
    and "d_currentBlock d = in_LoopStartBlock (d_info d)" and "d_currentDelay d = sint (in_LoopStartDelay (d_info d))"
  shows "Seek m d = d"
  using assms by (cases d) (auto simp: Seek_def Let_def)

text \<open>
  \<open>Seek\<close> works once. The first seek of a file without a loop puts the decoder at the block and
  the sample in it that make up the target behind the encoder's delay; it keeps the target in the
  loop fields of the info, so that from then on a seek to any sample goes to the same place.
\<close>

theorem seek_goes_to_the_first_target:
  assumes "info_ok (d_info d)" and "in_LoopStartBlock (d_info d) = 0" and "in_LoopStartDelay (d_info d) = 0"
    and "0 \<le> n" and "n < 2 ^ 62" and "0 < n + uint (in_EncoderDelay (d_info d))"
  shows "uint (d_currentBlock (Seek n d)) * 1024 + d_currentDelay (Seek n d) = n + uint (in_EncoderDelay (d_info d)) \<and>
    0 \<le> d_currentDelay (Seek n d) \<and> d_currentDelay (Seek n d) < 1024 \<and>
    Seek m (Seek n d) = Seek n d"
proof -
  let ?i = "d_info d"
  let ?t = "of_int n + in_EncoderDelay ?i"
  have spb: "in_SamplesPerBlock ?i = 1024" using assms(1) by (simp add: info_ok_def)
  have rest: "?t - ?t div 1024 * 1024 = ?t mod 1024" by (rule minus_div_mult_eq_mod)
  have i': "d_info (Seek n d) = ?i\<lparr>in_LoopStartBlock := ?t div 1024, in_LoopStartDelay := ?t mod 1024\<rparr>"
    "d_currentBlock (Seek n d) = ?t div 1024" "d_currentDelay (Seek n d) = sint (?t mod 1024)"
    using assms(2,3) by (simp_all add: Seek_def Let_def spb rest)
  have t: "uint ?t = n + uint (in_EncoderDelay ?i)" by (rule seek_target [OF assms(1,4,5)])
  have m: "uint (?t mod 1024) = uint ?t mod 1024" and b: "uint (?t div 1024) = uint ?t div 1024"
    by (simp_all add: uint_mod_distrib uint_div_distrib)
  have s: "sint (?t mod 1024) = uint ?t mod 1024"
  proof -
    have "uint ?t mod 1024 < 1024" by simp
    then have "uint (?t mod 1024) < 2 ^ 63" unfolding m by simp
    then show ?thesis unfolding m [symmetric] by (rule sint_small)
  qed
  have "\<not> (?t div 1024 = 0 \<and> ?t mod 1024 = 0)"
  proof
    assume "?t div 1024 = 0 \<and> ?t mod 1024 = 0"
    then have "?t = 0" by (metis div_mult_mod_eq mult_zero_left add_0)
    then have "uint ?t = 0" by simp
    with assms(6) t show False by simp
  qed
  then have "Seek m (Seek n d) = Seek n d"
    by (intro Seek_again) (simp_all add: i')
  then show ?thesis unfolding i' s b using t by simp
qed

lemma seek_goes_to_the_first_target_witness:
  "\<exists>d :: nat CriWareHCADecoder. uint (d_currentBlock (Seek 3000 d)) * 1024 + d_currentDelay (Seek 3000 d) = 3128 \<and> Seek 0 (Seek 3000 d) = Seek 3000 d"
proof -
  let ?i = "(d_info sample_dec)\<lparr>in_LoopStartBlock := 0, in_LoopStartDelay := 0\<rparr>"
  have "info_ok ?i" using sample_dec_ok(1) by (simp add: dec_ok_def info_ok_def)
  then show ?thesis
    using seek_goes_to_the_first_target [where d = "sample_dec\<lparr>d_info := ?i\<rparr>" and n = 3000 and m = 0] sample_dec_ok(7)
    by (intro exI [of _ "sample_dec\<lparr>d_info := ?i\<rparr>"]) simp
qed

text \<open>What the loop of \<open>testHCAScore\<close> keeps of its counters.\<close>

definition score_ok :: "score_state \<Rightarrow> bool" where
  "score_ok c \<longleftrightarrow> 0 \<le> sc_testFrames c \<and> sc_testFrames c \<le> 7 \<and>
     sc_testFrames c \<le> sc_totalScore c \<and> sc_totalScore c \<le> 9500"

lemma testSingleFrame_score:
  assumes "testSingleFrame R F kt offset st = (Inr ((score, brk, off), kt'), st')"
  shows "- 1 \<le> score \<and> score \<le> 600 \<and> kt_Key kt' = kt_Key kt \<and>
    kt_BestScore kt' = kt_BestScore kt \<and> kt_BestKey kt' = kt_BestKey kt"
  using assms
  by (auto simp: testSingleFrame_def hcaKeyMaxFrameScore_def Let_def elim!: bindS_InrE split: option.splits if_splits)

lemma score_step_ok:
  assumes "score_ok c" and "sc_testFrames c < 7" and "sc_totalScore c \<le> 3500" and "0 \<le> score" and "score \<le> 600"
  shows "score_ok (c\<lparr>sc_offset := off, sc_currentFrame := f, sc_testFrames := sc_testFrames c + 1,
    sc_totalScore := sc_totalScore c + scaleFrameScore score\<rparr>)"
  using assms by (auto simp: score_ok_def scaleFrameScore_def hcaKeyScoreScale_def)

lemma score_loop_ok:
  assumes "score_loop R F n kt c st = (Inr (c', kt'), st')" and "score_ok c" and "sc_totalScore c \<le> 3500"
  shows "(score_ok c' \<or> sc_totalScore c' = - 1) \<and> kt_Key kt' = kt_Key kt \<and>
    kt_BestScore kt' = kt_BestScore kt \<and> kt_BestKey kt' = kt_BestKey kt"
  using assms
proof (induction "unat n - unat (sc_currentFrame c)" arbitrary: kt c st rule: less_induct)
  case less
  note loop = score_loop.simps [of R F n kt c st]
  show ?case
  proof (cases "sc_testFrames c < 7 \<and> sc_currentFrame c < n")
    case False
    then show ?thesis using less.prems loop by (auto simp: hcaKeyMaxTestFrames_def)
  next
    case True
    then obtain score brk off kt1 st1 where frame: "testSingleFrame R F kt (sc_offset c) st = (Inr ((score, brk, off), kt1), st1)"
      using less.prems(1) loop
      by (cases "testSingleFrame R F kt (sc_offset c) st"; cases "fst (testSingleFrame R F kt (sc_offset c) st)")
        (auto simp: hcaKeyMaxTestFrames_def)
    note keep = testSingleFrame_score [OF frame]
    let ?c = "c\<lparr>sc_offset := off, sc_currentFrame := sc_currentFrame c + 1\<rparr>"
    let ?d = "?c\<lparr>sc_testFrames := sc_testFrames c + 1, sc_totalScore := sc_totalScore c + scaleFrameScore score\<rparr>"
    have smaller: "unat n - unat (sc_currentFrame c + 1) < unat n - unat (sc_currentFrame c)"
      using True by (intro next_block_less(1)) simp
    consider (stop) "brk \<or> score < 0" | (blank) "\<not> (brk \<or> score < 0)" "shouldSkipBlankFrame score (sc_blankFrames c)"
      | (high) "\<not> (brk \<or> score < 0)" "\<not> shouldSkipBlankFrame score (sc_blankFrames c)" "sc_totalScore ?d > 3500"
      | (more) "\<not> (brk \<or> score < 0)" "\<not> shouldSkipBlankFrame score (sc_blankFrames c)" "\<not> sc_totalScore ?d > 3500" by blast
    then show ?thesis
    proof cases
      case stop
      then show ?thesis
        using less.prems loop True frame keep by (auto simp: hcaKeyMaxTestFrames_def score_ok_def Let_def split: if_splits)
    next
      case blank
      then have "score_loop R F n kt1 (?c\<lparr>sc_blankFrames := sc_blankFrames c + 1\<rparr>) st1 = (Inr (c', kt'), st')"
        using less.prems(1) loop True frame by (simp add: hcaKeyMaxTestFrames_def Let_def)
      from less.hyps [OF _ this] smaller less.prems(2,3) keep show ?thesis by (simp add: score_ok_def)
    next
      case high
      then have "c' = ?d" "kt' = kt1"
        using less.prems(1) loop True frame
        by (simp_all add: hcaKeyMaxTestFrames_def hcaKeyMaxTotalScore_def hcaKeyScoreScale_def Let_def)
      then show ?thesis using score_step_ok [of c score "sc_currentFrame c + 1" off] less.prems(2,3) True high(1) keep by simp
    next
      case more
      then have "score_loop R F n kt1 ?d st1 = (Inr (c', kt'), st')"
        using less.prems(1) loop True frame
        by (simp add: hcaKeyMaxTestFrames_def hcaKeyMaxTotalScore_def hcaKeyScoreScale_def Let_def)
      from less.hyps [OF _ this] smaller more(3) keep
        score_step_ok [of c score "sc_currentFrame c + 1" off] less.prems(2,3) True more(1)
      show ?thesis by simp
    qed
  qed
qed

text \<open>
  The score of a key is \<open>- 1\<close>, for a key that gave a frame with an error or too many clips, or
  between 0 and 9500. Testing leaves the key, the best score
  and the best key of the test as they were.
\<close>

theorem key_score_bounds:
  assumes "testHCAScore R F kt st = (Inr (v, kt'), st')"
  shows "- 1 \<le> v \<and> v \<le> 9500 \<and> kt_Key kt' = kt_Key kt \<and> kt_BestScore kt' = kt_BestScore kt \<and>
    kt_BestKey kt' = kt_BestKey kt"
proof -
  obtain n c s s' off where run: "score_loop R F n kt \<lparr>sc_testFrames = 0, sc_currentFrame = 0, sc_blankFrames = 0,
      sc_totalScore = 0, sc_offset = off\<rparr> s = (Inr (c, kt'), s')" and v: "v = finalizeScore (sc_totalScore c) (sc_testFrames c)"
    using assms by (auto simp: testHCAScore_def Let_def elim!: bindS_InrE)
  from score_loop_ok [OF run] v show ?thesis by (auto simp: score_ok_def finalizeScore_def)
qed

lemma key_score_bounds_witness:
  "\<exists>v kt' st'. testHCAScore bytes_ops nat_ops
      \<lparr>kt_Key = 9, kt_Subkey = 0, kt_StartOffset = 0, kt_BestScore = 5, kt_BestKey = 3\<rparr>
      (new_reader sample_header, sample_dec) = (Inr (v, kt'), st') \<and> v \<le> 9500 \<and> kt_BestKey kt' = 3"
proof -
  let ?kt = "\<lparr>kt_Key = 9, kt_Subkey = 0, kt_StartOffset = 0, kt_BestScore = 5, kt_BestKey = 3\<rparr>"
  let ?c = "\<lparr>sc_testFrames = 0, sc_currentFrame = 0, sc_blankFrames = 0, sc_totalScore = 0, sc_offset = 38\<rparr>"
  let ?d = "SetEncryptionKey 9 0 sample_dec"
  have [simp]: "length sample_header = 38" by (rule sample_fields)
  have d: "d_info ?d = d_info sample_dec" "length (d_buf ?d) = 256"
    using sample_dec_ok(1,5) by (simp_all add: SetEncryptionKey_def dec_ok_def)
  have "\<exists>s. readTestBlock bytes_ops 38 (new_reader sample_header, ?d) = (Inr None, s)"
    using d by (simp add: readTestBlock_def recoverS_def bindS_def onReader_def checkErr_def bytes_Seek_def Let_def
        readBuf_def read_loop_bytes br_rest_def read_full_err_def)
  then have "\<exists>s. score_loop bytes_ops nat_ops 5 ?kt ?c (new_reader sample_header, ?d) = (Inr (?c, ?kt), s)"
    by (auto simp: score_loop.simps [of _ _ _ _ ?c] testSingleFrame_def bindS_def returnS_def hcaKeyMaxTestFrames_def Let_def)
  then obtain st' where run: "testHCAScore bytes_ops nat_ops ?kt (new_reader sample_header, sample_dec) = (Inr (0, ?kt), st')"
    by (auto simp: testHCAScore_def bindS_def returnS_def getD_def modD_def Let_def sample_dec_ok(3,4) finalizeScore_def)
  from key_score_bounds [OF run] run show ?thesis by simp
qed

text \<open>Testing the keys of a list one after another, given the score of each.\<close>

fun test_keys :: "(u64 \<times> int) list \<Rightarrow> KeyTest \<Rightarrow> KeyTest" where
  "test_keys [] kt = kt"
| "test_keys ((key, score) # ks) kt = test_keys ks (keepBest score (kt\<lparr>kt_Key := key\<rparr>))"

lemma Min_insert_min:
  assumes "finite S"
  shows "Min (insert (min a b) S) = Min (insert a (insert (b :: int) S))"
  using assms by (cases "S = {}") (simp_all add: min.assoc)

lemma test_keys_best:
  assumes "0 < kt_BestScore kt"
  shows "kt_BestScore (test_keys ks kt) = Min (insert (kt_BestScore kt) {s \<in> snd ` set ks. 0 < s}) \<and>
    (kt_BestKey (test_keys ks kt) = kt_BestKey kt \<and> kt_BestScore (test_keys ks kt) = kt_BestScore kt \<or>
     (kt_BestKey (test_keys ks kt), kt_BestScore (test_keys ks kt)) \<in> set ks)"
  using assms
proof (induction ks arbitrary: kt)
  case Nil
  then show ?case by simp
next
  case (Cons p ks)
  obtain key score where p: "p = (key, score)" by (cases p)
  let ?kt = "keepBest score (kt\<lparr>kt_Key := key\<rparr>)"
  have kt: "kt_BestScore ?kt = (if 0 < score then min (kt_BestScore kt) score else kt_BestScore kt)"
    "(kt_BestKey ?kt = kt_BestKey kt \<and> kt_BestScore ?kt = kt_BestScore kt) \<or> (kt_BestKey ?kt = key \<and> kt_BestScore ?kt = score)"
    using Cons.prems by (auto simp: keepBest_def)
  then have pos: "0 < kt_BestScore ?kt" using Cons.prems by simp
  have fin: "finite {s \<in> snd ` set ks. 0 < s}" by simp
  have "{s \<in> snd ` set (p # ks). 0 < s} = (if 0 < score then insert score {s \<in> snd ` set ks. 0 < s} else {s \<in> snd ` set ks. 0 < s})"
    by (auto simp: p)
  then have "Min (insert (kt_BestScore ?kt) {s \<in> snd ` set ks. 0 < s}) = Min (insert (kt_BestScore kt) {s \<in> snd ` set (p # ks). 0 < s})"
    using Min_insert_min [OF fin] kt(1) by simp
  then show ?case using Cons.IH [OF pos] kt(2) by (auto simp: p)
qed

text \<open>
  The best key wins. When keys are tested one after another and at least one of them scores above
  0, the best score at the end is the least positive one, and the best key is a key that had it.
\<close>

theorem best_key_has_least_score:
  assumes "kt_BestScore kt \<le> 0" and "\<exists>s\<in>snd ` set ks. 0 < s"
  shows "kt_BestScore (test_keys ks kt) = Min {s \<in> snd ` set ks. 0 < s} \<and>
    (kt_BestKey (test_keys ks kt), kt_BestScore (test_keys ks kt)) \<in> set ks"
  using assms
proof (induction ks arbitrary: kt)
  case Nil
  then show ?case by simp
next
  case (Cons p ks)
  obtain key score where p: "p = (key, score)" by (cases p)
  let ?kt = "keepBest score (kt\<lparr>kt_Key := key\<rparr>)"
  show ?case
  proof (cases "0 < score")
    case True
    then have kt: "kt_BestScore ?kt = score" "kt_BestKey ?kt = key" using Cons.prems(1) by (simp_all add: keepBest_def)
    have "{s \<in> snd ` set (p # ks). 0 < s} = insert score {s \<in> snd ` set ks. 0 < s}" using True by (auto simp: p)
    then show ?thesis using test_keys_best [of ?kt ks] True by (auto simp: p kt)
  next
    case False
    then have "kt_BestScore ?kt \<le> 0" using Cons.prems(1) by (simp add: keepBest_def)
    moreover have "{s \<in> snd ` set (p # ks). 0 < s} = {s \<in> snd ` set ks. 0 < s}" using False by (auto simp: p)
    moreover have "\<exists>s\<in>snd ` set ks. 0 < s" using Cons.prems(2) False by (auto simp: p)
    ultimately show ?thesis using Cons.IH [of ?kt] by (auto simp: p)
  qed
qed

lemma best_key_has_least_score_witness:
  "kt_BestScore (test_keys [(7, 40), (8, - 1), (9, 2), (10, 2), (11, 0)]
     \<lparr>kt_Key = 0, kt_Subkey = 0, kt_StartOffset = 0, kt_BestScore = 0, kt_BestKey = 0\<rparr>) = 2"
proof -
  have "{s \<in> snd ` set [(7 :: u64, 40), (8, - 1), (9, 2), (10, 2), (11, 0)]. 0 < s} = {40, 2 :: int}" by auto
  then show ?thesis
    by (subst best_key_has_least_score [THEN conjunct1]) simp_all
qed

end
