(* ===== verification/UsmMask.thy ===== *)
theory UsmMask
  imports XorMask
begin

text \<open>
  The masks of \<open>internal/cricodecs/usm/usm.go\<close>: their derivation from the key, and the unmasking of
  a video and of an audio chunk. The video mask chains over the decoded bytes; its reference is
  \<open>veil\<close>, the masking that it undoes.
\<close>

unbundle bit_operations_syntax

section \<open>The code\<close>

text \<open>\<open>byte(int(a) op int(b) & 0xFF)\<close> is the operation on bytes.\<close>

definition mask_table :: "u64 \<Rightarrow> bytes" where
  "mask_table key =
     (let key1 = ucast (key AND 0xFFFFFFFF) :: u32;
          key2 = ucast (drop_bit 32 key AND 0xFFFFFFFF) :: u32;
          t00 = ucast (key1 AND 0xFF) :: u8;
          t01 = ucast (drop_bit 8 key1 AND 0xFF);
          t02 = ucast (drop_bit 16 key1 AND 0xFF);
          t03 = ucast ((drop_bit 24 key1 AND 0xFF) - 0x34);
          t04 = ucast (((key2 AND 0xF) + 0xF9) AND 0xFF);
          t05 = ucast ((drop_bit 8 key2 AND 0xFF) XOR 0x13);
          t06 = ucast (((drop_bit 16 key2 AND 0xFF) + 0x61) AND 0xFF);
          t07 = t00 XOR 0xFF;
          t08 = t02 + t01;
          t09 = t01 - t07;
          t0A = t02 XOR 0xFF;
          t0B = t01 XOR 0xFF;
          t0C = t0B + t09;
          t0D = t08 - t03;
          t0E = t0D XOR 0xFF;
          t0F = t0A - t0B;
          t10 = t08 - t0F;
          t11 = t10 XOR t07;
          t12 = t0F XOR 0xFF;
          t13 = t03 XOR 0x10;
          t14 = t04 - 0x32;
          t15 = t05 + 0xED;
          t16 = t06 XOR 0xF3;
          t17 = t13 - t0F;
          t18 = t15 + t07;
          t19 = 0x21 - t13;
          t1A = t14 XOR t17;
          t1B = t16 + t16;
          t1C = t17 + 0x44;
          t1D = t03 + t04;
          t1E = t05 - t16;
          t1F = t1D XOR t13
      in [t00, t01, t02, t03, t04, t05, t06, t07, t08, t09, t0A, t0B, t0C, t0D, t0E, t0F,
          t10, t11, t12, t13, t14, t15, t16, t17, t18, t19, t1A, t1B, t1C, t1D, t1E, t1F])"

definition audio_letters :: bytes where
  "audio_letters = [0x55, 0x52, 0x55, 0x43]"

definition getMask :: "u64 \<Rightarrow> (bytes \<times> bytes) \<times> bytes" where
  "getMask key =
     (let t = mask_table key in
      ((t, map (\<lambda>ti. ti XOR 0xFF) t),
       map (\<lambda>(i, ti). if odd i then audio_letters ! ((i div 2) mod 4) else ti XOR 0xFF) (enumerate 0 t)))"

text \<open>The two loops of \<open>maskVideo\<close>, on the content and the running mask.\<close>

definition video_step1 :: "bytes \<Rightarrow> nat \<Rightarrow> bytes \<times> bytes \<Rightarrow> bytes \<times> bytes" where
  "video_step1 v1 i = (\<lambda>(c, m).
     let c = c[0x40 + i := c ! (0x40 + i) XOR m ! (i mod 32)]
     in (c, m[i mod 32 := c ! (0x40 + i) XOR v1 ! (i mod 32)]))"

definition video_step2 :: "nat \<Rightarrow> bytes \<times> bytes \<Rightarrow> bytes \<times> bytes" where
  "video_step2 i = (\<lambda>(c, m).
     let m = m[i mod 32 := m ! (i mod 32) XOR c ! (0x100 + 0x40 + i)]
     in (c[0x40 + i := c ! (0x40 + i) XOR m ! (i mod 32)], m))"

definition maskVideo :: "bytes \<Rightarrow> bytes \<times> bytes \<Rightarrow> bytes" where
  "maskVideo content vmask =
     (if int (length content) - 0x40 \<ge> 0x200 then
        let size' = length content - 0x40;
            c = fst (fold (video_step1 (snd vmask)) [0x100..<size'] (content, snd vmask))
        in fst (fold video_step2 [0..<0x100] (c, fst vmask))
      else content)"

definition maskAudio :: "bytes \<Rightarrow> bytes \<Rightarrow> bytes" where
  "maskAudio content amask =
     xor_loop (\<lambda>i. amask ! (i mod 32)) 0x140 (nat (int (length content) - 0x140)) content"

section \<open>The masking that the video mask undoes\<close>

text \<open>
  The first 256 bytes behind the frame header are masked with the exclusive or of the bytes 256
  places further on, the rest with the byte 32 places before.
\<close>

fun head_key :: "bytes \<Rightarrow> bytes \<Rightarrow> nat \<Rightarrow> nat \<Rightarrow> u8" where
  "head_key v0 p j 0 = v0 ! j"
| "head_key v0 p j (Suc n) = (if n mod 32 = j then head_key v0 p j n XOR p ! (0x140 + n) else head_key v0 p j n)"

declare head_key.simps(2) [simp del]

definition video_key :: "bytes \<times> bytes \<Rightarrow> bytes \<Rightarrow> nat \<Rightarrow> u8" where
  "video_key vmask p i =
     (if i < 0x100 then head_key (fst vmask) p (i mod 32) (Suc i)
      else if i < 0x120 then snd vmask ! (i mod 32)
      else p ! (0x40 + i - 32) XOR snd vmask ! (i mod 32))"

definition veil :: "bytes \<times> bytes \<Rightarrow> bytes \<Rightarrow> bytes" where
  "veil vmask p =
     (if length p < 0x240 then p
      else map (\<lambda>i. if i < 0x40 then p ! i else p ! i XOR video_key vmask p (i - 0x40)) [0..<length p])"

lemma length_veil [simp]: "length (veil vmask p) = length p"
  by (simp add: veil_def)

text \<open>The first loop, up to an index.\<close>

definition tail_inv :: "bytes \<Rightarrow> bytes \<Rightarrow> nat \<Rightarrow> bytes \<times> bytes \<Rightarrow> bool" where
  "tail_inv v1 c0 n s \<longleftrightarrow>
     (case s of (c, m) \<Rightarrow>
        length c = length c0 \<and> length m = 32 \<and>
        (\<forall>i < length c0. i < 0x140 \<or> 0x40 + n \<le> i \<longrightarrow> c ! i = c0 ! i) \<and>
        (\<forall>i. 0x100 \<le> i \<and> i < n \<longrightarrow> c ! (0x40 + i) =
           c0 ! (0x40 + i) XOR (if i < 0x120 then v1 ! (i mod 32) else c ! (0x40 + i - 32) XOR v1 ! (i mod 32))) \<and>
        (\<forall>k. n \<le> k + 32 \<and> k < n \<longrightarrow>
           m ! (k mod 32) = (if k < 0x100 then v1 ! (k mod 32) else c ! (0x40 + k) XOR v1 ! (k mod 32))))"

lemma mod32_neq: "n < k + 32 \<Longrightarrow> k < n \<Longrightarrow> k mod 32 \<noteq> n mod (32 :: nat)"
  using nat_dvd_not_less [of "n - k" 32] mod_eq_dvd_iff_nat [of k n 32] by auto

lemma mod32_back: "32 \<le> n \<Longrightarrow> (n - 32) mod 32 = n mod (32 :: nat)"
  by (simp add: le_mod_geq)

lemma tail_step:
  assumes "tail_inv v1 c0 n s" and "0x100 \<le> n" and "0x40 + n < length c0"
  shows "tail_inv v1 c0 (Suc n) (video_step1 v1 n s)"
proof -
  obtain c m where s: "s = (c, m)" by (cases s)
  have inv: "length c = length c0" "length m = 32"
      "\<And>i. i < length c0 \<Longrightarrow> i < 0x140 \<or> 0x40 + n \<le> i \<Longrightarrow> c ! i = c0 ! i"
      "\<And>i. 0x100 \<le> i \<Longrightarrow> i < n \<Longrightarrow> c ! (0x40 + i) =
         c0 ! (0x40 + i) XOR (if i < 0x120 then v1 ! (i mod 32) else c ! (0x40 + i - 32) XOR v1 ! (i mod 32))"
      "\<And>k. n \<le> k + 32 \<Longrightarrow> k < n \<Longrightarrow>
         m ! (k mod 32) = (if k < 0x100 then v1 ! (k mod 32) else c ! (0x40 + k) XOR v1 ! (k mod 32))"
    using assms(1) by (auto simp: tail_inv_def s)
  let ?c = "c[0x40 + n := c ! (0x40 + n) XOR m ! (n mod 32)]"
  let ?m = "m[n mod 32 := ?c ! (0x40 + n) XOR v1 ! (n mod 32)]"
  have m: "m ! (n mod 32) = (if n < 0x120 then v1 ! (n mod 32) else c ! (0x40 + n - 32) XOR v1 ! (n mod 32))"
    using inv(5) [of "n - 32"] assms(2) mod32_back [of n] by auto
  have upd: "?c ! (0x40 + n) = c0 ! (0x40 + n) XOR m ! (n mod 32)"
    using inv(1,3) assms(3) by simp
  have same: "i \<noteq> n \<Longrightarrow> ?c ! (0x40 + i) = c ! (0x40 + i)" for i by simp
  have a: "\<forall>i < length c0. i < 0x140 \<or> 0x40 + Suc n \<le> i \<longrightarrow> ?c ! i = c0 ! i"
    using inv(3) assms(2) by auto
  have b: "?c ! (0x40 + i) =
      c0 ! (0x40 + i) XOR (if i < 0x120 then v1 ! (i mod 32) else ?c ! (0x40 + i - 32) XOR v1 ! (i mod 32))"
    if "0x100 \<le> i" "i < Suc n" for i
  proof (cases "i = n")
    case True
    have "?c ! (0x40 + n - 32) = c ! (0x40 + n - 32)" using assms(2) by simp
    with upd m show ?thesis unfolding True by simp
  next
    case False
    moreover have "?c ! (0x40 + i - 32) = c ! (0x40 + i - 32)" using that by simp
    ultimately show ?thesis using inv(4) [of i] that by simp
  qed
  have d: "?m ! (k mod 32) = (if k < 0x100 then v1 ! (k mod 32) else ?c ! (0x40 + k) XOR v1 ! (k mod 32))"
    if "Suc n \<le> k + 32" "k < Suc n" for k
  proof (cases "k = n")
    case True
    then show ?thesis using inv(2) assms(2) by simp
  next
    case False
    then have "k mod 32 \<noteq> n mod 32" using that by (intro mod32_neq) simp_all
    then show ?thesis using inv(5) [of k] that False by simp
  qed
  show ?thesis
    unfolding tail_inv_def s video_step1_def Let_def prod.case
    using inv(1,2) a b d by (simp only: length_list_update) blast
qed

lemma tail_loop:
  assumes "length v1 = 32" and "0x100 \<le> n" and "0x40 + n \<le> length c0"
  shows "tail_inv v1 c0 n (fold (video_step1 v1) [0x100..<n] (c0, v1))"
  using assms(2,3)
proof (induction n rule: dec_induct)
  case base
  then show ?case using assms(1) by (auto simp: tail_inv_def)
next
  case (step n)
  then show ?case using tail_step [of v1 c0 n] by simp
qed

text \<open>The second loop, on a content whose tail is done.\<close>

definition head_inv :: "bytes \<Rightarrow> bytes \<Rightarrow> nat \<Rightarrow> bytes \<times> bytes \<Rightarrow> bool" where
  "head_inv v0 c0 n s \<longleftrightarrow>
     (case s of (c, m) \<Rightarrow>
        length c = length c0 \<and> length m = 32 \<and>
        (\<forall>i < length c0. i < 0x40 \<or> 0x40 + n \<le> i \<longrightarrow> c ! i = c0 ! i) \<and>
        (\<forall>i < n. c ! (0x40 + i) = c0 ! (0x40 + i) XOR head_key v0 c0 (i mod 32) (Suc i)) \<and>
        (\<forall>j < 32. m ! j = head_key v0 c0 j n))"

lemma head_step:
  assumes "head_inv v0 c0 n s" and "n < 0x100" and "0x240 \<le> length c0"
  shows "head_inv v0 c0 (Suc n) (video_step2 n s)"
proof -
  obtain c m where s: "s = (c, m)" by (cases s)
  have inv: "length c = length c0" "length m = 32"
      "\<And>i. i < length c0 \<Longrightarrow> i < 0x40 \<or> 0x40 + n \<le> i \<Longrightarrow> c ! i = c0 ! i"
      "\<And>i. i < n \<Longrightarrow> c ! (0x40 + i) = c0 ! (0x40 + i) XOR head_key v0 c0 (i mod 32) (Suc i)"
      "\<And>j. j < 32 \<Longrightarrow> m ! j = head_key v0 c0 j n"
    using assms(1) by (auto simp: head_inv_def s)
  let ?m = "m[n mod 32 := m ! (n mod 32) XOR c ! (0x100 + 0x40 + n)]"
  let ?c = "c[0x40 + n := c ! (0x40 + n) XOR ?m ! (n mod 32)]"
  have m: "?m ! j = head_key v0 c0 j (Suc n)" if "j < 32" for j
    using that inv(2) inv(5) [of j] inv(3) [of "0x140 + n"] assms(2,3)
    by (cases "n mod 32 = j") (simp_all add: head_key.simps)
  have a: "\<forall>i < length c0. i < 0x40 \<or> 0x40 + Suc n \<le> i \<longrightarrow> ?c ! i = c0 ! i"
    using inv(3) by auto
  have b: "?c ! (0x40 + i) = c0 ! (0x40 + i) XOR head_key v0 c0 (i mod 32) (Suc i)" if "i < Suc n" for i
  proof (cases "i = n")
    case True
    then show ?thesis using inv(1) inv(3) [of "0x40 + n"] m [of "n mod 32"] assms(2,3) by simp
  next
    case False
    then show ?thesis using inv(4) [of i] that by simp
  qed
  show ?thesis
    unfolding head_inv_def s video_step2_def Let_def prod.case
    using inv(1,2) a b m by (simp only: length_list_update) blast
qed

lemma head_loop:
  assumes "length v0 = 32" and "0x240 \<le> length c0" and "n \<le> 0x100"
  shows "head_inv v0 c0 n (fold video_step2 [0..<n] (c0, v0))"
  using assms(3)
proof (induction n)
  case 0
  then show ?case using assms(1) by (auto simp: head_inv_def)
next
  case (Suc n)
  then show ?case using head_step [of v0 c0 n] assms(2) by simp
qed

lemma head_key_cong:
  "(\<And>i. i < n \<Longrightarrow> p ! (0x140 + i) = q ! (0x140 + i)) \<Longrightarrow> head_key v0 p j n = head_key v0 q j n"
  by (induction n) (auto simp: head_key.simps)

text \<open>What the code computes is masked to what it was given.\<close>

lemma veil_maskVideo:
  assumes "length (fst vmask) = 32" and "length (snd vmask) = 32"
  shows "veil vmask (maskVideo c vmask) = c \<and> length (maskVideo c vmask) = length c"
proof (cases "length c < 0x240")
  case True
  then show ?thesis by (simp add: maskVideo_def veil_def)
next
  case False
  let ?n = "length c - 0x40"
  define t where "t = fst (fold (video_step1 (snd vmask)) [0x100..<?n] (c, snd vmask))"
  define p where "p = fst (fold video_step2 [0..<0x100] (t, fst vmask))"
  have "0x100 \<le> ?n" "0x40 + ?n \<le> length c" using False by simp_all
  from tail_loop [OF assms(2) this] have t: "length t = length c"
      "\<And>i. i < length c \<Longrightarrow> i < 0x140 \<or> 0x40 + ?n \<le> i \<Longrightarrow> t ! i = c ! i"
      "\<And>i. 0x100 \<le> i \<Longrightarrow> i < ?n \<Longrightarrow> t ! (0x40 + i) =
         c ! (0x40 + i) XOR (if i < 0x120 then snd vmask ! (i mod 32) else t ! (0x40 + i - 32) XOR snd vmask ! (i mod 32))"
    unfolding t_def tail_inv_def by (auto simp: split_beta)
  have "0x240 \<le> length t" using t(1) False by simp
  from head_loop [OF assms(1) this order_refl] have p: "length p = length c"
      "\<And>i. i < length c \<Longrightarrow> i < 0x40 \<or> 0x140 \<le> i \<Longrightarrow> p ! i = t ! i"
      "\<And>i. i < 0x100 \<Longrightarrow> p ! (0x40 + i) = t ! (0x40 + i) XOR head_key (fst vmask) t (i mod 32) (Suc i)"
    unfolding p_def head_inv_def by (auto simp: split_beta t(1))
  have mask: "maskVideo c vmask = p"
    using False by (simp add: maskVideo_def t_def p_def Let_def)
  have key: "p ! i XOR video_key vmask p (i - 0x40) = c ! i" if i: "0x40 \<le> i" "i < length c" for i
  proof (cases "i < 0x140")
    case True
    have "head_key (fst vmask) p j (Suc (i - 0x40)) = head_key (fst vmask) t j (Suc (i - 0x40))" for j
      using True False i by (intro head_key_cong p(2)) auto
    then show ?thesis
      using True i p(3) [of "i - 0x40"] t(2) [of i] by (auto simp: video_key_def xor.assoc)
  next
    case no: False
    then have "p ! i = t ! i" using p(2) i by auto
    moreover have "p ! (i - 32) = t ! (i - 32)" if "\<not> i - 0x40 < 0x120"
    proof (rule p(2))
      show "i - 32 < 0x40 \<or> 0x140 \<le> i - 32" using that by linarith
    qed (use i in simp)
    ultimately show ?thesis
      using no i t(3) [of "i - 0x40"] by (auto simp: video_key_def xor.assoc)
  qed
  have "veil vmask p = c"
  proof (rule nth_equalityI)
    fix i assume "i < length (veil vmask p)"
    then have i: "i < length c" using p(1) by simp
    show "veil vmask p ! i = c ! i"
      using key [of i] i p(1) p(2) [of i] t(2) [of i] False by (cases "i < 0x40") (simp_all add: veil_def)
  qed (simp add: p(1))
  with p(1) mask show ?thesis by simp
qed

lemma veil_inj:
  assumes "veil vmask p = veil vmask q"
  shows "p = q"
proof -
  have len: "length p = length q" using arg_cong [OF assms, of length] by simp
  show ?thesis
  proof (cases "length p < 0x240")
    case True
    then show ?thesis using assms len by (simp add: veil_def)
  next
    case False
    have eq: "p ! i XOR video_key vmask p (i - 0x40) = q ! i XOR video_key vmask q (i - 0x40)"
      if "0x40 \<le> i" "i < length p" for i
      using arg_cong [OF assms, of "\<lambda>c. c ! i"] that len False by (simp add: veil_def)
    have tail: "0x140 \<le> i \<Longrightarrow> i < length p \<Longrightarrow> p ! i = q ! i" for i
    proof (induction i rule: less_induct)
      case (less i)
      have "video_key vmask p (i - 0x40) = video_key vmask q (i - 0x40)"
        using less.IH [of "i - 32"] less.prems by (auto simp: video_key_def)
      with eq [of i] less.prems show ?case by (simp add: word_xor_cancel)
    qed
    show ?thesis
    proof (rule nth_equalityI [OF len])
      fix i assume i: "i < length p"
      consider "i < 0x40" | "0x40 \<le> i" "i < 0x140" | "0x140 \<le> i" by linarith
      then show "p ! i = q ! i"
      proof cases
        case 1
        then show ?thesis using arg_cong [OF assms, of "\<lambda>c. c ! i"] i len False by (simp add: veil_def)
      next
        case 2
        have "head_key (fst vmask) p j (Suc (i - 0x40)) = head_key (fst vmask) q j (Suc (i - 0x40))" for j
          using 2 False by (intro head_key_cong tail) auto
        then have "video_key vmask p (i - 0x40) = video_key vmask q (i - 0x40)"
          using 2 by (auto simp: video_key_def)
        with eq [of i] 2 i show ?thesis by (simp add: word_xor_cancel)
      qed (rule tail [OF _ i])
    qed
  qed
qed

lemma length_mask_table [simp]: "length (mask_table key) = 32"
  by (simp add: mask_table_def Let_def)

lemma getMask_lengths: "length (fst (fst (getMask key))) = 32" "length (snd (fst (getMask key))) = 32"
  "length (snd (getMask key)) = 32"
  by (simp_all add: getMask_def Let_def)

interpretation audio: xor_mask "\<lambda>d. maskAudio d amask" "\<lambda>n i. if 0x140 \<le> i then amask ! ((i - 0x140) mod 32) else 0" for amask
  by unfold_locales (auto simp: maskAudio_def nth_xor_loop)

lemma maskVideo_veil: "maskVideo (veil (fst (getMask key)) p) (fst (getMask key)) = p"
proof -
  have "veil (fst (getMask key)) (maskVideo (veil (fst (getMask key)) p) (fst (getMask key))) =
      veil (fst (getMask key)) p"
    using veil_maskVideo [OF getMask_lengths(1,2)] by simp
  then show ?thesis by (rule veil_inj)
qed

section \<open>Properties\<close>

text \<open>
  C22: the video mask of a key undoes the masking. A decoded chunk is the one content that masks to
  the chunk: decoding a masked content gives it back, and masking a decoded one gives the chunk.
\<close>

theorem video_mask_round_trip:
  "maskVideo (veil (fst (getMask key)) p) (fst (getMask key)) = p \<and>
   veil (fst (getMask key)) (maskVideo c (fst (getMask key))) = c"
  using maskVideo_veil veil_maskVideo [OF getMask_lengths(1,2)] by simp

text \<open>
  The audio mask of a key is its own inverse, keeps the 320 bytes in front and the length.
\<close>

theorem audio_mask_involution:
  "maskAudio (maskAudio d (snd (getMask key))) (snd (getMask key)) = d \<and>
   take 0x140 (maskAudio d (snd (getMask key))) = take 0x140 d \<and>
   length (maskAudio d (snd (getMask key))) = length d"
proof -
  have "take 0x140 (maskAudio d amask) = take 0x140 d" for amask
    by (rule nth_equalityI) (simp_all add: maskAudio_def nth_xor_loop)
  then show ?thesis by (simp add: audio.mask_mask audio.mask_length)
qed

end
