(* ===== verification/BinaryStream.thy ===== *)
theory BinaryStream
  imports GoIO
begin

text \<open>
  \<open>internal/utils/binary.go\<close>: the stream the USM parser reads from. Unlike the reader of the ACB
  package it gives the bytes it got together with the error, zero padded, and most of its callers
  drop the error.

  The stream is the record of its two fields; the state of the reader is passed along.
\<close>

section \<open>The code\<close>

datatype ByteOrder = BigEndian | LittleEndian

definition order_word :: "ByteOrder \<Rightarrow> bytes \<Rightarrow> 'a::len word" where
  "order_word e buf = (case e of BigEndian \<Rightarrow> be_word buf | LittleEndian \<Rightarrow> le_word buf)"

record 's BinaryStream =
  BaseStream :: "'s read_seeker"
  Endian :: ByteOrder

definition NewBinaryStream :: "'s read_seeker \<Rightarrow> string \<Rightarrow> 's BinaryStream" where
  "NewBinaryStream R endian =
     \<lparr>BaseStream = R, Endian = (if endian = ''big'' then BigEndian else LittleEndian)\<rparr>"

text \<open>One call of \<open>Read\<close>, whose count is not looked at.\<close>

definition bsReadByte :: "'s BinaryStream \<Rightarrow> ('s, u8) gop" where
  "bsReadByte B s =
     (case rs_read (BaseStream B) s 1 of
        ((got, e), s') \<Rightarrow> ((case got of [] \<Rightarrow> 0 | b # _ \<Rightarrow> b, e), s'))"

definition bsReadBytes :: "'s BinaryStream \<Rightarrow> int \<Rightarrow> ('s, bytes) gop" where
  "bsReadBytes B n s =
     (if n < 0 then (([], Some (Panic ''makeslice: len out of range'')), s)
      else read_full (BaseStream B) (nat n) s)"

text \<open>
  Run code at another position and go back, as \<open>ReadBytesAt\<close> and \<open>ReadStringToNullAt\<close> do; the
  errors of the three seeks are dropped.
\<close>

definition bs_at :: "'s BinaryStream \<Rightarrow> int \<Rightarrow> ('s, 'a) gop \<Rightarrow> ('s, 'a) gop" where
  "bs_at B off m s =
     (case rs_seek (BaseStream B) s 0 SeekCurrent of ((back, _), s) \<Rightarrow>
      case rs_seek (BaseStream B) s off SeekStart of ((_, _), s) \<Rightarrow>
      case m s of (r, s) \<Rightarrow>
      case rs_seek (BaseStream B) s back SeekStart of ((_, _), s) \<Rightarrow> (r, s))"

definition bsReadBytesAt :: "'s BinaryStream \<Rightarrow> int \<Rightarrow> int \<Rightarrow> ('s, bytes) gop" where
  "bsReadBytesAt B n off = bs_at B off (bsReadBytes B n)"

definition bs_word :: "'s BinaryStream \<Rightarrow> nat \<Rightarrow> ('s, 'a::len word) gop" where
  "bs_word B n s =
     (case read_full (BaseStream B) n s of ((buf, e), s') \<Rightarrow> ((order_word (Endian B) buf, e), s'))"

definition bsReadChar :: "'s BinaryStream \<Rightarrow> ('s, u8) gop" where "bsReadChar B = bsReadByte B"
definition bsReadUChar :: "'s BinaryStream \<Rightarrow> ('s, u8) gop" where "bsReadUChar B = bsReadByte B"
definition bsReadInt16 :: "'s BinaryStream \<Rightarrow> ('s, u16) gop" where "bsReadInt16 B = bs_word B 2"
definition bsReadUInt16 :: "'s BinaryStream \<Rightarrow> ('s, u16) gop" where "bsReadUInt16 B = bs_word B 2"
definition bsReadInt32 :: "'s BinaryStream \<Rightarrow> ('s, u32) gop" where "bsReadInt32 B = bs_word B 4"
definition bsReadUInt32 :: "'s BinaryStream \<Rightarrow> ('s, u32) gop" where "bsReadUInt32 B = bs_word B 4"
definition bsReadInt64 :: "'s BinaryStream \<Rightarrow> ('s, u64) gop" where "bsReadInt64 B = bs_word B 8"
definition bsReadUInt64 :: "'s BinaryStream \<Rightarrow> ('s, u64) gop" where "bsReadUInt64 B = bs_word B 8"

text \<open>A float is its bit pattern.\<close>

definition bsReadFloat32 :: "'s BinaryStream \<Rightarrow> ('s, u32) gop" where "bsReadFloat32 B = bs_word B 4"
definition bsReadFloat64 :: "'s BinaryStream \<Rightarrow> ('s, u64) gop" where "bsReadFloat64 B = bs_word B 8"

definition bsReadStringLength :: "'s BinaryStream \<Rightarrow> int \<Rightarrow> ('s, bytes) gop" where
  "bsReadStringLength B n = bsReadBytes B n"

text \<open>
  The loop goes on only after a byte that is not zero. The progress test stands for nothing in
  the code; no reader that satisfies the contract fails it.
\<close>

function bsReadStringToNull :: "'s BinaryStream \<Rightarrow> bytes \<Rightarrow> ('s, bytes) gop" where
  "bsReadStringToNull B acc s =
     (case bsReadByte B s of
        ((b, Some e), s') \<Rightarrow> ((acc, Some e), s')
      | ((b, None), s') \<Rightarrow>
          (if b = 0 then ((acc, None), s')
           else if rs_left (BaseStream B) s' < rs_left (BaseStream B) s
           then bsReadStringToNull B (acc @ [b]) s'
           else ((acc, Some (Failure ''no progress'')), s')))"
  by pat_completeness auto
termination
  by (relation "measure (\<lambda>(B, acc, s). rs_left (BaseStream B) s)") auto

declare bsReadStringToNull.simps [simp del]

definition bsReadStringToNullAt :: "'s BinaryStream \<Rightarrow> int \<Rightarrow> ('s, bytes) gop" where
  "bsReadStringToNullAt B off = bs_at B off (bsReadStringToNull B [])"

text \<open>The remainder of Go has the sign of the dividend; positions are not negative.\<close>

definition bsAlignStream :: "'s BinaryStream \<Rightarrow> int \<Rightarrow> ('s, unit) gop" where
  "bsAlignStream B alignment s =
     (case rs_seek (BaseStream B) s 0 SeekCurrent of ((pos, _), s) \<Rightarrow>
        if pos mod alignment \<noteq> 0 then
          (case rs_seek (BaseStream B) s (alignment - pos mod alignment) SeekCurrent of
             ((_, e), s) \<Rightarrow> (((), e), s))
        else (((), None), s))"

lemmas bs_read_defs =
  bsReadInt16_def bsReadUInt16_def bsReadInt32_def bsReadUInt32_def bsReadInt64_def bsReadUInt64_def
  bsReadFloat32_def bsReadFloat64_def

section \<open>Every reader that satisfies the contract\<close>

text \<open>The big-endian stream over a reader.\<close>

abbreviation big :: "'s read_seeker \<Rightarrow> 's BinaryStream" where
  "big R \<equiv> \<lparr>BaseStream = R, Endian = BigEndian\<rparr>"

lemma NewBinaryStream_big: "NewBinaryStream R ''big'' = big R"
  by (simp add: NewBinaryStream_def)

context seekable_reader begin

lemma bsReadByte_sim [sim_intros]: "simS ok view (bsReadByte (big R)) (bsReadByte (big bytes_ops))"
proof (rule simSI)
  fix s r s'
  assume ok: "ok s" and run: "bsReadByte (big R) s = (r, s')"
  obtain got e u where q: "rs_read R s 1 = ((got, e), u)" by (metis surj_pair)
  from simSD [OF read_sim ok q] run q show "bsReadByte (big bytes_ops) (view s) = (r, view s') \<and> ok s'"
    by (auto simp: bsReadByte_def)
qed

lemma bsReadBytes_sim [sim_intros]: "simS ok view (bsReadBytes (big R) n) (bsReadBytes (big bytes_ops) n)"
proof (rule simSI)
  fix s r s'
  assume ok: "ok s" and run: "bsReadBytes (big R) n s = (r, s')"
  with simSD [OF read_full_sim ok, of "nat n"]
  show "bsReadBytes (big bytes_ops) n (view s) = (r, view s') \<and> ok s'"
    by (auto simp: bsReadBytes_def split: if_splits)
qed

lemma bs_word_sim: "simS ok view (bs_word (big R) n) (bs_word (big bytes_ops) n)"
proof (rule simSI)
  fix s r s'
  assume ok: "ok s" and run: "bs_word (big R) n s = (r, s')"
  obtain p e w where l: "read_full R n s = ((p, e), w)" by (metis surj_pair)
  from simSD [OF read_full_sim ok l] run l
  show "bs_word (big bytes_ops) n (view s) = (r, view s') \<and> ok s'" by (auto simp: bs_word_def)
qed

lemma bsReadStringLength_sim [sim_intros]:
  "simS ok view (bsReadStringLength (big R) n) (bsReadStringLength (big bytes_ops) n)"
  unfolding bsReadStringLength_def by (rule bsReadBytes_sim)

lemma bs_read_sims [sim_intros]:
  "simS ok view (bsReadUInt16 (big R)) (bsReadUInt16 (big bytes_ops))"
  "simS ok view (bsReadUInt32 (big R)) (bsReadUInt32 (big bytes_ops))"
  by (simp_all add: bs_read_defs bs_word_sim)

end

section \<open>Byte readers\<close>

text \<open>The next \<open>n\<close> bytes, zero padded, and the reader behind them.\<close>

definition padded :: "nat \<Rightarrow> bytes \<Rightarrow> bytes" where
  "padded n bs = take n bs @ replicate (n - length bs) 0"

definition skip :: "nat \<Rightarrow> byte_reader \<Rightarrow> byte_reader" where
  "skip n r = r\<lparr>br_pos := br_pos r + min n (length (br_rest r))\<rparr>"

definition full_err :: "nat \<Rightarrow> bytes \<Rightarrow> go_err option" where
  "full_err n bs =
     (if n \<le> length bs then None else if bs = [] then Some EOF else Some UnexpectedEOF)"

lemma length_padded [simp]: "length (padded n bs) = n"
  by (simp add: padded_def)

lemma padded_le: "n \<le> length bs \<Longrightarrow> padded n bs = take n bs"
  by (simp add: padded_def)

lemma skip_simps [simp]:
  "br_data (skip n r) = br_data r"
  "br_pos (skip n r) = br_pos r + min n (length (br_rest r))"
  by (simp_all add: skip_def)

lemma br_rest_skip [simp]: "br_rest (skip n r) = drop n (br_rest r)"
  by (cases "n \<le> length (br_rest r)") (simp_all add: skip_def br_rest_def add.commute)

lemma bsReadBytes_bytes:
  "0 \<le> n \<Longrightarrow> bsReadBytes (big bytes_ops) n r =
     ((padded (nat n) (br_rest r), full_err (nat n) (br_rest r)), skip (nat n) r)"
  by (simp add: bsReadBytes_def read_full_bytes padded_def full_err_def skip_def)

lemma bs_word_bytes:
  "bs_word (big bytes_ops) n r =
     ((be_word (padded n (br_rest r)), full_err n (br_rest r)), skip n r)"
  by (simp add: bs_word_def read_full_bytes padded_def full_err_def skip_def order_word_def)

lemma bsReadByte_bytes:
  "bsReadByte (big bytes_ops) r =
     (case br_rest r of [] \<Rightarrow> ((0, Some EOF), r) | b # _ \<Rightarrow> ((b, None), skip 1 r))"
proof (cases "br_rest r")
  case Nil
  then show ?thesis by (simp add: bsReadByte_def bytes_Read_def br_rest_def)
next
  case (Cons b bs)
  then have "\<not> length (br_data r) \<le> br_pos r" by (auto simp: br_rest_def)
  with Cons show ?thesis
    by (simp add: bsReadByte_def bytes_Read_def br_rest_def [symmetric] skip_def take_Suc Let_def)
qed

text \<open>A string: what is left up to the first zero byte, with an error when there is none.\<close>

lemma bsReadStringToNull_bytes:
  "bsReadStringToNull (big bytes_ops) acc r =
     ((acc @ takeWhile (\<lambda>b. b \<noteq> 0) (br_rest r), if 0 \<in> set (br_rest r) then None else Some EOF),
      skip (Suc (length (takeWhile (\<lambda>b. b \<noteq> 0) (br_rest r)))) r)"
proof (induction "length (br_rest r)" arbitrary: acc r rule: less_induct)
  case less
  show ?case
  proof (cases "br_rest r")
    case Nil
    then show ?thesis by (simp add: bsReadStringToNull.simps [of _ acc r] bsReadByte_bytes skip_def)
  next
    case (Cons b bs)
    note read = bsReadByte_bytes [of r, unfolded Cons list.case]
    show ?thesis
    proof (cases "b = 0")
      case True
      then show ?thesis using Cons read by (simp add: bsReadStringToNull.simps [of _ acc r])
    next
      case False
      have rest: "br_rest (skip 1 r) = bs" using Cons by simp
      have left: "rs_left bytes_ops (skip 1 r) < rs_left bytes_ops r"
        using Cons by (cases "br_pos r < length (br_data r)") (simp_all add: br_rest_def)
      have skip2: "skip (Suc n) (skip 1 r) = skip (Suc (Suc n)) r" for n
        using Cons rest by (simp add: skip_def br_rest_def min_def)
      have "bsReadStringToNull (big bytes_ops) acc r =
          bsReadStringToNull (big bytes_ops) (acc @ [b]) (skip 1 r)"
        unfolding bsReadStringToNull.simps [of _ acc r] read using False left by (simp only: simp_thms if_True if_False prod.case option.case BinaryStream.select_convs)
      also have "\<dots> = ((acc @ [b] @ takeWhile (\<lambda>b. b \<noteq> 0) bs, if 0 \<in> set bs then None else Some EOF),
          skip (Suc (Suc (length (takeWhile (\<lambda>b. b \<noteq> 0) bs)))) r)"
        using less [of "skip 1 r" "acc @ [b]"] Cons rest skip2 by simp
      finally show ?thesis using False Cons by simp
    qed
  qed
qed

text \<open>An excursion, from a position that exists, to an offset that may be negative.\<close>

lemma bs_at_bytes:
  assumes "m (if 0 \<le> off then r\<lparr>br_pos := nat off\<rparr> else r) = (q, r')" and "br_data r' = br_data r"
  shows "bs_at (big bytes_ops) off m r = (q, r)"
proof -
  have "r'\<lparr>br_pos := br_pos r\<rparr> = r" using assms(2) by (cases r, cases r') simp
  with assms(1) show ?thesis by (auto simp: bs_at_def bytes_Seek_def split: if_splits)
qed

end
