(* ===== verification/UsmDemux.thy ===== *)
theory UsmDemux
  imports BinaryStream UsmMask AcbUtf GoPath
begin

text \<open>
  \<open>internal/cricodecs/usm/usm.go\<close>: the demultiplexer of USM movies, over any \<open>io.ReadSeeker\<close>.
  Shift-JIS decoding (\<open>golang.org/x/text\<close>) and the creation of files are parameters; a created
  file is a \<open>writer\<close>, whose errors the code drops.

  The parser of the embedded tables in this file is its own, not the one of the ACB package. A cell
  is a \<open>gval option\<close>, where \<open>None\<close> is \<open>nil\<close>.
\<close>

unbundle bit_operations_syntax

section \<open>Tables\<close>

definition ColumnStorageMask :: u8 where "ColumnStorageMask = 0xF0"
definition ColumnStorageConstant :: u8 where "ColumnStorageConstant = 0x30"
definition ColumnStorageConstant2 :: u8 where "ColumnStorageConstant2 = 0x70"
definition ColumnTypeMask :: u8 where "ColumnTypeMask = 0x0F"
definition ColumnTypeData :: u8 where "ColumnTypeData = 0x0B"
definition ColumnTypeString :: u8 where "ColumnTypeString = 0x0A"
definition ColumnTypeFloat :: u8 where "ColumnTypeFloat = 0x08"
definition ColumnType8byte :: u8 where "ColumnType8byte = 0x06"
definition ColumnType4byte2 :: u8 where "ColumnType4byte2 = 0x05"
definition ColumnType4byte :: u8 where "ColumnType4byte = 0x04"
definition ColumnType2byte2 :: u8 where "ColumnType2byte2 = 0x03"
definition ColumnType2byte :: u8 where "ColumnType2byte = 0x02"
definition ColumnType1byte2 :: u8 where "ColumnType1byte2 = 0x01"
definition ColumnType1byte :: u8 where "ColumnType1byte = 0x00"

text \<open>\<open>return m()\<close> where the function returns an \<open>interface{}\<close>.\<close>

definition boxed :: "('a \<Rightarrow> gval) \<Rightarrow> ('s, 'a) gop \<Rightarrow> ('s, gval option) gop" where
  "boxed f m s = (case m s of ((v, e), s') \<Rightarrow> ((Some (f v), e), s'))"

definition readColumnData :: "'s BinaryStream \<Rightarrow> u8 \<Rightarrow> int \<Rightarrow> int \<Rightarrow> ('s, gval option) gop" where
  "readColumnData B t stringTableOffset dataOffset s =
     (if t = ColumnTypeData then
        (case bsReadUInt32 B s of ((offset, _), s) \<Rightarrow>
         case bsReadUInt32 B s of ((len, _), s) \<Rightarrow>
           boxed VBytes (bsReadBytesAt B (uint len) (dataOffset + uint offset - 24)) s)
      else if t = ColumnTypeString then
        (case bsReadUInt32 B s of ((offset, _), s) \<Rightarrow>
           boxed VBytes (bsReadStringToNullAt B (stringTableOffset + uint offset - 24)) s)
      else if t = ColumnTypeFloat then boxed VFloat32 (bsReadFloat32 B) s
      else if t = ColumnType8byte then boxed VUint64 (bsReadUInt64 B) s
      else if t = ColumnType4byte2 then boxed VInt32 (bsReadInt32 B) s
      else if t = ColumnType4byte then boxed VUint32 (bsReadUInt32 B) s
      else if t = ColumnType2byte2 then boxed VInt16 (bsReadInt16 B) s
      else if t = ColumnType2byte then boxed VUint16 (bsReadUInt16 B) s
      else if t = ColumnType1byte2 then boxed VInt8 (bsReadChar B) s
      else if t = ColumnType1byte then boxed VUint8 (bsReadUChar B) s
      else ((None, Some (Failure ''unknown column type'')), s))"

record fieldInfo =
  fi_name :: string
  fi_columnType :: u8
  fi_constant :: "gval option"

type_synonym usm_row = "string \<rightharpoonup> gval option"

definition readFieldInfo :: "'s BinaryStream \<Rightarrow> int \<Rightarrow> int \<Rightarrow> ('s, fieldInfo) io" where
  "readFieldInfo B stringTableOffset dataOffset =
     bindS (dropErr (bsReadUChar B)) (\<lambda>fieldType.
     bindS (dropErr (bsReadUInt32 B)) (\<lambda>nameOffset.
     let occurrence = fieldType AND ColumnStorageMask;
         typeKey = fieldType AND ColumnTypeMask in
     bindS (dropErr (bsReadStringToNullAt B (stringTableOffset + uint nameOffset - 24))) (\<lambda>fieldName.
     if occurrence = ColumnStorageConstant \<or> occurrence = ColumnStorageConstant2 then
       bindS (dropErr (readColumnData B typeKey stringTableOffset dataOffset)) (\<lambda>fieldVal.
         returnS \<lparr>fi_name = string_of fieldName, fi_columnType = typeKey, fi_constant = fieldVal\<rparr>)
     else
       returnS \<lparr>fi_name = string_of fieldName, fi_columnType = typeKey, fi_constant = None\<rparr>)))"

fun readUsmRow :: "'s BinaryStream \<Rightarrow> int \<Rightarrow> int \<Rightarrow> fieldInfo list \<Rightarrow> usm_row \<Rightarrow> ('s, usm_row) io" where
  "readUsmRow B so dof [] row = returnS row"
| "readUsmRow B so dof (f # fs) row =
     (case fi_constant f of
        Some v \<Rightarrow> readUsmRow B so dof fs (row(fi_name f \<mapsto> Some v))
      | None \<Rightarrow>
          bindS (dropErr (readColumnData B (fi_columnType f) so dof)) (\<lambda>val.
            readUsmRow B so dof fs (row(fi_name f \<mapsto> val))))"

text \<open>The numbers read behind the signature.\<close>

record usm_utf =
  uu_tableSize :: u32
  uu_rowOffset :: u16
  uu_stringTableOffset :: u32
  uu_dataOffset :: u32
  uu_numberOfFields :: u16
  uu_numberOfRows :: u32

definition readUsmUtf :: "'s BinaryStream \<Rightarrow> ('s, usm_utf) io" where
  "readUsmUtf B =
     bindS (dropErr (bsReadUInt32 B)) (\<lambda>tableSize.
     bindS (dropErr (bsReadUInt16 B)) (\<lambda>rowOffset.
     bindS (dropErr (bsReadUInt32 B)) (\<lambda>stringTableOffset.
     bindS (dropErr (bsReadUInt32 B)) (\<lambda>dataOffset.
     bindS (dropErr (bsReadUInt32 B)) (\<lambda>_.
     bindS (dropErr (bsReadUInt16 B)) (\<lambda>numberOfFields.
     bindS (dropErr (bsReadUInt16 B)) (\<lambda>_.
     bindS (dropErr (bsReadUInt32 B)) (\<lambda>numberOfRows.
       returnS \<lparr>uu_tableSize = tableSize, uu_rowOffset = rowOffset,
         uu_stringTableOffset = stringTableOffset, uu_dataOffset = dataOffset,
         uu_numberOfFields = numberOfFields, uu_numberOfRows = numberOfRows\<rparr>))))))))"

definition readUsmTable :: "usm_utf \<Rightarrow> (byte_reader, usm_row list) io" where
  "readUsmTable u =
     (let B = NewBinaryStream bytes_ops ''big'';
          so = uint (uu_stringTableOffset u); dof = uint (uu_dataOffset u) in
      bindS (repeatS (unat (uu_numberOfFields u)) 0 (\<lambda>_. readFieldInfo B so dof)) (\<lambda>fields.
      bindS (seekS bytes_ops (uint (uu_rowOffset u) - 24)) (\<lambda>_.
        repeatS (unat (uu_numberOfRows u)) 0 (\<lambda>_. readUsmRow B so dof fields Map.empty))))"

text \<open>Running code on a fresh \<open>bytes.Reader\<close>.\<close>

definition on_bytes :: "bytes \<Rightarrow> (byte_reader, 'a) io \<Rightarrow> ('s, 'a) io" where
  "on_bytes d m s = (fst (m (new_reader d)), s)"

definition getUTFTable :: "'s BinaryStream \<Rightarrow> ('s, usm_row list) io" where
  "getUTFTable B =
     bindS (wrapErr ''invalid UTF signature'' (checkErr (bsReadStringLength B 4))) (\<lambda>sig.
     if string_of sig \<noteq> ''@UTF'' then throwS (Failure ''invalid UTF signature'')
     else
     bindS (readUsmUtf B) (\<lambda>u.
     bindS (dropErr (bsReadBytes B (uint (uu_tableSize u - 24)))) (\<lambda>tableData.
       on_bytes tableData (readUsmTable u))))"

section \<open>The header\<close>

text \<open>The index of the last row is computed and tested as in the code: on an empty table it would panic.\<close>

definition extractFilename :: "usm_row list \<Rightarrow> bytes \<Rightarrow> go_err + bytes" where
  "extractFilename entryTable fallbackName =
     (if length entryTable > 0 then
        bindR (index_get entryTable (int (length entryTable) - 1)) (\<lambda>row.
          Inr (case row ''filename'' of
                 Some (Some (VBytes fn)) \<Rightarrow> fn
               | _ \<Rightarrow> fallbackName))
      else Inr fallbackName)"

definition filename_of :: "usm_row list \<Rightarrow> bytes \<Rightarrow> bytes" where
  "filename_of entryTable fallbackName =
     (if entryTable = [] then fallbackName
      else case last entryTable ''filename'' of Some (Some (VBytes fn)) \<Rightarrow> fn | _ \<Rightarrow> fallbackName)"

lemma extractFilename_total [simp]: "extractFilename entryTable fallbackName = Inr (filename_of entryTable fallbackName)"
  by (cases entryTable rule: rev_cases)
    (simp_all add: extractFilename_def filename_of_def index_get_def)

definition seekB :: "'s BinaryStream \<Rightarrow> int \<Rightarrow> ('s, int) io" where
  "seekB B off = seekS (BaseStream B) off"

definition seekCur :: "'s BinaryStream \<Rightarrow> int \<Rightarrow> ('s, int) io" where
  "seekCur B off = dropErr (\<lambda>s. rs_seek (BaseStream B) s off SeekCurrent)"

definition seekAndCheckSignature :: "'s BinaryStream \<Rightarrow> int \<Rightarrow> string \<Rightarrow> ('s, unit) io" where
  "seekAndCheckSignature B offset expected =
     bindS (seekB B offset) (\<lambda>_.
     bindS (dropErr (bsReadStringLength B 4)) (\<lambda>sig.
     if string_of sig \<noteq> expected then throwS (Failure ''expected signature'') else returnS ()))"

text \<open>A result and an error that are both dropped.\<close>

definition ignoreS :: "('s, 'a) io \<Rightarrow> ('s, unit) io" where
  "ignoreS m s =
     (case m s of
        (Inl e, s') \<Rightarrow> (if is_panic e then Inl e else Inr (), s')
      | (Inr _, s') \<Rightarrow> (Inr (), s'))"

text \<open>The end of a chunk: \<open>8 + blockSize\<close> is computed in 32 bits.\<close>

definition chunk_end :: "int \<Rightarrow> u32 \<Rightarrow> int" where
  "chunk_end offset blockSize = offset + uint (8 + blockSize)"

text \<open>\<open>blockSize\<close> has been read: the table behind it, the next chunk.\<close>

definition table_chunk :: "'s BinaryStream \<Rightarrow> int \<Rightarrow> ('s, int) io" where
  "table_chunk B offset =
     bindS (dropErr (bsReadUInt32 B)) (\<lambda>blockSize.
     bindS (seekB B (offset + 0x20)) (\<lambda>_.
     bindS (ignoreS (getUTFTable B)) (\<lambda>_. returnS (chunk_end offset blockSize))))"

definition header_end_chunk :: "'s BinaryStream \<Rightarrow> int \<Rightarrow> ('s, int) io" where
  "header_end_chunk B offset =
     bindS (dropErr (bsReadUInt32 B)) (\<lambda>blockSize.
     bindS (seekB B (offset + 0x20)) (\<lambda>_.
     bindS (dropErr (bsReadStringLength B 11)) (\<lambda>headerEnd.
     if string_of headerEnd \<noteq> ''#HEADER END'' then throwS (Failure ''expected #HEADER END'')
     else returnS (chunk_end offset blockSize))))"

definition parseUSMHeaderChunks :: "'s BinaryStream \<Rightarrow> int \<Rightarrow> ('s, bool \<times> int) io" where
  "parseUSMHeaderChunks B offset =
     bindS (seekAndCheckSignature B offset ''@SFV'') (\<lambda>_.
     bindS (table_chunk B offset) (\<lambda>offset.
     bindS (seekB B offset) (\<lambda>_.
     bindS (dropErr (bsReadStringLength B 4)) (\<lambda>nextSig.
     bindS (if string_of nextSig = ''@SFA'' then
              bindS (table_chunk B offset) (\<lambda>offset.
              bindS (seekB B offset) (\<lambda>_.
              bindS (dropErr (bsReadStringLength B 4)) (\<lambda>nextSig.
                returnS (True, offset, nextSig))))
            else returnS (False, offset, nextSig)) (\<lambda>(hasAudio, offset, nextSig).
     if string_of nextSig \<noteq> ''@SFV'' then throwS (Failure ''expected @SFV signature'')
     else
     bindS (header_end_chunk B offset) (\<lambda>offset.
     if hasAudio then
       bindS (seekAndCheckSignature B offset ''@SFA'') (\<lambda>_.
       bindS (header_end_chunk B offset) (\<lambda>offset. returnS (hasAudio, offset)))
     else returnS (hasAudio, offset)))))))"

definition skipMetadataSection :: "'s BinaryStream \<Rightarrow> int \<Rightarrow> ('s, unit) io" where
  "skipMetadataSection B offset =
     bindS (seekAndCheckSignature B offset ''@SFV'') (\<lambda>_.
     bindS (table_chunk B offset) (\<lambda>offset.
     bindS (seekAndCheckSignature B offset ''@SFV'') (\<lambda>_.
     bindS (seekCur B 28) (\<lambda>_.
     bindS (dropErr (bsReadStringLength B 13)) (\<lambda>metadataEnd.
     if string_of metadataEnd \<noteq> ''#METADATA END'' then throwS (Failure ''expected #METADATA END'')
     else
     bindS (dropErr (bsAlignStream B 4)) (\<lambda>_.
     bindS (seekCur B 16) (\<lambda>_. returnS ())))))))"

definition parseUSMHeader :: "'s BinaryStream \<Rightarrow> bytes \<Rightarrow> ('s, bytes \<times> bool) io" where
  "parseUSMHeader B fallbackName =
     bindS (wrapErr ''invalid CRID signature'' (checkErr (bsReadStringLength B 4))) (\<lambda>sig.
     if string_of sig \<noteq> ''CRID'' then throwS (Failure ''invalid CRID signature'')
     else
     bindS (dropErr (bsReadUInt32 B)) (\<lambda>blockSize.
     bindS (seekB B 0x20) (\<lambda>_.
     bindS (getUTFTable B) (\<lambda>entryTable.
     bindS (resultS (extractFilename entryTable fallbackName)) (\<lambda>filename.
     bindS (parseUSMHeaderChunks B (chunk_end 0 blockSize)) (\<lambda>(hasAudio, offset).
     bindS (skipMetadataSection B offset) (\<lambda>_. returnS (filename, hasAudio))))))))"

section \<open>The chunks\<close>

text \<open>The open output files: the video, and the audio if it is wanted.\<close>

type_synonym outputs = "writer \<times> writer option"

definition processChunk ::
    "'s BinaryStream \<Rightarrow> bytes \<Rightarrow> int \<Rightarrow> u8 \<Rightarrow> (bytes \<times> bytes) option \<Rightarrow> bytes option \<Rightarrow> outputs \<Rightarrow> ('s, outputs) io" where
  "processChunk B sig readDataLen dataType vmask amask w =
     (case w of (videoFile, audioFile) \<Rightarrow>
      if string_of sig = ''@SFV'' then
        bindS (dropErr (bsReadBytes B readDataLen)) (\<lambda>content.
        let content = (case vmask of
                         Some m \<Rightarrow> if dataType = 0 then maskVideo content m else content
                       | None \<Rightarrow> content)
        in returnS (snd (wr_write videoFile content), audioFile))
      else (case audioFile of
          Some file \<Rightarrow>
            if string_of sig = ''@SFA'' then
              bindS (dropErr (bsReadBytes B readDataLen)) (\<lambda>content.
              let content = (case amask of
                               Some m \<Rightarrow> if dataType = 0 then maskAudio content m else content
                             | None \<Rightarrow> content)
              in returnS (videoFile, Some (snd (wr_write file content))))
            else returnS w
        | None \<Rightarrow> returnS w))"

text \<open>One round of the loop behind the signature; \<open>None\<close> is the \<open>break\<close>.\<close>

definition demux_chunk ::
    "'s BinaryStream \<Rightarrow> (bytes \<times> bytes) option \<Rightarrow> bytes option \<Rightarrow> bytes \<Rightarrow> outputs \<Rightarrow> ('s, outputs option) io" where
  "demux_chunk B vmask amask sig w =
     bindS (dropErr (bsReadUInt32 B)) (\<lambda>blockSize.
     bindS (seekCur B 0) (\<lambda>pos.
     let nextOffset = pos + uint blockSize in
     bindS (dropErr (bsReadUInt16 B)) (\<lambda>chunkHeaderSize.
     bindS (dropErr (bsReadUInt16 B)) (\<lambda>chunkFooterSize.
     bindS (dropErr (bsReadBytes B 3)) (\<lambda>_.
     bindS (dropErr (bsReadChar B)) (\<lambda>dataTypeByte.
     let dataType = dataTypeByte AND 3 in
     bindS (seekCur B 16) (\<lambda>_.
     bindS (dropErr (bsReadStringLength B 13)) (\<lambda>contentsEnd.
     if string_of contentsEnd = ''#CONTENTS END'' then returnS None
     else
     bindS (seekCur B (- 13)) (\<lambda>_.
     let readDataLen = uint blockSize - uint chunkHeaderSize - uint chunkFooterSize in
     bindS (processChunk B sig readDataLen dataType vmask amask w) (\<lambda>w.
     bindS (seekB B nextOffset) (\<lambda>_. returnS (Some w))))))))))))"

text \<open>
  The loop. The progress test stands for nothing in the code: the next round starts at least
  eight bytes further on.
\<close>

function extractUSMChunks ::
    "'s BinaryStream \<Rightarrow> (bytes \<times> bytes) option \<Rightarrow> bytes option \<Rightarrow> outputs \<Rightarrow> ('s, outputs) io" where
  "extractUSMChunks B vmask amask w s =
     (case bsReadStringLength B 4 s of
        ((_, Some e), s') \<Rightarrow> (if is_panic e then Inl e else Inr w, s')
      | ((nextSig, None), s') \<Rightarrow>
          (case demux_chunk B vmask amask nextSig w s' of
             (Inl e, s'') \<Rightarrow> (Inl e, s'')
           | (Inr None, s'') \<Rightarrow> (Inr w, s'')
           | (Inr (Some w'), s'') \<Rightarrow>
               (if rs_left (BaseStream B) s'' < rs_left (BaseStream B) s
                then extractUSMChunks B vmask amask w' s''
                else (Inl (Failure ''no progress''), s''))))"
  by pat_completeness auto
termination
  by (relation "measure (\<lambda>(B, vmask, amask, w, s). rs_left (BaseStream B) s)") auto

declare extractUSMChunks.simps [simp del]

section \<open>The extraction\<close>

text \<open>\<open>create\<close> is \<open>os.Create\<close>: the open file, or the error.\<close>

definition createOutputFiles ::
    "(string \<Rightarrow> go_err + writer) \<Rightarrow> string \<Rightarrow> string \<Rightarrow> bool \<Rightarrow> bool \<Rightarrow> go_err + (outputs \<times> string list)" where
  "createOutputFiles create targetDir decodedFilename hasAudio exportAudio =
     (let baseName = trimSuffix decodedFilename (Ext decodedFilename);
          videoPath = Join [targetDir, baseName @ ''.m2v'']
      in bindR (create videoPath) (\<lambda>videoFile.
         if hasAudio \<and> exportAudio then
           (let audioPath = Join [targetDir, baseName @ ''.adx'']
            in bindR (create audioPath) (\<lambda>audioFile.
                 Inr ((videoFile, Some audioFile), [videoPath, audioPath])))
         else Inr ((videoFile, None), [videoPath])))"

text \<open>The result is the list of paths and what the files hold.\<close>

definition ExtractUSM ::
    "(bytes \<Rightarrow> go_err + string) \<Rightarrow> (string \<Rightarrow> go_err + writer) \<Rightarrow> 's read_seeker \<Rightarrow> string \<Rightarrow> bytes \<Rightarrow>
     u64 option \<Rightarrow> bool \<Rightarrow> ('s, string list \<times> outputs) io" where
  "ExtractUSM decodeShiftJIS create R targetDir fallbackName key exportAudio =
     (let B = NewBinaryStream R ''big'';
          vmask = map_option (\<lambda>k. fst (getMask k)) key;
          amask = map_option (\<lambda>k. snd (getMask k)) key
      in bindS (parseUSMHeader B fallbackName) (\<lambda>(filename, hasAudio).
         let decodedFilename = (case decodeShiftJIS filename of
                                  Inr s \<Rightarrow> s | Inl _ \<Rightarrow> string_of filename)
         in case createOutputFiles create targetDir decodedFilename hasAudio exportAudio of
              Inl e \<Rightarrow> throwS e
            | Inr (w, outputFiles) \<Rightarrow>
                bindS (extractUSMChunks B vmask amask w) (\<lambda>w. returnS (outputFiles, w))))"

text \<open>\<open>open_file\<close> is \<open>os.Open\<close>: the contents of a regular file.\<close>

definition ExtractUSMFile ::
    "(bytes \<Rightarrow> go_err + string) \<Rightarrow> (string \<Rightarrow> go_err + writer) \<Rightarrow> (string \<Rightarrow> go_err + bytes) \<Rightarrow> string \<Rightarrow>
     string \<Rightarrow> u64 option \<Rightarrow> bool \<Rightarrow> go_err + (string list \<times> outputs)" where
  "ExtractUSMFile decodeShiftJIS create open_file usmPath targetDir key exportAudio =
     bindR (open_file usmPath) (\<lambda>contents.
       fst (ExtractUSM decodeShiftJIS create bytes_ops targetDir (bytes_of (Base usmPath)) key exportAudio
              (new_reader contents)))"

section \<open>The loop over a sequence of chunks\<close>

definition adv :: "nat \<Rightarrow> byte_reader \<Rightarrow> byte_reader" where
  "adv n r = r\<lparr>br_pos := br_pos r + n\<rparr>"

lemma adv_simps [simp]:
  "br_data (adv n r) = br_data r" "br_pos (adv n r) = br_pos r + n" "adv 0 r = r"
  "adv n (adv m r) = adv (m + n) r"
  by (simp_all add: adv_def)

lemma br_rest_adv: "br_rest r = xs @ ys \<Longrightarrow> length xs = n \<Longrightarrow> br_rest (adv n r) = ys"
  unfolding br_rest_def by (metis adv_simps(1,2) add.commute append_eq_conv_conj drop_drop)

lemma skip_adv: "br_rest r = xs @ ys \<Longrightarrow> length xs = n \<Longrightarrow> skip n r = adv n r"
  by (simp add: skip_def adv_def)

lemma bind_read:
  "br_rest r = xs @ ys \<Longrightarrow> int (length xs) = n \<Longrightarrow>
   bindS (dropErr (bsReadBytes (big bytes_ops) n)) f r = f xs (adv (nat n) r)"
  by (auto simp: bindS_def dropErr_def bsReadBytes_bytes padded_def full_err_def skip_adv)

lemma bind_word:
  "br_rest r = be_bytes n w @ ys \<Longrightarrow> LENGTH('a) \<le> 8 * n \<Longrightarrow>
   bindS (dropErr (bs_word (big bytes_ops) n)) f r = f (w :: 'a::len word) (adv n r)"
  by (simp add: bindS_def dropErr_def bs_word_bytes padded_def full_err_def skip_adv be_word_be_bytes)

lemma bind_negative:
  "n < 0 \<Longrightarrow> bindS (dropErr (bsReadBytes (big bytes_ops) n)) f r =
     (Inl (Panic ''makeslice: len out of range''), r)"
  by (simp add: bindS_def dropErr_def bsReadBytes_def)

lemma bind_char:
  "br_rest r = [b] @ ys \<Longrightarrow> bindS (dropErr (bsReadChar (big bytes_ops))) f r = f b (adv 1 r)"
  by (simp add: bindS_def dropErr_def bsReadChar_def bsReadByte_bytes skip_adv [of r "[b]" ys])

lemma bind_seekCur:
  "bindS (seekCur (big bytes_ops) (int n)) f r = f (int (br_pos r + n)) (adv n r)"
  by (simp add: bindS_def seekCur_def dropErr_def bytes_Seek_def Let_def adv_def nat_add_distrib)

lemma bind_seekBack:
  "bindS (seekCur (big bytes_ops) (- int n)) f (adv (n + m) r) = f (int (br_pos r + m)) (adv m r)"
  by (simp add: bindS_def seekCur_def dropErr_def bytes_Seek_def Let_def adv_def nat_add_distrib)

lemma bind_seekB:
  "0 \<le> n \<Longrightarrow> bindS (seekB (big bytes_ops) n) f r = f n (r\<lparr>br_pos := nat n\<rparr>)"
  by (simp add: bindS_def seekB_def)

text \<open>What the code does with the payload of a chunk.\<close>

definition deliver ::
    "(bytes \<times> bytes) option \<Rightarrow> bytes option \<Rightarrow> bytes \<Rightarrow> u8 \<Rightarrow> bytes \<Rightarrow> outputs \<Rightarrow> outputs" where
  "deliver vmask amask sig dataType content = (\<lambda>(v, a).
     if string_of sig = ''@SFV'' then
       (snd (wr_write v (case vmask of Some m \<Rightarrow> if dataType = 0 then maskVideo content m else content
                         | None \<Rightarrow> content)), a)
     else if string_of sig = ''@SFA'' then
       (v, map_option (\<lambda>file. snd (wr_write file
             (case amask of Some m \<Rightarrow> if dataType = 0 then maskAudio content m else content
              | None \<Rightarrow> content))) a)
     else (v, a))"

lemma processChunk_rest:
  assumes "br_rest r = content @ ys" and "int (length content) = n"
  shows "\<exists>k. processChunk (big bytes_ops) sig n dt vmask amask w r =
    (Inr (deliver vmask amask sig dt content w), adv k r)"
proof (cases w)
  case (Pair v a)
  show ?thesis
  proof (cases "string_of sig = ''@SFV''")
    case True
    then show ?thesis
      by (intro exI [of _ "nat n"])
        (simp add: processChunk_def Pair deliver_def bind_read [OF assms] Let_def)
  next
    case False
    show ?thesis
    proof (cases "a = None \<or> string_of sig \<noteq> ''@SFA''")
      case True
      with False show ?thesis
        by (intro exI [of _ 0]) (auto simp: processChunk_def Pair deliver_def split: option.split)
    next
      case yes: False
      then obtain fl where "a = Some fl" by auto
      with yes False show ?thesis
        by (intro exI [of _ "nat n"])
          (simp add: processChunk_def Pair deliver_def bind_read [OF assms] Let_def)
    qed
  qed
qed

text \<open>The header of a chunk, piece by piece.\<close>

lemma chunk_rests:
  assumes "br_rest r = be_bytes 4 (bs :: u32) @ be_bytes 2 (h :: u16) @ be_bytes 2 (f :: u16) @ x @ [t] @ m @ body"
    and "length x = 3" and "length m = 16"
  shows "br_rest (adv 4 r) = be_bytes 2 h @ be_bytes 2 f @ x @ [t] @ m @ body"
    and "br_rest (adv 6 r) = be_bytes 2 f @ x @ [t] @ m @ body"
    and "br_rest (adv 8 r) = x @ [t] @ m @ body"
    and "br_rest (adv 11 r) = [t] @ m @ body"
    and "br_rest (adv 28 r) = take 13 body @ drop 13 body"
proof -
  show r1: "br_rest (adv 4 r) = be_bytes 2 h @ be_bytes 2 f @ x @ [t] @ m @ body"
    by (rule br_rest_adv [OF assms(1)]) simp
  show r2: "br_rest (adv 6 r) = be_bytes 2 f @ x @ [t] @ m @ body"
    using br_rest_adv [OF r1] by simp
  show r3: "br_rest (adv 8 r) = x @ [t] @ m @ body" using br_rest_adv [OF r2] by simp
  show r4: "br_rest (adv 11 r) = [t] @ m @ body" using br_rest_adv [OF r3 assms(2)] by simp
  have r5: "br_rest (adv 12 r) = m @ body" using br_rest_adv [OF r4] by simp
  show "br_rest (adv 28 r) = take 13 body @ drop 13 body" using br_rest_adv [OF r5 assms(3)] by simp
qed

lemma demux_chunk_rest:
  assumes rest: "br_rest r = be_bytes 4 bs @ be_bytes 2 h @ be_bytes 2 f @ x @ [t] @ m @ body"
    and len: "length x = 3" "length m = 16" "13 \<le> length body"
    and no_end: "string_of (take 13 body) \<noteq> ''#CONTENTS END''"
    and n: "uint (bs :: u32) - uint (h :: u16) - uint (f :: u16) = int n" "n \<le> length body"
  shows "demux_chunk (big bytes_ops) vmask amask sig w r =
    (Inr (Some (deliver vmask amask sig (t AND 3) (take n body) w)), adv (4 + unat bs) r)"
proof -
  note rs = chunk_rests [OF rest len(1,2)]
  have "br_rest (adv 28 r) = take n body @ drop n body" using rs(5) by simp
  then obtain k where k: "processChunk (big bytes_ops) sig (int n) (t AND 3) vmask amask w (adv 28 r) =
      (Inr (deliver vmask amask sig (t AND 3) (take n body) w), adv k (adv 28 r))"
    using processChunk_rest [of "adv 28 r" "take n body" "drop n body" "int n" sig "t AND 3" vmask amask w] n(2)
    by auto
  have pc: "bindS (processChunk (big bytes_ops) sig (int n) (t AND 3) vmask amask w) g (adv 28 r) =
      g (deliver vmask amask sig (t AND 3) (take n body) w) (adv (k + 28) r)" for g
    using k by (simp add: bindS_def add.commute)
  have fin: "(adv i r)\<lparr>br_pos := nat (int (br_pos r) + 4 + uint bs)\<rparr> = adv (4 + unat bs) r" for i
    by (simp add: adv_def nat_add_distrib)
  show ?thesis
    unfolding demux_chunk_def bsReadUInt32_def bsReadUInt16_def bsReadStringLength_def
    by (simp add: bind_word [OF rest] bind_word [OF rs(1)] bind_word [OF rs(2)] bind_read [OF rs(3)]
        bind_char [OF rs(4)] bind_read [OF rs(5)] bind_seekCur [where n = 0, simplified]
        bind_seekCur [where n = 16, simplified] bind_seekBack [where n = 13 and m = 28, simplified]
        bind_seekB pc fin len no_end n Let_def)
qed

lemma demux_chunk_end:
  assumes rest: "br_rest r = be_bytes 4 (bs :: u32) @ be_bytes 2 (h :: u16) @ be_bytes 2 (f :: u16) @ x @ [t] @ m @ body"
    and len: "length x = 3" "length m = 16" "13 \<le> length body"
    and fin: "string_of (take 13 body) = ''#CONTENTS END''"
  shows "\<exists>r'. demux_chunk (big bytes_ops) vmask amask sig w r = (Inr None, r')"
proof -
  note rs = chunk_rests [OF rest len(1,2)]
  show ?thesis
    unfolding demux_chunk_def bsReadUInt32_def bsReadUInt16_def bsReadStringLength_def
    by (simp add: bind_word [OF rest] bind_word [OF rs(1)] bind_word [OF rs(2)] bind_read [OF rs(3)]
        bind_char [OF rs(4)] bind_read [OF rs(5)] bind_seekCur [where n = 0, simplified]
        bind_seekCur [where n = 16, simplified] len fin Let_def)
qed

lemma demux_chunk_negative:
  assumes rest: "br_rest r = be_bytes 4 (bs :: u32) @ be_bytes 2 (h :: u16) @ be_bytes 2 (f :: u16) @ x @ [t] @ m @ body"
    and len: "length x = 3" "length m = 16" "13 \<le> length body"
    and no_end: "string_of (take 13 body) \<noteq> ''#CONTENTS END''"
    and less: "uint bs < uint h + uint f" and sfv: "string_of sig = ''@SFV''"
  shows "fst (demux_chunk (big bytes_ops) vmask amask sig w r) = Inl (Panic ''makeslice: len out of range'')"
proof -
  note rs = chunk_rests [OF rest len(1,2)]
  show ?thesis
    using less unfolding demux_chunk_def bsReadUInt32_def bsReadUInt16_def bsReadStringLength_def
    by (simp add: bind_word [OF rest] bind_word [OF rs(1)] bind_word [OF rs(2)] bind_read [OF rs(3)]
        bind_char [OF rs(4)] bind_read [OF rs(5)] bind_seekCur [where n = 0, simplified]
        bind_seekCur [where n = 16, simplified] bind_seekBack [where n = 13 and m = 28, simplified]
        bind_negative bindS_assoc processChunk_def sfv len no_end Let_def split: prod.split)
qed

section \<open>Streams\<close>

text \<open>A chunk of the format: 24 bytes of header behind the size, then payload and padding.\<close>

record usm_chunk =
  ch_sig :: bytes
  ch_mid :: bytes
  ch_type :: u8
  ch_info :: bytes
  ch_payload :: bytes
  ch_padding :: bytes

definition put_chunk :: "usm_chunk \<Rightarrow> bytes" where
  "put_chunk c =
     ch_sig c @ be_bytes 4 (of_nat (24 + length (ch_payload c) + length (ch_padding c)) :: u32) @
     be_bytes 2 (24 :: u16) @ be_bytes 2 (of_nat (length (ch_padding c)) :: u16) @
     ch_mid c @ [ch_type c] @ ch_info c @ ch_payload c @ ch_padding c"

definition chunk_ok :: "usm_chunk \<Rightarrow> bool" where
  "chunk_ok c \<longleftrightarrow>
     length (ch_sig c) = 4 \<and> length (ch_mid c) = 3 \<and> length (ch_info c) = 16 \<and>
     24 + length (ch_payload c) + length (ch_padding c) < 2 ^ 32 \<and> length (ch_padding c) < 2 ^ 16 \<and>
     13 \<le> length (ch_payload c) + length (ch_padding c)"

definition is_end :: "usm_chunk \<Rightarrow> bool" where
  "is_end c \<longleftrightarrow> string_of (take 13 (ch_payload c @ ch_padding c)) = ''#CONTENTS END''"

definition deliver_chunk :: "(bytes \<times> bytes) option \<Rightarrow> bytes option \<Rightarrow> usm_chunk \<Rightarrow> outputs \<Rightarrow> outputs" where
  "deliver_chunk vmask amask c =
     deliver vmask amask (ch_sig c) (ch_type c AND 3) (ch_payload c)"

lemma length_put_chunk:
  "chunk_ok c \<Longrightarrow> length (put_chunk c) = 32 + length (ch_payload c) + length (ch_padding c)"
  by (simp add: put_chunk_def chunk_ok_def)

lemma read_sig:
  "br_rest r = xs @ ys \<Longrightarrow> length xs = 4 \<Longrightarrow>
   bsReadStringLength (big bytes_ops) 4 r = ((xs, None), adv 4 r)"
  by (simp add: bsReadStringLength_def bsReadBytes_bytes padded_def full_err_def skip_adv)

lemma take13:
  "chunk_ok c \<Longrightarrow> take 13 (ch_payload c @ ch_padding c @ ys) = take 13 (ch_payload c @ ch_padding c)"
  by (simp add: chunk_ok_def)

lemma extract_chunk:
  assumes ok: "chunk_ok c" and no_end: "\<not> is_end c" and rest: "br_rest r = put_chunk c @ ys"
  shows "extractUSMChunks (big bytes_ops) vmask amask w r =
    extractUSMChunks (big bytes_ops) vmask amask (deliver_chunk vmask amask c w) (adv (length (put_chunk c)) r)"
proof -
  let ?n = "24 + length (ch_payload c) + length (ch_padding c)"
  let ?tl = "be_bytes 4 (of_nat ?n :: u32) @ be_bytes 2 (24 :: u16) @
    be_bytes 2 (of_nat (length (ch_padding c)) :: u16) @
    ch_mid c @ [ch_type c] @ ch_info c @ ch_payload c @ ch_padding c @ ys"
  have len: "length (ch_sig c) = 4" "length (ch_mid c) = 3" "length (ch_info c) = 16"
      "13 \<le> length (ch_payload c @ ch_padding c @ ys)"
    using ok by (auto simp: chunk_ok_def)
  have r0: "br_rest r = ch_sig c @ ?tl" using rest by (simp add: put_chunk_def)
  have r1: "br_rest (adv 4 r) = ?tl" by (rule br_rest_adv [OF r0 len(1)])
  have ne: "string_of (take 13 (ch_payload c @ ch_padding c @ ys)) \<noteq> ''#CONTENTS END''"
    using no_end unfolding is_end_def take13 [OF ok] .
  have u: "unat (of_nat ?n :: u32) = ?n" "unat (of_nat (length (ch_padding c)) :: u16) = length (ch_padding c)"
    unfolding unat_of_nat by (rule mod_less; use ok in \<open>simp add: chunk_ok_def\<close>)+
  then have n: "uint (of_nat ?n :: u32) - uint (24 :: u16) - uint (of_nat (length (ch_padding c)) :: u16) =
      int (length (ch_payload c))"
    by (simp only: uint_nat) simp
  have chunk: "demux_chunk (big bytes_ops) vmask amask (ch_sig c) w (adv 4 r) =
      (Inr (Some (deliver_chunk vmask amask c w)), adv (length (put_chunk c)) r)"
    using demux_chunk_rest [OF r1 len(2,3,4) ne n] u(1) ok
    by (simp add: deliver_chunk_def length_put_chunk)
  have "br_pos r < length (br_data r)"
    using r0 len(1) by (cases "br_pos r < length (br_data r)") (auto simp: br_rest_def)
  then have "rs_left bytes_ops (adv (length (put_chunk c)) r) < rs_left bytes_ops r"
    using ok by (simp add: length_put_chunk)
  then show ?thesis
    by (simp add: extractUSMChunks.simps [of _ _ _ w r] read_sig [OF r0 len(1)] chunk del: bytes_ops_simps)
qed

text \<open>A chunk stream with an end chunk gives all payloads, in order; what follows is not read.\<close>

lemma extract_end:
  assumes ok: "chunk_ok c" and fin: "is_end c" and rest: "br_rest r = put_chunk c @ ys"
  shows "fst (extractUSMChunks (big bytes_ops) vmask amask w r) = Inr w"
proof -
  let ?tl = "be_bytes 4 (of_nat (24 + length (ch_payload c) + length (ch_padding c)) :: u32) @
    be_bytes 2 (24 :: u16) @ be_bytes 2 (of_nat (length (ch_padding c)) :: u16) @
    ch_mid c @ [ch_type c] @ ch_info c @ ch_payload c @ ch_padding c @ ys"
  have len: "length (ch_sig c) = 4" "length (ch_mid c) = 3" "length (ch_info c) = 16"
      "13 \<le> length (ch_payload c @ ch_padding c @ ys)"
    using ok by (auto simp: chunk_ok_def)
  have r0: "br_rest r = ch_sig c @ ?tl" using rest by (simp add: put_chunk_def)
  have r1: "br_rest (adv 4 r) = ?tl" by (rule br_rest_adv [OF r0 len(1)])
  have "string_of (take 13 (ch_payload c @ ch_padding c @ ys)) = ''#CONTENTS END''"
    using fin unfolding is_end_def take13 [OF ok] .
  from demux_chunk_end [OF r1 len(2,3,4) this] obtain r' where
    "demux_chunk (big bytes_ops) vmask amask (ch_sig c) w (adv 4 r) = (Inr None, r')" by blast
  then show ?thesis
    by (simp add: extractUSMChunks.simps [of _ _ _ w r] read_sig [OF r0 len(1)])
qed

lemma extract_stream:
  assumes "\<And>c. c \<in> set cs \<Longrightarrow> chunk_ok c \<and> \<not> is_end c" and "chunk_ok e" and "is_end e"
    and "br_rest r = concat (map put_chunk cs) @ put_chunk e @ ys"
  shows "fst (extractUSMChunks (big bytes_ops) vmask amask w r) = Inr (fold (deliver_chunk vmask amask) cs w)"
  using assms(1,4)
proof (induction cs arbitrary: w r)
  case Nil
  then show ?case using extract_end [OF assms(2,3)] by simp
next
  case (Cons c cs)
  then have "br_rest r = put_chunk c @ (concat (map put_chunk cs) @ put_chunk e @ ys)" by simp
  moreover from br_rest_adv [OF this refl]
  have "br_rest (adv (length (put_chunk c)) r) = concat (map put_chunk cs) @ put_chunk e @ ys" .
  ultimately show ?case using Cons extract_chunk [of c r _ vmask amask w] by simp
qed

text \<open>The elementary streams.\<close>

definition chunk_video :: "(bytes \<times> bytes) option \<Rightarrow> usm_chunk \<Rightarrow> bytes" where
  "chunk_video vmask c =
     (if string_of (ch_sig c) \<noteq> ''@SFV'' then []
      else case vmask of
        Some m \<Rightarrow> if ch_type c AND 3 = 0 then maskVideo (ch_payload c) m else ch_payload c
      | None \<Rightarrow> ch_payload c)"

definition chunk_audio :: "bytes option \<Rightarrow> usm_chunk \<Rightarrow> bytes" where
  "chunk_audio amask c =
     (if string_of (ch_sig c) \<noteq> ''@SFA'' then []
      else case amask of
        Some m \<Rightarrow> if ch_type c AND 3 = 0 then maskAudio (ch_payload c) m else ch_payload c
      | None \<Rightarrow> ch_payload c)"

text \<open>A new file on a disk with room.\<close>

definition new_file :: writer where
  "new_file = \<lparr>wr_out = [], wr_limit = None\<rparr>"

lemma deliver_chunks:
  "fold (deliver_chunk vmask amask) cs (\<lparr>wr_out = v, wr_limit = None\<rparr>, map_option (\<lambda>a. \<lparr>wr_out = a, wr_limit = None\<rparr>) oa) =
   (\<lparr>wr_out = v @ concat (map (chunk_video vmask) cs), wr_limit = None\<rparr>,
    map_option (\<lambda>a. \<lparr>wr_out = a @ concat (map (chunk_audio amask) cs), wr_limit = None\<rparr>) oa)"
proof (induction cs arbitrary: v oa)
  case Nil
  then show ?case by (simp add: option.map_ident)
next
  case (Cons c cs)
  have "deliver_chunk vmask amask c (\<lparr>wr_out = v, wr_limit = None\<rparr>, map_option (\<lambda>a. \<lparr>wr_out = a, wr_limit = None\<rparr>) oa) =
    (\<lparr>wr_out = v @ chunk_video vmask c, wr_limit = None\<rparr>,
     map_option (\<lambda>a. \<lparr>wr_out = a, wr_limit = None\<rparr>) (map_option (\<lambda>a. a @ chunk_audio amask c) oa))"
    by (cases oa) (auto simp: deliver_chunk_def deliver_def wr_write_def chunk_video_def chunk_audio_def
        cong: option.case_cong split: option.split)
  then show ?case
    using Cons [of "v @ chunk_video vmask c" "map_option (\<lambda>a. a @ chunk_audio amask c) oa"]
    by (simp add: option.map_comp o_def)
qed

section \<open>Masked streams\<close>

text \<open>The chunk a masking multiplexer writes for a plain one.\<close>

definition mask_chunk :: "u64 \<Rightarrow> usm_chunk \<Rightarrow> usm_chunk" where
  "mask_chunk key c =
     (if ch_type c AND 3 \<noteq> 0 then c
      else if string_of (ch_sig c) = ''@SFV'' then c\<lparr>ch_payload := veil (fst (getMask key)) (ch_payload c)\<rparr>
      else if string_of (ch_sig c) = ''@SFA'' then c\<lparr>ch_payload := maskAudio (ch_payload c) (snd (getMask key))\<rparr>
      else c)"

definition payloads :: "string \<Rightarrow> usm_chunk list \<Rightarrow> bytes" where
  "payloads sig cs = concat (map ch_payload (filter (\<lambda>c. string_of (ch_sig c) = sig) cs))"

lemma take_veil: "n \<le> 0x40 \<Longrightarrow> take n (veil vmask p) = take n p"
  by (rule nth_equalityI) (auto simp: veil_def)

lemma length_maskAudio [simp]: "length (maskAudio d amask) = length d"
  by (simp add: maskAudio_def)

lemma take_maskAudio: "n \<le> 0x140 \<Longrightarrow> take n (maskAudio d amask) = take n d"
  by (rule nth_equalityI) (auto simp: maskAudio_def nth_xor_loop)

lemma mask_chunk_ok [simp]: "chunk_ok (mask_chunk key c) = chunk_ok c"
  by (simp add: mask_chunk_def chunk_ok_def)

lemma mask_chunk_end [simp]: "is_end (mask_chunk key c) = is_end c"
  by (simp add: mask_chunk_def is_end_def take_veil take_maskAudio)

lemma unmask_video:
  "chunk_video (Some (fst (getMask key))) (mask_chunk key c) =
   (if string_of (ch_sig c) = ''@SFV'' then ch_payload c else [])"
  by (simp add: chunk_video_def mask_chunk_def maskVideo_veil)

lemma unmask_audio:
  "chunk_audio (Some (snd (getMask key))) (mask_chunk key c) =
   (if string_of (ch_sig c) = ''@SFA'' then ch_payload c else [])"
  by (auto simp: chunk_audio_def mask_chunk_def audio.mask_mask)

lemma concat_payloads:
  "concat (map (\<lambda>c. if string_of (ch_sig c) = sig then ch_payload c else []) cs) = payloads sig cs"
  by (induction cs) (auto simp: payloads_def)

section \<open>Any bytes\<close>

definition makeslice :: go_err where
  "makeslice = Panic ''makeslice: len out of range''"

text \<open>Code that keeps the bytes of its reader and stops with no error but the panic of \<open>make\<close>.\<close>

definition safeS :: "('a \<Rightarrow> byte_reader \<Rightarrow> bool) \<Rightarrow> (byte_reader, 'a) io \<Rightarrow> bool" where
  "safeS P m \<longleftrightarrow>
     (\<forall>r. br_data (snd (m r)) = br_data r \<and>
        (case fst (m r) of Inl e \<Rightarrow> e = makeslice | Inr x \<Rightarrow> P x (snd (m r))))"

named_theorems safe_intros

lemma safeS_bindS:
  assumes "safeS Q m" and "\<And>x. safeS P (f x)"
  shows "safeS P (bindS m f)"
  unfolding safeS_def
proof
  fix r
  show "br_data (snd (bindS m f r)) = br_data r \<and>
    (case fst (bindS m f r) of Inl e \<Rightarrow> e = makeslice | Inr x \<Rightarrow> P x (snd (bindS m f r)))"
    using assms(1) [unfolded safeS_def, rule_format, of r] assms(2) [unfolded safeS_def, rule_format]
    by (cases "m r"; cases "fst (m r)") (simp_all add: bindS_def cong: sum.case_cong)
qed

abbreviation safe :: "(byte_reader, 'a) io \<Rightarrow> bool" where
  "safe m \<equiv> safeS (\<lambda>_ _. True) m"

lemma safeS_returnS: "(\<And>r. P x r) \<Longrightarrow> safeS P (returnS x)"
  by (simp add: safeS_def returnS_def)

lemma full_err_no_panic: "full_err n bs = Some e \<Longrightarrow> \<not> is_panic e"
  by (auto simp: full_err_def split: if_splits)

lemma safe_reads [safe_intros]:
  "safe (dropErr (bsReadBytes (big bytes_ops) n))" "safe (dropErr (bs_word (big bytes_ops) k))"
  "safe (dropErr (bsReadChar (big bytes_ops)))" "safe (seekCur (big bytes_ops) i)"
proof -
  show "safe (dropErr (bsReadBytes (big bytes_ops) n))"
  proof (cases "n < 0")
    case True
    then show ?thesis by (simp add: safeS_def dropErr_def makeslice_def bsReadBytes_def)
  next
    case False
    then show ?thesis
      by (auto simp: safeS_def dropErr_def bsReadBytes_bytes split: option.split dest: full_err_no_panic)
  qed
qed (auto simp: safeS_def dropErr_def bs_word_bytes bsReadChar_def bsReadByte_bytes seekCur_def
    bytes_Seek_def Let_def split: list.split option.split dest: full_err_no_panic)

lemma safe_seekB:
  "0 \<le> off \<Longrightarrow> (\<And>u. P x (u\<lparr>br_pos := nat off\<rparr>)) \<Longrightarrow>
   safeS P (bindS (seekB (big bytes_ops) off) (\<lambda>_. returnS x))"
  by (simp add: safeS_def bindS_def seekB_def returnS_def)

lemma safeS_If: "(b \<Longrightarrow> safeS P m) \<Longrightarrow> (\<not> b \<Longrightarrow> safeS P n) \<Longrightarrow> safeS P (if b then m else n)"
  by simp

lemma safe_processChunk [safe_intros]:
  "safe (processChunk (big bytes_ops) sig n dt vmask amask w)"
  by (auto simp: processChunk_def Let_def intro!: safeS_bindS safeS_returnS safe_intros
      split: prod.split option.split)

text \<open>A round that goes on starts the next one behind the size of the chunk.\<close>

lemma demux_chunk_safe:
  "br_data (snd (demux_chunk (big bytes_ops) vmask amask sig w r)) = br_data r \<and>
   (case fst (demux_chunk (big bytes_ops) vmask amask sig w r) of
      Inl e \<Rightarrow> e = makeslice
    | Inr None \<Rightarrow> True
    | Inr (Some _) \<Rightarrow> br_pos r \<le> br_pos (snd (demux_chunk (big bytes_ops) vmask amask sig w r)))"
proof -
  define bs :: u32 where "bs = be_word (padded 4 (br_rest r))"
  define r1 where "r1 = skip 4 r"
  define P where "P = (\<lambda>(x :: outputs option) (u :: byte_reader). x = None \<or> br_pos u = nat (int (br_pos r1) + uint bs))"
  let ?B = "big bytes_ops"
  define m where "m = bindS (dropErr (bs_word ?B 2)) (\<lambda>h :: u16.
      bindS (dropErr (bs_word ?B 2)) (\<lambda>f :: u16.
      bindS (dropErr (bsReadBytes ?B 3)) (\<lambda>_.
      bindS (dropErr (bsReadChar ?B)) (\<lambda>t.
      bindS (seekCur ?B 16) (\<lambda>_.
      bindS (dropErr (bsReadBytes ?B 13)) (\<lambda>contentsEnd.
      if string_of contentsEnd = ''#CONTENTS END'' then returnS None
      else bindS (seekCur ?B (- 13)) (\<lambda>_.
      bindS (processChunk ?B sig (uint bs - uint h - uint f) (t AND 3) vmask amask w) (\<lambda>w.
      bindS (seekB ?B (int (br_pos r1) + uint bs)) (\<lambda>_. returnS (Some w))))))))))"
  have "dropErr (bs_word ?B 4) r = (Inr bs, r1)"
    by (auto simp: dropErr_def bs_word_bytes bs_def r1_def split: option.split dest: full_err_no_panic)
  then have step: "bindS (dropErr (bs_word ?B 4)) g r = g bs r1" for g
    by (simp add: bindS_def)
  have m: "demux_chunk ?B vmask amask sig w r = m r1"
    unfolding demux_chunk_def bsReadUInt32_def bsReadUInt16_def bsReadStringLength_def Let_def m_def
    by (simp add: step bind_seekCur [where n = 0, simplified])
  have safe: "safeS P m"
    unfolding m_def by (rule safe_intros safe_seekB safeS_returnS safeS_If safeS_bindS | simp add: P_def)+
  have le: "br_data r1 = br_data r" "br_pos r \<le> nat (int (br_pos r1) + uint bs)"
    by (simp_all add: r1_def nat_add_distrib)
  from safe have "br_data (snd (m r1)) = br_data r1 \<and>
      (case fst (m r1) of Inl e \<Rightarrow> e = makeslice | Inr x \<Rightarrow> P x (snd (m r1)))"
    unfolding safeS_def by blast
  with le show ?thesis
    unfolding m by (auto simp: P_def split: sum.splits option.splits)
qed

lemma extract_any:
  "fst (extractUSMChunks (big bytes_ops) vmask amask w r) = Inl e \<Longrightarrow> e = makeslice"
proof (induction "length (br_rest r)" arbitrary: w r rule: less_induct)
  case less
  show ?case
  proof (cases "4 \<le> length (br_rest r)")
    case False
    then show ?thesis using less.prems
      by (auto simp: extractUSMChunks.simps [of _ _ _ w r] bsReadStringLength_def bsReadBytes_bytes full_err_def
          split: if_splits)
  next
    case True
    then have sig: "bsReadStringLength (big bytes_ops) 4 r = ((take 4 (br_rest r), None), skip 4 r)"
      by (simp add: bsReadStringLength_def bsReadBytes_bytes full_err_def padded_def)
    obtain x u where x: "demux_chunk (big bytes_ops) vmask amask (take 4 (br_rest r)) w (skip 4 r) = (x, u)"
      by (metis surj_pair)
    note safe = demux_chunk_safe [of vmask amask "take 4 (br_rest r)" w "skip 4 r", unfolded x]
    show ?thesis
    proof (cases x)
      case (Inl e')
      then show ?thesis using less.prems safe
        by (simp add: extractUSMChunks.simps [of _ _ _ w r] sig x)
    next
      case (Inr ow)
      show ?thesis
      proof (cases ow)
        case None
        then show ?thesis using less.prems Inr
          by (simp add: extractUSMChunks.simps [of _ _ _ w r] sig x)
      next
        case (Some w')
        have u: "br_data u = br_data r" "br_pos r + 4 \<le> br_pos u" using safe Inr Some True by auto
        then have "length (br_rest u) < length (br_rest r)" using True by (simp add: br_rest_def)
        moreover from this have "rs_left bytes_ops u < rs_left bytes_ops r" by (simp add: br_rest_def)
        ultimately show ?thesis using less.prems less.hyps [of u w'] Inr Some
          by (simp add: extractUSMChunks.simps [of _ _ _ w r] sig x del: bytes_ops_simps)
      qed
    qed
  qed
qed

section \<open>The header of a table\<close>

lemma be_bytes_halves:
  "be_bytes 4 (w :: u32) = be_bytes 2 (ucast (drop_bit 16 w) :: u16) @ be_bytes 2 (ucast w :: u16)"
proof -
  have "ucast (drop_bit 8 (drop_bit 16 w)) = (ucast (drop_bit 8 (ucast (drop_bit 16 w) :: u16)) :: u8)"
    "ucast (drop_bit 8 w) = (ucast (drop_bit 8 (ucast w :: u16)) :: u8)"
    by (rule bit_word_eqI, simp add: bit_simps)+
  then show ?thesis
    by (simp add: numeral_eq_Suc) (rule conjI; rule bit_word_eqI; simp add: bit_simps)
qed

lemma be_word_halves:
  "be_bytes 2 (x :: u16) @ be_bytes 2 (y :: u16) = be_bytes 4 (push_bit 16 (ucast x) OR ucast y :: u32)"
proof -
  have "ucast (drop_bit 16 (push_bit 16 (ucast x) OR ucast y :: u32)) = x"
    "ucast (push_bit 16 (ucast x) OR ucast y :: u32) = y"
    by (rule bit_word_eqI, auto simp: bit_simps dest: bit_imp_le_length)+
  then show ?thesis by (simp add: be_bytes_halves)
qed

lemma readUsmUtf_rest:
  assumes "br_rest r = be_bytes 4 a @ be_bytes 2 b @ be_bytes 4 c @ be_bytes 4 d @ be_bytes 4 (e :: u32) @
    be_bytes 2 f @ be_bytes 2 (g :: u16) @ be_bytes 4 h @ ys"
  shows "fst (readUsmUtf (big bytes_ops) r) =
    Inr \<lparr>uu_tableSize = a, uu_rowOffset = b, uu_stringTableOffset = c, uu_dataOffset = d,
      uu_numberOfFields = f, uu_numberOfRows = h\<rparr>"
proof -
  note r1 = br_rest_adv [OF assms, of 4, simplified]
  note r2 = br_rest_adv [OF r1, of 2, simplified]
  note r3 = br_rest_adv [OF r2, of 4, simplified]
  note r4 = br_rest_adv [OF r3, of 4, simplified]
  note r5 = br_rest_adv [OF r4, of 4, simplified]
  note r6 = br_rest_adv [OF r5, of 2, simplified]
  note r7 = br_rest_adv [OF r6, of 2, simplified]
  show ?thesis
    unfolding readUsmUtf_def bsReadUInt32_def bsReadUInt16_def
    by (simp add: bind_word [OF assms] bind_word [OF r1] bind_word [OF r2] bind_word [OF r3] bind_word [OF r4]
        bind_word [OF r5] bind_word [OF r6] bind_word [OF r7] returnS_def)
qed

lemma bind_checked:
  "br_rest r = be_bytes n w @ ys \<Longrightarrow> LENGTH('a) \<le> 8 * n \<Longrightarrow>
   bindS (wrapErr msg (checkErr (binary_read bytes_ops n be_word))) f r = f (w :: 'a::len word) (adv n r)"
  by (simp add: bindS_def wrapErr_def checkErr_def binary_read_bytes be_word_be_bytes adv_def)

lemma readHeader_rest:
  assumes "br_rest r = drop 4 (utf_header_bytes h) @ ys"
  shows "fst (readHeader bytes_ops r) = Inr h"
proof -
  have r0: "br_rest r = be_bytes 4 (TableSize h) @ be_bytes 2 (Version h) @
     be_bytes 2 (RowOffset h) @ be_bytes 4 (StringTableOffset h) @ be_bytes 4 (DataOffset h) @
     be_bytes 4 (TableNameOffset h) @ be_bytes 2 (NumberOfFields h) @ be_bytes 2 (RowSize h) @
     be_bytes 4 (NumberOfRows h) @ ys"
    using assms by (simp add: utf_header_bytes_def)
  note r1 = br_rest_adv [OF r0, of 4, simplified]
  note r2 = br_rest_adv [OF r1, of 2, simplified]
  note r3 = br_rest_adv [OF r2, of 2, simplified]
  note r4 = br_rest_adv [OF r3, of 4, simplified]
  note r5 = br_rest_adv [OF r4, of 4, simplified]
  note r6 = br_rest_adv [OF r5, of 4, simplified]
  note r7 = br_rest_adv [OF r6, of 2, simplified]
  note r8 = br_rest_adv [OF r7, of 2, simplified]
  show ?thesis
    unfolding readHeader_def ReadUint32_def ReadUint16_def
    by (simp add: bind_checked [OF r0] bind_checked [OF r1] bind_checked [OF r2] bind_checked [OF r3]
        bind_checked [OF r4] bind_checked [OF r5] bind_checked [OF r6] bind_checked [OF r7]
        bind_checked [OF r8] returnS_def)
qed

section \<open>The header parser on any bytes\<close>

text \<open>A method that keeps the bytes and reports no panic.\<close>

definition calm_gop :: "(byte_reader, 'a) gop \<Rightarrow> bool" where
  "calm_gop m \<longleftrightarrow>
     (\<forall>r v e r'. m r = ((v, e), r') \<longrightarrow> br_data r' = br_data r \<and> (\<forall>x. e = Some x \<longrightarrow> \<not> is_panic x))"

lemma calm_dropErr [calm_intros]: "calm_gop m \<Longrightarrow> calm (dropErr m)"
  by (fastforce simp: calm_def calm_gop_def dropErr_def split: prod.splits option.splits if_splits)

lemma calm_checkErr: "calm_gop m \<Longrightarrow> calm (checkErr m)"
  by (fastforce simp: calm_def calm_gop_def checkErr_def split: prod.splits option.splits)

lemma calm_gop_bytes [calm_intros]: "0 \<le> n \<Longrightarrow> calm_gop (bsReadBytes (big bytes_ops) n)"
  by (auto simp: calm_gop_def bsReadBytes_bytes dest: full_err_no_panic)

lemma calm_gop_word: "calm_gop (bs_word (big bytes_ops) n)"
  by (auto simp: calm_gop_def bs_word_bytes dest: full_err_no_panic)

lemma calm_gop_char: "calm_gop (bsReadByte (big bytes_ops))"
  by (auto simp: calm_gop_def bsReadByte_bytes split: list.splits)

lemma calm_gop_string: "calm_gop (bsReadStringToNull (big bytes_ops) acc)"
  by (auto simp: calm_gop_def bsReadStringToNull_bytes split: if_splits)

lemma calm_gop_at [calm_intros]:
  assumes "calm_gop m"
  shows "calm_gop (bs_at (big bytes_ops) off m)"
  unfolding calm_gop_def
proof (intro allI impI)
  fix r v e r'
  assume run: "bs_at (big bytes_ops) off m r = ((v, e), r')"
  obtain v' e' u where u: "m (if 0 \<le> off then r\<lparr>br_pos := nat off\<rparr> else r) = ((v', e'), u)"
    by (metis surj_pair)
  with assms have "br_data u = br_data r \<and> (\<forall>x. e' = Some x \<longrightarrow> \<not> is_panic x)"
    unfolding calm_gop_def by (cases "0 \<le> off") fastforce+
  with bs_at_bytes [where m = m, OF u] run show "br_data r' = br_data r \<and> (\<forall>x. e = Some x \<longrightarrow> \<not> is_panic x)" by simp
qed

lemma bs_calm [calm_intros]:
  "calm_gop (bsReadUInt16 (big bytes_ops))" "calm_gop (bsReadUInt32 (big bytes_ops))"
  "calm_gop (bsReadUInt64 (big bytes_ops))" "calm_gop (bsReadInt16 (big bytes_ops))"
  "calm_gop (bsReadInt32 (big bytes_ops))" "calm_gop (bsReadFloat32 (big bytes_ops))"
  "calm_gop (bsReadChar (big bytes_ops))" "calm_gop (bsReadUChar (big bytes_ops))"
  "0 \<le> n \<Longrightarrow> calm_gop (bsReadStringLength (big bytes_ops) n)"
  "0 \<le> n \<Longrightarrow> calm_gop (bsReadBytesAt (big bytes_ops) n off)"
  "calm_gop (bsReadStringToNullAt (big bytes_ops) off)"
  by (simp_all add: bs_read_defs bsReadChar_def bsReadUChar_def bsReadStringLength_def bsReadBytesAt_def
      bsReadStringToNullAt_def calm_gop_word calm_gop_char calm_gop_string calm_gop_bytes calm_gop_at)

lemma calm_gop_boxed [calm_intros]: "calm_gop m \<Longrightarrow> calm_gop (boxed f m)"
  by (fastforce simp: calm_gop_def boxed_def split: prod.splits)

lemma calm_gop_If:
  "(b \<Longrightarrow> calm_gop m) \<Longrightarrow> (\<not> b \<Longrightarrow> calm_gop n) \<Longrightarrow> calm_gop (\<lambda>s. if b then m s else n s)"
  by (cases b) simp_all

text \<open>A read whose error is dropped inside a method.\<close>

lemma calm_gop_after:
  assumes "calm_gop m" and "\<And>v. calm_gop (f v)"
  shows "calm_gop (\<lambda>s. case m s of ((v, _), s) \<Rightarrow> f v s)"
  unfolding calm_gop_def
proof (intro allI impI)
  fix r v e r'
  assume run: "(case m r of ((v, _), s) \<Rightarrow> f v s) = ((v, e), r')"
  obtain a b u where u: "m r = ((a, b), u)" by (metis surj_pair)
  with assms run show "br_data r' = br_data r \<and> (\<forall>x. e = Some x \<longrightarrow> \<not> is_panic x)"
    unfolding calm_gop_def by fastforce
qed

lemma calm_gop_readColumnData [calm_intros]: "calm_gop (readColumnData (big bytes_ops) t so dof)"
proof -
  have "calm_gop (\<lambda>s. case bsReadUInt32 (big bytes_ops) s of ((offset, _), s) \<Rightarrow>
      case bsReadUInt32 (big bytes_ops) s of ((len, _), s) \<Rightarrow>
        boxed VBytes (bsReadBytesAt (big bytes_ops) (uint len) (dof + uint offset - 24)) s)"
    "calm_gop (\<lambda>s. case bsReadUInt32 (big bytes_ops) s of ((offset, _), s) \<Rightarrow>
      boxed VBytes (bsReadStringToNullAt (big bytes_ops) (so + uint offset - 24)) s)"
    by (intro calm_gop_after calm_intros; simp)+
  moreover have "calm_gop (\<lambda>s. ((None, Some (Failure msg)), s))" for msg
    by (simp add: calm_gop_def)
  ultimately show ?thesis
    unfolding readColumnData_def by (intro calm_gop_If calm_intros; simp)
qed

text \<open>Code that drops every error and has no panic to pass on returns a value.\<close>

definition works :: "(byte_reader, 'a) io \<Rightarrow> bool" where
  "works m \<longleftrightarrow> (\<forall>r. \<exists>x r'. m r = (Inr x, r') \<and> br_data r' = br_data r)"

named_theorems works_intros

lemma worksE:
  assumes "works m"
  obtains x r' where "m r = (Inr x, r')" and "br_data r' = br_data r"
  using assms unfolding works_def by blast

lemma calm_works: "works m \<Longrightarrow> calm m"
  unfolding works_def calm_def by (metis Pair_inject sum.distinct(1))

lemma works_dropErr [works_intros]: "calm_gop m \<Longrightarrow> works (dropErr m)"
  unfolding works_def
proof
  fix r
  assume m: "calm_gop m"
  obtain v e u where "m r = ((v, e), u)" by (metis surj_pair)
  with m show "\<exists>x r'. dropErr m r = (Inr x, r') \<and> br_data r' = br_data r"
    by (cases e) (auto simp: calm_gop_def dropErr_def)
qed

lemma works_returnS [works_intros]: "works (returnS x)"
  by (simp add: works_def)

lemma works_bindS [works_intros]:
  assumes "works m" and "\<And>x. works (f x)"
  shows "works (bindS m f)"
  unfolding works_def
proof
  fix r
  obtain x u where u: "m r = (Inr x, u)" "br_data u = br_data r" by (rule worksE [OF assms(1)])
  obtain y w where "f x u = (Inr y, w)" "br_data w = br_data u" by (rule worksE [OF assms(2)])
  with u show "\<exists>x r'. bindS m f r = (Inr x, r') \<and> br_data r' = br_data r"
    by (simp add: bindS_def)
qed

lemma works_If [works_intros]: "(b \<Longrightarrow> works m) \<Longrightarrow> (\<not> b \<Longrightarrow> works n) \<Longrightarrow> works (if b then m else n)"
  by simp

lemma works_seekS [works_intros]: "works (seekS bytes_ops off)"
  by (simp add: works_def seekS_def dropErr_def bytes_Seek_def Let_def)

lemma works_repeatS [works_intros]: "(\<And>i. works (m i)) \<Longrightarrow> works (repeatS n i m)"
  by (induction n arbitrary: i) (auto intro!: works_intros)

lemma works_readFieldInfo [works_intros]: "works (readFieldInfo (big bytes_ops) so dof)"
  by (auto simp: readFieldInfo_def Let_def intro!: works_intros calm_intros)

lemma works_readUsmRow [works_intros]: "works (readUsmRow (big bytes_ops) so dof fs row)"
  by (induction fs arbitrary: row) (auto intro!: works_intros calm_intros split: option.split)

lemma works_readUsmTable [works_intros]: "works (readUsmTable u)"
  by (auto simp: readUsmTable_def NewBinaryStream_big Let_def intro!: works_intros)

lemma works_on_bytes [works_intros]: "works m \<Longrightarrow> works (on_bytes d m)"
  unfolding works_def on_bytes_def by (metis fst_conv)

lemma works_readUsmUtf [works_intros]: "works (readUsmUtf (big bytes_ops))"
  by (auto simp: readUsmUtf_def intro!: works_intros calm_intros)

text \<open>Behind a right signature the table parser never fails.\<close>

lemma works_table:
  "works (bindS (readUsmUtf (big bytes_ops)) (\<lambda>u.
     bindS (dropErr (bsReadBytes (big bytes_ops) (uint (uu_tableSize u - 24)))) (\<lambda>tableData.
       on_bytes tableData (readUsmTable u))))"
  by (auto intro!: works_intros calm_intros)

lemma calm_getUTFTable [calm_intros]: "calm (getUTFTable (big bytes_ops))"
  unfolding getUTFTable_def by (intro calm_intros calm_checkErr calm_works [OF works_table]) simp_all

lemma calm_seek [calm_intros]: "calm (seekB (big bytes_ops) off)" "calm (seekCur (big bytes_ops) off)"
  by (auto simp: seekB_def intro: calm_works works_seekS) (auto simp: calm_def seekCur_def dropErr_def bytes_Seek_def Let_def)

lemma calm_ignoreS [calm_intros]: "calm m \<Longrightarrow> calm (ignoreS m)"
  by (fastforce simp: calm_def ignoreS_def split: prod.splits sum.splits if_splits)

lemma calm_gop_align [calm_intros]: "calm_gop (bsAlignStream (big bytes_ops) a)"
  by (auto simp: calm_gop_def bsAlignStream_def bytes_Seek_def Let_def split: if_splits)

lemma calm_parseUSMHeader: "calm (parseUSMHeader (big bytes_ops) fallbackName)"
  unfolding parseUSMHeader_def parseUSMHeaderChunks_def skipMetadataSection_def seekAndCheckSignature_def
    table_chunk_def header_end_chunk_def Let_def
  by (auto intro!: calm_intros calm_checkErr split: prod.split)

section \<open>Properties\<close>

text \<open>
  C21: demultiplexing undoes multiplexing. From a stream of masked chunks that ends with a chunk of
  \<open>#CONTENTS END\<close>, the files get exactly the plain payloads of their chunks, in order, whatever
  follows the end.
\<close>

theorem demux_inverts_masking:
  assumes "\<forall>c\<in>set cs. chunk_ok c \<and> \<not> is_end c" and "chunk_ok e" and "is_end e"
    and "br_rest r = concat (map (\<lambda>c. put_chunk (mask_chunk key c)) cs) @ put_chunk e @ ys"
  shows "fst (extractUSMChunks (NewBinaryStream bytes_ops ''big'') (Some (fst (getMask key)))
      (Some (snd (getMask key))) (new_file, Some new_file) r) =
    Inr (new_file\<lparr>wr_out := payloads ''@SFV'' cs\<rparr>, Some (new_file\<lparr>wr_out := payloads ''@SFA'' cs\<rparr>))"
proof -
  have "br_rest r = concat (map put_chunk (map (mask_chunk key) cs)) @ put_chunk e @ ys"
    using assms(4) by (simp add: o_def)
  note run = extract_stream [OF _ assms(2,3) this]
  show ?thesis
    using assms(1) deliver_chunks [where v = "[]" and oa = "Some []" and cs = "map (mask_chunk key) cs"
        and vmask = "Some (fst (getMask key))" and amask = "Some (snd (getMask key))"]
    by (subst NewBinaryStream_big, subst run)
      (auto simp: new_file_def o_def unmask_video unmask_audio concat_payloads)
qed

definition sample_video :: usm_chunk where
  "sample_video = \<lparr>ch_sig = bytes_of ''@SFV'', ch_mid = [0, 0, 0], ch_type = 0, ch_info = replicate 16 0,
     ch_payload = replicate 0x300 7, ch_padding = []\<rparr>"

definition sample_audio :: usm_chunk where
  "sample_audio = sample_video\<lparr>ch_sig := bytes_of ''@SFA'', ch_payload := replicate 0x150 9, ch_padding := replicate 16 0\<rparr>"

definition sample_end :: usm_chunk where
  "sample_end = sample_video\<lparr>ch_payload := bytes_of ''#CONTENTS END'', ch_padding := replicate 19 0\<rparr>"

theorem demux_inverts_masking_witness:
  "fst (extractUSMChunks (NewBinaryStream bytes_ops ''big'') (Some (fst (getMask 0x1122334455667788)))
      (Some (snd (getMask 0x1122334455667788))) (new_file, Some new_file)
      (new_reader (put_chunk (mask_chunk 0x1122334455667788 sample_video) @
        put_chunk (mask_chunk 0x1122334455667788 sample_audio) @ put_chunk sample_end))) =
    Inr (new_file\<lparr>wr_out := replicate 0x300 7\<rparr>, Some (new_file\<lparr>wr_out := replicate 0x150 9\<rparr>))"
proof -
  have sig: "string_of (bytes_of ''@SFV'') = ''@SFV''" "string_of (bytes_of ''@SFA'') = ''@SFA''"
    "length (bytes_of ''@SFV'') = 4" "length (bytes_of ''@SFA'') = 4" by code_simp+
  have ok: "chunk_ok sample_video" "chunk_ok sample_audio" "chunk_ok sample_end"
    by (simp_all add: chunk_ok_def sample_video_def sample_audio_def sample_end_def sig bytes_of_def)
  have no_end: "\<not> is_end sample_video" "\<not> is_end sample_audio"
    by (simp_all add: is_end_def sample_video_def sample_audio_def string_of_def numeral_eq_Suc)
  have fin: "is_end sample_end" by code_simp
  have "payloads ''@SFV'' [sample_video, sample_audio] = replicate 0x300 7"
    "payloads ''@SFA'' [sample_video, sample_audio] = replicate 0x150 9"
    by (simp_all add: payloads_def sample_video_def sample_audio_def sig)
  then show ?thesis
    using demux_inverts_masking [of "[sample_video, sample_audio]" sample_end
        "new_reader (put_chunk (mask_chunk 0x1122334455667788 sample_video) @
          put_chunk (mask_chunk 0x1122334455667788 sample_audio) @ put_chunk sample_end)"
        "0x1122334455667788" "[]"] ok no_end fin
    by (simp add: br_rest_def)
qed

text \<open>
  C24: the loop over the chunks ends on any bytes, and it reports nothing: a stream that is cut off or
  malformed, and a full disk, give a success with what was written. The one way to stop otherwise
  is the panic of a negative payload size.
\<close>

theorem demux_reports_no_error:
  "case fst (extractUSMChunks (NewBinaryStream bytes_ops ''big'') vmask amask w r) of
     Inl e \<Rightarrow> e = Panic ''makeslice: len out of range''
   | Inr _ \<Rightarrow> True"
  using extract_any [of vmask amask w r, unfolded makeslice_def]
  by (auto simp: NewBinaryStream_big split: sum.split)

text \<open>
  C23: whatever the bytes are, parsing the header of a movie, tables included, does not panic. The panics that the model of this
  code has are a \<open>make\<close> of negative length, in the tables and the entries, and the index \<open>len(entryTable)-1\<close> with which the name of
  the file is looked up: there the table may be empty.
\<close>

theorem usm_header_never_panics:
  "case fst (parseUSMHeader (NewBinaryStream bytes_ops ''big'') fallbackName r) of
     Inl e \<Rightarrow> \<not> is_panic e
   | Inr _ \<Rightarrow> True"
  using calmD [OF calm_parseUSMHeader, of fallbackName r]
  by (cases "parseUSMHeader (big bytes_ops) fallbackName r") (auto simp: NewBinaryStream_big split: sum.split)

text \<open>
  A video chunk whose header and padding sizes exceed its size makes the extraction panic.
\<close>

theorem negative_payload_panics:
  assumes "br_rest r = bytes_of ''@SFV'' @ be_bytes 4 (bs :: u32) @ be_bytes 2 (h :: u16) @ be_bytes 2 (f :: u16) @
      x @ [t] @ m @ body"
    and "length x = 3" and "length m = 16" and "13 \<le> length body"
    and "string_of (take 13 body) \<noteq> ''#CONTENTS END''"
    and "uint bs < uint h + uint f"
  shows "fst (extractUSMChunks (NewBinaryStream bytes_ops ''big'') vmask amask w r) =
    Inl (Panic ''makeslice: len out of range'')"
proof -
  have sig: "length (bytes_of ''@SFV'') = 4" by (simp add: bytes_of_def)
  note r1 = br_rest_adv [OF assms(1) sig]
  have "fst (demux_chunk (big bytes_ops) vmask amask (bytes_of ''@SFV'') w (adv 4 r)) =
      Inl (Panic ''makeslice: len out of range'')"
    by (rule demux_chunk_negative [OF r1 assms(2-6)]) code_simp
  then show ?thesis
    by (cases "demux_chunk (big bytes_ops) vmask amask (bytes_of ''@SFV'') w (adv 4 r)")
      (simp add: NewBinaryStream_big extractUSMChunks.simps [of _ _ _ w r] read_sig [OF assms(1) sig])
qed

theorem negative_payload_panics_witness:
  "fst (extractUSMChunks (NewBinaryStream bytes_ops ''big'') None None (new_file, None)
      (new_reader (bytes_of ''@SFV'' @ be_bytes 4 (8 :: u32) @ be_bytes 2 (24 :: u16) @ be_bytes 2 (0 :: u16) @
        replicate 3 0 @ [0] @ replicate 16 0 @ replicate 13 0))) =
    Inl (Panic ''makeslice: len out of range'')"
proof -
  have "string_of (take 13 (replicate 13 0)) \<noteq> ''#CONTENTS END''" by code_simp
  then show ?thesis
    by (intro negative_payload_panics [where ?x = "replicate 3 0" and t = 0 and ?m = "replicate 16 0"
          and body = "replicate 13 0" and bs = 8 and h = 24 and f = 0]) (simp_all add: br_rest_def)
qed

text \<open>
  The two parsers of this package read the header of a table differently. The one of \<open>usm.go\<close>
  leaves the version out, so that every number behind the size is taken two bytes too early: the row
  offset is the version, and the number of columns is the lower half of the offset of the table name.
\<close>

theorem usm_table_header_is_shifted:
  "fst (readHeader bytes_ops (new_reader (drop 4 (utf_header_bytes h) @ ys))) = Inr h \<and>
   fst (readUsmUtf (NewBinaryStream bytes_ops ''big'') (new_reader (drop 4 (utf_header_bytes h) @ ys))) =
     Inr \<lparr>uu_tableSize = TableSize h, uu_rowOffset = Version h,
       uu_stringTableOffset = push_bit 16 (ucast (RowOffset h)) OR ucast (ucast (drop_bit 16 (StringTableOffset h)) :: u16),
       uu_dataOffset = push_bit 16 (ucast (ucast (StringTableOffset h) :: u16)) OR ucast (ucast (drop_bit 16 (DataOffset h)) :: u16),
       uu_numberOfFields = ucast (TableNameOffset h),
       uu_numberOfRows = push_bit 16 (ucast (RowSize h)) OR ucast (ucast (drop_bit 16 (NumberOfRows h)) :: u16)\<rparr>"
proof
  let ?r = "new_reader (drop 4 (utf_header_bytes h) @ ys)"
  show "fst (readHeader bytes_ops ?r) = Inr h"
    by (rule readHeader_rest [of _ h ys]) (simp add: br_rest_def)
  have "br_rest ?r = be_bytes 4 (TableSize h) @ be_bytes 2 (Version h) @
      be_bytes 4 (push_bit 16 (ucast (RowOffset h)) OR ucast (ucast (drop_bit 16 (StringTableOffset h)) :: u16) :: u32) @
      be_bytes 4 (push_bit 16 (ucast (ucast (StringTableOffset h) :: u16)) OR ucast (ucast (drop_bit 16 (DataOffset h)) :: u16) :: u32) @
      be_bytes 4 (push_bit 16 (ucast (ucast (DataOffset h) :: u16)) OR ucast (ucast (drop_bit 16 (TableNameOffset h)) :: u16) :: u32) @
      be_bytes 2 (ucast (TableNameOffset h) :: u16) @ be_bytes 2 (NumberOfFields h) @
      be_bytes 4 (push_bit 16 (ucast (RowSize h)) OR ucast (ucast (drop_bit 16 (NumberOfRows h)) :: u16) :: u32) @
      be_bytes 2 (ucast (NumberOfRows h) :: u16) @ ys"
    unfolding be_word_halves [symmetric]
    by (simp add: br_rest_def utf_header_bytes_def be_bytes_halves [of "StringTableOffset h"]
        be_bytes_halves [of "DataOffset h"] be_bytes_halves [of "TableNameOffset h"] be_bytes_halves [of "NumberOfRows h"])
  from readUsmUtf_rest [OF this] show "fst (readUsmUtf (NewBinaryStream bytes_ops ''big'') ?r) = Inr
     \<lparr>uu_tableSize = TableSize h, uu_rowOffset = Version h,
       uu_stringTableOffset = push_bit 16 (ucast (RowOffset h)) OR ucast (ucast (drop_bit 16 (StringTableOffset h)) :: u16),
       uu_dataOffset = push_bit 16 (ucast (ucast (StringTableOffset h) :: u16)) OR ucast (ucast (drop_bit 16 (DataOffset h)) :: u16),
       uu_numberOfFields = ucast (TableNameOffset h),
       uu_numberOfRows = push_bit 16 (ucast (RowSize h)) OR ucast (ucast (drop_bit 16 (NumberOfRows h)) :: u16)\<rparr>"
    by (simp only: NewBinaryStream_big)
qed

end
