(* ===== verification/UsmMeta.thy ===== *)
theory UsmMeta
  imports UsmDemux GoStrings
begin

text \<open>
  \<open>internal/cricodecs/usm/metadata.go\<close>: the metadata of a USM movie. The tables are read with the
  parser of the ACB package through \<open>offsetReadSeeker\<close>, a reader that shifts another one; it is an
  instance of the locale \<open>seekable_reader\<close>, so the parser reads the bytes behind the offset.

  Shift-JIS decoding and the conversion of a \<open>float32\<close> to an integer are parameters. The JSON
  encoder of \<open>ExportMetadataFile\<close> is not modelled.
\<close>

section \<open>The shifted reader\<close>

text \<open>The state: the one of the base reader, and the position.\<close>

definition offset_Read :: "'s read_seeker \<Rightarrow> int \<Rightarrow> 's \<times> int \<Rightarrow> nat \<Rightarrow> (bytes \<times> go_err option) \<times> 's \<times> int" where
  "offset_Read R start = (\<lambda>(s, pos) n.
     case rs_seek R s (start + pos) SeekStart of
       ((_, Some e), s) \<Rightarrow> (([], Some e), (s, pos))
     | ((_, None), s) \<Rightarrow>
         (case rs_read R s n of ((got, e), s) \<Rightarrow> ((got, e), (s, pos + int (length got)))))"

definition offset_Seek :: "'s read_seeker \<Rightarrow> int \<Rightarrow> 's \<times> int \<Rightarrow> int \<Rightarrow> whence \<Rightarrow> (int \<times> go_err option) \<times> 's \<times> int" where
  "offset_Seek R start = (\<lambda>(s, pos) offset wh.
     if wh = SeekEnd then ((0, Some (Failure ''seek from end is not supported'')), (s, pos))
     else
       (let next' = (if wh = SeekStart then offset else pos + offset)
        in if next' < 0 then ((0, Some (Failure ''negative seek position'')), (s, pos))
           else case rs_seek R s (start + next') SeekStart of
             ((_, Some e), s) \<Rightarrow> ((0, Some e), (s, pos))
           | ((_, None), s) \<Rightarrow> ((next', None), (s, next'))))"

definition offset_ops :: "'s read_seeker \<Rightarrow> int \<Rightarrow> ('s \<times> int) read_seeker" where
  "offset_ops R start =
     \<lparr>rs_read = offset_Read R start, rs_seek = offset_Seek R start,
      rs_left = (\<lambda>(s, pos). rs_left R (snd (rs_seek R s (start + pos) SeekStart)))\<rparr>"

lemma offset_ops_simps [simp]:
  "rs_read (offset_ops R start) = offset_Read R start" "rs_seek (offset_ops R start) = offset_Seek R start"
  "rs_left (offset_ops R start) (s, pos) = rs_left R (snd (rs_seek R s (start + pos) SeekStart))"
  by (simp_all add: offset_ops_def)

text \<open>What it shows of the base reader.\<close>

definition offset_view :: "('s \<Rightarrow> byte_reader) \<Rightarrow> int \<Rightarrow> 's \<times> int \<Rightarrow> byte_reader" where
  "offset_view view start = (\<lambda>(s, pos). \<lparr>br_data = drop (nat start) (br_data (view s)), br_pos = nat pos\<rparr>)"

definition offset_ok :: "('s \<Rightarrow> byte_reader) \<Rightarrow> ('s \<Rightarrow> bool) \<Rightarrow> bytes \<Rightarrow> 's \<times> int \<Rightarrow> bool" where
  "offset_ok view ok d = (\<lambda>(s, pos). ok s \<and> 0 \<le> pos \<and> br_data (view s) = d)"

context seekable_reader begin

lemma base_seek:
  assumes "ok s" and "0 \<le> p"
  obtains u where "rs_seek R s p SeekStart = ((p, None), u)" and "view u = (view s)\<lparr>br_pos := nat p\<rparr>" and "ok u"
proof -
  obtain x u where u: "rs_seek R s p SeekStart = (x, u)" by (metis surj_pair)
  from simSD [OF seek_sim [OF assms(2)] assms(1) this] that [of u] u assms(2) show ?thesis
    by (auto simp: bytes_Seek_def)
qed

lemma base_read:
  assumes "ok s" and "rs_read R s n = (x, u)"
  shows "bytes_Read (view s) n = (x, view u)" and "ok u"
  using simSD [OF read_sim assms] by auto

lemma offset_reader:
  assumes start: "0 \<le> start"
  shows "seekable_reader (offset_ops R start) (offset_view view start) (offset_ok view ok d)"
proof
  fix n
  show "simS (offset_ok view ok d) (offset_view view start) (\<lambda>s. rs_read (offset_ops R start) s n)
      (\<lambda>r. bytes_Read r n)"
  proof (rule simSI)
    fix t q t'
    assume ok: "offset_ok view ok d t" and run: "rs_read (offset_ops R start) t n = (q, t')"
    obtain s pos where t: "t = (s, pos)" by (cases t)
    have s: "ok s" "0 \<le> pos" "br_data (view s) = d" using ok by (auto simp: offset_ok_def t)
    obtain u where u: "rs_seek R s (start + pos) SeekStart = ((start + pos, None), u)"
      "view u = (view s)\<lparr>br_pos := nat (start + pos)\<rparr>" "ok u"
      using base_seek [OF s(1), of "start + pos"] start s(2) by auto
    obtain got e w where w: "rs_read R u n = ((got, e), w)" by (metis surj_pair)
    note w' = base_read [OF u(3) w]
    have "view w = snd (bytes_Read (view u) n)" using w'(1) by simp
    then have data: "br_data (view w) = br_data (view s)" by (simp add: bytes_Read_def Let_def u(2))
    have q: "q = (got, e)" "t' = (w, pos + int (length got))"
      using run by (auto simp: t offset_Read_def u(1) w)
    show "bytes_Read (offset_view view start t) n = (q, offset_view view start t') \<and> offset_ok view ok d t'"
      using w' u(2) s start data unfolding q
      by (auto simp: t offset_view_def offset_ok_def bytes_Read_def nat_add_distrib Let_def ac_simps split: if_splits)
  qed
next
  show "simS (offset_ok view ok d) (offset_view view start) (\<lambda>s. rs_seek (offset_ops R start) s off SeekStart)
      (\<lambda>r. bytes_Seek r off SeekStart)" if off: "0 \<le> off" for off
  proof (rule simSI)
    fix t q t'
    assume ok: "offset_ok view ok d t" and run: "rs_seek (offset_ops R start) t off SeekStart = (q, t')"
    obtain s pos where t: "t = (s, pos)" by (cases t)
    have s: "ok s" "0 \<le> pos" "br_data (view s) = d" using ok by (auto simp: offset_ok_def t)
    obtain u where u: "rs_seek R s (start + off) SeekStart = ((start + off, None), u)"
      "view u = (view s)\<lparr>br_pos := nat (start + off)\<rparr>" "ok u"
      using base_seek [OF s(1), of "start + off"] start off by auto
    with run s off show "bytes_Seek (offset_view view start t) off SeekStart = (q, offset_view view start t') \<and>
        offset_ok view ok d t'"
      by (auto simp: t offset_Seek_def offset_view_def offset_ok_def bytes_Seek_def)
  qed
next
  show "simS (offset_ok view ok d) (offset_view view start) (\<lambda>s. rs_seek (offset_ops R start) s 0 SeekCurrent)
      (\<lambda>r. bytes_Seek r 0 SeekCurrent)"
  proof (rule simSI)
    fix t q t'
    assume ok: "offset_ok view ok d t" and run: "rs_seek (offset_ops R start) t 0 SeekCurrent = (q, t')"
    obtain s pos where t: "t = (s, pos)" by (cases t)
    have s: "ok s" "0 \<le> pos" "br_data (view s) = d" using ok by (auto simp: offset_ok_def t)
    obtain u where u: "rs_seek R s (start + pos) SeekStart = ((start + pos, None), u)"
      "view u = (view s)\<lparr>br_pos := nat (start + pos)\<rparr>" "ok u"
      using base_seek [OF s(1), of "start + pos"] start s(2) by auto
    with run s show "bytes_Seek (offset_view view start t) 0 SeekCurrent = (q, offset_view view start t') \<and>
        offset_ok view ok d t'"
      by (auto simp: t offset_Seek_def offset_view_def offset_ok_def bytes_Seek_def)
  qed
next
  fix t assume ok: "offset_ok view ok d t"
  obtain s pos where t: "t = (s, pos)" by (cases t)
  have s: "ok s" "0 \<le> pos" using ok by (auto simp: offset_ok_def t)
  obtain u where "rs_seek R s (start + pos) SeekStart = ((start + pos, None), u)"
    "view u = (view s)\<lparr>br_pos := nat (start + pos)\<rparr>" "ok u"
    using base_seek [OF s(1), of "start + pos"] start s(2) by auto
  with s start left_eq [of u] show "rs_left (offset_ops R start) t =
      length (br_data (offset_view view start t)) - br_pos (offset_view view start t)"
    by (simp add: t offset_view_def nat_add_distrib)
qed

end

text \<open>The shifted byte reader.\<close>

interpretation offset_bytes:
  seekable_reader "offset_ops bytes_ops (int k)" "offset_view (\<lambda>r. r) (int k)" "offset_ok (\<lambda>r. r) (\<lambda>_. True) d"
  for k d
  by (rule bytes_reader.offset_reader) simp

section \<open>The code\<close>

text \<open>The state behind the parser's reader.\<close>

definition readDetailedUTFTable :: "'s BinaryStream \<Rightarrow> int \<Rightarrow> ('s, UTFTable) io" where
  "readDetailedUTFTable B offset s =
     (case wrapErr ''parse UTF table'' (NewUTFTable (offset_ops (BaseStream B) offset)) (s, 0) of
        (r, (s', _)) \<Rightarrow> (r, s'))"

subsection \<open>Text\<close>

definition RuneError :: nat where "RuneError = 0xFFFD"

text \<open>\<open>unicode.IsControl\<close>, and \<open>unicode.IsSpace\<close> on control characters.\<close>

definition isControl :: "nat \<Rightarrow> bool" where
  "isControl r \<longleftrightarrow> r < 0x20 \<or> (0x7F \<le> r \<and> r < 0xA0)"

definition isSpaceControl :: "nat \<Rightarrow> bool" where
  "isSpaceControl r \<longleftrightarrow> (9 \<le> r \<and> r \<le> 13) \<or> r = 0x85"

definition isMostlyText :: "string \<Rightarrow> bool" where
  "isMostlyText s = list_all (\<lambda>r. r \<noteq> RuneError \<and> \<not> (isControl r \<and> \<not> isSpaceControl r)) (string_runes s)"

definition hex_digit :: "nat \<Rightarrow> char" where
  "hex_digit n = (if n < 10 then char_of (48 + n) else char_of (87 + n))"

definition hexEncode :: "bytes \<Rightarrow> string" where
  "hexEncode bs = concat (map (\<lambda>b. [hex_digit (unat b div 16), hex_digit (unat b mod 16)]) bs)"

definition decodeTextBytes :: "(bytes \<Rightarrow> go_err + string) \<Rightarrow> bytes \<Rightarrow> string option" where
  "decodeTextBytes sj data =
     (if data = [] then Some []
      else if valid_utf8 (string_of data) \<and> isMostlyText (string_of data) then Some (string_of data)
      else case sj data of
        Inr text \<Rightarrow> if isMostlyText text then Some text else None
      | Inl _ \<Rightarrow> None)"

definition decodeTextString :: "(bytes \<Rightarrow> go_err + string) \<Rightarrow> string \<Rightarrow> string option" where
  "decodeTextString sj text =
     (if valid_utf8 text \<and> isMostlyText text then Some text else decodeTextBytes sj (bytes_of text))"

definition stringifyBytes :: "(bytes \<Rightarrow> go_err + string) \<Rightarrow> bytes \<Rightarrow> string" where
  "stringifyBytes sj data = (case decodeTextBytes sj data of Some text \<Rightarrow> text | None \<Rightarrow> hexEncode data)"

definition stringifyMetadataValue :: "(bytes \<Rightarrow> go_err + string) \<Rightarrow> gval \<Rightarrow> string option" where
  "stringifyMetadataValue sj v =
     (case v of
        VBytes bs \<Rightarrow> Some (stringifyBytes sj bs)
      | VString s \<Rightarrow> Some (case decodeTextString sj s of Some text \<Rightarrow> text | None \<Rightarrow> hexEncode (bytes_of s))
      | _ \<Rightarrow> None)"

text \<open>
  A normalised cell: text, the summary of binary data (its keys \<open>size\<close>, \<open>preview_hex\<close> and
  \<open>truncated\<close>, the last two if present), or the value itself. The tables hold no nested values.
\<close>

datatype mval =
    MText string
  | MBinary nat "string option" bool
  | MOther gval

definition summarizeBinary :: "bytes \<Rightarrow> mval" where
  "summarizeBinary data =
     (if data = [] then MBinary 0 None False
      else MBinary (length data) (Some (hexEncode (take 32 data))) (32 < length data))"

definition normalizeMetadataValue :: "(bytes \<Rightarrow> go_err + string) \<Rightarrow> gval \<Rightarrow> mval" where
  "normalizeMetadataValue sj v =
     (case v of
        VString s \<Rightarrow> (case decodeTextString sj s of Some text \<Rightarrow> MText text | None \<Rightarrow> summarizeBinary (bytes_of s))
      | VBytes bs \<Rightarrow> (case decodeTextBytes sj bs of Some text \<Rightarrow> MText text | None \<Rightarrow> summarizeBinary bs)
      | _ \<Rightarrow> MOther v)"

type_synonym mrow = "string \<rightharpoonup> mval"

definition normalizeRows :: "(bytes \<Rightarrow> go_err + string) \<Rightarrow> row list \<Rightarrow> mrow list" where
  "normalizeRows sj rows = map (\<lambda>row k. map_option (normalizeMetadataValue sj) (row k)) rows"

text \<open>The data of a section: a marker, or a table with its name, number of rows and rows.\<close>

datatype section_data = SMarker string | STable mval nat "mrow list"

definition normalizeDetailedUTFTable :: "(bytes \<Rightarrow> go_err + string) \<Rightarrow> UTFTable \<Rightarrow> section_data" where
  "normalizeDetailedUTFTable sj t =
     STable (normalizeMetadataValue sj (VString (table_Name t))) (length (Rows t)) (normalizeRows sj (Rows t))"

subsection \<open>Sections\<close>

record MetadataSection =
  Kind :: string
  Signature :: string
  Offset :: int
  BlockSize :: u32
  Data :: section_data

record Metadata =
  InputFile :: string
  ContainerFilename :: string
  HasAudio :: bool
  StreamOffset :: int
  Sections :: "MetadataSection list"

definition extractContainerFilename :: "(bytes \<Rightarrow> go_err + string) \<Rightarrow> row list \<Rightarrow> bytes \<Rightarrow> string" where
  "extractContainerFilename sj rows fallbackName =
     (case (if rows = [] then None else Option.bind (last rows ''filename'') (stringifyMetadataValue sj)) of
        Some fn \<Rightarrow> fn
      | None \<Rightarrow> stringifyBytes sj fallbackName)"

definition readUTFSection ::
    "(bytes \<Rightarrow> go_err + string) \<Rightarrow> 's BinaryStream \<Rightarrow> int \<Rightarrow> string \<Rightarrow> string \<Rightarrow> ('s, MetadataSection \<times> int) io" where
  "readUTFSection sj B offset expectedSignature kind =
     bindS (seekAndCheckSignature B offset expectedSignature) (\<lambda>_.
     bindS (dropErr (bsReadUInt32 B)) (\<lambda>blockSize.
     bindS (seekB B (offset + 0x20)) (\<lambda>_.
     bindS (readDetailedUTFTable B (offset + 0x20)) (\<lambda>table.
       returnS (\<lparr>Kind = kind, Signature = expectedSignature, Offset = offset, BlockSize = blockSize,
                 Data = normalizeDetailedUTFTable sj table\<rparr>, chunk_end offset blockSize)))))"

definition readMarkerSection ::
    "'s BinaryStream \<Rightarrow> int \<Rightarrow> string \<Rightarrow> string \<Rightarrow> string \<Rightarrow> ('s, MetadataSection \<times> int) io" where
  "readMarkerSection B offset expectedSignature kind marker =
     bindS (seekAndCheckSignature B offset expectedSignature) (\<lambda>_.
     bindS (dropErr (bsReadUInt32 B)) (\<lambda>blockSize.
     bindS (seekB B (offset + 0x20)) (\<lambda>_.
     bindS (checkErr (bsReadStringLength B (int (length marker)))) (\<lambda>value.
     if string_of value \<noteq> marker then throwS (Failure ''expected marker'')
     else
       returnS (\<lparr>Kind = kind, Signature = expectedSignature, Offset = offset, BlockSize = blockSize,
                 Data = SMarker marker\<rparr>, chunk_end offset blockSize)))))"

definition readMetadataEndSection :: "'s BinaryStream \<Rightarrow> int \<Rightarrow> ('s, MetadataSection \<times> int) io" where
  "readMetadataEndSection B offset =
     bindS (seekAndCheckSignature B offset ''@SFV'') (\<lambda>_.
     bindS (dropErr (bsReadUInt32 B)) (\<lambda>blockSize.
     bindS (seekB B (offset + 0x20)) (\<lambda>_.
     bindS (checkErr (bsReadStringLength B 13)) (\<lambda>value.
     if string_of value \<noteq> ''#METADATA END'' then throwS (Failure ''expected #METADATA END'')
     else
     bindS (checkErr (bsAlignStream B 4)) (\<lambda>_.
     bindS (checkErr (\<lambda>s. rs_seek (BaseStream B) s 16 SeekCurrent)) (\<lambda>streamOffset.
       returnS (\<lparr>Kind = ''video_metadata_end'', Signature = ''@SFV'', Offset = offset, BlockSize = blockSize,
                 Data = SMarker ''#METADATA END''\<rparr>, streamOffset)))))))"

definition readSignatureAt :: "'s BinaryStream \<Rightarrow> int \<Rightarrow> ('s, string) io" where
  "readSignatureAt B offset =
     bindS (checkErr (\<lambda>s. rs_seek (BaseStream B) s offset SeekStart)) (\<lambda>_.
     mapS string_of (checkErr (bsReadStringLength B 4)))"

text \<open>The optional audio header, and the chunks that end the headers.\<close>

definition readAudioHeader ::
    "(bytes \<Rightarrow> go_err + string) \<Rightarrow> 's BinaryStream \<Rightarrow> MetadataSection list \<Rightarrow> int \<Rightarrow> string \<Rightarrow>
     ('s, bool \<times> MetadataSection list \<times> int \<times> string) io" where
  "readAudioHeader sj B sections offset nextSig =
     (if nextSig = ''@SFA'' then
        bindS (readUTFSection sj B offset ''@SFA'' ''audio_header'') (\<lambda>(audioHeader, offset).
        bindS (readSignatureAt B offset) (\<lambda>nextSig.
          returnS (True, sections @ [audioHeader], offset, nextSig)))
      else returnS (False, sections, offset, nextSig))"

definition readHeaderEnds ::
    "'s BinaryStream \<Rightarrow> bool \<Rightarrow> MetadataSection list \<Rightarrow> int \<Rightarrow> ('s, MetadataSection list \<times> int) io" where
  "readHeaderEnds B hasAudio sections offset =
     bindS (readMarkerSection B offset ''@SFV'' ''video_header_end'' ''#HEADER END'') (\<lambda>(videoHeaderEnd, offset).
     if hasAudio then
       bindS (readMarkerSection B offset ''@SFA'' ''audio_header_end'' ''#HEADER END'')
         (\<lambda>(audioHeaderEnd, offset). returnS (sections @ [videoHeaderEnd, audioHeaderEnd], offset))
     else returnS (sections @ [videoHeaderEnd], offset))"

definition readMetadataSections ::
    "(bytes \<Rightarrow> go_err + string) \<Rightarrow> 's BinaryStream \<Rightarrow> int \<Rightarrow> ('s, bool \<times> MetadataSection list \<times> int) io" where
  "readMetadataSections sj B offset =
     bindS (readUTFSection sj B offset ''@SFV'' ''video_header'') (\<lambda>(videoHeader, offset).
     bindS (readSignatureAt B offset) (\<lambda>nextSig.
     bindS (readAudioHeader sj B [videoHeader] offset nextSig) (\<lambda>(hasAudio, sections, offset, nextSig).
     if nextSig \<noteq> ''@SFV'' then throwS (Failure ''expected @SFV signature'')
     else
     bindS (readHeaderEnds B hasAudio sections offset) (\<lambda>(sections, offset).
     bindS (readUTFSection sj B offset ''@SFV'' ''video_metadata'') (\<lambda>(videoMetadata, offset).
     bindS (readMetadataEndSection B offset) (\<lambda>(videoMetadataEnd, streamOffset).
       returnS (hasAudio, sections @ [videoMetadata, videoMetadataEnd], streamOffset)))))))"

definition ReadMetadata :: "(bytes \<Rightarrow> go_err + string) \<Rightarrow> 's read_seeker \<Rightarrow> bytes \<Rightarrow> ('s, Metadata) io" where
  "ReadMetadata sj R fallbackName =
     (let B = NewBinaryStream R ''big'' in
      bindS (wrapErr ''invalid CRID signature'' (checkErr (bsReadStringLength B 4))) (\<lambda>sig.
      if string_of sig \<noteq> ''CRID'' then throwS (Failure ''invalid CRID signature'')
      else
      bindS (dropErr (bsReadUInt32 B)) (\<lambda>blockSize.
      bindS (readDetailedUTFTable B 0x20) (\<lambda>entryTable.
      bindS (readMetadataSections sj B (chunk_end 0 blockSize)) (\<lambda>(hasAudio, sections, streamOffset).
        returnS \<lparr>InputFile = [],
          ContainerFilename = extractContainerFilename sj (Rows entryTable) fallbackName,
          HasAudio = hasAudio, StreamOffset = streamOffset,
          Sections = \<lparr>Kind = ''crid'', Signature = ''CRID'', Offset = 0, BlockSize = blockSize,
            Data = normalizeDetailedUTFTable sj entryTable\<rparr> # sections\<rparr>)))))"

subsection \<open>The frame rate\<close>

text \<open>\<open>int\<close> has 64 bits; \<open>f32\<close> is the conversion of a \<open>float32\<close>.\<close>

definition metadataNumberToInt :: "(u32 \<Rightarrow> int) \<Rightarrow> mval option \<Rightarrow> int option" where
  "metadataNumberToInt f32 v =
     (case v of
        Some (MOther (VInt i)) \<Rightarrow> Some i
      | Some (MOther (VInt8 w)) \<Rightarrow> Some (sint w)
      | Some (MOther (VInt16 w)) \<Rightarrow> Some (sint w)
      | Some (MOther (VInt32 w)) \<Rightarrow> Some (sint w)
      | Some (MOther (VInt64 w)) \<Rightarrow> Some (sint w)
      | Some (MOther (VUint8 w)) \<Rightarrow> Some (uint w)
      | Some (MOther (VUint16 w)) \<Rightarrow> Some (uint w)
      | Some (MOther (VUint32 w)) \<Rightarrow> Some (uint w)
      | Some (MOther (VUint64 w)) \<Rightarrow> Some (sint w)
      | Some (MOther (VFloat32 w)) \<Rightarrow> Some (f32 w)
      | _ \<Rightarrow> None)"

definition VideoFrameRate :: "(u32 \<Rightarrow> int) \<Rightarrow> Metadata \<Rightarrow> (int \<times> int) option" where
  "VideoFrameRate f32 m =
     (case List.find (\<lambda>sec. Kind sec = ''video_header'') (Sections m) of
        None \<Rightarrow> None
      | Some sec \<Rightarrow>
          (case Data sec of
             STable _ _ (row # _) \<Rightarrow>
               (case metadataNumberToInt f32 (row ''framerate_n'') of
                  None \<Rightarrow> None
                | Some numerator \<Rightarrow>
                    (case metadataNumberToInt f32 (row ''framerate_d'') of
                       None \<Rightarrow> None
                     | Some denominator \<Rightarrow>
                         if denominator = 0 then None else Some (numerator, denominator)))
           | _ \<Rightarrow> None))"

definition ReadMetadataFile ::
    "(bytes \<Rightarrow> go_err + string) \<Rightarrow> (string \<Rightarrow> go_err + bytes) \<Rightarrow> string \<Rightarrow> go_err + Metadata" where
  "ReadMetadataFile sj open_file usmPath =
     bindR (open_file usmPath) (\<lambda>contents.
     bindR (fst (ReadMetadata sj bytes_ops (bytes_of (Base usmPath)) (new_reader contents))) (\<lambda>metadata.
       Inr (metadata\<lparr>InputFile := usmPath\<rparr>)))"

definition ReadVideoFrameRateFile ::
    "(u32 \<Rightarrow> int) \<Rightarrow> (bytes \<Rightarrow> go_err + string) \<Rightarrow> (string \<Rightarrow> go_err + bytes) \<Rightarrow> string \<Rightarrow> go_err + (int \<times> int)" where
  "ReadVideoFrameRateFile f32 sj open_file usmPath =
     bindR (ReadMetadataFile sj open_file usmPath) (\<lambda>metadata.
       case VideoFrameRate f32 metadata of
         Some rate \<Rightarrow> Inr rate
       | None \<Rightarrow> Inl (Failure ''video frame rate not found in metadata''))"

section \<open>The table behind an offset\<close>

lemma detailed_table_bytes:
  "\<exists>r'. readDetailedUTFTable (big bytes_ops) (int k) r =
     (fst (wrapErr ''parse UTF table'' (NewUTFTable bytes_ops) (new_reader (drop k (br_data r)))), r') \<and>
     br_data r' = br_data r"
proof -
  let ?ok = "offset_ok (\<lambda>r. r) (\<lambda>_. True) (br_data r)"
  obtain x u where u: "wrapErr ''parse UTF table'' (NewUTFTable (offset_ops bytes_ops (int k))) (r, 0) = (x, u)"
    by (metis surj_pair)
  have "simS ?ok (offset_view (\<lambda>r. r) (int k)) (wrapErr ''parse UTF table'' (NewUTFTable (offset_ops bytes_ops (int k))))
      (wrapErr ''parse UTF table'' (NewUTFTable bytes_ops))"
    by (intro simS_wrapErr offset_bytes.NewUTFTable_sim)
  from simSD [OF this _ u] have
    "wrapErr ''parse UTF table'' (NewUTFTable bytes_ops) (new_reader (drop k (br_data r))) = (x, offset_view (\<lambda>r. r) (int k) u)"
    "?ok u"
    by (simp_all add: offset_ok_def offset_view_def new_reader_def)
  with u show ?thesis
    by (auto simp: readDetailedUTFTable_def offset_ok_def split: prod.splits)
qed

section \<open>The layout of the header\<close>

text \<open>The signature and the size of the chunk at an offset, the next chunk, and the marker in it.\<close>

definition sig_at :: "bytes \<Rightarrow> nat \<Rightarrow> string" where
  "sig_at d p = string_of (padded 4 (drop p d))"

definition size_at :: "bytes \<Rightarrow> nat \<Rightarrow> u32" where
  "size_at d p = be_word (padded 4 (drop (p + 4) d))"

definition next_at :: "bytes \<Rightarrow> nat \<Rightarrow> nat" where
  "next_at d p = p + unat (8 + size_at d p)"

definition marker_at :: "bytes \<Rightarrow> nat \<Rightarrow> string \<Rightarrow> bool" where
  "marker_at d p m \<longleftrightarrow> string_of (take (length m) (drop (p + 0x20) d)) = m"

text \<open>
  The chunks of the header from an offset on: whether there is audio, the offset of the metadata
  chunk and the offset of the chunk that ends the metadata.
\<close>

definition header_layout :: "bytes \<Rightarrow> nat \<Rightarrow> bool \<Rightarrow> nat \<Rightarrow> nat \<Rightarrow> bool" where
  "header_layout d p audio q e \<longleftrightarrow>
     (let p1 = next_at d p;
          p2 = (if audio then next_at d p1 else p1);
          p3 = next_at d p2
      in sig_at d p = ''@SFV'' \<and> (audio \<longleftrightarrow> sig_at d p1 = ''@SFA'') \<and> sig_at d p2 = ''@SFV'' \<and>
         marker_at d p2 ''#HEADER END'' \<and>
         (audio \<longrightarrow> sig_at d p3 = ''@SFA'' \<and> marker_at d p3 ''#HEADER END'') \<and>
         q = (if audio then next_at d p3 else p3) \<and> sig_at d q = ''@SFV'' \<and>
         e = next_at d q \<and> sig_at d e = ''@SFV'' \<and> marker_at d e ''#METADATA END'')"

definition stream_start :: "nat \<Rightarrow> nat" where
  "stream_start e = (let p = e + 45 in (if p mod 4 = 0 then p else p + (4 - p mod 4)) + 16)"

lemma chunk_end_at: "chunk_end (int p) (size_at d p) = int (next_at d p)"
  by (simp add: chunk_end_def next_at_def)

subsection \<open>Reads at a position\<close>

lemma br_rest_at: "br_rest (r\<lparr>br_pos := p\<rparr>) = drop p (br_data r)"
  by (simp add: br_rest_def)

lemma check_signature:
  "seekAndCheckSignature (big bytes_ops) (int p) sg r =
     (if sig_at (br_data r) p = sg then Inr () else Inl (Failure ''expected signature''),
      skip 4 (r\<lparr>br_pos := p\<rparr>))"
  unfolding seekAndCheckSignature_def
  by (simp add: bind_seekB bsReadStringLength_def)
    (auto simp: bindS_def dropErr_def bsReadBytes_bytes br_rest_at sig_at_def returnS_def throwS_def
      split: option.split dest: full_err_no_panic)

lemma bind_size:
  "bindS (dropErr (bsReadUInt32 (big bytes_ops))) f (skip 4 (r\<lparr>br_pos := p\<rparr>)) =
     f (size_at (br_data r) p) (skip 4 (skip 4 (r\<lparr>br_pos := p\<rparr>)))"
  by (auto simp: bindS_def dropErr_def bsReadUInt32_def bs_word_bytes br_rest_at size_at_def add.commute
      split: option.split dest: full_err_no_panic)

lemma bind_check:
  "bindS (seekAndCheckSignature (big bytes_ops) (int p) sg) f r =
     (if sig_at (br_data r) p = sg then f () (skip 4 (r\<lparr>br_pos := p\<rparr>))
      else (Inl (Failure ''expected signature''), skip 4 (r\<lparr>br_pos := p\<rparr>)))"
  by (simp add: bindS_def check_signature)

lemma bind_seek_p [simp]:
  "bindS (seekB (big bytes_ops) (int p + 0x20)) f r = f (int p + 0x20) (r\<lparr>br_pos := p + 0x20\<rparr>)"
  by (simp add: bind_seekB nat_add_distrib)

lemma checked_string:
  assumes "checkErr (bsReadStringLength (big bytes_ops) n) r = (Inr v, r')" and "0 \<le> n"
  shows "v = take (nat n) (br_rest r) \<and> r' = skip (nat n) r"
  using assms by (auto simp: checkErr_Inr_iff bsReadStringLength_def bsReadBytes_bytes full_err_def padded_le split: if_splits)

lemma skip_pos [simp]: "(skip n r)\<lparr>br_pos := p\<rparr> = r\<lparr>br_pos := p\<rparr>"
  by (simp add: skip_def)

subsection \<open>What the metadata reader has seen\<close>

lemma readUTFSection_bytes:
  assumes "readUTFSection sj (big bytes_ops) (int p) sg kind r = (Inr (sec, p'), r')"
  shows "sig_at (br_data r) p = sg \<and> p' = int (next_at (br_data r) p) \<and> br_data r' = br_data r"
proof -
  obtain u where u: "readDetailedUTFTable (big bytes_ops) (int (p + 0x20)) (r\<lparr>br_pos := p + 0x20\<rparr>) =
     (fst (wrapErr ''parse UTF table'' (NewUTFTable bytes_ops) (new_reader (drop (p + 0x20) (br_data r)))), u)"
     "br_data u = br_data r"
    using detailed_table_bytes [of "p + 0x20" "r\<lparr>br_pos := p + 0x20\<rparr>"] by auto
  then show ?thesis
    using assms unfolding readUTFSection_def
    by (auto simp: bind_check bind_size chunk_end_at split: if_splits elim!: bindS_InrE)
qed

lemma readMarkerSection_bytes:
  assumes "readMarkerSection (big bytes_ops) (int p) sg kind marker r = (Inr (sec, p'), r')"
  shows "sig_at (br_data r) p = sg \<and> marker_at (br_data r) p marker \<and>
    p' = int (next_at (br_data r) p) \<and> br_data r' = br_data r"
  using assms unfolding readMarkerSection_def
  by (auto simp: bind_check bind_size chunk_end_at marker_at_def br_rest_at split: if_splits elim!: bindS_InrE
      dest!: checked_string)

lemma readSignatureAt_bytes:
  assumes "readSignatureAt (big bytes_ops) (int p) r = (Inr sg, r')"
  shows "sg = sig_at (br_data r) p \<and> br_data r' = br_data r"
proof -
  have seek: "bindS (checkErr (\<lambda>s. bytes_Seek s (int p) SeekStart)) f r = f (int p) (r\<lparr>br_pos := p\<rparr>)" for f
    by (simp add: bindS_def checkErr_def bytes_Seek_def)
  obtain v where "checkErr (bsReadStringLength (big bytes_ops) 4) (r\<lparr>br_pos := p\<rparr>) = (Inr v, r')" "sg = string_of v"
    using assms unfolding readSignatureAt_def by (auto simp: seek elim!: mapS_InrE)
  then show ?thesis
    by (auto simp: checkErr_Inr_iff bsReadStringLength_def bsReadBytes_bytes br_rest_at sig_at_def)
qed

lemma align4_bytes:
  "bsAlignStream (big bytes_ops) 4 r =
     (((), None), r\<lparr>br_pos := (if br_pos r mod 4 = 0 then br_pos r else br_pos r + (4 - br_pos r mod 4))\<rparr>)"
proof -
  have "int (br_pos r) mod 4 = int (br_pos r mod 4)" by (simp add: zmod_int)
  moreover have "br_pos r mod 4 < 4" by simp
  ultimately show ?thesis by (auto simp: bsAlignStream_def bytes_Seek_def Let_def)
qed

lemma padded_no_zero:
  assumes "0 \<notin> set (padded n bs)"
  shows "n \<le> length bs"
  using assms by (auto simp: padded_def)

lemma sig_at_length:
  assumes "sig_at d p = ''@SFV''"
  shows "p + 4 \<le> length d"
proof -
  have "padded 4 (drop p d) = bytes_of ''@SFV''"
    using arg_cong [OF assms, of bytes_of] by (simp add: sig_at_def)
  moreover have "0 \<notin> set (bytes_of ''@SFV'')" by (simp add: bytes_of_def)
  ultimately have "0 \<notin> set (padded 4 (drop p d))" by simp
  then have "4 \<le> length (drop p d)" by (rule padded_no_zero)
  then show ?thesis by simp
qed

lemma take_marker: "string_of (take n bs) = m \<Longrightarrow> length m = n \<Longrightarrow> n \<le> length bs"
  using length_string_of [of "take n bs"] by simp

lemma readMetadataEndSection_bytes:
  assumes "readMetadataEndSection (big bytes_ops) (int e) r = (Inr (sec, off), r')"
  shows "sig_at (br_data r) e = ''@SFV'' \<and> marker_at (br_data r) e ''#METADATA END'' \<and>
    off = int (stream_start e)"
proof -
  let ?S = "\<lambda>s. bytes_Seek s 16 SeekCurrent"
  obtain v u w where sg: "sig_at (br_data r) e = ''@SFV''"
    and v: "checkErr (bsReadStringLength (big bytes_ops) 13) (r\<lparr>br_pos := e + 0x20\<rparr>) = (Inr v, u)"
    and m: "string_of v = ''#METADATA END''"
    and w: "checkErr (bsAlignStream (big bytes_ops) 4) u = (Inr (), w)" "checkErr ?S w = (Inr off, r')"
    using assms unfolding readMetadataEndSection_def
    by (auto simp: bind_check bind_size split: if_splits elim!: bindS_InrE)
  from checked_string [OF v] have v': "v = take 13 (drop (e + 0x20) (br_data r))" "u = skip 13 (r\<lparr>br_pos := e + 0x20\<rparr>)"
    by (simp_all add: br_rest_at)
  have "13 \<le> length (drop (e + 0x20) (br_data r))"
    using m v'(1) by (intro take_marker [of _ _ "''#METADATA END''"]) simp_all
  then have u: "br_pos u = e + 45" by (simp add: v'(2) br_rest_at)
  have "off = int (stream_start e)"
    using w by (auto simp: checkErr_def align4_bytes bytes_Seek_def u stream_start_def Let_def)
  then show ?thesis using sg m v'(1) by (simp add: marker_at_def numeral_eq_Suc)
qed

lemma readAudioHeader_bytes:
  assumes "readAudioHeader sj (big bytes_ops) secs (int p) (sig_at (br_data r) p) r = (Inr (audio, secs', off, sg), r')"
  shows "audio = (sig_at (br_data r) p = ''@SFA'') \<and>
    off = int (if audio then next_at (br_data r) p else p) \<and> sg = sig_at (br_data r) (nat off) \<and>
    br_data r' = br_data r"
  using assms unfolding readAudioHeader_def
  by (auto elim!: bindS_InrE dest!: readUTFSection_bytes readSignatureAt_bytes split: if_splits)

lemma readHeaderEnds_bytes:
  assumes "readHeaderEnds (big bytes_ops) audio secs (int p) r = (Inr (secs', off), r')"
  shows "sig_at (br_data r) p = ''@SFV'' \<and> marker_at (br_data r) p ''#HEADER END'' \<and>
    (audio \<longrightarrow> sig_at (br_data r) (next_at (br_data r) p) = ''@SFA'' \<and>
      marker_at (br_data r) (next_at (br_data r) p) ''#HEADER END'') \<and>
    off = int (if audio then next_at (br_data r) (next_at (br_data r) p) else next_at (br_data r) p) \<and>
    br_data r' = br_data r"
  using assms unfolding readHeaderEnds_def
  by (cases audio) (auto elim!: bindS_InrE dest!: readMarkerSection_bytes)

lemma readMetadataSections_bytes:
  assumes "readMetadataSections sj (big bytes_ops) (int p) r = (Inr (audio, secs, off), r')"
  shows "\<exists>q e. header_layout (br_data r) p audio q e \<and> off = int (stream_start e)"
proof -
  let ?B = "big bytes_ops"
  obtain vh o1 r1 sg r2 audio' s3 o3 sg3 r3 s4 o4 r4 vm o5 r5 me o6 where
    a: "readUTFSection sj ?B (int p) ''@SFV'' ''video_header'' r = (Inr (vh, o1), r1)"
    "readSignatureAt ?B o1 r1 = (Inr sg, r2)"
    "readAudioHeader sj ?B [vh] o1 sg r2 = (Inr (audio', s3, o3, sg3), r3)" "sg3 = ''@SFV''"
    "readHeaderEnds ?B audio' s3 o3 r3 = (Inr (s4, o4), r4)"
    "readUTFSection sj ?B o4 ''@SFV'' ''video_metadata'' r4 = (Inr (vm, o5), r5)"
    "readMetadataEndSection ?B o5 r5 = (Inr (me, o6), r')" "audio' = audio" "o6 = off"
    using assms unfolding readMetadataSections_def by (auto elim!: bindS_InrE split: if_splits)
  have b1: "sig_at (br_data r) p = ''@SFV''" "o1 = int (next_at (br_data r) p)" "br_data r1 = br_data r"
    using readUTFSection_bytes [OF a(1)] by simp_all
  have b2: "sg = sig_at (br_data r) (next_at (br_data r) p)" "br_data r2 = br_data r"
    using readSignatureAt_bytes [OF a(2) [unfolded b1(2)]] b1 by simp_all
  let ?p1 = "next_at (br_data r) p"
  let ?p2 = "if audio then next_at (br_data r) ?p1 else ?p1"
  have b3: "audio = (sig_at (br_data r) ?p1 = ''@SFA'')" "o3 = int ?p2" "sg3 = sig_at (br_data r) ?p2" "br_data r3 = br_data r"
  proof -
    have "readAudioHeader sj ?B [vh] (int ?p1) (sig_at (br_data r2) ?p1) r2 = (Inr (audio, s3, o3, sg3), r3)"
      using a(3,8) b1(2) b2 by simp
    from readAudioHeader_bytes [OF this, unfolded b2(2)]
    show "audio = (sig_at (br_data r) ?p1 = ''@SFA'')" "o3 = int ?p2" "sg3 = sig_at (br_data r) ?p2"
      "br_data r3 = br_data r" by (cases audio; simp)+
  qed
  let ?p3 = "next_at (br_data r) ?p2"
  let ?q = "if audio then next_at (br_data r) ?p3 else ?p3"
  note b4 = readHeaderEnds_bytes [OF a(5) [unfolded b3(2) a(8)], unfolded b3(4)]
  have o4: "o4 = int ?q" "br_data r4 = br_data r" using b4 by simp_all
  note b5 = readUTFSection_bytes [OF a(6) [unfolded o4(1)], unfolded o4(2)]
  have o5: "o5 = int (next_at (br_data r) ?q)" "br_data r5 = br_data r" using b5 by simp_all
  note b6 = readMetadataEndSection_bytes [OF a(7) [unfolded o5(1)], unfolded o5(2)]
  have "header_layout (br_data r) p audio ?q (next_at (br_data r) ?q)"
    unfolding header_layout_def Let_def using b1(1) b3(1) b4 b5 b6 by blast
  with b6 a(9) show ?thesis by blast
qed

subsection \<open>What the demultiplexer does on the same bytes\<close>

definition after_table :: "nat \<Rightarrow> byte_reader \<Rightarrow> byte_reader" where
  "after_table p r = snd (ignoreS (getUTFTable (big bytes_ops)) (r\<lparr>br_pos := p + 0x20\<rparr>))"

lemma ignored_table:
  "ignoreS (getUTFTable (big bytes_ops)) (r\<lparr>br_pos := p + 0x20\<rparr>) = (Inr (), after_table p r)"
  "br_data (after_table p r) = br_data r"
proof -
  obtain x u where x: "getUTFTable (big bytes_ops) (r\<lparr>br_pos := p + 0x20\<rparr>) = (x, u)" by (metis surj_pair)
  from calmD [OF calm_getUTFTable this] x
  show "ignoreS (getUTFTable (big bytes_ops)) (r\<lparr>br_pos := p + 0x20\<rparr>) = (Inr (), after_table p r)"
    "br_data (after_table p r) = br_data r"
    by (auto simp: after_table_def ignoreS_def split: sum.split)
qed

lemma bind_table:
  "bindS (table_chunk (big bytes_ops) (int p)) f (skip 4 (r\<lparr>br_pos := p\<rparr>)) =
     f (int (next_at (br_data r) p)) (after_table p r)"
  unfolding table_chunk_def bindS_assoc bind_size bind_seek_p
  by (simp add: bindS_def ignored_table returnS_def chunk_end_at)

lemma bind_string:
  "0 \<le> n \<Longrightarrow> bindS (dropErr (bsReadStringLength (big bytes_ops) n)) f r =
     f (padded (nat n) (br_rest r)) (skip (nat n) r)"
  by (auto simp: bindS_def dropErr_def bsReadStringLength_def bsReadBytes_bytes split: option.split
      dest: full_err_no_panic)

lemma marker_length: "marker_at d p m \<Longrightarrow> length m \<le> length (drop (p + 0x20) d)"
  unfolding marker_at_def by (rule take_marker) simp_all

lemma bind_marker:
  assumes "marker_at (br_data r) p ''#HEADER END''"
  shows "bindS (header_end_chunk (big bytes_ops) (int p)) f (skip 4 (r\<lparr>br_pos := p\<rparr>)) =
    f (int (next_at (br_data r) p)) (skip 11 (r\<lparr>br_pos := p + 0x20\<rparr>))"
proof -
  have "string_of (padded 11 (drop (p + 0x20) (br_data r))) = ''#HEADER END''"
    using assms marker_length [OF assms] by (simp add: padded_le marker_at_def numeral_eq_Suc)
  then show ?thesis
    unfolding header_end_chunk_def bindS_assoc bind_size bind_seek_p
    by (simp add: bind_string bindS_assoc br_rest_at chunk_end_at bindS_def [of "returnS _"] returnS_def)
qed

lemma bind_signature:
  "bindS (seekB (big bytes_ops) (int p)) (\<lambda>_. bindS (dropErr (bsReadStringLength (big bytes_ops) 4)) f) r =
     f (padded 4 (drop p (br_data r))) (skip 4 (r\<lparr>br_pos := p\<rparr>))"
  by (simp add: bind_seekB bind_string br_rest_at)

lemmas walk = bind_check bind_table bind_marker bind_signature ignored_table(2) sig_at_def [symmetric]

lemma parse_chunks_layout:
  assumes "header_layout (br_data r) p audio q e"
  shows "\<exists>r'. parseUSMHeaderChunks (big bytes_ops) (int p) r = (Inr (audio, int q), r') \<and> br_data r' = br_data r"
proof (cases audio)
  case True
  let ?n = "next_at (br_data r)"
  have l: "sig_at (br_data r) p = ''@SFV''" "sig_at (br_data r) (?n p) = ''@SFA''"
    "sig_at (br_data r) (?n (?n p)) = ''@SFV''" "marker_at (br_data r) (?n (?n p)) ''#HEADER END''"
    "sig_at (br_data r) (?n (?n (?n p))) = ''@SFA''" "marker_at (br_data r) (?n (?n (?n p))) ''#HEADER END''"
    "q = ?n (?n (?n (?n p)))"
    using assms True by (simp_all add: header_layout_def Let_def)
  show ?thesis
    unfolding parseUSMHeaderChunks_def by (simp add: walk bindS_assoc l True)
next
  case False
  let ?n = "next_at (br_data r)"
  have l: "sig_at (br_data r) p = ''@SFV''" "sig_at (br_data r) (?n p) = ''@SFV''"
    "marker_at (br_data r) (?n p) ''#HEADER END''" "q = ?n (?n p)"
    using assms False by (simp_all add: header_layout_def Let_def)
  show ?thesis
    unfolding parseUSMHeaderChunks_def by (simp add: walk bindS_assoc l False)
qed

lemma skip_metadata_layout:
  assumes "header_layout (br_data r) p audio q e"
  shows "\<exists>r'. skipMetadataSection (big bytes_ops) (int q) r = (Inr (), r') \<and> br_data r' = br_data r \<and>
    br_pos r' = stream_start e"
proof -
  let ?d = "br_data r"
  have l: "sig_at ?d q = ''@SFV''" "e = next_at ?d q" "sig_at ?d e = ''@SFV''" "marker_at ?d e ''#METADATA END''"
    using assms by (auto simp: header_layout_def Let_def)
  define t where "t = after_table q r"
  have t: "br_data t = ?d" by (simp add: t_def ignored_table)
  have len: "4 \<le> length (drop e ?d)" using sig_at_length [OF l(3)] by simp
  have pos: "br_pos (skip 4 (t\<lparr>br_pos := e\<rparr>)) = e + 4" using len by (simp add: br_rest_at t)
  have adv: "adv 28 (skip 4 (t\<lparr>br_pos := e\<rparr>)) = t\<lparr>br_pos := e + 0x20\<rparr>"
    using pos by (simp add: adv_def)
  have m: "string_of (padded 13 (drop (e + 0x20) ?d)) = ''#METADATA END''"
    using l(4) marker_length [OF l(4)] by (simp add: padded_le marker_at_def numeral_eq_Suc)
  have sk: "skip 13 (t\<lparr>br_pos := e + 0x20\<rparr>) = t\<lparr>br_pos := e + 45\<rparr>"
    using marker_length [OF l(4)] by (simp add: skip_def br_rest_at t)
  have align: "bindS (dropErr (bsAlignStream (big bytes_ops) 4)) f u = f () (u\<lparr>br_pos := (if br_pos u mod 4 = 0 then br_pos u else br_pos u + (4 - br_pos u mod 4))\<rparr>)" for f u
    by (simp add: bindS_def dropErr_def align4_bytes)
  show ?thesis
    unfolding skipMetadataSection_def
    by (simp add: walk l(1,3,4) l(2) [symmetric] t_def [symmetric] t bind_seekCur [where n = 28, simplified] adv
        bind_string br_rest_at m align bind_seekCur [where n = 16, simplified] sk)
      (simp add: stream_start_def Let_def adv_def t)
qed

lemma getUTFTable_accepts:
  assumes "br_rest r = be_bytes 4 (0x40555446 :: u32) @ ys"
  shows "\<exists>rows r'. getUTFTable (big bytes_ops) r = (Inr rows, r') \<and> br_data r' = br_data r"
proof -
  define magic where "magic = be_bytes 4 (0x40555446 :: u32)"
  have magic: "string_of magic = ''@UTF''" "length magic = 4" unfolding magic_def by code_simp+
  have sg: "wrapErr msg (checkErr (bsReadStringLength (big bytes_ops) 4)) r = (Inr magic, adv 4 r)" for msg
    using read_sig [OF assms [folded magic_def] magic(2)] by (simp add: wrapErr_def checkErr_def)
  have "getUTFTable (big bytes_ops) r = bindS (readUsmUtf (big bytes_ops)) (\<lambda>u.
     bindS (dropErr (bsReadBytes (big bytes_ops) (uint (uu_tableSize u - 24)))) (\<lambda>tableData.
       on_bytes tableData (readUsmTable u))) (adv 4 r)"
    unfolding getUTFTable_def by (subst bindS_Inr, rule sg) (simp add: magic(1))
  moreover obtain x r' where "bindS (readUsmUtf (big bytes_ops)) (\<lambda>u.
     bindS (dropErr (bsReadBytes (big bytes_ops) (uint (uu_tableSize u - 24)))) (\<lambda>tableData.
       on_bytes tableData (readUsmTable u))) (adv 4 r) = (Inr x, r')" "br_data r' = br_data (adv 4 r)"
    by (rule worksE [OF works_table])
  ultimately show ?thesis by simp
qed

lemma NewUTFTable_magic:
  assumes "NewUTFTable bytes_ops r = (Inr t, r')"
  shows "\<exists>ys. br_rest r = be_bytes 4 (0x40555446 :: u32) @ ys"
proof -
  obtain magic u where "checkErr (ReadUint32 bytes_ops) r = (Inr magic, u)" "magic = 0x40555446"
    using assms unfolding NewUTFTable_def by (elim bindS_InrE) (simp split: if_splits)
  with read_u32_bytes show ?thesis by blast
qed

text \<open>A file with three tables of one column and no row.\<close>

definition sample_table :: bytes where
  "sample_table =
     utf_header_bytes \<lparr>TableSize = 30, Version = 1, RowOffset = 29, StringTableOffset = 29, DataOffset = 30,
       TableNameOffset = 0, NumberOfFields = 1, RowSize = 0, NumberOfRows = 0\<rparr> @ [0x10, 0, 0, 0, 0] @ [0]"

definition sample_chunk :: "string \<Rightarrow> bytes \<Rightarrow> bytes" where
  "sample_chunk sg body =
     bytes_of sg @ be_bytes 4 (of_nat (24 + length body) :: u32) @ replicate 24 0 @ body"

definition sample_movie :: bytes where
  "sample_movie =
     sample_chunk ''CRID'' sample_table @ sample_chunk ''@SFV'' sample_table @
     sample_chunk ''@SFV'' (bytes_of ''#HEADER END'') @ sample_chunk ''@SFV'' sample_table @
     sample_chunk ''@SFV'' (bytes_of ''#METADATA END'')"


subsection \<open>A header that is in order is read\<close>

text \<open>\<open>reads m x d\<close>: on a reader of the bytes \<open>d\<close>, at any position, \<open>m\<close> returns \<open>x\<close>.\<close>

definition reads :: "(byte_reader, 'a) io \<Rightarrow> 'a \<Rightarrow> bytes \<Rightarrow> bool" where
  "reads m x d \<longleftrightarrow> (\<forall>r. br_data r = d \<longrightarrow> (\<exists>u. m r = (Inr x, u) \<and> br_data u = d))"

lemma reads_bindS: "reads m x d \<Longrightarrow> reads (f x) y d \<Longrightarrow> reads (bindS m f) y d"
  unfolding reads_def bindS_def by fastforce

lemma reads_returnS: "reads (returnS x) x d"
  by (simp add: reads_def returnS_def)

lemma reads_section:
  assumes "sig_at d p = sg" and "fst (NewUTFTable bytes_ops (new_reader (drop (p + 0x20) d))) = Inr t"
  shows "reads (readUTFSection sj (big bytes_ops) (int p) sg kind)
    (\<lparr>Kind = kind, Signature = sg, Offset = int p, BlockSize = size_at d p,
      Data = normalizeDetailedUTFTable sj t\<rparr>, int (next_at d p)) d"
  unfolding reads_def
proof (intro allI impI)
  fix r :: byte_reader
  assume r: "br_data r = d"
  obtain u where "readDetailedUTFTable (big bytes_ops) (int (p + 0x20)) (r\<lparr>br_pos := p + 0x20\<rparr>) = (Inr t, u)"
    "br_data u = d"
    using detailed_table_bytes [of "p + 0x20" "r\<lparr>br_pos := p + 0x20\<rparr>"] assms(2) r
    by (cases "NewUTFTable bytes_ops (new_reader (drop (p + 0x20) d))") (auto simp: wrapErr_def)
  then show "\<exists>u. readUTFSection sj (big bytes_ops) (int p) sg kind r =
      (Inr (\<lparr>Kind = kind, Signature = sg, Offset = int p, BlockSize = size_at d p,
        Data = normalizeDetailedUTFTable sj t\<rparr>, int (next_at d p)), u) \<and> br_data u = d"
    unfolding readUTFSection_def using assms(1)
    by (simp add: bind_check bind_size r bindS_Inr returnS_def chunk_end_at)
qed

lemma bind_checked_marker:
  assumes "marker_at (br_data r) p m"
  shows "bindS (checkErr (bsReadStringLength (big bytes_ops) (int (length m)))) f (r\<lparr>br_pos := p + 0x20\<rparr>) =
    f (take (length m) (drop (p + 0x20) (br_data r))) (adv (length m) (r\<lparr>br_pos := p + 0x20\<rparr>))"
  using marker_length [OF assms]
  by (simp add: bindS_def checkErr_def bsReadStringLength_def bsReadBytes_bytes full_err_def padded_le br_rest_at skip_def adv_def)

lemma reads_marker:
  assumes "sig_at d p = sg" and "marker_at d p m"
  shows "reads (readMarkerSection (big bytes_ops) (int p) sg kind m)
    (\<lparr>Kind = kind, Signature = sg, Offset = int p, BlockSize = size_at d p, Data = SMarker m\<rparr>, int (next_at d p)) d"
  unfolding reads_def
proof (intro allI impI)
  fix r :: byte_reader
  assume "br_data r = d"
  with assms show "\<exists>u. readMarkerSection (big bytes_ops) (int p) sg kind m r =
      (Inr (\<lparr>Kind = kind, Signature = sg, Offset = int p, BlockSize = size_at d p, Data = SMarker m\<rparr>,
        int (next_at d p)), u) \<and> br_data u = d"
    unfolding readMarkerSection_def
    by (simp add: bind_check bind_size bind_checked_marker marker_at_def returnS_def chunk_end_at)
qed

lemma reads_signature:
  assumes "p + 4 \<le> length d"
  shows "reads (readSignatureAt (big bytes_ops) (int p)) (sig_at d p) d"
proof -
  have "4 \<le> length d - p" using assms by simp
  then show ?thesis
    by (simp add: reads_def readSignatureAt_def mapS_def bindS_def checkErr_def bytes_Seek_def bsReadStringLength_def
        bsReadBytes_bytes full_err_def br_rest_at returnS_def sig_at_def)
qed

lemma reads_end:
  assumes "sig_at d e = ''@SFV''" and "marker_at d e ''#METADATA END''"
  shows "reads (readMetadataEndSection (big bytes_ops) (int e))
    (\<lparr>Kind = ''video_metadata_end'', Signature = ''@SFV'', Offset = int e, BlockSize = size_at d e,
      Data = SMarker ''#METADATA END''\<rparr>, int (stream_start e)) d"
  unfolding reads_def
proof (intro allI impI)
  fix r :: byte_reader
  assume r: "br_data r = d"
  have m: "marker_at (br_data r) e ''#METADATA END''" using assms(2) r by simp
  have l: "length ''#METADATA END'' = 13" by simp
  have s: "string_of (take 13 (drop (e + 0x20) d)) = ''#METADATA END''"
    using assms(2) unfolding marker_at_def l .
  have step: "bindS (checkErr (bsReadStringLength (big bytes_ops) 13)) f (r\<lparr>br_pos := e + 0x20\<rparr>) =
      f (take 13 (drop (e + 0x20) (br_data r))) (adv 13 (r\<lparr>br_pos := e + 0x20\<rparr>))" for f
    using bind_checked_marker [OF m] unfolding l by simp
  show "\<exists>u. readMetadataEndSection (big bytes_ops) (int e) r =
      (Inr (\<lparr>Kind = ''video_metadata_end'', Signature = ''@SFV'', Offset = int e, BlockSize = size_at d e,
        Data = SMarker ''#METADATA END''\<rparr>, int (stream_start e)), u) \<and> br_data u = d"
    unfolding readMetadataEndSection_def
    by (simp add: assms(1) bind_check bind_size step r s)
      (simp add: bindS_def checkErr_def align4_bytes bytes_Seek_def stream_start_def Let_def returnS_def r
        add.commute [of 45 e])
qed


lemma reads_sections:
  assumes layout: "header_layout d p False q e"
    and table1: "fst (NewUTFTable bytes_ops (new_reader (drop (p + 0x20) d))) = Inr t1"
    and table2: "fst (NewUTFTable bytes_ops (new_reader (drop (q + 0x20) d))) = Inr t2"
    and len: "next_at d p + 4 \<le> length d"
  shows "\<exists>secs. reads (readMetadataSections sj (big bytes_ops) (int p)) (False, secs, int (stream_start e)) d"
proof -
  let ?n = "next_at d"
  have l: "sig_at d p = ''@SFV''" "sig_at d (?n p) = ''@SFV''" "marker_at d (?n p) ''#HEADER END''" "q = ?n (?n p)"
    "sig_at d q = ''@SFV''" "e = ?n q" "sig_at d e = ''@SFV''" "marker_at d e ''#METADATA END''"
    using layout unfolding header_layout_def Let_def if_False by blast+
  note r1 = reads_section [OF l(1) table1, of sj "''video_header''"]
  note r2 = reads_signature [OF len, unfolded l(2)]
  note r3 = reads_marker [OF l(2,3), of "''video_header_end''", unfolded l(4) [symmetric]]
  note r4 = reads_section [OF l(5) table2, of sj "''video_metadata''", unfolded l(6) [symmetric]]
  note r5 = reads_end [OF l(7,8)]
  show ?thesis
    unfolding readMetadataSections_def readAudioHeader_def readHeaderEnds_def
    apply (rule exI, rule reads_bindS, rule r1, simp only: prod.case, rule reads_bindS, rule r2)
    apply simp
    apply (rule reads_bindS, rule reads_bindS, rule r3)
    apply simp
    apply (rule reads_returnS)
    apply simp
    apply (rule reads_bindS, rule r4, simp, rule reads_bindS, rule r5, simp)
    apply (rule reads_returnS)
    done
qed

lemma sample_movie_metadata:
  "\<exists>m. fst (ReadMetadata (\<lambda>_. Inl EOF) bytes_ops [] (new_reader sample_movie)) = Inr m \<and>
     StreamOffset m = 316 \<and> \<not> HasAudio m"
proof -
  let ?d = sample_movie
  let ?B = "big bytes_ops"
  have layout: "header_layout ?d 70 False 183 253" "next_at ?d 70 + 4 \<le> length ?d" by code_simp+
  have table: "\<exists>t. fst (NewUTFTable bytes_ops (new_reader (drop p ?d))) = Inr t" if "p \<in> {0x20, 102, 215}" for p
  proof -
    have "case fst (NewUTFTable bytes_ops (new_reader (drop p ?d))) of Inr _ \<Rightarrow> True | Inl _ \<Rightarrow> False"
      using that by (elim insertE emptyE; simp only:; code_simp)
    then show ?thesis by (auto split: sum.splits)
  qed
  obtain t0 t1 t2 where t: "fst (NewUTFTable bytes_ops (new_reader (drop 0x20 ?d))) = Inr t0"
    "fst (NewUTFTable bytes_ops (new_reader (drop (70 + 0x20) ?d))) = Inr t1"
    "fst (NewUTFTable bytes_ops (new_reader (drop (183 + 0x20) ?d))) = Inr t2"
    using table [of "0x20"] table [of 102] table [of 215] by auto
  obtain secs where secs: "reads (readMetadataSections (\<lambda>_. Inl EOF) ?B (int 70)) (False, secs, int (stream_start 253)) ?d"
    using reads_sections [OF layout(1) t(2,3) layout(2)] by blast
  have tk: "take 8 ?d = bytes_of ''CRID'' @ be_bytes 4 (62 :: u32)" by code_simp
  have rest: "br_rest (new_reader ?d) = bytes_of ''CRID'' @ be_bytes 4 (62 :: u32) @ drop 8 ?d"
    using append_take_drop_id [of 8 ?d, symmetric] unfolding tk by (simp add: br_rest_def)
  have crid: "length (bytes_of ''CRID'') = 4" "string_of (bytes_of ''CRID'') = ''CRID''" by code_simp+
  have sg: "wrapErr msg (checkErr (bsReadStringLength ?B 4)) (new_reader ?d) = (Inr (bytes_of ''CRID''), adv 4 (new_reader ?d))" for msg
    using read_sig [OF rest crid(1)] by (simp add: wrapErr_def checkErr_def)
  have sz: "bindS (dropErr (bsReadUInt32 ?B)) f (adv 4 (new_reader ?d)) = f (62 :: u32) (adv 4 (adv 4 (new_reader ?d)))" for f
    unfolding bsReadUInt32_def by (rule bind_word [OF br_rest_adv [OF rest crid(1)]]) simp
  obtain u where u: "readDetailedUTFTable ?B 0x20 (adv 4 (adv 4 (new_reader ?d))) = (Inr t0, u)" "br_data u = ?d"
    using detailed_table_bytes [of "0x20" "adv 4 (adv 4 (new_reader ?d))"] t(1)
    by (cases "NewUTFTable bytes_ops (new_reader (drop 0x20 ?d))") (auto simp: wrapErr_def)
  obtain v where v: "readMetadataSections (\<lambda>_. Inl EOF) ?B 70 u = (Inr (False, secs, int (stream_start 253)), v)"
    using secs u(2) unfolding reads_def by auto
  have tb: "bindS (readDetailedUTFTable ?B 0x20) f (adv 4 (adv 4 (new_reader ?d))) = f t0 u" for f
    by (simp only: bindS_def u(1) prod.case sum.case)
  have vs: "bindS (readMetadataSections (\<lambda>_. Inl EOF) ?B 70) f u = f (False, secs, int (stream_start 253)) v" for f
    by (simp add: bindS_def v)
  have "fst (ReadMetadata (\<lambda>_. Inl EOF) bytes_ops [] (new_reader ?d)) =
      Inr \<lparr>InputFile = [], ContainerFilename = extractContainerFilename (\<lambda>_. Inl EOF) (Rows t0) [],
        HasAudio = False, StreamOffset = int (stream_start 253),
        Sections = \<lparr>Kind = ''crid'', Signature = ''CRID'', Offset = 0, BlockSize = 62,
          Data = normalizeDetailedUTFTable (\<lambda>_. Inl EOF) t0\<rparr> # secs\<rparr>"
    unfolding ReadMetadata_def NewBinaryStream_big Let_def
    by (subst bindS_Inr, rule sg) (simp only: crid(2) sz tb vs chunk_end_def simp_thms if_False, simp add: vs returnS_def)
  then show ?thesis by (simp add: stream_start_def)
qed

section \<open>Properties\<close>

text \<open>
  The tables of the metadata are read behind their offset: parsing through the shifted reader gives
  what parsing the rest of the file as a file of its own gives, and the file is not changed.
\<close>

theorem metadata_table_behind_offset:
  "case readDetailedUTFTable (NewBinaryStream bytes_ops ''big'') (int k) r of
     (result, r') \<Rightarrow>
       result = fst (wrapErr ''parse UTF table'' (NewUTFTable bytes_ops) (new_reader (drop k (br_data r)))) \<and>
       br_data r' = br_data r"
  using detailed_table_bytes [of k r] by (auto simp: NewBinaryStream_big)

text \<open>
  C25: the metadata reader and the demultiplexer agree on the header. When the metadata of a file can be
  read, the demultiplexer accepts its header, sees audio exactly when the metadata does, and starts
  on the chunks at the stream offset of the metadata.
\<close>

theorem metadata_agrees_with_demuxer:
  assumes "fst (ReadMetadata sj bytes_ops fallbackName (new_reader d)) = Inr m"
  shows "\<exists>filename r. parseUSMHeader (NewBinaryStream bytes_ops ''big'') fallbackName (new_reader d) =
    (Inr (filename, HasAudio m), r) \<and> int (br_pos r) = StreamOffset m"
proof -
  let ?r = "new_reader d"
  let ?B = "big bytes_ops"
  obtain sg r1 bs r2 t r3 secs u where
    a: "checkErr (bsReadStringLength ?B 4) ?r = (Inr sg, r1)" "string_of sg = ''CRID''"
    "dropErr (bsReadUInt32 ?B) r1 = (Inr bs, r2)"
    "readDetailedUTFTable ?B 0x20 r2 = (Inr t, r3)"
    "readMetadataSections sj ?B (chunk_end 0 bs) r3 = (Inr (HasAudio m, secs, StreamOffset m), u)"
  proof -
    obtain md v where "ReadMetadata sj bytes_ops fallbackName ?r = (Inr md, v)" "md = m"
      using assms by (cases "ReadMetadata sj bytes_ops fallbackName ?r") auto
    then show ?thesis
      using that unfolding ReadMetadata_def NewBinaryStream_big Let_def
      by (auto elim!: bindS_InrE split: if_splits)
  qed
  have d1: "br_data r1 = d"
    using a(1) by (auto simp: checkErr_Inr_iff bsReadStringLength_def bsReadBytes_bytes)
  then have d2: "br_data r2 = d"
    using a(3) by (auto simp: dropErr_def bsReadUInt32_def bs_word_bytes split: option.splits if_splits)
  obtain t' where t: "NewUTFTable bytes_ops (new_reader (drop 0x20 d)) = (Inr t, t')" "br_data r3 = d"
    using detailed_table_bytes [of "0x20" r2] a(4) d2
    by (cases "wrapErr ''parse UTF table'' (NewUTFTable bytes_ops) (new_reader (drop 0x20 d))") auto
  from NewUTFTable_magic [OF t(1)] obtain ys where "drop 0x20 d = be_bytes 4 (0x40555446 :: u32) @ ys"
    by (auto simp: br_rest_def)
  then have "br_rest (r2\<lparr>br_pos := 0x20\<rparr>) = be_bytes 4 (0x40555446 :: u32) @ ys"
    by (simp add: br_rest_at d2)
  from getUTFTable_accepts [OF this] obtain rows v where
    v: "getUTFTable ?B (r2\<lparr>br_pos := 0x20\<rparr>) = (Inr rows, v)" "br_data v = d" using d2 by auto
  have "chunk_end 0 bs = int (unat (8 + bs))" by (simp add: chunk_end_def)
  from readMetadataSections_bytes [OF a(5) [unfolded this]] obtain q e where
    l: "header_layout d (unat (8 + bs)) (HasAudio m) q e" "StreamOffset m = int (stream_start e)"
    using t(2) by auto
  obtain w where w: "parseUSMHeaderChunks ?B (int (unat (8 + bs))) v = (Inr (HasAudio m, int q), w)" "br_data w = d"
    using parse_chunks_layout [of v "unat (8 + bs)" "HasAudio m" q e] l(1) v(2) by auto
  obtain z where z: "skipMetadataSection ?B (int q) w = (Inr (), z)" "br_pos z = stream_start e"
    using skip_metadata_layout [of w "unat (8 + bs)" "HasAudio m" q e] l(1) w(2) by auto
  have sg: "wrapErr msg (checkErr (bsReadStringLength ?B 4)) ?r = (Inr sg, r1)" for msg
    using a(1) by simp
  have sk: "seekB ?B 0x20 r2 = (Inr 0x20, r2\<lparr>br_pos := 0x20\<rparr>)" by (simp add: seekB_def)
  have "parseUSMHeader ?B fallbackName ?r = (Inr (filename_of rows fallbackName, HasAudio m), z)"
    unfolding parseUSMHeader_def
    by (subst bindS_Inr, rule sg) (simp add: a(2,3) v(1) w(1) [simplified] z(1) sk bindS_def chunk_end_def returnS_def)
  with z(2) l(2) show ?thesis by (simp add: NewBinaryStream_big)
qed

theorem metadata_agrees_with_demuxer_witness:
  "\<exists>filename r. parseUSMHeader (NewBinaryStream bytes_ops ''big'') [] (new_reader sample_movie) =
    (Inr (filename, False), r) \<and> br_pos r = 316"
proof -
  obtain m where m: "fst (ReadMetadata (\<lambda>_. Inl EOF) bytes_ops [] (new_reader sample_movie)) = Inr m"
    "StreamOffset m = 316" "\<not> HasAudio m"
    using sample_movie_metadata by blast
  show ?thesis using metadata_agrees_with_demuxer [OF m(1)] m(2,3) by simp
qed

end
