(* ===== verification/Config.thy ===== *)
theory Config
  imports GoStrings
begin

text \<open>
  \<open>internal/config/config.go\<close>: the configuration, its defaults and the expansion of environment
  variables. Parameters are the environment, the host name, \<open>url.Parse\<close> (its host, or the error),
  the file system and the YAML decoder, which fills the fields a document mentions.
  \<open>strings.ToUpper\<close> is modelled on ASCII, and \<open>strings.TrimSpace\<close> on valid UTF-8, which YAML demands.
\<close>

section \<open>Data\<close>

record ClientConfig =
  cc_Mode :: string
  cc_ServerURL :: string
  cc_TCPAddress :: string
  cc_TCPReconnectSeconds :: int
  cc_BearerToken :: string
  cc_UserAgent :: string
  cc_TimeoutSeconds :: int

record WorkerConfig =
  wc_ID :: string
  wc_Name :: string
  wc_Version :: string
  wc_MaxTasks :: int
  wc_Tags :: "string \<rightharpoonup> string"
  wc_HeartbeatIntervalSeconds :: int
  wc_LeaseWaitSeconds :: int

record WorkspaceConfig =
  ws_Root :: string
  ws_Cleanup :: bool
  ws_KeepFailed :: bool

record ToolConfig =
  tc_FFMPEGPath :: string
  tc_AssetStudioCLIPath :: string

record ConcurrencyConfig =
  cn_Download :: int
  cn_AssetStudio :: int
  cn_PostProcess :: int
  cn_ACB :: int
  cn_USM :: int
  cn_HCA :: int
  cn_HCAGlobal :: bool

record DiagnosticsConfig =
  dc_RuntimeStatsIntervalSeconds :: int
  dc_PprofAddress :: string
  dc_GoMemoryLimitMB :: int
  dc_GoMemoryLimitPercent :: int
  dc_FreeOSMemoryThresholdPercent :: int
  dc_WarnCgroupMemoryPercent :: int
  dc_WarnHeapMB :: u64
  dc_WarnGoroutines :: int

record LoggingConfig =
  lc_Level :: string
  lc_File :: string

record Config =
  Client :: ClientConfig
  Worker :: WorkerConfig
  Workspace :: WorkspaceConfig
  Tools :: ToolConfig
  Concurrency :: ConcurrencyConfig
  Diagnostics :: DiagnosticsConfig
  Logging :: LoggingConfig

text \<open>The zero value.\<close>

definition zero_config :: Config where
  "zero_config =
     \<lparr>Client = \<lparr>cc_Mode = [], cc_ServerURL = [], cc_TCPAddress = [], cc_TCPReconnectSeconds = 0,
        cc_BearerToken = [], cc_UserAgent = [], cc_TimeoutSeconds = 0\<rparr>,
      Worker = \<lparr>wc_ID = [], wc_Name = [], wc_Version = [], wc_MaxTasks = 0, wc_Tags = Map.empty,
        wc_HeartbeatIntervalSeconds = 0, wc_LeaseWaitSeconds = 0\<rparr>,
      Workspace = \<lparr>ws_Root = [], ws_Cleanup = False, ws_KeepFailed = False\<rparr>,
      Tools = \<lparr>tc_FFMPEGPath = [], tc_AssetStudioCLIPath = []\<rparr>,
      Concurrency = \<lparr>cn_Download = 0, cn_AssetStudio = 0, cn_PostProcess = 0, cn_ACB = 0, cn_USM = 0,
        cn_HCA = 0, cn_HCAGlobal = False\<rparr>,
      Diagnostics = \<lparr>dc_RuntimeStatsIntervalSeconds = 0, dc_PprofAddress = [], dc_GoMemoryLimitMB = 0,
        dc_GoMemoryLimitPercent = 0, dc_FreeOSMemoryThresholdPercent = 0, dc_WarnCgroupMemoryPercent = 0,
        dc_WarnHeapMB = 0, dc_WarnGoroutines = 0\<rparr>,
      Logging = \<lparr>lc_Level = [], lc_File = []\<rparr>\<rparr>"

section \<open>The defaults\<close>

definition normalizeHTTPBaseURL :: "string \<Rightarrow> string" where
  "normalizeHTTPBaseURL raw =
     (let v = trimSpace raw in
      if v = [] \<or> containsStr v ''://'' then v else ''http://'' @ v)"

definition normalizeTCPAddress :: "(string \<Rightarrow> go_err + string) \<Rightarrow> string \<Rightarrow> string" where
  "normalizeTCPAddress parse_url raw =
     (let v = trimSpace raw in
      if v = [] \<or> \<not> containsStr v ''://'' then v
      else case parse_url v of
        Inl _ \<Rightarrow> v
      | Inr host \<Rightarrow> if host = [] then v else host)"

text \<open>\<open>if x == "" { x = d }\<close>, \<open>if x <= 0 { x = d }\<close> and \<open>if x == 0 { x = d }\<close>.\<close>

definition orText :: "string \<Rightarrow> string \<Rightarrow> string" where
  "orText d x = (if x = [] then d else x)"

definition orPositive :: "int \<Rightarrow> int \<Rightarrow> int" where
  "orPositive d x = (if x \<le> 0 then d else x)"

definition orNonzero :: "'a::zero \<Rightarrow> 'a \<Rightarrow> 'a" where
  "orNonzero d x = (if x = 0 then d else x)"

definition clientDefaults :: "(string \<Rightarrow> go_err + string) \<Rightarrow> ClientConfig \<Rightarrow> ClientConfig" where
  "clientDefaults parse_url c =
     c\<lparr>cc_Mode := orText ''http'' (cc_Mode c),
       cc_ServerURL := normalizeHTTPBaseURL (orText ''http://127.0.0.1:8080'' (cc_ServerURL c)),
       cc_TCPAddress := normalizeTCPAddress parse_url (orText ''127.0.0.1:9090'' (cc_TCPAddress c)),
       cc_TCPReconnectSeconds := orPositive 5 (cc_TCPReconnectSeconds c),
       cc_UserAgent := orText ''MoeInternal/AssetClient'' (cc_UserAgent c),
       cc_TimeoutSeconds := orNonzero 21600 (cc_TimeoutSeconds c)\<rparr>"

definition workerDefaults :: "(go_err + string) \<Rightarrow> WorkerConfig \<Rightarrow> WorkerConfig" where
  "workerDefaults hostname w =
     w\<lparr>wc_MaxTasks := orPositive 1 (wc_MaxTasks w),
       wc_HeartbeatIntervalSeconds := orPositive 30 (wc_HeartbeatIntervalSeconds w),
       wc_LeaseWaitSeconds := orPositive 30 (wc_LeaseWaitSeconds w),
       wc_Name := orText (case hostname of
                            Inr h \<Rightarrow> orText ''moe-asset-client'' h
                          | Inl _ \<Rightarrow> ''moe-asset-client'') (wc_Name w),
       wc_Version := orText ''dev'' (wc_Version w)\<rparr>"

definition concurrencyDefaults :: "ConcurrencyConfig \<Rightarrow> ConcurrencyConfig" where
  "concurrencyDefaults n =
     n\<lparr>cn_Download := orPositive 2 (cn_Download n), cn_ACB := orPositive 16 (cn_ACB n),
       cn_USM := orPositive 4 (cn_USM n), cn_HCA := orPositive 16 (cn_HCA n)\<rparr>"

definition diagnosticsDefaults :: "DiagnosticsConfig \<Rightarrow> DiagnosticsConfig" where
  "diagnosticsDefaults d =
     d\<lparr>dc_RuntimeStatsIntervalSeconds := orNonzero 60 (dc_RuntimeStatsIntervalSeconds d),
       dc_GoMemoryLimitPercent := orNonzero 70 (dc_GoMemoryLimitPercent d),
       dc_FreeOSMemoryThresholdPercent := orNonzero 70 (dc_FreeOSMemoryThresholdPercent d),
       dc_WarnCgroupMemoryPercent := orNonzero 85 (dc_WarnCgroupMemoryPercent d),
       dc_WarnHeapMB := orNonzero 4096 (dc_WarnHeapMB d),
       dc_WarnGoroutines := orNonzero 2000 (dc_WarnGoroutines d)\<rparr>"

definition applyDefaults :: "(string \<Rightarrow> go_err + string) \<Rightarrow> (go_err + string) \<Rightarrow> Config \<Rightarrow> Config" where
  "applyDefaults parse_url hostname c =
     c\<lparr>Client := clientDefaults parse_url (Client c),
       Worker := workerDefaults hostname (Worker c),
       Workspace := (Workspace c)\<lparr>ws_Root := orText ''./work'' (ws_Root (Workspace c))\<rparr>,
       Tools := \<lparr>tc_FFMPEGPath = orText ''ffmpeg'' (tc_FFMPEGPath (Tools c)),
                 tc_AssetStudioCLIPath = orText ''AssetStudioCLI'' (tc_AssetStudioCLIPath (Tools c))\<rparr>,
       Concurrency := concurrencyDefaults (Concurrency c),
       Diagnostics := diagnosticsDefaults (Diagnostics c),
       Logging := (Logging c)\<lparr>lc_Level := orText ''INFO'' (lc_Level (Logging c))\<rparr>\<rparr>"

definition Default :: "(string \<Rightarrow> go_err + string) \<Rightarrow> (go_err + string) \<Rightarrow> Config" where
  "Default parse_url hostname = applyDefaults parse_url hostname zero_config"

section \<open>Loading\<close>

definition expandEnvPreservingTemplates :: "(string \<Rightarrow> string) \<Rightarrow> string \<Rightarrow> string" where
  "expandEnvPreservingTemplates getenv v =
     osExpand (\<lambda>name. if name = toUpper name then getenv name else ''${'' @ name @ ''}'') v"

text \<open>\<open>yaml doc cfg\<close> decodes a document into a configuration that holds the defaults.\<close>

definition Load ::
    "(string \<Rightarrow> go_err + string) \<Rightarrow> (go_err + string) \<Rightarrow> (string \<Rightarrow> string) \<Rightarrow> (string \<Rightarrow> go_err + string) \<Rightarrow>
     (string \<Rightarrow> Config \<Rightarrow> go_err + Config) \<Rightarrow> string \<Rightarrow> go_err + Config" where
  "Load parse_url hostname getenv read_file yaml path =
     (let path = orText ''config.yaml'' (orText (getenv ''MOE_ASSET_CLIENT_CONFIG'') path) in
      case read_file path of
        Inl _ \<Rightarrow> Inl (Failure ''read config'')
      | Inr data \<Rightarrow>
          (case yaml (expandEnvPreservingTemplates getenv data) (Default parse_url hostname) of
             Inl _ \<Rightarrow> Inl (Failure ''parse config'')
           | Inr cfg \<Rightarrow> Inr (applyDefaults parse_url hostname cfg)))"

text \<open>In seconds.\<close>

definition HeartbeatInterval :: "Config \<Rightarrow> int" where
  "HeartbeatInterval c = wc_HeartbeatIntervalSeconds (Worker c)"

definition LeaseWaitSeconds :: "Config \<Rightarrow> int" where
  "LeaseWaitSeconds c = wc_LeaseWaitSeconds (Worker c)"

section \<open>A configuration the client can run with\<close>

definition config_ok :: "Config \<Rightarrow> bool" where
  "config_ok c \<longleftrightarrow>
     cc_Mode (Client c) \<noteq> [] \<and> cc_UserAgent (Client c) \<noteq> [] \<and> cc_TCPReconnectSeconds (Client c) > 0 \<and>
     cc_TimeoutSeconds (Client c) \<noteq> 0 \<and>
     wc_Name (Worker c) \<noteq> [] \<and> wc_Version (Worker c) \<noteq> [] \<and> wc_MaxTasks (Worker c) > 0 \<and>
     wc_HeartbeatIntervalSeconds (Worker c) > 0 \<and> wc_LeaseWaitSeconds (Worker c) > 0 \<and>
     ws_Root (Workspace c) \<noteq> [] \<and> tc_FFMPEGPath (Tools c) \<noteq> [] \<and> tc_AssetStudioCLIPath (Tools c) \<noteq> [] \<and>
     cn_Download (Concurrency c) > 0 \<and> cn_ACB (Concurrency c) > 0 \<and> cn_USM (Concurrency c) > 0 \<and>
     cn_HCA (Concurrency c) > 0 \<and> lc_Level (Logging c) \<noteq> [] \<and>
     dc_RuntimeStatsIntervalSeconds (Diagnostics c) \<noteq> 0 \<and> dc_GoMemoryLimitPercent (Diagnostics c) \<noteq> 0 \<and>
     dc_FreeOSMemoryThresholdPercent (Diagnostics c) \<noteq> 0 \<and> dc_WarnCgroupMemoryPercent (Diagnostics c) \<noteq> 0 \<and>
     dc_WarnHeapMB (Diagnostics c) > 0 \<and> dc_WarnGoroutines (Diagnostics c) \<noteq> 0 \<and>
     (cc_ServerURL (Client c) = [] \<or> containsStr (cc_ServerURL (Client c)) ''://'')"

text \<open>
  What was decoded and is usable is kept: text that is there, a positive count or interval, a limit of the diagnostics or a
  timeout that is not zero (a negative one is the documented way to switch it off), and everything that has no default.
\<close>

definition kept :: "('a \<Rightarrow> bool) \<Rightarrow> ('c \<Rightarrow> 'a) \<Rightarrow> 'c \<Rightarrow> 'c \<Rightarrow> bool" where
  "kept usable field c d \<longleftrightarrow> (usable (field c) \<longrightarrow> field d = field c)"

definition settings_kept :: "Config \<Rightarrow> Config \<Rightarrow> bool" where
  "settings_kept c d \<longleftrightarrow>
     (\<forall>field\<in>{cc_Mode \<circ> Client, cc_UserAgent \<circ> Client, wc_Name \<circ> Worker, wc_Version \<circ> Worker, ws_Root \<circ> Workspace,
        tc_FFMPEGPath \<circ> Tools, tc_AssetStudioCLIPath \<circ> Tools, lc_Level \<circ> Logging}. kept (\<lambda>x. x \<noteq> []) field c d) \<and>
     (\<forall>field\<in>{cc_TCPReconnectSeconds \<circ> Client, wc_MaxTasks \<circ> Worker, wc_HeartbeatIntervalSeconds \<circ> Worker,
        wc_LeaseWaitSeconds \<circ> Worker, cn_Download \<circ> Concurrency, cn_ACB \<circ> Concurrency, cn_USM \<circ> Concurrency,
        cn_HCA \<circ> Concurrency}. kept (\<lambda>x. x > 0) field c d) \<and>
     (\<forall>field\<in>{cc_TimeoutSeconds \<circ> Client, dc_RuntimeStatsIntervalSeconds \<circ> Diagnostics,
        dc_GoMemoryLimitPercent \<circ> Diagnostics, dc_FreeOSMemoryThresholdPercent \<circ> Diagnostics,
        dc_WarnCgroupMemoryPercent \<circ> Diagnostics, dc_WarnGoroutines \<circ> Diagnostics}. kept (\<lambda>x. x \<noteq> 0) field c d) \<and>
     kept (\<lambda>x. x \<noteq> 0) (dc_WarnHeapMB \<circ> Diagnostics) c d \<and>
     cc_BearerToken (Client d) = cc_BearerToken (Client c) \<and> wc_ID (Worker d) = wc_ID (Worker c) \<and>
     wc_Tags (Worker d) = wc_Tags (Worker c) \<and> ws_Cleanup (Workspace d) = ws_Cleanup (Workspace c) \<and>
     ws_KeepFailed (Workspace d) = ws_KeepFailed (Workspace c) \<and>
     cn_AssetStudio (Concurrency d) = cn_AssetStudio (Concurrency c) \<and>
     cn_PostProcess (Concurrency d) = cn_PostProcess (Concurrency c) \<and>
     cn_HCAGlobal (Concurrency d) = cn_HCAGlobal (Concurrency c) \<and>
     dc_PprofAddress (Diagnostics d) = dc_PprofAddress (Diagnostics c) \<and>
     dc_GoMemoryLimitMB (Diagnostics d) = dc_GoMemoryLimitMB (Diagnostics c) \<and>
     lc_File (Logging d) = lc_File (Logging c)"

lemmas defaults_defs =
  applyDefaults_def clientDefaults_def workerDefaults_def concurrencyDefaults_def diagnosticsDefaults_def
  orText_def orPositive_def orNonzero_def

lemma normalizeHTTPBaseURL_scheme:
  "normalizeHTTPBaseURL raw = [] \<or> containsStr (normalizeHTTPBaseURL raw) ''://''"
proof -
  have "containsStr (''http://'' @ v) ''://''" for v
    unfolding containsStr_iff by (rule exI [of _ "''http''"], rule exI [of _ v]) simp
  then show ?thesis by (auto simp: normalizeHTTPBaseURL_def Let_def)
qed

lemma applyDefaults_ok: "config_ok (applyDefaults parse_url hostname c)"
  using normalizeHTTPBaseURL_scheme [of "orText ''http://127.0.0.1:8080'' (cc_ServerURL (Client c))"]
  unfolding config_ok_def by (auto simp: defaults_defs word_gt_0 split: sum.split)

lemma applyDefaults_keeps: "settings_kept c (applyDefaults parse_url hostname c)"
  unfolding settings_kept_def kept_def by (simp add: defaults_defs)

text \<open>A second pass.\<close>

lemma orText_orText [simp]: "orText d (orText d x) = orText d x"
  by (simp add: orText_def)

lemma orPositive_orPositive [simp]: "0 < d \<Longrightarrow> orPositive d (orPositive d x) = orPositive d x"
  by (simp add: orPositive_def)

lemma orNonzero_orNonzero [simp]: "orNonzero d (orNonzero d x) = orNonzero d x"
  by (simp add: orNonzero_def)

lemma http_runes: "runes_string [104, 116, 116, 112, 58, 47, 47] = ''http://''"
  by code_simp

lemma normalizeHTTPBaseURL_again: "normalizeHTTPBaseURL (normalizeHTTPBaseURL raw) = normalizeHTTPBaseURL raw"
proof (cases "trimSpace raw = [] \<or> containsStr (trimSpace raw) ''://''")
  case True
  then show ?thesis by (auto simp: normalizeHTTPBaseURL_def Let_def)
next
  case False
  then have "trimSpace (''http://'' @ trimSpace raw) = ''http://'' @ trimSpace raw"
    using trimSpace_prefix [of "[104, 116, 116, 112, 58, 47, 47]" raw]
    by (simp add: http_runes valid_rune_def isSpace_def)
  then show ?thesis
    using False normalizeHTTPBaseURL_scheme [of raw] by (simp add: normalizeHTTPBaseURL_def Let_def)
qed

lemma normalizeHTTPBaseURL_Nil: "normalizeHTTPBaseURL raw = [] \<longleftrightarrow> trimSpace raw = []"
  by (auto simp: normalizeHTTPBaseURL_def Let_def)

text \<open>The host of a URL is trimmed and has no scheme.\<close>

definition hosts_are_plain :: "(string \<Rightarrow> go_err + string) \<Rightarrow> bool" where
  "hosts_are_plain parse_url \<longleftrightarrow>
     (\<forall>u h. parse_url u = Inr h \<longrightarrow> \<not> containsStr h ''://'' \<and> trimSpace h = h)"

lemma normalizeTCPAddress_again:
  "hosts_are_plain parse_url \<Longrightarrow>
   normalizeTCPAddress parse_url (normalizeTCPAddress parse_url raw) = normalizeTCPAddress parse_url raw"
  unfolding hosts_are_plain_def
  by (cases "parse_url (trimSpace raw)") (auto simp: normalizeTCPAddress_def Let_def)

lemma normalizeTCPAddress_Nil: "normalizeTCPAddress parse_url raw = [] \<longleftrightarrow> trimSpace raw = []"
  by (auto simp: normalizeTCPAddress_def Let_def split: sum.split)

lemma defaults_not_blank:
  "trimSpace ''http://127.0.0.1:8080'' \<noteq> []" "trimSpace ''127.0.0.1:9090'' \<noteq> []"
proof -
  have t: "trimSpace (runes_string rs) \<noteq> []"
    if "rs \<noteq> []" "\<forall>r\<in>set rs. valid_rune r" "\<not> isSpace (hd rs)" "\<not> isSpace (last rs)" for rs
    using that by (simp add: trimSpace_def string_runes_string trimRunes_id runes_string_Nil_iff)
  have "''http://127.0.0.1:8080'' = runes_string [104, 116, 116, 112, 58, 47, 47, 49, 50, 55, 46, 48, 46, 48, 46, 49, 58, 56, 48, 56, 48]"
    "''127.0.0.1:9090'' = runes_string [49, 50, 55, 46, 48, 46, 48, 46, 49, 58, 57, 48, 57, 48]"
    by code_simp+
  then show "trimSpace ''http://127.0.0.1:8080'' \<noteq> []" "trimSpace ''127.0.0.1:9090'' \<noteq> []"
    by (simp_all only: not_False_eq_True) (rule t; simp add: valid_rune_def isSpace_def)+
qed

lemma orText_fixed:
  assumes "\<And>x. f x = [] \<longleftrightarrow> trimSpace x = []" and "\<And>x. f (f x) = f x"
    and "trimSpace d \<noteq> []" and "s = [] \<or> trimSpace s \<noteq> []"
  shows "f (orText d (f (orText d s))) = f (orText d s)"
proof -
  have "trimSpace (orText d s) \<noteq> []" using assms(3,4) by (auto simp: orText_def)
  then have "f (orText d s) \<noteq> []" using assms(1) by simp
  then have "orText d (f (orText d s)) = f (orText d s)" by (simp only: orText_def if_False)
  then show ?thesis by (simp only: assms(2))
qed

lemma applyDefaults_again:
  assumes plain: "hosts_are_plain parse_url"
    and url: "cc_ServerURL (Client c) = [] \<or> trimSpace (cc_ServerURL (Client c)) \<noteq> []"
    and tcp: "cc_TCPAddress (Client c) = [] \<or> trimSpace (cc_TCPAddress (Client c)) \<noteq> []"
  shows "applyDefaults parse_url hostname (applyDefaults parse_url hostname c) = applyDefaults parse_url hostname c"
proof -
  note u = orText_fixed [OF normalizeHTTPBaseURL_Nil normalizeHTTPBaseURL_again defaults_not_blank(1) url]
  note t = orText_fixed [where f = "normalizeTCPAddress parse_url",
      OF normalizeTCPAddress_Nil normalizeTCPAddress_again [OF plain] defaults_not_blank(2) tcp]
  show ?thesis
    by (simp add: applyDefaults_def clientDefaults_def workerDefaults_def concurrencyDefaults_def
        diagnosticsDefaults_def u t)
qed

section \<open>Expanding a document\<close>

text \<open>A document as text without a dollar sign and names in braces.\<close>

datatype doc_piece = DText string | DVar string

fun piece_ok :: "doc_piece \<Rightarrow> bool" where
  "piece_ok (DText t) \<longleftrightarrow> CHR ''$'' \<notin> set t"
| "piece_ok (DVar n) \<longleftrightarrow> n \<noteq> [] \<and> CHR ''}'' \<notin> set n"

fun piece_text :: "doc_piece \<Rightarrow> string" where
  "piece_text (DText t) = t"
| "piece_text (DVar n) = ''${'' @ n @ ''}''"

lemma osExpand_text: "CHR ''$'' \<notin> set t \<Longrightarrow> osExpand m (t @ s) = t @ osExpand m s"
  by (induction t) auto

lemma getShellName_braces:
  assumes "n \<noteq> []" and "CHR ''}'' \<notin> set n"
  shows "getShellName (CHR ''{'' # n @ CHR ''}'' # s) = (n, length n + 2)"
proof -
  have tw: "takeWhile (\<lambda>x. x \<noteq> CHR ''}'') (n @ CHR ''}'' # s) = n"
    using assms(2) by (induction n) auto
  show ?thesis
  proof (cases n)
    case (Cons c n')
    show ?thesis
    proof (cases n')
      case Nil
      then show ?thesis using Cons assms by (simp add: getShellName_def)
    next
      case (Cons c' n'')
      then show ?thesis using \<open>n = c # n'\<close> assms tw by (auto simp: getShellName_def Let_def)
    qed
  qed (simp add: assms(1) [simplified])
qed

lemma osExpand_var:
  assumes "n \<noteq> []" and "CHR ''}'' \<notin> set n"
  shows "osExpand m (''${'' @ n @ ''}'' @ s) = m n @ osExpand m s"
  using getShellName_braces [OF assms, of s] assms(1) by simp

lemma osExpand_pieces:
  "list_all piece_ok ps \<Longrightarrow>
   osExpand m (concat (map piece_text ps)) = concat (map (\<lambda>p. case p of DText t \<Rightarrow> t | DVar n \<Rightarrow> m n) ps)"
proof (induction ps)
  case (Cons p ps)
  then show ?case
    by (cases p) (simp_all add: osExpand_text osExpand_var [simplified])
qed simp

text \<open>A dollar sign before another one, or before a digit, names a variable of its own.\<close>

lemma special_variables_are_looked_up:
  assumes "isShellSpecialVar c"
  shows "expandEnvPreservingTemplates getenv (CHR ''$'' # c # s) = getenv [c] @ expandEnvPreservingTemplates getenv s"
proof -
  have "c \<noteq> CHR ''{''" "upper_char c = c"
    using assms by (auto simp: isShellSpecialVar_def upper_char_def Let_def)
  then show ?thesis
    using assms by (simp add: expandEnvPreservingTemplates_def getShellName_def toUpper_def)
qed

section \<open>Properties\<close>


text \<open>
  Applying the defaults to a configuration that has them changes nothing, so that loading a file
  that sets nothing gives the default configuration; the exceptions are blank addresses, which the
  first pass turns into empty ones.
\<close>

theorem defaults_are_idempotent:
  assumes "hosts_are_plain parse_url"
    and "cc_ServerURL (Client c) = [] \<or> trimSpace (cc_ServerURL (Client c)) \<noteq> []"
    and "cc_TCPAddress (Client c) = [] \<or> trimSpace (cc_TCPAddress (Client c)) \<noteq> []"
  shows "applyDefaults parse_url hostname (applyDefaults parse_url hostname c) = applyDefaults parse_url hostname c"
  by (rule applyDefaults_again [OF assms])

theorem defaults_are_idempotent_witness:
  "applyDefaults (\<lambda>_. Inl EOF) (Inr ''host'') (Default (\<lambda>_. Inl EOF) (Inr ''host'')) =
     Default (\<lambda>_. Inl EOF) (Inr ''host'')"
  unfolding Default_def
  by (rule defaults_are_idempotent) (simp_all add: hosts_are_plain_def zero_config_def)

text \<open>
  The expansion of a document replaces the names in braces that are written in capitals by the
  environment, and leaves the text and the other names, the templates, as they are.
\<close>

theorem expansion_keeps_templates:
  assumes "list_all piece_ok ps"
  shows "expandEnvPreservingTemplates getenv (concat (map piece_text ps)) =
    concat (map (\<lambda>p. case p of
        DText t \<Rightarrow> t
      | DVar n \<Rightarrow> if n = toUpper n then getenv n else ''${'' @ n @ ''}'') ps)"
  by (simp only: expandEnvPreservingTemplates_def osExpand_pieces [OF assms])

theorem expansion_keeps_templates_witness:
  "expandEnvPreservingTemplates (\<lambda>_. ''secret'') ''token: ${MOE_ASSET_TOKEN} path: ${env}/a'' =
     ''token: secret path: ${env}/a''"
proof -
  have "toUpper ''MOE_ASSET_TOKEN'' = ''MOE_ASSET_TOKEN''" "toUpper ''env'' \<noteq> ''env''" by code_simp+
  then show ?thesis
    using expansion_keeps_templates [of "[DText ''token: '', DVar ''MOE_ASSET_TOKEN'', DText '' path: '', DVar ''env'', DText ''/a'']" "\<lambda>_. ''secret''"]
    by simp
qed

end
