(* ===== verification/Protocol.thy ===== *)
theory Protocol
  imports Complex_Main ResultPath
begin

text \<open>
  The types of \<open>internal/protocol/protocol.go\<close> the client sends and receives. A JSON string type is a
  string with named constants; \<open>ExportOptions\<close> and \<open>ResultFile\<close> are in ResultPath. A progress value is
  a rational. The client sends no snapshot; the
  snapshots are here because the file declares them. A time is a number of nanoseconds, and an omitted
  pointer is \<open>None\<close>.
\<close>

definition StageDownload :: string where "StageDownload = ''download''"
definition StageAssetStudioExport :: string where "StageAssetStudioExport = ''assetstudio_export''"
definition StagePostProcess :: string where "StagePostProcess = ''postprocess''"
definition StageArchive :: string where "StageArchive = ''archive''"
definition StageUploadResult :: string where "StageUploadResult = ''upload_result''"

record TaskPayload =
  tp_TaskID :: string
  tp_JobID :: string
  tp_Region :: string
  tp_BundlePath :: string
  tp_DownloadPath :: string
  tp_BundleHash :: string
  tp_Category :: string
  tp_DownloadURL :: string
  tp_Headers :: "string \<rightharpoonup> string"
  tp_Export :: ExportOptions
  tp_EstimatedSizeBytes :: int
  tp_Queue :: string
  tp_Priority :: bool
  tp_Delayed :: bool

record ClientRegistrationRequest =
  cr_ClientID :: string
  cr_Name :: string
  cr_Version :: string
  cr_MaxTasks :: int
  cr_Tags :: "string \<rightharpoonup> string"

record ClientRegistrationResponse =
  rr_ClientID :: string
  rr_HeartbeatAfter :: int
  rr_LeaseTTL :: int

record HeartbeatRequest =
  hb_ClientID :: string
  hb_ActiveTaskIDs :: "string list"

record LeaseRequest =
  lr_ClientID :: string
  lr_MaxTasks :: int
  lr_WaitSeconds :: int

record ProgressRequest =
  pr_ClientID :: string
  pr_Stage :: string
  pr_Progress :: rat
  pr_Message :: string

record FailRequest =
  fr_ClientID :: string
  fr_Error :: string

record TaskResultManifest =
  tm_TaskID :: string
  tm_JobID :: string
  tm_Region :: string
  tm_BundlePath :: string
  tm_BundleHash :: string
  tm_Files :: "ResultFile list"

section \<open>Names\<close>

definition RegionJP :: string where "RegionJP = ''jp''"
definition RegionEN :: string where "RegionEN = ''en''"
definition RegionTW :: string where "RegionTW = ''tw''"
definition RegionKR :: string where "RegionKR = ''kr''"
definition RegionCN :: string where "RegionCN = ''cn''"

definition AssetCategoryStartApp :: string where "AssetCategoryStartApp = ''StartApp''"
definition AssetCategoryOnDemand :: string where "AssetCategoryOnDemand = ''OnDemand''"

definition JobStatusPending :: string where "JobStatusPending = ''pending''"
definition JobStatusRunning :: string where "JobStatusRunning = ''running''"
definition JobStatusSucceeded :: string where "JobStatusSucceeded = ''succeeded''"
definition JobStatusPartialFailed :: string where "JobStatusPartialFailed = ''partial_failed''"
definition JobStatusFailed :: string where "JobStatusFailed = ''failed''"
definition JobStatusCancelled :: string where "JobStatusCancelled = ''cancelled''"

definition TaskStatusQueued :: string where "TaskStatusQueued = ''queued''"
definition TaskStatusLowPriority :: string where "TaskStatusLowPriority = ''low_priority''"
definition TaskStatusDelayed :: string where "TaskStatusDelayed = ''delayed''"
definition TaskStatusLeased :: string where "TaskStatusLeased = ''leased''"
definition TaskStatusRunning :: string where "TaskStatusRunning = ''running''"
definition TaskStatusUploadingResult :: string where "TaskStatusUploadingResult = ''uploading_result''"
definition TaskStatusUploadingS3 :: string where "TaskStatusUploadingS3 = ''uploading_s3''"
definition TaskStatusSucceeded :: string where "TaskStatusSucceeded = ''succeeded''"
definition TaskStatusFailed :: string where "TaskStatusFailed = ''failed''"
definition TaskStatusCancelled :: string where "TaskStatusCancelled = ''cancelled''"

definition TaskQueueNormal :: string where "TaskQueueNormal = ''normal''"
definition TaskQueuePriority :: string where "TaskQueuePriority = ''priority''"
definition TaskQueueLowPriority :: string where "TaskQueueLowPriority = ''low_priority''"
definition TaskQueueDelayed :: string where "TaskQueueDelayed = ''delayed''"

definition StageQueued :: string where "StageQueued = ''queued''"
definition StageDeobfuscate :: string where "StageDeobfuscate = ''deobfuscate''"
definition StageUploadS3 :: string where "StageUploadS3 = ''upload_s3''"
definition StageDone :: string where "StageDone = ''done''"

section \<open>Types\<close>

record LeaseResponse =
  le_Tasks :: "TaskPayload list"

record JobRequest =
  jr_Server :: string
  jr_AssetVersion :: string
  jr_AssetHash :: string

type_synonym time = int

record JobSnapshot =
  js_ID :: string
  js_Status :: string
  js_Region :: string
  js_AssetVersion :: string
  js_AssetHash :: string
  js_Total :: int
  js_Queued :: int
  js_LowPriority :: int
  js_Delayed :: int
  js_Running :: int
  js_Succeeded :: int
  js_Failed :: int
  js_Cancelled :: int
  js_Progress :: rat
  js_CreatedAt :: time
  js_UpdatedAt :: time

record CreateJobResponse =
  cj_Message :: string
  cj_Job :: JobSnapshot

record TaskSnapshot =
  ts_TaskID :: string
  ts_JobID :: string
  ts_Region :: string
  ts_BundlePath :: string
  ts_BundleHash :: string
  ts_EstimatedSizeBytes :: int
  ts_Queue :: string
  ts_Priority :: bool
  ts_Delayed :: bool
  ts_Status :: string
  ts_ClientID :: string
  ts_Attempt :: int
  ts_MaxAttempts :: int
  ts_Stage :: string
  ts_Progress :: rat
  ts_LastError :: string
  ts_LeaseUntil :: "time option"
  ts_CreatedAt :: time
  ts_UpdatedAt :: time
  ts_StartedAt :: "time option"
  ts_FinishedAt :: "time option"

record ClientSnapshot =
  cs_ClientID :: string
  cs_Name :: string
  cs_Version :: string
  cs_MaxTasks :: int
  cs_Tags :: "string \<rightharpoonup> string"
  cs_ActiveTaskIDs :: "string list"
  cs_LastSeen :: time

end
