(* ===== verification/TcpFrame.thy ===== *)
theory TcpFrame
  imports Deobfuscation Protocol
begin

text \<open>
  \<open>internal/tcpclient\<close>: messages on the TCP task channel, framed by a 4-byte length. The JSON codec is a
  parameter. A connection is read like an HTTP body: its bytes come in pieces of any size, and then an
  error. Writing may take fewer bytes than it was given; the locale \<open>stream_writer\<close> is the contract of
  \<open>io.Writer\<close> that \<open>writeAll\<close> relies on.
\<close>

section \<open>Data\<close>

definition MessageRegister :: string where "MessageRegister = ''register''"
definition MessageRegistered :: string where "MessageRegistered = ''registered''"
definition MessageHeartbeat :: string where "MessageHeartbeat = ''heartbeat''"
definition MessageProgress :: string where "MessageProgress = ''progress''"
definition MessageFail :: string where "MessageFail = ''fail''"
definition MessageTaskPush :: string where "MessageTaskPush = ''task_push''"
definition MessageError :: string where "MessageError = ''error''"
definition maxFrameSize :: int where "maxFrameSize = 32 * 1024 * 1024"

record Message =
  mg_Type :: string
  mg_ClientID :: string
  mg_Name :: string
  mg_Version :: string
  mg_MaxTasks :: int
  mg_Tags :: "string \<rightharpoonup> string"
  mg_UserAgent :: string
  mg_BearerToken :: string
  mg_ActiveTaskIDs :: "string list"
  mg_TaskID :: string
  mg_Stage :: string
  mg_Progress :: rat
  mg_Message :: string
  mg_Error :: string
  mg_Tasks :: "TaskPayload list"
  mg_HeartbeatAfter :: int
  mg_LeaseTTL :: int

definition zero_message :: Message where
  "zero_message =
     \<lparr>mg_Type = [], mg_ClientID = [], mg_Name = [], mg_Version = [], mg_MaxTasks = 0, mg_Tags = Map.empty,
      mg_UserAgent = [], mg_BearerToken = [], mg_ActiveTaskIDs = [], mg_TaskID = [], mg_Stage = [],
      mg_Progress = 0, mg_Message = [], mg_Error = [], mg_Tasks = [], mg_HeartbeatAfter = 0, mg_LeaseTTL = 0\<rparr>"

section \<open>Reading\<close>

definition ReadMessage :: "(bytes \<Rightarrow> go_err + Message) \<Rightarrow> 's read_seeker \<Rightarrow> ('s, Message) io" where
  "ReadMessage unmarshal R =
     bindS (checkErr (read_full R 4)) (\<lambda>header.
     let len = be_word header :: u32 in
     if len = 0 then throwS (Failure ''empty tcp message'')
     else if uint len > maxFrameSize then throwS (Failure ''tcp message too large'')
     else
     bindS (checkErr (read_full R (unat len))) (\<lambda>payload.
     case unmarshal payload of
       Inl e \<Rightarrow> throwS e
     | Inr msg \<Rightarrow>
         if mg_Type msg = [] then throwS (Failure ''tcp message type is required'') else returnS msg))"

section \<open>Writing\<close>

text \<open>\<open>io.Writer\<close>: the count and the error.\<close>

record 'w io_writer =
  iw_write :: "'w \<Rightarrow> bytes \<Rightarrow> (int \<times> go_err option) \<times> 'w"

function writeAll :: "'w io_writer \<Rightarrow> bytes \<Rightarrow> 'w \<Rightarrow> go_err option \<times> 'w" where
  "writeAll W data w =
     (if data = [] then (None, w)
      else case iw_write W w data of
        ((_, Some e), w') \<Rightarrow> (Some e, w')
      | ((n, None), w') \<Rightarrow>
          (if n \<le> 0 then (Some (Failure ''short write''), w')
           else if int (length data) < n then (Some (Panic ''slice bounds out of range''), w')
           else writeAll W (drop (nat n) data) w'))"
  by pat_completeness auto
termination
  by (relation "measure (\<lambda>(W, data, w). length data)") auto

declare writeAll.simps [simp del]

definition WriteMessage ::
    "(Message \<Rightarrow> go_err + bytes) \<Rightarrow> 'w io_writer \<Rightarrow> Message \<Rightarrow> 'w \<Rightarrow> go_err option \<times> 'w" where
  "WriteMessage marshal W msg w =
     (case marshal msg of
        Inl e \<Rightarrow> (Some e, w)
      | Inr payload \<Rightarrow>
          (if payload = [] \<or> maxFrameSize < int (length payload)
           then (Some (Failure ''tcp message size out of range''), w)
           else case writeAll W (be_bytes 4 (of_nat (length payload) :: u32)) w of
             (Some e, w) \<Rightarrow> (Some e, w)
           | (None, w) \<Rightarrow> writeAll W payload w))"

text \<open>\<open>Send\<close> holds the lock of the connection around \<open>WriteMessage\<close>; the deadline is not modelled.\<close>

definition Send :: "(Message \<Rightarrow> go_err + bytes) \<Rightarrow> 'w io_writer \<Rightarrow> Message \<Rightarrow> 'w \<Rightarrow> go_err option \<times> 'w" where
  "Send marshal W msg w = WriteMessage marshal W msg w"

definition Receive :: "(bytes \<Rightarrow> go_err + Message) \<Rightarrow> 's read_seeker \<Rightarrow> ('s, Message) io" where
  "Receive unmarshal R = ReadMessage unmarshal R"

section \<open>The contract of a writer\<close>

locale stream_writer =
  fixes W :: "'w io_writer"
    and sent :: "'w \<Rightarrow> bytes"
  assumes write_count: "iw_write W w p = ((n, e), w') \<Longrightarrow> 0 \<le> n \<and> n \<le> int (length p)"
    and write_sent: "iw_write W w p = ((n, e), w') \<Longrightarrow> sent w' = sent w @ take (nat n) p"
begin

text \<open>All of the data without an error, a prefix of it otherwise, and no panic of the loop.\<close>

lemma writeAll_sent:
  "writeAll W data w = (e, w') \<Longrightarrow>
   \<exists>k. sent w' = sent w @ take k data \<and> (e = None \<longrightarrow> k = length data)"
proof (induction data arbitrary: w rule: length_induct)
  case (1 data)
  show ?case
  proof (cases "data = []")
    case True
    with 1(2) show ?thesis by (auto simp: writeAll.simps [of _ "[]"])
  next
    case False
    obtain n f u where wr: "iw_write W w data = ((n, f), u)" by (metis surj_pair)
    note c = write_count [OF wr] and s = write_sent [OF wr]
    show ?thesis
    proof (cases "f = None \<and> 0 < n")
      case True
      then have run: "writeAll W (drop (nat n) data) u = (e, w')"
        using 1(2) False wr c by (simp add: writeAll.simps [of _ data])
      have "length (drop (nat n) data) < length data" using False True by (simp add: length_greater_0_conv [symmetric] del: length_greater_0_conv)
      with 1(1) run obtain k where k: "sent w' = sent u @ take k (drop (nat n) data)"
        "e = None \<longrightarrow> k = length (drop (nat n) data)" by blast
      have "sent w' = sent w @ take (nat n + k) data"
        using k(1) s by (simp add: take_add)
      then show ?thesis using k(2) c by (intro exI [of _ "nat n + k"]) auto
    next
      case no: False
      then have "e \<noteq> None" "w' = u"
        using 1(2) False wr c by (auto simp: writeAll.simps [of _ data] split: option.splits if_splits)
      then show ?thesis using s by blast
    qed
  qed
qed

lemma writeAll_done: "writeAll W data w = (None, w') \<Longrightarrow> sent w' = sent w @ data"
  using writeAll_sent by fastforce

lemma writeAll_no_panic:
  assumes "\<And>w p n e w'. iw_write W w p = ((n, Some e), w') \<Longrightarrow> \<not> is_panic e"
  shows "writeAll W data w = (Some e, w') \<Longrightarrow> \<not> is_panic e"
proof (induction data arbitrary: w rule: length_induct)
  case (1 data)
  then have ne: "data \<noteq> []" by (auto simp: writeAll.simps)
  obtain n f u where wr: "iw_write W w data = ((n, f), u)" by (metis surj_pair)
  show ?case
  proof (cases "f = None \<and> 0 < n")
    case True
    then have "writeAll W (drop (nat n) data) u = (Some e, w')"
      using 1(2) ne wr write_count [OF wr] by (simp add: writeAll.simps [of _ data])
    moreover have "length (drop (nat n) data) < length data"
      using ne True by (simp add: length_greater_0_conv [symmetric] del: length_greater_0_conv)
    ultimately show ?thesis using 1(1) by blast
  next
    case False
    then show ?thesis
      using 1(2) ne wr write_count [OF wr] assms [of w data n _ u]
      by (auto simp: writeAll.simps [of _ data] split: option.splits if_splits)
  qed
qed

end

text \<open>
  A connection that takes at most \<open>step\<close> bytes at a time, and in all as many as its peer reads before
  it goes away.
\<close>

record conn =
  cn_sent :: bytes
  cn_room :: nat
  cn_step :: nat

definition conn_Write :: "conn \<Rightarrow> bytes \<Rightarrow> (int \<times> go_err option) \<times> conn" where
  "conn_Write c p =
     (let n = min (length p) (min (cn_room c) (Suc (cn_step c)))
      in ((int n, if n = 0 \<and> p \<noteq> [] then Some (Failure ''connection reset'') else None),
          c\<lparr>cn_sent := cn_sent c @ take n p, cn_room := cn_room c - n\<rparr>))"

definition conn_ops :: "conn io_writer" where
  "conn_ops = \<lparr>iw_write = conn_Write\<rparr>"

interpretation tcp_conn: stream_writer conn_ops cn_sent
  by unfold_locales (auto simp: conn_ops_def conn_Write_def Let_def)

section \<open>Frames\<close>

text \<open>The bytes of a frame, and messages the codec can carry.\<close>

definition tcp_frame :: "bytes \<Rightarrow> bytes" where
  "tcp_frame p = be_bytes 4 (of_nat (length p) :: u32) @ p"

definition carries :: "(Message \<Rightarrow> go_err + bytes) \<Rightarrow> (bytes \<Rightarrow> go_err + Message) \<Rightarrow> Message \<Rightarrow> bool" where
  "carries marshal unmarshal msg \<longleftrightarrow>
     (case marshal msg of
        Inl _ \<Rightarrow> False
      | Inr p \<Rightarrow> unmarshal p = Inr msg \<and> mg_Type msg \<noteq> [])"

definition frame_of :: "(Message \<Rightarrow> go_err + bytes) \<Rightarrow> Message \<Rightarrow> bytes" where
  "frame_of marshal msg = (case marshal msg of Inl _ \<Rightarrow> [] | Inr p \<Rightarrow> tcp_frame p)"

text \<open>Messages sent one after the other, until one fails.\<close>

fun send_all ::
    "(Message \<Rightarrow> go_err + bytes) \<Rightarrow> 'w io_writer \<Rightarrow> Message list \<Rightarrow> 'w \<Rightarrow> go_err option \<times> 'w" where
  "send_all marshal W [] w = (None, w)"
| "send_all marshal W (m # ms) w =
     (case Send marshal W m w of
        (Some e, w') \<Rightarrow> (Some e, w')
      | (None, w') \<Rightarrow> send_all marshal W ms w')"

definition receive_all :: "(bytes \<Rightarrow> go_err + Message) \<Rightarrow> nat \<Rightarrow> (body, Message list) io" where
  "receive_all unmarshal k = repeatS k 0 (\<lambda>_. Receive unmarshal body_ops)"

lemma length_word_frame:
  assumes "int (length p) \<le> maxFrameSize"
  shows "unat (of_nat (length p) :: u32) = length p" and "uint (of_nat (length p) :: u32) = int (length p)"
proof -
  show 1: "unat (of_nat (length p) :: u32) = length p"
    using assms by (simp add: unat_of_nat maxFrameSize_def)
  show "uint (of_nat (length p) :: u32) = int (length p)"
    by (metis 1 of_nat_unat)
qed

lemma be_word_length [simp]: "be_word (be_bytes 4 (w :: u32)) = w"
  by (rule be_word_be_bytes) simp

lemma read_full_body:
  assumes "body_ok b" and "read_full body_ops n b = ((got, e), b')"
  shows "body_ok b' \<and> bd_end b' = bd_end b \<and> body_bytes b' = drop n (body_bytes b) \<and>
    (if n \<le> length (body_bytes b) then e = None \<and> got = take n (body_bytes b)
     else e = read_full_err n (body_bytes b) (Some (bd_end b)))"
  using read_loop_body [OF assms(1), of n] assms(2)
  by (auto simp: read_full_def read_full_err_def split: if_splits)

lemma take_full_body: "body_bytes b = h @ r \<Longrightarrow> length h = n \<Longrightarrow>
    n \<le> length (body_bytes b) \<and> take n (body_bytes b) = h \<and> drop n (body_bytes b) = r"
  by auto

text \<open>Reading a frame that is there, and one that is cut short.\<close>

lemma ReadMessage_frame:
  assumes b: "body_ok b" "body_bytes b = tcp_frame p @ r"
    and p: "p \<noteq> []" "int (length p) \<le> maxFrameSize" "unmarshal p = Inr msg" "mg_Type msg \<noteq> []"
  shows "\<exists>b'. ReadMessage unmarshal body_ops b = (Inr msg, b') \<and> body_ok b' \<and> body_bytes b' = r"
proof -
  let ?h = "be_bytes 4 (of_nat (length p) :: u32)"
  obtain g e u where r1: "read_full body_ops 4 b = ((g, e), u)" by (metis surj_pair)
  have bb: "body_bytes b = ?h @ p @ r" using b(2) by (simp add: tcp_frame_def)
  have 1: "e = None" "g = ?h" "body_ok u" "body_bytes u = p @ r"
    using read_full_body [OF b(1) r1] take_full_body [OF bb, of 4] by auto
  obtain g' e' v where r2: "read_full body_ops (length p) u = ((g', e'), v)" by (metis surj_pair)
  have 2: "e' = None" "g' = p" "body_ok v" "body_bytes v = r"
    using read_full_body [OF 1(3) r2] take_full_body [OF 1(4), of "length p"] by auto
  have "(of_nat (length p) :: u32) \<noteq> 0"
    using length_word_frame(1) [OF p(2)] p(1) by (metis length_0_conv unat_0)
  then have "ReadMessage unmarshal body_ops b = (Inr msg, v)"
    using r1 r2 1 2 p length_word_frame [OF p(2)]
    by (simp add: ReadMessage_def bindS_def checkErr_def returnS_def)
  then show ?thesis using 2 by blast
qed

lemma ReadMessage_short:
  assumes b: "body_ok b" "length (body_bytes b) < length (tcp_frame p)"
    "body_bytes b = take (length (body_bytes b)) (tcp_frame p)"
    and p: "int (length p) \<le> maxFrameSize"
  shows "\<exists>e b'. ReadMessage unmarshal body_ops b = (Inl e, b')"
proof (cases "length (body_bytes b) < 4")
  case True
  obtain g e u where r1: "read_full body_ops 4 b = ((g, e), u)" by (metis surj_pair)
  then have "e \<noteq> None" using read_full_body [OF b(1) r1] True by (auto simp: read_full_err_def)
  then show ?thesis using r1 by (auto simp: ReadMessage_def bindS_def checkErr_def)
next
  case False
  let ?h = "be_bytes 4 (of_nat (length p) :: u32)"
  define q where "q = take (length (body_bytes b) - 4) p"
  have bb: "body_bytes b = ?h @ q"
    using b(3) False by (simp add: tcp_frame_def q_def)
  obtain g e u where r1: "read_full body_ops 4 b = ((g, e), u)" by (metis surj_pair)
  have 1: "e = None" "g = ?h" "body_ok u" "body_bytes u = q"
    using read_full_body [OF b(1) r1] take_full_body [OF bb, of 4] by auto
  have "length q < length p" using b(2) False bb by (simp add: tcp_frame_def)
  obtain g' e' v where r2: "read_full body_ops (length p) u = ((g', e'), v)" by (metis surj_pair)
  have 2: "e' \<noteq> None"
    using read_full_body [OF 1(3) r2] 1(4) \<open>length q < length p\<close> by (auto simp: read_full_err_def)
  then show ?thesis
    using r1 r2 1 length_word_frame [OF p]
    by (auto simp: ReadMessage_def bindS_def checkErr_def throwS_def Let_def split: if_splits)
qed

text \<open>What \<open>Send\<close> writes.\<close>

lemma Send_sent:
  assumes "Send marshal conn_ops m c = (e, c')"
  shows "\<exists>k. cn_sent c' = cn_sent c @ take k (frame_of marshal m) \<and>
    (e = None \<longrightarrow> k = length (frame_of marshal m) \<and>
       (\<exists>p. marshal m = Inr p \<and> p \<noteq> [] \<and> int (length p) \<le> maxFrameSize))"
proof (cases "marshal m")
  case (Inl a)
  with assms show ?thesis by (auto simp: Send_def WriteMessage_def)
next
  case (Inr p)
  show ?thesis
  proof (cases "p = [] \<or> maxFrameSize < int (length p)")
    case True
    with assms Inr show ?thesis by (auto simp: Send_def WriteMessage_def intro: exI [of _ 0])
  next
    case False
    obtain f u where h: "writeAll conn_ops (be_bytes 4 (of_nat (length p) :: u32)) c = (f, u)" by fastforce
    show ?thesis
    proof (cases f)
      case None
      with h have "cn_sent u = cn_sent c @ be_bytes 4 (of_nat (length p) :: u32)"
        by (auto dest: tcp_conn.writeAll_done)
      moreover have "writeAll conn_ops p u = (e, c')"
        using assms Inr False h None by (simp add: Send_def WriteMessage_def)
      from tcp_conn.writeAll_sent [OF this] obtain k where
        "cn_sent c' = cn_sent u @ take k p" "e = None \<longrightarrow> k = length p" by blast
      ultimately show ?thesis
        using Inr False by (intro exI [of _ "4 + k"]) (auto simp: frame_of_def tcp_frame_def)
    next
      case (Some a)
      from tcp_conn.writeAll_sent [OF h] obtain k where
        "cn_sent u = cn_sent c @ take k (be_bytes 4 (of_nat (length p) :: u32))" by blast
      then have k: "cn_sent u = cn_sent c @ take (min k 4) (tcp_frame p)"
        by (simp add: tcp_frame_def min_def)
      have "e = Some a" "c' = u"
        using assms Inr False h Some by (simp_all add: Send_def WriteMessage_def)
      then show ?thesis using k Inr by (auto simp: frame_of_def)
    qed
  qed
qed

definition sendable :: "(Message \<Rightarrow> go_err + bytes) \<Rightarrow> Message \<Rightarrow> bool" where
  "sendable marshal m =
     (case marshal m of Inl _ \<Rightarrow> False | Inr p \<Rightarrow> p \<noteq> [] \<and> int (length p) \<le> maxFrameSize)"

lemma Send_not_sendable:
  "\<not> sendable marshal m \<Longrightarrow> \<exists>e. Send marshal W m w = (Some e, w)"
  by (auto simp: sendable_def Send_def WriteMessage_def split: sum.splits)

lemma send_all_sent:
  "send_all marshal conn_ops ms c = (e, c') \<Longrightarrow>
   \<exists>k. cn_sent c' = cn_sent c @ take k (concat (map (frame_of marshal) (takeWhile (sendable marshal) ms))) \<and>
     (e = None \<longrightarrow> takeWhile (sendable marshal) ms = ms \<and> k = length (concat (map (frame_of marshal) ms)))"
proof (induction ms arbitrary: c)
  case Nil
  then show ?case by auto
next
  case (Cons m ms)
  let ?F = "\<lambda>ms. concat (map (frame_of marshal) (takeWhile (sendable marshal) ms))"
  obtain f u where f: "Send marshal conn_ops m c = (f, u)" by fastforce
  show ?case
  proof (cases "sendable marshal m")
    case False
    with Send_not_sendable [OF False, of conn_ops c] Cons.prems show ?thesis by (auto intro: exI [of _ 0])
  next
    case m: True
    from Send_sent [OF f] obtain k where k:
      "cn_sent u = cn_sent c @ take k (frame_of marshal m)" "f = None \<longrightarrow> k = length (frame_of marshal m)" by blast
    show ?thesis
    proof (cases f)
      case None
      with f Cons.prems have "send_all marshal conn_ops ms u = (e, c')" by simp
      from Cons.IH [OF this] obtain j where j:
        "cn_sent c' = cn_sent u @ take j (?F ms)"
        "e = None \<longrightarrow> takeWhile (sendable marshal) ms = ms \<and> j = length (concat (map (frame_of marshal) ms))" by blast
      then show ?thesis
        using k None m by (intro exI [of _ "length (frame_of marshal m) + j"]) auto
    next
      case (Some a)
      with f Cons.prems have "e = Some a" "c' = u" by auto
      moreover have "take k (frame_of marshal m) = take (min k (length (frame_of marshal m))) (?F (m # ms))"
        using m by (simp add: min_def)
      ultimately show ?thesis using k(1) by (metis option.distinct(1))
    qed
  qed
qed

lemma receive_all_Suc:
  "receive_all unmarshal (Suc k) =
     bindS (ReadMessage unmarshal body_ops) (\<lambda>x. bindS (receive_all unmarshal k) (\<lambda>xs. returnS (x # xs)))"
proof -
  have "repeatS n i (\<lambda>_. m) = repeatS n j (\<lambda>_. m)" for n i j and m :: "(body, Message) io"
    by (induction n arbitrary: i j) (auto, metis)
  then show ?thesis by (simp add: receive_all_def Receive_def) metis
qed

lemma receive_frames:
  assumes "\<And>m. m \<in> set ms \<Longrightarrow> carries marshal unmarshal m \<and> sendable marshal m"
    and "body_ok b" and "body_bytes b = concat (map (frame_of marshal) ms) @ rest"
  shows "\<exists>b'. receive_all unmarshal (length ms) b = (Inr ms, b') \<and> body_bytes b' = rest"
  using assms
proof (induction ms arbitrary: b)
  case Nil
  then show ?case by (simp add: receive_all_def)
next
  case (Cons m ms)
  obtain p where p: "marshal m = Inr p" "p \<noteq> []" "int (length p) \<le> maxFrameSize" "unmarshal p = Inr m" "mg_Type m \<noteq> []"
    using Cons.prems(1) [of m] by (auto simp: carries_def sendable_def split: sum.splits)
  have "body_bytes b = tcp_frame p @ concat (map (frame_of marshal) ms) @ rest"
    using Cons.prems(3) p(1) by (simp add: frame_of_def [of _ m])
  from ReadMessage_frame [where unmarshal = unmarshal, OF Cons.prems(2) this p(2-5)] obtain u where
    u: "ReadMessage unmarshal body_ops b = (Inr m, u)" "body_ok u"
      "body_bytes u = concat (map (frame_of marshal) ms) @ rest" by blast
  from Cons.IH [OF _ u(2,3)] Cons.prems(1) obtain b' where
    "receive_all unmarshal (length ms) u = (Inr ms, b')" "body_bytes b' = rest" by auto
  then show ?case using u(1) by (auto simp: receive_all_Suc bindS_def returnS_def)
qed

lemma receive_from_prefix:
  assumes "\<And>m. m \<in> set ms \<Longrightarrow> carries marshal unmarshal m \<and> sendable marshal m"
    and "body_ok b" and "body_bytes b = take j (concat (map (frame_of marshal) ms))"
    and "receive_all unmarshal k b = (Inr xs, b')"
  shows "xs = take k ms \<and> k \<le> length ms"
  using assms
proof (induction k arbitrary: ms j b xs)
  case 0
  then show ?case by (simp add: receive_all_def)
next
  case (Suc k)
  obtain m u ys where run: "ReadMessage unmarshal body_ops b = (Inr m, u)"
      "receive_all unmarshal k u = (Inr ys, b')" "xs = m # ys"
    using Suc.prems(4) by (auto simp: receive_all_Suc elim!: go_elims)
  show ?case
  proof (cases ms)
    case Nil
    have "\<exists>e b'. ReadMessage unmarshal body_ops b = (Inl e, b')"
      using Suc.prems(3) Nil by (intro ReadMessage_short [where p = "[]"] Suc.prems(2)) (auto simp: tcp_frame_def maxFrameSize_def)
    with run(1) show ?thesis by auto
  next
    case (Cons m' ms')
    obtain p where p: "marshal m' = Inr p" "p \<noteq> []" "int (length p) \<le> maxFrameSize" "unmarshal p = Inr m'" "mg_Type m' \<noteq> []"
      using Suc.prems(1) [of m'] Cons by (auto simp: carries_def sendable_def split: sum.splits)
    let ?n = "length (tcp_frame p)"
    have bb: "body_bytes b = take j (tcp_frame p @ concat (map (frame_of marshal) ms'))"
      using Suc.prems(3) Cons p(1) by (simp add: frame_of_def [of _ m'])
    show ?thesis
    proof (cases "?n \<le> j")
      case True
      then have "body_bytes b = tcp_frame p @ take (j - ?n) (concat (map (frame_of marshal) ms'))"
        using bb by simp
      from ReadMessage_frame [where unmarshal = unmarshal, OF Suc.prems(2) this p(2-5)] run(1)
      have "m = m'" "body_ok u" "body_bytes u = take (j - ?n) (concat (map (frame_of marshal) ms'))" by auto
      then show ?thesis using Suc.IH [of ms' u "j - ?n" ys] Suc.prems(1) run Cons by simp
    next
      case False
      then have "body_bytes b = take j (tcp_frame p)" "length (body_bytes b) = j" using bb by auto
      then have "\<exists>e b'. ReadMessage unmarshal body_ops b = (Inl e, b')"
        using False p(3) by (intro ReadMessage_short [where p = p] Suc.prems(2)) auto
      with run(1) show ?thesis by auto
    qed
  qed
qed

section \<open>Properties of the channel\<close>

text \<open>
  C26: What goes into a connection comes out at its other end: when a sequence of messages the codec
  can carry was sent without an error, over a connection that takes any number of bytes at a time, and the
  bytes arrive in pieces of any size, the same number of receives gives the same messages in
  their order, and the bytes that follow are left for the next receive.
\<close>

theorem tcp_frames_round_trip:
  assumes "\<forall>m \<in> set ms. carries marshal unmarshal m"
    and "send_all marshal conn_ops ms c = (None, c')"
    and "body_ok b" and "cn_sent c @ body_bytes b = cn_sent c' @ rest"
  shows "\<exists>b'. receive_all unmarshal (length ms) b = (Inr ms, b') \<and> body_bytes b' = rest"
proof -
  from send_all_sent [OF assms(2)] obtain k where k: "takeWhile (sendable marshal) ms = ms"
    "k = length (concat (map (frame_of marshal) ms))"
    "cn_sent c' = cn_sent c @ take k (concat (map (frame_of marshal) (takeWhile (sendable marshal) ms)))" by blast
  then have t: "takeWhile (sendable marshal) ms = ms"
    "cn_sent c' = cn_sent c @ concat (map (frame_of marshal) ms)" by (simp_all only: take_all order_refl)
  then show ?thesis
    using assms(1,3,4) by (intro receive_frames) (auto simp: takeWhile_eq_all_conv)
qed

definition two_codec :: "Message \<Rightarrow> go_err + bytes" where
  "two_codec m = Inr (if mg_Type m = MessageFail then [1, 2] else [3])"

definition two_decode :: "bytes \<Rightarrow> go_err + Message" where
  "two_decode p = Inr (zero_message\<lparr>mg_Type := if p = [1, 2] then MessageFail else MessageHeartbeat\<rparr>)"

lemma two_codec_carries:
  "m = zero_message\<lparr>mg_Type := MessageHeartbeat\<rparr> \<or> m = zero_message\<lparr>mg_Type := MessageFail\<rparr> \<Longrightarrow>
   carries two_codec two_decode m"
  by (auto simp: carries_def two_codec_def two_decode_def MessageFail_def MessageHeartbeat_def)

theorem tcp_frames_round_trip_witness:
  "\<exists>b'. receive_all two_decode 2
      \<lparr>bd_chunks = [[0, 0], [0, 1, 3, 0], [0, 0, 2, 1, 2, 7]],
       bd_end = EOF\<rparr>
    = (Inr [zero_message\<lparr>mg_Type := MessageHeartbeat\<rparr>, zero_message\<lparr>mg_Type := MessageFail\<rparr>], b')
    \<and> body_bytes b' = [7]"
proof -
  let ?ms = "[zero_message\<lparr>mg_Type := MessageHeartbeat\<rparr>, zero_message\<lparr>mg_Type := MessageFail\<rparr>]"
  let ?c = "\<lparr>cn_sent = [], cn_room = 100, cn_step = 2\<rparr>"
  let ?c' = "\<lparr>cn_sent = [0, 0, 0, 1, 3, 0, 0, 0, 2, 1, 2],
             cn_room = 89, cn_step = 2\<rparr>"
  have "send_all two_codec conn_ops ?ms ?c = (None, ?c')" by code_simp
  moreover have "\<forall>m \<in> set ?ms. carries two_codec two_decode m"
    using two_codec_carries by simp
  ultimately show ?thesis
    using tcp_frames_round_trip [of ?ms two_codec two_decode ?c ?c'
        "\<lparr>bd_chunks = [[0, 0], [0, 1, 3, 0], [0, 0, 2, 1, 2, 7]],
          bd_end = EOF\<rparr>" "[7]"]
    by (simp add: body_ok_def body_bytes_def numeral_2_eq_2)
qed

text \<open>
  A connection that breaks loses messages and invents none: whatever happened while the messages
  were sent, and however many of the bytes written reach the other end, the messages received without an error
  are the first of those sent.
\<close>

theorem received_messages_were_sent:
  assumes "\<forall>m \<in> set ms. carries marshal unmarshal m"
    and "send_all marshal conn_ops ms c = (e, c')"
    and "body_ok b" and "cn_sent c @ body_bytes b = take j (cn_sent c')"
    and "receive_all unmarshal k b = (Inr xs, b')"
  shows "xs = take k ms \<and> k \<le> length ms"
proof -
  let ?ts = "takeWhile (sendable marshal) ms"
  from send_all_sent [OF assms(2)] obtain i where
    i: "cn_sent c' = cn_sent c @ take i (concat (map (frame_of marshal) ?ts))" by blast
  have "body_bytes b = take (j - length (cn_sent c)) (take i (concat (map (frame_of marshal) ?ts)))"
  proof -
    have e: "cn_sent c @ body_bytes b =
        take j (cn_sent c) @ take (j - length (cn_sent c)) (take i (concat (map (frame_of marshal) ?ts)))"
      using assms(4) by (simp only: i take_append)
    show ?thesis
    proof (cases "length (cn_sent c) \<le> j")
      case True
      with e show ?thesis by simp
    next
      case False
      with arg_cong [OF e, of length] show ?thesis by simp
    qed
  qed
  then have "body_bytes b = take (min (j - length (cn_sent c)) i) (concat (map (frame_of marshal) ?ts))"
    by simp
  from receive_from_prefix [OF _ assms(3) this assms(5)] assms(1)
  have k: "xs = take k ?ts" "k \<le> length ?ts" by (auto dest: set_takeWhileD)
  moreover have "take (length ?ts) ms = ?ts" by (metis takeWhile_eq_take)
  ultimately show ?thesis
    by (metis length_takeWhile_le min.absorb1 order_trans take_take)
qed

theorem received_messages_were_sent_witness:
  "\<exists>e c' b'. send_all two_codec conn_ops
       [zero_message\<lparr>mg_Type := MessageFail\<rparr>, zero_message\<lparr>mg_Type := MessageHeartbeat\<rparr>]
       \<lparr>cn_sent = [], cn_room = 8, cn_step = 2\<rparr> = (Some e, c')
   \<and> receive_all two_decode 1 \<lparr>bd_chunks = [take 7 (cn_sent c')], bd_end = EOF\<rparr>
     = (Inr [zero_message\<lparr>mg_Type := MessageFail\<rparr>], b')"
proof -
  let ?ms = "[zero_message\<lparr>mg_Type := MessageFail\<rparr>, zero_message\<lparr>mg_Type := MessageHeartbeat\<rparr>]"
  let ?c = "\<lparr>cn_sent = [], cn_room = 8, cn_step = 2\<rparr>"
  let ?c' = "\<lparr>cn_sent = [0, 0, 0, 2, 1, 2, 0, 0], cn_room = 0, cn_step = 2\<rparr>"
  let ?b = "\<lparr>bd_chunks = [[0, 0, 0, 2, 1, 2, 0]], bd_end = EOF\<rparr>"
  have s: "send_all two_codec conn_ops ?ms ?c = (Some (Failure ''connection reset''), ?c')" by code_simp
  have c: "\<forall>m \<in> set ?ms. carries two_codec two_decode m"
    using two_codec_carries by simp
  obtain xs b' where r: "receive_all two_decode 1 ?b = (Inr xs, b')"
  proof -
    have "case receive_all two_decode 1 ?b of (Inr _, _) \<Rightarrow> True | _ \<Rightarrow> False"
      by (simp add: receive_all_def) code_simp
    then show ?thesis using that by (auto split: prod.splits sum.splits)
  qed
  have "xs = take 1 ?ms \<and> 1 \<le> length ?ms"
    by (rule received_messages_were_sent [OF c s _ _ r, where j = 7]) (simp_all add: body_ok_def body_bytes_def)
  with s r show ?thesis by auto
qed

text \<open>A frame that announces nothing, or more than the limit, is refused after its length.\<close>

lemma refused_frame:
  assumes "body_ok b" and "body_bytes b = be_bytes 4 (n :: u32) @ rest"
    and "n = 0 \<or> maxFrameSize < uint n"
  shows "\<exists>e b'. ReadMessage unmarshal body_ops b = (Inl e, b') \<and> \<not> is_panic e \<and> body_bytes b' = rest"
proof -
  obtain g e u where r1: "read_full body_ops 4 b = ((g, e), u)" by (metis surj_pair)
  then have "e = None" "g = be_bytes 4 n" "body_bytes u = rest"
    using read_full_body [OF assms(1) r1] take_full_body [OF assms(2), of 4] by auto
  then show ?thesis
    using r1 assms(3) by (auto simp: ReadMessage_def bindS_def checkErr_def throwS_def)
qed

end
