(* ===== verification/FileSys.thy ===== *)
theory FileSys
  imports GoIO GoPath "HOL-Library.List_Lexorder" "HOL-Library.Char_ord" "HOL-Library.AList"
begin

text \<open>
  The part of Go's \<open>os\<close> and \<open>path/filepath\<close> packages the exporter and the unpacker use, on a file system
  that is a table from clean paths to contents. A directory is there when a file is below it: the
  code never tells an empty directory from a missing one, and it makes every directory it writes to.

  \<open>fs_fault\<close> gives the operations that fail for another reason than a missing file, and with which error, so
  every error branch of the code can be taken.
\<close>

section \<open>The file system\<close>

datatype fs_op = OpStat | OpOpen | OpCreate | OpWrite | OpClose | OpRemove | OpRename | OpWalk

record fsys =
  fs_files :: "(string \<times> bytes) list"
  fs_fault :: "fs_op \<Rightarrow> string \<Rightarrow> go_err option"

abbreviation disk :: "fsys \<Rightarrow> string \<rightharpoonup> bytes" where
  "disk s \<equiv> map_of (fs_files s)"

definition below :: "string \<Rightarrow> string \<Rightarrow> bool" where
  "below dir p \<longleftrightarrow> hasPrefix p (dir @ ''/'')"

definition not_exist :: go_err where
  "not_exist = Failure ''file does not exist''"

definition IsNotExist :: "go_err \<Rightarrow> bool" where
  "IsNotExist e \<longleftrightarrow> e = not_exist"

datatype file_info = RegularFile nat | Directory

definition lookup :: "string \<Rightarrow> fsys \<Rightarrow> go_err + file_info" where
  "lookup p s =
     (case disk s p of
        Some b \<Rightarrow> Inr (RegularFile (length b))
      | None \<Rightarrow> if list_ex (\<lambda>(q, _). below p q) (fs_files s) then Inr Directory else Inl not_exist)"

text \<open>A fault is not a missing file, and no panic.\<close>

definition os_err :: "go_err \<Rightarrow> go_err" where
  "os_err e = (if e = not_exist \<or> is_panic e then Failure ''input/output error'' else e)"

lemma os_err_simps [simp]: "os_err e \<noteq> not_exist" "not_exist \<noteq> os_err e" "\<not> is_panic (os_err e)"
  by (auto simp: os_err_def not_exist_def)

definition with_fault :: "fs_op \<Rightarrow> string \<Rightarrow> (fsys, 'a) io \<Rightarrow> (fsys, 'a) io" where
  "with_fault op p m s = (case fs_fault s op p of Some e \<Rightarrow> (Inl (os_err e), s) | None \<Rightarrow> m s)"

section \<open>Operations\<close>

definition osStat :: "string \<Rightarrow> (fsys, file_info) io" where
  "osStat p = with_fault OpStat p (\<lambda>s. (lookup p s, s))"

definition osReadFile :: "string \<Rightarrow> (fsys, bytes) io" where
  "osReadFile p = with_fault OpOpen p (\<lambda>s.
     (case disk s p of
        Some b \<Rightarrow> Inr b
      | None \<Rightarrow> if lookup p s = Inr Directory then Inl (Failure ''is a directory'') else Inl not_exist, s))"

text \<open>\<open>os.Create\<close> truncates; what is written through the file is \<open>osWrite\<close>.\<close>

definition osCreate :: "string \<Rightarrow> (fsys, unit) io" where
  "osCreate p = with_fault OpCreate p (\<lambda>s.
     if lookup p s = Inr Directory then (Inl (Failure ''is a directory''), s)
     else (Inr (), s\<lparr>fs_files := AList.update p [] (fs_files s)\<rparr>))"

definition osWrite :: "string \<Rightarrow> bytes \<Rightarrow> (fsys, unit) io" where
  "osWrite p b = with_fault OpWrite p (\<lambda>s. (Inr (), s\<lparr>fs_files := AList.update p b (fs_files s)\<rparr>))"

definition osWriteFile :: "string \<Rightarrow> bytes \<Rightarrow> (fsys, unit) io" where
  "osWriteFile p b = bindS (osCreate p) (\<lambda>_. osWrite p b)"

definition osRemove :: "string \<Rightarrow> (fsys, unit) io" where
  "osRemove p = with_fault OpRemove p (\<lambda>s.
     case lookup p s of
       Inl e \<Rightarrow> (Inl e, s)
     | Inr Directory \<Rightarrow> (Inl (Failure ''directory not empty''), s)
     | Inr (RegularFile _) \<Rightarrow> (Inr (), s\<lparr>fs_files := AList.delete p (fs_files s)\<rparr>))"

definition osRemoveAll :: "string \<Rightarrow> (fsys, unit) io" where
  "osRemoveAll p = with_fault OpRemove p (\<lambda>s.
     (Inr (), s\<lparr>fs_files := filter (\<lambda>(q, _). q \<noteq> p \<and> \<not> below p q) (fs_files s)\<rparr>))"

definition osRename :: "string \<Rightarrow> string \<Rightarrow> (fsys, unit) io" where
  "osRename src dst = with_fault OpRename src (\<lambda>s.
     case disk s src of
       None \<Rightarrow> (Inl not_exist, s)
     | Some b \<Rightarrow>
         if lookup dst s = Inr Directory then (Inl (Failure ''file exists''), s)
         else (Inr (), s\<lparr>fs_files := AList.update dst b (AList.delete src (fs_files s))\<rparr>))"

text \<open>\<open>os.MkdirAll\<close> fails where a file is in the way; a directory leaves no trace.\<close>

definition osMkdirAll :: "string \<Rightarrow> (fsys, unit) io" where
  "osMkdirAll p = with_fault OpCreate p (\<lambda>s.
     (if list_ex (\<lambda>(q, _). q = p \<or> below q p) (fs_files s) then Inl (Failure ''not a directory'') else Inr (), s))"

text \<open>
  The regular files \<open>filepath.WalkDir\<close> visits: a directory's entries come in the order of their
  names, so the whole is ordered by the components of the paths.
\<close>

definition walkFiles :: "string \<Rightarrow> (fsys, string list) io" where
  "walkFiles dir = with_fault OpWalk dir (\<lambda>s.
     (Inr (if disk s dir \<noteq> None then [dir]
           else sort_key splitSlash (map fst (filter (\<lambda>(q, _). below dir q) (fs_files s)))), s))"

text \<open>\<open>_ = m()\<close>.\<close>

definition discard :: "('s, 'a) io \<Rightarrow> ('s, unit) io" where
  "discard m s = (case m s of (Inl e, s') \<Rightarrow> (if is_panic e then Inl e else Inr (), s') | (Inr _, s') \<Rightarrow> (Inr (), s'))"

text \<open>The value and the error of an operation, for code that looks at the error.\<close>

definition tryS :: "('s, 'a) io \<Rightarrow> ('s, go_err + 'a) io" where
  "tryS m s = (case m s of (r, s') \<Rightarrow> (Inr r, s'))"

section \<open>What the operations do to the disk\<close>

lemma with_fault_Inr [simp]:
  "with_fault op p m s = (Inr x, t) \<longleftrightarrow> fs_fault s op p = None \<and> m s = (Inr x, t)"
  by (auto simp: with_fault_def split: option.splits)

lemma with_fault_cases:
  "with_fault op p m s = (r, t) \<Longrightarrow> (\<exists>e. r = Inl e \<and> t = s) \<or> m s = (r, t)"
  by (auto simp: with_fault_def split: option.splits)

lemma osStat_state: "osStat p s = (r, t) \<Longrightarrow> t = s"
  by (auto simp: osStat_def dest!: with_fault_cases)

lemma osReadFile_state: "osReadFile p s = (r, t) \<Longrightarrow> t = s"
  by (auto simp: osReadFile_def dest!: with_fault_cases)

lemma osMkdirAll_state: "osMkdirAll p s = (r, t) \<Longrightarrow> t = s"
  by (auto simp: osMkdirAll_def dest!: with_fault_cases)

lemma walkFiles_state: "walkFiles p s = (r, t) \<Longrightarrow> t = s"
  by (auto simp: walkFiles_def dest!: with_fault_cases)

lemma lookup_file: "lookup p s = Inr (RegularFile n) \<longleftrightarrow> (\<exists>b. disk s p = Some b \<and> length b = n)"
  by (auto simp: lookup_def split: option.splits)

lemma osReadFile_Inr: "osReadFile p s = (Inr b, t) \<Longrightarrow> disk s p = Some b \<and> t = s"
  by (auto simp: osReadFile_def split: option.splits if_splits)

lemma osCreate_Inr: "osCreate p s = (Inr u, t) \<Longrightarrow> disk t = (disk s)(p \<mapsto> []) \<and> fs_fault t = fs_fault s"
  by (auto simp: osCreate_def update_conv' split: if_splits)

lemma osWrite_Inr: "osWrite p b s = (Inr u, t) \<Longrightarrow> disk t = (disk s)(p \<mapsto> b) \<and> fs_fault t = fs_fault s"
  by (auto simp: osWrite_def update_conv')

lemma osWriteFile_Inr: "osWriteFile p b s = (Inr u, t) \<Longrightarrow> disk t = (disk s)(p \<mapsto> b) \<and> fs_fault t = fs_fault s"
  by (auto simp: osWriteFile_def elim!: bindS_InrE dest!: osCreate_Inr osWrite_Inr)

lemma osRemove_Inr:
  "osRemove p s = (Inr u, t) \<Longrightarrow> disk s p \<noteq> None \<and> disk t = (disk s)(p := None) \<and> fs_fault t = fs_fault s"
  by (auto simp: osRemove_def delete_conv' lookup_file split: sum.splits file_info.splits)

lemma osRemove_Inl: "osRemove p s = (Inl e, t) \<Longrightarrow> t = s"
  by (auto simp: osRemove_def with_fault_def split: option.splits sum.splits file_info.splits)

lemma map_of_filter_key: "map_of (filter (\<lambda>(q, _). P q) xs) = (\<lambda>q. if P q then map_of xs q else None)"
  by (induction xs) (auto simp: fun_eq_iff)

lemma osRemoveAll_Inr:
  "osRemoveAll p s = (Inr u, t) \<Longrightarrow>
   disk t = (\<lambda>q. if q = p \<or> below p q then None else disk s q) \<and> fs_fault t = fs_fault s"
  by (auto simp: osRemoveAll_def map_of_filter_key fun_eq_iff)

lemma osRename_Inr:
  "osRename src dst s = (Inr u, t) \<Longrightarrow>
   disk s src \<noteq> None \<and> disk t = ((disk s)(src := None))(dst := disk s src) \<and> fs_fault t = fs_fault s"
  by (auto simp: osRename_def update_conv' delete_conv' split: option.splits if_splits)

lemma disk_in_files: "disk s p \<noteq> None \<longleftrightarrow> p \<in> fst ` set (fs_files s)"
  by (metis domIff dom_map_of_conv_image_fst)

lemma walkFiles_Inr:
  assumes "walkFiles dir s = (Inr ps, t)"
  shows "t = s \<and> set ps = (if disk s dir \<noteq> None then {dir} else {p. below dir p \<and> disk s p \<noteq> None})"
proof -
  have "fst ` set (filter (\<lambda>(q, _). below dir q) (fs_files s)) = {p. below dir p \<and> disk s p \<noteq> None}"
    unfolding disk_in_files by auto
  then show ?thesis
    using assms by (simp add: walkFiles_def split: if_splits) auto
qed

lemma discard_Inr: "discard m s = (Inr u, t) \<Longrightarrow> \<exists>r. m s = (r, t)"
  by (auto simp: discard_def split: prod.splits sum.splits)

lemma tryS_Inr [simp]: "tryS m s = (Inr r, t) \<longleftrightarrow> m s = (r, t)"
  by (auto simp: tryS_def split: prod.splits)

lemma tryS_not_Inl [simp]: "tryS m s \<noteq> (Inl e, t)"
  by (auto simp: tryS_def split: prod.splits)

section \<open>\<open>utils.FindFilesByExtension\<close>\<close>

definition has_ext :: "string \<Rightarrow> string \<Rightarrow> bool" where
  "has_ext ext path \<longleftrightarrow> toLower (Ext (Base path)) = toLower ext"

definition FindFilesByExtension :: "string \<Rightarrow> string \<Rightarrow> (fsys, string list) io" where
  "FindFilesByExtension dir ext =
     bindS (tryS (osStat dir)) (\<lambda>st.
     case st of
       Inl e \<Rightarrow>
         if IsNotExist e then returnS [] else mapS (filter (has_ext ext)) (walkFiles dir)
     | Inr _ \<Rightarrow> mapS (filter (has_ext ext)) (walkFiles dir))"

text \<open>The files found.\<close>

definition files_with :: "fsys \<Rightarrow> string \<Rightarrow> string \<Rightarrow> string set" where
  "files_with s dir ext =
     {p. disk s p \<noteq> None \<and> has_ext ext p \<and> (if disk s dir \<noteq> None then p = dir else below dir p)}"

lemma FindFiles_Inr:
  assumes "FindFilesByExtension dir ext s = (Inr ps, t)"
  shows "t = s \<and> set ps = files_with s dir ext"
proof -
  obtain st u where st: "osStat dir s = (st, u)" by fastforce
  have u: "u = s" using osStat_state [OF st] by simp
  show ?thesis
  proof (cases "st = Inl not_exist")
    case True
    then have "lookup dir s = Inl not_exist" using st
      by (auto simp: osStat_def with_fault_def split: option.splits)
    then have "disk s dir = None" "\<not> list_ex (\<lambda>(q, _). below dir q) (fs_files s)"
      by (auto simp: lookup_def split: option.splits if_splits)
    then have "files_with s dir ext = {}"
      by (auto simp: files_with_def list_ex_iff dest!: map_of_SomeD)
    with True st u assms(1) show ?thesis
      by (simp add: FindFilesByExtension_def bindS_def tryS_def IsNotExist_def)
  next
    case False
    then have "mapS (filter (has_ext ext)) (walkFiles dir) s = (Inr ps, t)"
      using st u assms(1) by (auto simp: FindFilesByExtension_def bindS_def tryS_def IsNotExist_def split: sum.splits)
    then show ?thesis
      by (auto simp: files_with_def elim!: mapS_InrE dest!: walkFiles_Inr split: if_splits)
  qed
qed

lemma FindFiles_state: "FindFilesByExtension dir ext s = (r, t) \<Longrightarrow> t = s"
  by (auto simp: FindFilesByExtension_def bindS_def tryS_def mapS_def returnS_def
      split: sum.splits prod.splits if_splits dest!: osStat_state walkFiles_state)

section \<open>What an operation leaves alone\<close>

text \<open>\<open>touches A m\<close>: whatever \<open>m\<close> returns, it changes no file outside \<open>A\<close>.\<close>

definition touches :: "string set \<Rightarrow> (fsys, 'a) io \<Rightarrow> bool" where
  "touches A m \<longleftrightarrow>
     (\<forall>s r t. m s = (r, t) \<longrightarrow> fs_fault t = fs_fault s \<and> (\<forall>p. p \<notin> A \<longrightarrow> disk t p = disk s p))"

named_theorems frame_intros \<open>which files an operation can change\<close>

lemma touchesI:
  assumes "\<And>s r t. m s = (r, t) \<Longrightarrow> fs_fault t = fs_fault s \<and> (\<forall>p. p \<notin> A \<longrightarrow> disk t p = disk s p)"
  shows "touches A m"
  using assms by (simp add: touches_def)

lemma touchesD:
  assumes "touches A m" and "m s = (r, t)"
  shows "fs_fault t = fs_fault s" and "p \<notin> A \<Longrightarrow> disk t p = disk s p"
  using assms by (auto simp: touches_def)

lemma touches_mono: "touches A m \<Longrightarrow> A \<subseteq> B \<Longrightarrow> touches B m"
  unfolding touches_def by blast

lemma touches_returnS [frame_intros]: "touches A (returnS x)"
  by (rule touchesI) auto

lemma touches_throwS [frame_intros]: "touches A (throwS e)"
  by (rule touchesI) auto

lemma touches_bindS [frame_intros]:
  assumes "touches A m" and "\<And>x. touches A (f x)"
  shows "touches A (bindS m f)"
proof (rule touchesI)
  fix s r t assume run: "bindS m f s = (r, t)"
  obtain q u where q: "m s = (q, u)" by fastforce
  note m = touchesD [OF assms(1) q]
  show "fs_fault t = fs_fault s \<and> (\<forall>p. p \<notin> A \<longrightarrow> disk t p = disk s p)"
  proof (cases q)
    case (Inl e)
    with run q m show ?thesis by (simp add: bindS_def)
  next
    case (Inr x)
    with run q have "f x u = (r, t)" by (simp add: bindS_def)
    from touchesD [OF assms(2) this] m show ?thesis by simp
  qed
qed

lemma touches_If [frame_intros]:
  "(b \<Longrightarrow> touches A m) \<Longrightarrow> (\<not> b \<Longrightarrow> touches A n) \<Longrightarrow> touches A (if b then m else n)"
  by simp

lemma touches_wrapErr [frame_intros]:
  assumes "touches A m" shows "touches A (wrapErr msg m)"
proof (rule touchesI)
  fix s r t assume run: "wrapErr msg m s = (r, t)"
  obtain q u where q: "m s = (q, u)" by fastforce
  with run have "u = t" by (auto simp: wrapErr_def split: sum.splits)
  with touchesD [OF assms q] show "fs_fault t = fs_fault s \<and> (\<forall>p. p \<notin> A \<longrightarrow> disk t p = disk s p)" by simp
qed

lemma touches_discard [frame_intros]:
  assumes "touches A m" shows "touches A (discard m)"
proof (rule touchesI)
  fix s r t assume run: "discard m s = (r, t)"
  obtain q u where q: "m s = (q, u)" by fastforce
  with run have "u = t" by (auto simp: discard_def split: sum.splits if_splits)
  with touchesD [OF assms q] show "fs_fault t = fs_fault s \<and> (\<forall>p. p \<notin> A \<longrightarrow> disk t p = disk s p)" by simp
qed

lemma touches_tryS [frame_intros]:
  assumes "touches A m" shows "touches A (tryS m)"
proof (rule touchesI)
  fix s r t assume "tryS m s = (r, t)"
  then obtain q where "m s = (q, t)" by (cases "m s") (auto simp: tryS_def)
  from touchesD [OF assms this] show "fs_fault t = fs_fault s \<and> (\<forall>p. p \<notin> A \<longrightarrow> disk t p = disk s p)" by simp
qed

lemma touches_with_fault:
  assumes "touches A m" shows "touches A (with_fault op p m)"
  using assms by (auto simp: touches_def with_fault_def split: option.splits)

lemma touches_osStat [frame_intros]: "touches A (osStat p)"
  by (rule touchesI) (auto dest: osStat_state)

lemma touches_osReadFile [frame_intros]: "touches A (osReadFile p)"
  by (rule touchesI) (auto dest: osReadFile_state)

lemma touches_osMkdirAll [frame_intros]: "touches A (osMkdirAll p)"
  by (rule touchesI) (auto dest: osMkdirAll_state)

lemma touches_walkFiles [frame_intros]: "touches A (walkFiles p)"
  by (rule touchesI) (auto dest: walkFiles_state)

lemma touches_osCreate [frame_intros]: "p \<in> A \<Longrightarrow> touches A (osCreate p)"
  unfolding osCreate_def by (rule touches_with_fault) (auto simp: touches_def update_conv' split: if_splits)

lemma touches_osWrite [frame_intros]: "p \<in> A \<Longrightarrow> touches A (osWrite p b)"
  unfolding osWrite_def by (rule touches_with_fault) (auto simp: touches_def update_conv')

lemma touches_osWriteFile [frame_intros]: "p \<in> A \<Longrightarrow> touches A (osWriteFile p b)"
  unfolding osWriteFile_def by (intro frame_intros)

lemma touches_osRemove [frame_intros]: "p \<in> A \<Longrightarrow> touches A (osRemove p)"
  unfolding osRemove_def
  by (rule touches_with_fault) (auto simp: touches_def delete_conv' split: sum.splits file_info.splits)

lemma touches_osRemoveAll [frame_intros]: "p \<in> A \<Longrightarrow> {q. below p q} \<subseteq> A \<Longrightarrow> touches A (osRemoveAll p)"
  unfolding osRemoveAll_def
  by (rule touches_with_fault) (auto simp: touches_def map_of_filter_key)

lemma touches_osRename [frame_intros]: "src \<in> A \<Longrightarrow> dst \<in> A \<Longrightarrow> touches A (osRename src dst)"
  unfolding osRename_def
  by (rule touches_with_fault) (auto simp: touches_def update_conv' delete_conv' split: option.splits if_splits)

lemma touches_FindFiles [frame_intros]: "touches A (FindFilesByExtension dir ext)"
  by (rule touchesI) (auto dest: FindFiles_state)

text \<open>A directory that is not there.\<close>

lemma lookup_missing: "lookup d s = Inl e \<Longrightarrow> disk s d = None \<and> (\<forall>p. below d p \<longrightarrow> disk s p = None)"
proof -
  assume l: "lookup d s = Inl e"
  then have d: "disk s d = None" "\<not> list_ex (\<lambda>(q, _). below d q) (fs_files s)"
    by (auto simp: lookup_def split: option.splits if_splits)
  have "disk s p = None" if "below d p" for p
    using d(2) that by (cases "disk s p") (auto simp: list_ex_iff dest!: map_of_SomeD)
  with d(1) show ?thesis by simp
qed

end
