(* ===== verification/Exporter.thy ===== *)
theory Exporter
  imports FileSys AcbTracks HcaDecoder UsmMeta ResultPath
begin

text \<open>
  \<open>internal/exporter\<close>: the conversions with ffmpeg and the exports of HCA, USM and ACB files, on the file
  system of \<open>FileSys\<close>. Parameters are \<open>run\<close> (a command and its arguments: \<open>exec.Command(...).Run\<close>), the
  PNG decoder and the WebP encoder, the floating point operations, Shift-JIS decoding and the random part of a
  temporary directory's name.

  The workers of a pool are modelled one after the other, in the order the jobs are sent; \<open>fate\<close>
  says at which job the context ended. A job works on files of its own.
\<close>

section \<open>Converters\<close>

record FrameRate =
  fr_Numerator :: int
  fr_Denominator :: int

definition FrameRate_String :: "FrameRate \<Rightarrow> string" where
  "FrameRate_String f =
     (if fr_Denominator f \<le> 1 then show_int (fr_Numerator f)
      else show_int (fr_Numerator f) @ ''/'' @ show_int (fr_Denominator f))"

record limitedBuffer =
  lb_buf :: bytes
  lb_limit :: int

definition limitedWrite :: "limitedBuffer \<Rightarrow> bytes \<Rightarrow> (int \<times> go_err option) \<times> limitedBuffer" where
  "limitedWrite b p =
     (let b' = (if lb_limit b \<le> 0 \<or> int (length (lb_buf b)) < lb_limit b then
          let remaining = lb_limit b - int (length (lb_buf b));
              remaining = (if lb_limit b \<le> 0 \<or> remaining > int (length p) then int (length p) else remaining)
          in if remaining > 0 then b\<lparr>lb_buf := lb_buf b @ take (nat remaining) p\<rparr> else b
        else b)
      in ((int (length p), None), b'))"

type_synonym tool = "string \<Rightarrow> string list \<Rightarrow> (fsys, unit) io"

definition ffmpegBaseArgs :: "string list \<Rightarrow> string list" where
  "ffmpegBaseArgs args = [''-hide_banner'', ''-nostats'', ''-loglevel'', ''error''] @ args"

definition validateOutputFile :: "string \<Rightarrow> (fsys, unit) io" where
  "validateOutputFile path =
     bindS (wrapErr ''output file not found after ffmpeg conversion'' (osStat path)) (\<lambda>stat.
     if stat = RegularFile 0 then
       bindS (discard (osRemove path)) (\<lambda>_. throwS (Failure ''output file is empty after ffmpeg conversion''))
     else returnS ())"

text \<open>\<open>if _, err := os.Stat(p); err == nil { os.Remove(p) }\<close>.\<close>

definition removeIfThere :: "string \<Rightarrow> string \<Rightarrow> (fsys, unit) io" where
  "removeIfThere msg p =
     bindS (tryS (osStat p)) (\<lambda>st.
     case st of Inl _ \<Rightarrow> returnS () | Inr _ \<Rightarrow> wrapErr msg (osRemove p))"

definition ConvertPNGToWebP ::
    "(bytes \<Rightarrow> go_err + 'img) \<Rightarrow> ('img \<Rightarrow> go_err + bytes) \<Rightarrow> string \<Rightarrow> string \<Rightarrow> (fsys, unit) io" where
  "ConvertPNGToWebP decode encode pngFile webpFile =
     bindS (wrapErr ''failed to open PNG file'' (osReadFile pngFile)) (\<lambda>data.
     case decode data of
       Inl _ \<Rightarrow> throwS (Failure ''failed to decode PNG'')
     | Inr img \<Rightarrow>
         bindS (wrapErr ''failed to create WebP file'' (osCreate webpFile)) (\<lambda>_.
         case encode img of
           Inl _ \<Rightarrow> bindS (discard (osRemove webpFile)) (\<lambda>_. throwS (Failure ''failed to encode WebP''))
         | Inr out \<Rightarrow>
             bindS (tryS (osWrite webpFile out)) (\<lambda>r.
             case r of
               Inl _ \<Rightarrow> bindS (discard (osRemove webpFile)) (\<lambda>_. throwS (Failure ''failed to encode WebP''))
             | Inr _ \<Rightarrow> returnS ())))"

definition ConvertM2VToMP4 ::
    "tool \<Rightarrow> string \<Rightarrow> string \<Rightarrow> bool \<Rightarrow> string \<Rightarrow> FrameRate option \<Rightarrow> (fsys, unit) io" where
  "ConvertM2VToMP4 run m2vFile mp4File deleteOriginal ffmpegPath frameRate =
     (let rate = (case frameRate of Some f \<Rightarrow> [''-r'', FrameRate_String f] | None \<Rightarrow> []);
          args = rate @ [''-i'', m2vFile, ''-c:v'', ''libx264''] @ rate @ [''-y'', mp4File]
      in bindS (wrapErr ''failed to convert M2V to MP4'' (run ffmpegPath (ffmpegBaseArgs args))) (\<lambda>_.
         bindS (validateOutputFile mp4File) (\<lambda>_.
         if deleteOriginal then wrapErr ''failed to delete original M2V file'' (osRemove m2vFile)
         else returnS ())))"

definition ConvertUSMToMP4 :: "tool \<Rightarrow> string \<Rightarrow> string \<Rightarrow> string \<Rightarrow> (fsys, unit) io" where
  "ConvertUSMToMP4 run usmFile mp4File ffmpegPath =
     bindS (wrapErr ''failed to convert USM to MP4''
       (run ffmpegPath (ffmpegBaseArgs
         [''-i'', usmFile, ''-c:v'', ''libx264'', ''-c:a'', ''aac'', ''-b:a'', ''192k'',
          ''-movflags'', ''+faststart'', ''-y'', mp4File]))) (\<lambda>_.
     validateOutputFile mp4File)"

definition ConvertWavToFLAC_file :: "tool \<Rightarrow> string \<Rightarrow> string \<Rightarrow> bool \<Rightarrow> string \<Rightarrow> (fsys, unit) io" where
  "ConvertWavToFLAC_file run wavFile flacFile deleteOriginal ffmpegPath =
     bindS (wrapErr ''failed to convert WAV to FLAC''
       (run ffmpegPath (ffmpegBaseArgs [''-i'', wavFile, ''-compression_level'', ''12'', ''-y'', flacFile]))) (\<lambda>_.
     bindS (validateOutputFile flacFile) (\<lambda>_.
     if deleteOriginal then removeIfThere ''failed to delete original WAV file'' wavFile else returnS ()))"

definition ConvertWavToMP3 :: "tool \<Rightarrow> string \<Rightarrow> string \<Rightarrow> bool \<Rightarrow> string \<Rightarrow> (fsys, unit) io" where
  "ConvertWavToMP3 run wavFile mp3File deleteOriginal ffmpegPath =
     bindS (wrapErr ''failed to convert WAV to MP3''
       (run ffmpegPath (ffmpegBaseArgs [''-i'', wavFile, ''-b:a'', ''320k'', ''-y'', mp3File]))) (\<lambda>_.
     bindS (validateOutputFile mp3File) (\<lambda>_.
     if deleteOriginal then removeIfThere ''failed to delete original WAV file'' wavFile else returnS ()))"

section \<open>HCA\<close>

text \<open>\<open>hca.NewHCADecoder\<close> and \<open>DecodeToWav\<close> into the created file.\<close>

definition openHCA :: "'f float_ops \<Rightarrow> string \<Rightarrow> (fsys, (byte_reader, 'f) dec) io" where
  "openHCA F hcaFile =
     bindS (osReadFile hcaFile) (\<lambda>data s.
       case NewHCADecoderFromReader bytes_ops F (new_reader data) of
         (Inl e, _) \<Rightarrow> (Inl e, s)
       | (Inr d, r) \<Rightarrow> (Inr (r, d), s))"

definition decodeIntoFile :: "'f float_ops \<Rightarrow> string \<Rightarrow> (byte_reader, 'f) dec \<Rightarrow> (fsys, unit) io" where
  "decodeIntoFile F wavFile st =
     (case DecodeToWav bytes_ops F \<lparr>wr_out = [], wr_limit = None\<rparr> st of
        (e, w, _) \<Rightarrow>
          bindS (osWrite wavFile (wr_out w)) (\<lambda>_.
            case e of None \<Rightarrow> returnS () | Some err \<Rightarrow> throwS err))"

definition ExportHCA ::
    "tool \<Rightarrow> 'f float_ops \<Rightarrow> string \<Rightarrow> string \<Rightarrow> bool \<Rightarrow> bool \<Rightarrow> bool \<Rightarrow> string \<Rightarrow> (fsys, unit) io" where
  "ExportHCA run F hcaFile outputDir convertToMP3 convertToFLAC deleteOriginalWav ffmpegPath =
     (let baseName = trimSuffix (Base hcaFile) (Ext hcaFile);
          wavFile = Join [Dir hcaFile, baseName @ ''.wav'']
      in bindS (wrapErr ''failed to create HCA decoder'' (openHCA F hcaFile)) (\<lambda>decoder.
         bindS (wrapErr ''failed to create WAV file'' (osCreate wavFile)) (\<lambda>_.
         bindS (wrapErr ''failed to decode HCA to WAV'' (decodeIntoFile F wavFile decoder)) (\<lambda>_.
         bindS (if convertToMP3 then
                  wrapErr ''failed to convert WAV to MP3''
                    (ConvertWavToMP3 run wavFile (Join [outputDir, baseName @ ''.mp3'']) deleteOriginalWav ffmpegPath)
                else if convertToFLAC then
                  wrapErr ''failed to convert WAV to FLAC''
                    (ConvertWavToFLAC_file run wavFile (Join [outputDir, baseName @ ''.flac'']) deleteOriginalWav ffmpegPath)
                else if deleteOriginalWav then removeIfThere ''failed to delete original WAV file'' wavFile
                else returnS ()) (\<lambda>_.
         wrapErr ''failed to delete original HCA file'' (osRemove hcaFile))))))"

section \<open>USM\<close>

text \<open>\<open>os.Create\<close> for the extractor: an open file that is written later.\<close>

definition createIn :: "fsys \<Rightarrow> string \<Rightarrow> go_err + writer" where
  "createIn s p = (case osCreate p s of (Inl e, _) \<Rightarrow> Inl e | (Inr _, _) \<Rightarrow> Inr \<lparr>wr_out = [], wr_limit = None\<rparr>)"

definition openIn :: "fsys \<Rightarrow> string \<Rightarrow> go_err + bytes" where
  "openIn s p = fst (osReadFile p s)"

definition extractUSMInto ::
    "(bytes \<Rightarrow> go_err + string) \<Rightarrow> string \<Rightarrow> string \<Rightarrow> u64 option \<Rightarrow> bool \<Rightarrow> (fsys, string list) io" where
  "extractUSMInto sj usmFile targetDir key exportAudio s =
     (case ExtractUSMFile sj (createIn s) (openIn s) usmFile targetDir key exportAudio of
        Inl e \<Rightarrow> (Inl e, s)
      | Inr (paths, (video, audio)) \<Rightarrow>
          (Inr paths,
           s\<lparr>fs_files := fold (\<lambda>(p, w). AList.update p (wr_out w))
               (zip paths (video # (case audio of Some a \<Rightarrow> [a] | None \<Rightarrow> []))) (fs_files s)\<rparr>))"

fun forEachS :: "('a \<Rightarrow> ('s, unit) io) \<Rightarrow> 'a list \<Rightarrow> ('s, unit) io" where
  "forEachS f [] = returnS ()"
| "forEachS f (x # xs) = bindS (f x) (\<lambda>_. forEachS f xs)"

definition ExportUSM ::
    "tool \<Rightarrow> (u32 \<Rightarrow> int) \<Rightarrow> (bytes \<Rightarrow> go_err + string) \<Rightarrow> string \<Rightarrow> string \<Rightarrow> bool \<Rightarrow> bool \<Rightarrow> bool \<Rightarrow> string \<Rightarrow>
     (fsys, unit) io" where
  "ExportUSM run f32 sj usmFile outputDir convertToMP4 directUSMToMP4WithFFmpeg deleteOriginalM2V ffmpegPath =
     (let outputName = trimSuffix (Base usmFile) (Ext usmFile);
          mp4File = Join [outputDir, outputName @ ''.mp4'']
      in if convertToMP4 \<and> directUSMToMP4WithFFmpeg then
           bindS (wrapErr ''failed to convert USM to MP4 directly'' (ConvertUSMToMP4 run usmFile mp4File ffmpegPath)) (\<lambda>_.
           wrapErr ''failed to delete original USM file'' (osRemove usmFile))
         else
           bindS (\<lambda>s. (Inr (ReadVideoFrameRateFile f32 sj (openIn s) usmFile), s)) (\<lambda>rate.
           let frameRate = (case rate of
                 Inr (numerator, denominator) \<Rightarrow>
                   if numerator > 0 \<and> denominator > 0
                   then Some \<lparr>fr_Numerator = numerator, fr_Denominator = denominator\<rparr> else None
               | Inl _ \<Rightarrow> None)
           in bindS (wrapErr ''failed to extract USM file'' (extractUSMInto sj usmFile outputDir None False)) (\<lambda>extractedFiles.
              bindS (if convertToMP4 then
                       forEachS (\<lambda>extractedFile.
                         if toLower (Ext extractedFile) = ''.m2v'' then
                           wrapErr ''failed to convert M2V to MP4''
                             (ConvertM2VToMP4 run extractedFile mp4File deleteOriginalM2V ffmpegPath frameRate)
                         else returnS ()) extractedFiles
                     else returnS ()) (\<lambda>_.
              wrapErr ''failed to delete original USM file'' (osRemove usmFile)))))"

section \<open>Pools of workers\<close>

text \<open>
  What happens to a job: it is run; or the context ends while it waits for the limiter; or the
  context ends before it is sent, which ends the sending.
\<close>

datatype fate = Runs | NoSlot | NotSent

text \<open>A panic of a job is recovered. The result: whether the sending was cancelled, and the errors.\<close>

fun run_jobs ::
    "('j \<Rightarrow> fate) \<Rightarrow> ('j \<Rightarrow> ('s, unit) io) \<Rightarrow> 'j list \<Rightarrow> 's \<Rightarrow> (bool \<times> go_err list) \<times> 's" where
  "run_jobs fate job [] s = ((False, []), s)"
| "run_jobs fate job (j # js) s =
     (case fate j of
        NotSent \<Rightarrow> ((True, []), s)
      | NoSlot \<Rightarrow> (case run_jobs fate job js s of ((c, es), s') \<Rightarrow> ((c, Canceled # es), s'))
      | Runs \<Rightarrow>
          (case job j s of
             (Inr _, s') \<Rightarrow> run_jobs fate job js s'
           | (Inl e, s') \<Rightarrow> (case run_jobs fate job js s' of ((c, es), s'') \<Rightarrow> ((c, Failure ''export failed'' # es), s''))))"

definition pool :: "string \<Rightarrow> ('j \<Rightarrow> fate) \<Rightarrow> ('j \<Rightarrow> ('s, unit) io) \<Rightarrow> 'j list \<Rightarrow> ('s, unit) io" where
  "pool msg fate job js s =
     (case run_jobs fate job js s of
        ((canceled, errs), s') \<Rightarrow>
          (if canceled then Inl Canceled else if errs \<noteq> [] then Inl (Failure msg) else Inr (), s'))"

text \<open>The number of workers; it only says how many jobs run at a time.\<close>

definition hcaWorkers :: "int \<Rightarrow> nat \<Rightarrow> int" where
  "hcaWorkers concurrentHCA files =
     (let maxWorkers = (if concurrentHCA \<le> 0 then 16 else concurrentHCA);
          maxWorkers = (if maxWorkers > int files then int files else maxWorkers)
      in if maxWorkers \<le> 0 then 1 else maxWorkers)"

definition exportHCAFiles ::
    "tool \<Rightarrow> 'f float_ops \<Rightarrow> (string \<Rightarrow> fate) \<Rightarrow> string list \<Rightarrow> string \<Rightarrow> bool \<Rightarrow> bool \<Rightarrow> bool \<Rightarrow> string \<Rightarrow> (fsys, unit) io" where
  "exportHCAFiles run F fate hcaFiles extractDir convertToMP3 convertToFLAC deleteOriginalWav ffmpegPath =
     pool ''failed to export HCA files'' fate
       (\<lambda>hcaPath. ExportHCA run F hcaPath extractDir convertToMP3 convertToFLAC deleteOriginalWav ffmpegPath) hcaFiles"

section \<open>ACB\<close>

text \<open>The regular files \<open>os.ReadDir\<close> lists, by name.\<close>

definition readDirFiles :: "string \<Rightarrow> (fsys, string list) io" where
  "readDirFiles dir = with_fault OpWalk dir (\<lambda>s.
     (Inr (sort (filter (\<lambda>n. CHR ''/'' \<notin> set n) (map (\<lambda>(q, _). drop (length dir + 1) q)
        (filter (\<lambda>(q, _). below dir q) (fs_files s))))), s))"

definition resultExts :: "string list" where
  "resultExts = [''.mp3'', ''.flac'', ''.wav'']"

definition moveResultFiles :: "string \<Rightarrow> string \<Rightarrow> (fsys, unit) io" where
  "moveResultFiles srcDir dstDir =
     bindS (readDirFiles srcDir) (\<lambda>entries.
     forEachS (\<lambda>name.
       if toLower (Ext name) \<in> set resultExts
       then wrapErr ''failed to move'' (osRename (Join [srcDir, name]) (Join [dstDir, name]))
       else returnS ()) entries)"

definition mkdirTemp :: "string \<Rightarrow> string \<Rightarrow> (fsys, string) io" where
  "mkdirTemp parentDir rnd = with_fault OpCreate parentDir (\<lambda>s.
     let d = Join [parentDir, ''acb-extract-'' @ rnd]
     in if lookup d s = Inl not_exist then (Inr d, s) else (Inl (Failure ''file exists''), s))"

text \<open>
  The tracks are written one by one; a write that fails loses its track without an error, and so
  does a track whose name leads to a directory that is not there.
\<close>

definition writeTrack :: "string \<Rightarrow> string \<times> bytes \<Rightarrow> (fsys, unit) io" where
  "writeTrack dir f s =
     (if Dir (fst f) = dir \<or> lookup (Dir (fst f)) s = Inr Directory
      then discard (osWriteFile (fst f) (snd f)) s else (Inr (), s))"

definition extractACBInto :: "string \<Rightarrow> string \<Rightarrow> (fsys, unit) io" where
  "extractACBInto acbFile extractDir =
     bindS (\<lambda>s. (ExtractACBFromFile (disk s) acbFile extractDir, s)) (\<lambda>fs.
       forEachS (writeTrack extractDir) fs)"

definition isVariant :: "string \<Rightarrow> bool" where
  "isVariant hf \<longleftrightarrow>
     (let bn = toLower (Base hf) in hasSuffix bn ''_vr.hca'' \<or> hasSuffix bn ''_screen.hca'')"

definition dropVariants :: "string \<Rightarrow> string list \<Rightarrow> (fsys, string list) io" where
  "dropVariants acbFile hcaFiles =
     (if containsStr (toLower acbFile) ''music/long'' then
        bindS (forEachS (\<lambda>hf. if isVariant hf then discard (osRemove hf) else returnS ()) hcaFiles) (\<lambda>_.
          returnS (filter (\<lambda>hf. \<not> isVariant hf) hcaFiles))
      else returnS hcaFiles)"

text \<open>A deferred call that is run whether the body succeeds or not.\<close>

definition deferS :: "('s, unit) io \<Rightarrow> ('s, 'a) io \<Rightarrow> ('s, 'a) io" where
  "deferS d m s = (case m s of (r, s') \<Rightarrow> (case discard d s' of (Inl e, s'') \<Rightarrow> (Inl e, s'') | (Inr _, s'') \<Rightarrow> (r, s'')))"

definition ExportACB ::
    "tool \<Rightarrow> 'f float_ops \<Rightarrow> (string \<Rightarrow> fate) \<Rightarrow> string \<Rightarrow> string \<Rightarrow> string \<Rightarrow> bool \<Rightarrow> bool \<Rightarrow> bool \<Rightarrow> bool \<Rightarrow> string \<Rightarrow>
     (fsys, unit) io" where
  "ExportACB run F fate rnd acbFile outputDir decodeHCA deleteOriginalWav convertToMP3 convertToFLAC ffmpegPath =
     bindS (wrapErr ''failed to create extraction directory'' (mkdirTemp (Dir acbFile) rnd)) (\<lambda>extractDir.
     deferS (osRemoveAll extractDir)
       (bindS (wrapErr ''failed to extract ACB file'' (extractACBInto acbFile extractDir)) (\<lambda>_.
        bindS (wrapErr ''failed to find HCA files'' (FindFilesByExtension extractDir ''.hca'')) (\<lambda>hcaFiles.
        bindS (dropVariants acbFile hcaFiles) (\<lambda>hcaFiles.
        bindS (if decodeHCA \<and> hcaFiles \<noteq> [] then
                 bindS (exportHCAFiles run F fate hcaFiles extractDir convertToMP3 convertToFLAC deleteOriginalWav ffmpegPath) (\<lambda>_.
                 wrapErr ''failed to move results to output dir'' (moveResultFiles extractDir outputDir))
               else returnS ()) (\<lambda>_.
        wrapErr ''failed to delete original ACB file'' (osRemove acbFile)))))))"

section \<open>The buffer for the messages of ffmpeg\<close>

lemma limitedWrite_take:
  assumes "lb_limit b \<le> 0 \<or> int (length (lb_buf b)) \<le> lb_limit b"
  shows "limitedWrite b p = ((int (length p), None),
    b\<lparr>lb_buf := (if lb_limit b \<le> 0 then lb_buf b @ p else take (nat (lb_limit b)) (lb_buf b @ p))\<rparr>)"
proof (cases "lb_limit b \<le> 0")
  case True
  then show ?thesis by (simp add: limitedWrite_def Let_def)
next
  case False
  with assms have l: "int (length (lb_buf b)) \<le> lb_limit b" by simp
  have "nat (lb_limit b) - length (lb_buf b) = nat (lb_limit b - int (length (lb_buf b)))" by simp
  with False l show ?thesis by (auto simp: limitedWrite_def Let_def)
qed

text \<open>
  The messages of ffmpeg that are kept for an error are bounded, and lose nothing but their end: however
  they are cut into writes, the buffer holds the first bytes of the whole up to its limit (all of it if there is
  no limit), and every write reports that all its bytes were taken, so that the command never stops on a
  short write.
\<close>

theorem stderr_is_bounded:
  "fold (\<lambda>p b. snd (limitedWrite b p)) ps \<lparr>lb_buf = [], lb_limit = l\<rparr>
     = \<lparr>lb_buf = (if l \<le> 0 then concat ps else take (nat l) (concat ps)), lb_limit = l\<rparr> \<and>
   fst (limitedWrite b p) = (int (length p), None)"
proof -
  have "fold (\<lambda>p b. snd (limitedWrite b p)) ps \<lparr>lb_buf = (if l \<le> 0 then q else take (nat l) q), lb_limit = l\<rparr>
     = \<lparr>lb_buf = (if l \<le> 0 then q @ concat ps else take (nat l) (q @ concat ps)), lb_limit = l\<rparr>" for q
  proof (induction ps arbitrary: q)
    case Nil
    show ?case by simp
  next
    case (Cons p ps)
    have "snd (limitedWrite \<lparr>lb_buf = (if l \<le> 0 then q else take (nat l) q), lb_limit = l\<rparr> p) =
        \<lparr>lb_buf = (if l \<le> 0 then q @ p else take (nat l) (q @ p)), lb_limit = l\<rparr>"
      by (subst limitedWrite_take) (auto simp: min_def)
    then show ?case using Cons [of "q @ p"] by simp
  qed
  from this [of "[]"] have "fold (\<lambda>p b. snd (limitedWrite b p)) ps \<lparr>lb_buf = [], lb_limit = l\<rparr>
     = \<lparr>lb_buf = (if l \<le> 0 then concat ps else take (nat l) (concat ps)), lb_limit = l\<rparr>"
    by (cases "l \<le> 0") simp_all
  moreover have "fst (limitedWrite b p) = (int (length p), None)" by (simp add: limitedWrite_def Let_def)
  ultimately show ?thesis ..
qed

section \<open>A bank that is not decoded\<close>

lemma touches_forEachS [frame_intros]:
  assumes "\<And>x. x \<in> set xs \<Longrightarrow> touches A (f x)" shows "touches A (forEachS f xs)"
  using assms by (induction xs) (auto intro!: frame_intros)

lemma touches_writeTrack [frame_intros]:
  assumes "fst f \<in> A" shows "touches A (writeTrack d f)"
proof (rule touchesI)
  fix s r t assume run: "writeTrack d f s = (r, t)"
  have w: "touches A (discard (osWriteFile (fst f) (snd f)))" using assms by (intro frame_intros)
  show "fs_fault t = fs_fault s \<and> (\<forall>p. p \<notin> A \<longrightarrow> disk t p = disk s p)"
    using run touchesD [OF w] unfolding writeTrack_def by (auto split: if_splits)
qed

lemma extractACBInto_Inr:
  assumes "extractACBInto a d s = (Inr u, t)"
    and "\<And>fs f. ExtractACBFromFile (disk s) a d = Inr fs \<Longrightarrow> f \<in> set fs \<Longrightarrow> fst f \<in> A"
  shows "fs_fault t = fs_fault s \<and> (\<forall>p. p \<notin> A \<longrightarrow> disk t p = disk s p)"
proof -
  obtain fs where fs: "ExtractACBFromFile (disk s) a d = Inr fs" "forEachS (writeTrack d) fs s = (Inr u, t)"
    using assms(1) by (auto simp: extractACBInto_def elim!: bindS_InrE)
  have "touches A (forEachS (writeTrack d) fs)"
    using assms(2) [OF fs(1)] by (intro frame_intros) auto
  from touchesD [OF this fs(2)] show ?thesis by blast
qed

lemma dropVariants_touches: "set hs \<subseteq> A \<Longrightarrow> touches A (dropVariants a hs)"
  unfolding dropVariants_def by (intro frame_intros) auto

lemma deferS_Inr:
  assumes "deferS d m s = (Inr x, t)"
  obtains u where "m s = (Inr x, u)" and "\<exists>r. d u = (r, t)"
  using assms by (auto simp: deferS_def split: prod.splits sum.splits dest!: discard_Inr)

definition tempDir :: "string \<Rightarrow> string \<Rightarrow> string" where
  "tempDir acbFile rnd = Join [Dir acbFile, ''acb-extract-'' @ rnd]"

lemma mkdirTemp_Inr:
  "mkdirTemp (Dir a) rnd s = (Inr d, t) \<Longrightarrow>
   t = s \<and> d = tempDir a rnd \<and> disk s d = None \<and> (\<forall>p. below d p \<longrightarrow> disk s p = None)"
  by (auto simp: mkdirTemp_def tempDir_def Let_def dest!: lookup_missing split: if_splits)

text \<open>
  C40: A sound bank that is not decoded is lost. When decoding is switched off, a successful export extracts the
  tracks into its temporary directory, removes that directory, and then removes the bank: what is left
  of the disk is what was there before, without the bank.
\<close>

theorem undecoded_bank_is_lost:
  assumes run: "ExportACB run F fate rnd a out False del mp3 flac ff s = (Inr u, t)"
    and tracks: "\<And>fs f. ExtractACBFromFile (disk s) a (tempDir a rnd) = Inr fs \<Longrightarrow> f \<in> set fs \<Longrightarrow>
      below (tempDir a rnd) (fst f)"
    and "fs_fault s OpRemove (tempDir a rnd) = None"
  shows "disk t = (disk s)(a := None)"
proof -
  let ?d = "tempDir a rnd"
  let ?D = "{p. p = ?d \<or> below ?d p}"
  obtain s1 r s2 hs s3 hs' s4 v where fresh: "disk s ?d = None" "\<forall>p. below ?d p \<longrightarrow> disk s p = None"
    and 1: "extractACBInto a ?d s = (Inr v, s2)" and 2: "FindFilesByExtension ?d ''.hca'' s2 = (Inr hs, s3)"
    and 3: "dropVariants a hs s3 = (Inr hs', s4)" and 4: "osRemove a s4 = (Inr u, s1)"
    and rm: "osRemoveAll ?d s1 = (r, t)"
    using run by (auto simp: ExportACB_def elim!: bindS_InrE deferS_Inr dest!: mkdirTemp_Inr)
  have e1: "fs_fault s2 = fs_fault s" "\<And>p. p \<notin> ?D \<Longrightarrow> disk s2 p = disk s p"
    using extractACBInto_Inr [OF 1, of ?D] tracks by auto
  have e2: "s3 = s2" "set hs \<subseteq> ?D"
    using FindFiles_Inr [OF 2] e1(1) by (auto simp: files_with_def split: if_splits)
  note e3 = touchesD [OF dropVariants_touches [OF e2(2)] 3]
  note e4 = osRemove_Inr [OF 4]
  have "fs_fault s1 OpRemove ?d = None" using e4 e3(1) e2(1) e1(1) assms(3) by simp
  then have "disk t = (\<lambda>q. if q \<in> ?D then None else disk s1 q)"
    using rm by (auto simp: osRemoveAll_def with_fault_def map_of_filter_key fun_eq_iff)
  then show ?thesis
    using e4 e3(2) e2(1) e1(2) fresh by (auto simp: fun_eq_iff)
qed

definition no_tool :: tool where
  "no_tool cmd args s = (Inl (Failure ''not found''), s)"

definition no_floats :: "unit float_ops" where
  "no_floats =
     \<lparr>f_mul = \<lambda>_ _. (), f_add = \<lambda>_ _. (), f_sub = \<lambda>_ _. (), f_less = \<lambda>_ _. False, f_of_int = \<lambda>_. (),
      f_of_bits = \<lambda>_. (), f_to_int32 = \<lambda>_. 0\<rparr>"

theorem undecoded_bank_is_lost_witness:
  "\<exists>t. ExportACB no_tool no_floats (\<lambda>_. Runs) ''7'' ''a/x.acb'' ''a'' False False False False ''ffmpeg''
      \<lparr>fs_files = [(''a/x.acb'', [1, 2]), (''a/y'', [3])], fs_fault = \<lambda>_ _. None\<rparr> = (Inr (), t) \<and>
    disk t = [''a/y'' \<mapsto> [3]]"
proof -
  let ?s = "\<lparr>fs_files = [(''a/x.acb'', [1, 2]), (''a/y'', [3])], fs_fault = \<lambda>_ _. None\<rparr>"
  have p: "Dir ''a/x.acb'' = ''a''" "Join [''a'', ''acb-extract-7''] = ''a/acb-extract-7''"
    "containsStr (toLower ''a/x.acb'') ''music/long'' = False" by code_simp+
  obtain t where t: "ExportACB no_tool no_floats (\<lambda>_. Runs) ''7'' ''a/x.acb'' ''a'' False False False False ''ffmpeg'' ?s = (Inr (), t)"
    by (simp add: ExportACB_def mkdirTemp_def p with_fault_def lookup_def below_def hasPrefix_def deferS_def bindS_def
        wrapErr_def extractACBInto_def ExtractACBFromFile_def returnS_def FindFilesByExtension_def tryS_def osStat_def
        IsNotExist_def dropVariants_def osRemove_def osRemoveAll_def discard_def not_exist_def)
  have "disk t = (disk ?s)(''a/x.acb'' := None)"
    by (rule undecoded_bank_is_lost [OF t]) (simp_all add: ExtractACBFromFile_def)
  with t show ?thesis by (auto simp: fun_eq_iff)
qed

end
