(* ===== verification/PostProcess.thy ===== *)
theory PostProcess
  imports Exporter
begin

text \<open>
  What \<open>internal/unpack/unpacker.go\<close> does to the files AssetStudio exported: which directory it works on,
  and how it converts what is there. Regular expressions are a parameter.
\<close>

section \<open>The directory\<close>

text \<open>\<open>filepath.Rel\<close>, on the components of the two paths.\<close>

fun strip_common :: "'a list \<Rightarrow> 'a list \<Rightarrow> 'a list \<times> 'a list" where
  "strip_common (b # bs) (t # ts) = (if b = t then strip_common bs ts else (b # bs, t # ts))"
| "strip_common bs ts = (bs, ts)"

definition Rel :: "string \<Rightarrow> string \<Rightarrow> go_err + string" where
  "Rel basepath targpath =
     (if Clean basepath = Clean targpath then Inr ''.''
      else if rooted basepath \<noteq> rooted targpath then Inl (Failure ''cannot make relative'')
      else case strip_common (rev (stack_of basepath)) (rev (stack_of targpath)) of
        (bs, ts) \<Rightarrow>
          if bs \<noteq> [] \<and> hd bs = ''..'' then Inl (Failure ''cannot make relative'')
          else Inr (joinWith ''/'' (replicate (length bs) ''..'' @ ts)))"

definition isOutside :: "string \<Rightarrow> string \<Rightarrow> bool" where
  "isOutside expectedPath path =
     (case Rel expectedPath path of
        Inl _ \<Rightarrow> True
      | Inr rel \<Rightarrow> rel = ''..'' \<or> hasPrefix rel ''../'' \<or> hasPrefix rel ''/'')"

definition directoryHasFilesOutside :: "string \<Rightarrow> string \<Rightarrow> (fsys, bool) io" where
  "directoryHasFilesOutside rootDir expectedPath =
     (if rootDir = '''' \<or> expectedPath = '''' then returnS False
      else
        bindS (tryS (osStat rootDir)) (\<lambda>st.
        case st of
          Inl e \<Rightarrow> if IsNotExist e then returnS False else throwS e
        | Inr _ \<Rightarrow> mapS (list_ex (isOutside (Clean expectedPath))) (walkFiles rootDir)))"

definition directoryHasFiles :: "string \<Rightarrow> (fsys, bool) io" where
  "directoryHasFiles rootDir =
     (if rootDir = '''' then returnS False
      else
        bindS (tryS (osStat rootDir)) (\<lambda>st.
        case st of
          Inl e \<Rightarrow> if IsNotExist e then returnS False else throwS e
        | Inr _ \<Rightarrow> mapS (\<lambda>fs. fs \<noteq> []) (walkFiles rootDir)))"

definition resolvePostProcessExportPath :: "string \<Rightarrow> string \<Rightarrow> (fsys, string \<times> bool) io" where
  "resolvePostProcessExportPath expectedPath outputDir =
     (let fallback = bindS (directoryHasFiles outputDir) (\<lambda>hasFiles.
            returnS (if hasFiles then (outputDir, True) else (expectedPath, False)))
      in if expectedPath \<noteq> '''' then
           bindS (tryS (osStat expectedPath)) (\<lambda>st.
           case st of
             Inr _ \<Rightarrow>
               bindS (directoryHasFilesOutside outputDir expectedPath) (\<lambda>hasOutsideFiles.
                 returnS (if hasOutsideFiles then (outputDir, True) else (expectedPath, False)))
           | Inl e \<Rightarrow> if IsNotExist e then fallback else throwS e)
         else fallback)"

section \<open>The call of AssetStudio\<close>

definition getExportGroup :: "string \<Rightarrow> string" where
  "getExportGroup exportPath =
     (if exportPath = '''' then ''container''
      else let p = toLower (trimPrefix exportPath ''/'')
           in if list_ex (hasPrefix p)
                [''event/center'', ''event/thumbnail'', ''gacha/icon'', ''fix_prefab/mc_new'', ''mysekai/character/'']
              then ''containerFull'' else ''container'')"

fun matchAny :: "(string \<Rightarrow> string \<Rightarrow> go_err + bool) \<Rightarrow> string list \<Rightarrow> string \<Rightarrow> go_err + bool" where
  "matchAny matches [] p = Inr False"
| "matchAny matches (pattern # ps) p =
     (case matches pattern p of
        Inl _ \<Rightarrow> Inl (Failure ''invalid mesh obj path pattern'')
      | Inr True \<Rightarrow> Inr True
      | Inr False \<Rightarrow> matchAny matches ps p)"

definition shouldExportMeshOBJ :: "(string \<Rightarrow> string \<Rightarrow> go_err + bool) \<Rightarrow> string \<Rightarrow> ExportOptions \<Rightarrow> go_err + bool" where
  "shouldExportMeshOBJ matches exportPath options =
     (if \<not> ExportMeshOBJ options \<or> MeshOBJPathPatterns options = [] then Inr False
      else matchAny matches (MeshOBJPathPatterns options) (trimPrefix exportPath ''/''))"

definition assetStudioExportTypes :: "(string \<Rightarrow> string \<Rightarrow> go_err + bool) \<Rightarrow> string \<Rightarrow> ExportOptions \<Rightarrow> go_err + string" where
  "assetStudioExportTypes matches exportPath options =
     (case shouldExportMeshOBJ matches exportPath options of
        Inl e \<Rightarrow> Inl e
      | Inr shouldExport \<Rightarrow>
          Inr (joinWith '','' ([''monoBehaviour'', ''textAsset'', ''tex2d'', ''tex2dArray'', ''audio'']
                 @ (if shouldExport then [''mesh''] else []))))"

definition excludePathPrefix :: "string \<Rightarrow> string \<Rightarrow> ExportOptions \<Rightarrow> string" where
  "excludePathPrefix exportPath category options =
     (if ExportByCategory options then ''assets/sekai/assetbundle/resources''
      else if hasPrefix exportPath ''mysekai'' \<and> \<not> ExportByCategory options
      then ''assets/sekai/assetbundle/resources/ondemand''
      else ''assets/sekai/assetbundle/resources/'' @ toLower category)"

definition actualExportPath :: "string \<Rightarrow> string \<Rightarrow> string \<Rightarrow> ExportOptions \<Rightarrow> string" where
  "actualExportPath outputDir exportPath category options =
     (if ExportByCategory options then Join [outputDir, toLower category, exportPath]
      else Join [outputDir, exportPath])"

definition assetStudioArgs :: "string \<Rightarrow> string \<Rightarrow> string \<Rightarrow> string \<Rightarrow> string \<Rightarrow> ExportOptions \<Rightarrow> string list" where
  "assetStudioArgs filePath exportTypes exportPath outputDir category options =
     (let exts = (if ExportUSMFiles options then [] else [''usm'']) @ (if ExportACBFiles options then [] else [''acb''])
      in [filePath, ''-m'', ''export'', ''-t'', exportTypes, ''-g'', getExportGroup exportPath,
          ''-f'', ''assetName'', ''-o'', outputDir,
          ''--strip-path-prefix'', excludePathPrefix exportPath category options,
          ''-r'', ''--filter-exclude-mode'', ''--filter-with-regex'', ''--sekai-keep-single-container-filename'']
         @ (if UnityVersion options \<noteq> '''' then [''--unity-version'', UnityVersion options] else [])
         @ (if exts \<noteq> [] then [''--filter-by-name'', ''.*'' @ [char_of (92 :: nat)] @ ''.('' @ joinWith ''|'' exts @ '')$''] else []))"

section \<open>USM files\<close>

text \<open>\<open>File.ReadFrom\<close> appends what it reads.\<close>

definition appendFile :: "string \<Rightarrow> bytes \<Rightarrow> (fsys, unit) io" where
  "appendFile p b s = osWrite p ((case disk s p of Some old \<Rightarrow> old | None \<Rightarrow> []) @ b) s"

definition merge_one :: "string \<Rightarrow> string \<Rightarrow> (fsys, unit) io" where
  "merge_one mergedFilePath usmFile =
     (if usmFile = mergedFilePath then returnS ()
      else
        bindS (wrapErr ''failed to open'' (osReadFile usmFile)) (\<lambda>src.
        bindS (wrapErr ''failed to copy'' (appendFile mergedFilePath src)) (\<lambda>_.
        wrapErr ''failed to delete merged USM file'' (osRemove usmFile))))"

definition mergedPath :: "string \<Rightarrow> string" where
  "mergedPath dir = Join [dir, Base dir @ ''.usm'']"

definition mergeUSMFiles :: "string \<Rightarrow> string list \<Rightarrow> (fsys, string) io" where
  "mergeUSMFiles dir usmFiles =
     bindS (wrapErr ''failed to create merged file'' (osCreate (mergedPath dir))) (\<lambda>_.
     bindS (forEachS (merge_one (mergedPath dir)) usmFiles) (\<lambda>_. returnS (mergedPath dir)))"

section \<open>ACB files\<close>

text \<open>\<open>fate\<close> is for the pool of ACB files, \<open>hcaFate\<close> for the one inside each; \<open>rnd\<close> names the temporary directory.\<close>

definition handleACBFiles ::
    "(string \<Rightarrow> fate) \<Rightarrow> (string \<Rightarrow> string \<Rightarrow> fate) \<Rightarrow> (string \<Rightarrow> string) \<Rightarrow> tool \<Rightarrow> 'f float_ops \<Rightarrow> string \<Rightarrow> string \<Rightarrow>
     ExportOptions \<Rightarrow> (fsys, unit) io" where
  "handleACBFiles fate hcaFate rnd run F ffmpegPath exportPath options =
     bindS (FindFilesByExtension exportPath ''.acb'') (\<lambda>acbFiles.
     if \<not> ExportACBFiles options \<or> \<not> DecodeACBFiles options \<or> acbFiles = [] then returnS ()
     else
       pool ''failed to export ACB files'' fate
         (\<lambda>a. ExportACB run F (hcaFate a) (rnd a) a (Dir a) (DecodeHCAFiles options) (RemoveWav options)
                (ConvertAudioToMP3 options) (ConvertWavToFLAC options) ffmpegPath) acbFiles)"

definition acbWorkers :: "int \<Rightarrow> nat \<Rightarrow> int" where
  "acbWorkers semCap files =
     (let workerCount = (if semCap > 0 \<and> int files > semCap then semCap else int files)
      in if workerCount \<le> 0 then 1 else workerCount)"

section \<open>WAV and PNG files\<close>

definition outputFileExistsNonEmpty :: "string \<Rightarrow> (fsys, bool) io" where
  "outputFileExistsNonEmpty path =
     bindS (tryS (osStat path)) (\<lambda>st.
     case st of
       Inl e \<Rightarrow> if IsNotExist e then returnS False else throwS e
     | Inr Directory \<Rightarrow> throwS (Failure ''output path is a directory'')
     | Inr (RegularFile n) \<Rightarrow> returnS (n > 0))"

definition removeFileIfExists :: "string \<Rightarrow> (fsys, unit) io" where
  "removeFileIfExists path =
     bindS (tryS (osRemove path)) (\<lambda>r.
     case r of
       Inl e \<Rightarrow> if IsNotExist e then returnS () else throwS (Failure ''failed to remove WAV file'')
     | Inr _ \<Rightarrow> returnS ())"

text \<open>One file: the conversion, unless its output is there, and the removal.\<close>

definition wav_output ::
    "string \<Rightarrow> (string \<Rightarrow> string \<Rightarrow> bool \<Rightarrow> string \<Rightarrow> (fsys, unit) io) \<Rightarrow> string \<Rightarrow> bool \<Rightarrow> string \<Rightarrow> string \<Rightarrow> (fsys, unit) io" where
  "wav_output msg convert out removeWav ffmpegPath wavFile =
     bindS (outputFileExistsNonEmpty out) (\<lambda>exists.
     if \<not> exists then wrapErr msg (convert wavFile out removeWav ffmpegPath)
     else if removeWav then removeFileIfExists wavFile else returnS ())"

definition handle_wav :: "tool \<Rightarrow> ExportOptions \<Rightarrow> string \<Rightarrow> string \<Rightarrow> (fsys, unit) io" where
  "handle_wav run options ffmpegPath wavFile =
     (let basePath = trimSuffix wavFile (Ext wavFile)
      in if ConvertAudioToMP3 options then
           wav_output ''failed to convert standalone WAV to MP3'' (ConvertWavToMP3 run) (basePath @ ''.mp3'')
             (RemoveWav options) ffmpegPath wavFile
         else if ConvertWavToFLAC options then
           wav_output ''failed to convert standalone WAV to FLAC'' (ConvertWavToFLAC_file run) (basePath @ ''.flac'')
             (RemoveWav options) ffmpegPath wavFile
         else if RemoveWav options then removeFileIfExists wavFile
         else returnS ())"

definition handleStandaloneWAVFiles :: "tool \<Rightarrow> string \<Rightarrow> ExportOptions \<Rightarrow> string \<Rightarrow> (fsys, unit) io" where
  "handleStandaloneWAVFiles run exportPath options ffmpegPath =
     (if \<not> ConvertAudioToMP3 options \<and> \<not> ConvertWavToFLAC options \<and> \<not> RemoveWav options then returnS ()
      else
        bindS (FindFilesByExtension exportPath ''.wav'') (\<lambda>wavFiles.
          forEachS (handle_wav run options ffmpegPath) wavFiles))"

definition handlePNGConversion ::
    "(bytes \<Rightarrow> go_err + 'img) \<Rightarrow> ('img \<Rightarrow> go_err + bytes) \<Rightarrow> string \<Rightarrow> ExportOptions \<Rightarrow> (fsys, unit) io" where
  "handlePNGConversion decode encode exportPath options =
     (if \<not> ConvertPhotoToWebP options then returnS ()
      else
        bindS (FindFilesByExtension exportPath ''.png'') (\<lambda>pngFiles.
          forEachS (\<lambda>pngFile.
            let webpFile = trimSuffix pngFile ''.png'' @ ''.webp''
            in bindS (wrapErr ''failed to convert to WebP'' (ConvertPNGToWebP decode encode pngFile webpFile)) (\<lambda>_.
               if RemovePNG options then wrapErr ''failed to remove original PNG'' (osRemove pngFile)
               else returnS ())) pngFiles))"

section \<open>Nothing is outside the directory\<close>

lemma strip_common_split:
  "strip_common bs ts = (bs', ts') \<Longrightarrow> \<exists>c. bs = c @ bs' \<and> ts = c @ ts'"
proof (induction bs ts rule: strip_common.induct)
  case (1 b bs t ts)
  then show ?case by (auto split: if_splits intro: exI [of _ "t # c" for c])
qed auto

lemma joinWith_append:
  "xs \<noteq> [] \<Longrightarrow> ys \<noteq> [] \<Longrightarrow> joinWith ''/'' (xs @ ys) = joinWith ''/'' xs @ ''/'' @ joinWith ''/'' ys"
proof (induction "''/''" xs rule: joinWith.induct)
  case (2 x)
  then show ?case by (cases ys) auto
qed auto

lemma inside_components:
  assumes "\<not> isOutside e p" and "Clean e \<noteq> Clean p"
  shows "rooted e = rooted p \<and> (\<exists>ts. ts \<noteq> [] \<and> stack_of p = rev ts @ stack_of e)"
proof -
  obtain bs ts where st: "strip_common (rev (stack_of e)) (rev (stack_of p)) = (bs, ts)" by fastforce
  have r: "rooted e = rooted p" and rel: "Rel e p = Inr (joinWith ''/'' (replicate (length bs) ''..'' @ ts))"
    using assms st by (auto simp: isOutside_def Rel_def split: if_splits)
  have "bs = []"
  proof (rule ccontr)
    assume "bs \<noteq> []"
    then obtain n where n: "length bs = Suc n" by (cases bs) auto
    then have "joinWith ''/'' (replicate (length bs) ''..'' @ ts) = ''..'' \<or>
        hasPrefix (joinWith ''/'' (replicate (length bs) ''..'' @ ts)) ''../''"
      by (cases "replicate n ''..'' @ ts") (auto simp: hasPrefix_def)
    with assms(1) rel show False by (auto simp: isOutside_def)
  qed
  then obtain c where "rev (stack_of e) = c" "rev (stack_of p) = c @ ts"
    using strip_common_split [OF st] by auto
  then have sp: "stack_of p = rev ts @ stack_of e"
    by (metis rev_append rev_rev_ident)
  have "ts \<noteq> []" using sp r assms(2) by (auto simp: Clean_render)
  with r sp show ?thesis by blast
qed

lemma inside_below:
  assumes "\<not> isOutside e p" and "Clean e = e" and "Clean p = p" and "stack_of e \<noteq> []"
  shows "p = e \<or> below e p"
proof (cases "Clean e = Clean p")
  case True
  then show ?thesis by (metis assms(2,3))
next
  case False
  from inside_components [OF assms(1) this] obtain ts where
    ts: "rooted e = rooted p" "ts \<noteq> []" "stack_of p = rev ts @ stack_of e" by blast
  have "Clean p = Clean e @ ''/'' @ joinWith ''/'' ts"
    using ts assms(4) unfolding Clean_render [of p] Clean_render [of e]
    by (simp add: render_def joinWith_append)
  then have p: "p = (e @ ''/'') @ joinWith ''/'' ts" by (simp only: assms(2,3) append_assoc)
  have "below e p" unfolding below_def hasPrefix_iff by (rule exI) (rule p)
  then show ?thesis ..
qed

lemma missing_directory:
  assumes "osStat d s = (Inl not_exist, u)" and "below d f"
  shows "disk s f = None"
proof -
  have "lookup d s = Inl not_exist"
    using assms(1) by (auto simp: osStat_def with_fault_def split: option.splits)
  then have "\<not> list_ex (\<lambda>(q, _). below d q) (fs_files s)"
    by (auto simp: lookup_def split: option.splits if_splits)
  then show ?thesis
    using assms(2) by (cases "disk s f") (auto simp: list_ex_iff dest!: map_of_SomeD)
qed

lemma has_files:
  assumes "directoryHasFiles d s = (Inr b, t)" and "d \<noteq> ''''"
    and "disk s d = None"
  shows "t = s \<and> (\<not> b \<longrightarrow> (\<forall>f. below d f \<longrightarrow> disk s f = None))"
proof -
  obtain st u where st: "osStat d s = (st, u)" by fastforce
  have u: "u = s" using osStat_state [OF st] by simp
  show ?thesis
    using assms st u missing_directory [of d s]
    by (auto simp: directoryHasFiles_def bindS_def tryS_def IsNotExist_def
        split: sum.splits if_splits elim!: mapS_InrE dest!: walkFiles_Inr)
qed

lemma has_outside_files:
  assumes "directoryHasFilesOutside d e s = (Inr b, t)" and "d \<noteq> ''''" and "e \<noteq> ''''" and "Clean e = e"
    and "disk s d = None"
  shows "t = s \<and> (\<not> b \<longrightarrow> (\<forall>f. below d f \<and> disk s f \<noteq> None \<longrightarrow> \<not> isOutside e f))"
proof -
  obtain st u where st: "osStat d s = (st, u)" by fastforce
  have u: "u = s" using osStat_state [OF st] by simp
  consider "st = Inl not_exist" "b = False" "t = s"
    | ps where "walkFiles d s = (Inr ps, t)" "b = list_ex (isOutside e) ps"
    using assms(1-4) st u
    by (auto simp: directoryHasFilesOutside_def bindS_def tryS_def IsNotExist_def
        split: sum.splits if_splits elim!: mapS_InrE)
  then show ?thesis
  proof cases
    case 1
    with missing_directory [of d s u] st show ?thesis by auto
  next
    case 2
    from walkFiles_Inr [OF 2(1)] assms(5) have "t = s" "set ps = {p. below d p \<and> disk s p \<noteq> None}" by simp_all
    then show ?thesis unfolding 2(2) list_ex_iff by blast
  qed
qed

text \<open>
  C39: The post-processing sees every exported file: whatever AssetStudio wrote, inside the directory that was
  expected or outside of it, the directory that is chosen contains every file of the output directory. It is
  the expected one unless there is a mismatch, and then it is the output directory itself.
\<close>

theorem post_processing_sees_every_file:
  assumes run: "resolvePostProcessExportPath e out s = (Inr (p, mismatch), t)"
    and clean: "Clean e = e" "stack_of e \<noteq> []" "\<And>f. disk s f \<noteq> None \<Longrightarrow> Clean f = f"
    and out: "out \<noteq> ''''" "disk s out = None"
  shows "t = s \<and> p = (if mismatch then out else e) \<and>
    (\<forall>f. disk s f \<noteq> None \<and> below out f \<longrightarrow> f = p \<or> below p f)"
proof -
  have e: "e \<noteq> ''''" using clean(1) by (auto simp: Clean_def hasPrefix_def cleanStack_def cleanStep_def)
  obtain st u where st: "osStat e s = (st, u)" by fastforce
  have u: "u = s" using osStat_state [OF st] by simp
  consider (files) b where "directoryHasFiles out s = (Inr b, t)" "(p, mismatch) = (if b then (out, True) else (e, False))"
    | (outside) b where "directoryHasFilesOutside out e s = (Inr b, t)" "(p, mismatch) = (if b then (out, True) else (e, False))"
    using run st u e
    by (auto simp: resolvePostProcessExportPath_def Let_def bindS_def tryS_def split: sum.splits if_splits prod.splits)
  then show ?thesis
  proof cases
    case files
    from has_files [OF files(1) out(1) out(2)] files(2) show ?thesis by (auto split: if_splits)
  next
    case outside
    from has_outside_files [OF outside(1) out(1) e clean(1) out(2)] outside(2)
      inside_below [OF _ clean(1) clean(3) clean(2)]
    show ?thesis by (auto split: if_splits)
  qed
qed

theorem post_processing_sees_every_file_witness:
  "resolvePostProcessExportPath ''out/a'' ''out'' \<lparr>fs_files = [(''out/a/x'', [1]), (''out/b/y'', [2])], fs_fault = \<lambda>_ _. None\<rparr>
     = (Inr (''out'', True), \<lparr>fs_files = [(''out/a/x'', [1]), (''out/b/y'', [2])], fs_fault = \<lambda>_ _. None\<rparr>) \<and>
   (''out/b/y'' = ''out'' \<or> below ''out'' ''out/b/y'')"
proof -
  let ?s = "\<lparr>fs_files = [(''out/a/x'', [1]), (''out/b/y'', [2])], fs_fault = \<lambda>_ _. None\<rparr>"
  have r: "resolvePostProcessExportPath ''out/a'' ''out'' ?s = (Inr (''out'', True), ?s)"
    by (simp add: resolvePostProcessExportPath_def directoryHasFilesOutside_def bindS_def tryS_def osStat_def
        with_fault_def lookup_def below_def hasPrefix_def mapS_def walkFiles_def returnS_def) code_simp
  have c: "Clean ''out/a'' = ''out/a''" "stack_of ''out/a'' \<noteq> []" "Clean ''out/a/x'' = ''out/a/x''"
    "Clean ''out/b/y'' = ''out/b/y''" "below ''out'' ''out/b/y''" by code_simp+
  have f: "Clean f = f" if "disk ?s f \<noteq> None" for f
    using that c by (auto split: if_splits)
  have "\<forall>f. disk ?s f \<noteq> None \<and> below ''out'' f \<longrightarrow> f = ''out'' \<or> below ''out'' f"
    using post_processing_sees_every_file [OF r c(1,2) f] by simp
  with c(5) have "''out/b/y'' = ''out'' \<or> below ''out'' ''out/b/y''" by simp
  with r show ?thesis by simp
qed

section \<open>Merging\<close>

lemma merge_one_Inr:
  assumes "merge_one m f s = (Inr u, t)" and "f \<noteq> m"
  shows "\<exists>b. disk s f = Some b \<and>
    disk t = (disk s)(m \<mapsto> (case disk s m of Some old \<Rightarrow> old | None \<Rightarrow> []) @ b, f := None)"
  using assms unfolding merge_one_def
  by (auto simp: appendFile_def elim!: bindS_InrE dest!: osReadFile_Inr osWrite_Inr osRemove_Inr)

lemma merge_all_Inr:
  assumes "forEachS (merge_one m) fs s = (Inr u, t)" and "distinct fs" and "disk s m = Some old"
  shows "(\<forall>f\<in>set fs. f \<noteq> m \<longrightarrow> disk s f \<noteq> None) \<and>
    disk t = (\<lambda>f. if f = m then Some (old @ concat (map (the \<circ> disk s) (filter (\<lambda>f. f \<noteq> m) fs)))
      else if f \<in> set fs then None else disk s f)"
  using assms
proof (induction fs arbitrary: s old)
  case Nil
  then show ?case by (auto simp: fun_eq_iff)
next
  case (Cons f fs)
  obtain v s1 where 1: "merge_one m f s = (Inr v, s1)" "forEachS (merge_one m) fs s1 = (Inr u, t)"
    using Cons.prems(1) by (auto elim!: bindS_InrE)
  show ?case
  proof (cases "f = m")
    case True
    then have "s1 = s" using 1(1) by (simp add: merge_one_def)
    with Cons.IH [OF 1(2) _ ] Cons.prems True show ?thesis by (auto simp: fun_eq_iff)
  next
    case False
    from merge_one_Inr [OF 1(1) False] Cons.prems(3) obtain b where
      b: "disk s f = Some b" "disk s1 = (disk s)(m \<mapsto> old @ b, f := None)" by auto
    have same: "map (the \<circ> disk s1) (filter (\<lambda>f. f \<noteq> m) fs) = map (the \<circ> disk s) (filter (\<lambda>f. f \<noteq> m) fs)"
      using Cons.prems(2) by (auto simp: b(2))
    have "disk s1 m = Some (old @ b)" using b(2) False by simp
    from Cons.IH [OF 1(2) _ this] Cons.prems(2)
    have ih: "\<forall>g\<in>set fs. g \<noteq> m \<longrightarrow> disk s1 g \<noteq> None"
      "disk t = (\<lambda>g. if g = m then Some ((old @ b) @ concat (map (the \<circ> disk s1) (filter (\<lambda>f. f \<noteq> m) fs)))
        else if g \<in> set fs then None else disk s1 g)" by auto
    show ?thesis
      using ih(1) b False Cons.prems(2) unfolding ih(2) same
      by (auto simp: fun_eq_iff split: if_splits)
  qed
qed

text \<open>
  Merging the parts of a movie loses and reorders nothing: the merged file holds the parts one after the
  other, in the order in which they were found, the parts are gone and nothing else has changed. A
  part that has the name of the merged file is the exception: the merged file starts empty, and its
  contents are lost.
\<close>

theorem merged_parts:
  assumes "mergeUSMFiles dir fs s = (Inr m, t)" and "distinct fs"
  shows "m = mergedPath dir \<and>
    disk t = (\<lambda>f. if f = m then Some (concat (map (the \<circ> disk s) (filter (\<lambda>f. f \<noteq> m) fs)))
      else if f \<in> set fs then None else disk s f)"
proof -
  obtain u v s1 where m: "m = mergedPath dir" "osCreate m s = (Inr v, s1)" "forEachS (merge_one m) fs s1 = (Inr u, t)"
    using assms(1) by (auto simp: mergeUSMFiles_def elim!: bindS_InrE)
  have d: "disk s1 = (disk s)(m \<mapsto> [])" using osCreate_Inr [OF m(2)] by simp
  then have same: "map (the \<circ> disk s1) (filter (\<lambda>f. f \<noteq> m) fs) = map (the \<circ> disk s) (filter (\<lambda>f. f \<noteq> m) fs)" by auto
  from merge_all_Inr [OF m(3) assms(2), of "[]"] d
  have "disk t = (\<lambda>f. if f = m then Some ([] @ concat (map (the \<circ> disk s1) (filter (\<lambda>f. f \<noteq> m) fs)))
      else if f \<in> set fs then None else disk s1 f)" by simp
  with m(1) d show ?thesis unfolding same append_Nil by (auto simp: fun_eq_iff)
qed

theorem merged_parts_witness:
  "\<exists>t. mergeUSMFiles ''a/b'' [''a/b/1.usm'', ''a/b/2.usm'']
      \<lparr>fs_files = [(''a/b/1.usm'', [1, 2]), (''a/b/2.usm'', [3]), (''a/b/x'', [4])], fs_fault = \<lambda>_ _. None\<rparr>
      = (Inr ''a/b/b.usm'', t) \<and>
    disk t ''a/b/b.usm'' = Some [1, 2, 3] \<and> disk t ''a/b/1.usm'' = None \<and> disk t ''a/b/x'' = Some [4]"
proof -
  let ?s = "\<lparr>fs_files = [(''a/b/1.usm'', [1, 2]), (''a/b/2.usm'', [3]), (''a/b/x'', [4])], fs_fault = \<lambda>_ _. None\<rparr>"
  have p: "mergedPath ''a/b'' = ''a/b/b.usm''" by code_simp
  obtain t where t: "mergeUSMFiles ''a/b'' [''a/b/1.usm'', ''a/b/2.usm''] ?s = (Inr ''a/b/b.usm'', t)"
    by (simp add: mergeUSMFiles_def p bindS_def osCreate_def with_fault_def lookup_def below_def hasPrefix_def
        merge_one_def osReadFile_def appendFile_def osWrite_def osRemove_def wrapErr_def returnS_def)
  have "disk t f = (if f = ''a/b/b.usm'' then Some [1, 2, 3]
      else if f \<in> {''a/b/1.usm'', ''a/b/2.usm''} then None else disk ?s f)" for f
    using conjunct2 [OF merged_parts [OF t]] by simp
  with t show ?thesis by auto
qed

section \<open>Conversion of WAV files\<close>

text \<open>What is known of ffmpeg: it writes its output, the last argument, and nothing else.\<close>

definition writes_last :: "tool \<Rightarrow> bool" where
  "writes_last run \<longleftrightarrow>
     (\<forall>cmd args s r t. run cmd args s = (r, t) \<longrightarrow>
        fs_fault t = fs_fault s \<and> (\<forall>p. p \<noteq> last args \<longrightarrow> disk t p = disk s p))"

text \<open>A working \<open>Stat\<close>.\<close>

definition honest :: "fsys \<Rightarrow> bool" where
  "honest s \<longleftrightarrow> (\<forall>p. fs_fault s OpStat p = None)"

definition wavOutput :: "ExportOptions \<Rightarrow> string \<Rightarrow> string" where
  "wavOutput options wavFile =
     trimSuffix wavFile (Ext wavFile) @ (if ConvertAudioToMP3 options then ''.mp3'' else ''.flac'')"

definition filled :: "fsys \<Rightarrow> string \<Rightarrow> bool" where
  "filled s p \<longleftrightarrow> (\<exists>b. disk s p = Some b \<and> b \<noteq> [])"

definition no_dir :: "fsys \<Rightarrow> string \<Rightarrow> bool" where
  "no_dir s d \<longleftrightarrow> (\<forall>q. below d q \<longrightarrow> disk s q = None)"

lemma no_dir_lookup:
  assumes "no_dir s p"
  shows "lookup p s = (case disk s p of Some b \<Rightarrow> Inr (RegularFile (length b)) | None \<Rightarrow> Inl not_exist)"
proof -
  have "\<not> list_ex (\<lambda>(q, _). below p q) (fs_files s)"
  proof
    assume "list_ex (\<lambda>(q, _). below p q) (fs_files s)"
    then obtain q b where "(q, b) \<in> set (fs_files s)" "below p q" by (auto simp: list_ex_iff)
    then have "disk s q \<noteq> None" using weak_map_of_SomeI by fastforce
    with \<open>below p q\<close> assms show False by (simp add: no_dir_def)
  qed
  then show ?thesis by (simp add: lookup_def split: option.splits)
qed

lemma osStat_honest: "honest s \<Longrightarrow> osStat p s = (lookup p s, s)"
  by (simp add: honest_def osStat_def with_fault_def)

lemma removeIfThere_Inr:
  assumes "removeIfThere msg p s = (Inr u, t)" and "honest s"
  shows "disk t = (disk s)(p := None) \<and> fs_fault t = fs_fault s"
proof (cases "lookup p s")
  case (Inl e)
  then have "disk s p = None" by (auto simp: lookup_def split: option.splits)
  with assms Inl show ?thesis by (auto simp: removeIfThere_def bindS_def tryS_def osStat_honest)
next
  case (Inr i)
  then have "osRemove p s = (Inr u, t)"
    using assms by (simp add: removeIfThere_def bindS_def tryS_def osStat_honest)
  from osRemove_Inr [OF this] show ?thesis by simp
qed

lemma removeFileIfExists_Inr:
  assumes "removeFileIfExists p s = (Inr u, t)" and "honest s"
  shows "disk t = (disk s)(p := None) \<and> fs_fault t = fs_fault s"
proof -
  obtain r v where r: "osRemove p s = (r, v)" by fastforce
  show ?thesis
  proof (cases r)
    case (Inr x)
    with r assms(1) have "osRemove p s = (Inr x, t)"
      by (simp add: removeFileIfExists_def bindS_def tryS_def)
    from osRemove_Inr [OF this] show ?thesis by simp
  next
    case (Inl e)
    with r assms(1) have e: "e = not_exist" "v = t"
      by (auto simp: removeFileIfExists_def bindS_def tryS_def IsNotExist_def split: if_splits)
    have "v = s" using r Inl by (auto dest: osRemove_Inl)
    have "disk s p = None"
    proof (rule ccontr)
      assume "disk s p \<noteq> None"
      then have "lookup p s = Inr (RegularFile (length (the (disk s p))))" by (auto simp: lookup_file)
      with r Inl e(1) assms(2) show False
        by (auto simp: osRemove_def with_fault_def honest_def split: option.splits)
    qed
    with e(2) \<open>v = s\<close> show ?thesis by auto
  qed
qed

lemma convert_Inr:
  assumes run: "bindS (wrapErr m1 (run ff (ffmpegBaseArgs args))) (\<lambda>_.
      bindS (validateOutputFile out) (\<lambda>_. if del then removeIfThere m2 wav else returnS ())) s = (Inr u, t)"
    and "writes_last run" and "honest s" and "no_dir s out" and out: "last (ffmpegBaseArgs args) = out" "out \<noteq> wav"
  shows "fs_fault t = fs_fault s \<and> filled t out \<and>
    (\<forall>p. p \<noteq> out \<longrightarrow> disk t p = (if del \<and> p = wav then None else disk s p))"
proof -
  obtain x y s1 s2 where 1: "run ff (ffmpegBaseArgs args) s = (Inr x, s1)" "validateOutputFile out s1 = (Inr y, s2)"
    "(if del then removeIfThere m2 wav else returnS ()) s2 = (Inr u, t)"
    using run by (auto elim!: bindS_InrE)
  have s1: "fs_fault s1 = fs_fault s" "\<And>p. p \<noteq> out \<Longrightarrow> disk s1 p = disk s p"
    using assms(2) 1(1) out(1) by (auto simp: writes_last_def)
  have h: "honest s1" using assms(3) s1(1) by (simp add: honest_def)
  have "no_dir s1 out"
    using assms(4) s1(2) by (auto simp: no_dir_def below_def hasPrefix_iff)
  then have s2: "s2 = s1" "filled s1 out"
    using 1(2) h
    by (auto simp: validateOutputFile_def osStat_honest no_dir_lookup filled_def bindS_def discard_def
        split: option.splits if_splits prod.splits sum.splits elim!: bindS_InrE)
  show ?thesis
  proof (cases del)
    case True
    with 1(3) s2(1) removeIfThere_Inr [of m2 wav s1 u t] h have "disk t = (disk s1)(wav := None)" "fs_fault t = fs_fault s1" by auto
    with s1 s2(2) out(2) True show ?thesis by (auto simp: filled_def)
  next
    case False
    with 1(3) s2(1) have "t = s1" by simp
    with s1 s2(2) False show ?thesis by simp
  qed
qed

lemma wav_output_Inr:
  assumes run: "wav_output msg convert out rm ff wav s = (Inr u, t)" and h: "honest s" and d: "no_dir s out" "out \<noteq> wav"
    and conv: "\<And>x t. convert wav out rm ff s = (Inr x, t) \<Longrightarrow>
      fs_fault t = fs_fault s \<and> filled t out \<and> (\<forall>p. p \<noteq> out \<longrightarrow> disk t p = (if rm \<and> p = wav then None else disk s p))"
  shows "fs_fault t = fs_fault s \<and> filled t out \<and>
    (\<forall>p. p \<noteq> out \<longrightarrow> disk t p = (if rm \<and> p = wav then None else disk s p))"
proof -
  obtain ex where ex: "outputFileExistsNonEmpty out s = (Inr ex, s)" "ex \<longleftrightarrow> filled s out"
      "(if \<not> ex then wrapErr msg (convert wav out rm ff) else if rm then removeFileIfExists wav else returnS ()) s = (Inr u, t)"
    using run h no_dir_lookup [OF d(1)]
    by (auto simp: wav_output_def outputFileExistsNonEmpty_def bindS_def tryS_def osStat_honest IsNotExist_def
        filled_def returnS_def split: option.splits if_splits)
  show ?thesis
  proof (cases "ex \<and> rm")
    case True
    with ex(3) removeFileIfExists_Inr [of wav s u t] h have "disk t = (disk s)(wav := None)" "fs_fault t = fs_fault s" by auto
    with True ex(2) d(2) show ?thesis by (auto simp: filled_def)
  next
    case False
    then show ?thesis using ex conv [of u t] by (auto split: if_splits)
  qed
qed

lemma handle_wav_Inr:
  assumes run: "handle_wav run o' ff wav s = (Inr u, t)" and "writes_last run" and h: "honest s"
    and d: "no_dir s (wavOutput o' wav)" "wavOutput o' wav \<noteq> wav"
  shows "fs_fault t = fs_fault s \<and>
    (ConvertAudioToMP3 o' \<or> ConvertWavToFLAC o' \<longrightarrow> filled t (wavOutput o' wav)) \<and>
    (\<forall>p. p \<noteq> wavOutput o' wav \<or> \<not> ConvertAudioToMP3 o' \<and> \<not> ConvertWavToFLAC o' \<longrightarrow>
       disk t p = (if RemoveWav o' \<and> p = wav then None else disk s p))"
proof -
  consider (mp3) "ConvertAudioToMP3 o'" | (flac) "\<not> ConvertAudioToMP3 o'" "ConvertWavToFLAC o'"
    | (none) "\<not> ConvertAudioToMP3 o'" "\<not> ConvertWavToFLAC o'" by blast
  then show ?thesis
  proof cases
    case mp3
    have o: "trimSuffix wav (Ext wav) @ ''.mp3'' = wavOutput o' wav" using mp3 by (simp add: wavOutput_def)
    show ?thesis
      using wav_output_Inr [of _ "ConvertWavToMP3 run" "wavOutput o' wav" "RemoveWav o'" ff wav s u t]
        convert_Inr [OF _ assms(2) h d(1) _ d(2), of _ ff "[''-i'', wav, ''-b:a'', ''320k'', ''-y'', wavOutput o' wav]" "RemoveWav o'"]
        run mp3 h d
      by (auto simp: handle_wav_def Let_def o ConvertWavToMP3_def ffmpegBaseArgs_def)
  next
    case flac
    have o: "trimSuffix wav (Ext wav) @ ''.flac'' = wavOutput o' wav" using flac by (simp add: wavOutput_def)
    show ?thesis
      using wav_output_Inr [of _ "ConvertWavToFLAC_file run" "wavOutput o' wav" "RemoveWav o'" ff wav s u t]
        convert_Inr [OF _ assms(2) h d(1) _ d(2), of _ ff
          "[''-i'', wav, ''-compression_level'', ''12'', ''-y'', wavOutput o' wav]" "RemoveWav o'"]
        run flac h d
      by (auto simp: handle_wav_def Let_def o ConvertWavToFLAC_file_def ffmpegBaseArgs_def)
  next
    case none
    then show ?thesis
      using run removeFileIfExists_Inr [of wav s u t] h by (auto simp: handle_wav_def Let_def split: if_splits)
  qed
qed

lemma last_component:
  assumes "CHR ''/'' \<notin> set x" shows "last (splitSlash (s @ x)) = last (splitSlash s) @ x"
proof (induction s)
  case Nil
  show ?case by (simp add: splitSlash_single [OF assms])
next
  case (Cons c s)
  obtain p ps where "splitSlash (s @ x) = p # ps" by (metis splitSlash_nonempty neq_Nil_conv)
  moreover obtain q qs where "splitSlash s = q # qs" by (metis splitSlash_nonempty neq_Nil_conv)
  moreover have "ps = [] \<longleftrightarrow> qs = []"
  proof -
    have "length (splitSlash (s @ x)) = length (splitSlash s)"
    proof (induction s)
      case Nil
      show ?case by (simp add: splitSlash_single [OF assms])
    qed (auto split: list.splits)
    then show ?thesis using calculation by (metis Suc_inject length_0_conv length_Cons)
  qed
  ultimately show ?case using Cons by (auto split: if_splits)
qed

lemma Base_append:
  assumes "CHR ''/'' \<notin> set x" and "x \<noteq> ''''" shows "Base (s @ x) = last (splitSlash s) @ x"
proof -
  obtain y c where x: "x = y @ [c]" using assms(2) by (metis rev_exhaust)
  then have "dropWhile (\<lambda>c. c = CHR ''/'') (rev (s @ x)) = rev (s @ x)" using assms(1) by auto
  then show ?thesis using assms by (simp add: Base_def Let_def last_component)
qed

lemma Ext_Base_append:
  assumes "CHR ''/'' \<notin> set e" and "CHR ''.'' \<notin> set e"
  shows "Ext (Base (s @ CHR ''.'' # e)) = CHR ''.'' # e"
proof -
  have ns: "CHR ''/'' \<notin> set (CHR ''.'' # e)" using assms(1) by simp
  have b: "Base (s @ CHR ''.'' # e) = last (splitSlash s) @ CHR ''.'' # e"
    using Base_append [OF ns] by simp
  have "CHR ''/'' \<notin> set (last (splitSlash s))"
    by (rule splitSlash_no_slash) (rule last_in_set, rule splitSlash_nonempty)
  then have "splitSlash (last (splitSlash s) @ CHR ''.'' # e) = [last (splitSlash s) @ CHR ''.'' # e]"
    using ns by (intro splitSlash_single) auto
  then show ?thesis
    unfolding b Ext_def Let_def using assms(2) by (simp add: takeWhile_tail takeWhile_append)
qed

lemma wavOutput_no_wav:
  assumes "has_ext ''.wav'' wav" shows "\<not> has_ext ''.wav'' (wavOutput o' p)" and "wavOutput o' p \<noteq> wav"
proof -
  have "Ext (Base (wavOutput o' p)) = (if ConvertAudioToMP3 o' then ''.mp3'' else ''.flac'')"
    unfolding wavOutput_def using Ext_Base_append [of "''mp3''"] Ext_Base_append [of "''flac''"] by auto
  then show "\<not> has_ext ''.wav'' (wavOutput o' p)" by (auto simp: has_ext_def toLower_def lower_char_def)
  with assms show "wavOutput o' p \<noteq> wav" by auto
qed

lemma prefix_before_slash:
  assumes "hasPrefix (b @ e) (d @ ''/'')" and "CHR ''/'' \<notin> set e"
  shows "hasPrefix b (d @ ''/'')"
proof -
  obtain r where "b @ e = d @ CHR ''/'' # r" using assms(1) by (auto simp: hasPrefix_iff)
  then consider us where "b = d @ us" "us @ e = CHR ''/'' # r" | us where "b @ us = d" "e = us @ CHR ''/'' # r"
    by (auto simp: append_eq_append_conv2)
  then show ?thesis
  proof cases
    case 1
    then show ?thesis using assms(2) by (cases us) (auto simp: hasPrefix_iff)
  next
    case 2
    then show ?thesis using assms(2) by simp
  qed
qed

lemma below_output:
  assumes "below d (wavOutput o' w)" shows "below d w"
proof -
  have "hasPrefix (trimSuffix w (Ext w)) (d @ ''/'')"
    using assms prefix_before_slash [of "trimSuffix w (Ext w)" _ d]
    by (auto simp: below_def wavOutput_def split: if_splits)
  then obtain r where r: "trimSuffix w (Ext w) = d @ ''/'' @ r" by (auto simp: hasPrefix_iff)
  obtain x where "w = trimSuffix w (Ext w) @ x"
    unfolding trimSuffix_def by (metis append.right_neutral append_take_drop_id)
  then have "w = (d @ ''/'') @ r @ x" using r by (metis append.assoc)
  then show ?thesis unfolding below_def hasPrefix_iff by blast
qed

lemma handle_wavs_Inr:
  assumes "forEachS (handle_wav run o' ff) ws s = (Inr u, t)" and "writes_last run" and "honest s"
    and "\<forall>w\<in>set ws. has_ext ''.wav'' w \<and> no_dir s (wavOutput o' w)"
    and "\<forall>w\<in>set ws. \<forall>w'\<in>set ws. \<not> below (wavOutput o' w) w'"
  shows "(\<forall>p. has_ext ''.wav'' p \<longrightarrow> disk t p = (if RemoveWav o' \<and> p \<in> set ws then None else disk s p)) \<and>
    (ConvertAudioToMP3 o' \<or> ConvertWavToFLAC o' \<longrightarrow>
       (\<forall>w\<in>set ws. filled t (wavOutput o' w)) \<and> (\<forall>p. filled s p \<and> \<not> has_ext ''.wav'' p \<longrightarrow> filled t p)) \<and>
    (\<forall>p. \<not> has_ext ''.wav'' p \<and> (p \<notin> wavOutput o' ` set ws \<or> \<not> ConvertAudioToMP3 o' \<and> \<not> ConvertWavToFLAC o') \<longrightarrow>
       disk t p = disk s p)"
  using assms(1,3-)
proof (induction ws arbitrary: s)
  case Nil
  then show ?case by simp
next
  case (Cons w ws)
  let ?o = "wavOutput o'" and ?c = "ConvertAudioToMP3 o' \<or> ConvertWavToFLAC o'"
  obtain v s1 where 1: "handle_wav run o' ff w s = (Inr v, s1)" "forEachS (handle_wav run o' ff) ws s1 = (Inr u, t)"
    using Cons.prems(1) by (auto elim!: bindS_InrE)
  have w: "has_ext ''.wav'' w" "no_dir s (?o w)" using Cons.prems(3) by auto
  from handle_wav_Inr [OF 1(1) assms(2) Cons.prems(2) w(2) wavOutput_no_wav(2) [OF w(1)]]
  have h: "fs_fault s1 = fs_fault s" "?c \<Longrightarrow> filled s1 (?o w)"
    "\<And>p. p \<noteq> ?o w \<or> \<not> ?c \<Longrightarrow> disk s1 p = (if RemoveWav o' \<and> p = w then None else disk s p)" by auto
  have nd: "no_dir s1 (?o w')" if w': "w' \<in> set ws" for w'
  proof -
    have "\<not> below (?o w') (?o w)" using Cons.prems(4) w' below_output by auto
    then show ?thesis
      using h(3) Cons.prems(3) w' unfolding no_dir_def by (metis list.set_intros(2))
  qed
  have wo: "\<not> has_ext ''.wav'' (?o w)" by (rule wavOutput_no_wav(1) [OF w(1)])
  have "honest s1" using Cons.prems(2) h(1) by (simp add: honest_def)
  from Cons.IH [OF 1(2) this] Cons.prems(3,4) nd
  have ih: "\<And>p. has_ext ''.wav'' p \<Longrightarrow> disk t p = (if RemoveWav o' \<and> p \<in> set ws then None else disk s1 p)"
    "?c \<Longrightarrow> \<forall>w\<in>set ws. filled t (?o w)" "\<And>p. ?c \<Longrightarrow> filled s1 p \<Longrightarrow> \<not> has_ext ''.wav'' p \<Longrightarrow> filled t p"
    "\<And>p. \<not> has_ext ''.wav'' p \<Longrightarrow> p \<notin> ?o ` set ws \<or> \<not> ?c \<Longrightarrow> disk t p = disk s1 p" by auto
  have f: "filled s1 p" if "filled s p" "\<not> has_ext ''.wav'' p" ?c for p
    using that h(2,3) w(1) by (cases "p = ?o w") (auto simp: filled_def)
  show ?case
  proof (intro conjI allI impI ballI)
    show "disk t p = (if RemoveWav o' \<and> p \<in> set (w # ws) then None else disk s p)" if p: "has_ext ''.wav'' p" for p
    proof -
      have "p \<noteq> ?o w" using wo p by auto
      then show ?thesis using ih(1) [OF p] h(3) [of p] by auto
    qed
    show "filled t (?o x)" if c: ?c and x: "x \<in> set (w # ws)" for x
      using ih(3) [OF c h(2) [OF c] wo] ih(2) [OF c] x by (metis set_ConsD)
    show "filled t p" if c: ?c and p: "filled s p \<and> \<not> has_ext ''.wav'' p" for p
      using ih(3) [OF c f] p c by blast
    show "disk t p = disk s p" if p: "\<not> has_ext ''.wav'' p \<and> (p \<notin> ?o ` set (w # ws) \<or>
        \<not> ConvertAudioToMP3 o' \<and> \<not> ConvertWavToFLAC o')" for p
    proof -
      have "p \<noteq> w" using p w(1) by auto
      moreover have "p \<noteq> ?o w \<or> \<not> ?c" "p \<notin> ?o ` set ws \<or> \<not> ?c" using p by auto
      ultimately show ?thesis using ih(4) [of p] h(3) [of p] p by metis
    qed
  qed
qed

lemma wavs_found:
  assumes "FindFilesByExtension dir ''.wav'' s = (Inr ws, s1)" and "honest s" and "disk s dir = None"
  shows "s1 = s \<and> set ws = {p. disk s p \<noteq> None \<and> has_ext ''.wav'' p \<and> below dir p}"
  using FindFiles_Inr [OF assms(1)] assms(2,3) by (auto simp: files_with_def honest_def)

text \<open>
  C38: The treatment of the WAV files loses no sound: when it reports success and a conversion is asked for,
  every WAV file has a converted file that is not empty; when the WAV files are to be removed, none is
  left below the directory, and otherwise every one is still there with its contents; and no file but the
  WAV files and their outputs is touched. ffmpeg is known to write its output file and nothing else.
\<close>

theorem wav_conversion_loses_nothing:
  assumes run: "handleStandaloneWAVFiles run dir o' ff s = (Inr u, t)" and ff: "writes_last run"
    and s: "honest s" "disk s dir = None"
    and dirs: "\<And>p. has_ext ''.wav'' p \<Longrightarrow> below dir p \<Longrightarrow> disk s p \<noteq> None \<Longrightarrow> no_dir s (wavOutput o' p)"
  shows "(ConvertAudioToMP3 o' \<or> ConvertWavToFLAC o' \<longrightarrow>
      (\<forall>p. has_ext ''.wav'' p \<and> below dir p \<and> disk s p \<noteq> None \<longrightarrow> filled t (wavOutput o' p))) \<and>
    (\<forall>p. has_ext ''.wav'' p \<longrightarrow> disk t p = (if RemoveWav o' \<and> below dir p then None else disk s p)) \<and>
    (\<forall>p. \<not> has_ext ''.wav'' p \<and> (\<forall>w. below dir w \<and> has_ext ''.wav'' w \<and> disk s w \<noteq> None \<longrightarrow> p \<noteq> wavOutput o' w) \<longrightarrow>
       disk t p = disk s p)"
proof (cases "\<not> ConvertAudioToMP3 o' \<and> \<not> ConvertWavToFLAC o' \<and> \<not> RemoveWav o'")
  case True
  have ts: "t = s" using run unfolding handleStandaloneWAVFiles_def if_P [OF True] by simp
  have "\<not> RemoveWav o'" "\<not> ConvertAudioToMP3 o'" "\<not> ConvertWavToFLAC o'" using True by blast+
  then show ?thesis unfolding ts by simp
next
  case False
  then obtain ws s1 where 1: "FindFilesByExtension dir ''.wav'' s = (Inr ws, s1)"
    "forEachS (handle_wav run o' ff) ws s1 = (Inr u, t)"
    using run unfolding handleStandaloneWAVFiles_def if_not_P [OF False] by (elim bindS_InrE)
  have ws: "s1 = s" "set ws = {p. disk s p \<noteq> None \<and> has_ext ''.wav'' p \<and> below dir p}"
    using wavs_found [OF 1(1) s] by blast+
  have a: "\<forall>w\<in>set ws. \<forall>w'\<in>set ws. \<not> below (wavOutput o' w) w'"
  proof (intro ballI)
    fix w w' assume "w \<in> set ws" and w': "w' \<in> set ws"
    then have "no_dir s (wavOutput o' w)" using dirs ws(2) by simp
    then show "\<not> below (wavOutput o' w) w'" using w' ws(2) by (auto simp: no_dir_def)
  qed
  have b: "\<forall>w\<in>set ws. has_ext ''.wav'' w \<and> no_dir s1 (wavOutput o' w)"
    using dirs ws by simp
  have c: "honest s1" using s(1) ws(1) by simp
  note all = handle_wavs_Inr [OF 1(2) ff c b a]
  note r1 = conjunct1 [OF all] and r2 = conjunct1 [OF conjunct2 [OF all]] and r3 = conjunct2 [OF conjunct2 [OF all]]
  show ?thesis
  proof (intro conjI impI allI)
    show "filled t (wavOutput o' p)" if "ConvertAudioToMP3 o' \<or> ConvertWavToFLAC o'"
      "has_ext ''.wav'' p \<and> below dir p \<and> disk s p \<noteq> None" for p
    proof -
      have "p \<in> set ws" using ws(2) that(2) by simp
      with r2 that(1) show ?thesis by simp
    qed
    show "disk t p = (if RemoveWav o' \<and> below dir p then None else disk s p)" if "has_ext ''.wav'' p" for p
      using r1 [rule_format, OF that] that unfolding ws by (cases "disk s p") simp_all
    show "disk t p = disk s p" if "\<not> has_ext ''.wav'' p \<and>
      (\<forall>w. below dir w \<and> has_ext ''.wav'' w \<and> disk s w \<noteq> None \<longrightarrow> p \<noteq> wavOutput o' w)" for p
    proof -
      have "p \<notin> wavOutput o' ` set ws" using that ws(2) by blast
      then show ?thesis using r3 ws(1) that by simp
    qed
  qed
qed


definition plain_options :: ExportOptions where
  "plain_options =
     \<lparr>ExportByCategory = False, UnityVersion = '''', ExportMeshOBJ = False, MeshOBJPathPatterns = [],
      ExportUSMFiles = False, DecodeUSMFiles = False, ExportACBFiles = True, DecodeACBFiles = True,
      DecodeHCAFiles = True, ConvertPhotoToWebP = False, RemovePNG = False, ConvertVideoToMP4 = False,
      DirectUSMToMP4WithFFmpeg = False, RemoveM2V = False, ConvertAudioToMP3 = True,
      ConvertWavToFLAC = False, RemoveWav = True\<rparr>"

definition one_byte_tool :: tool where
  "one_byte_tool cmd args = osWrite (last args) [1]"

lemma one_byte_tool_writes_last: "writes_last one_byte_tool"
  unfolding writes_last_def one_byte_tool_def
  using touchesD [OF touches_osWrite [OF singletonI]] by (metis singletonD)

theorem wav_conversion_loses_nothing_witness:
  "\<exists>t. handleStandaloneWAVFiles one_byte_tool ''a'' plain_options ''ff''
      \<lparr>fs_files = [(''a/x.wav'', [7, 8]), (''a/y'', [3])], fs_fault = \<lambda>_ _. None\<rparr> = (Inr (), t) \<and>
    filled t ''a/x.mp3'' \<and> disk t ''a/x.wav'' = None \<and> disk t ''a/y'' = Some [3]"
proof -
  let ?s = "\<lparr>fs_files = [(''a/x.wav'', [7, 8 :: 8 word]), (''a/y'', [3])], fs_fault = \<lambda>_ _. None\<rparr>"
  have p: "has_ext ''.wav'' ''a/x.wav''" "\<not> has_ext ''.wav'' ''a/y''" "below ''a'' ''a/x.wav''" "below ''a'' ''a/y''"
    "trimSuffix ''a/x.wav'' (Ext ''a/x.wav'') = ''a/x''" "wavOutput plain_options ''a/x.wav'' = ''a/x.mp3''"
    "\<not> below ''a/x.mp3'' ''a/x.wav''" "\<not> below ''a/x.mp3'' ''a/y''" "splitSlash ''a/x.wav'' < splitSlash ''a/y''"
    by code_simp+
  have o: "ConvertAudioToMP3 plain_options" "RemoveWav plain_options" by (simp_all add: plain_options_def)
  obtain t where t: "handleStandaloneWAVFiles one_byte_tool ''a'' plain_options ''ff'' ?s = (Inr (), t)"
    by (simp add: handleStandaloneWAVFiles_def FindFilesByExtension_def walkFiles_def handle_wav_def wav_output_def
        outputFileExistsNonEmpty_def ConvertWavToMP3_def validateOutputFile_def removeIfThere_def one_byte_tool_def
        osStat_def osWrite_def osRemove_def with_fault_def lookup_def bindS_def tryS_def mapS_def wrapErr_def returnS_def
        ffmpegBaseArgs_def IsNotExist_def Let_def p o sort_key_def insort_key.simps)
  have d: "no_dir ?s (wavOutput plain_options w)" if "has_ext ''.wav'' w" "disk ?s w \<noteq> None" for w
    using that p by (auto simp: no_dir_def split: if_splits)
  have h: "honest ?s" by (simp add: honest_def)
  have a: "disk ?s ''a'' = None" by simp
  note all = wav_conversion_loses_nothing [OF t one_byte_tool_writes_last h a d]
  have "filled t ''a/x.mp3''" using all p o by auto
  moreover have "disk t ''a/x.wav'' = None" using all p o by auto
  moreover have "disk t ''a/y'' = disk ?s ''a/y''"
    using conjunct2 [OF conjunct2 [OF all]] p by (auto split: if_splits)
  ultimately show ?thesis using t by auto
qed

end
