(* ===== verification/Net.thy ===== *)
theory Net
  imports FileSys TcpFrame
begin

text \<open>
  What a task does besides changing files: it asks its context whether it has ended, waits, takes and gives
  back the slots of the semaphores, and sends requests. The rest of the world is the record \<open>net\<close> of these
  operations over a state \<open>'n\<close>, which they may change as they like. \<open>world\<close> is that state with the file system,
  the slots that are held, and the attempts to send so far, each with what came of it. The retry loop that the
  download and the upload share is here too.
\<close>

section \<open>The world\<close>

text \<open>A task runs under a context with a deadline; a panic is reported under one of its own.\<close>

datatype ctx = WorkerCtx | TaskCtx | ReportCtx

text \<open>
  The semaphores that the steps of a task take. The other two of \<open>Unpacker\<close>, \<open>acbSem\<close> and \<open>hcaSem\<close>, are taken within the pools
  that decode ACB and HCA files, and are not counted: \<open>Exporter\<close> models these pools job by job.
\<close>

datatype sem = DownloadSem | AssetStudioSem | PostProcessSem | UsmSem

datatype request =
    Register ClientRegistrationRequest
  | Heartbeat HeartbeatRequest
  | Lease LeaseRequest
  | Progress ProgressRequest
  | Fail FailRequest
  | Result bytes bytes

datatype reply = NoReply | Registered ClientRegistrationResponse | Leased LeaseResponse

text \<open>
  What is sent: an HTTP request to a path under a context, or a message on the TCP channel. An attempt to send it comes to an
  outcome: a status of the server, a message written to the connection, or an error. A message that finds no connection
  is an attempt that failed; nothing was written then.
\<close>

datatype sending = Post ctx string request | Frame Message

datatype outcome = Answered int | Written | Failed go_err

type_synonym attempt = "sending \<times> outcome"

text \<open>
  \<open>nt_err\<close> is \<open>ctx.Err()\<close>. \<open>nt_wait\<close> is the choice between \<open>ctx.Done()\<close> and \<open>time.After\<close> (in seconds): whether the
  timer was first. \<open>nt_acquire\<close> is the choice between a slot and \<open>ctx.Done()\<close>: whether there was a slot.
  \<open>nt_deadline\<close> starts the context of a task, with its time limit in nanoseconds. \<open>nt_request\<close> is the error of
  \<open>http.NewRequest\<close>. \<open>nt_connected\<close> is whether the worker has a TCP connection; \<open>nt_send\<close> and \<open>nt_close\<close> are its methods.
\<close>

record 'n net =
  nt_err :: "ctx \<Rightarrow> 'n \<Rightarrow> go_err option"
  nt_deadline :: "int \<Rightarrow> 'n \<Rightarrow> 'n"
  nt_wait :: "ctx \<Rightarrow> int \<Rightarrow> 'n \<Rightarrow> bool \<times> 'n"
  nt_acquire :: "sem \<Rightarrow> 'n \<Rightarrow> bool \<times> 'n"
  nt_request :: "string \<Rightarrow> go_err option"
  nt_get :: "string \<Rightarrow> (string \<rightharpoonup> string) \<Rightarrow> 'n \<Rightarrow> (go_err + (int \<times> body)) \<times> 'n"
  nt_post :: "ctx \<Rightarrow> string \<Rightarrow> request \<Rightarrow> 'n \<Rightarrow> (go_err + (int \<times> reply)) \<times> 'n"
  nt_connected :: "'n \<Rightarrow> bool"
  nt_send :: "Message \<Rightarrow> 'n \<Rightarrow> go_err option \<times> 'n"
  nt_close :: "'n \<Rightarrow> 'n"

record 'n world =
  wd_fs :: fsys
  wd_net :: 'n
  wd_held :: "sem \<Rightarrow> int"
  wd_attempts :: "attempt list"

definition onFs :: "(fsys, 'a) io \<Rightarrow> ('n world, 'a) io" where
  "onFs m w = (case m (wd_fs w) of (r, s) \<Rightarrow> (r, w\<lparr>wd_fs := s\<rparr>))"

definition onNet :: "('n \<Rightarrow> (go_err + 'a) \<times> 'n) \<Rightarrow> ('n world, 'a) io" where
  "onNet m w = (case m (wd_net w) of (r, n) \<Rightarrow> (r, w\<lparr>wd_net := n\<rparr>))"

text \<open>An ended context has an error.\<close>

definition ctxErr :: "'n net \<Rightarrow> ctx \<Rightarrow> 'n \<Rightarrow> go_err" where
  "ctxErr N c n = (case nt_err N c n of Some e \<Rightarrow> e | None \<Rightarrow> Canceled)"

section \<open>Semaphores\<close>

definition acquireSemaphore :: "'n net \<Rightarrow> sem \<Rightarrow> ('n world, unit) io" where
  "acquireSemaphore N k w =
     (case nt_acquire N k (wd_net w) of
        (True, n) \<Rightarrow> (Inr (), w\<lparr>wd_net := n, wd_held := (wd_held w)(k := wd_held w k + 1)\<rparr>)
      | (False, n) \<Rightarrow> (Inl (ctxErr N TaskCtx n), w\<lparr>wd_net := n\<rparr>))"

definition releaseSemaphore :: "sem \<Rightarrow> ('n world, unit) io" where
  "releaseSemaphore k w = (Inr (), w\<lparr>wd_held := (wd_held w)(k := wd_held w k - 1)\<rparr>)"

text \<open>\<open>if err := acquire(); err != nil { return err }; defer release(); body\<close>.\<close>

definition holding :: "'n net \<Rightarrow> sem \<Rightarrow> ('n world, 'a) io \<Rightarrow> ('n world, 'a) io" where
  "holding N k body w =
     (case acquireSemaphore N k w of
        (Inl e, w) \<Rightarrow> (Inl e, w)
      | (Inr _, w) \<Rightarrow> (case body w of (r, w) \<Rightarrow> (r, snd (releaseSemaphore k w))))"

section \<open>Requests\<close>

text \<open>An attempt is logged with its outcome.\<close>

definition logged :: "sending \<Rightarrow> outcome \<Rightarrow> 'n world \<Rightarrow> 'n world" where
  "logged what out w = w\<lparr>wd_attempts := wd_attempts w @ [(what, out)]\<rparr>"

definition post :: "'n net \<Rightarrow> ctx \<Rightarrow> string \<Rightarrow> request \<Rightarrow> ('n world, int \<times> reply) io" where
  "post N c path req w =
     (case nt_post N c path req (wd_net w) of
        (r, n) \<Rightarrow> (r, logged (Post c path req) (case r of Inl e \<Rightarrow> Failed e | Inr (status, _) \<Rightarrow> Answered status)
          (w\<lparr>wd_net := n\<rparr>)))"

definition sendTCPMessage :: "'n net \<Rightarrow> Message \<Rightarrow> ('n world, unit) io" where
  "sendTCPMessage N msg w =
     (if \<not> nt_connected N (wd_net w) then
        (let err = Failure ''tcp task channel is not connected'' in (Inl err, logged (Frame msg) (Failed err) w))
      else case nt_send N msg (wd_net w) of
        (Some e, n) \<Rightarrow> (Inl e, logged (Frame msg) (Failed e) (w\<lparr>wd_net := nt_close N n\<rparr>))
      | (None, n) \<Rightarrow> (Inr (), logged (Frame msg) Written (w\<lparr>wd_net := n\<rparr>)))"

lemma logged_simps [simp]:
  "wd_fs (logged what out w) = wd_fs w" "wd_net (logged what out w) = wd_net w" "wd_held (logged what out w) = wd_held w"
  "wd_attempts (logged what out w) = wd_attempts w @ [(what, out)]"
  by (simp_all add: logged_def)

text \<open>What an operation keeps, whatever it returns: \<open>wd_held\<close>, \<open>wd_attempts\<close> or \<open>wd_fs\<close>.\<close>

definition keeps :: "('s \<Rightarrow> 'b) \<Rightarrow> ('s, 'a) io \<Rightarrow> bool" where
  "keeps f m \<longleftrightarrow> (\<forall>s. f (snd (m s)) = f s)"

section \<open>Retrying\<close>

text \<open>
  The loop of \<open>downloadBundle\<close> and \<open>uploadResult\<close>. Before an attempt that is not the first the code waits one, two,
  four seconds. When the context has ended after a failure, one loop returns the error of the context and the
  other the one of the attempt: \<open>pick\<close>. A panic is no error.
\<close>

definition backoff :: "'n net \<Rightarrow> nat \<Rightarrow> ('n world, unit) io" where
  "backoff N attempt =
     (if attempt > 0 then
        onNet (\<lambda>n. case nt_wait N TaskCtx (2 ^ (attempt - 1)) n of
          (True, n) \<Rightarrow> (Inr (), n)
        | (False, n) \<Rightarrow> (Inl (ctxErr N TaskCtx n), n))
      else returnS ())"

fun retry ::
    "'n net \<Rightarrow> (go_err \<Rightarrow> go_err \<Rightarrow> go_err) \<Rightarrow> ('n world, unit) io \<Rightarrow> nat \<Rightarrow> nat \<Rightarrow> go_err option \<Rightarrow> ('n world, unit) io" where
  "retry N pick once attempt 0 lastErr = (case lastErr of None \<Rightarrow> returnS () | Some e \<Rightarrow> throwS e)"
| "retry N pick once attempt (Suc left) lastErr =
     bindS (backoff N attempt) (\<lambda>_.
     bindS (tryS once) (\<lambda>r.
     case r of
       Inr _ \<Rightarrow> returnS ()
     | Inl err \<Rightarrow>
         if is_panic err then throwS err
         else (\<lambda>w. case nt_err N TaskCtx (wd_net w) of
                 Some ended \<Rightarrow> (Inl (pick ended err), w)
               | None \<Rightarrow> retry N pick once (Suc attempt) left (Some err) w)))"

section \<open>What is kept\<close>

named_theorems keeps_intros \<open>what an operation leaves as it is\<close>

lemma keepsI: "(\<And>s r t. m s = (r, t) \<Longrightarrow> f t = f s) \<Longrightarrow> keeps f m"
  unfolding keeps_def by (metis prod.collapse)

lemma keepsD: "keeps f m \<Longrightarrow> m s = (r, t) \<Longrightarrow> f t = f s"
  unfolding keeps_def by (metis snd_conv)

lemma keeps_returnS [keeps_intros]: "keeps f (returnS x)"
  by (rule keepsI) auto

lemma keeps_throwS [keeps_intros]: "keeps f (throwS e)"
  by (rule keepsI) auto

lemma keeps_bindS [keeps_intros]:
  assumes "keeps f m" and "\<And>x. keeps f (g x)" shows "keeps f (bindS m g)"
proof (rule keepsI)
  fix s r t assume run: "bindS m g s = (r, t)"
  obtain q u where q: "m s = (q, u)" by fastforce
  with run have "t = u \<or> (\<exists>x. g x u = (r, t))" by (auto simp: bindS_def split: sum.splits)
  with keepsD [OF assms(1) q] keepsD [OF assms(2)] show "f t = f s" by metis
qed

lemma keeps_If [keeps_intros]: "(b \<Longrightarrow> keeps f m) \<Longrightarrow> (\<not> b \<Longrightarrow> keeps f n) \<Longrightarrow> keeps f (if b then m else n)"
  by simp

text \<open>Whatever only changes the result.\<close>

lemma keeps_result:
  assumes "keeps f m" and "\<And>s. snd (m' s) = snd (m s)" shows "keeps f m'"
  using assms by (simp add: keeps_def)

lemma keeps_wrapErr [keeps_intros]: "keeps f m \<Longrightarrow> keeps f (wrapErr msg m)"
  by (erule keeps_result) (simp add: wrapErr_def split: prod.splits sum.splits)

lemma keeps_discard [keeps_intros]: "keeps f m \<Longrightarrow> keeps f (discard m)"
  by (erule keeps_result) (simp add: discard_def split: prod.splits sum.splits)

lemma keeps_tryS [keeps_intros]: "keeps f m \<Longrightarrow> keeps f (tryS m)"
  by (erule keeps_result) (simp add: tryS_def split: prod.splits)

lemma keeps_case_sum [keeps_intros]:
  "(\<And>e. r = Inl e \<Longrightarrow> keeps f (g e)) \<Longrightarrow> (\<And>x. r = Inr x \<Longrightarrow> keeps f (h x)) \<Longrightarrow>
   keeps f (case r of Inl e \<Rightarrow> g e | Inr x \<Rightarrow> h x)"
  by (cases r) simp_all

lemma keeps_case_option [keeps_intros]:
  "(r = None \<Longrightarrow> keeps f g) \<Longrightarrow> (\<And>x. r = Some x \<Longrightarrow> keeps f (h x)) \<Longrightarrow>
   keeps f (case r of None \<Rightarrow> g | Some x \<Rightarrow> h x)"
  by (cases r) simp_all

lemma keeps_case_prod [keeps_intros]:
  "(\<And>x y. p = (x, y) \<Longrightarrow> keeps f (g x y)) \<Longrightarrow> keeps f (case p of (x, y) \<Rightarrow> g x y)"
  by (cases p) simp

lemma keeps_onFs [keeps_intros]: "keeps wd_held (onFs m)" "keeps wd_attempts (onFs m)" "keeps wd_net (onFs m)"
  by (auto simp: keeps_def onFs_def split: prod.splits)

lemma keeps_onNet [keeps_intros]: "keeps wd_held (onNet m)" "keeps wd_attempts (onNet m)" "keeps wd_fs (onNet m)"
  by (auto simp: keeps_def onNet_def split: prod.splits)

lemma keeps_acquire [keeps_intros]: "keeps wd_attempts (acquireSemaphore N k)" "keeps wd_fs (acquireSemaphore N k)"
  by (auto simp: keeps_def acquireSemaphore_def split: prod.splits bool.splits)

lemma keeps_release [keeps_intros]:
  "keeps wd_attempts (releaseSemaphore k)" "keeps wd_fs (releaseSemaphore k)" "keeps wd_net (releaseSemaphore k)"
  by (auto simp: keeps_def releaseSemaphore_def)

lemma keeps_post [keeps_intros]: "keeps wd_held (post N c path req)" "keeps wd_fs (post N c path req)"
  by (auto simp: keeps_def post_def split: prod.splits)

lemma keeps_sendTCPMessage [keeps_intros]: "keeps wd_held (sendTCPMessage N msg)" "keeps wd_fs (sendTCPMessage N msg)"
  by (auto simp: keeps_def sendTCPMessage_def Let_def split: prod.splits option.splits)

text \<open>A slot that is held by \<open>holding\<close> is given back on every path.\<close>

lemma keeps_holding [keeps_intros]:
  assumes "keeps wd_held m" shows "keeps wd_held (holding N k m)"
proof (rule keepsI)
  fix w r w' assume run: "holding N k m w = (r, w')"
  obtain b n where n: "nt_acquire N k (wd_net w) = (b, n)" by fastforce
  show "wd_held w' = wd_held w"
  proof (cases b)
    case True
    let ?w = "w\<lparr>wd_net := n, wd_held := (wd_held w)(k := wd_held w k + 1)\<rparr>"
    obtain q v where q: "m ?w = (q, v)" by fastforce
    have "wd_held v = (wd_held w)(k := wd_held w k + 1)" using keepsD [OF assms q] by simp
    with run n True q show ?thesis by (auto simp: holding_def acquireSemaphore_def releaseSemaphore_def)
  next
    case False
    with run n show ?thesis by (auto simp: holding_def acquireSemaphore_def)
  qed
qed

lemma keeps_holding' [keeps_intros]:
  assumes "keeps wd_attempts m" shows "keeps wd_attempts (holding N k m)"
proof (rule keepsI)
  fix w r w' assume run: "holding N k m w = (r, w')"
  obtain b n where n: "nt_acquire N k (wd_net w) = (b, n)" by fastforce
  obtain q v where q: "m (w\<lparr>wd_net := n, wd_held := (wd_held w)(k := wd_held w k + 1)\<rparr>) = (q, v)" by fastforce
  with keepsD [OF assms q] run n show "wd_attempts w' = wd_attempts w"
    by (cases b) (auto simp: holding_def acquireSemaphore_def releaseSemaphore_def)
qed

lemma keeps_backoff [keeps_intros]:
  "keeps wd_held (backoff N a)" "keeps wd_attempts (backoff N a)" "keeps wd_fs (backoff N a)"
  unfolding backoff_def by (intro keeps_intros)+

lemma keeps_retry [keeps_intros]:
  assumes "keeps f once" and "\<And>a. keeps f (backoff N a)" shows "keeps f (retry N pick once attempt left lastErr)"
proof (induction left arbitrary: attempt lastErr)
  case 0
  show ?case by (auto intro: keeps_intros)
next
  case (Suc left)
  have "keeps f (\<lambda>w. case nt_err N TaskCtx (wd_net w) of
      Some ended \<Rightarrow> (Inl (pick ended err), w) | None \<Rightarrow> retry N pick once (Suc attempt) left (Some err) w)" for err
    using Suc [of "Suc attempt" "Some err"] by (auto simp: keeps_def split: option.splits)
  then show ?case unfolding retry.simps by (intro keeps_intros assms)
qed

section \<open>Lemmas\<close>

lemma onFs_Inr: "onFs m w = (Inr x, w') \<longleftrightarrow> (\<exists>s. m (wd_fs w) = (Inr x, s) \<and> w' = w\<lparr>wd_fs := s\<rparr>)"
  by (auto simp: onFs_def split: prod.splits)

lemma onFs_iff: "onFs m w = (r, w') \<longleftrightarrow> (\<exists>s. m (wd_fs w) = (r, s) \<and> w' = w\<lparr>wd_fs := s\<rparr>)"
  by (auto simp: onFs_def split: prod.splits)

text \<open>A loop that succeeds has made an attempt that succeeded.\<close>

lemma retry_Inr:
  assumes "retry N pick once attempt left lastErr w = (Inr u, w')" and "left > 0 \<or> lastErr \<noteq> None"
  shows "\<exists>v. once v = (Inr (), w')"
  using assms
proof (induction left arbitrary: attempt lastErr w)
  case 0
  then show ?case by (cases lastErr) auto
next
  case (Suc left)
  from Suc.prems(1) obtain v r v' where 1: "tryS once v = (Inr r, v')"
    "(case r of Inr _ \<Rightarrow> returnS () | Inl err \<Rightarrow>
         if is_panic err then throwS err
         else (\<lambda>w. case nt_err N TaskCtx (wd_net w) of
                 Some ended \<Rightarrow> (Inl (pick ended err), w)
               | None \<Rightarrow> retry N pick once (Suc attempt) left (Some err) w)) v' = (Inr u, w')"
    unfolding retry.simps by (elim bindS_InrE) blast
  show ?case
  proof (cases r)
    case (Inl err)
    with 1(2) have "retry N pick once (Suc attempt) left (Some err) v' = (Inr u, w')"
      by (auto split: if_splits option.splits)
    from Suc.IH [OF this] show ?thesis by simp
  next
    case (Inr x)
    with 1 show ?thesis by auto
  qed
qed

text \<open>
  The loop succeeds when the context does not end and the failures of an attempt come to an end: \<open>m\<close> counts
  those that are still to come. \<open>I\<close> holds before every attempt, and \<open>Q\<close> after one that succeeds.
\<close>

lemma retry_succeeds:
  assumes "I w" and "m w < left" and "\<And>n. nt_err N TaskCtx n = None" and "\<And>k n. fst (nt_wait N TaskCtx k n)"
    and wait: "\<And>k w. I w \<Longrightarrow> I (w\<lparr>wd_net := snd (nt_wait N TaskCtx k (wd_net w))\<rparr>) \<and>
      m (w\<lparr>wd_net := snd (nt_wait N TaskCtx k (wd_net w))\<rparr>) \<le> m w"
    and once: "\<And>w. I w \<Longrightarrow> (\<exists>w'. once w = (Inr (), w') \<and> Q w') \<or>
      (\<exists>e w'. once w = (Inl e, w') \<and> \<not> is_panic e \<and> I w' \<and> m w' < m w)"
  shows "\<exists>w'. retry N pick once attempt left lastErr w = (Inr (), w') \<and> Q w'"
  using assms(1,2)
proof (induction left arbitrary: attempt lastErr w)
  case 0
  then show ?case by simp
next
  case (Suc left)
  obtain v where v: "backoff N attempt w = (Inr (), v)" "I v" "m v \<le> m w"
  proof (cases attempt)
    case 0
    then show ?thesis using that Suc.prems(1) by (simp add: backoff_def)
  next
    case (Suc k)
    obtain n where n: "nt_wait N TaskCtx (2 ^ k) (wd_net w) = (True, n)"
      using assms(4) [of "2 ^ k" "wd_net w"] by (cases "nt_wait N TaskCtx (2 ^ k) (wd_net w)") auto
    show ?thesis
    proof (rule that)
      show "backoff N attempt w = (Inr (), w\<lparr>wd_net := n\<rparr>)" using Suc n by (simp add: backoff_def onNet_def)
    qed (use wait [OF \<open>I w\<close>, of "2 ^ k"] n in simp_all)
  qed
  show ?case
  proof (cases "\<exists>w'. once v = (Inr (), w') \<and> Q w'")
    case True
    with v(1) show ?thesis by (auto simp: bindS_def tryS_def)
  next
    case False
    then obtain e w' where e: "once v = (Inl e, w')" "\<not> is_panic e" "I w'" "m w' < m v"
      using once [OF v(2)] by auto
    then have "m w' < left" using v(3) Suc.prems(2) by simp
    from Suc.IH [OF e(3) this, of "Suc attempt" "Some e"] v(1) e(1,2) assms(3)
    show ?thesis by (auto simp: bindS_def tryS_def)
  qed
qed

end
