(* ===== verification/Pipeline.thy ===== *)
theory Pipeline
  imports Net Config PostProcess
begin

text \<open>
  The path of a task through \<open>internal/unpack/unpacker.go\<close>: the download, the export, the finalization, the
  manifest and the archive (\<open>Process\<close>), and the sizes of the semaphores (\<open>New\<close>). What is outside of
  the repository is the record \<open>tools\<close>: the programs that are run, the image and text codecs, regular
  expressions, the hash, the JSON and the tar and gzip encodings.
\<close>

section \<open>What is outside\<close>

text \<open>
  \<open>tl_cut\<close> is how much of an archive reaches the disk when closing the gzip and tar writers fails; the code drops
  that error.
\<close>

record ('n, 'f, 'img) tools =
  tl_studio :: "string \<Rightarrow> string list \<Rightarrow> 'n \<times> fsys \<Rightarrow> (go_err + unit) \<times> 'n \<times> fsys"
  tl_run :: tool
  tl_float :: "'f float_ops"
  tl_f32 :: "u32 \<Rightarrow> int"
  tl_shiftJIS :: "bytes \<Rightarrow> go_err + string"
  tl_decodePNG :: "bytes \<Rightarrow> go_err + 'img"
  tl_encodeWebP :: "'img \<Rightarrow> go_err + bytes"
  tl_matches :: "string \<Rightarrow> string \<Rightarrow> go_err + bool"
  tl_acbFate :: "string \<Rightarrow> fate"
  tl_hcaFate :: "string \<Rightarrow> string \<Rightarrow> fate"
  tl_rnd :: "string \<Rightarrow> string"
  tl_sha256 :: "bytes \<Rightarrow> string"
  tl_json :: "TaskResultManifest \<Rightarrow> bytes"
  tl_targz :: "(string \<times> bytes) list \<Rightarrow> bytes"
  tl_cut :: "nat option"

definition runStudio :: "('n, 'f, 'img) tools \<Rightarrow> string \<Rightarrow> string list \<Rightarrow> ('n world, unit) io" where
  "runStudio T cmd args w =
     (case tl_studio T cmd args (wd_net w, wd_fs w) of (r, n, s) \<Rightarrow> (r, w\<lparr>wd_net := n, wd_fs := s\<rparr>))"

section \<open>Sizes of the semaphores\<close>

record Unpacker =
  up_downloadSem :: nat
  up_assetStudioSem :: nat
  up_postProcessSem :: nat
  up_usmSem :: nat
  up_acbSem :: nat
  up_hcaSem :: nat

definition effectiveConcurrency :: "int \<Rightarrow> int \<Rightarrow> int \<Rightarrow> int" where
  "effectiveConcurrency v defaultValue maxValue =
     (let v = (if v \<le> 0 then defaultValue else v)
      in if maxValue > 0 \<and> v > maxValue then maxValue else v)"

text \<open>\<open>make(chan struct{}, n)\<close>.\<close>

definition makeSem :: "int \<Rightarrow> go_err + nat" where
  "makeSem n = (if n < 0 then Inl (Panic ''makechan: size out of range'') else Inr (nat n))"

definition New :: "Config \<Rightarrow> go_err + Unpacker" where
  "New cfg =
     (let c = Concurrency cfg;
          maxTasks = wc_MaxTasks (Worker cfg);
          assetStudio = (if cn_AssetStudio c \<le> 0 then maxTasks else cn_AssetStudio c);
          postProcess = (if cn_PostProcess c \<le> 0 then maxTasks else cn_PostProcess c)
      in bindR (makeSem (effectiveConcurrency (cn_Download c) 2 0)) (\<lambda>download.
         bindR (makeSem (effectiveConcurrency assetStudio maxTasks 0)) (\<lambda>studio.
         bindR (makeSem (effectiveConcurrency postProcess maxTasks 0)) (\<lambda>post.
         bindR (makeSem (effectiveConcurrency (cn_USM c) 4 0)) (\<lambda>usm.
         bindR (makeSem (effectiveConcurrency (cn_ACB c) 16 0)) (\<lambda>acb.
         bindR (makeSem (effectiveConcurrency (cn_HCA c) 16 0)) (\<lambda>hca.
           Inr \<lparr>up_downloadSem = download, up_assetStudioSem = studio, up_postProcessSem = post,
                up_usmSem = usm, up_acbSem = acb, up_hcaSem = hca\<rparr>)))))))"

section \<open>Download\<close>

text \<open>A disk that takes no writes fails the copy; what was copied is in the file until it is removed.\<close>

definition saveBundle :: "string \<Rightarrow> body \<Rightarrow> (fsys, unit) io" where
  "saveBundle bundle src =
     (let tmpPath = bundle @ ''.download''
      in bindS (osCreate tmpPath) (\<lambda>_ s.
         let (copyErr, out) = DeobfuscateToWriter
               \<lparr>wr_out = [], wr_limit = (if fs_fault s OpWrite tmpPath = None then None else Some 0)\<rparr> src;
             s = s\<lparr>fs_files := AList.update tmpPath (wr_out out) (fs_files s)\<rparr>;
             giveUp = (\<lambda>e. bindS (discard (osRemove tmpPath)) (\<lambda>_. throwS e))
         in case copyErr of
              Some e \<Rightarrow> giveUp (if is_panic e then e else Failure ''download/deobfuscate'') s
            | None \<Rightarrow>
                (case fs_fault s OpClose tmpPath of
                   Some e \<Rightarrow> giveUp (os_err e) s
                 | None \<Rightarrow>
                     bindS (tryS (osRename tmpPath bundle)) (\<lambda>r.
                       case r of Inl e \<Rightarrow> giveUp e | Inr _ \<Rightarrow> returnS ()) s)))"

definition downloadBundleOnce :: "'n net \<Rightarrow> TaskPayload \<Rightarrow> string \<Rightarrow> ('n world, unit) io" where
  "downloadBundleOnce N task bundle =
     (case nt_request N (tp_DownloadURL task) of
        Some e \<Rightarrow> throwS e
      | None \<Rightarrow>
          bindS (wrapErr ''download'' (onNet (nt_get N (tp_DownloadURL task) (tp_Headers task)))) (\<lambda>(status, resp).
          if status \<ge> 500 then throwS (Failure ''download returned'')
          else if status < 200 \<or> status \<ge> 300 then throwS (Failure ''download returned'')
          else onFs (saveBundle bundle resp)))"

definition downloadBundle :: "'n net \<Rightarrow> TaskPayload \<Rightarrow> string \<Rightarrow> ('n world, unit) io" where
  "downloadBundle N task bundle =
     holding N DownloadSem (retry N (\<lambda>ended err. ended) (downloadBundleOnce N task bundle) 0 4 None)"

section \<open>Export and post-processing\<close>

text \<open>
  An empty directory is not there in \<open>fsys\<close>, so \<open>postProcessExportedFiles\<close> returns for it before it takes the slot; the code takes
  the slot, finds no file and gives it back.
\<close>

definition handleUSMFiles ::
    "'n net \<Rightarrow> ('n, 'f, 'img) tools \<Rightarrow> Config \<Rightarrow> string \<Rightarrow> ExportOptions \<Rightarrow> ('n world, unit) io" where
  "handleUSMFiles N T cfg exportPath options =
     bindS (onFs (FindFilesByExtension exportPath ''.usm'')) (\<lambda>usmFiles.
     if ExportUSMFiles options \<and> DecodeUSMFiles options then
       (if usmFiles = [] then returnS ()
        else holding N UsmSem
          (bindS (if length usmFiles = 1 then returnS (hd usmFiles)
                  else wrapErr ''failed to merge USM files'' (onFs (mergeUSMFiles exportPath usmFiles))) (\<lambda>usmFile.
           onFs (ExportUSM (tl_run T) (tl_f32 T) (tl_shiftJIS T) usmFile exportPath (ConvertVideoToMP4 options)
             (DirectUSMToMP4WithFFmpeg options) (RemoveM2V options) (tc_FFMPEGPath (Tools cfg))))))
     else returnS ())"

definition postProcessExportedFiles ::
    "'n net \<Rightarrow> ('n, 'f, 'img) tools \<Rightarrow> Config \<Rightarrow> string \<Rightarrow> ExportOptions \<Rightarrow> ('n world, unit) io" where
  "postProcessExportedFiles N T cfg exportPath options =
     bindS (onFs (tryS (osStat exportPath))) (\<lambda>st.
     if (case st of Inl e \<Rightarrow> IsNotExist e | Inr _ \<Rightarrow> False) then returnS ()
     else holding N PostProcessSem
       (bindS (wrapErr ''failed to handle USM files'' (handleUSMFiles N T cfg exportPath options)) (\<lambda>_.
        bindS (wrapErr ''failed to handle ACB files'' (onFs (handleACBFiles (tl_acbFate T) (tl_hcaFate T) (tl_rnd T)
                 (tl_run T) (tl_float T) (tc_FFMPEGPath (Tools cfg)) exportPath options))) (\<lambda>_.
        bindS (wrapErr ''failed to handle WAV conversion'' (onFs (handleStandaloneWAVFiles (tl_run T) exportPath options
                 (tc_FFMPEGPath (Tools cfg))))) (\<lambda>_.
        wrapErr ''failed to handle PNG conversion'' (onFs (handlePNGConversion (tl_decodePNG T) (tl_encodeWebP T)
                 exportPath options)))))))"

definition ExtractUnityAssetBundle ::
    "'n net \<Rightarrow> ('n, 'f, 'img) tools \<Rightarrow> Config \<Rightarrow> string \<Rightarrow> string \<Rightarrow> string \<Rightarrow> string \<Rightarrow> ExportOptions \<Rightarrow> ('n world, unit) io" where
  "ExtractUnityAssetBundle N T cfg filePath exportPath outputDir category options =
     (if tc_AssetStudioCLIPath (Tools cfg) = '''' then returnS ()
      else case assetStudioExportTypes (tl_matches T) exportPath options of
        Inl _ \<Rightarrow> throwS (Failure ''failed to resolve AssetStudio export types'')
      | Inr exportTypes \<Rightarrow>
          bindS (wrapErr ''failed to export asset bundle'' (runStudio T (tc_AssetStudioCLIPath (Tools cfg))
                   (assetStudioArgs filePath exportTypes exportPath outputDir category options))) (\<lambda>_.
          bindS (wrapErr ''failed to inspect exported files'' (onFs (resolvePostProcessExportPath
                   (actualExportPath outputDir exportPath category options) outputDir))) (\<lambda>(postProcessPath, pathMismatch).
          wrapErr ''post-processing failed'' (postProcessExportedFiles N T cfg postProcessPath options))))"

definition finalizeExportRoot ::
    "'n net \<Rightarrow> ('n, 'f, 'img) tools \<Rightarrow> Config \<Rightarrow> string \<Rightarrow> ExportOptions \<Rightarrow> ('n world, unit) io" where
  "finalizeExportRoot N T cfg rootDir options =
     holding N PostProcessSem (wrapErr ''failed to finalize WAV files''
       (onFs (handleStandaloneWAVFiles (tl_run T) rootDir options (tc_FFMPEGPath (Tools cfg)))))"

section \<open>Manifest and archive\<close>

text \<open>What \<open>filepath.WalkDir\<close> gives of a directory: the paths relative to it, with what reading them gives.\<close>

fun walkEntries :: "string \<Rightarrow> string list \<Rightarrow> fsys \<Rightarrow> go_err + walk" where
  "walkEntries rootDir [] s = Inr []"
| "walkEntries rootDir (p # ps) s =
     bindR (Rel rootDir p) (\<lambda>rel. bindR (walkEntries rootDir ps s) (\<lambda>w. Inr ((rel, fst (osReadFile p s)) # w)))"

definition exportWalk :: "string \<Rightarrow> (fsys, walk) io" where
  "exportWalk rootDir = bindS (walkFiles rootDir) (\<lambda>ps s. (walkEntries rootDir ps s, s))"

definition taskManifest :: "TaskPayload \<Rightarrow> ResultFile list \<Rightarrow> TaskResultManifest" where
  "taskManifest task fs =
     \<lparr>tm_TaskID = tp_TaskID task, tm_JobID = tp_JobID task, tm_Region = tp_Region task,
      tm_BundlePath = tp_BundlePath task, tm_BundleHash = tp_BundleHash task, tm_Files = fs\<rparr>"

definition buildManifestOf ::
    "(bytes \<Rightarrow> string) \<Rightarrow> string \<Rightarrow> TaskPayload \<Rightarrow> (fsys, TaskResultManifest) io" where
  "buildManifestOf sha rootDir task =
     bindS (tryS (osStat rootDir)) (\<lambda>st.
     if (case st of Inl e \<Rightarrow> IsNotExist e | Inr _ \<Rightarrow> False) then returnS (taskManifest task [])
     else
       bindS (exportWalk rootDir) (\<lambda>w.
       case buildManifest sha w of
         Inl e \<Rightarrow> throwS e
       | Inr fs \<Rightarrow> returnS (taskManifest task fs)))"

definition reaching :: "nat option \<Rightarrow> bytes \<Rightarrow> bytes" where
  "reaching k b = (case k of None \<Rightarrow> b | Some n \<Rightarrow> take n b)"

definition createArchiveAt :: "('n, 'f, 'img) tools \<Rightarrow> string \<Rightarrow> string \<Rightarrow> (fsys, unit) io" where
  "createArchiveAt T rootDir archivePath =
     bindS (osCreate archivePath) (\<lambda>_.
     bindS (exportWalk rootDir) (\<lambda>w.
     case createArchive w of
       Inl e \<Rightarrow> throwS e
     | Inr entries \<Rightarrow> osWrite archivePath (reaching (tl_cut T) (tl_targz T entries))))"

section \<open>The whole\<close>

definition manifestPath :: "string \<Rightarrow> string \<Rightarrow> string" where
  "manifestPath rootDir taskID = Join [taskDir rootDir taskID, ''manifest.json'']"

definition archivePath :: "string \<Rightarrow> string \<Rightarrow> string" where
  "archivePath rootDir taskID = Join [taskDir rootDir taskID, ''result.tar.gz'']"

text \<open>
  The task directory, which the code returns with every result, is \<open>taskDir root taskID\<close>. The slot of AssetStudio is
  given back by a statement, not by a deferred call.
\<close>

type_synonym 'n progress = "string \<Rightarrow> rat \<Rightarrow> string \<Rightarrow> ('n world, unit) io"

definition underStudio :: "'n net \<Rightarrow> ('n world, unit) io \<Rightarrow> ('n world, unit) io" where
  "underStudio N body =
     bindS (acquireSemaphore N AssetStudioSem) (\<lambda>_.
     bindS (tryS body) (\<lambda>exportErr.
     if (case exportErr of Inl e \<Rightarrow> is_panic e | Inr _ \<Rightarrow> False) then (\<lambda>w. (exportErr, w))
     else bindS (releaseSemaphore AssetStudioSem) (\<lambda>_ w. (exportErr, w))))"

definition finishResult ::
    "('n, 'f, 'img) tools \<Rightarrow> Config \<Rightarrow> 'n progress \<Rightarrow> TaskPayload \<Rightarrow> ('n world, TaskResultManifest \<times> string) io" where
  "finishResult T cfg report task =
     (let ws = ws_Root (Workspace cfg);
          rootDir = exportRoot ws (tp_TaskID task)
      in bindS (onFs (buildManifestOf (tl_sha256 T) rootDir task)) (\<lambda>manifest.
         case validateExpectedManifestOutputs (tm_Files manifest) (tp_Export task) of
           Some e \<Rightarrow> throwS e
         | None \<Rightarrow>
         bindS (onFs (osWriteFile (manifestPath ws (tp_TaskID task)) (tl_json T manifest))) (\<lambda>_.
         bindS (report StageArchive 0.88 ''archiving result'') (\<lambda>_.
         bindS (onFs (createArchiveAt T rootDir (archivePath ws (tp_TaskID task)))) (\<lambda>_.
         returnS (manifest, archivePath ws (tp_TaskID task)))))))"

definition Process ::
    "'n net \<Rightarrow> ('n, 'f, 'img) tools \<Rightarrow> Config \<Rightarrow> 'n progress option \<Rightarrow> TaskPayload \<Rightarrow>
     ('n world, TaskResultManifest \<times> string) io" where
  "Process N T cfg reporter task =
     (let report = (case reporter of Some f \<Rightarrow> f | None \<Rightarrow> (\<lambda>_ _ _. returnS ()));
          ws = ws_Root (Workspace cfg);
          bundle = bundlePath ws (tp_TaskID task) (tp_BundlePath task);
          rootDir = exportRoot ws (tp_TaskID task)
      in bindS (onFs (osMkdirAll (Dir bundle))) (\<lambda>_.
         bindS (onFs (osMkdirAll rootDir)) (\<lambda>_.
         bindS (report StageDownload 0.05 ''downloading bundle'') (\<lambda>_.
         bindS (downloadBundle N task bundle) (\<lambda>_.
         bindS (report StageAssetStudioExport 0.30 ''exporting bundle'') (\<lambda>_.
         bindS (underStudio N (ExtractUnityAssetBundle N T cfg bundle (tp_BundlePath task) rootDir (tp_Category task)
                  (tp_Export task))) (\<lambda>_.
         bindS (onFs (discard (osRemove bundle))) (\<lambda>_.
         bindS (report StagePostProcess 0.78 ''finalizing exported audio'') (\<lambda>_.
         bindS (finalizeExportRoot N T cfg rootDir (tp_Export task)) (\<lambda>_.
         bindS (report StagePostProcess 0.80 ''building manifest'') (\<lambda>_.
         finishResult T cfg report task)))))))))))"

section \<open>Slots and requests\<close>

text \<open>
  A client with a loaded configuration starts, and no semaphore is without slots: none of the channels has a
  negative size, which would panic, and none has size zero, on which every task would wait for ever. AssetStudio and the
  post-processing get a slot for each task unless the configuration says otherwise.
\<close>

lemma semaphores_have_slots:
  assumes "config_ok cfg"
  shows "\<exists>u. New cfg = Inr u \<and>
    (\<forall>n\<in>{up_downloadSem u, up_assetStudioSem u, up_postProcessSem u, up_usmSem u, up_acbSem u, up_hcaSem u}. 0 < n) \<and>
    (cn_AssetStudio (Concurrency cfg) \<le> 0 \<longrightarrow> int (up_assetStudioSem u) = wc_MaxTasks (Worker cfg)) \<and>
    (cn_PostProcess (Concurrency cfg) \<le> 0 \<longrightarrow> int (up_postProcessSem u) = wc_MaxTasks (Worker cfg))"
  using assms by (auto simp: config_ok_def New_def Let_def effectiveConcurrency_def makeSem_def)

lemma keeps_runStudio [keeps_intros]: "keeps wd_held (runStudio T cmd args)" "keeps wd_attempts (runStudio T cmd args)"
  by (auto simp: keeps_def runStudio_def split: prod.splits)

lemma keeps_downloadBundle [keeps_intros]:
  "keeps wd_held (downloadBundle N task b)" "keeps wd_attempts (downloadBundle N task b)"
  unfolding downloadBundle_def downloadBundleOnce_def by (intro keeps_intros)+

lemma keeps_handleUSMFiles [keeps_intros]:
  "keeps wd_held (handleUSMFiles N T cfg p opts)" "keeps wd_attempts (handleUSMFiles N T cfg p opts)"
  unfolding handleUSMFiles_def by (intro keeps_intros)+

lemma keeps_postProcess [keeps_intros]:
  "keeps wd_held (postProcessExportedFiles N T cfg p opts)" "keeps wd_attempts (postProcessExportedFiles N T cfg p opts)"
  unfolding postProcessExportedFiles_def by (intro keeps_intros)+

lemma keeps_Extract [keeps_intros]:
  "keeps wd_held (ExtractUnityAssetBundle N T cfg f e d c opts)" "keeps wd_attempts (ExtractUnityAssetBundle N T cfg f e d c opts)"
  unfolding ExtractUnityAssetBundle_def by (intro keeps_intros)+

lemma keeps_finalize [keeps_intros]:
  "keeps wd_held (finalizeExportRoot N T cfg d opts)" "keeps wd_attempts (finalizeExportRoot N T cfg d opts)"
  unfolding finalizeExportRoot_def by (intro keeps_intros)+

lemma keeps_const [keeps_intros]: "keeps f (\<lambda>w. (r, w))"
  by (simp add: keeps_def)

lemma keeps_underStudio [keeps_intros]: "keeps wd_attempts m \<Longrightarrow> keeps wd_attempts (underStudio N m)"
  unfolding underStudio_def by (intro keeps_intros)

text \<open>
  The slot of AssetStudio is kept exactly when the export panics under it. \<open>before_export\<close> is what \<open>Process\<close> does until it asks for
  that slot, \<open>export_of\<close> what it does under it, and \<open>after_export\<close> the rest (\<open>Process_parts\<close>).
\<close>

definition panicked :: "go_err + 'a \<Rightarrow> bool" where
  "panicked r \<longleftrightarrow> (case r of Inl e \<Rightarrow> is_panic e | Inr _ \<Rightarrow> False)"

definition panics_under_studio :: "'n net \<Rightarrow> ('n world, unit) io \<Rightarrow> 'n world \<Rightarrow> bool" where
  "panics_under_studio N body w \<longleftrightarrow>
     (case acquireSemaphore N AssetStudioSem w of (Inr _, v) \<Rightarrow> panicked (fst (body v)) | (Inl _, v) \<Rightarrow> False)"

definition before_export :: "'n net \<Rightarrow> Config \<Rightarrow> 'n progress \<Rightarrow> TaskPayload \<Rightarrow> ('n world, unit) io" where
  "before_export N cfg report task =
     (let ws = ws_Root (Workspace cfg); bundle = bundlePath ws (tp_TaskID task) (tp_BundlePath task)
      in bindS (onFs (osMkdirAll (Dir bundle))) (\<lambda>_.
         bindS (onFs (osMkdirAll (exportRoot ws (tp_TaskID task)))) (\<lambda>_.
         bindS (report StageDownload 0.05 ''downloading bundle'') (\<lambda>_.
         bindS (downloadBundle N task bundle) (\<lambda>_.
         report StageAssetStudioExport 0.30 ''exporting bundle'')))))"

definition export_of :: "'n net \<Rightarrow> ('n, 'f, 'img) tools \<Rightarrow> Config \<Rightarrow> TaskPayload \<Rightarrow> ('n world, unit) io" where
  "export_of N T cfg task =
     (let ws = ws_Root (Workspace cfg)
      in ExtractUnityAssetBundle N T cfg (bundlePath ws (tp_TaskID task) (tp_BundlePath task)) (tp_BundlePath task)
           (exportRoot ws (tp_TaskID task)) (tp_Category task) (tp_Export task))"

definition after_export :: "'n net \<Rightarrow> ('n, 'f, 'img) tools \<Rightarrow> Config \<Rightarrow> 'n progress \<Rightarrow> TaskPayload \<Rightarrow>
     ('n world, TaskResultManifest \<times> string) io" where
  "after_export N T cfg report task =
     (let ws = ws_Root (Workspace cfg); rootDir = exportRoot ws (tp_TaskID task)
      in bindS (onFs (discard (osRemove (bundlePath ws (tp_TaskID task) (tp_BundlePath task))))) (\<lambda>_.
         bindS (report StagePostProcess 0.78 ''finalizing exported audio'') (\<lambda>_.
         bindS (finalizeExportRoot N T cfg rootDir (tp_Export task)) (\<lambda>_.
         bindS (report StagePostProcess 0.80 ''building manifest'') (\<lambda>_.
         finishResult T cfg report task)))))"

definition export_panics :: "'n net \<Rightarrow> ('n, 'f, 'img) tools \<Rightarrow> Config \<Rightarrow> 'n progress \<Rightarrow> TaskPayload \<Rightarrow> 'n world \<Rightarrow> bool" where
  "export_panics N T cfg report task w \<longleftrightarrow>
     (case before_export N cfg report task w of
        (Inr _, v) \<Rightarrow> panics_under_studio N (export_of N T cfg task) v
      | (Inl _, v) \<Rightarrow> False)"

definition with_slots_lost :: "nat \<Rightarrow> (sem \<Rightarrow> int) \<Rightarrow> sem \<Rightarrow> int" where
  "with_slots_lost n held = held(AssetStudioSem := held AssetStudioSem + int n)"

lemma with_slots_lost_simps [simp]:
  "with_slots_lost 0 held = held"
  "with_slots_lost m (with_slots_lost n held) = with_slots_lost (n + m) held"
  by (auto simp: with_slots_lost_def)

lemma underStudio_held:
  assumes "keeps wd_held body"
  shows "wd_held (snd (underStudio N body w)) = with_slots_lost (of_bool (panics_under_studio N body w)) (wd_held w)"
proof -
  obtain b n where n: "nt_acquire N AssetStudioSem (wd_net w) = (b, n)" by fastforce
  let ?w = "w\<lparr>wd_net := n, wd_held := (wd_held w)(AssetStudioSem := wd_held w AssetStudioSem + 1)\<rparr>"
  obtain q v where q: "body ?w = (q, v)" by fastforce
  have "wd_held v = wd_held ?w" by (rule keepsD [OF assms q])
  with n q show ?thesis
    by (cases b) (auto simp: underStudio_def acquireSemaphore_def releaseSemaphore_def bindS_def tryS_def with_slots_lost_def
        panics_under_studio_def panicked_def split: sum.splits)
qed

lemma keeps_after: "(\<And>x. keeps f (g x)) \<Longrightarrow> f (snd (bindS m g s)) = f (snd (m s))"
  by (auto simp: bindS_def keeps_def split: sum.splits prod.splits)

lemma Process_parts:
  "Process N T cfg (Some report) task =
     bindS (before_export N cfg report task) (\<lambda>_.
     bindS (underStudio N (export_of N T cfg task)) (\<lambda>_. after_export N T cfg report task))"
  by (simp add: Process_def before_export_def after_export_def export_of_def Let_def bindS_assoc)

lemma Process_held:
  assumes report: "\<And>st p msg. keeps wd_held (report st p msg)"
  shows "wd_held (snd (Process N T cfg (Some report) task w)) =
    with_slots_lost (of_bool (export_panics N T cfg report task w)) (wd_held w)"
proof -
  have before: "keeps wd_held (before_export N cfg report task)"
    unfolding before_export_def Let_def by (intro keeps_intros report)
  have export: "keeps wd_held (export_of N T cfg task)" unfolding export_of_def Let_def by (rule keeps_Extract)
  have after: "keeps wd_held (after_export N T cfg report task)"
    unfolding after_export_def finishResult_def Let_def by (intro keeps_intros report)
  obtain q v where q: "before_export N cfg report task w = (q, v)" by fastforce
  have v: "wd_held v = wd_held w" by (rule keepsD [OF before q])
  show ?thesis
  proof (cases q)
    case (Inl e)
    with q v show ?thesis by (simp add: Process_parts bindS_def export_panics_def)
  next
    case (Inr x)
    then have "Process N T cfg (Some report) task w =
        bindS (underStudio N (export_of N T cfg task)) (\<lambda>_. after_export N T cfg report task) v"
      using q by (simp add: Process_parts bindS_Inr)
    then show ?thesis
      using q Inr v by (simp add: keeps_after [OF after] underStudio_held [OF export] export_panics_def)
  qed
qed

section \<open>The download\<close>

text \<open>A file system on which a bundle can be saved.\<close>

definition can_save :: "string \<Rightarrow> fsys \<Rightarrow> bool" where
  "can_save b s \<longleftrightarrow>
     (\<forall>op. fs_fault s op (b @ ''.download'') = None) \<and> no_dir s b \<and> no_dir s (b @ ''.download'')"

lemma no_dir_not_Directory: "no_dir s p \<Longrightarrow> lookup p s \<noteq> Inr Directory"
  by (auto simp: no_dir_lookup split: option.splits)

lemma download_name: "b @ ''.download'' \<noteq> b" "\<not> below b (b @ ''.download'')" "\<not> below (b @ ''.download'') b"
  by (auto simp: below_def hasPrefix_iff)

text \<open>One attempt, from the answer on.\<close>

lemma saveBundle_succeeds:
  assumes "can_save b s" and "body_ok src" and "bd_end src = EOF"
  shows "\<exists>t. saveBundle b src s = (Inr (), t) \<and>
    disk t = ((disk s)(b @ ''.download'' := None))(b \<mapsto> Deobfuscate (body_bytes src))"
proof -
  let ?tmp = "b @ ''.download''"
  have f: "fs_fault s op ?tmp = None" for op using assms(1) by (simp add: can_save_def)
  obtain s1 where s1: "osCreate ?tmp s = (Inr (), s1)"
    using f no_dir_not_Directory assms(1) by (auto simp: osCreate_def with_fault_def can_save_def)
  have d1: "disk s1 = (disk s)(?tmp \<mapsto> [])" "fs_fault s1 = fs_fault s" using osCreate_Inr [OF s1] by auto
  let ?s2 = "s1\<lparr>fs_files := AList.update ?tmp (Deobfuscate (body_bytes src)) (fs_files s1)\<rparr>"
  have d2: "disk ?s2 = (disk s)(?tmp \<mapsto> Deobfuscate (body_bytes src))" by (simp add: update_conv' d1)
  have "no_dir ?s2 b"
    using assms(1) download_name(2) [of b] unfolding no_dir_def d2 by (auto simp: can_save_def no_dir_def)
  then have "osRename ?tmp b ?s2 = (Inr (), ?s2\<lparr>fs_files :=
      AList.update b (Deobfuscate (body_bytes src)) (AList.delete ?tmp (fs_files ?s2))\<rparr>)"
    using f d2 no_dir_not_Directory by (simp add: osRename_def with_fault_def d1(2))
  moreover have "disk (?s2\<lparr>fs_files := AList.update b (Deobfuscate (body_bytes src)) (AList.delete ?tmp (fs_files ?s2))\<rparr>)
      = ((disk s)(?tmp := None))(b \<mapsto> Deobfuscate (body_bytes src))"
    by (simp add: update_conv' delete_conv' d1(1))
  ultimately show ?thesis
    using s1 to_writer_unlimited [OF assms(2,3), of "\<lparr>wr_out = [], wr_limit = None\<rparr>"] f
    by (simp add: saveBundle_def Let_def bindS_def tryS_def d1(2))
qed

text \<open>
  A download that succeeded has put the deobfuscated body at its place. The body is whole, or an \<open>UnexpectedEOF\<close> cut it off within
  the header, which the code does not notice.
\<close>

lemma saveBundle_Inr:
  assumes "saveBundle b src s = (Inr u, t)" and "body_ok src"
  shows "disk t = ((disk s)(b @ ''.download'' := None))(b \<mapsto> Deobfuscate (body_bytes src)) \<and> fs_fault t = fs_fault s \<and>
    (bd_end src = EOF \<or> bd_end src = UnexpectedEOF \<and> ends_in_header (body_bytes src))"
proof -
  let ?tmp = "b @ ''.download''"
  obtain v s1 where s1: "osCreate ?tmp s = (Inr v, s1)"
    using assms(1) unfolding saveBundle_def Let_def by (elim bindS_InrE)
  let ?w = "\<lparr>wr_out = [], wr_limit = (if fs_fault s1 OpWrite ?tmp = None then None else Some 0)\<rparr>"
  obtain c out where c: "DeobfuscateToWriter ?w src = (c, out)" by fastforce
  let ?s2 = "s1\<lparr>fs_files := AList.update ?tmp (wr_out out) (fs_files s1)\<rparr>"
  have give: "bindS (discard (osRemove ?tmp)) (\<lambda>_. throwS e) x \<noteq> (Inr u, t)" for e x
    by (auto simp: bindS_def split: prod.splits sum.splits)
  have cn: "c = None" and rn: "osRename ?tmp b ?s2 = (Inr (), t)"
    using assms(1) s1 c give
    by (auto simp: saveBundle_def Let_def bindS_Inr [where x = v] split: option.splits sum.splits elim!: bindS_InrE)
  have "wr_out out = Deobfuscate (body_bytes src)"
    "bd_end src = EOF \<or> bd_end src = UnexpectedEOF \<and> ends_in_header (body_bytes src)"
    using deobfuscate_success_is_complete [OF assms(2) c [unfolded cn]] by simp_all
  moreover have "disk t = ((disk ?s2)(?tmp := None))(b := disk ?s2 ?tmp)" "fs_fault t = fs_fault ?s2"
    using osRename_Inr [OF rn] by simp_all
  ultimately show ?thesis using osCreate_Inr [OF s1] by (simp add: update_conv')
qed

text \<open>An attempt that breaks off leaves nothing behind.\<close>

lemma saveBundle_breaks:
  assumes "can_save b s" and "body_ok src" and "bd_end src \<noteq> EOF"
    and "bd_end src = UnexpectedEOF \<Longrightarrow> \<not> ends_in_header (body_bytes src)" and "\<not> is_panic (bd_end src)"
  shows "\<exists>e t. saveBundle b src s = (Inl e, t) \<and> \<not> is_panic e \<and> can_save b t \<and>
    disk t = (disk s)(b @ ''.download'' := None)"
proof -
  let ?tmp = "b @ ''.download''"
  have f: "fs_fault s op ?tmp = None" for op using assms(1) by (simp add: can_save_def)
  obtain s1 where s1: "osCreate ?tmp s = (Inr (), s1)"
    using f no_dir_not_Directory assms(1) by (auto simp: osCreate_def with_fault_def can_save_def)
  have d1: "disk s1 = (disk s)(?tmp \<mapsto> [])" "fs_fault s1 = fs_fault s" using osCreate_Inr [OF s1] by auto
  let ?w = "\<lparr>wr_out = [], wr_limit = None\<rparr>"
  obtain c out where c: "DeobfuscateToWriter ?w src = (c, out)" by fastforce
  have "c = Some (bd_end src)"
  proof (cases "ends_in_header (body_bytes src)")
    case True
    then have "bd_end src \<noteq> UnexpectedEOF" using assms(4) by auto
    with True c assms(3) show ?thesis by (simp add: to_writer_short [OF assms(2)] is_short_def)
  next
    case False
    then obtain m body where "body_ok body" "bd_end body = bd_end src"
        "\<And>dst. DeobfuscateToWriter dst src = write_then_copy m dst body"
      using to_writer_long [OF assms(2)] by metis
    with write_then_copy_unlimited [of body ?w m] c assms(3) show ?thesis by simp
  qed
  let ?s2 = "s1\<lparr>fs_files := AList.update ?tmp (wr_out out) (fs_files s1)\<rparr>"
  let ?s3 = "?s2\<lparr>fs_files := AList.delete ?tmp (fs_files ?s2)\<rparr>"
  have "disk ?s2 ?tmp = Some (wr_out out)" by (simp add: update_conv')
  then have "osRemove ?tmp ?s2 = (Inr (), ?s3)"
    using f d1(2) by (simp add: osRemove_def with_fault_def lookup_def)
  then have r: "saveBundle b src s = (Inl (Failure ''download/deobfuscate''), ?s3)"
    using s1 c \<open>c = Some (bd_end src)\<close> f assms(5) by (simp add: saveBundle_def Let_def bindS_def discard_def d1(2))
  have d3: "disk ?s3 = (disk s)(?tmp := None)" by (simp add: update_conv' delete_conv' d1(1))
  have "can_save b ?s3"
    using assms(1) unfolding can_save_def no_dir_def d3 by (simp add: d1(2))
  with r d3 show ?thesis by auto
qed

text \<open>
  A server that recovers: \<open>m\<close> counts the requests that will still fail. Such a request is refused, answered with
  another status, or its body breaks off; then \<open>resp\<close> is sent. Meanwhile the context does not end. A body that breaks off ends with an
  error that is not the end of file, like the \<open>UnexpectedEOF\<close> of a connection that was closed too early. That one error must not come
  within the marker or the header of a masked bundle: there the code takes it for the end of a short file
  (\<open>saveBundle_Inr\<close>).
\<close>

definition request_fails :: "go_err + (int \<times> body) \<Rightarrow> bool" where
  "request_fails r \<longleftrightarrow>
     (case r of
        Inl e \<Rightarrow> \<not> is_panic e
      | Inr (status, b) \<Rightarrow>
          status < 200 \<or> status \<ge> 300 \<or>
          body_ok b \<and> bd_end b \<noteq> EOF \<and> \<not> is_panic (bd_end b) \<and>
          (bd_end b = UnexpectedEOF \<longrightarrow> \<not> ends_in_header (body_bytes b)))"

definition recovering :: "'n net \<Rightarrow> TaskPayload \<Rightarrow> ('n \<Rightarrow> nat) \<Rightarrow> body \<Rightarrow> bool" where
  "recovering N task m resp \<longleftrightarrow>
     nt_request N (tp_DownloadURL task) = None \<and> (\<forall>n. nt_err N TaskCtx n = None) \<and>
     (\<forall>k n. fst (nt_wait N TaskCtx k n) \<and> m (snd (nt_wait N TaskCtx k n)) \<le> m n) \<and>
     (\<forall>n. fst (nt_acquire N DownloadSem n) \<and> m (snd (nt_acquire N DownloadSem n)) \<le> m n) \<and>
     (\<forall>n. case nt_get N (tp_DownloadURL task) (tp_Headers task) n of
        (r, n') \<Rightarrow> if m n = 0 then r = Inr (200, resp) else request_fails r \<and> m n' < m n)"

lemma recoveringD:
  assumes "recovering N task m resp"
  shows "nt_request N (tp_DownloadURL task) = None" and "nt_err N TaskCtx n = None"
    and "fst (nt_wait N TaskCtx k n)" and "m (snd (nt_wait N TaskCtx k n)) \<le> m n"
    and "fst (nt_acquire N DownloadSem n)" and "m (snd (nt_acquire N DownloadSem n)) \<le> m n"
  using assms unfolding recovering_def by blast+

lemma downloadBundleOnce_run:
  assumes rec: "recovering N task m resp" and resp: "body_ok resp" "bd_end resp = EOF" and save: "can_save b (wd_fs w)"
  shows "(\<exists>w'. downloadBundleOnce N task b w = (Inr (), w') \<and>
      disk (wd_fs w') = ((disk (wd_fs w))(b @ ''.download'' := None))(b \<mapsto> Deobfuscate (body_bytes resp))) \<or>
    (\<exists>e w'. downloadBundleOnce N task b w = (Inl e, w') \<and> \<not> is_panic e \<and> can_save b (wd_fs w') \<and>
      (\<forall>p. p \<noteq> b @ ''.download'' \<longrightarrow> disk (wd_fs w') p = disk (wd_fs w) p) \<and> m (wd_net w') < m (wd_net w))"
proof -
  obtain r n where n: "nt_get N (tp_DownloadURL task) (tp_Headers task) (wd_net w) = (r, n)" by fastforce
  have q: "nt_request N (tp_DownloadURL task) = None" and
    c: "if m (wd_net w) = 0 then r = Inr (200, resp) else request_fails r \<and> m n < m (wd_net w)"
    using rec n by (auto simp: recovering_def dest!: spec [of _ "wd_net w"])
  show ?thesis
  proof (cases "m (wd_net w) = 0")
    case True
    with c saveBundle_succeeds [OF save resp] n q show ?thesis
      by (auto simp: downloadBundleOnce_def bindS_def wrapErr_def onNet_def onFs_def)
  next
    case False
    with c have f: "request_fails r" "m n < m (wd_net w)" by auto
    consider (err) e where "r = Inl e" "\<not> is_panic e"
      | (status) st body where "r = Inr (st, body)" "st < 200 \<or> st \<ge> 300"
      | (breaks) st body where "r = Inr (st, body)" "\<not> st < 200" "\<not> st \<ge> 300"
          "body_ok body" "bd_end body \<noteq> EOF"
          "bd_end body = UnexpectedEOF \<Longrightarrow> \<not> ends_in_header (body_bytes body)" "\<not> is_panic (bd_end body)"
      using f(1) by (auto simp: request_fails_def split: sum.splits prod.splits)
    then show ?thesis
    proof cases
      case err
      with n q f(2) save show ?thesis by (simp add: downloadBundleOnce_def bindS_def wrapErr_def onNet_def)
    next
      case status
      with n q f(2) save show ?thesis by (auto simp: downloadBundleOnce_def bindS_def wrapErr_def onNet_def)
    next
      case breaks
      from saveBundle_breaks [OF save breaks(4-7)] obtain e t where
        "saveBundle b body (wd_fs w) = (Inl e, t)" "\<not> is_panic e" "can_save b t"
        "disk t = (disk (wd_fs w))(b @ ''.download'' := None)" by blast
      with breaks(1-3) n q f(2) show ?thesis
        by (simp add: downloadBundleOnce_def bindS_def wrapErr_def onNet_def onFs_def)
    qed
  qed
qed

text \<open>
  C4: A download survives up to three failures. If the server refuses at most three requests, answers them with
  another status or breaks off their bodies, and then sends the bundle, and the deadline does not pass meanwhile, the
  download succeeds: the deobfuscated bundle is at its place, the temporary file is gone, and nothing else on
  the disk has changed. A body may break off with any error, \<open>UnexpectedEOF\<close> included, but for one case, which the code
  mistakes for a short file: an \<open>UnexpectedEOF\<close> before the fourth byte, or before byte 132 of a masked bundle.
\<close>

theorem download_survives_failures:
  assumes rec: "recovering N task m resp" and resp: "body_ok resp" "bd_end resp = EOF"
    and save: "can_save b (wd_fs w)" and m: "m (wd_net w) \<le> 3"
  shows "\<exists>w'. downloadBundle N task b w = (Inr (), w') \<and>
    disk (wd_fs w') = ((disk (wd_fs w))(b @ ''.download'' := None))(b \<mapsto> Deobfuscate (body_bytes resp))"
proof -
  let ?tmp = "b @ ''.download''"
  define I where "I v \<longleftrightarrow> can_save b (wd_fs v) \<and> (\<forall>p. p \<noteq> ?tmp \<longrightarrow> disk (wd_fs v) p = disk (wd_fs w) p)" for v :: "'a world"
  define Q where "Q v \<longleftrightarrow> disk (wd_fs v) = ((disk (wd_fs w))(?tmp := None))(b \<mapsto> Deobfuscate (body_bytes resp))" for v :: "'a world"
  obtain n where n: "nt_acquire N DownloadSem (wd_net w) = (True, n)" "m n \<le> 3"
    using recoveringD(5,6) [OF rec, of "wd_net w"] m
    by (cases "nt_acquire N DownloadSem (wd_net w)") auto
  let ?w = "w\<lparr>wd_net := n, wd_held := (wd_held w)(DownloadSem := wd_held w DownloadSem + 1)\<rparr>"
  have "\<exists>w'. retry N (\<lambda>ended err. ended) (downloadBundleOnce N task b) 0 4 None ?w = (Inr (), w') \<and> Q w'"
  proof (rule retry_succeeds [where I = I and m = "\<lambda>w. m (wd_net w)"])
    show "I ?w" using save by (simp add: I_def)
    show "m (wd_net ?w) < 4" using n(2) by simp
    show "nt_err N TaskCtx k = None" "fst (nt_wait N TaskCtx i k)" for i k
      by (rule recoveringD [OF rec])+
    show "I (v\<lparr>wd_net := snd (nt_wait N TaskCtx k (wd_net v))\<rparr>) \<and>
        m (wd_net (v\<lparr>wd_net := snd (nt_wait N TaskCtx k (wd_net v))\<rparr>)) \<le> m (wd_net v)" if "I v" for k v
      using recoveringD(4) [OF rec] that by (simp add: I_def)
    show "(\<exists>w'. downloadBundleOnce N task b v = (Inr (), w') \<and> Q w') \<or>
        (\<exists>e w'. downloadBundleOnce N task b v = (Inl e, w') \<and> \<not> is_panic e \<and> I w' \<and> m (wd_net w') < m (wd_net v))"
      if I: "I v" for v
    proof -
      have e: "(disk (wd_fs v))(?tmp := None) = (disk (wd_fs w))(?tmp := None)"
        using I by (auto simp: I_def fun_eq_iff)
      have "can_save b (wd_fs v)" using I by (simp add: I_def)
      from downloadBundleOnce_run [OF rec resp this, unfolded e] show ?thesis
      proof (elim disjE exE conjE)
        fix w' assume "downloadBundleOnce N task b v = (Inr (), w')"
          "disk (wd_fs w') = ((disk (wd_fs w))(?tmp := None))(b \<mapsto> Deobfuscate (body_bytes resp))"
        then show ?thesis unfolding Q_def by blast
      next
        fix e w' assume r: "downloadBundleOnce N task b v = (Inl e, w')" "\<not> is_panic e" "can_save b (wd_fs w')"
          "\<forall>p. p \<noteq> ?tmp \<longrightarrow> disk (wd_fs w') p = disk (wd_fs v) p" "m (wd_net w') < m (wd_net v)"
        then have "I w'" using I by (simp add: I_def)
        with r show ?thesis by blast
      qed
    qed
  qed
  then obtain w' where w': "retry N (\<lambda>ended err. ended) (downloadBundleOnce N task b) 0 4 None ?w = (Inr (), w')" "Q w'"
    by blast
  then show ?thesis
    using n(1) by (simp add: downloadBundle_def holding_def acquireSemaphore_def releaseSemaphore_def Q_def)
qed

definition flaky_net :: "body \<Rightarrow> nat net" where
  "flaky_net resp =
     \<lparr>nt_err = \<lambda>_ _. None, nt_deadline = \<lambda>_ n. n, nt_wait = \<lambda>_ _ n. (True, n), nt_acquire = \<lambda>_ n. (True, n),
      nt_request = \<lambda>_. None,
      nt_get = \<lambda>_ _ n. if n = 0 then (Inr (200, resp), 0)
        else if n = 1 then (Inr (200, \<lparr>bd_chunks = [[1]], bd_end = Failure ''connection reset''\<rparr>), 0)
        else if n = 2 then (Inr (200, \<lparr>bd_chunks = [[1, 2], [3, 4, 5]], bd_end = UnexpectedEOF\<rparr>), 1)
        else (Inr (503, resp), n - 1),
      nt_post = \<lambda>_ _ _ n. (Inr (200, NoReply), n), nt_connected = \<lambda>_. True, nt_send = \<lambda>_ n. (None, n),
      nt_close = \<lambda>n. n\<rparr>"

definition sample_task :: TaskPayload where
  "sample_task =
     \<lparr>tp_TaskID = ''t1'', tp_JobID = ''j1'', tp_Region = RegionJP, tp_BundlePath = ''a/b'', tp_DownloadPath = ''a/b'',
      tp_BundleHash = ''h'', tp_Category = AssetCategoryOnDemand, tp_DownloadURL = ''u'', tp_Headers = Map.empty,
      tp_Export = plain_options, tp_EstimatedSizeBytes = 0, tp_Queue = TaskQueueNormal, tp_Priority = False,
      tp_Delayed = False\<rparr>"

theorem download_survives_failures_witness:
  "\<exists>w'. downloadBundle (flaky_net sample_body) sample_task ''x.bundle''
      \<lparr>wd_fs = \<lparr>fs_files = [], fs_fault = \<lambda>_ _. None\<rparr>, wd_net = 3, wd_held = \<lambda>_. 0, wd_attempts = []\<rparr> = (Inr (), w') \<and>
    disk (wd_fs w') = [''x.bundle'' \<mapsto> [7, 8, 9]]"
proof -
  let ?w = "\<lparr>wd_fs = \<lparr>fs_files = [], fs_fault = \<lambda>_ _. None\<rparr>, wd_net = 3, wd_held = \<lambda>_. 0, wd_attempts = []\<rparr> :: nat world"
  have r: "recovering (flaky_net sample_body) sample_task (\<lambda>n. n) sample_body"
    by (simp add: recovering_def flaky_net_def request_fails_def body_ok_def body_bytes_def ends_in_header_def)
  have b: "body_ok sample_body" "bd_end sample_body = EOF" by (simp_all add: body_ok_def sample_body_def)
  have s: "can_save ''x.bundle'' (wd_fs ?w)" by (simp add: can_save_def no_dir_def)
  have d: "Deobfuscate (body_bytes sample_body) = [7, 8, 9]"
    by (simp add: sample_body_def body_bytes_def Deobfuscate_def)
  show ?thesis using download_survives_failures [OF r b s] by (auto simp: d)
qed

section \<open>The result\<close>

text \<open>A walk does not see what happens beside the directory.\<close>

lemma filter_update: "\<not> P p \<Longrightarrow> filter (\<lambda>(q, _). P q) (AList.update p b xs) = filter (\<lambda>(q, _). P q) xs"
  by (induction xs) auto

lemma walkFiles_beside:
  assumes "\<not> below d p" and "p \<noteq> d" and "fs_fault t = fs_fault s" and "fs_files t = AList.update p b (fs_files s)"
  shows "walkFiles d t = (fst (walkFiles d s), t)"
  using assms by (auto simp: walkFiles_def with_fault_def update_conv' filter_update split: option.splits)

definition files_agree :: "string \<Rightarrow> fsys \<Rightarrow> fsys \<Rightarrow> bool" where
  "files_agree d s t \<longleftrightarrow>
     fs_fault t = fs_fault s \<and> fst (walkFiles d t) = fst (walkFiles d s) \<and>
     (\<forall>p. p = d \<or> below d p \<longrightarrow> disk t p = disk s p \<and> lookup p t = lookup p s)"

lemma below_trans: "below d p \<Longrightarrow> below p q \<Longrightarrow> below d q"
  by (auto simp: below_def hasPrefix_iff)

lemma lookup_update:
  assumes "\<not> below q p" and "q \<noteq> p"
  shows "lookup q (s\<lparr>fs_files := AList.update p b (fs_files s)\<rparr>) = lookup q s"
proof -
  have "list_ex (\<lambda>(x, _). below q x) xs \<longleftrightarrow> filter (\<lambda>(x, _). below q x) xs \<noteq> []" for xs :: "(string \<times> bytes) list"
    by (induction xs) auto
  then show ?thesis using assms by (simp add: lookup_def update_conv' filter_update)
qed

lemma agree_update:
  assumes "\<not> below d p" and "p \<noteq> d"
  shows "files_agree d s (s\<lparr>fs_files := AList.update p b (fs_files s)\<rparr>)"
proof -
  have "\<not> below q p" "q \<noteq> p" if "q = d \<or> below d q" for q
    using that assms below_trans by auto
  then show ?thesis
    unfolding files_agree_def
    using walkFiles_beside [OF assms, of "s\<lparr>fs_files := AList.update p b (fs_files s)\<rparr>" s b]
    by (auto simp: lookup_update update_conv')
qed

lemma agree_refl: "files_agree d s s"
  by (simp add: files_agree_def)

lemma agree_trans: "files_agree d s t \<Longrightarrow> files_agree d t u \<Longrightarrow> files_agree d s u"
  by (simp add: files_agree_def)

lemma walkEntries_agree:
  assumes "files_agree d s t" and "\<forall>p\<in>set ps. p = d \<or> below d p"
  shows "walkEntries d ps t = walkEntries d ps s"
  using assms(2)
proof (induction ps)
  case (Cons p ps)
  have "fst (osReadFile p t) = fst (osReadFile p s)"
    using assms(1) Cons.prems by (auto simp: osReadFile_def with_fault_def files_agree_def split: option.splits)
  with Cons show ?case by simp
qed simp

lemma exportWalk_agree:
  assumes "files_agree d s t" shows "exportWalk d t = (fst (exportWalk d s), t)"
proof -
  obtain r s' where r: "walkFiles d s = (r, s')" by fastforce
  have t: "walkFiles d t = (r, t)"
    using assms r walkFiles_state [of d t] by (cases "walkFiles d t") (auto simp: files_agree_def)
  show ?thesis
  proof (cases r)
    case (Inl e)
    with r t show ?thesis by (simp add: exportWalk_def bindS_def)
  next
    case (Inr ps)
    with walkFiles_Inr r have "s' = s" "\<forall>p\<in>set ps. p = d \<or> below d p" by (auto split: if_splits)
    with walkEntries_agree [OF assms] Inr r t show ?thesis by (simp add: exportWalk_def bindS_def)
  qed
qed

lemma Join_child:
  assumes "d \<noteq> ''''" and "proper x" and "CHR ''/'' \<notin> set x"
  shows "Join [d, x] = (if rooted d then ''/'' else '''') @
    (if stack_of d = [] then '''' else joinWith ''/'' (rev (stack_of d)) @ ''/'') @ x"
proof -
  have "splitSlash x = [x]" by (rule splitSlash_single [OF assms(3)])
  moreover have "x \<noteq> ''''" using assms(2) by auto
  ultimately have "Join [d, x] = render (rooted d) (x # stack_of d)"
    using assms(1,2) by (simp add: Join_def Clean_below cleanStep_def proper_def)
  then show ?thesis by (cases "stack_of d = []") (simp_all add: render_def joinWith_append)
qed

text \<open>Two names in one directory.\<close>

lemma siblings:
  assumes "d \<noteq> ''''" and "proper x" "CHR ''/'' \<notin> set x" and "proper y" "CHR ''/'' \<notin> set y" and "x \<noteq> y"
  shows "\<not> below (Join [d, x]) (Join [d, y])" and "Join [d, y] \<noteq> Join [d, x]"
proof -
  obtain P where P: "Join [d, x] = P @ x" "Join [d, y] = P @ y"
    using Join_child [OF assms(1-3)] Join_child [OF assms(1,4,5)] by (metis append_assoc)
  show "\<not> below (Join [d, x]) (Join [d, y])" using assms(5) unfolding P below_def by (auto simp: hasPrefix_iff)
  show "Join [d, y] \<noteq> Join [d, x]" using assms(6) unfolding P by simp
qed

lemma taskDir_nonempty: "taskDir rootDir taskID \<noteq> ''''"
proof -
  have "Clean s \<noteq> ''''" for s by (simp add: Clean_def Let_def)
  then show ?thesis by (auto simp: taskDir_def Join_def split: list.splits if_splits)
qed

lemma result_paths:
  "\<not> below (exportRoot d i) (manifestPath d i)" "manifestPath d i \<noteq> exportRoot d i"
  "\<not> below (exportRoot d i) (archivePath d i)" "archivePath d i \<noteq> exportRoot d i"
  "manifestPath d i \<noteq> archivePath d i"
  unfolding exportRoot_def manifestPath_def archivePath_def
  by (rule siblings [OF taskDir_nonempty]; simp add: proper_def)+

lemma walkEntries_set:
  "walkEntries d ps s = Inr w \<Longrightarrow>
   set w = {(rel, fst (osReadFile p s)) | p rel. p \<in> set ps \<and> Rel d p = Inr rel}"
proof (induction ps arbitrary: w)
  case (Cons p ps)
  then obtain rel w' where "Rel d p = Inr rel" "walkEntries d ps s = Inr w'" "w = (rel, fst (osReadFile p s)) # w'"
    by (auto simp: bindR_Inr_iff)
  with Cons.IH show ?case by auto
qed simp

lemma archive_files_set:
  "archive_files seen w = Inr es \<Longrightarrow>
   set es = {(n, b) | rel n b. (rel, Inr b) \<in> set w \<and> sanitizeResultRelativePath rel = Inr n}"
proof (induction seen w arbitrary: es rule: archive_files.induct)
  case (2 seen rel content w)
  from 2(2) obtain n b es' where n: "sanitizeResultRelativePath rel = Inr n" "n \<notin> seen"
      "content = Inr b" "archive_files (insert n seen) w = Inr es'" "es = (n, b) # es'"
    by (auto simp: bindR_Inr_iff split: if_splits)
  from 2(1) [OF n(1,2,3,4)] n show ?case by auto
qed simp

lemma readFile_disk: "fst (osReadFile p s) = Inr b \<Longrightarrow> disk s p = Some b"
  using osReadFile_Inr [of p s b] by (cases "osReadFile p s") auto

lemma archive_files_read:
  "archive_files seen w = Inr es \<Longrightarrow> (rel, c) \<in> set w \<Longrightarrow>
   (\<exists>b. c = Inr b) \<and> (\<exists>n. sanitizeResultRelativePath rel = Inr n)"
  by (induction seen w arbitrary: es rule: archive_files.induct) (auto simp: bindR_Inr_iff split: if_splits)

text \<open>The root itself is never an entry, so the entries are the files below it.\<close>

lemma sanitize_root: "\<exists>e. sanitizeResultRelativePath ''.'' = Inl e"
proof -
  have "sanitizeResultRelativePath ''.'' = Inl (Failure ''unsafe result path'')" by code_simp
  then show ?thesis by blast
qed

lemma Rel_self: "Rel d d = Inr ''.''"
  by (simp add: Rel_def)

definition entry_of :: "string \<Rightarrow> fsys \<Rightarrow> string \<times> bytes \<Rightarrow> bool" where
  "entry_of d s e \<longleftrightarrow>
     (\<exists>p rel. below d p \<and> disk s p = Some (snd e) \<and> Rel d p = Inr rel \<and> sanitizeResultRelativePath rel = Inr (fst e))"

lemma archived_entries:
  assumes "exportWalk d s = (Inr w, t)" and "createArchive w = Inr es"
  shows "t = s \<and> disk s d = None \<and> set es = Collect (entry_of d s)"
proof -
  obtain ps where ps: "walkFiles d s = (Inr ps, s)" "walkEntries d ps s = Inr w" "t = s"
    using assms(1) walkFiles_state [of d s] by (auto simp: exportWalk_def elim!: bindS_InrE)
  note w = walkEntries_set [OF ps(2)]
  note es = assms(2) [unfolded createArchive_def]
  have none: "disk s d = None"
  proof (rule ccontr)
    assume "disk s d \<noteq> None"
    then have "set ps = {d}" using walkFiles_Inr [OF ps(1)] by simp
    then have "(''.'', fst (osReadFile d s)) \<in> set w" unfolding w using Rel_self [of d] by blast
    moreover obtain e where "sanitizeResultRelativePath ''.'' = Inl e" using sanitize_root by blast
    ultimately show False using archive_files_read [OF es] by fastforce
  qed
  then have p: "set ps = {p. below d p \<and> disk s p \<noteq> None}" using walkFiles_Inr [OF ps(1)] by simp
  have "set es = Collect (entry_of d s)"
  proof (intro equalityI subsetI)
    fix e assume "e \<in> set es"
    then obtain rel n b where e: "e = (n, b)" "(rel, Inr b) \<in> set w" "sanitizeResultRelativePath rel = Inr n"
      unfolding archive_files_set [OF es] by blast
    then obtain q where "q \<in> set ps" "Rel d q = Inr rel" "fst (osReadFile q s) = Inr b" unfolding w by auto
    then show "e \<in> Collect (entry_of d s)" using e readFile_disk p by (auto simp: entry_of_def)
  next
    fix e assume "e \<in> Collect (entry_of d s)"
    then obtain q rel where q: "below d q" "disk s q = Some (snd e)" "Rel d q = Inr rel"
        "sanitizeResultRelativePath rel = Inr (fst e)" by (auto simp: entry_of_def)
    then have in_w: "(rel, fst (osReadFile q s)) \<in> set w" unfolding w using p by auto
    then obtain b where b: "fst (osReadFile q s) = Inr b" using archive_files_read [OF es] by blast
    then have "b = snd e" using readFile_disk q(2) by fastforce
    then have "(rel, Inr (snd e)) \<in> set w" using in_w b by simp
    then have "\<exists>rel n b. e = (n, b) \<and> (rel, Inr b) \<in> set w \<and> sanitizeResultRelativePath rel = Inr n"
      using q(4) by (metis prod.collapse)
    then show "e \<in> set es" unfolding archive_files_set [OF es] by blast
  qed
  with none ps(3) show ?thesis by simp
qed

lemma agree_disk:
  assumes "fs_files t = AList.update p b (fs_files s)" and "fs_fault t = fs_fault s" and "\<not> below d p" and "p \<noteq> d"
  shows "files_agree d s t"
proof -
  have "t = s\<lparr>fs_files := AList.update p b (fs_files s)\<rparr>" using assms(1,2) by simp
  then show ?thesis using agree_update [OF assms(3,4)] by simp
qed

lemma osCreate_files: "osCreate p s = (Inr u, t) \<Longrightarrow> fs_files t = AList.update p [] (fs_files s) \<and> fs_fault t = fs_fault s"
  by (auto simp: osCreate_def split: if_splits)

lemma osWrite_files: "osWrite p b s = (Inr u, t) \<Longrightarrow> fs_files t = AList.update p b (fs_files s) \<and> fs_fault t = fs_fault s"
  by (auto simp: osWrite_def)

lemma agree_osWrite: "osWrite p b s = (Inr u, t) \<Longrightarrow> \<not> below d p \<Longrightarrow> p \<noteq> d \<Longrightarrow> files_agree d s t"
  by (meson agree_disk osWrite_files)

lemma agree_osCreate: "osCreate p s = (Inr u, t) \<Longrightarrow> \<not> below d p \<Longrightarrow> p \<noteq> d \<Longrightarrow> files_agree d s t"
  by (meson agree_disk osCreate_files)

lemma agree_osWriteFile:
  "osWriteFile p b s = (Inr u, t) \<Longrightarrow> \<not> below d p \<Longrightarrow> p \<noteq> d \<Longrightarrow> files_agree d s t"
  unfolding osWriteFile_def by (elim bindS_InrE) (meson agree_osCreate agree_osWrite agree_trans)

text \<open>The archive, and what the manifest is built from, when the directory is the same.\<close>

lemma createArchiveAt_Inr:
  assumes "createArchiveAt T d a s = (Inr u, t)" and "\<not> below d a" and "a \<noteq> d"
  shows "\<exists>w es. exportWalk d s = (Inr w, s) \<and> createArchive w = Inr es \<and> files_agree d s t \<and>
    disk t = (disk s)(a \<mapsto> reaching (tl_cut T) (tl_targz T es))"
proof -
  obtain v s1 w s2 where 1: "osCreate a s = (Inr v, s1)" "exportWalk d s1 = (Inr w, s2)"
    "(case createArchive w of Inl e \<Rightarrow> throwS e
      | Inr entries \<Rightarrow> osWrite a (reaching (tl_cut T) (tl_targz T entries))) s2 = (Inr u, t)"
    using assms(1) unfolding createArchiveAt_def by (elim bindS_InrE)
  have a1: "files_agree d s s1" by (rule agree_osCreate [OF 1(1) assms(2,3)])
  have s2: "exportWalk d s = (Inr w, s)" "s2 = s1"
    using exportWalk_agree [OF a1] 1(2) walkFiles_state [of d s]
    by (auto simp: exportWalk_def bindS_def split: prod.splits sum.splits)
  obtain es where es: "createArchive w = Inr es" "osWrite a (reaching (tl_cut T) (tl_targz T es)) s1 = (Inr u, t)"
    using 1(3) s2(2) by (auto split: sum.splits)
  have "files_agree d s t" by (rule agree_trans [OF a1 agree_osWrite [OF es(2) assms(2,3)]])
  moreover have "disk t = (disk s)(a \<mapsto> reaching (tl_cut T) (tl_targz T es))"
    using osWrite_Inr [OF es(2)] osCreate_Inr [OF 1(1)] by simp
  ultimately show ?thesis using s2(1) es(1) by blast
qed

lemma buildManifestOf_Inr:
  assumes "buildManifestOf sha d task s = (Inr m, t)" and "exportWalk d s = (Inr w, s)" and "createArchive w = Inr es"
  shows "t = s \<and> m = taskManifest task (sort_key rf_Path (map (result_file sha) es)) \<and> distinct (map fst es)"
proof -
  from archive_manifest [OF assms(3) [unfolded createArchive_def], of sha]
  have a: "manifest_files sha w = Inr (map (result_file sha) es)" "distinct (map fst es)" by auto
  then have "rejectDuplicateResultPaths (map (result_file sha) es) = None"
    by (simp add: rejectDuplicateResultPaths_def reject_dup_None o_def)
  with a have b: "buildManifest sha w = Inr (sort_key rf_Path (map (result_file sha) es))" "distinct (map fst es)"
    by (simp_all add: buildManifest_def)
  obtain st u where st: "osStat d s = (st, u)" by fastforce
  have u: "u = s" using osStat_state [OF st] by simp
  show ?thesis
  proof (cases "st = Inl not_exist")
    case True
    have "\<forall>p. below d p \<longrightarrow> disk s p = None" using missing_directory [of d s u] st True by auto
    then have "set es = {}"
      using archived_entries [OF assms(2,3)] by (auto simp: entry_of_def)
    then show ?thesis
      using assms(1) st True u by (auto simp: buildManifestOf_def bindS_def tryS_def IsNotExist_def)
  next
    case False
    then show ?thesis
      using assms(1,2) st u b
      by (auto simp: buildManifestOf_def bindS_def tryS_def IsNotExist_def split: sum.splits)
  qed
qed

text \<open>What \<open>Process\<close> leaves on the disk.\<close>

definition result_ok :: "('n, 'f, 'img) tools \<Rightarrow> Config \<Rightarrow> TaskPayload \<Rightarrow> TaskResultManifest \<Rightarrow> fsys \<Rightarrow> bool" where
  "result_ok T cfg task m s \<longleftrightarrow>
     (let d = exportRoot (ws_Root (Workspace cfg)) (tp_TaskID task)
      in \<exists>es. set es = Collect (entry_of d s) \<and> distinct (map fst es) \<and>
           m = taskManifest task (sort_key rf_Path (map (result_file (tl_sha256 T)) es)) \<and>
           validateExpectedManifestOutputs (tm_Files m) (tp_Export task) = None \<and>
           disk s (manifestPath (ws_Root (Workspace cfg)) (tp_TaskID task)) = Some (tl_json T m) \<and>
           disk s (archivePath (ws_Root (Workspace cfg)) (tp_TaskID task)) = Some (reaching (tl_cut T) (tl_targz T es)))"

text \<open>The same with an archive that was written in full.\<close>

definition complete_result :: "('n, 'f, 'img) tools \<Rightarrow> Config \<Rightarrow> TaskPayload \<Rightarrow> TaskResultManifest \<Rightarrow> fsys \<Rightarrow> bool" where
  "complete_result T cfg task m s \<longleftrightarrow>
     (let d = exportRoot (ws_Root (Workspace cfg)) (tp_TaskID task)
      in \<exists>es. set es = Collect (entry_of d s) \<and> distinct (map fst es) \<and>
           m = taskManifest task (sort_key rf_Path (map (result_file (tl_sha256 T)) es)) \<and>
           validateExpectedManifestOutputs (tm_Files m) (tp_Export task) = None \<and>
           disk s (manifestPath (ws_Root (Workspace cfg)) (tp_TaskID task)) = Some (tl_json T m) \<and>
           disk s (archivePath (ws_Root (Workspace cfg)) (tp_TaskID task)) = Some (tl_targz T es))"

lemma complete_result_uncut: "tl_cut T = None \<Longrightarrow> complete_result T cfg task m s \<longleftrightarrow> result_ok T cfg task m s"
  by (simp add: complete_result_def result_ok_def reaching_def)

lemma entry_of_agree: "files_agree d s t \<Longrightarrow> entry_of d t = entry_of d s"
  by (auto simp: entry_of_def files_agree_def fun_eq_iff)

text \<open>The last steps, from the manifest on, on the file system alone.\<close>

lemma manifest_and_archive:
  assumes m: "buildManifestOf sha d task s = (Inr m, s1)"
    and w: "osWriteFile mp b s1 = (Inr u, s2)" and a: "createArchiveAt T d ap s2 = (Inr v, t)"
    and p: "\<not> below d mp" "mp \<noteq> d" "\<not> below d ap" "ap \<noteq> d" "mp \<noteq> ap"
  shows "\<exists>es. set es = Collect (entry_of d t) \<and> distinct (map fst es) \<and>
    m = taskManifest task (sort_key rf_Path (map (result_file sha) es)) \<and> disk t mp = Some b \<and>
    disk t ap = Some (reaching (tl_cut T) (tl_targz T es))"
proof -
  have s1: "s1 = s"
    using m osStat_state [of d s] walkFiles_state [of d s]
    by (auto simp: buildManifestOf_def bindS_def tryS_def exportWalk_def split: sum.splits prod.splits if_splits)
  have a2: "files_agree d s s2" using agree_osWriteFile [OF w p(1,2)] s1 by simp
  obtain wk es where es: "exportWalk d s2 = (Inr wk, s2)" "createArchive wk = Inr es" "files_agree d s2 t"
    "disk t = (disk s2)(ap \<mapsto> reaching (tl_cut T) (tl_targz T es))"
    using createArchiveAt_Inr [OF a p(3,4)] by blast
  have wk: "exportWalk d s = (Inr wk, s)"
  proof -
    have "fst (exportWalk d s) = Inr wk" using exportWalk_agree [OF a2] es(1) by simp
    moreover have "snd (exportWalk d s) = s"
      using walkFiles_state [of d s] by (auto simp: exportWalk_def bindS_def split: sum.splits prod.splits)
    ultimately show ?thesis by (metis prod.collapse)
  qed
  have "m = taskManifest task (sort_key rf_Path (map (result_file sha) es))" "distinct (map fst es)"
    using buildManifestOf_Inr [OF m wk es(2)] by auto
  moreover have "set es = Collect (entry_of d t)"
    using archived_entries [OF es(1,2)] entry_of_agree [OF es(3)] by simp
  moreover have "disk t mp = Some b" using osWriteFile_Inr [OF w] es(4) p(5) by simp
  ultimately show ?thesis using es(4) by auto
qed

lemma processed_result:
  assumes run: "Process N T cfg reporter task w = (Inr (m, a), w')"
    and report: "\<And>f st p msg. reporter = Some f \<Longrightarrow> keeps wd_fs (f st p msg)"
  shows "a = archivePath (ws_Root (Workspace cfg)) (tp_TaskID task) \<and> result_ok T cfg task m (wd_fs w')"
proof -
  let ?d = "exportRoot (ws_Root (Workspace cfg)) (tp_TaskID task)"
  let ?mp = "manifestPath (ws_Root (Workspace cfg)) (tp_TaskID task)"
  let ?ap = "archivePath (ws_Root (Workspace cfg)) (tp_TaskID task)"
  let ?report = "case reporter of Some f \<Rightarrow> f | None \<Rightarrow> (\<lambda>_ _ _. returnS ())"
  have report': "keeps wd_fs (?report st p msg)" for st p msg
    using report by (cases reporter) (auto intro: keeps_intros)
  obtain v0 where run': "finishResult T cfg ?report task v0 = (Inr (m, a), w')"
    using run unfolding Process_def Let_def by (elim bindS_InrE)
  obtain m' v1 where
    1: "onFs (buildManifestOf (tl_sha256 T) ?d task) v0 = (Inr m', v1)"
    and rest: "(case validateExpectedManifestOutputs (tm_Files m') (tp_Export task) of
           Some e \<Rightarrow> throwS e
         | None \<Rightarrow>
         bindS (onFs (osWriteFile ?mp (tl_json T m'))) (\<lambda>_.
         bindS (?report StageArchive 0.88 ''archiving result'') (\<lambda>_.
         bindS (onFs (createArchiveAt T ?d ?ap)) (\<lambda>_. returnS (m', ?ap))))) v1 = (Inr (m, a), w')"
    using run' unfolding finishResult_def Let_def by (elim bindS_InrE)
  have ok: "validateExpectedManifestOutputs (tm_Files m') (tp_Export task) = None"
    using rest by (cases "validateExpectedManifestOutputs (tm_Files m') (tp_Export task)") auto
  obtain u2 v2 u3 v3 u4 v4 where 2: "onFs (osWriteFile ?mp (tl_json T m')) v1 = (Inr u2, v2)"
    and 3: "?report StageArchive 0.88 ''archiving result'' v2 = (Inr u3, v3)"
    and 4: "onFs (createArchiveAt T ?d ?ap) v3 = (Inr u4, v4)"
    and 5: "returnS (m', ?ap) v4 = (Inr (m, a), w')"
    using rest unfolding ok option.case by (elim bindS_InrE)
  have eq: "m' = m" "a = ?ap" "v4 = w'" using 5 by auto
  have b1: "buildManifestOf (tl_sha256 T) ?d task (wd_fs v0) = (Inr m, wd_fs v1)"
    and b2: "osWriteFile ?mp (tl_json T m) (wd_fs v1) = (Inr u2, wd_fs v2)"
    using 1 2 eq by (auto simp: onFs_iff)
  have b4: "createArchiveAt T ?d ?ap (wd_fs v2) = (Inr u4, wd_fs w')"
    using 4 eq keepsD [OF report' 3] by (auto simp: onFs_iff)
  from manifest_and_archive [OF b1 b2 b4 result_paths] obtain es where
    "set es = Collect (entry_of ?d (wd_fs w'))" "distinct (map fst es)"
    "m = taskManifest task (sort_key rf_Path (map (result_file (tl_sha256 T)) es))"
    "disk (wd_fs w') ?mp = Some (tl_json T m)" "disk (wd_fs w') ?ap = Some (reaching (tl_cut T) (tl_targz T es))"
    by blast
  then show ?thesis using ok eq unfolding result_ok_def Let_def by blast
qed

text \<open>
  C2: A task that is processed leaves a result that is complete and consistent, provided that closing the gzip and tar writers of
  the archive brings all of it to the disk (\<open>tl_cut\<close> is \<open>None\<close>; the code drops the errors of closing them, and
  \<open>cut_archive_is_a_result\<close> shows what it then takes for a result). The archive on the disk is the whole encoding of exactly the files
  below the export directory, each under its sanitized name and no name twice; the manifest lists these entries with
  their lengths and hashes, sorted by name, under the task's own ids; the expected outputs are among them; and
  both are on the disk where the upload takes them from.
\<close>

theorem processed_result_is_complete:
  assumes run: "Process N T cfg reporter task w = (Inr (m, a), w')"
    and report: "\<And>f st p msg. reporter = Some f \<Longrightarrow> keeps wd_fs (f st p msg)"
    and closed: "tl_cut T = None"
  shows "a = archivePath (ws_Root (Workspace cfg)) (tp_TaskID task) \<and> complete_result T cfg task m (wd_fs w')"
  using processed_result run report unfolding complete_result_uncut [OF closed] by metis

text \<open>Without that proviso the archive may be empty: the step that writes it succeeds just the same.\<close>

lemma cut_archive_is_a_result:
  assumes "createArchiveAt T d a s = (Inr (), t)"
  shows "\<exists>u. createArchiveAt (T\<lparr>tl_cut := Some 0\<rparr>) d a s = (Inr (), u) \<and> disk u a = Some []"
proof -
  obtain s1 w s2 es where 1: "osCreate a s = (Inr (), s1)" "exportWalk d s1 = (Inr w, s2)" "createArchive w = Inr es"
    "osWrite a (reaching (tl_cut T) (tl_targz T es)) s2 = (Inr (), t)"
    using assms unfolding createArchiveAt_def by (auto elim!: bindS_InrE split: sum.splits)
  then obtain u where u: "osWrite a [] s2 = (Inr (), u)" by (auto simp: osWrite_def with_fault_def split: if_splits option.splits)
  with 1 have "createArchiveAt (T\<lparr>tl_cut := Some 0\<rparr>) d a s = (Inr (), u)"
    by (simp add: createArchiveAt_def bindS_def reaching_def)
  then show ?thesis using osWrite_Inr [OF u] by simp
qed

definition sample_tools :: "(nat, unit, unit) tools" where
  "sample_tools =
     \<lparr>tl_studio = \<lambda>_ _ x. (Inr (), x),
      tl_run = no_tool, tl_float = no_floats, tl_f32 = \<lambda>_. 0, tl_shiftJIS = \<lambda>_. Inl EOF, tl_decodePNG = \<lambda>_. Inl EOF,
      tl_encodeWebP = \<lambda>_. Inl EOF, tl_matches = \<lambda>_ _. Inr False, tl_acbFate = \<lambda>_. Runs, tl_hcaFate = \<lambda>_ _. Runs,
      tl_rnd = \<lambda>_. ''7'', tl_sha256 = \<lambda>_. ''h'', tl_json = \<lambda>m. map (\<lambda>f. of_int (rf_Size f)) (tm_Files m),
      tl_targz = \<lambda>es. concat (map snd es), tl_cut = None\<rparr>"

definition sample_config :: Config where
  "sample_config = zero_config
     \<lparr>Workspace := \<lparr>ws_Root = ''w'', ws_Cleanup = True, ws_KeepFailed = False\<rparr>,
      Tools := \<lparr>tc_FFMPEGPath = ''ffmpeg'', tc_AssetStudioCLIPath = ''''\<rparr>\<rparr>"

text \<open>One exported file is there from the start.\<close>

definition sample_world :: "nat \<Rightarrow> nat world" where
  "sample_world n =
     \<lparr>wd_fs = \<lparr>fs_files = [(''w/tasks/t1/export/a/x:1'', [1])], fs_fault = \<lambda>_ _. None\<rparr>,
      wd_net = n, wd_held = \<lambda>_. 0, wd_attempts = []\<rparr>"

lemma sample_paths:
  "bundlePath ''w'' ''t1'' ''a/b'' = ''w/tasks/t1/bundle/b.bundle''" "exportRoot ''w'' ''t1'' = ''w/tasks/t1/export''"
  "manifestPath ''w'' ''t1'' = ''w/tasks/t1/manifest.json''" "archivePath ''w'' ''t1'' = ''w/tasks/t1/result.tar.gz''"
  "Dir ''w/tasks/t1/bundle/b.bundle'' = ''w/tasks/t1/bundle''"
  "Rel ''w/tasks/t1/export'' ''w/tasks/t1/export/a/x:1'' = Inr ''a/x:1''"
  "sanitizeResultRelativePath ''a/x:1'' = Inr ''a/x_1''" "\<not> has_ext ''.wav'' ''w/tasks/t1/export/a/x:1''"
  by code_simp+

lemma sample_saved: "DeobfuscateToWriter \<lparr>wr_out = [], wr_limit = None\<rparr> sample_body = (None, \<lparr>wr_out = [7, 8, 9], wr_limit = None\<rparr>)"
  by (subst to_writer_unlimited) (simp_all add: body_ok_def sample_body_def body_bytes_def Deobfuscate_def)

lemmas world_defs =
  bindS_def tryS_def wrapErr_def discard_def mapS_def returnS_def throwS_def onFs_def onNet_def holding_def acquireSemaphore_def
  releaseSemaphore_def with_fault_def osMkdirAll_def osCreate_def osWrite_def osWriteFile_def osStat_def osRemove_def
  osRename_def osReadFile_def walkFiles_def lookup_def below_def hasPrefix_def

lemma sample_save:
  "saveBundle ''w/tasks/t1/bundle/b.bundle'' sample_body \<lparr>fs_files = [(''w/tasks/t1/export/a/x:1'', [1])], fs_fault = \<lambda>_ _. None\<rparr> =
     (Inr (), \<lparr>fs_files = [(''w/tasks/t1/export/a/x:1'', [1]), (''w/tasks/t1/bundle/b.bundle'', [7, 8, 9])], fs_fault = \<lambda>_ _. None\<rparr>)"
  by (simp add: saveBundle_def Let_def world_defs sample_saved)

lemma sample_download:
  "downloadBundle (flaky_net sample_body) sample_task ''w/tasks/t1/bundle/b.bundle'' (sample_world 0) =
     (Inr (), (sample_world 0)\<lparr>wd_fs := \<lparr>fs_files = [(''w/tasks/t1/export/a/x:1'', [1]), (''w/tasks/t1/bundle/b.bundle'', [7, 8, 9])],
        fs_fault = \<lambda>_ _. None\<rparr>\<rparr>)"
proof -
  have "downloadBundleOnce (flaky_net sample_body) sample_task b w =
      (case saveBundle b sample_body (wd_fs w) of (r, s) \<Rightarrow> (r, w\<lparr>wd_fs := s\<rparr>))" if "wd_net w = 0" for b w
    using that by (cases w) (simp add: downloadBundleOnce_def flaky_net_def bindS_def wrapErr_def onNet_def onFs_def)
  then show ?thesis
    by (simp add: downloadBundle_def holding_def acquireSemaphore_def releaseSemaphore_def eval_nat_numeral backoff_def
        bindS_def tryS_def sample_world_def sample_save) (simp add: flaky_net_def sample_save returnS_def releaseSemaphore_def fun_eq_iff)
qed

text \<open>The steps after the download, on the file system alone.\<close>

lemma sample_finalize:
  "finalizeExportRoot (flaky_net sample_body) sample_tools sample_config ''w/tasks/t1/export'' plain_options (sample_world 0)
     = (Inr (), sample_world 0)"
proof -
  have "handleStandaloneWAVFiles no_tool ''w/tasks/t1/export'' plain_options ''ffmpeg'' (wd_fs (sample_world 0))
      = (Inr (), wd_fs (sample_world 0))"
    by (simp add: handleStandaloneWAVFiles_def FindFilesByExtension_def plain_options_def sample_world_def sample_paths world_defs)
  then show ?thesis
    by (simp add: finalizeExportRoot_def sample_tools_def sample_config_def zero_config_def holding_def acquireSemaphore_def
        releaseSemaphore_def flaky_net_def wrapErr_def onFs_def sample_world_def fun_eq_iff)
qed

lemma sample_finish:
  "\<exists>m a w'. finishResult sample_tools sample_config (\<lambda>_ _ _. returnS ()) sample_task (sample_world 0) = (Inr (m, a), w') \<and>
     map rf_Path (tm_Files m) = [''a/x_1''] \<and> fs_fault (wd_fs w') = (\<lambda>_ _. None)"
proof -
  let ?m = "taskManifest sample_task [\<lparr>rf_Path = ''a/x_1'', rf_Size = 1, rf_SHA256 = ''h''\<rparr>]"
  have w: "exportWalk ''w/tasks/t1/export'' s = (Inr [(''a/x:1'', Inr [1])], s)"
    if "fs_files s = (''w/tasks/t1/export/a/x:1'', [1]) # xs" "fs_fault s = (\<lambda>_ _. None)"
      "filter (\<lambda>(q, _). below ''w/tasks/t1/export'' q) xs = []" "map_of xs ''w/tasks/t1/export'' = None" for s xs
    using that by (simp add: exportWalk_def world_defs sample_paths)
  let ?s = "wd_fs (sample_world 0)"
  have w0: "exportWalk ''w/tasks/t1/export'' ?s = (Inr [(''a/x:1'', Inr [1])], ?s)"
    by (rule w [where xs = "[]"]) (simp_all add: sample_world_def)
  have st: "osStat ''w/tasks/t1/export'' ?s = (Inr Directory, ?s)" by (simp add: sample_world_def world_defs)
  have bm: "buildManifest (\<lambda>_. ''h'') [(''a/x:1'', Inr [1])] = Inr [\<lparr>rf_Path = ''a/x_1'', rf_Size = 1, rf_SHA256 = ''h''\<rparr>]"
    by (simp add: buildManifest_def sample_paths rejectDuplicateResultPaths_def)
  have b: "buildManifestOf (\<lambda>_. ''h'') ''w/tasks/t1/export'' sample_task ?s = (Inr ?m, ?s)"
    by (simp add: buildManifestOf_def bindS_def tryS_def st w0 bm)
  have v: "validateExpectedManifestOutputs (tm_Files ?m) plain_options = None" by code_simp
  let ?s1 = "\<lparr>fs_files = [(''w/tasks/t1/export/a/x:1'', [1]), (''w/tasks/t1/manifest.json'', [1])], fs_fault = \<lambda>_ _. None\<rparr>"
  have m1: "osWriteFile ''w/tasks/t1/manifest.json'' [1] ?s = (Inr (), ?s1)" by (simp add: sample_world_def world_defs)
  let ?s2 = "\<lparr>fs_files = [(''w/tasks/t1/export/a/x:1'', [1]), (''w/tasks/t1/manifest.json'', [1]), (''w/tasks/t1/result.tar.gz'', [])],
    fs_fault = \<lambda>_ _. None\<rparr>"
  have c: "osCreate ''w/tasks/t1/result.tar.gz'' ?s1 = (Inr (), ?s2)" by (simp add: world_defs)
  have w2: "exportWalk ''w/tasks/t1/export'' ?s2 = (Inr [(''a/x:1'', Inr [1])], ?s2)"
    by (rule w [where xs = "[(''w/tasks/t1/manifest.json'', [1]), (''w/tasks/t1/result.tar.gz'', [])]"])
      (simp_all add: below_def hasPrefix_def)
  have ar: "createArchive [(''a/x:1'', Inr [1])] = Inr [(''a/x_1'', [1])]" by (simp add: createArchive_def sample_paths)
  obtain s3 where a: "createArchiveAt sample_tools ''w/tasks/t1/export'' ''w/tasks/t1/result.tar.gz'' ?s1 = (Inr (), s3)"
      "fs_fault s3 = (\<lambda>_ _. None)"
    by (simp add: createArchiveAt_def bindS_def c w2 ar osWrite_def with_fault_def)
  have j: "tl_json sample_tools ?m = [1]" "tl_sha256 sample_tools = (\<lambda>_. ''h'')" "ws_Root (Workspace sample_config) = ''w''"
    "tp_TaskID sample_task = ''t1''" "tp_Export sample_task = plain_options"
    by (simp_all add: sample_tools_def taskManifest_def sample_config_def zero_config_def sample_task_def)
  have "\<exists>w'. finishResult sample_tools sample_config (\<lambda>_ _ _. returnS ()) sample_task (sample_world 0)
      = (Inr (?m, ''w/tasks/t1/result.tar.gz''), w') \<and> fs_fault (wd_fs w') = (\<lambda>_ _. None)"
    using a by (simp add: finishResult_def Let_def j sample_paths bindS_def onFs_def b v m1 returnS_def)
  then show ?thesis by (auto simp: taskManifest_def)
qed

theorem processed_result_is_complete_witness:
  "\<exists>m a w'. Process (flaky_net sample_body) sample_tools sample_config None sample_task (sample_world 0) = (Inr (m, a), w') \<and>
     map rf_Path (tm_Files m) = [''a/x_1''] \<and> complete_result sample_tools sample_config sample_task m (wd_fs w')"
proof -
  let ?N = "flaky_net sample_body"
  have j: "ws_Root (Workspace sample_config) = ''w''" "tp_TaskID sample_task = ''t1''" "tp_Export sample_task = plain_options"
    "tp_BundlePath sample_task = ''a/b''"
    by (simp_all add: sample_config_def zero_config_def sample_task_def)
  have mk: "onFs (osMkdirAll p) (sample_world 0) = (Inr (), sample_world 0)"
    if "\<not> below ''w/tasks/t1/export/a/x:1'' p" "p \<noteq> ''w/tasks/t1/export/a/x:1''" for p
    using that by (simp add: onFs_def sample_world_def osMkdirAll_def with_fault_def)
  have mk': "onFs (osMkdirAll ''w/tasks/t1/bundle'') (sample_world 0) = (Inr (), sample_world 0)"
    "onFs (osMkdirAll ''w/tasks/t1/export'') (sample_world 0) = (Inr (), sample_world 0)"
    by (rule mk; simp add: below_def hasPrefix_def)+
  let ?w = "(sample_world 0)\<lparr>wd_fs := \<lparr>fs_files = [(''w/tasks/t1/export/a/x:1'', [1]), (''w/tasks/t1/bundle/b.bundle'', [7, 8, 9])],
        fs_fault = \<lambda>_ _. None\<rparr>\<rparr>"
  have ex: "underStudio ?N (ExtractUnityAssetBundle ?N sample_tools sample_config f e d c plain_options) ?w = (Inr (), ?w)" for f e d c
    by (simp add: underStudio_def ExtractUnityAssetBundle_def sample_config_def zero_config_def bindS_def tryS_def returnS_def
        acquireSemaphore_def releaseSemaphore_def flaky_net_def sample_world_def fun_eq_iff)
  have rm: "onFs (discard (osRemove ''w/tasks/t1/bundle/b.bundle'')) ?w = (Inr (), sample_world 0)"
    by (simp add: onFs_def discard_def osRemove_def with_fault_def lookup_def sample_world_def)
  obtain m a w' where fin: "finishResult sample_tools sample_config (\<lambda>_ _ _. returnS ()) sample_task (sample_world 0) = (Inr (m, a), w')"
    "map rf_Path (tm_Files m) = [''a/x_1'']" "fs_fault (wd_fs w') = (\<lambda>_ _. None)"
    using sample_finish by auto
  have run: "Process ?N sample_tools sample_config None sample_task (sample_world 0) = (Inr (m, a), w')"
    by (simp add: Process_def Let_def j sample_paths bindS_def [where m = "onFs m" for m] bindS_def [where m = "downloadBundle N t b" for N t b]
        bindS_def [where m = "underStudio N b" for N b] bindS_def [where m = "finalizeExportRoot N T c d x" for N T c d x]
        mk' sample_download ex rm sample_finalize fin(1))
  have "tl_cut sample_tools = None" by (simp add: sample_tools_def)
  then have "complete_result sample_tools sample_config sample_task m (wd_fs w')"
    using processed_result_is_complete [OF run] by simp
  with run fin(2) show ?thesis by (intro exI conjI)
qed

end
