(* ===== verification/TaskRunner.thy ===== *)
theory TaskRunner
  imports Pipeline
begin

text \<open>
  The life of one task in \<open>internal/client/worker.go\<close> and \<open>tcp_worker.go\<close>: the requests of the worker, the two
  transports, the upload, and \<open>runTaskSafelyWithTransport\<close>. The locale \<open>task_transport\<close> is what a task relies on of its
  transport; both are instances of it.
\<close>

section \<open>Requests\<close>

text \<open>\<open>if r.StatusCode() >= 300 { return err }\<close>.\<close>

definition checked :: "string \<Rightarrow> ('n world, int \<times> reply) io \<Rightarrow> ('n world, reply) io" where
  "checked msg m = bindS m (\<lambda>(status, answer). if status \<ge> 300 then throwS (Failure msg) else returnS answer)"

text \<open>The new client id. A reply of another form leaves the id empty.\<close>

definition register :: "'n net \<Rightarrow> Config \<Rightarrow> ('n world, string) io" where
  "register N cfg =
     bindS (checked ''register returned'' (post N WorkerCtx ''/api/v1/clients/register''
       (Register \<lparr>cr_ClientID = wc_ID (Worker cfg), cr_Name = wc_Name (Worker cfg), cr_Version = wc_Version (Worker cfg),
          cr_MaxTasks = wc_MaxTasks (Worker cfg), cr_Tags = wc_Tags (Worker cfg)\<rparr>))) (\<lambda>answer.
     returnS (case answer of Registered r \<Rightarrow> rr_ClientID r | _ \<Rightarrow> ''''))"

definition heartbeat :: "'n net \<Rightarrow> string \<Rightarrow> string list \<Rightarrow> ('n world, unit) io" where
  "heartbeat N clientID activeIDs =
     bindS (checked ''heartbeat returned'' (post N WorkerCtx (''/api/v1/clients/'' @ clientID @ ''/heartbeat'')
       (Heartbeat \<lparr>hb_ClientID = clientID, hb_ActiveTaskIDs = activeIDs\<rparr>))) (\<lambda>_. returnS ())"

definition leaseSize :: "Config \<Rightarrow> int \<Rightarrow> int" where
  "leaseSize cfg maxTasks =
     (if maxTasks \<le> 0 \<or> maxTasks > wc_MaxTasks (Worker cfg) then wc_MaxTasks (Worker cfg) else maxTasks)"

definition lease :: "'n net \<Rightarrow> Config \<Rightarrow> string \<Rightarrow> int \<Rightarrow> ('n world, TaskPayload list) io" where
  "lease N cfg clientID maxTasks =
     bindS (checked ''lease returned'' (post N WorkerCtx ''/api/v1/tasks/lease''
       (Lease \<lparr>lr_ClientID = clientID, lr_MaxTasks = leaseSize cfg maxTasks, lr_WaitSeconds = LeaseWaitSeconds cfg\<rparr>)))
       (\<lambda>answer. returnS (case answer of Leased r \<Rightarrow> le_Tasks r | _ \<Rightarrow> []))"

definition reportProgress :: "'n net \<Rightarrow> string \<Rightarrow> ctx \<Rightarrow> string \<Rightarrow> 'n progress" where
  "reportProgress N clientID c taskID stage progress msg =
     bindS (checked ''progress returned'' (post N c (''/api/v1/tasks/'' @ taskID @ ''/progress'')
       (Progress \<lparr>pr_ClientID = clientID, pr_Stage = stage, pr_Progress = progress, pr_Message = msg\<rparr>))) (\<lambda>_. returnS ())"

definition fail :: "'n net \<Rightarrow> string \<Rightarrow> ctx \<Rightarrow> string \<Rightarrow> string \<Rightarrow> ('n world, unit) io" where
  "fail N clientID c taskID msg =
     bindS (checked ''fail returned'' (post N c (''/api/v1/tasks/'' @ taskID @ ''/fail'')
       (Fail \<lparr>fr_ClientID = clientID, fr_Error = msg\<rparr>))) (\<lambda>_. returnS ())"

definition uploadResultOnce :: "'n net \<Rightarrow> string \<Rightarrow> string \<Rightarrow> string \<Rightarrow> ('n world, unit) io" where
  "uploadResultOnce N taskID manifestFile archiveFile =
     bindS (onFs (osReadFile manifestFile)) (\<lambda>manifest.
     bindS (onFs (osReadFile archiveFile)) (\<lambda>archive.
     bindS (checked ''result upload returned''
       (post N TaskCtx (''/api/v1/tasks/'' @ taskID @ ''/result'') (Result manifest archive))) (\<lambda>_. returnS ())))"

definition uploadResult :: "'n net \<Rightarrow> string \<Rightarrow> string \<Rightarrow> string \<Rightarrow> ('n world, unit) io" where
  "uploadResult N taskID manifestFile archiveFile =
     retry N (\<lambda>ended err. err) (uploadResultOnce N taskID manifestFile archiveFile) 0 4 None"

section \<open>Transports\<close>

record 'n taskTransport =
  tt_reportProgress :: "(ctx \<Rightarrow> string \<Rightarrow> 'n progress) option"
  tt_fail :: "(ctx \<Rightarrow> string \<Rightarrow> string \<Rightarrow> ('n world, unit) io) option"

definition httpTaskTransport :: "'n net \<Rightarrow> string \<Rightarrow> 'n taskTransport" where
  "httpTaskTransport N clientID =
     \<lparr>tt_reportProgress = Some (reportProgress N clientID), tt_fail = Some (fail N clientID)\<rparr>"

definition tcpTaskTransport :: "'n net \<Rightarrow> string \<Rightarrow> 'n taskTransport" where
  "tcpTaskTransport N clientID =
     \<lparr>tt_reportProgress = Some (\<lambda>c taskID stage progress msg. sendTCPMessage N
        (zero_message\<lparr>mg_Type := MessageProgress, mg_ClientID := clientID, mg_TaskID := taskID, mg_Stage := stage,
           mg_Progress := progress, mg_Message := msg\<rparr>)),
      tt_fail = Some (\<lambda>c taskID msg. sendTCPMessage N
        (zero_message\<lparr>mg_Type := MessageFail, mg_ClientID := clientID, mg_TaskID := taskID, mg_Error := msg\<rparr>))\<rparr>"

section \<open>One task\<close>

text \<open>\<open>time.Duration(n) * time.Second\<close>, in nanoseconds.\<close>

definition seconds :: "int \<Rightarrow> int" where
  "seconds n = sint (word_of_int n * 1000000000 :: 64 word)"

definition errText :: "go_err \<Rightarrow> string" where
  "errText e =
     (case e of
        EOF \<Rightarrow> ''EOF''
      | UnexpectedEOF \<Rightarrow> ''unexpected EOF''
      | Failure m \<Rightarrow> m
      | Canceled \<Rightarrow> ''context canceled''
      | Panic m \<Rightarrow> m)"

definition cleanupTaskDir :: "Config \<Rightarrow> string \<Rightarrow> bool \<Rightarrow> (fsys, unit) io" where
  "cleanupTaskDir cfg dir failed =
     (if dir = '''' \<or> \<not> ws_Cleanup (Workspace cfg) then returnS ()
      else if failed \<and> ws_KeepFailed (Workspace cfg) then returnS ()
      else discard (osRemoveAll dir))"

text \<open>Reports and failures whose own errors are logged or dropped.\<close>

definition report :: "'n taskTransport \<Rightarrow> string \<Rightarrow> 'n progress" where
  "report tr taskID stage progress msg =
     (case tt_reportProgress tr of
        None \<Rightarrow> returnS ()
      | Some f \<Rightarrow> discard (f TaskCtx taskID stage progress msg))"

definition reportFailure :: "'n taskTransport \<Rightarrow> ctx \<Rightarrow> string \<Rightarrow> string \<Rightarrow> ('n world, unit) io" where
  "reportFailure tr c taskID msg =
     (case tt_fail tr of
        None \<Rightarrow> returnS ()
      | Some f \<Rightarrow> discard (f c taskID msg))"

text \<open>What is done with the error of a task. A panic goes on.\<close>

definition giveUp :: "Config \<Rightarrow> 'n taskTransport \<Rightarrow> string \<Rightarrow> go_err \<Rightarrow> ('n world, unit) io" where
  "giveUp cfg tr taskID err =
     (if is_panic err then throwS err
      else bindS (reportFailure tr TaskCtx taskID (errText err)) (\<lambda>_.
           onFs (cleanupTaskDir cfg (taskDir (ws_Root (Workspace cfg)) taskID) True)))"

text \<open>
  The set of active tasks and the release of memory are not part of this state; see \<open>Slots\<close>
  and \<open>RuntimeStats\<close>.
\<close>

definition handleTaskWithTransport ::
    "'n net \<Rightarrow> ('n, 'f, 'img) tools \<Rightarrow> Config \<Rightarrow> 'n taskTransport \<Rightarrow> TaskPayload \<Rightarrow> ('n world, unit) io" where
  "handleTaskWithTransport N T cfg tr task =
     (let taskID = tp_TaskID task
      in bindS (onNet (\<lambda>n. (Inr (), nt_deadline N (seconds (cc_TimeoutSeconds (Client cfg))) n))) (\<lambda>_.
         bindS (tryS (Process N T cfg (Some (report tr taskID)) task)) (\<lambda>processed.
         case processed of
           Inl err \<Rightarrow> giveUp cfg tr taskID err
         | Inr (manifest, archive) \<Rightarrow>
             bindS (report tr taskID StageUploadResult 0.92 ''uploading result to server'') (\<lambda>_.
             bindS (tryS (uploadResult N taskID (manifestPath (ws_Root (Workspace cfg)) taskID) archive)) (\<lambda>uploaded.
             case uploaded of
               Inl err \<Rightarrow> giveUp cfg tr taskID err
             | Inr _ \<Rightarrow> onFs (cleanupTaskDir cfg (taskDir (ws_Root (Workspace cfg)) taskID) False))))))"

text \<open>The recovered panic is reported under a context of its own; a panic of that report is not recovered.\<close>

definition runTaskSafelyWithTransport ::
    "'n net \<Rightarrow> ('n, 'f, 'img) tools \<Rightarrow> Config \<Rightarrow> 'n taskTransport \<Rightarrow> TaskPayload \<Rightarrow> ('n world, unit) io" where
  "runTaskSafelyWithTransport N T cfg tr task =
     bindS (tryS (handleTaskWithTransport N T cfg tr task)) (\<lambda>r.
     case r of
       Inl e \<Rightarrow> reportFailure tr ReportCtx (tp_TaskID task) (''panic: '' @ errText e)
     | Inr _ \<Rightarrow> returnS ())"

section \<open>What a task says\<close>

text \<open>The reports of a task.\<close>

definition processReports :: "(string \<Rightarrow> rat \<Rightarrow> string \<Rightarrow> sending) \<Rightarrow> sending list" where
  "processReports entry =
     [entry StageDownload 0.05 ''downloading bundle'', entry StageAssetStudioExport 0.30 ''exporting bundle'',
      entry StagePostProcess 0.78 ''finalizing exported audio'', entry StagePostProcess 0.80 ''building manifest'',
      entry StageArchive 0.88 ''archiving result'']"

definition reportsOf :: "(string \<Rightarrow> rat \<Rightarrow> string \<Rightarrow> sending) \<Rightarrow> sending list" where
  "reportsOf entry = processReports entry @ [entry StageUploadResult 0.92 ''uploading result to server'']"

text \<open>
  \<open>logs es m\<close>: a run of \<open>m\<close> attempts to send a beginning of \<open>es\<close>, and all of it when it returns a value.
\<close>

definition sends :: "sending list \<Rightarrow> bool \<Rightarrow> attempt list \<Rightarrow> bool" where
  "sends es whole told \<longleftrightarrow>
     (\<exists>i\<le>length es. map fst told = take i es \<and> (whole \<longrightarrow> i = length es))"

definition logs :: "sending list \<Rightarrow> ('n world, 'a) io \<Rightarrow> bool" where
  "logs es m \<longleftrightarrow>
     (\<forall>w r w'. m w = (r, w') \<longrightarrow>
        (\<exists>told. wd_attempts w' = wd_attempts w @ told \<and> sends es (\<exists>x. r = Inr x) told))"

lemma logsD:
  assumes "logs es m" and "m w = (r, w')"
  obtains told where "wd_attempts w' = wd_attempts w @ told" and "sends es (\<exists>x. r = Inr x) told"
  using assms unfolding logs_def by blast

lemma sends_append:
  assumes "sends es True xs" and "sends fs b ys" shows "sends (es @ fs) b (xs @ ys)"
proof -
  obtain j where "j \<le> length fs" "map fst ys = take j fs" "b \<longrightarrow> j = length fs" using assms(2) by (auto simp: sends_def)
  with assms(1) show ?thesis unfolding sends_def by (intro exI [of _ "length es + j"]) auto
qed

lemma sends_prefix: "sends es b xs \<Longrightarrow> sends (es @ fs) False xs"
proof -
  assume "sends es b xs"
  then obtain i where "i \<le> length es" "map fst xs = take i es" by (auto simp: sends_def)
  then show ?thesis unfolding sends_def by (intro exI [of _ i]) simp
qed

lemma sends_nil [simp]: "sends es False []"
  by (auto simp: sends_def)

lemma logs_keeps: "keeps wd_attempts m \<Longrightarrow> logs [] m"
  by (auto simp: logs_def sends_def dest: keepsD)

lemma logs_bindS:
  assumes "logs es m" and "\<And>x. logs fs (f x)" shows "logs (es @ fs) (bindS m f)"
  unfolding logs_def
proof (intro allI impI)
  fix w r w' assume run: "bindS m f w = (r, w')"
  obtain q v where q: "m w = (q, v)" by fastforce
  obtain xs where xs: "wd_attempts v = wd_attempts w @ xs" "sends es (\<exists>x. q = Inr x) xs"
    using logsD [OF assms(1) q] by blast
  show "\<exists>told. wd_attempts w' = wd_attempts w @ told \<and> sends (es @ fs) (\<exists>x. r = Inr x) told"
  proof (cases q)
    case (Inl e)
    with run q xs sends_prefix show ?thesis by (fastforce simp: bindS_def)
  next
    case (Inr x)
    with run q have "f x v = (r, w')" by (simp add: bindS_def)
    then obtain ys where "wd_attempts w' = wd_attempts v @ ys" "sends fs (\<exists>x. r = Inr x) ys"
      using logsD [OF assms(2)] by blast
    with xs Inr sends_append show ?thesis by (intro exI [of _ "xs @ ys"]) auto
  qed
qed

lemma logs_silent: "keeps wd_attempts m \<Longrightarrow> (\<And>x. logs fs (f x)) \<Longrightarrow> logs fs (bindS m f)"
  using logs_bindS [OF logs_keeps] by fastforce

lemma logs_case_option:
  "(r = None \<Longrightarrow> logs es g) \<Longrightarrow> (\<And>x. r = Some x \<Longrightarrow> logs es (h x)) \<Longrightarrow>
   logs es (case r of None \<Rightarrow> g | Some x \<Rightarrow> h x)"
  by (cases r) simp_all

lemma logs_throwS: "logs es (throwS e)"
  by (auto simp: logs_def intro!: exI [of _ "[]"])

text \<open>What a task relies on of its transport: what its calls attempt to send, whatever comes of it.\<close>

locale task_transport =
  fixes tr :: "'n taskTransport"
    and taskID :: string
    and progress_entry :: "string \<Rightarrow> rat \<Rightarrow> string \<Rightarrow> sending"
    and fail_entry :: "ctx \<Rightarrow> string \<Rightarrow> sending"
  assumes report_logs: "report tr taskID stage p msg w = (r, w') \<Longrightarrow>
      \<exists>out. wd_attempts w' = wd_attempts w @ [(progress_entry stage p msg, out)]"
    and failure_logs: "reportFailure tr c taskID msg w = (r, w') \<Longrightarrow>
      \<exists>out. wd_attempts w' = wd_attempts w @ [(fail_entry c msg, out)]"
    and report_fs: "keeps wd_fs (report tr taskID stage p msg)"
    and report_held: "keeps wd_held (report tr taskID stage p msg)"
    and failure_held: "keeps wd_held (reportFailure tr c taskID msg)"
begin

lemma logs_report:
  assumes "\<And>x. logs fs (f x)" shows "logs (progress_entry stage p msg # fs) (bindS (report tr taskID stage p msg) f)"
proof -
  have "logs [progress_entry stage p msg] (report tr taskID stage p msg)"
    unfolding logs_def sends_def by (fastforce dest!: report_logs)
  from logs_bindS [OF this assms] show ?thesis by simp
qed

lemma Process_logs:
  "logs (processReports progress_entry) (Process N T cfg (Some (report tr taskID)) task)"
  unfolding Process_def finishResult_def Let_def option.case processReports_def
  by (rule logs_report logs_case_option logs_throwS | (rule logs_silent, intro keeps_intros) | (rule logs_keeps, intro keeps_intros))+

end

section \<open>The upload\<close>

text \<open>The request that carries a result, and an attempt that the server accepted.\<close>

definition upload_entry :: "string \<Rightarrow> bytes \<Rightarrow> bytes \<Rightarrow> sending" where
  "upload_entry taskID m a = Post TaskCtx (''/api/v1/tasks/'' @ taskID @ ''/result'') (Result m a)"

definition accepted :: "attempt \<Rightarrow> bool" where
  "accepted a \<longleftrightarrow> (case snd a of Answered status \<Rightarrow> status < 300 | _ \<Rightarrow> False)"

text \<open>At most \<open>n\<close> attempts to send the same thing, up to the first that is accepted; \<open>ok\<close> is whether one was.\<close>

definition sent_until :: "sending \<Rightarrow> nat \<Rightarrow> bool \<Rightarrow> attempt list \<Rightarrow> bool" where
  "sent_until what n ok told \<longleftrightarrow>
     length told \<le> n \<and> (\<forall>a\<in>set told. fst a = what) \<and> (\<forall>a\<in>set (butlast told). \<not> accepted a) \<and>
     (ok \<longleftrightarrow> told \<noteq> [] \<and> accepted (last told))"

lemma sent_until_nil [simp]: "sent_until what n False []"
  by (simp add: sent_until_def)

lemma sent_until_one [simp]: "sent_until what (Suc n) (accepted (what, out)) [(what, out)]"
  by (simp add: sent_until_def)

lemma sent_until_none: "sent_until what n False told \<Longrightarrow> a \<in> set told \<Longrightarrow> \<not> accepted a"
  by (cases told rule: rev_cases) (auto simp: sent_until_def)

lemma sent_until_append:
  assumes xs: "sent_until what 1 False xs" and ys: "sent_until what n ok ys"
  shows "sent_until what (Suc n) ok (xs @ ys)"
proof (cases "ys = []")
  case True
  with assms show ?thesis by (auto simp: sent_until_def)
next
  case False
  with assms sent_until_none [OF xs] show ?thesis by (auto simp: sent_until_def butlast_append)
qed

lemma sent_until_more: "sent_until what m ok told \<Longrightarrow> m \<le> n \<Longrightarrow> sent_until what n ok told"
  by (auto simp: sent_until_def)

lemma checked_post:
  assumes "bindS (checked msg (post N c path req)) (\<lambda>_. returnS ()) w = (r, w')"
  shows "wd_fs w' = wd_fs w \<and> wd_held w' = wd_held w \<and>
    (\<exists>out. wd_attempts w' = wd_attempts w @ [(Post c path req, out)] \<and> accepted (Post c path req, out) = (r = Inr ()))"
  using assms
  by (auto simp: checked_def post_def bindS_def accepted_def returnS_def throwS_def split: prod.splits sum.splits if_splits)

lemma uploadOnce_log:
  assumes "uploadResultOnce N taskID mp ap w = (r, w')" and "disk (wd_fs w) mp = Some m" and "disk (wd_fs w) ap = Some a"
  shows "wd_fs w' = wd_fs w \<and>
    (\<exists>told. wd_attempts w' = wd_attempts w @ told \<and> sent_until (upload_entry taskID m a) 1 (r = Inr ()) told)"
proof -
  obtain q s where q: "osReadFile mp (wd_fs w) = (q, s)" by fastforce
  obtain q' s' where q': "osReadFile ap (wd_fs w) = (q', s')" by fastforce
  have s: "s = wd_fs w" "s' = wd_fs w" using osReadFile_state q q' by auto
  show ?thesis
  proof (cases "\<exists>x y. q = Inr x \<and> q' = Inr y")
    case True
    then obtain x y where xy: "q = Inr x" "q' = Inr y" by blast
    have "x = m" "y = a" using xy q q' osReadFile_Inr assms(2,3) by fastforce+
    then have "bindS (checked ''result upload returned''
        (post N TaskCtx (''/api/v1/tasks/'' @ taskID @ ''/result'') (Result m a))) (\<lambda>_. returnS ()) w = (r, w')"
      using assms(1) xy q q' s by (simp add: uploadResultOnce_def bindS_def [where m = "onFs x" for x] onFs_def)
    from checked_post [OF this] obtain out where out: "wd_fs w' = wd_fs w"
      "wd_attempts w' = wd_attempts w @ [(upload_entry taskID m a, out)]" "accepted (upload_entry taskID m a, out) = (r = Inr ())"
      by (auto simp: upload_entry_def)
    with sent_until_one [of "upload_entry taskID m a" 0 out] show ?thesis by auto
  next
    case False
    then have "w' = w \<and> (\<exists>e. r = Inl e)"
      using assms(1) q q' s
      by (auto simp: uploadResultOnce_def bindS_def onFs_def split: sum.splits)
    then show ?thesis by (auto intro!: exI [of _ "[]"])
  qed
qed

lemma backoff_keeps:
  "backoff N a w = (r, w') \<Longrightarrow> wd_fs w' = wd_fs w \<and> wd_attempts w' = wd_attempts w"
  using keepsD [OF keeps_backoff(2)] keepsD [OF keeps_backoff(3)] by metis

lemma upload_log:
  assumes "retry N pick (uploadResultOnce N taskID mp ap) attempt left lastErr w = (r, w')"
    and "disk (wd_fs w) mp = Some m" and "disk (wd_fs w) ap = Some a" and "lastErr \<noteq> None \<or> 0 < left"
  shows "wd_fs w' = wd_fs w \<and>
    (\<exists>told. wd_attempts w' = wd_attempts w @ told \<and> sent_until (upload_entry taskID m a) left (r = Inr ()) told)"
  using assms
proof (induction left arbitrary: attempt lastErr w)
  case 0
  then show ?case by (cases lastErr) auto
next
  case (Suc left)
  let ?u = "upload_entry taskID m a"
  obtain b v where b: "backoff N attempt w = (b, v)" by fastforce
  note keep = backoff_keeps [OF b]
  show ?case
  proof (cases b)
    case (Inl e)
    with Suc.prems(1) b keep show ?thesis by (auto simp: bindS_def intro!: exI [of _ "[]"])
  next
    case (Inr x)
    obtain q u where q: "uploadResultOnce N taskID mp ap v = (q, u)" by fastforce
    from uploadOnce_log [OF q] keep Suc.prems(2,3) obtain xs where
      xs: "wd_fs u = wd_fs w" "wd_attempts u = wd_attempts w @ xs" "sent_until ?u 1 (q = Inr ()) xs" by auto
    consider (finished) "r = q" "w' = u"
      | (again) e e' where "retry N pick (uploadResultOnce N taskID mp ap) (Suc attempt) left (Some e) u = (r, w')" "q = Inl e'"
      | (stop) e e' where "r = Inl e" "w' = u" "q = Inl e'"
      using Suc.prems(1) b q Inr
      by (auto simp: bindS_def tryS_def returnS_def throwS_def split: sum.splits if_splits option.splits)
    then show ?thesis
    proof cases
      case finished
      with xs sent_until_more show ?thesis by fastforce
    next
      case again
      from Suc.IH [OF again(1)] Suc.prems(2,3) xs(1) obtain ys where
        "wd_fs w' = wd_fs w" "wd_attempts w' = wd_attempts u @ ys" "sent_until ?u left (r = Inr ()) ys" by auto
      with xs again(2) sent_until_append [of ?u xs left "r = Inr ()" ys] show ?thesis by (intro conjI exI [of _ "xs @ ys"]) auto
    next
      case stop
      with xs sent_until_more show ?thesis by fastforce
    qed
  qed
qed

section \<open>The story of a task\<close>

text \<open>
  What a task attempts to send: a beginning of its reports; when these are complete, at most four uploads of one
  result, whose manifest lists what its archive is the encoding of, up to the first that is accepted; and at most one failure, after no
  accepted upload. When the task has ended without a panic, it has either reported a failure or its last upload was accepted. The
  archive is what closing its writers has brought to the disk: all of it, unless that failed.
\<close>

definition uploads_result :: "('n, 'f, 'img) tools \<Rightarrow> TaskPayload \<Rightarrow> sending \<Rightarrow> bool" where
  "uploads_result T task e \<longleftrightarrow>
     (\<exists>es. distinct (map fst es) \<and>
        (let m = taskManifest task (sort_key rf_Path (map (result_file (tl_sha256 T)) es))
         in validateExpectedManifestOutputs (tm_Files m) (tp_Export task) = None \<and>
            e = upload_entry (tp_TaskID task) (tl_json T m) (reaching (tl_cut T) (tl_targz T es))))"

definition task_story ::
    "('n, 'f, 'img) tools \<Rightarrow> TaskPayload \<Rightarrow> (string \<Rightarrow> rat \<Rightarrow> string \<Rightarrow> sending) \<Rightarrow> (ctx \<Rightarrow> string \<Rightarrow> sending) \<Rightarrow>
     attempt list \<Rightarrow> go_err + unit \<Rightarrow> bool" where
  "task_story T task progress failure told r \<longleftrightarrow>
     (\<exists>reports ups fails ok up. told = reports @ ups @ fails \<and>
        sends (reportsOf progress) (ups \<noteq> []) reports \<and>
        (ups \<noteq> [] \<longrightarrow> uploads_result T task up) \<and> sent_until up 4 ok ups \<and>
        (fails = [] \<or> \<not> ok \<and> (\<exists>msg out. fails = [(failure TaskCtx msg, out)])) \<and>
        (r = Inr () \<and> fails = [] \<longrightarrow> ok))"

text \<open>
  With the recovery of \<open>runTaskSafelyWithTransport\<close>: a panic adds a failure that is sent under a context of its own. Either the server
  has accepted a result or there was an attempt to send a failure.
\<close>

definition safe_story ::
    "('n, 'f, 'img) tools \<Rightarrow> TaskPayload \<Rightarrow> (string \<Rightarrow> rat \<Rightarrow> string \<Rightarrow> sending) \<Rightarrow> (ctx \<Rightarrow> string \<Rightarrow> sending) \<Rightarrow>
     attempt list \<Rightarrow> bool" where
  "safe_story T task progress failure told \<longleftrightarrow>
     (\<exists>before r after. task_story T task progress failure before r \<and> told = before @ after \<and>
        (case r of
           Inr _ \<Rightarrow> after = []
         | Inl e \<Rightarrow> \<exists>out. after = [(failure ReportCtx (''panic: '' @ errText e), out)])) \<and>
     (\<exists>a\<in>set told. uploads_result T task (fst a) \<and> accepted a \<or> (\<exists>c msg. fst a = failure c msg))"

lemma safe_storyI:
  assumes story: "task_story T task progress failure before r"
    and after: "case r of Inr _ \<Rightarrow> after = [] | Inl e \<Rightarrow> \<exists>out. after = [(failure ReportCtx (''panic: '' @ errText e), out)]"
  shows "safe_story T task progress failure (before @ after)"
proof -
  obtain reports ups fails ok up where s: "before = reports @ ups @ fails" "ups \<noteq> [] \<longrightarrow> uploads_result T task up"
    "sent_until up 4 ok ups" "fails = [] \<or> (\<exists>msg out. fails = [(failure TaskCtx msg, out)])" "r = Inr () \<and> fails = [] \<longrightarrow> ok"
    using story unfolding task_story_def by blast
  have "\<exists>a\<in>set (before @ after). uploads_result T task (fst a) \<and> accepted a \<or> (\<exists>c msg. fst a = failure c msg)"
  proof (cases "r = Inr () \<and> fails = []")
    case True
    with s(3,5) have "ups \<noteq> []" "accepted (last ups)" "fst (last ups) = up" by (auto simp: sent_until_def)
    with s(1,2) have "uploads_result T task (fst (last ups)) \<and> accepted (last ups)" "last ups \<in> set before" by auto
    then show ?thesis by auto
  next
    case False
    with s(4) consider msg out where "fails = [(failure TaskCtx msg, out)]" | e where "r = Inl e" by (cases r) auto
    then have "\<exists>c msg out. (failure c msg, out) \<in> set (before @ after)" using after by cases (auto simp: s(1) simp del: append.simps, blast?)
    then show ?thesis by force
  qed
  with story after show ?thesis unfolding safe_story_def by blast
qed

lemma storyI:
  assumes "sends (reportsOf progress) (ups \<noteq> []) reports" and "ups \<noteq> [] \<Longrightarrow> uploads_result T task up"
    and "sent_until up 4 ok ups" and "fails = [] \<or> \<not> ok \<and> (\<exists>msg out. fails = [(failure TaskCtx msg, out)])"
    and "r = Inr () \<Longrightarrow> fails = [] \<Longrightarrow> ok"
  shows "task_story T task progress failure (reports @ ups @ fails) r"
  unfolding task_story_def using assms by blast

lemma result_ok_upload:
  assumes "result_ok T cfg task m s"
  shows "\<exists>a. disk s (manifestPath (ws_Root (Workspace cfg)) (tp_TaskID task)) = Some (tl_json T m) \<and>
    disk s (archivePath (ws_Root (Workspace cfg)) (tp_TaskID task)) = Some a \<and>
    uploads_result T task (upload_entry (tp_TaskID task) (tl_json T m) a)"
proof -
  obtain es where es: "distinct (map fst es)" "m = taskManifest task (sort_key rf_Path (map (result_file (tl_sha256 T)) es))"
    "validateExpectedManifestOutputs (tm_Files m) (tp_Export task) = None"
    "disk s (manifestPath (ws_Root (Workspace cfg)) (tp_TaskID task)) = Some (tl_json T m)"
    "disk s (archivePath (ws_Root (Workspace cfg)) (tp_TaskID task)) = Some (reaching (tl_cut T) (tl_targz T es))"
    using assms unfolding result_ok_def Let_def by blast
  then have "uploads_result T task (upload_entry (tp_TaskID task) (tl_json T m) (reaching (tl_cut T) (tl_targz T es)))"
    unfolding uploads_result_def Let_def by blast
  with es(4,5) show ?thesis by blast
qed

lemma length_reportsOf: "length (reportsOf entry) = 6" "length (processReports entry) = 5"
  by (simp_all add: reportsOf_def processReports_def)

context task_transport begin

lemma giveUp_log:
  assumes "giveUp cfg tr taskID err w = (r, w')"
  shows "(wd_attempts w' = wd_attempts w \<and> r = Inl err) \<or>
    (\<exists>out. wd_attempts w' = wd_attempts w @ [(fail_entry TaskCtx (errText err), out)])"
proof (cases "is_panic err")
  case True
  with assms show ?thesis by (simp add: giveUp_def)
next
  case False
  obtain q v where q: "reportFailure tr TaskCtx taskID (errText err) w = (q, v)" by fastforce
  have "\<exists>out. wd_attempts v = wd_attempts w @ [(fail_entry TaskCtx (errText err), out)]" by (rule failure_logs [OF q])
  moreover have "wd_attempts w' = wd_attempts v"
    using assms False q by (auto simp: giveUp_def bindS_def onFs_def split: sum.splits prod.splits)
  ultimately show ?thesis by simp
qed

lemma handle_story:
  assumes "handleTaskWithTransport N T cfg tr task w = (r, w')" and id: "tp_TaskID task = taskID"
  shows "\<exists>told. wd_attempts w' = wd_attempts w @ told \<and> task_story T task progress_entry fail_entry told r"
proof -
  let ?mp = "manifestPath (ws_Root (Workspace cfg)) taskID" and ?ap = "archivePath (ws_Root (Workspace cfg)) taskID"
  let ?story = "\<lambda>told. task_story T task progress_entry fail_entry told r"
  let ?w = "w\<lparr>wd_net := nt_deadline N (seconds (cc_TimeoutSeconds (Client cfg))) (wd_net w)\<rparr>"
  obtain p v where p: "Process N T cfg (Some (report tr taskID)) task ?w = (p, v)" by fastforce
  obtain told where told: "wd_attempts v = wd_attempts w @ told" "sends (processReports progress_entry) (\<exists>x. p = Inr x) told"
    using logsD [OF Process_logs p] by auto
  show ?thesis
  proof (cases p)
    case (Inl err)
    then have g: "giveUp cfg tr taskID err v = (r, w')"
      using assms p by (simp add: handleTaskWithTransport_def bindS_def onNet_def tryS_def)
    from giveUp_log [OF g] obtain fs where
      fs: "wd_attempts w' = wd_attempts v @ fs" "fs = [] \<and> r = Inl err \<or> (\<exists>msg out. fs = [(fail_entry TaskCtx msg, out)])"
      by (metis append_Nil2)
    have "?story (told @ [] @ fs)"
      by (rule storyI [where ok = False])
        (use told(2) fs(2) sends_prefix in \<open>auto simp: reportsOf_def\<close>)
    then show ?thesis using fs(1) told(1) by simp
  next
    case (Inr x)
    obtain m a where x: "x = (m, a)" by fastforce
    from processed_result [OF p [unfolded Inr x]] report_fs id
    have a: "a = ?ap" and ok: "result_ok T cfg task m (wd_fs v)" by auto
    let ?last = "progress_entry StageUploadResult 0.92 ''uploading result to server''"
    let ?rest = "\<lambda>_. bindS (tryS (uploadResult N taskID ?mp a)) (\<lambda>uploaded. case uploaded of
               Inl err \<Rightarrow> giveUp cfg tr taskID err
             | Inr _ \<Rightarrow> onFs (cleanupTaskDir cfg (taskDir (ws_Root (Workspace cfg)) taskID) False))"
    have run: "bindS (report tr taskID StageUploadResult 0.92 ''uploading result to server'') ?rest v = (r, w')"
      using assms(1) p Inr x unfolding handleTaskWithTransport_def Let_def id
      by (simp add: bindS_def [where m = "onNet n" for n] bindS_def [where m = "tryS n" for n] onNet_def tryS_def)
    obtain q u where q: "report tr taskID StageUploadResult 0.92 ''uploading result to server'' v = (q, u)" by fastforce
    obtain out where u: "wd_attempts u = wd_attempts w @ told @ [(?last, out)]" "wd_fs u = wd_fs v"
      using report_logs [OF q] told(1) keepsD [OF report_fs q] by auto
    have reports: "sends (reportsOf progress_entry) True (told @ [(?last, out)])"
      unfolding reportsOf_def by (rule sends_append) (use told(2) Inr in \<open>auto simp: sends_def\<close>)
    show ?thesis
    proof (cases q)
      case (Inl e)
      with run q have "r = Inl e" "w' = u" by (auto simp: bindS_def)
      moreover have "?story ((told @ [(?last, out)]) @ [] @ [])"
        by (rule storyI [where ok = False]) (use \<open>r = Inl e\<close> reports in \<open>auto simp: sends_def\<close>)
      ultimately show ?thesis using u(1) by auto
    next
      case (Inr y)
      obtain b where b: "disk (wd_fs u) ?mp = Some (tl_json T m)" "disk (wd_fs u) ?ap = Some b"
          "uploads_result T task (upload_entry taskID (tl_json T m) b)"
        using result_ok_upload [OF ok] u(2) id by auto
      let ?up = "upload_entry taskID (tl_json T m) b"
      obtain l z where l: "uploadResult N taskID ?mp ?ap u = (l, z)" by fastforce
      from upload_log [OF l [unfolded uploadResult_def] b(1,2)] obtain ups where
        ups: "wd_attempts z = wd_attempts u @ ups" "sent_until ?up 4 (l = Inr ()) ups" by auto
      have fin: "(case l of Inl err \<Rightarrow> giveUp cfg tr taskID err
             | Inr _ \<Rightarrow> onFs (cleanupTaskDir cfg (taskDir (ws_Root (Workspace cfg)) taskID) False)) z = (r, w')"
        using run q Inr l a by (simp add: bindS_def tryS_def)
      have "\<exists>fs. wd_attempts w' = wd_attempts z @ fs \<and>
          (fs = [] \<and> (l = Inr () \<or> r \<noteq> Inr ()) \<or> l \<noteq> Inr () \<and> (\<exists>msg out. fs = [(fail_entry TaskCtx msg, out)]))"
      proof (cases l)
        case (Inl e)
        with fin giveUp_log [of cfg e z r w'] show ?thesis by auto
      next
        case (Inr t)
        with fin show ?thesis by (auto simp: onFs_def split: prod.splits)
      qed
      then obtain fs where fs: "wd_attempts w' = wd_attempts z @ fs"
          "fs = [] \<and> (l = Inr () \<or> r \<noteq> Inr ()) \<or> l \<noteq> Inr () \<and> (\<exists>msg out. fs = [(fail_entry TaskCtx msg, out)])" by blast
      have "?story ((told @ [(?last, out)]) @ ups @ fs)"
        by (rule storyI [OF _ _ ups(2)]) (use reports b(3) fs(2) in \<open>auto simp: sends_def\<close>)
      then show ?thesis using fs(1) ups(1) u(1) by auto
    qed
  qed
qed

lemma safely_story:
  assumes run: "runTaskSafelyWithTransport N T cfg tr task w = (r, w')" and id: "tp_TaskID task = taskID"
  shows "\<exists>told. wd_attempts w' = wd_attempts w @ told \<and> safe_story T task progress_entry fail_entry told"
proof -
  obtain q v where q: "handleTaskWithTransport N T cfg tr task w = (q, v)" by fastforce
  obtain before where s: "wd_attempts v = wd_attempts w @ before" "task_story T task progress_entry fail_entry before q"
    using handle_story [OF q id] by blast
  have "\<exists>after. wd_attempts w' = wd_attempts v @ after \<and>
      (case q of Inr _ \<Rightarrow> after = [] | Inl e \<Rightarrow> \<exists>out. after = [(fail_entry ReportCtx (''panic: '' @ errText e), out)])"
  proof (cases q)
    case (Inl e)
    then have "reportFailure tr ReportCtx taskID (''panic: '' @ errText e) v = (r, w')"
      using run q id by (simp add: runTaskSafelyWithTransport_def bindS_def tryS_def)
    then obtain out where "wd_attempts w' = wd_attempts v @ [(fail_entry ReportCtx (''panic: '' @ errText e), out)]"
      using failure_logs by blast
    then show ?thesis unfolding Inl sum.case by blast
  next
    case (Inr x)
    with run q show ?thesis by (auto simp: runTaskSafelyWithTransport_def bindS_def tryS_def returnS_def)
  qed
  then obtain after where after: "wd_attempts w' = wd_attempts v @ after"
    "case q of Inr _ \<Rightarrow> after = [] | Inl e \<Rightarrow> \<exists>out. after = [(fail_entry ReportCtx (''panic: '' @ errText e), out)]" by blast
  show ?thesis
    by (intro exI conjI, rule trans [OF after(1)], unfold s(1) append_assoc, rule refl, rule safe_storyI [OF s(2) after(2)])
qed

end

section \<open>The two transports\<close>

definition http_progress :: "string \<Rightarrow> string \<Rightarrow> string \<Rightarrow> rat \<Rightarrow> string \<Rightarrow> sending" where
  "http_progress clientID taskID stage p msg =
     Post TaskCtx (''/api/v1/tasks/'' @ taskID @ ''/progress'')
       (Progress \<lparr>pr_ClientID = clientID, pr_Stage = stage, pr_Progress = p, pr_Message = msg\<rparr>)"

definition http_failure :: "string \<Rightarrow> string \<Rightarrow> ctx \<Rightarrow> string \<Rightarrow> sending" where
  "http_failure clientID taskID c msg =
     Post c (''/api/v1/tasks/'' @ taskID @ ''/fail'') (Fail \<lparr>fr_ClientID = clientID, fr_Error = msg\<rparr>)"

definition tcp_progress :: "string \<Rightarrow> string \<Rightarrow> string \<Rightarrow> rat \<Rightarrow> string \<Rightarrow> sending" where
  "tcp_progress clientID taskID stage p msg =
     Frame (zero_message\<lparr>mg_Type := MessageProgress, mg_ClientID := clientID, mg_TaskID := taskID, mg_Stage := stage,
       mg_Progress := p, mg_Message := msg\<rparr>)"

definition tcp_failure :: "string \<Rightarrow> string \<Rightarrow> ctx \<Rightarrow> string \<Rightarrow> sending" where
  "tcp_failure clientID taskID c msg =
     Frame (zero_message\<lparr>mg_Type := MessageFail, mg_ClientID := clientID, mg_TaskID := taskID, mg_Error := msg\<rparr>)"

lemma discard_state: "discard m w = (r, w') \<Longrightarrow> \<exists>q. m w = (q, w')"
  by (auto simp: discard_def split: prod.splits sum.splits)

lemma sendTCPMessage_log: "sendTCPMessage N msg w = (r, w') \<Longrightarrow> \<exists>out. wd_attempts w' = wd_attempts w @ [(Frame msg, out)]"
  by (auto simp: sendTCPMessage_def Let_def split: if_splits prod.splits option.splits)

interpretation http: task_transport "httpTaskTransport N clientID" taskID "http_progress clientID taskID"
  "http_failure clientID taskID" for N clientID taskID
proof unfold_locales
  show "\<exists>out. wd_attempts w' = wd_attempts w @ [(http_progress clientID taskID stage p msg, out)]"
    if "report (httpTaskTransport N clientID) taskID stage p msg w = (r, w')" for stage p msg w r w'
    using that checked_post
    by (fastforce simp: report_def httpTaskTransport_def reportProgress_def http_progress_def dest!: discard_state)
  show "\<exists>out. wd_attempts w' = wd_attempts w @ [(http_failure clientID taskID c msg, out)]"
    if "reportFailure (httpTaskTransport N clientID) c taskID msg w = (r, w')" for c msg w r w'
    using that checked_post
    by (fastforce simp: reportFailure_def httpTaskTransport_def fail_def http_failure_def dest!: discard_state)
qed (auto simp: report_def reportFailure_def httpTaskTransport_def reportProgress_def fail_def checked_def intro!: keeps_intros)

interpretation tcp: task_transport "tcpTaskTransport N clientID" taskID "tcp_progress clientID taskID"
  "tcp_failure clientID taskID" for N clientID taskID
proof unfold_locales
  show "\<exists>out. wd_attempts w' = wd_attempts w @ [(tcp_progress clientID taskID stage p msg, out)]"
    if "report (tcpTaskTransport N clientID) taskID stage p msg w = (r, w')" for stage p msg w r w'
    using that by (auto simp: report_def tcpTaskTransport_def tcp_progress_def dest!: discard_state sendTCPMessage_log)
  show "\<exists>out. wd_attempts w' = wd_attempts w @ [(tcp_failure clientID taskID c msg, out)]"
    if "reportFailure (tcpTaskTransport N clientID) c taskID msg w = (r, w')" for c msg w r w'
    using that by (auto simp: reportFailure_def tcpTaskTransport_def tcp_failure_def dest!: discard_state sendTCPMessage_log)
qed (auto simp: report_def reportFailure_def tcpTaskTransport_def intro!: keeps_intros)

section \<open>The slots\<close>

text \<open>
  Whether a task keeps its slot of AssetStudio for good, tasks that are run one after another, and how many of them
  keep one.
\<close>

definition keeps_slot ::
    "'n net \<Rightarrow> ('n, 'f, 'img) tools \<Rightarrow> Config \<Rightarrow> 'n taskTransport \<Rightarrow> TaskPayload \<Rightarrow> 'n world \<Rightarrow> bool" where
  "keeps_slot N T cfg tr task w \<longleftrightarrow>
     export_panics N T cfg (report tr (tp_TaskID task)) task
       (w\<lparr>wd_net := nt_deadline N (seconds (cc_TimeoutSeconds (Client cfg))) (wd_net w)\<rparr>)"

primrec run_tasks ::
    "'n net \<Rightarrow> ('n, 'f, 'img) tools \<Rightarrow> Config \<Rightarrow> 'n taskTransport \<Rightarrow> TaskPayload list \<Rightarrow> 'n world \<Rightarrow> 'n world" where
  "run_tasks N T cfg tr [] w = w"
| "run_tasks N T cfg tr (task # tasks) w = run_tasks N T cfg tr tasks (snd (runTaskSafelyWithTransport N T cfg tr task w))"

primrec slots_kept ::
    "'n net \<Rightarrow> ('n, 'f, 'img) tools \<Rightarrow> Config \<Rightarrow> 'n taskTransport \<Rightarrow> TaskPayload list \<Rightarrow> 'n world \<Rightarrow> nat" where
  "slots_kept N T cfg tr [] w = 0"
| "slots_kept N T cfg tr (task # tasks) w =
     of_bool (keeps_slot N T cfg tr task w) + slots_kept N T cfg tr tasks (snd (runTaskSafelyWithTransport N T cfg tr task w))"

lemma tryS_state: "snd (tryS m s) = snd (m s)"
  by (simp add: tryS_def split: prod.splits)

context task_transport begin

lemma handle_held:
  assumes "tp_TaskID task = taskID"
  shows "wd_held (snd (handleTaskWithTransport N T cfg tr task w)) =
    with_slots_lost (of_bool (keeps_slot N T cfg tr task w)) (wd_held w)"
proof -
  let ?w = "w\<lparr>wd_net := nt_deadline N (seconds (cc_TimeoutSeconds (Client cfg))) (wd_net w)\<rparr>"
  let ?rest = "\<lambda>processed. case processed of
           Inl err \<Rightarrow> giveUp cfg tr taskID err
         | Inr (manifest, archive) \<Rightarrow>
             bindS (report tr taskID StageUploadResult 0.92 ''uploading result to server'') (\<lambda>_.
             bindS (tryS (uploadResult N taskID (manifestPath (ws_Root (Workspace cfg)) taskID) archive)) (\<lambda>uploaded.
             case uploaded of
               Inl err \<Rightarrow> giveUp cfg tr taskID err
             | Inr _ \<Rightarrow> onFs (cleanupTaskDir cfg (taskDir (ws_Root (Workspace cfg)) taskID) False)))"
  have give: "keeps wd_held (giveUp cfg tr taskID err)" for err
    unfolding giveUp_def by (intro keeps_intros failure_held)
  have up: "keeps wd_held (uploadResult N taskID m a)" for m a
    unfolding uploadResult_def uploadResultOnce_def checked_def by (intro keeps_intros)
  have after: "keeps wd_held (?rest processed)" for processed
    by (intro keeps_intros report_held give up)
  have "handleTaskWithTransport N T cfg tr task w = bindS (tryS (Process N T cfg (Some (report tr taskID)) task)) ?rest ?w"
    unfolding handleTaskWithTransport_def Let_def assms
    by (subst bindS_def) (simp add: onNet_def)
  then show ?thesis
    using Process_held [of "report tr taskID" N T cfg task ?w] report_held assms
    by (simp add: keeps_after [OF after] tryS_state keeps_slot_def)
qed

lemma safely_held:
  assumes "tp_TaskID task = taskID"
  shows "wd_held (snd (runTaskSafelyWithTransport N T cfg tr task w)) =
    with_slots_lost (of_bool (keeps_slot N T cfg tr task w)) (wd_held w)"
proof -
  have after: "keeps wd_held (case r of
      Inl e \<Rightarrow> reportFailure tr ReportCtx (tp_TaskID task) (''panic: '' @ errText e) | Inr _ \<Rightarrow> returnS ())" for r
    unfolding assms by (intro keeps_intros failure_held)
  show ?thesis
    unfolding runTaskSafelyWithTransport_def keeps_after [OF after] tryS_state by (rule handle_held [OF assms])
qed

end

text \<open>With the laws of both transports the slots add up over any number of tasks.\<close>

lemma run_tasks_held:
  assumes "\<And>task w. wd_held (snd (runTaskSafelyWithTransport N T cfg tr task w)) =
    with_slots_lost (of_bool (keeps_slot N T cfg tr task w)) (wd_held w)"
  shows "wd_held (run_tasks N T cfg tr tasks w) = with_slots_lost (slots_kept N T cfg tr tasks w) (wd_held w)"
  by (induction tasks arbitrary: w) (simp_all add: assms add.commute)


text \<open>
  C14: Tasks give back every slot they have taken of the four semaphores for downloads, AssetStudio, post-processing and USM, on
  every path, but for exactly one: when the export of a task panics under the slot of AssetStudio, that slot is kept for good,
  because it is given back by a statement and not by a deferred call. After any number of tasks, one after another, over
  HTTP or over TCP, the slots held are those from before and one of AssetStudio for each task whose export has panicked; no later
  task gives one of these back. (The slots of \<open>acbSem\<close> and \<open>hcaSem\<close>, within the pools, are not counted.)
\<close>

theorem slots_are_given_back:
  "wd_held (run_tasks N T cfg (httpTaskTransport N clientID) tasks w) =
     (wd_held w)(AssetStudioSem := wd_held w AssetStudioSem + int (slots_kept N T cfg (httpTaskTransport N clientID) tasks w)) \<and>
   wd_held (run_tasks N T cfg (tcpTaskTransport N clientID) tasks w) =
     (wd_held w)(AssetStudioSem := wd_held w AssetStudioSem + int (slots_kept N T cfg (tcpTaskTransport N clientID) tasks w))"
  unfolding with_slots_lost_def [symmetric]
  by (intro conjI run_tasks_held http.safely_held [OF refl] tcp.safely_held [OF refl])

text \<open>
  The other side: a panic of the export does keep the slot. The extraction of a movie panics (\<open>negative_payload_panics\<close>),
  and nothing between it and the worker's loop recovers.
\<close>

lemma panicking_export_keeps_slot:
  assumes "acquireSemaphore N AssetStudioSem w = (Inr (), v)"
    and "ExtractUnityAssetBundle N T cfg f e d c opts v = (Inl (Panic m), u)"
  shows "underStudio N (ExtractUnityAssetBundle N T cfg f e d c opts) w = (Inl (Panic m), u) \<and>
    wd_held u AssetStudioSem = wd_held w AssetStudioSem + 1"
proof -
  have "wd_held v AssetStudioSem = wd_held w AssetStudioSem + 1"
    using assms(1) by (auto simp: acquireSemaphore_def split: prod.splits bool.splits)
  moreover have "wd_held u = wd_held v" by (rule keepsD [OF keeps_Extract(1) assms(2)])
  ultimately show ?thesis using assms by (simp add: underStudio_def bindS_def tryS_def)
qed

end
