(* ===== verification/RuntimeStats.thy ===== *)
theory RuntimeStats
  imports Config FileSys AcbReader
begin

text \<open>
  The diagnostics of \<open>internal/client/worker.go\<close>: the memory of the cgroup, the memory limit, the release of memory,
  the warnings, and the texts for sizes. The figures of the Go runtime are arguments. A \<open>float64\<close> is
  computed exactly: the conversion of an integer rounds to 53 bits, and the divisor is a power of two.
\<close>

section \<open>Texts for sizes\<close>

function unitLoop :: "u64 \<Rightarrow> u64 \<Rightarrow> nat \<Rightarrow> u64 \<times> nat" where
  "unitLoop n d e = (if n \<ge> 1024 then unitLoop (n div 1024) (d * 1024) (e + 1) else (d, e))"
  by pat_completeness auto
termination
proof (relation "measure (\<lambda>(n, d, e). unat n)")
  fix n d :: u64 and e :: nat
  assume "1024 \<le> n"
  then have "1024 \<le> unat n" by (simp add: word_le_nat_alt)
  then show "((n div 1024, d * 1024, e + 1), (n, d, e)) \<in> measure (\<lambda>(n, d, e). unat n)"
    by (simp add: unat_div)
qed simp

declare unitLoop.simps [simp del]

text \<open>\<open>float64(v)\<close> of an integer: round to 53 bits, ties to even.\<close>

definition div_even :: "nat \<Rightarrow> nat \<Rightarrow> nat" where
  "div_even a b = (if 2 * (a mod b) > b \<or> 2 * (a mod b) = b \<and> odd (a div b) then a div b + 1 else a div b)"

fun dropped_bits :: "nat \<Rightarrow> nat" where
  "dropped_bits v = (if v < 2 ^ 53 then 0 else Suc (dropped_bits (v div 2)))"

declare dropped_bits.simps [simp del]

definition float64 :: "nat \<Rightarrow> nat" where
  "float64 v = (let k = dropped_bits v in div_even v (2 ^ k) * 2 ^ k)"

text \<open>\<open>%.1f\<close> of a quotient of integers.\<close>

definition show_tenths :: "nat \<Rightarrow> string" where
  "show_tenths t = show_nat (t div 10) @ ''.'' @ show_nat (t mod 10)"

definition formatBytes :: "u64 \<Rightarrow> go_err + string" where
  "formatBytes v =
     (if v < 1024 then Inr (show_nat (unat v) @ ''B'')
      else case unitLoop (v div 1024) 1024 0 of
        (d, e) \<Rightarrow>
          bindR (index_get ''KMGTPE'' (int e)) (\<lambda>c.
            Inr (show_tenths (div_even (10 * float64 (unat v)) (float64 (unat d))) @ [c] @ ''iB'')))"

definition formatLimit :: "u64 \<Rightarrow> go_err + string" where
  "formatLimit v = (if v = 0 \<or> v \<ge> 2 ^ 62 then Inr ''unlimited'' else formatBytes v)"

section \<open>The cgroup\<close>

text \<open>\<open>strconv.ParseUint(s, 10, 64)\<close>: the value, and whether there is no error. A number out of range gives the largest.\<close>

definition digit :: "char \<Rightarrow> bool" where
  "digit c \<longleftrightarrow> 48 \<le> (of_char c :: nat) \<and> (of_char c :: nat) \<le> 57"

definition decimal :: "string \<Rightarrow> nat" where
  "decimal s = fold (\<lambda>c n. 10 * n + (of_char c - 48)) s 0"

definition parseUint :: "string \<Rightarrow> u64 \<times> bool" where
  "parseUint s =
     (if s = '''' \<or> \<not> list_all digit s then (0, False)
      else if decimal s \<ge> 2 ^ 64 then (- 1, False)
      else (of_nat (decimal s), True))"

definition readUintFile :: "fsys \<Rightarrow> string \<Rightarrow> u64 \<times> bool" where
  "readUintFile s path =
     (case fst (osReadFile path s) of
        Inl _ \<Rightarrow> (0, False)
      | Inr data \<Rightarrow> parseUint (trimSpace (string_of data)))"

definition readUintOrMaxFile :: "fsys \<Rightarrow> string \<Rightarrow> u64 \<times> bool" where
  "readUintOrMaxFile s path =
     (case fst (osReadFile path s) of
        Inl _ \<Rightarrow> (0, False)
      | Inr data \<Rightarrow>
          let v = trimSpace (string_of data)
          in if v = ''max'' then (0, True) else parseUint v)"

definition cgroupMemory :: "fsys \<Rightarrow> u64 \<times> u64 \<times> bool" where
  "cgroupMemory s =
     (case readUintFile s ''/sys/fs/cgroup/memory.current'' of
        (current, True) \<Rightarrow> (current, fst (readUintOrMaxFile s ''/sys/fs/cgroup/memory.max''), True)
      | (_, False) \<Rightarrow>
          (case readUintFile s ''/sys/fs/cgroup/memory/memory.usage_in_bytes'' of
             (current, True) \<Rightarrow> (current, fst (readUintFile s ''/sys/fs/cgroup/memory/memory.limit_in_bytes''), True)
           | (_, False) \<Rightarrow> (0, 0, False)))"

section \<open>Decisions\<close>

text \<open>The limit that is set, if one is. \<open>inEnvironment\<close>: whether \<open>GOMEMLIMIT\<close> is in the environment.\<close>

definition configureMemoryLimit :: "Config \<Rightarrow> bool \<Rightarrow> fsys \<Rightarrow> u64 option" where
  "configureMemoryLimit cfg inEnvironment s =
     (let mb = dc_GoMemoryLimitMB (Diagnostics cfg);
          percent = dc_GoMemoryLimitPercent (Diagnostics cfg)
      in if inEnvironment then None
         else if mb < 0 \<or> percent < 0 then None
         else
           let memoryLimit =
                 (if mb > 0 then word_of_int mb * 1024 * 1024
                  else case cgroupMemory s of
                    (_, limit, ok) \<Rightarrow>
                      if ok \<and> limit > 0 \<and> percent > 0 then limit * word_of_int percent div 100 else 0)
           in if memoryLimit = 0 \<or> memoryLimit > 2 ^ 63 - 1 then None else Some memoryLimit)"

definition releaseMemoryAfterTask :: "Config \<Rightarrow> fsys \<Rightarrow> bool" where
  "releaseMemoryAfterTask cfg s =
     (let threshold = dc_FreeOSMemoryThresholdPercent (Diagnostics cfg)
      in threshold > 0 \<and>
         (case cgroupMemory s of
            (current, limit, ok) \<Rightarrow>
              ok \<and> limit \<noteq> 0 \<and> \<not> current * 100 div limit < word_of_int threshold))"

datatype warning = CgroupHigh | ManyGoroutines | HeapHigh | StagesThrottle | HCAGlobal | HighConcurrency

definition logRuntimeStats :: "Config \<Rightarrow> fsys \<Rightarrow> int \<Rightarrow> u64 \<Rightarrow> warning list" where
  "logRuntimeStats cfg s goroutines heapAlloc =
     (let dc = Diagnostics cfg;
          warnHeap = dc_WarnHeapMB dc * 1024 * 1024
      in (case cgroupMemory s of
            (current, limit, ok) \<Rightarrow>
              if ok \<and> dc_WarnCgroupMemoryPercent dc > 0 \<and> limit > 0 \<and>
                 current * 100 div limit \<ge> word_of_int (dc_WarnCgroupMemoryPercent dc)
              then [CgroupHigh] else [])
         @ (if dc_WarnGoroutines dc > 0 \<and> goroutines \<ge> dc_WarnGoroutines dc then [ManyGoroutines] else [])
         @ (if warnHeap > 0 \<and> heapAlloc \<ge> warnHeap then [HeapHigh] else []))"

definition warnOnHighConcurrency :: "Config \<Rightarrow> warning list" where
  "warnOnHighConcurrency cfg =
     (let c = Concurrency cfg;
          maxTasks = wc_MaxTasks (Worker cfg);
          assetStudio = (if cn_AssetStudio c \<le> 0 then maxTasks else cn_AssetStudio c);
          postProcess = (if cn_PostProcess c \<le> 0 then maxTasks else cn_PostProcess c)
      in (if assetStudio < maxTasks \<or> postProcess < maxTasks then [StagesThrottle] else [])
         @ (if cn_HCAGlobal c then [HCAGlobal] else [])
         @ (if maxTasks \<ge> 64 \<or> assetStudio \<ge> 64 \<or> postProcess \<ge> 64 \<or> cn_ACB c \<ge> 64 \<or> cn_USM c \<ge> 64 \<or> cn_HCA c \<ge> 64
            then [HighConcurrency] else []))"

section \<open>The text of a size\<close>

lemma div_even_bound: "0 < b \<Longrightarrow> \<bar>int (div_even a b * b) - int a\<bar> * 2 \<le> int b"
proof -
  assume b: "0 < b"
  have a: "int a = int (a div b) * int b + int (a mod b)" by (metis div_mult_mod_eq of_nat_add of_nat_mult)
  have m: "int (a mod b) < int b" using b by simp
  show ?thesis
  proof (cases "2 * (a mod b) > b \<or> 2 * (a mod b) = b \<and> odd (a div b)")
    case True
    then have "2 * int (a mod b) \<ge> int b" by linarith
    moreover have "int (div_even a b * b) - int a = int b - int (a mod b)"
      using True a by (simp add: div_even_def algebra_simps)
    ultimately show ?thesis using m by simp
  next
    case False
    then have "2 * int (a mod b) \<le> int b" by linarith
    moreover have "int (div_even a b * b) - int a = - int (a mod b)"
      using False a by (auto simp: div_even_def)
    ultimately show ?thesis by simp
  qed
qed

lemma div_even_dvd: "0 < b \<Longrightarrow> b dvd a \<Longrightarrow> div_even a b = a div b"
  by (simp add: div_even_def dvd_eq_mod_eq_0)

lemma dropped_bits_power: "dropped_bits (2 ^ k) \<le> k"
proof (induction k)
  case 0
  show ?case by (simp add: dropped_bits.simps)
next
  case (Suc k)
  then show ?case by (subst dropped_bits.simps) simp
qed

lemma float64_power: "float64 (2 ^ k) = 2 ^ k"
proof -
  have "(2 :: nat) ^ dropped_bits (2 ^ k) dvd 2 ^ k" using dropped_bits_power by (simp add: le_imp_power_dvd)
  then show ?thesis by (simp add: float64_def Let_def div_even_dvd)
qed

lemma dropped_bits_le: "v < 2 ^ (53 + j) \<Longrightarrow> dropped_bits v \<le> j"
proof (induction j arbitrary: v)
  case 0
  then show ?case by (simp add: dropped_bits.simps)
next
  case (Suc j)
  then have "v < 2 ^ (53 + j) * 2" by (simp add: power_add)
  then have "v div 2 < 2 ^ (53 + j)" by (rule less_mult_imp_div_less)
  from Suc.IH [OF this] show ?case by (subst dropped_bits.simps) simp
qed

text \<open>The conversion is exact below \<open>2 ^ 53\<close>, and off by at most 1024 above.\<close>

definition float_slack :: "nat \<Rightarrow> int" where
  "float_slack v = (if v < 2 ^ 53 then 0 else 1024)"

lemma float64_error:
  assumes "v < 2 ^ 64" shows "\<bar>int (float64 v) - int v\<bar> \<le> float_slack v"
proof (cases "v < 2 ^ 53")
  case True
  then have "float64 v = v" by (simp add: float64_def dropped_bits.simps div_even_def)
  then show ?thesis by (simp add: float_slack_def)
next
  case False
  have "dropped_bits v \<le> 11" using dropped_bits_le [of v 11] assms by simp
  then have "(2 :: int) ^ dropped_bits v \<le> 2 ^ 11" by (intro power_increasing) auto
  with div_even_bound [of "2 ^ dropped_bits v" v] False show ?thesis
    by (simp add: float64_def Let_def float_slack_def)
qed

text \<open>The unit: the loop ends with the largest power of 1024 in the number.\<close>

lemma unitLoop_result:
  assumes "unitLoop n d e = (d', e')" and "unat d = 1024 ^ (e + 1)" and "unat n = V div 1024 ^ (e + 1)"
    and "V < 2 ^ 64" and "1024 ^ (e + 1) \<le> V"
  shows "unat d' = 1024 ^ (e' + 1) \<and> 1024 ^ (e' + 1) \<le> V \<and> V < 1024 ^ (e' + 2)"
  using assms
proof (induction n d e arbitrary: d' e' rule: unitLoop.induct)
  case (1 n d e)
  show ?case
  proof (cases "1024 \<le> n")
    case True
    then have "1024 \<le> V div 1024 ^ (e + 1)" using 1(4) by (simp add: word_le_nat_alt)
    then have le: "1024 ^ (e + 2) \<le> V" by (simp add: less_eq_div_iff_mult_less_eq mult.assoc [symmetric])
    have "unat (d * 1024) = 1024 ^ (e + 1) * 1024"
      using le 1(3,5) by (subst unat_mult_lem [THEN iffD1]) (auto simp: power_add)
    then have d: "unat (d * 1024) = 1024 ^ (e + 1 + 1)" by simp
    have n: "unat (n div 1024) = V div 1024 ^ (e + 1 + 1)"
      using 1(4) by (simp add: unat_div div_mult2_eq [symmetric] mult.commute)
    show ?thesis
      by (rule 1(1) [OF True _ d n]) (use 1(2,5) True le in \<open>simp_all add: unitLoop.simps [of n]\<close>)
  next
    case False
    then have "V div 1024 ^ (e + 1) < 1024" using 1(4) by (simp add: word_le_nat_alt)
    then have "V < 1024 ^ (e + 2)" by (simp add: less_mult_imp_div_less div_less_iff_less_mult)
    then show ?thesis using False 1(2,3,6) by (simp add: unitLoop.simps [of n])
  qed
qed

text \<open>
  C35: The text of a size is right for every 64-bit number: no unit is out of range, the unit is the
  largest power of 1024 in the number, and the number that is printed, with its one decimal, is the nearest one
  (from \<open>2 ^ 53\<close> on up to the rounding of \<open>float64\<close>).
\<close>

theorem size_text_is_accurate:
  "if v < 1024 then formatBytes v = Inr (show_nat (unat v) @ ''B'')
   else \<exists>e t. e \<le> 5 \<and> 1024 ^ (e + 1) \<le> unat v \<and> unat v < 1024 ^ (e + 2) \<and>
     formatBytes v = Inr (show_tenths t @ [''KMGTPE'' ! e] @ ''iB'') \<and>
     2 * \<bar>int (t * 1024 ^ (e + 1)) - 10 * int (unat v)\<bar> \<le> 1024 ^ (e + 1) + 20 * float_slack (unat v)"
proof (cases "v < 1024")
  case True
  then show ?thesis by (simp add: formatBytes_def)
next
  case False
  then have v: "1024 \<le> unat v" "unat v < 2 ^ 64" using unsigned_less [of v] by (simp_all add: word_le_nat_alt not_less)
  obtain d e where u: "unitLoop (v div 1024) 1024 0 = (d, e)" by fastforce
  have r: "unat d = 1024 ^ (e + 1)" "1024 ^ (e + 1) \<le> unat v" "unat v < 1024 ^ (e + 2)"
    using unitLoop_result [OF u, of "unat v"] v by (simp_all add: unat_div)
  have e: "e \<le> 5"
  proof (rule ccontr)
    assume "\<not> e \<le> 5"
    then have "(1024 :: nat) ^ 7 \<le> 1024 ^ (e + 1)" by (intro power_increasing) auto
    with r(2) v(2) show False by simp
  qed
  have d2: "unat d = 2 ^ (10 * (e + 1))" unfolding power_mult r(1) by simp
  have fd: "float64 (unat d) = 1024 ^ (e + 1)" using float64_power [of "10 * (e + 1)"] unfolding d2 [symmetric] r(1) .
  let ?t = "div_even (10 * float64 (unat v)) (1024 ^ (e + 1))"
  have sum: "2 * \<bar>A - C\<bar> \<le> D + 20 * S" if "\<bar>A - B\<bar> * 2 \<le> D" "\<bar>B - C\<bar> \<le> 10 * S" for A B C D S :: int
    using that by (auto simp: abs_if split: if_splits)
  have "\<bar>int (?t * 1024 ^ (e + 1)) - int (10 * float64 (unat v))\<bar> * 2 \<le> int (1024 ^ (e + 1))"
    by (rule div_even_bound) simp
  moreover have "\<bar>int (10 * float64 (unat v)) - 10 * int (unat v)\<bar> \<le> 10 * float_slack (unat v)"
    using float64_error [OF v(2)] by (simp add: algebra_simps)
  ultimately have "2 * \<bar>int (?t * 1024 ^ (e + 1)) - 10 * int (unat v)\<bar> \<le> int (1024 ^ (e + 1)) + 20 * float_slack (unat v)"
    by (rule sum)
  then have "2 * \<bar>int (?t * 1024 ^ (e + 1)) - 10 * int (unat v)\<bar> \<le> 1024 ^ (e + 1) + 20 * float_slack (unat v)"
    by (simp only: of_nat_power of_nat_numeral)
  moreover have "formatBytes v = Inr (show_tenths ?t @ [''KMGTPE'' ! e] @ ''iB'')"
    using False e by (simp add: formatBytes_def u fd index_get_def)
  ultimately show ?thesis using False e r(2,3) by (simp only: if_False) blast
qed

section \<open>The memory limit\<close>

text \<open>
  The limit that is set from the cgroup is the share the configuration asks for, as long as the product does not
  wrap around; it is never more than the cgroup has, and what is set is never zero or negative as an \<open>int64\<close>.
\<close>

lemma memory_limit_share:
  assumes set: "configureMemoryLimit cfg False s = Some m" and "dc_GoMemoryLimitMB (Diagnostics cfg) = 0"
    and percent: "0 < dc_GoMemoryLimitPercent (Diagnostics cfg)" "dc_GoMemoryLimitPercent (Diagnostics cfg) \<le> 100"
    and cg: "cgroupMemory s = (current, limit, True)"
    and fits: "unat limit * nat (dc_GoMemoryLimitPercent (Diagnostics cfg)) < 2 ^ 64"
  shows "unat m = unat limit * nat (dc_GoMemoryLimitPercent (Diagnostics cfg)) div 100 \<and> m \<le> limit \<and> 0 < sint m"
proof -
  let ?p = "nat (dc_GoMemoryLimitPercent (Diagnostics cfg))"
  have p: "word_of_int (dc_GoMemoryLimitPercent (Diagnostics cfg)) = (of_nat ?p :: u64)" "?p \<le> 100"
    using percent by simp_all
  have m: "m = limit * of_nat ?p div 100" "m \<noteq> 0" "m \<le> 2 ^ 63 - 1"
    using set assms(2) percent(1) cg p(1)
    by (auto simp: configureMemoryLimit_def Let_def not_less split: if_splits)
  have "unat (of_nat ?p :: u64) = ?p" using p(2) by (simp add: unat_of_nat take_bit_nat_eq_self)
  then have "unat (limit * of_nat ?p) = unat limit * ?p"
    using fits by (subst unat_mult_lem [THEN iffD1]) simp_all
  then have u: "unat m = unat limit * ?p div 100" unfolding m(1) by (simp add: unat_div)
  also have "\<dots> \<le> unat limit * 100 div 100" using p(2) by (intro div_le_mono) simp
  finally have "m \<le> limit" by (simp add: word_le_nat_alt)
  have "uint m < 2 ^ 63" using m(3) by (simp add: word_le_def)
  moreover have "- (2 ^ 63) \<le> uint m" by (rule order_trans [OF _ uint_ge_0]) simp
  ultimately have "sint m = uint m" by (simp add: sint_uint signed_take_bit_int_eq_self)
  moreover have "0 < uint m" using m(2) by (simp add: word_neq_0_conv word_less_def)
  ultimately show ?thesis using u \<open>m \<le> limit\<close> by simp
qed

end
