(* ===== verification/WorkerLoop.thy ===== *)
theory WorkerLoop
  imports TaskRunner
begin

text \<open>
  The loops of \<open>internal/client\<close> around the tasks: the choice of the mode and the TCP handshake as functions, and the
  main loop, the goroutines of the tasks and the set of active tasks as step relations, one for HTTP and one for TCP,
  over the same state. What the server hands out is a parameter, \<open>offers\<close>.
\<close>

section \<open>Choosing the mode\<close>

datatype mode = HTTPMode | TCPMode

text \<open>\<open>parse\<close> is the host \<open>url.Parse\<close> finds. Hosts are ASCII, and so is \<open>strings.EqualFold\<close> here.\<close>

definition httpBaseHost :: "(string \<Rightarrow> go_err + string) \<Rightarrow> string \<Rightarrow> string" where
  "httpBaseHost parse raw =
     (case parse (trimSpace raw) of
        Inr host \<Rightarrow> if host \<noteq> '''' then host else trimSpace raw
      | Inl _ \<Rightarrow> trimSpace raw)"

definition equalFold :: "string \<Rightarrow> string \<Rightarrow> bool" where
  "equalFold a b \<longleftrightarrow> toLower a = toLower b"

definition validateTCPModeConfig :: "(string \<Rightarrow> go_err + string) \<Rightarrow> Config \<Rightarrow> go_err option" where
  "validateTCPModeConfig parse cfg =
     (let httpHost = httpBaseHost parse (cc_ServerURL (Client cfg));
          tcpHost = trimSpace (cc_TCPAddress (Client cfg))
      in if httpHost \<noteq> '''' \<and> tcpHost \<noteq> '''' \<and> equalFold httpHost tcpHost
         then Some (Failure ''tcp mode needs separate listeners'') else None)"

definition Run :: "(string \<Rightarrow> go_err + string) \<Rightarrow> Config \<Rightarrow> go_err + mode" where
  "Run parse cfg =
     (let m = toLower (trimSpace (cc_Mode (Client cfg)))
      in if m = '''' \<or> m = ''http'' then Inr HTTPMode
         else if m = ''tcp'' then
           (case validateTCPModeConfig parse cfg of Some e \<Rightarrow> Inl e | None \<Rightarrow> Inr TCPMode)
         else Inl (Failure ''unsupported client mode''))"

section \<open>The TCP session\<close>

definition reconnectDelay :: "Config \<Rightarrow> int" where
  "reconnectDelay cfg =
     (let d = seconds (cc_TCPReconnectSeconds (Client cfg)) in if d \<le> 0 then 5 * 1000000000 else d)"

definition registerMessage :: "Config \<Rightarrow> string \<Rightarrow> string list \<Rightarrow> Message" where
  "registerMessage cfg clientID activeIDs = zero_message
     \<lparr>mg_Type := MessageRegister, mg_ClientID := (if clientID = '''' then wc_ID (Worker cfg) else clientID),
      mg_Name := wc_Name (Worker cfg), mg_Version := wc_Version (Worker cfg), mg_MaxTasks := wc_MaxTasks (Worker cfg),
      mg_Tags := wc_Tags (Worker cfg), mg_UserAgent := cc_UserAgent (Client cfg),
      mg_BearerToken := cc_BearerToken (Client cfg), mg_ActiveTaskIDs := activeIDs\<rparr>"

definition heartbeatMessage :: "string \<Rightarrow> string list \<Rightarrow> Message" where
  "heartbeatMessage clientID activeIDs = zero_message
     \<lparr>mg_Type := MessageHeartbeat, mg_ClientID := clientID, mg_ActiveTaskIDs := activeIDs\<rparr>"

text \<open>A connection: \<open>Conn.Send\<close>, \<open>Conn.Receive\<close> and \<open>Conn.Close\<close>. The handshake gives the new client id.\<close>

record 'c conn =
  co_send :: "Message \<Rightarrow> 'c \<Rightarrow> go_err option \<times> 'c"
  co_receive :: "'c \<Rightarrow> (go_err + Message) \<times> 'c"
  co_close :: "'c \<Rightarrow> 'c"

definition tcpHandshake :: "'c conn \<Rightarrow> Config \<Rightarrow> string \<Rightarrow> string list \<Rightarrow> ('c, string) io" where
  "tcpHandshake C cfg clientID activeIDs c =
     (case co_send C (registerMessage cfg clientID activeIDs) c of
        (Some e, c) \<Rightarrow> (Inl e, c)
      | (None, c) \<Rightarrow>
          (case co_receive C c of
             (Inl e, c) \<Rightarrow> (Inl e, c)
           | (Inr registered, c) \<Rightarrow>
               (if mg_Type registered = MessageError then Inl (Failure ''tcp register rejected'')
                else if mg_Type registered \<noteq> MessageRegistered then Inl (Failure ''unexpected tcp register response'')
                else Inr (mg_ClientID registered), c)))"

text \<open>The tasks a message of the server brings; other messages are logged.\<close>

definition pushedTasks :: "Message \<Rightarrow> string list" where
  "pushedTasks msg = (if mg_Type msg = MessageTaskPush then map tp_TaskID (mg_Tasks msg) else [])"

section \<open>Tasks and slots\<close>

text \<open>
  A run is the goroutine of a task: it holds a slot of the semaphore that was current when it was spawned, and it is
  handling its task from \<open>addActive\<close> to \<open>removeActive\<close>; after that it still has its slot, in which a panic
  is reported. The queue holds the tasks of the last lease or message that have not been
  given a slot yet. Over HTTP there is one semaphore; over TCP every connection makes its own.
\<close>

datatype stage = Spawned | Handling | Leaving

record run =
  rn_task :: string
  rn_sem :: nat
  rn_stage :: stage

record worker_state =
  wk_sem :: nat
  wk_queue :: "string list"
  wk_runs :: "run list"
  wk_active :: "string set"

definition taken :: "worker_state \<Rightarrow> nat \<Rightarrow> nat" where
  "taken s c = length (filter (\<lambda>r. rn_sem r = c) (wk_runs s))"

definition addActive :: "string \<Rightarrow> worker_state \<Rightarrow> worker_state" where
  "addActive taskID s = s\<lparr>wk_active := insert taskID (wk_active s)\<rparr>"

definition removeActive :: "string \<Rightarrow> worker_state \<Rightarrow> worker_state" where
  "removeActive taskID s = s\<lparr>wk_active := wk_active s - {taskID}\<rparr>"

text \<open>A map is ranged over in any order; \<open>order\<close> picks one.\<close>

definition activeTaskIDs :: "(string set \<Rightarrow> string list) \<Rightarrow> worker_state \<Rightarrow> string list" where
  "activeTaskIDs order s = order (wk_active s)"

definition activeTaskCount :: "worker_state \<Rightarrow> nat" where
  "activeTaskCount s = card (wk_active s)"

text \<open>The goroutine of a task.\<close>

inductive task_step :: "worker_state \<Rightarrow> worker_state \<Rightarrow> bool" where
  begins: "wk_runs s = as @ r # bs \<Longrightarrow> rn_stage r = Spawned \<Longrightarrow>
    task_step s (addActive (rn_task r) (s\<lparr>wk_runs := as @ r\<lparr>rn_stage := Handling\<rparr> # bs\<rparr>))"
| ends: "wk_runs s = as @ r # bs \<Longrightarrow> rn_stage r = Handling \<Longrightarrow>
    task_step s (removeActive (rn_task r) (s\<lparr>wk_runs := as @ r\<lparr>rn_stage := Leaving\<rparr> # bs\<rparr>))"
| leaves: "wk_runs s = as @ r # bs \<Longrightarrow> rn_stage r = Leaving \<Longrightarrow> task_step s (s\<lparr>wk_runs := as @ bs\<rparr>)"

text \<open>The loop takes a slot for the next task of the queue.\<close>

definition spawn :: "string \<Rightarrow> string list \<Rightarrow> worker_state \<Rightarrow> worker_state" where
  "spawn t q s = s\<lparr>wk_queue := q, wk_runs := wk_runs s @ [\<lparr>rn_task = t, rn_sem = wk_sem s, rn_stage = Spawned\<rparr>]\<rparr>"

text \<open>\<open>runHTTP\<close>: it only asks for tasks when a slot is free. A lease that fails or times out brings no task.\<close>

inductive http_step :: "(worker_state \<Rightarrow> string list \<Rightarrow> bool) \<Rightarrow> nat \<Rightarrow> worker_state \<Rightarrow> worker_state \<Rightarrow> bool"
  for offers maxTasks where
  lease: "wk_queue s = [] \<Longrightarrow> taken s (wk_sem s) < maxTasks \<Longrightarrow> ts = [] \<or> offers s ts \<Longrightarrow>
    http_step offers maxTasks s (s\<lparr>wk_queue := ts\<rparr>)"
| start: "wk_queue s = t # q \<Longrightarrow> taken s (wk_sem s) < maxTasks \<Longrightarrow> http_step offers maxTasks s (spawn t q s)"
| task: "task_step s s' \<Longrightarrow> http_step offers maxTasks s s'"

text \<open>
  \<open>runTCPConnection\<close> and \<open>runTCP\<close>: the next message is received when every task of the last one has a slot; when the
  connection is lost, the loop goes on with a new one, and with a new semaphore, while the tasks run on.
\<close>

inductive tcp_step :: "(worker_state \<Rightarrow> string list \<Rightarrow> bool) \<Rightarrow> nat \<Rightarrow> worker_state \<Rightarrow> worker_state \<Rightarrow> bool"
  for offers maxTasks where
  receive: "wk_queue s = [] \<Longrightarrow> pushedTasks msg = [] \<or> offers s (pushedTasks msg) \<Longrightarrow>
    tcp_step offers maxTasks s (s\<lparr>wk_queue := pushedTasks msg\<rparr>)"
| start: "wk_queue s = t # q \<Longrightarrow> taken s (wk_sem s) < maxTasks \<Longrightarrow> tcp_step offers maxTasks s (spawn t q s)"
| reconnect: "wk_queue s = [] \<Longrightarrow> tcp_step offers maxTasks s (s\<lparr>wk_sem := Suc (wk_sem s)\<rparr>)"
| task: "task_step s s' \<Longrightarrow> tcp_step offers maxTasks s s'"

inductive_cases task_stepE: "task_step s s'"
inductive_cases http_stepE: "http_step offers m s s'"
inductive_cases tcp_stepE: "tcp_step offers m s s'"

definition start_state :: worker_state where
  "start_state = \<lparr>wk_sem = 0, wk_queue = [], wk_runs = [], wk_active = {}\<rparr>"

section \<open>Invariants of both loops\<close>

definition handled :: "worker_state \<Rightarrow> string set" where
  "handled s = set (map rn_task (filter (\<lambda>r. rn_stage r = Handling) (wk_runs s)))"

definition slots_inv :: "nat \<Rightarrow> worker_state \<Rightarrow> bool" where
  "slots_inv m s \<longleftrightarrow>
     (\<forall>c. taken s c \<le> m) \<and> (\<forall>r\<in>set (wk_runs s). rn_sem r \<le> wk_sem s) \<and> wk_active s \<subseteq> handled s"

text \<open>A server that hands out a task only once while it is in flight.\<close>

definition in_flight :: "worker_state \<Rightarrow> string list" where
  "in_flight s = map rn_task (filter (\<lambda>r. rn_stage r \<noteq> Leaving) (wk_runs s))"

definition fresh_server :: "worker_state \<Rightarrow> string list \<Rightarrow> bool" where
  "fresh_server s ts \<longleftrightarrow> distinct ts \<and> set ts \<inter> set (in_flight s) = {}"

definition fresh_offers :: "(worker_state \<Rightarrow> string list \<Rightarrow> bool) \<Rightarrow> bool" where
  "fresh_offers offers \<longleftrightarrow> (\<forall>s ts. offers s ts \<longrightarrow> fresh_server s ts)"

definition active_inv :: "worker_state \<Rightarrow> bool" where
  "active_inv s \<longleftrightarrow> distinct (wk_queue s @ in_flight s) \<and> wk_active s = handled s"

text \<open>The steps the loops share; \<open>next_sem\<close> is a new connection.\<close>

locale slot_loop =
  fixes step :: "worker_state \<Rightarrow> worker_state \<Rightarrow> bool"
    and offers :: "worker_state \<Rightarrow> string list \<Rightarrow> bool"
    and maxTasks :: nat
  assumes step_cases: "step s s' \<Longrightarrow>
    (\<exists>ts. wk_queue s = [] \<and> (ts = [] \<or> offers s ts) \<and> s' = s\<lparr>wk_queue := ts\<rparr>) \<or>
    (\<exists>t q. wk_queue s = t # q \<and> taken s (wk_sem s) < maxTasks \<and> s' = spawn t q s) \<or>
    (wk_queue s = [] \<and> s' = s\<lparr>wk_sem := Suc (wk_sem s)\<rparr>) \<or>
    task_step s s'"
begin

lemma stepE:
  assumes "step s s'"
  obtains (fill) ts where "wk_queue s = []" "ts = [] \<or> offers s ts" "s' = s\<lparr>wk_queue := ts\<rparr>"
    | (spawns) t q where "wk_queue s = t # q" "taken s (wk_sem s) < maxTasks" "s' = spawn t q s"
    | (renew) "wk_queue s = []" "s' = s\<lparr>wk_sem := Suc (wk_sem s)\<rparr>"
    | (begins) as r bs where "wk_runs s = as @ r # bs" "rn_stage r = Spawned"
        "s' = addActive (rn_task r) (s\<lparr>wk_runs := as @ r\<lparr>rn_stage := Handling\<rparr> # bs\<rparr>)"
    | (ends) as r bs where "wk_runs s = as @ r # bs" "rn_stage r = Handling"
        "s' = removeActive (rn_task r) (s\<lparr>wk_runs := as @ r\<lparr>rn_stage := Leaving\<rparr> # bs\<rparr>)"
    | (leaves) as r bs where "wk_runs s = as @ r # bs" "rn_stage r = Leaving" "s' = s\<lparr>wk_runs := as @ bs\<rparr>"
  using step_cases [OF assms] by (elim disjE exE conjE task_step.cases) blast+

lemma step_slots:
  assumes "slots_inv maxTasks s" and "step s s'"
  shows "slots_inv maxTasks s'"
  using assms(2)
proof (cases rule: stepE)
  case (spawns t q)
  then show ?thesis using assms(1) by (auto simp: slots_inv_def spawn_def taken_def handled_def)
next
  case (begins as r bs)
  have "taken s' c = taken s c" for c using begins by (simp add: taken_def addActive_def)
  then show ?thesis using assms(1) begins by (auto simp: slots_inv_def addActive_def handled_def)
next
  case (ends as r bs)
  have "taken s' c = taken s c" for c using ends by (simp add: taken_def removeActive_def)
  then show ?thesis using assms(1) ends by (auto simp: slots_inv_def removeActive_def handled_def)
next
  case (leaves as r bs)
  have "taken s' c \<le> taken s c" for c using leaves by (simp add: taken_def)
  then have "\<forall>c. taken s' c \<le> maxTasks" using assms(1) unfolding slots_inv_def by (meson le_trans)
  then show ?thesis using assms(1) leaves by (auto simp: slots_inv_def handled_def)
qed (use assms(1) in \<open>auto simp: slots_inv_def taken_def handled_def\<close>)

lemma reachable_slots: "step\<^sup>*\<^sup>* start_state s \<Longrightarrow> slots_inv maxTasks s"
proof (induction rule: rtranclp_induct)
  case base
  show ?case by (simp add: slots_inv_def start_state_def taken_def)
next
  case (step s s')
  then show ?case using step_slots by blast
qed

lemma step_active:
  assumes "active_inv s" and "step s s'" and "fresh_offers offers"
  shows "active_inv s'"
  using assms(2)
proof (cases rule: stepE)
  case (fill ts)
  then show ?thesis
    using assms(1,3) by (auto simp: active_inv_def handled_def fresh_offers_def fresh_server_def in_flight_def)
next
  case (spawns t q)
  then show ?thesis using assms(1) by (auto simp: active_inv_def spawn_def handled_def in_flight_def)
next
  case (begins as r bs)
  then show ?thesis using assms(1) by (auto simp: active_inv_def addActive_def handled_def in_flight_def)
next
  case (ends as r bs)
  then show ?thesis using assms(1) by (auto simp: active_inv_def removeActive_def handled_def in_flight_def)
qed (use assms(1) in \<open>auto simp: active_inv_def handled_def in_flight_def\<close>)

lemma reachable_active: "step\<^sup>*\<^sup>* start_state s \<Longrightarrow> fresh_offers offers \<Longrightarrow> active_inv s"
proof (induction rule: rtranclp_induct)
  case base
  show ?case by (simp add: active_inv_def start_state_def handled_def in_flight_def)
next
  case (step s s')
  then show ?case using step_active by blast
qed

end

interpretation http_loop: slot_loop "http_step offers m" offers m for offers m
  by unfold_locales (auto elim!: http_stepE)

interpretation tcp_loop: slot_loop "tcp_step offers m" offers m for offers m
  by unfold_locales (auto elim!: tcp_stepE)

section \<open>Properties\<close>

lemma http_one_semaphore: "(http_step offers m)\<^sup>*\<^sup>* start_state s \<Longrightarrow> wk_sem s = 0"
  by (induction rule: rtranclp_induct)
    (auto simp: start_state_def spawn_def addActive_def removeActive_def elim!: http_stepE task_stepE)

text \<open>
  C5: Over HTTP the worker never runs more than \<open>max_tasks\<close> tasks, however many the server hands out (a lease may
  bring more tasks than were asked for), and in whatever order the loop and the tasks take their steps.
\<close>

theorem http_tasks_are_bounded:
  assumes "(http_step offers maxTasks)\<^sup>*\<^sup>* start_state s"
  shows "length (wk_runs s) \<le> maxTasks \<and> wk_active s \<subseteq> rn_task ` set (wk_runs s)"
proof -
  have i: "slots_inv maxTasks s" by (rule http_loop.reachable_slots [OF assms])
  have "\<forall>r\<in>set (wk_runs s). rn_sem r = 0"
    using i http_one_semaphore [OF assms] by (auto simp: slots_inv_def)
  then have "taken s 0 = length (wk_runs s)" by (simp add: taken_def)
  moreover have "taken s 0 \<le> maxTasks" using i by (simp add: slots_inv_def)
  ultimately show ?thesis using i by (auto simp: slots_inv_def handled_def)
qed

theorem http_tasks_are_bounded_witness:
  "length (wk_runs (spawn ''a'' [''b''] (start_state\<lparr>wk_queue := [''a'', ''b'']\<rparr>))) \<le> 1"
proof -
  let ?s = "start_state\<lparr>wk_queue := [''a'', ''b'']\<rparr>"
  have "http_step (\<lambda>_ _. True) 1 start_state ?s"
    by (rule http_step.lease) (simp_all add: start_state_def taken_def)
  moreover have "http_step (\<lambda>_ _. True) 1 ?s (spawn ''a'' [''b''] ?s)"
    by (rule http_step.start) (simp_all add: start_state_def taken_def)
  ultimately have "(http_step (\<lambda>_ _. True) 1)\<^sup>*\<^sup>* start_state (spawn ''a'' [''b''] ?s)" by auto
  from http_tasks_are_bounded [OF this] show ?thesis by simp
qed

text \<open>
  C16: When the server hands out no task that is in flight, a heartbeat lists exactly the tasks that are being
  handled, each once: none is forgotten and none that has ended is kept.
\<close>

theorem heartbeat_lists_handled_tasks:
  assumes "(http_step offers m)\<^sup>*\<^sup>* start_state s \<or> (tcp_step offers m)\<^sup>*\<^sup>* start_state s" and "fresh_offers offers"
    and "\<And>A. finite A \<Longrightarrow> set (order A) = A \<and> distinct (order A)"
  shows "set (activeTaskIDs order s) = handled s \<and> distinct (activeTaskIDs order s) \<and>
    activeTaskCount s = length (filter (\<lambda>r. rn_stage r = Handling) (wk_runs s))"
proof -
  have i: "active_inv s"
    using assms(1,2) http_loop.reachable_active tcp_loop.reachable_active by blast
  then have a: "wk_active s = handled s" "distinct (in_flight s)" by (simp_all add: active_inv_def)
  have "finite (handled s)" by (simp add: handled_def)
  moreover have "distinct (map rn_task (filter (\<lambda>r. rn_stage r = Handling) (filter (\<lambda>r. rn_stage r \<noteq> Leaving) (wk_runs s))))"
    using a(2) unfolding in_flight_def by (rule distinct_map_filter)
  then have "distinct (map rn_task (filter (\<lambda>r. rn_stage r = Handling) (wk_runs s)))"
    by (simp add: conj_commute cong: filter_cong) (metis (mono_tags, lifting) filter_cong stage.distinct(5))
  ultimately show ?thesis
    using assms(3) [of "handled s"] a(1) distinct_card
    by (fastforce simp: activeTaskIDs_def activeTaskCount_def handled_def)
qed

text \<open>A server that gives out a task a second time makes the worker forget the run that is left.\<close>

lemma duplicate_lease_is_forgotten:
  "\<exists>s. (http_step (\<lambda>_ _. True) 2)\<^sup>*\<^sup>* start_state s \<and> ''a'' \<in> handled s \<and> ''a'' \<notin> wk_active s"
proof -
  let ?H = "http_step (\<lambda>_ _. True) 2"
  let ?r = "\<lambda>st. \<lparr>rn_task = ''a'', rn_sem = 0, rn_stage = st\<rparr>"
  let ?s = "\<lambda>q rs A. \<lparr>wk_sem = 0, wk_queue = q, wk_runs = rs, wk_active = A\<rparr>"
  have 1: "?H start_state (?s [''a'', ''a''] [] {})"
    using http_step.lease [of start_state 2 "[''a'', ''a'']" "\<lambda>_ _. True"] by (simp add: start_state_def taken_def)
  have 2: "?H (?s [''a'', ''a''] [] {}) (?s [''a''] [?r Spawned] {})"
    using http_step.start [of "?s [''a'', ''a''] [] {}" "''a''" "[''a'']" 2] by (simp add: spawn_def taken_def)
  have 3: "?H (?s [''a''] [?r Spawned] {}) (?s [] [?r Spawned, ?r Spawned] {})"
    using http_step.start [of "?s [''a''] [?r Spawned] {}" "''a''" "[]" 2] by (simp add: spawn_def taken_def)
  have 4: "?H (?s [] [?r Spawned, ?r Spawned] {}) (?s [] [?r Handling, ?r Spawned] {''a''})"
    using task_step.begins [of "?s [] [?r Spawned, ?r Spawned] {}" "[]" "?r Spawned" "[?r Spawned]"]
    by (auto simp: addActive_def intro: http_step.task)
  have 5: "?H (?s [] [?r Handling, ?r Spawned] {''a''}) (?s [] [?r Handling, ?r Handling] {''a''})"
    using task_step.begins [of "?s [] [?r Handling, ?r Spawned] {''a''}" "[?r Handling]" "?r Spawned" "[]"]
    by (auto simp: addActive_def intro: http_step.task)
  have 6: "?H (?s [] [?r Handling, ?r Handling] {''a''}) (?s [] [?r Leaving, ?r Handling] {})"
    using task_step.ends [of "?s [] [?r Handling, ?r Handling] {''a''}" "[]" "?r Handling" "[?r Handling]"]
    by (auto simp: removeActive_def intro: http_step.task)
  have "?H\<^sup>*\<^sup>* start_state (?s [] [?r Leaving, ?r Handling] {})"
    by (intro rtranclp.rtrancl_into_rtrancl [of ?H, OF _ 6] rtranclp.rtrancl_into_rtrancl [of ?H, OF _ 5]
        rtranclp.rtrancl_into_rtrancl [of ?H, OF _ 4] rtranclp.rtrancl_into_rtrancl [of ?H, OF _ 3]
        rtranclp.rtrancl_into_rtrancl [of ?H, OF _ 2] r_into_rtranclp [of ?H, OF 1])
  moreover have "''a'' \<in> handled (?s [] [?r Leaving, ?r Handling] {})" "''a'' \<notin> wk_active (?s [] [?r Leaving, ?r Handling] {})"
    by (simp_all add: handled_def)
  ultimately show ?thesis by blast
qed

lemma fresh_server_fresh: "fresh_offers fresh_server"
  by (simp add: fresh_offers_def)

text \<open>Two tasks are leased, and the first has begun.\<close>

theorem heartbeat_lists_handled_tasks_witness:
  "\<exists>s. (http_step fresh_server 2)\<^sup>*\<^sup>* start_state s \<and> wk_queue s = [''b''] \<and>
     set (activeTaskIDs sorted_list_of_set s) = {''a''} \<and> activeTaskCount s = 1"
proof -
  let ?H = "http_step fresh_server 2"
  let ?r = "\<lambda>st. \<lparr>rn_task = ''a'', rn_sem = 0, rn_stage = st\<rparr>"
  let ?s = "\<lambda>q rs A. \<lparr>wk_sem = 0, wk_queue = q, wk_runs = rs, wk_active = A\<rparr>"
  let ?t = "?s [''b''] [?r Handling] {''a''}"
  have 1: "?H start_state (?s [''a'', ''b''] [] {})"
    using http_step.lease [of start_state 2 "[''a'', ''b'']" fresh_server]
    by (simp add: start_state_def taken_def fresh_server_def in_flight_def)
  have 2: "?H (?s [''a'', ''b''] [] {}) (?s [''b''] [?r Spawned] {})"
    using http_step.start [of "?s [''a'', ''b''] [] {}" "''a''" "[''b'']" 2] by (simp add: spawn_def taken_def)
  have 3: "?H (?s [''b''] [?r Spawned] {}) ?t"
    using task_step.begins [of "?s [''b''] [?r Spawned] {}" "[]" "?r Spawned" "[]"]
    by (auto simp: addActive_def intro: http_step.task)
  have reach: "?H\<^sup>*\<^sup>* start_state ?t"
    by (intro rtranclp.rtrancl_into_rtrancl [of ?H, OF _ 3] rtranclp.rtrancl_into_rtrancl [of ?H, OF _ 2]
        r_into_rtranclp [of ?H, OF 1])
  have order: "set (sorted_list_of_set A) = A \<and> distinct (sorted_list_of_set A)" if "finite A" for A :: "string set"
    using that by simp
  have "set (activeTaskIDs sorted_list_of_set ?t) = {''a''} \<and> activeTaskCount ?t = 1"
    using heartbeat_lists_handled_tasks [OF disjI1 [OF reach] fresh_server_fresh order] by (simp add: handled_def)
  with reach show ?thesis by (intro exI [of _ ?t]) simp
qed

section \<open>The TCP loop\<close>

lemma tcp_runs_bound:
  assumes "(tcp_step offers m)\<^sup>*\<^sup>* start_state s"
  shows "length (wk_runs s) \<le> m * Suc (wk_sem s)"
proof -
  have i: "slots_inv m s" by (rule tcp_loop.reachable_slots [OF assms])
  have count: "length rs \<le> (\<Sum>c\<le>n. length (filter (\<lambda>r. rn_sem r = c) rs))" if "\<forall>r\<in>set rs. rn_sem r \<le> n" for rs n
    using that
  proof (induction rs)
    case (Cons r rs)
    have "(\<Sum>c\<le>n. length (filter (\<lambda>r. rn_sem r = c) (r # rs))) =
        (\<Sum>c\<le>n. length (filter (\<lambda>r. rn_sem r = c) rs) + (if c = rn_sem r then 1 else 0))"
      by (intro sum.cong) auto
    also have "\<dots> = (\<Sum>c\<le>n. length (filter (\<lambda>r. rn_sem r = c) rs)) + 1"
      using Cons.prems by (simp add: sum.distrib)
    finally show ?case using Cons by simp
  qed simp
  have "\<forall>r\<in>set (wk_runs s). rn_sem r \<le> wk_sem s" using i by (simp add: slots_inv_def)
  from count [OF this] have "length (wk_runs s) \<le> (\<Sum>c\<le>wk_sem s. taken s c)" unfolding taken_def .
  also have "\<dots> \<le> (\<Sum>c\<le>wk_sem s. m)" using i by (intro sum_mono) (simp add: slots_inv_def)
  finally show ?thesis by (simp add: mult.commute)
qed

definition handling_run :: "nat \<Rightarrow> string \<Rightarrow> run" where
  "handling_run c t = \<lparr>rn_task = t, rn_sem = c, rn_stage = Handling\<rparr>"

text \<open>One more task on the current connection.\<close>

lemma tcp_add_task:
  assumes "wk_queue s = []" and "taken s (wk_sem s) < m" and "t \<notin> rn_task ` set (wk_runs s)"
  shows "(tcp_step fresh_server m)\<^sup>*\<^sup>* s
    (s\<lparr>wk_runs := wk_runs s @ [handling_run (wk_sem s) t], wk_active := insert t (wk_active s)\<rparr>)"
proof -
  let ?msg = "zero_message\<lparr>mg_Type := MessageTaskPush, mg_Tasks := [sample_task\<lparr>tp_TaskID := t\<rparr>]\<rparr>"
  let ?r = "\<lparr>rn_task = t, rn_sem = wk_sem s, rn_stage = Spawned\<rparr>"
  let ?s1 = "s\<lparr>wk_queue := [t]\<rparr>" and ?s2 = "s\<lparr>wk_queue := [], wk_runs := wk_runs s @ [?r]\<rparr>"
  have q: "s\<lparr>wk_queue := [], wk_runs := x, wk_active := y\<rparr> = s\<lparr>wk_runs := x, wk_active := y\<rparr>" for x y
    using assms(1) by (cases s) simp
  have p: "pushedTasks ?msg = [t]" by (simp add: pushedTasks_def)
  have f: "fresh_server s [t]" using assms(3) by (auto simp: fresh_server_def in_flight_def)
  have 1: "tcp_step fresh_server m s ?s1"
    using tcp_step.receive [of s ?msg fresh_server m] assms(1) f unfolding p by simp
  have 2: "tcp_step fresh_server m ?s1 ?s2"
    using tcp_step.start [of ?s1 t "[]" m fresh_server] assms(1,2) by (simp add: spawn_def taken_def)
  have 3: "tcp_step fresh_server m ?s2
      (s\<lparr>wk_runs := wk_runs s @ [handling_run (wk_sem s) t], wk_active := insert t (wk_active s)\<rparr>)"
    using tcp_step.task [OF task_step.begins [of ?s2 "wk_runs s" ?r "[]"], of fresh_server m]
    by (simp add: addActive_def handling_run_def q)
  show ?thesis
    by (intro rtranclp.rtrancl_into_rtrancl [of "tcp_step fresh_server m", OF _ 3]
        rtranclp.rtrancl_into_rtrancl [of "tcp_step fresh_server m", OF _ 2] r_into_rtranclp [of "tcp_step fresh_server m", OF 1])
qed

lemma tcp_fill:
  assumes "wk_queue s = []" and "taken s (wk_sem s) + n \<le> m" and "\<forall>r\<in>set (wk_runs s). rn_stage r = Handling"
  shows "\<exists>s'. (tcp_step fresh_server m)\<^sup>*\<^sup>* s s' \<and> wk_queue s' = [] \<and> wk_sem s' = wk_sem s \<and>
    length (wk_runs s') = length (wk_runs s) + n \<and> (\<forall>r\<in>set (wk_runs s'). rn_stage r = Handling) \<and>
    taken s' (wk_sem s) = taken s (wk_sem s) + n \<and> (\<forall>c. c \<noteq> wk_sem s \<longrightarrow> taken s' c = taken s c)"
  using assms
proof (induction n arbitrary: s)
  case 0
  then show ?case by (intro exI [of _ s]) simp
next
  case (Suc n)
  obtain t where t: "t \<notin> rn_task ` set (wk_runs s)"
    using ex_new_if_finite [OF infinite_UNIV_listI, of "rn_task ` set (wk_runs s)"] by auto
  let ?s = "s\<lparr>wk_runs := wk_runs s @ [handling_run (wk_sem s) t], wk_active := insert t (wk_active s)\<rparr>"
  have 1: "(tcp_step fresh_server m)\<^sup>*\<^sup>* s ?s" using Suc.prems t by (intro tcp_add_task) auto
  have taken: "taken ?s c = taken s c + (if c = wk_sem s then 1 else 0)" for c
    by (simp add: taken_def handling_run_def)
  have "\<forall>r\<in>set (wk_runs ?s). rn_stage r = Handling" using Suc.prems(3) by (simp add: handling_run_def)
  from Suc.IH [OF _ _ this] Suc.prems(1,2) obtain s' where s':
    "(tcp_step fresh_server m)\<^sup>*\<^sup>* ?s s'" "wk_queue s' = []" "wk_sem s' = wk_sem s"
    "length (wk_runs s') = length (wk_runs ?s) + n" "\<forall>r\<in>set (wk_runs s'). rn_stage r = Handling"
    "taken s' (wk_sem s) = taken ?s (wk_sem s) + n" "\<forall>c. c \<noteq> wk_sem s \<longrightarrow> taken s' c = taken ?s c"
    by (auto simp: taken)
  have "(tcp_step fresh_server m)\<^sup>*\<^sup>* s s'" by (rule rtranclp_trans [OF 1 s'(1)])
  with s'(2-) show ?case by (intro exI [of _ s']) (simp add: taken)
qed

text \<open>
  C15: Over TCP the limit is one of each connection, not of the worker. After \<open>k\<close> reconnections, with a server that never
  hands out a task twice, \<open>max_tasks * (k + 1)\<close> tasks can be running at once, because every connection makes a new
  semaphore while the tasks of the earlier ones run on; and that is as far as it goes.
\<close>

theorem tcp_limit_is_per_connection:
  "(\<exists>s. (tcp_step fresh_server maxTasks)\<^sup>*\<^sup>* start_state s \<and> wk_sem s = k \<and>
      length (filter (\<lambda>r. rn_stage r = Handling) (wk_runs s)) = maxTasks * (k + 1)) \<and>
   {length (wk_runs s) | s. (tcp_step fresh_server maxTasks)\<^sup>*\<^sup>* start_state s \<and> wk_sem s = k} \<subseteq> {..maxTasks * (k + 1)}"
proof
  have "\<exists>s. (tcp_step fresh_server maxTasks)\<^sup>*\<^sup>* start_state s \<and> wk_queue s = [] \<and> wk_sem s = k \<and>
      length (wk_runs s) = maxTasks * (k + 1) \<and> (\<forall>r\<in>set (wk_runs s). rn_stage r = Handling) \<and> (\<forall>c>k. taken s c = 0)"
  proof (induction k)
    case 0
    have "wk_queue start_state = []" "taken start_state (wk_sem start_state) + maxTasks \<le> maxTasks"
      "\<forall>r\<in>set (wk_runs start_state). rn_stage r = Handling" by (simp_all add: start_state_def taken_def)
    from tcp_fill [OF this] obtain s where s: "(tcp_step fresh_server maxTasks)\<^sup>*\<^sup>* start_state s"
      "wk_queue s = []" "wk_sem s = wk_sem start_state" "length (wk_runs s) = length (wk_runs start_state) + maxTasks"
      "\<forall>r\<in>set (wk_runs s). rn_stage r = Handling" "\<forall>c. c \<noteq> wk_sem start_state \<longrightarrow> taken s c = taken start_state c" by blast
    then show ?case by (intro exI [of _ s]) (simp add: start_state_def taken_def)
  next
    case (Suc k)
    then obtain s where s: "(tcp_step fresh_server maxTasks)\<^sup>*\<^sup>* start_state s" "wk_queue s = []" "wk_sem s = k"
      "length (wk_runs s) = maxTasks * (k + 1)" "\<forall>r\<in>set (wk_runs s). rn_stage r = Handling" "\<forall>c>k. taken s c = 0" by blast
    let ?s = "s\<lparr>wk_sem := Suc k\<rparr>"
    have 1: "(tcp_step fresh_server maxTasks)\<^sup>*\<^sup>* start_state ?s"
      using rtranclp.rtrancl_into_rtrancl [of "tcp_step fresh_server maxTasks", OF s(1) tcp_step.reconnect [OF s(2)]] s(3) by simp
    have t: "taken ?s c = taken s c" for c by (simp add: taken_def)
    have "wk_queue ?s = []" "taken ?s (wk_sem ?s) + maxTasks \<le> maxTasks" "\<forall>r\<in>set (wk_runs ?s). rn_stage r = Handling"
      using s t by simp_all
    from tcp_fill [OF this] obtain s' where r: "(tcp_step fresh_server maxTasks)\<^sup>*\<^sup>* ?s s'"
      "wk_queue s' = []" "wk_sem s' = wk_sem ?s" "length (wk_runs s') = length (wk_runs ?s) + maxTasks"
      "\<forall>r\<in>set (wk_runs s'). rn_stage r = Handling" "\<forall>c. c \<noteq> wk_sem ?s \<longrightarrow> taken s' c = taken ?s c" by blast
    have s': "(tcp_step fresh_server maxTasks)\<^sup>*\<^sup>* ?s s'"
      "wk_queue s' = []" "wk_sem s' = Suc k" "length (wk_runs s') = length (wk_runs s) + maxTasks"
      "\<forall>r\<in>set (wk_runs s'). rn_stage r = Handling" "\<forall>c. c \<noteq> Suc k \<longrightarrow> taken s' c = taken s c"
      using r by (simp_all add: t)
    have "(tcp_step fresh_server maxTasks)\<^sup>*\<^sup>* start_state s'" by (rule rtranclp_trans [OF 1 s'(1)])
    moreover have "\<forall>c>Suc k. taken s' c = 0" using s'(6) s(6) by simp
    ultimately show ?case using s'(2-5) s(4) by (intro exI [of _ s']) simp
  qed
  then obtain s where s: "(tcp_step fresh_server maxTasks)\<^sup>*\<^sup>* start_state s" "wk_sem s = k"
      "length (wk_runs s) = maxTasks * (k + 1)" "\<forall>r\<in>set (wk_runs s). rn_stage r = Handling" by blast
  then have "filter (\<lambda>r. rn_stage r = Handling) (wk_runs s) = wk_runs s" by simp
  with s show "\<exists>s. (tcp_step fresh_server maxTasks)\<^sup>*\<^sup>* start_state s \<and> wk_sem s = k \<and>
      length (filter (\<lambda>r. rn_stage r = Handling) (wk_runs s)) = maxTasks * (k + 1)"
    by (intro exI [of _ s] conjI) simp_all
next
  show "{length (wk_runs s) | s. (tcp_step fresh_server maxTasks)\<^sup>*\<^sup>* start_state s \<and> wk_sem s = k} \<subseteq> {..maxTasks * (k + 1)}"
  proof
    fix n assume "n \<in> {length (wk_runs s) | s. (tcp_step fresh_server maxTasks)\<^sup>*\<^sup>* start_state s \<and> wk_sem s = k}"
    then obtain s where "(tcp_step fresh_server maxTasks)\<^sup>*\<^sup>* start_state s" "wk_sem s = k" "n = length (wk_runs s)" by blast
    with tcp_runs_bound [of fresh_server maxTasks s] show "n \<in> {..maxTasks * (k + 1)}" by simp
  qed
qed

end
