(* ===== verification/Sessions.thy ===== *)
theory Sessions
  imports WorkerLoop RuntimeStats
begin

text \<open>
  What \<open>internal/client\<close> starts beside the main loop: the HTTP client, the heartbeats of both modes, the diagnostics, and the
  connection the tasks report over. A ticker loop takes the list of what its \<open>select\<close> received so far.
\<close>

section \<open>The worker\<close>

record worker =
  wo_baseURL :: string
  wo_headers :: "(string \<times> string) list"
  wo_unpacker :: Unpacker
  wo_clientID :: string

definition NewWorker :: "Config \<Rightarrow> go_err + worker" where
  "NewWorker cfg =
     bindR (New cfg) (\<lambda>u. Inr
       \<lparr>wo_baseURL = cc_ServerURL (Client cfg),
        wo_headers = (''User-Agent'', cc_UserAgent (Client cfg)) #
          (if cc_BearerToken (Client cfg) \<noteq> '''' then [(''Authorization'', ''Bearer '' @ cc_BearerToken (Client cfg))] else []),
        wo_unpacker = u, wo_clientID = ''''\<rparr>)"

text \<open>The start of \<open>runHTTP\<close>; it gives the client id.\<close>

definition startHTTP :: "'n net \<Rightarrow> Config \<Rightarrow> ('n world, string) io" where
  "startHTTP N cfg = bindS (onFs (osMkdirAll (ws_Root (Workspace cfg)))) (\<lambda>_. register N cfg)"

text \<open>The connection tasks send over, as \<open>runTCPOnce\<close> sets and clears it.\<close>

definition setTCPConn :: "'c \<Rightarrow> 'c option \<Rightarrow> 'c option" where
  "setTCPConn conn w = Some conn"

definition clearTCPConn :: "'c \<Rightarrow> 'c option \<Rightarrow> 'c option" where
  "clearTCPConn conn w = (if w = Some conn then None else w)"

section \<open>Ticker loops\<close>

datatype 'a signal = Tick 'a | Done

fun ticks :: "'a signal list \<Rightarrow> 'a list" where
  "ticks [] = []"
| "ticks (Done # _) = []"
| "ticks (Tick x # rest) = x # ticks rest"

text \<open>A tick carries the ids of the tasks that are active at that moment. A heartbeat that fails is logged.\<close>

fun heartbeatLoop :: "'n net \<Rightarrow> string \<Rightarrow> string list signal list \<Rightarrow> ('n world, unit) io" where
  "heartbeatLoop N clientID [] = returnS ()"
| "heartbeatLoop N clientID (Done # _) = returnS ()"
| "heartbeatLoop N clientID (Tick ids # rest) =
     bindS (discard (heartbeat N clientID ids)) (\<lambda>_. heartbeatLoop N clientID rest)"

text \<open>
  Over TCP the loop sends once before the first tick; \<open>firstIDs\<close> are the ids then. The first error ends it and is what is in
  the channel \<open>errCh\<close>, which has room for it. Only an error after a tick closes the connection.
\<close>

fun heartbeatTicks :: "'c conn \<Rightarrow> string \<Rightarrow> string list signal list \<Rightarrow> 'c \<Rightarrow> go_err option \<times> 'c" where
  "heartbeatTicks C clientID [] c = (None, c)"
| "heartbeatTicks C clientID (Done # _) c = (None, c)"
| "heartbeatTicks C clientID (Tick ids # rest) c =
     (case co_send C (heartbeatMessage clientID ids) c of
        (Some e, c) \<Rightarrow> (Some e, co_close C c)
      | (None, c) \<Rightarrow> heartbeatTicks C clientID rest c)"

definition tcpHeartbeatLoop ::
    "'c conn \<Rightarrow> string \<Rightarrow> string list \<Rightarrow> string list signal list \<Rightarrow> 'c \<Rightarrow> go_err option \<times> 'c" where
  "tcpHeartbeatLoop C clientID firstIDs sigs c =
     (case co_send C (heartbeatMessage clientID firstIDs) c of
        (Some e, c) \<Rightarrow> (Some e, c)
      | (None, c) \<Rightarrow> heartbeatTicks C clientID sigs c)"

text \<open>A tick carries what is measured at that moment: the files, the goroutines and the heap.\<close>

definition runtimeStatsLoop :: "Config \<Rightarrow> (fsys \<times> int \<times> u64) signal list \<Rightarrow> warning list list" where
  "runtimeStatsLoop cfg sigs =
     (if seconds (dc_RuntimeStatsIntervalSeconds (Diagnostics cfg)) \<le> 0 then []
      else map (\<lambda>(s, goroutines, heap). logRuntimeStats cfg s goroutines heap) (ticks sigs))"

record diagnostics =
  dg_warnings :: "warning list"
  dg_pprof :: "string option"
  dg_statsLoop :: bool

definition startDiagnostics :: "Config \<Rightarrow> fsys \<Rightarrow> int \<Rightarrow> u64 \<Rightarrow> diagnostics" where
  "startDiagnostics cfg s goroutines heap =
     \<lparr>dg_warnings = logRuntimeStats cfg s goroutines heap,
      dg_pprof = (if dc_PprofAddress (Diagnostics cfg) \<noteq> '''' then Some (dc_PprofAddress (Diagnostics cfg)) else None),
      dg_statsLoop = (dc_RuntimeStatsIntervalSeconds (Diagnostics cfg) > 0)\<rparr>"

section \<open>Lemmas\<close>

text \<open>
  Over HTTP the heartbeats go on whatever the server answers: one is sent for each tick until the context ends,
  with the ids of that moment.
\<close>

lemma heartbeats_go_on:
  "heartbeatLoop N clientID sigs w = (Inr u, w') \<Longrightarrow>
   map fst (wd_attempts w') = map fst (wd_attempts w) @ map (\<lambda>ids. Post WorkerCtx (''/api/v1/clients/'' @ clientID @ ''/heartbeat'')
     (Heartbeat \<lparr>hb_ClientID = clientID, hb_ActiveTaskIDs = ids\<rparr>)) (ticks sigs)"
proof (induction sigs arbitrary: w rule: ticks.induct)
  case (3 ids rest)
  then obtain v r where v: "heartbeat N clientID ids w = (r, v)" "heartbeatLoop N clientID rest v = (Inr u, w')"
    by (auto simp: bindS_def discard_def split: prod.splits sum.splits if_splits)
  have "map fst (wd_attempts v) = map fst (wd_attempts w) @ [Post WorkerCtx (''/api/v1/clients/'' @ clientID @ ''/heartbeat'')
      (Heartbeat \<lparr>hb_ClientID = clientID, hb_ActiveTaskIDs = ids\<rparr>)]"
    using checked_post [OF v(1) [unfolded heartbeat_def]] by auto
  with 3(1) [OF v(2)] show ?case by simp
qed auto

text \<open>Over TCP the first error ends them, and then nothing is sent any more.\<close>

definition counting :: "(nat \<Rightarrow> go_err option) \<Rightarrow> nat conn" where
  "counting fails =
     \<lparr>co_send = \<lambda>_ n. (fails n, Suc n), co_receive = \<lambda>n. (Inl EOF, n), co_close = id\<rparr>"

lemma heartbeatTicks_counting:
  "heartbeatTicks (counting fails) clientID sigs n = (r, n') \<Longrightarrow>
   (\<forall>k. n \<le> k \<and> k + 1 < n' \<longrightarrow> fails k = None) \<and>
   (case r of
      Some e \<Rightarrow> n < n' \<and> fails (n' - 1) = Some e
    | None \<Rightarrow> n' = n + length (ticks sigs) \<and> (n < n' \<longrightarrow> fails (n' - 1) = None))"
proof (induction sigs arbitrary: n rule: ticks.induct)
  case (3 ids rest)
  show ?case
  proof (cases "fails n")
    case (Some e)
    then have "r = Some e" "n' = Suc n" using 3(2) by (simp_all add: counting_def)
    with Some show ?thesis by auto
  next
    case None
    with 3(2) have "heartbeatTicks (counting fails) clientID rest (Suc n) = (r, n')" by (simp add: counting_def)
    note ih = 3(1) [OF this]
    have le: "Suc n \<le> n'" using ih by (auto split: option.splits)
    have "fails k = None" if "n \<le> k" "k + 1 < n'" for k
      using that ih None by (cases "k = n") auto
    with ih None le show ?thesis by (cases r) (auto simp: le_Suc_eq less_Suc_eq_le)
  qed
qed auto

lemma tcp_heartbeats_stop:
  assumes "tcpHeartbeatLoop (counting fails) clientID firstIDs sigs 0 = (Some e, n)"
  shows "0 < n \<and> fails (n - 1) = Some e \<and> (\<forall>k<n - 1. fails k = None)"
proof (cases "fails 0")
  case (Some e')
  with assms show ?thesis by (auto simp: tcpHeartbeatLoop_def counting_def)
next
  case None
  with assms have "heartbeatTicks (counting fails) clientID sigs 1 = (Some e, n)"
    by (simp add: tcpHeartbeatLoop_def counting_def)
  then have "1 < n \<and> fails (n - 1) = Some e \<and> (\<forall>k. 1 \<le> k \<and> k + 1 < n \<longrightarrow> fails k = None)"
    using heartbeatTicks_counting by fastforce
  moreover have "fails k = None" if "1 \<le> k \<longrightarrow> fails k = None" for k
    using that None by (cases "k = 0") auto
  ultimately show ?thesis by auto
qed

text \<open>Ending an old connection does not take away the one that replaced it.\<close>

lemma later_connection_stays:
  "clearTCPConn a (setTCPConn b w) = (if a = b then None else Some b)"
  by (simp add: clearTCPConn_def setTCPConn_def)

text \<open>A worker with a loaded configuration can be made, and says who it is.\<close>

lemma worker_starts:
  assumes "config_ok cfg"
  shows "\<exists>w. NewWorker cfg = Inr w \<and> wo_baseURL w = cc_ServerURL (Client cfg) \<and>
    (map_of (wo_headers w) ''Authorization'' = None \<longleftrightarrow> cc_BearerToken (Client cfg) = '''')"
proof -
  obtain u where "New cfg = Inr u" using semaphores_have_slots [OF assms] by blast
  then show ?thesis by (simp add: NewWorker_def)
qed

end
