(* ===== verification/Startup.thy ===== *)
theory Startup
  imports Config FileSys
begin

text \<open>
  \<open>internal/logger/logger.go\<close> and \<open>cmd/client/main.go\<close>. A logger appends lines to its output; the time stamp and the formatted message
  are arguments, and the names of levels are ASCII. \<open>main\<close> gives the exit code of the process; loading the configuration and running the worker are its parameters.
\<close>

section \<open>The logger\<close>

datatype logLevel = DEBUG | INFO | WARN | ERROR | CRITICAL

fun logRank :: "logLevel \<Rightarrow> nat" where
  "logRank DEBUG = 0" | "logRank INFO = 1" | "logRank WARN = 2" | "logRank ERROR = 3" | "logRank CRITICAL = 4"

instantiation logLevel :: linorder
begin

definition less_eq_logLevel :: "logLevel \<Rightarrow> logLevel \<Rightarrow> bool" where
  "less_eq_logLevel a b \<longleftrightarrow> logRank a \<le> logRank b"

definition less_logLevel :: "logLevel \<Rightarrow> logLevel \<Rightarrow> bool" where
  "less_logLevel a b \<longleftrightarrow> logRank a < logRank b"

instance
proof
  fix a b :: logLevel
  assume "a \<le> b" "b \<le> a"
  then show "a = b" by (cases a; cases b) (simp_all add: less_eq_logLevel_def)
qed (auto simp: less_eq_logLevel_def less_logLevel_def)

end

definition ansi :: "string \<Rightarrow> string" where
  "ansi code = CHR 0x1B # ''['' @ code @ ''m''"

definition colorGreen :: string where "colorGreen = ansi ''32''"
definition colorBlue :: string where "colorBlue = ansi ''34''"
definition colorMagenta :: string where "colorMagenta = ansi ''35''"
definition colorYellow :: string where "colorYellow = ansi ''33''"
definition colorRed :: string where "colorRed = ansi ''31''"
definition colorReset :: string where "colorReset = ansi ''0''"

definition levelNames :: "string list" where
  "levelNames = [''DEBUG'', ''INFO'', ''WARNING'', ''ERROR'', ''CRITICAL'']"

definition levelColors :: "string list" where
  "levelColors = [colorBlue, colorGreen, colorYellow, colorRed, colorMagenta]"

definition levelMap :: "string \<rightharpoonup> logLevel" where
  "levelMap = map_of
     [(''DEBUG'', DEBUG), (''INFO'', INFO), (''WARNING'', WARN), (''WARN'', WARN), (''ERROR'', ERROR), (''CRITICAL'', CRITICAL)]"

record Logger =
  lg_name :: string
  lg_level :: logLevel

definition NewLogger :: "string \<Rightarrow> string \<Rightarrow> Logger" where
  "NewLogger name level =
     \<lparr>lg_name = name, lg_level = (case levelMap (toUpper level) of Some l \<Rightarrow> l | None \<Rightarrow> INFO)\<rparr>"

definition logLine :: "Logger \<Rightarrow> logLevel \<Rightarrow> string \<Rightarrow> string \<Rightarrow> string" where
  "logLine l level now msg =
     colorGreen @ ''['' @ now @ '']'' @ colorReset @
     ''['' @ levelColors ! logRank level @ levelNames ! logRank level @ colorReset @ '']'' @
     ''['' @ colorMagenta @ lg_name l @ colorReset @ '']'' @ '' '' @ msg @ [CHR 0x0A]"

definition logf :: "Logger \<Rightarrow> logLevel \<Rightarrow> string \<Rightarrow> string \<Rightarrow> string list \<Rightarrow> string list" where
  "logf l level now msg out = (if level < lg_level l then out else out @ [logLine l level now msg])"

definition Debugf :: "Logger \<Rightarrow> string \<Rightarrow> string \<Rightarrow> string list \<Rightarrow> string list" where
  "Debugf l = logf l DEBUG"

definition Infof :: "Logger \<Rightarrow> string \<Rightarrow> string \<Rightarrow> string list \<Rightarrow> string list" where
  "Infof l = logf l INFO"

definition Warnf :: "Logger \<Rightarrow> string \<Rightarrow> string \<Rightarrow> string list \<Rightarrow> string list" where
  "Warnf l = logf l WARN"

definition Errorf :: "Logger \<Rightarrow> string \<Rightarrow> string \<Rightarrow> string list \<Rightarrow> string list" where
  "Errorf l = logf l ERROR"

definition Criticalf :: "Logger \<Rightarrow> string \<Rightarrow> string \<Rightarrow> string list \<Rightarrow> string list" where
  "Criticalf l = logf l CRITICAL"

definition Exceptionf :: "Logger \<Rightarrow> string \<Rightarrow> string \<Rightarrow> string list \<Rightarrow> string list" where
  "Exceptionf l now msg = logf l ERROR now (''[EXCEPTION] '' @ msg)"

section \<open>The process\<close>

definition osOpenAppend :: "string \<Rightarrow> (fsys, unit) io" where
  "osOpenAppend p = with_fault OpOpen p (\<lambda>s.
     if lookup p s = Inr Directory then (Inl (Failure ''is a directory''), s)
     else if disk s p = None then (Inr (), s\<lparr>fs_files := AList.update p [] (fs_files s)\<rparr>)
     else (Inr (), s))"

definition openLog :: "Config \<Rightarrow> (fsys, unit) io" where
  "openLog cfg =
     (if lc_File (Logging cfg) \<noteq> '''' then
        bindS (osMkdirAll (Dir (lc_File (Logging cfg)))) (\<lambda>_. osOpenAppend (lc_File (Logging cfg)))
      else returnS ())"

text \<open>The exit code of a process that panics is 2.\<close>

definition client_main ::
    "string \<Rightarrow> (go_err + Config) \<Rightarrow> (Config \<Rightarrow> Logger \<Rightarrow> (fsys, unit) io) \<Rightarrow> fsys \<Rightarrow> nat \<times> fsys" where
  "client_main version loaded run s =
     (case loaded of
        Inl _ \<Rightarrow> (1, s)
      | Inr cfg \<Rightarrow>
          let cfg = cfg\<lparr>Worker := (Worker cfg)\<lparr>wc_Version := version\<rparr>\<rparr>
          in case openLog cfg s of
               (Inl _, s) \<Rightarrow> (1, s)
             | (Inr _, s) \<Rightarrow>
                 (case run cfg (NewLogger ''Client'' (lc_Level (Logging cfg))) s of
                    (Inl e, s) \<Rightarrow> (if is_panic e then 2 else if e = Canceled then 0 else 1, s)
                  | (Inr _, s) \<Rightarrow> (0, s)))"

section \<open>Lemmas\<close>

text \<open>The output of a run of log calls: the lines at or above the level, in order.\<close>

lemma logged_lines:
  "fold (\<lambda>(level, now, msg). logf l level now msg) calls out =
   out @ map (\<lambda>(level, now, msg). logLine l level now msg) (filter (\<lambda>(level, _). lg_level l \<le> level) calls)"
  by (induction calls arbitrary: out) (auto simp: logf_def not_less)

text \<open>Every level has a name that sets it, in any case, and what is not the name of a level means \<open>INFO\<close>.\<close>

lemma level_of_name: "lg_level (NewLogger name (levelNames ! logRank level)) = level"
  by (cases level) (simp_all add: NewLogger_def levelNames_def levelMap_def toUpper_def upper_char_def)

lemma level_ignores_case: "NewLogger name (toLower s) = NewLogger name (toUpper s)"
proof -
  have "upper_char (lower_char c) = upper_char (upper_char c)" for c
    by (auto simp: upper_char_def lower_char_def Let_def)
  then have "upper_char \<circ> lower_char = upper_char \<circ> upper_char" by (simp add: fun_eq_iff)
  then show ?thesis by (simp add: NewLogger_def toUpper_def toLower_def)
qed

text \<open>A client that starts keeps what is in its log file, and one that is told to stop exits with 0.\<close>

lemma log_is_kept:
  assumes "openLog cfg s = (r, t)" and "disk s p = Some b" shows "disk t p = Some b"
proof -
  have "disk v p = Some b" if "osOpenAppend q u = (x, v)" "disk u p = Some b" for q u v x
    using that by (auto simp: osOpenAppend_def with_fault_def update_conv' split: option.splits if_splits)
  with assms show ?thesis
    by (auto simp: openLog_def bindS_def split: if_splits prod.splits sum.splits dest!: osMkdirAll_state)
qed

lemma canceled_client_exits_cleanly:
  assumes "openLog (cfg\<lparr>Worker := (Worker cfg)\<lparr>wc_Version := version\<rparr>\<rparr>) s = (Inr u, t)"
    and "\<And>c l. run c l t = (Inl Canceled, t')"
  shows "client_main version (Inr cfg) run s = (0, t')"
  using assms by (simp add: client_main_def Let_def is_panic_def)

end
