(* ===== verification/Spec2Isabelle.thy ===== *)
theory Spec2Isabelle
  imports
    Deobfuscation
    AcbUtf AcbAfs AcbTracks
    ResultPath
    HcaBits HcaCrc HcaCipher HcaHeader HcaFrame HcaCodes HcaRestore HcaImdct HcaBlock HcaDecoder
    UsmMask UsmDemux UsmMeta
    Config Protocol TcpFrame
    FileSys Exporter PostProcess
    Net Pipeline TaskRunner RuntimeStats WorkerLoop Sessions Startup
begin

text \<open>
  Moe-Asset-Updater-Client: a worker that takes tasks from a server, downloads an obfuscated Unity
  asset bundle, lets AssetStudio export it, takes the CRI containers among the exports apart (ACB sound
  banks, HCA audio, USM movies), and uploads the results as an archive with a manifest.

  \<^bold>\<open>The parts and how they interact\<close>

  \<^item> \<open>internal/unpack/obfuscator.go\<close> deobfuscates the downloaded bundle: theory \<open>Deobfuscation\<close>, with the
    shared loop in \<open>XorMask\<close>. The slice function is \<open>Deobfuscate\<close>, the stream function is
    \<open>DeobfuscateToWriter\<close> over a response body that comes in chunks and a writer that may be full.
  \<^item> \<open>internal/cricodecs/acb\<close> reads a sound bank. \<open>AcbReader\<close>: the byte reader of \<open>reader.go\<close>. \<open>AcbUtf\<close>: the
    UTF table parser of \<open>utf.go\<close> (\<open>NewUTFTable\<close> and what it calls). \<open>AcbAfs\<close>: the archive of \<open>afs.go\<close> and the
    row accessors of \<open>helpers.go\<close>. \<open>AcbTracks\<close>: the walk from cues to tracks of \<open>track.go\<close> and the
    extraction of \<open>acbextractor.go\<close>.
  \<^item> \<open>internal/cricodecs/hca\<close> decodes the audio of a track. \<open>HcaBits\<close>: the bit reader of \<open>clhca.go\<close>. \<open>HcaCrc\<close>,
    \<open>HcaCipher\<close>: its checksum, hearing threshold and ciphers. \<open>HcaHeader\<close>: the decoder's state \<open>ClHCA\<close>, the
    header's chunks, their validation, \<open>SetKey\<close>, \<open>GetInfo\<close> and \<open>DecodeReset\<close>. \<open>HcaFrame\<close>, \<open>HcaRestore\<close>,
    \<open>HcaImdct\<close>, \<open>HcaBlock\<close>: a frame, as \<open>clhcadecoder.go\<close> and \<open>clhcaimdct.go\<close> decode it (unpacking, noise and
    high bands and joint stereo, the inverse transform, \<open>DecodeBlock\<close>, \<open>TestBlock\<close>, the samples). \<open>HcaCodes\<close>: the code of the
    coefficients as an encoder writes it, which the frame's decoding is shown to undo.
    \<open>HcaDecoder\<close>: the streaming decoder of \<open>hcadecoder.go\<close>, the WAV file, and the test of a key.
  \<^item> \<open>internal/cricodecs/usm\<close> takes a movie apart. \<open>BinaryStream\<close>: the stream of \<open>utils/binary.go\<close>. \<open>UsmMask\<close>, \<open>UsmDemux\<close>:
    the masks, tables, headers and chunks of \<open>usm.go\<close>, up to \<open>ExtractUSM\<close>. \<open>UsmMeta\<close>: \<open>metadata.go\<close>, which reads the same
    header through a shifted reader, down to the frame rate.
  \<^item> \<open>internal/exporter\<close> writes the results: \<open>Exporter\<close>, over the file system of \<open>FileSys\<close> (with
    \<open>FindFilesByExtension\<close> of \<open>utils.go\<close>): \<open>ExportACB\<close>, \<open>ExportHCA\<close>, \<open>ExportUSM\<close> and the conversions of \<open>converter.go\<close>.
  \<^item> \<open>internal/unpack/unpacker.go\<close> takes a task from its download to its archive. \<open>ResultPath\<close> has the names and paths, the
    manifest and the archive as functions of what is found (string functions in \<open>GoStrings\<close> and \<open>GoPath\<close>).
    \<open>PostProcess\<close>: the arguments of AssetStudio and the handling of USM, ACB, WAV and PNG files. \<open>Pipeline\<close>: \<open>New\<close>,
    \<open>downloadBundle\<close>, \<open>ExtractUnityAssetBundle\<close>, \<open>buildManifest\<close>, \<open>createArchive\<close> and \<open>Process\<close>, which calls them all.
  \<^item> \<open>internal/config\<close>, \<open>internal/protocol\<close> and \<open>internal/tcpclient\<close>: \<open>Config\<close> (defaults, normalisation, expansion of
    variables), \<open>Protocol\<close> (the types of the messages), \<open>TcpFrame\<close> (frames over a stream that is cut anywhere).
  \<^item> \<open>internal/client\<close> (\<open>worker.go\<close>, \<open>tcp_worker.go\<close>) is the worker. \<open>Net\<close>: the world a task runs in, the semaphores and the retry loop.
    \<open>TaskRunner\<close>: the requests, both transports and \<open>runTaskSafelyWithTransport\<close>, which calls \<open>Process\<close> and uploads the result.
    \<open>WorkerLoop\<close>: the mode, the TCP handshake, and the main loops with the goroutines of the tasks as step
    relations. \<open>Sessions\<close>: the heartbeats and what else is started. \<open>RuntimeStats\<close>: memory limits and warnings.
  \<^item> \<open>cmd/client/main.go\<close> and \<open>internal/logger\<close>: \<open>Startup\<close>.

  \<^bold>\<open>How the code is modelled\<close>

  Sized integers are words (\<open>Prelude\<close>), errors and run-time panics are values of \<open>go_err\<close>, and \<open>io.ReadSeeker\<close>
  is the record \<open>read_seeker\<close> of its methods (\<open>GoIO\<close>). Code against that interface is written once, over
  any implementation; the locale \<open>seekable_reader\<close> is the contract of one, and in it every operation is
  shown to simulate the same operation on a \<open>bytes.Reader\<close>, the interpretation \<open>bytes_reader\<close>. What is shown of the code is
  shown over bytes and carried over by the simulation. The other interfaces are those of the readers and the bit masks in \<open>AcbReader\<close> and \<open>XorMask\<close>.
  A \<open>float32\<close> is a value of a type variable with the operations of the record \<open>float_ops\<close>, so the theorems about
  samples hold whatever the rounding. Loops are recursive functions; the ones over a stream end because
  each round consumes input or a block (the measures are in the termination proofs), so there is no fuel. The only loop with a
  count is \<open>retry\<close>, with the four attempts of the code.

  The disk is the record \<open>fsys\<close>, a table of files with an oracle of faults, so that every operation on it can fail and every
  error branch of the exporter and the pipeline is there. What a task does to the world is a function on the record
  \<open>world\<close>: the disk, the slots it holds, the log of all it attempted to send with the outcome of each
  attempt (a status, written to the connection, or an error, so that what never left the worker is there as such), and a state of the rest.
  The slots counted are those of the download, AssetStudio, post-processing and USM semaphores; \<open>acbSem\<close> and \<open>hcaSem\<close>, taken within the
  pools of the exporter, have their sizes in \<open>New\<close> and no slots in \<open>world\<close>. What the
  rest does (deadlines, servers, programs) is the records \<open>net\<close> and \<open>tools\<close> of arbitrary functions. The
  interfaces there are the locales \<open>task_transport\<close>, what a task relies on of the channel it reports over,
  with the HTTP and the TCP transport as its interpretations, and \<open>slot_loop\<close>, the steps that the main loops of both
  modes share; the invariants of the slots and of the set of active tasks are proved once in it.

  \<^bold>\<open>What the lemmas show\<close>

  For every parser: no input makes it panic (or exactly which input does), what it accepts, and that what it
  returns is what the bytes say. For every state: an invariant that each operation keeps (\<open>decoder_ok\<close> and
  \<open>ready\<close> for the HCA decoder, \<open>dec_ok\<close> for the streaming one, \<open>schema_ok\<close> for tables). For the optimised code: equality
  with a reference definition (the checksum's table, the inverse transform, the hearing threshold). For the
  paths: nothing leaves the task's directory. For a task: what its archive and manifest hold (the archive is whole unless closing
  its writers failed, an error the code drops: the parameter \<open>tl_cut\<close>), what it attempts to tell the server and in which order, that its
  slots are given back except the one under which an export panics, and that a download gets through as long as fewer than four
  attempts fail in a way the code notices (it takes a body that breaks off within the header for a short file). For the worker: how many tasks run at once, and which of them a heartbeat lists. The properties with their numbers stand in the theories; the
  ones that show a defect say so.

  \<^bold>\<open>Not modelled\<close>

  Real time (tickers, back-off and deadlines are choices of the environment), the mutexes, and the goroutines inside one task:
  the jobs of a pool run in the order they are sent, and a job that is interrupted by the error of another is a
  parameter.
  Empty directories: a directory is there when a file is below it. Flags, signals, the pprof server, \<open>Dial\<close>, and the texts of log and most error messages.
  The packages of others and of the standard library are parameters: ffmpeg, AssetStudio, the image codecs, YAML, JSON,
  regular expressions, tar and gzip, SHA-256, Shift-JIS. Functions without a caller (\<open>WriteBytes\<close>, \<open>GetTimeArg\<close>,
  \<open>DetermineFileMimeType\<close>, \<open>ExportMetadataFile\<close>) are left out.
\<close>

end
